(* ===== verification/Prelude.thy ===== *)
theory Prelude
  imports Main "HOL-Library.Word"
begin

unbundle bit_operations_syntax

text \<open>
  Shared types, automation and lemmas: names for the machine integers, the collections that
  the component theories feed, \<^verbatim>\<open>memcpy\<close> into a byte array, and reading and writing a
  ring of bytes.
\<close>

type_synonym u8 = "8 word"
type_synonym u16 = "16 word"
type_synonym u32 = "32 word"
type_synonym u64 = "64 word"

text \<open>Collections: \<open>svc_defs\<close> unfolds service operations, \<open>mem_simps\<close> rewrites byte arrays.\<close>

named_theorems svc_defs
named_theorems mem_simps

subsection \<open>Sequencing\<close>

text \<open>
  Straight-line code over an explicit state: \<open>steps\<close> runs a list of statements in order,
  \<open>when\<close> is a statement under an \<^verbatim>\<open>if\<close> with no \<^verbatim>\<open>else\<close>.
\<close>

fun steps :: "('s \<Rightarrow> 's) list \<Rightarrow> 's \<Rightarrow> 's" where
  "steps [] s = s"
| "steps (f # fs) s = steps fs (f s)"

definition "when" :: "('s \<Rightarrow> bool) \<Rightarrow> ('s \<Rightarrow> 's) \<Rightarrow> 's \<Rightarrow> 's" where
  "when P f s = (if P s then f s else s)"

lemma when_frame: "(\<And>t. g (f t) = g t) \<Longrightarrow> g (when P f s) = g s"
  by (simp add: when_def)

lemma when_True [simp]: "P s \<Longrightarrow> when P f s = f s"
  and when_False [simp]: "\<not> P s \<Longrightarrow> when P f s = s"
  by (simp_all add: when_def)

lemma steps_append: "steps (fs @ gs) s = steps gs (steps fs s)"
  by (induction fs arbitrary: s) simp_all

lemma steps_inv: "I s \<Longrightarrow> (\<And>f t. f \<in> set fs \<Longrightarrow> I t \<Longrightarrow> I (f t)) \<Longrightarrow> I (steps fs s)"
  by (induction fs arbitrary: s) simp_all

subsection \<open>Alternating events\<close>

text \<open>
  \<open>alternation a b es\<close> follows the events \<open>a\<close> and \<open>b\<close> of a trace: \<open>Some opened\<close> when they
  alternate beginning with \<open>a\<close>, with \<open>opened\<close> when the last of them is an \<open>a\<close>; \<open>None\<close> when they
  do not alternate.
\<close>

fun alt_step :: "'e \<Rightarrow> 'e \<Rightarrow> bool option \<Rightarrow> 'e \<Rightarrow> bool option" where
  "alt_step a b None e = None"
| "alt_step a b (Some opened) e =
     (if e = a then (if opened then None else Some True)
      else if e = b then (if opened then Some False else None)
      else Some opened)"

definition alternation :: "'e \<Rightarrow> 'e \<Rightarrow> 'e list \<Rightarrow> bool option" where
  "alternation a b es = foldl (alt_step a b) (Some False) es"

lemma alternation_Nil [simp]: "alternation a b [] = Some False"
  by (simp add: alternation_def)

lemma alternation_snoc: "alternation a b (es @ [e]) = alt_step a b (alternation a b es) e"
  by (simp add: alternation_def)

lemma alternation_None: "foldl (alt_step a b) None es = None"
  by (induction es) simp_all

lemma alternation_other:
  "a \<notin> set fs \<Longrightarrow> b \<notin> set fs \<Longrightarrow> alternation a b (es @ fs) = alternation a b es"
proof (induction fs rule: rev_induct)
  case (snoc f fs)
  then show ?case
    by (cases "alternation a b es") (auto simp: alternation_snoc simp flip: append_assoc)
qed simp

lemma alternation_shape:
  assumes "a \<noteq> b" "alternation a b es = Some opened"
  shows "\<exists>n. filter (\<lambda>e. e = a \<or> e = b) es = concat (replicate n [a, b]) @ (if opened then [a] else [])"
  using assms(2)
proof (induction es arbitrary: opened rule: rev_induct)
  case Nil
  then show ?case by (intro exI [of _ 0]) (simp add: alternation_def)
next
  case (snoc e es)
  then obtain o' where o': "alternation a b es = Some o'" "alt_step a b (Some o') e = Some opened"
    by (cases "alternation a b es") (auto simp: alternation_snoc)
  from snoc.IH [OF o'(1)] obtain n where
    n: "filter (\<lambda>e. e = a \<or> e = b) es = concat (replicate n [a, b]) @ (if o' then [a] else [])" by blast
  have snoc_rep: "concat (replicate n [a, b]) @ [a, b] = concat (replicate (Suc n) [a, b])"
    by (induction n) simp_all
  consider "e = a" "\<not> o'" "opened" | "e = b" "o'" "\<not> opened" | "e \<noteq> a" "e \<noteq> b" "opened = o'"
    using o'(2) by (auto split: if_splits)
  then show ?case
  proof cases
    case 2
    then show ?thesis using n snoc_rep by (intro exI [of _ "Suc n"]) simp
  qed (use n in \<open>auto intro!: exI [of _ n]\<close>)
qed

subsection \<open>Memory\<close>

text \<open>
  \<open>blit dst k src\<close> is \<^verbatim>\<open>memcpy(dst + k, src, n)\<close> for the whole of \<open>src\<close>. The copy is
  in range when \<open>k + length src \<le> length dst\<close>; each use proves that it is.
\<close>

definition blit :: "'a list \<Rightarrow> nat \<Rightarrow> 'a list \<Rightarrow> 'a list" where
  "blit dst k src = take k dst @ src @ drop (k + length src) dst"

lemma length_blit [mem_simps]:
  "k + length src \<le> length dst \<Longrightarrow> length (blit dst k src) = length dst"
  by (simp add: blit_def)

lemma nth_blit:
  assumes "k + length src \<le> length dst" "i < length dst"
  shows "blit dst k src ! i = (if k \<le> i \<and> i < k + length src then src ! (i - k) else dst ! i)"
  using assms by (auto simp: blit_def nth_append)

lemma blit_Nil [simp]: "k \<le> length dst \<Longrightarrow> blit dst k [] = dst"
  by (simp add: blit_def)

subsection \<open>Words\<close>

text \<open>Extensionality on bits for one word type, so that the rule does not reach the indices.\<close>

lemma word_eq_bits: "(a :: 'a::len word) = b \<longleftrightarrow> (\<forall>n. bit a n \<longleftrightarrow> bit b n)"
  by (simp add: bit_eq_iff) (metis bit_imp_le_length not_le)

lemma byte_bits: "n < LENGTH(8) \<longleftrightarrow> n = 0 \<or> n = 1 \<or> n = 2 \<or> n = 3 \<or> n = 4 \<or> n = 5 \<or> n = 6 \<or> n = 7" for n :: nat
  by auto

lemma byte_eqI:
  assumes "bit (a :: u8) 0 = bit b 0" "bit a 1 = bit b 1" "bit a 2 = bit b 2" "bit a 3 = bit b 3"
    "bit a 4 = bit b 4" "bit a 5 = bit b 5" "bit a 6 = bit b 6" "bit a 7 = bit b 7"
  shows "a = b"
proof (rule bit_word_eqI)
  fix n assume "n < LENGTH(8)"
  then show "bit a n = bit b n" unfolding byte_bits using assms by (elim disjE) simp_all
qed

subsection \<open>Unsigned 32-bit arithmetic on naturals\<close>

text \<open>
  Sizes, indices and counters of type \<^verbatim>\<open>uint32_t\<close> are natural numbers below \<open>2 ^ 32\<close>; the
  operations that can wrap are written out.
\<close>

definition add32 :: "nat \<Rightarrow> nat \<Rightarrow> nat" where
  "add32 a b = (a + b) mod 2 ^ 32"

definition sub32 :: "nat \<Rightarrow> nat \<Rightarrow> nat" where
  "sub32 a b = (a + (2 ^ 32 - b mod 2 ^ 32)) mod 2 ^ 32"

definition mul32 :: "nat \<Rightarrow> nat \<Rightarrow> nat" where
  "mul32 a b = (a * b) mod 2 ^ 32"

named_theorems no_wrap

lemma add32_id [no_wrap]: "a + b < 2 ^ 32 \<Longrightarrow> add32 a b = a + b"
  by (simp add: add32_def)

lemma sub32_id [no_wrap]: "b \<le> a \<Longrightarrow> a < 2 ^ 32 \<Longrightarrow> sub32 a b = a - b"
proof -
  assume "b \<le> a" "a < 2 ^ 32"
  then have "a + (2 ^ 32 - b mod 2 ^ 32) = (a - b) + 2 ^ 32" by simp
  with \<open>a < 2 ^ 32\<close> show ?thesis by (simp add: sub32_def)
qed

lemma mul32_id [no_wrap]: "a * b < 2 ^ 32 \<Longrightarrow> mul32 a b = a * b"
  by (simp add: mul32_def)

lemma and_mask_nat: "(a :: nat) AND (2 ^ k - 1) = a mod 2 ^ k"
  by (simp only: mask_eq_exp_minus_1 [symmetric] take_bit_eq_mask [symmetric] take_bit_eq_mod)

lemma and_mask_nat' [simp]: "(a :: nat) AND (2 ^ k - Suc 0) = a mod 2 ^ k"
  using and_mask_nat [of a k] by simp

lemma or_shifted_nat:
  assumes "(a :: nat) < 2 ^ k"
  shows "a OR (c * 2 ^ k) = a + c * 2 ^ k"
proof -
  have "a AND push_bit k c = 0"
  proof (rule bit_eqI)
    fix n
    have "bit a n \<Longrightarrow> n < k"
      using assms by (metis bit_take_bit_iff take_bit_nat_eq_self)
    then show "bit (a AND push_bit k c) n = bit 0 n"
      by (auto simp: bit_and_iff bit_push_bit_iff)
  qed
  then have "a OR push_bit k c = a + push_bit k c"
    by (simp add: disjunctive_add_eq_or)
  then show ?thesis by (simp add: push_bit_eq_mult)
qed

end
