(* ===== verification/Errors.thy ===== *)
theory Errors
  imports Prelude
begin

text \<open>
  The result codes of \<^verbatim>\<open>Source/core/Errors.h\<close>: the enumeration \<open>ErrorCodes\<close>
  and its numeric values. The C++ functions return them as \<^verbatim>\<open>uint32_t\<close>; where the code
  mixes a length and a code in one return value (\<open>CyclicBuffer::Reserve\<close>) the model does so
  too, through \<open>error_value\<close>.
\<close>

datatype (plugins only: code size) error_code =
    ERROR_NONE
  | ERROR_GENERAL
  | ERROR_UNAVAILABLE
  | ERROR_ASYNC_FAILED
  | ERROR_ASYNC_ABORTED
  | ERROR_ILLEGAL_STATE
  | ERROR_OPENING_FAILED
  | ERROR_ACCEPT_FAILED
  | ERROR_PENDING_SHUTDOWN
  | ERROR_ALREADY_CONNECTED
  | ERROR_CONNECTION_CLOSED
  | ERROR_TIMEDOUT
  | ERROR_INPROGRESS
  | ERROR_COULD_NOT_SET_ADDRESS
  | ERROR_INCORRECT_HASH
  | ERROR_INCORRECT_URL
  | ERROR_INVALID_INPUT_LENGTH
  | ERROR_DESTRUCTION_SUCCEEDED
  | ERROR_DESTRUCTION_FAILED
  | ERROR_CLOSING_FAILED
  | ERROR_PROCESS_TERMINATED
  | ERROR_PROCESS_KILLED
  | ERROR_UNKNOWN_KEY
  | ERROR_INCOMPLETE_CONFIG
  | ERROR_PRIVILIGED_REQUEST
  | ERROR_RPC_CALL_FAILED
  | ERROR_UNREACHABLE_NETWORK
  | ERROR_REQUEST_SUBMITTED
  | ERROR_UNKNOWN_TABLE
  | ERROR_DUPLICATE_KEY
  | ERROR_BAD_REQUEST
  | ERROR_PENDING_CONDITIONS
  | ERROR_SURFACE_UNAVAILABLE
  | ERROR_PLAYER_UNAVAILABLE
  | ERROR_FIRST_RESOURCE_NOT_FOUND
  | ERROR_SECOND_RESOURCE_NOT_FOUND
  | ERROR_ALREADY_RELEASED
  | ERROR_NEGATIVE_ACKNOWLEDGE
  | ERROR_INVALID_SIGNATURE
  | ERROR_READ_ERROR
  | ERROR_WRITE_ERROR
  | ERROR_INVALID_DESIGNATOR
  | ERROR_UNAUTHENTICATED
  | ERROR_NOT_EXIST
  | ERROR_NOT_SUPPORTED
  | ERROR_INVALID_RANGE
  | ERROR_HIBERNATED
  | ERROR_INPROC
  | ERROR_FAILED_REGISTERED
  | ERROR_FAILED_UNREGISTERED
  | ERROR_PARSE_FAILURE
  | ERROR_PRIVILIGED_DEFERRED
  | ERROR_INVALID_ENVELOPPE
  | ERROR_UNKNOWN_METHOD
  | ERROR_INVALID_PARAMETER
  | ERROR_INTERNAL_JSONRPC
  | ERROR_PARSING_ENVELOPPE
  | ERROR_COMPOSIT_OBJECT
  | ERROR_ABORTED
  | ERROR_CANCEL

primrec error_value :: "error_code \<Rightarrow> nat" where
    "error_value ERROR_NONE = 0"
  | "error_value ERROR_GENERAL = 1"
  | "error_value ERROR_UNAVAILABLE = 2"
  | "error_value ERROR_ASYNC_FAILED = 3"
  | "error_value ERROR_ASYNC_ABORTED = 4"
  | "error_value ERROR_ILLEGAL_STATE = 5"
  | "error_value ERROR_OPENING_FAILED = 6"
  | "error_value ERROR_ACCEPT_FAILED = 7"
  | "error_value ERROR_PENDING_SHUTDOWN = 8"
  | "error_value ERROR_ALREADY_CONNECTED = 9"
  | "error_value ERROR_CONNECTION_CLOSED = 10"
  | "error_value ERROR_TIMEDOUT = 11"
  | "error_value ERROR_INPROGRESS = 12"
  | "error_value ERROR_COULD_NOT_SET_ADDRESS = 13"
  | "error_value ERROR_INCORRECT_HASH = 14"
  | "error_value ERROR_INCORRECT_URL = 15"
  | "error_value ERROR_INVALID_INPUT_LENGTH = 16"
  | "error_value ERROR_DESTRUCTION_SUCCEEDED = 17"
  | "error_value ERROR_DESTRUCTION_FAILED = 18"
  | "error_value ERROR_CLOSING_FAILED = 19"
  | "error_value ERROR_PROCESS_TERMINATED = 20"
  | "error_value ERROR_PROCESS_KILLED = 21"
  | "error_value ERROR_UNKNOWN_KEY = 22"
  | "error_value ERROR_INCOMPLETE_CONFIG = 23"
  | "error_value ERROR_PRIVILIGED_REQUEST = 24"
  | "error_value ERROR_RPC_CALL_FAILED = 25"
  | "error_value ERROR_UNREACHABLE_NETWORK = 26"
  | "error_value ERROR_REQUEST_SUBMITTED = 27"
  | "error_value ERROR_UNKNOWN_TABLE = 28"
  | "error_value ERROR_DUPLICATE_KEY = 29"
  | "error_value ERROR_BAD_REQUEST = 30"
  | "error_value ERROR_PENDING_CONDITIONS = 31"
  | "error_value ERROR_SURFACE_UNAVAILABLE = 32"
  | "error_value ERROR_PLAYER_UNAVAILABLE = 33"
  | "error_value ERROR_FIRST_RESOURCE_NOT_FOUND = 34"
  | "error_value ERROR_SECOND_RESOURCE_NOT_FOUND = 35"
  | "error_value ERROR_ALREADY_RELEASED = 36"
  | "error_value ERROR_NEGATIVE_ACKNOWLEDGE = 37"
  | "error_value ERROR_INVALID_SIGNATURE = 38"
  | "error_value ERROR_READ_ERROR = 39"
  | "error_value ERROR_WRITE_ERROR = 40"
  | "error_value ERROR_INVALID_DESIGNATOR = 41"
  | "error_value ERROR_UNAUTHENTICATED = 42"
  | "error_value ERROR_NOT_EXIST = 43"
  | "error_value ERROR_NOT_SUPPORTED = 44"
  | "error_value ERROR_INVALID_RANGE = 45"
  | "error_value ERROR_HIBERNATED = 46"
  | "error_value ERROR_INPROC = 47"
  | "error_value ERROR_FAILED_REGISTERED = 48"
  | "error_value ERROR_FAILED_UNREGISTERED = 49"
  | "error_value ERROR_PARSE_FAILURE = 50"
  | "error_value ERROR_PRIVILIGED_DEFERRED = 51"
  | "error_value ERROR_INVALID_ENVELOPPE = 52"
  | "error_value ERROR_UNKNOWN_METHOD = 53"
  | "error_value ERROR_INVALID_PARAMETER = 54"
  | "error_value ERROR_INTERNAL_JSONRPC = 55"
  | "error_value ERROR_PARSING_ENVELOPPE = 56"
  | "error_value ERROR_COMPOSIT_OBJECT = 57"
  | "error_value ERROR_ABORTED = 58"
  | "error_value ERROR_CANCEL = 59"

end
