(* ===== verification/Conditions.thy ===== *)
theory Conditions
  imports Prelude
begin

text \<open>
  The class \<open>Server::Service::Condition\<close> of \<^verbatim>\<open>Source/Thunder/PluginServer.h\<close>: the
  precondition and the termination of a plugin, evaluated over the bit set of active subsystems.
  A condition holds a mask of the subsystems it looks at, the value expected of those bits, and a
  state byte: the operator (AND for preconditions, OR for terminations, ERROR after an illegal
  mix) and the flag that the condition is met. Debug assertions are not part of the model.
\<close>

subsection \<open>Subsystems\<close>

text \<open>The positive subsystems of \<open>ISubSystem::subsystem\<close>, in the order of the enumeration.\<close>

datatype (plugins only: code size) subsystem =
    PLATFORM | SECURITY | NETWORK | IDENTIFIER | GRAPHICS | INTERNET | LOCATION | TIME
  | PROVISIONING | DECRYPTION | WEBSOURCE | STREAMING | BLUETOOTH | CRYPTOGRAPHY | INSTALLATION

primrec subsystem_nr :: "subsystem \<Rightarrow> nat" where
    "subsystem_nr PLATFORM = 0"
  | "subsystem_nr SECURITY = 1"
  | "subsystem_nr NETWORK = 2"
  | "subsystem_nr IDENTIFIER = 3"
  | "subsystem_nr GRAPHICS = 4"
  | "subsystem_nr INTERNET = 5"
  | "subsystem_nr LOCATION = 6"
  | "subsystem_nr TIME = 7"
  | "subsystem_nr PROVISIONING = 8"
  | "subsystem_nr DECRYPTION = 9"
  | "subsystem_nr WEBSOURCE = 10"
  | "subsystem_nr STREAMING = 11"
  | "subsystem_nr BLUETOOTH = 12"
  | "subsystem_nr CRYPTOGRAPHY = 13"
  | "subsystem_nr INSTALLATION = 14"

text \<open>
  \<open>NEGATIVE_START\<close> is the offset of the values \<^verbatim>\<open>NOT_PLATFORM\<close>, \<^verbatim>\<open>NOT_SECURITY\<close>, and so
  on: \<open>not_subsystem s\<close> is the value of the negated subsystem.
\<close>

definition NEGATIVE_START :: u32 where
  "NEGATIVE_START = 0x80000000"

definition pos_subsystem :: "subsystem \<Rightarrow> u32" where
  "pos_subsystem s = of_nat (subsystem_nr s)"

definition not_subsystem :: "subsystem \<Rightarrow> u32" where
  "not_subsystem s = NEGATIVE_START + of_nat (subsystem_nr s)"

definition subsystem_bit :: "subsystem \<Rightarrow> u32" where
  "subsystem_bit s = push_bit (subsystem_nr s) 1"

subsection \<open>The condition\<close>

record condition =
  cd_events :: u32
  cd_mask :: u32
  cd_state :: u8

abbreviation STATE_AND :: u8 where "STATE_AND \<equiv> 0"
abbreviation STATE_OR :: u8 where "STATE_OR \<equiv> 1"
abbreviation STATE_ERROR :: u8 where "STATE_ERROR \<equiv> 2"
abbreviation STATE_OK :: u8 where "STATE_OK \<equiv> 0x80"

definition is_valid :: "condition \<Rightarrow> bool" where
  "is_valid c \<longleftrightarrow> cd_state c \<noteq> STATE_ERROR"

definition is_met :: "condition \<Rightarrow> bool" where
  "is_met c \<longleftrightarrow> cd_state c AND STATE_OK \<noteq> 0"

definition add_bit :: "condition \<Rightarrow> u32 \<Rightarrow> condition" where
  "add_bit c input =
     (if NEGATIVE_START \<le> input then
        let b = push_bit (unat (input - NEGATIVE_START)) 1;
            c' = (if cd_mask c AND b \<noteq> 0 \<and> cd_events c AND b \<noteq> 0 \<or> cd_state c AND 1 \<noteq> STATE_OR
                  then c\<lparr>cd_state := STATE_ERROR\<rparr> else c)
        in c'\<lparr>cd_mask := cd_mask c' OR b\<rparr>
      else
        let b = push_bit (unat input) 1;
            c' = (if cd_mask c AND b \<noteq> 0 \<and> cd_events c AND b = 0 \<or> cd_state c AND 1 \<noteq> STATE_AND
                  then c\<lparr>cd_state := STATE_ERROR\<rparr>
                  else c\<lparr>cd_events := cd_events c OR b\<rparr>)
        in c'\<lparr>cd_mask := cd_mask c' OR b\<rparr>)"

definition mk_condition :: "bool \<Rightarrow> u32 list \<Rightarrow> condition" where
  "mk_condition ANDOperation input =
     (let c = foldl add_bit
                \<lparr>cd_events = 0, cd_mask = 0, cd_state = (if ANDOperation then STATE_AND else STATE_OR)\<rparr>
                input
      in if cd_mask c = 0 then c\<lparr>cd_state := cd_state c OR STATE_OK\<rparr> else c)"

definition load_condition :: "condition \<Rightarrow> u32 list \<Rightarrow> bool \<times> condition" where
  "load_condition c0 input =
     (let c = foldl add_bit c0 input;
          c' = c\<lparr>cd_state := (if cd_mask c = 0 then cd_state c OR STATE_OK
                                else cd_state c AND NOT STATE_OK)\<rparr>
      in (is_valid c', c'))"

definition compliant :: "condition \<Rightarrow> u32 \<Rightarrow> bool" where
  "compliant c subsystems =
     (if cd_state c AND 3 = STATE_AND then (subsystems AND cd_mask c) XOR cd_events c = 0
      else if cd_state c AND 3 = STATE_OR then (subsystems AND cd_mask c) XOR cd_events c \<noteq> cd_events c
      else False)"

definition evaluate :: "condition \<Rightarrow> u32 \<Rightarrow> bool \<times> condition" where
  "evaluate c subsystems =
     (if cd_mask c \<noteq> 0 \<and> compliant c subsystems \<noteq> is_met c
      then (True, c\<lparr>cd_state := cd_state c XOR STATE_OK\<rparr>)
      else (False, c))"

definition delta :: "condition \<Rightarrow> u32 \<Rightarrow> u32" where
  "delta c currentSet = (currentSet AND cd_mask c) XOR cd_events c"

text \<open>
  The subsystem numbers that the trace of a postponed activation lists: a loop over the bits of the
  delta, with an index that starts at 1.
\<close>

function feedback_loop :: "u32 \<Rightarrow> nat \<Rightarrow> nat list" where
  "feedback_loop d index =
     (if d = 0 then []
      else (if d AND 1 \<noteq> 0 then [index] else []) @ feedback_loop (drop_bit 1 d) (index + 1))"
  by pat_completeness auto
termination
proof (relation "measure (\<lambda>(d, index). unat d)", simp)
  fix d :: u32 and index :: nat
  assume "d \<noteq> 0"
  then have "0 < unat d" by (simp add: unat_gt_0)
  then show "((drop_bit 1 d, index + 1), (d, index)) \<in> measure (\<lambda>(d, index). unat d)"
    by (simp add: drop_bit_eq_div unat_div_distrib)
qed

declare feedback_loop.simps [simp del]

definition delta_feedback :: "condition \<Rightarrow> u32 \<Rightarrow> nat list" where
  "delta_feedback c subsystems = feedback_loop (delta c subsystems) 1"

subsection \<open>Bits\<close>

lemma subsystem_nr_less: "subsystem_nr s < 15"
  by (cases s) simp_all

lemma subsystem_nr_inj: "subsystem_nr s = subsystem_nr s' \<longleftrightarrow> s = s'"
  by (cases s; cases s') simp_all

lemma pos_below: "\<not> NEGATIVE_START \<le> pos_subsystem s"
  by (cases s) (simp_all add: NEGATIVE_START_def pos_subsystem_def word_le_nat_alt)

lemma not_above: "NEGATIVE_START \<le> not_subsystem s"
  by (cases s) (simp_all add: NEGATIVE_START_def not_subsystem_def word_le_nat_alt)

lemma unat_pos: "unat (pos_subsystem s) = subsystem_nr s"
  by (cases s) (simp_all add: pos_subsystem_def)

lemma unat_not: "unat (not_subsystem s - NEGATIVE_START) = subsystem_nr s"
  by (cases s) (simp_all add: not_subsystem_def)

lemma bit_subsystem_bit: "bit (subsystem_bit s) n \<longleftrightarrow> n = subsystem_nr s"
  using subsystem_nr_less [of s]
  by (auto simp: subsystem_bit_def bit_simps bit_1_iff)

lemma subsystem_bit_nz: "subsystem_bit s \<noteq> 0"
  using bit_subsystem_bit [of s "subsystem_nr s"] by auto

lemma power_subsystem_bit: "2 ^ subsystem_nr s = subsystem_bit s"
  by (simp add: subsystem_bit_def)

lemma and_subsystem_bit: "w AND subsystem_bit s = 0 \<longleftrightarrow> \<not> bit w (subsystem_nr s)"
  by (auto simp: word_eq_bits bit_and_iff bit_subsystem_bit)

definition subsystem_mask :: "subsystem list \<Rightarrow> u32" where
  "subsystem_mask ss = foldl (\<lambda>m s. m OR subsystem_bit s) 0 ss"

lemma foldl_or_bits:
  "bit (foldl (\<lambda>m s. m OR subsystem_bit s) m ss) n \<longleftrightarrow> bit m n \<or> (\<exists>s\<in>set ss. n = subsystem_nr s)"
  by (induction ss arbitrary: m) (auto simp: bit_or_iff bit_subsystem_bit)

lemma bit_subsystem_mask: "bit (subsystem_mask ss) n \<longleftrightarrow> (\<exists>s\<in>set ss. n = subsystem_nr s)"
  by (simp add: subsystem_mask_def foldl_or_bits)

lemma subsystem_mask_eq_0: "subsystem_mask ss = 0 \<longleftrightarrow> ss = []"
  by (cases ss) (auto simp: word_eq_bits bit_subsystem_mask)

lemma subsystem_mask_snoc: "subsystem_mask (ss @ [s]) = subsystem_mask ss OR subsystem_bit s"
  by (simp add: subsystem_mask_def)

lemma mask_XOR_0:
  "(w AND subsystem_mask ss) XOR subsystem_mask ss = 0 \<longleftrightarrow> (\<forall>s\<in>set ss. bit w (subsystem_nr s))"
  by (auto simp: word_eq_bits bit_and_iff bit_xor_iff bit_subsystem_mask)

lemma mask_AND_0:
  "w AND subsystem_mask ss = 0 \<longleftrightarrow> (\<forall>s\<in>set ss. \<not> bit w (subsystem_nr s))"
  by (auto simp: word_eq_bits bit_and_iff bit_subsystem_mask)

subsection \<open>What a condition stands for\<close>

text \<open>
  \<open>requires ss c\<close>: the condition asks for every subsystem of \<open>ss\<close> (a precondition).
  \<open>watches ss c\<close>: the condition holds while one of \<open>ss\<close> is active (a termination).
  Both say what the code keeps between its fields.
\<close>

definition requires :: "subsystem list \<Rightarrow> condition \<Rightarrow> bool" where
  "requires ss c \<longleftrightarrow> cd_events c = subsystem_mask ss \<and> cd_mask c = subsystem_mask ss \<and>
     cd_state c \<in> {STATE_AND, STATE_OK} \<and> (ss = [] \<longrightarrow> is_met c)"

definition watches :: "subsystem list \<Rightarrow> condition \<Rightarrow> bool" where
  "watches ss c \<longleftrightarrow> cd_events c = 0 \<and> cd_mask c = subsystem_mask ss \<and>
     cd_state c \<in> {STATE_OR, STATE_OR OR STATE_OK} \<and> (ss = [] \<longrightarrow> is_met c)"

lemma foldl_add_pos:
  assumes "cd_events c = subsystem_mask ss" "cd_mask c = subsystem_mask ss" "cd_state c AND 1 = 0"
  shows "foldl add_bit c (map pos_subsystem ss') =
           c\<lparr>cd_events := subsystem_mask (ss @ ss'), cd_mask := subsystem_mask (ss @ ss')\<rparr>"
  using assms
proof (induction ss' arbitrary: c ss)
  case Nil
  then show ?case by simp
next
  case (Cons s ss')
  have "add_bit c (pos_subsystem s) =
          c\<lparr>cd_events := subsystem_mask (ss @ [s]), cd_mask := subsystem_mask (ss @ [s])\<rparr>"
    using Cons.prems
    by (simp add: add_bit_def pos_below unat_pos power_subsystem_bit subsystem_mask_snoc Let_def)
  then show ?case
    using Cons.prems(3) Cons.IH [of "c\<lparr>cd_events := subsystem_mask (ss @ [s]),
                      cd_mask := subsystem_mask (ss @ [s])\<rparr>" "ss @ [s]"] by simp
qed

lemma foldl_add_not:
  assumes "cd_events c = 0" "cd_mask c = subsystem_mask ss" "cd_state c AND 1 = 1"
  shows "foldl add_bit c (map not_subsystem ss') = c\<lparr>cd_mask := subsystem_mask (ss @ ss')\<rparr>"
  using assms
proof (induction ss' arbitrary: c ss)
  case Nil
  then show ?case by simp
next
  case (Cons s ss')
  have "add_bit c (not_subsystem s) = c\<lparr>cd_mask := subsystem_mask (ss @ [s])\<rparr>"
    using Cons.prems
    by (simp add: add_bit_def not_above unat_not power_subsystem_bit subsystem_mask_snoc Let_def)
  then show ?case
    using Cons.prems Cons.IH [of "c\<lparr>cd_mask := subsystem_mask (ss @ [s])\<rparr>" "ss @ [s]"] by simp
qed

lemma subsystem_mask_Nil: "subsystem_mask [] = 0"
  by (simp add: subsystem_mask_eq_0)

lemma mk_precondition: "requires ss (mk_condition True (map pos_subsystem ss))"
  using foldl_add_pos [of "\<lparr>cd_events = 0, cd_mask = 0, cd_state = STATE_AND\<rparr>" "[]" ss]
  by (simp add: mk_condition_def requires_def is_met_def subsystem_mask_eq_0 subsystem_mask_Nil Let_def)

lemma mk_termination: "watches ss (mk_condition False (map not_subsystem ss))"
  using foldl_add_not [of "\<lparr>cd_events = 0, cd_mask = 0, cd_state = STATE_OR\<rparr>" "[]" ss]
  by (simp add: mk_condition_def watches_def is_met_def subsystem_mask_eq_0 subsystem_mask_Nil Let_def)

lemma load_precondition:
  assumes "requires ss c"
  shows "requires (ss @ ss') (snd (load_condition c (map pos_subsystem ss')))"
proof -
  have "cd_state c AND 1 = 0" using assms by (auto simp: requires_def)
  then show ?thesis
    using assms foldl_add_pos [of c ss ss']
    by (auto simp: load_condition_def requires_def is_met_def subsystem_mask_eq_0 subsystem_mask_Nil Let_def)
qed

lemma load_termination:
  assumes "watches ss c"
  shows "watches (ss @ ss') (snd (load_condition c (map not_subsystem ss')))"
proof -
  have "cd_state c AND 1 = 1" using assms by (auto simp: watches_def)
  then show ?thesis
    using assms foldl_add_not [of c ss ss']
    by (auto simp: load_condition_def watches_def is_met_def subsystem_mask_eq_0 subsystem_mask_Nil Let_def)
qed

subsection \<open>Evaluation\<close>

lemma evaluate_requires:
  assumes "requires ss c"
  shows "requires ss (snd (evaluate c v))"
    and "is_met (snd (evaluate c v)) \<longleftrightarrow> (\<forall>s\<in>set ss. bit v (subsystem_nr s))"
proof -
  have *: "compliant c v \<longleftrightarrow> (\<forall>s\<in>set ss. bit v (subsystem_nr s))"
    using assms by (auto simp: requires_def compliant_def mask_XOR_0)
  show "requires ss (snd (evaluate c v))"
    using assms by (auto simp: requires_def evaluate_def subsystem_mask_eq_0 is_met_def)
  show "is_met (snd (evaluate c v)) \<longleftrightarrow> (\<forall>s\<in>set ss. bit v (subsystem_nr s))"
    unfolding * [symmetric] using assms *
    by (auto simp: requires_def evaluate_def subsystem_mask_eq_0 is_met_def)
qed

lemma evaluate_watches:
  assumes "watches ss c"
  shows "watches ss (snd (evaluate c v))"
    and "is_met (snd (evaluate c v)) \<longleftrightarrow> ss = [] \<or> (\<exists>s\<in>set ss. bit v (subsystem_nr s))"
proof -
  have *: "compliant c v \<longleftrightarrow> (\<exists>s\<in>set ss. bit v (subsystem_nr s))"
    using assms by (auto simp: watches_def compliant_def mask_AND_0)
  show "watches ss (snd (evaluate c v))"
    using assms by (auto simp: watches_def evaluate_def subsystem_mask_eq_0 is_met_def)
  show "is_met (snd (evaluate c v)) \<longleftrightarrow> ss = [] \<or> (\<exists>s\<in>set ss. bit v (subsystem_nr s))"
    unfolding * [symmetric] using assms *
    by (auto simp: watches_def evaluate_def subsystem_mask_eq_0 is_met_def)
qed

lemma is_met_bit: "is_met c \<longleftrightarrow> bit (cd_state c) 7"
proof -
  have "bit (STATE_OK) n \<longleftrightarrow> n = 7" for n
    using bit_push_bit_iff [of 7 "1 :: u8" n] by (auto simp: bit_1_iff)
  then show ?thesis by (auto simp: is_met_def word_eq_bits bit_and_iff)
qed

lemma evaluate_changed:
  "fst (evaluate c v) \<longleftrightarrow> is_met (snd (evaluate c v)) \<noteq> is_met c"
proof -
  have "bit STATE_OK 7" by simp
  then show ?thesis by (auto simp: evaluate_def is_met_bit bit_xor_iff)
qed

text \<open>The value the service evaluates again and again as the subsystems change.\<close>

definition evaluate_all :: "condition \<Rightarrow> u32 list \<Rightarrow> condition" where
  "evaluate_all = foldl (\<lambda>c v. snd (evaluate c v))"

lemma evaluate_all_requires: "requires ss c \<Longrightarrow> requires ss (evaluate_all c vs)"
  by (induction vs arbitrary: c) (auto simp: evaluate_all_def evaluate_requires)

lemma evaluate_all_watches: "watches ss c \<Longrightarrow> watches ss (evaluate_all c vs)"
  by (induction vs arbitrary: c) (auto simp: evaluate_all_def evaluate_watches)

lemma evaluate_all_snoc: "evaluate_all c (vs @ [v]) = snd (evaluate (evaluate_all c vs) v)"
  by (simp add: evaluate_all_def)

subsection \<open>The error state\<close>

lemma add_bit_error: "cd_state c = STATE_ERROR \<Longrightarrow> cd_state (add_bit c i) = STATE_ERROR"
  by (simp add: add_bit_def Let_def)

lemma foldl_add_error: "cd_state c = STATE_ERROR \<Longrightarrow> cd_state (foldl add_bit c is) = STATE_ERROR"
  by (induction "is" arbitrary: c) (auto simp: add_bit_error)

lemma add_not_to_and: "cd_state c AND 1 = 0 \<Longrightarrow> cd_state (add_bit c (not_subsystem s)) = STATE_ERROR"
  by (simp add: add_bit_def Let_def not_above)

lemma add_pos_to_or: "cd_state c AND 1 = 1 \<Longrightarrow> cd_state (add_bit c (pos_subsystem s)) = STATE_ERROR"
  by (simp add: add_bit_def Let_def pos_below)

lemma evaluate_error: "cd_state c = STATE_ERROR \<Longrightarrow> evaluate c v = (False, c)"
  by (simp add: evaluate_def compliant_def is_met_def)

lemma evaluate_all_error: "cd_state c = STATE_ERROR \<Longrightarrow> evaluate_all c vs = c"
  by (induction vs) (auto simp: evaluate_all_def evaluate_error)

subsection \<open>Properties\<close>

text \<open>
  C18: a precondition built from the subsystems \<open>ss\<close> (all positive) is, after any sequence of
  evaluations that ends with the value \<open>v\<close>, met exactly when every subsystem of \<open>ss\<close> is
  active in \<open>v\<close>, whatever the order of the list, duplicates or earlier values.
\<close>

theorem precondition_met_iff_all_active:
  "is_met (evaluate_all (mk_condition True (map pos_subsystem ss)) (vs @ [v])) \<longleftrightarrow>
     (\<forall>s\<in>set ss. bit v (subsystem_nr s))"
  by (simp add: evaluate_all_snoc evaluate_requires evaluate_all_requires mk_precondition)

theorem precondition_met_iff_all_active_witness:
  "is_met (evaluate_all (mk_condition True (map pos_subsystem [NETWORK, TIME])) ([0] @ [0x84]))"
  by (subst precondition_met_iff_all_active) (simp add: bit_numeral_rec)

text \<open>
  A termination built from the negated subsystems \<open>ss\<close> is, after any sequence of evaluations
  that ends with the value \<open>v\<close>, met exactly when one of them is still active, or none was
  named: the plugin is taken down only when all of them are gone.
\<close>

theorem termination_met_iff_one_active:
  "is_met (evaluate_all (mk_condition False (map not_subsystem ss)) (vs @ [v])) \<longleftrightarrow>
     ss = [] \<or> (\<exists>s\<in>set ss. bit v (subsystem_nr s))"
  by (simp add: evaluate_all_snoc evaluate_watches evaluate_all_watches mk_termination)

theorem termination_met_iff_one_active_witness:
  "is_met (evaluate_all (mk_condition False (map not_subsystem [NETWORK, TIME])) ([0x84] @ [0x80]))"
  by (subst termination_met_iff_one_active) (simp add: bit_numeral_rec)

text \<open>
  The change that \<open>Evaluate\<close> reports is exact: it returns true if and only if the flag that the
  condition is met flips, and a precondition that is met leaves no subsystem in \<open>Delta\<close>: the bits
  of the delta are the subsystems of the precondition that are missing.
\<close>

theorem evaluate_reports_changes:
  assumes "requires ss c"
  shows "(fst (evaluate c v) \<longleftrightarrow> is_met (snd (evaluate c v)) \<noteq> is_met c)
    \<and> (bit (delta c v) n \<longleftrightarrow> (\<exists>s\<in>set ss. n = subsystem_nr s \<and> \<not> bit v n))
    \<and> (is_met (snd (evaluate c v)) \<longleftrightarrow> delta c v = 0)"
  using assms
  by (simp add: evaluate_changed evaluate_requires)
     (auto simp: delta_def requires_def mask_XOR_0 bit_xor_iff bit_and_iff bit_subsystem_mask)

theorem evaluate_reports_changes_witness:
  "fst (evaluate (mk_condition True (map pos_subsystem [NETWORK])) 4) \<and>
   delta (mk_condition True (map pos_subsystem [NETWORK])) 4 = 0"
proof -
  have "is_met (snd (evaluate (mk_condition True (map pos_subsystem [NETWORK])) 4))"
    unfolding evaluate_requires(2) [OF mk_precondition] by (simp add: bit_numeral_rec)
  moreover have "\<not> is_met (mk_condition True (map pos_subsystem [NETWORK]))"
    by (simp add: mk_condition_def add_bit_def pos_subsystem_def NEGATIVE_START_def is_met_def Let_def)
  ultimately show ?thesis
    using evaluate_reports_changes [OF mk_precondition [of "[NETWORK]"], of 4 0] by simp
qed

text \<open>
  A negated subsystem among preconditions, or a positive one among terminations, makes the
  condition invalid for good: no subsystem added later and no evaluation makes it valid or met.
\<close>

theorem mixed_condition_never_met:
  assumes "cd_state c AND 1 = (if AND_op then STATE_AND else STATE_OR)"
  shows "let bad = (if AND_op then not_subsystem s else pos_subsystem s);
             c' = evaluate_all (foldl add_bit c (bad # later)) vs
         in \<not> is_valid c' \<and> \<not> is_met c'"
proof -
  have "cd_state (add_bit c (if AND_op then not_subsystem s else pos_subsystem s)) = STATE_ERROR"
    using assms add_not_to_and [of c s] add_pos_to_or [of c s] by (cases AND_op) simp_all
  then have "cd_state (foldl add_bit c ((if AND_op then not_subsystem s else pos_subsystem s) # later)) = STATE_ERROR"
    by (simp add: foldl_add_error)
  then show ?thesis
    by (simp add: Let_def evaluate_all_error is_valid_def is_met_def del: foldl_Cons)
qed

theorem mixed_condition_never_met_witness:
  "\<not> is_valid (evaluate_all (foldl add_bit \<lparr>cd_events = 0, cd_mask = 0, cd_state = STATE_AND\<rparr>
                [not_subsystem TIME, pos_subsystem NETWORK]) [4])"
  using mixed_condition_never_met [of "\<lparr>cd_events = 0, cd_mask = 0, cd_state = STATE_AND\<rparr>" True TIME
      "[pos_subsystem NETWORK]" "[4]"]
  by (simp add: Let_def)

lemma set_feedback_loop: "set (feedback_loop d i) = {i + n |n. bit d n}"
proof (induction d i rule: feedback_loop.induct)
  case (1 d i)
  show ?case
  proof (cases "d = 0")
    case True
    then show ?thesis by (simp add: feedback_loop.simps)
  next
    case False
    have "x \<in> {i + n |n. bit d n} \<longleftrightarrow> (bit d 0 \<and> x = i) \<or> (\<exists>n. bit (drop_bit 1 d) n \<and> x = i + 1 + n)" for x
      by (auto simp: bit_simps) (metis not0_implies_Suc)+
    moreover have "d AND 1 \<noteq> 0 \<longleftrightarrow> bit d 0" by (simp add: and_one_eq bit_0 odd_iff_mod_2_eq_one)
    ultimately show ?thesis
      using False 1 by (subst feedback_loop.simps) auto
  qed
qed

text \<open>
  The trace of a postponed activation names, for every missing subsystem, the one that follows
  it in the enumeration: the number it prints is one more than the number of the missing subsystem.
\<close>

theorem feedback_names_the_next:
  assumes "requires ss c"
  shows "set (delta_feedback c v) = {Suc (subsystem_nr s) |s. s \<in> set ss \<and> \<not> bit v (subsystem_nr s)}"
  using assms
  by (auto simp: delta_feedback_def set_feedback_loop delta_def requires_def bit_xor_iff bit_and_iff bit_subsystem_mask)

theorem feedback_names_the_next_witness:
  "set (delta_feedback (mk_condition True (map pos_subsystem [NETWORK])) 0) = {subsystem_nr IDENTIFIER}"
  unfolding feedback_names_the_next [OF mk_precondition [of "[NETWORK]"]] by simp

end
