(* ===== verification/Lifecycle.thy ===== *)
theory Lifecycle
  imports Errors Conditions
begin

text \<open>
  The life cycle of one plugin: \<open>Server::Service\<close> of \<^verbatim>\<open>Source/Thunder/PluginServer.cpp\<close>
  and \<^verbatim>\<open>PluginServer.h\<close>, with the state it inherits from \<open>PluginHost::Service\<close>
  (\<^verbatim>\<open>Source/plugins/Service.h\<close>) and the enumerations of \<open>IShell\<close> and \<open>IStateControl\<close>.

  The record \<open>service\<close> is the state of the shell around one plugin. The two mutexes of the code
  are depth counters (both are recursive). Every call that leaves the shell (to the plugin, to
  the administrator, to the process of the plugin) is appended to \<open>sv_calls\<close> with the depth the
  two mutexes have at that moment. What the outside answers is the record \<open>outside\<close>, an argument
  of every operation: the plugin is code the shell only knows by its interface.
\<close>

subsection \<open>Enumerations\<close>

datatype shell_state =
  UNAVAILABLE | DEACTIVATED | ACTIVATED | DEACTIVATION | ACTIVATION | PRECONDITION | HIBERNATED | DESTROYED

datatype startmode = StartUnavailable | StartDeactivated | StartActivated

datatype reason =
  REQUESTED | AUTOMATIC | FAILURE | MEMORY_EXCEEDED | STARTUP | SHUTDOWN | CONDITIONS
  | WATCHDOG_EXPIRED | INITIALIZATION_FAILED | INSTANTIATION_FAILED

datatype sc_state = UNINITIALIZED | SUSPENDED | RESUMED | EXITED

datatype sc_command = SUSPEND | RESUME

datatype plugin_interface =
  IPluginExtended | IWeb | IWebSocket | ITextSocket | IChannel | ISecurity | IDispatcher

text \<open>The calls a shell makes. \<open>Admin\<close> is the \<open>ServiceMap\<close>, \<open>Sc\<close> the plugin's state control.\<close>

datatype lc_call =
    Plugin_Initialize | Plugin_Deinitialize | Plugin_Release
  | Admin_Initialize | Admin_Deinitialized | Admin_Activated | Admin_Deactivated | Admin_Unavailable
  | Admin_Evaluate | Admin_Destroy nat | Admin_PostMortem reason
  | Composit_Acquire | Composit_Release
  | Rpc_Attach | Rpc_Detach | Web_Enable | Web_Disable
  | External_Interface bool | External_Open | External_Close
  | Sc_Register | Sc_Unregister | Sc_Release | Sc_Request sc_command
  | Connection_Terminate nat | Library_Release
  | Process_Wakeup | Children_Wakeup | Process_Hibernate | Children_Hibernate
  | Subsystem_Unset subsystem
  | Notify_StateChange shell_state reason

subsection \<open>The shell and the outside\<close>

text \<open>The configuration the operations read (\<open>Plugin::Config\<close> and \<open>PluginHost::Config\<close>).\<close>

record plugin_config =
  cf_locator_empty :: bool
  cf_root_set :: bool
  cf_root_off :: bool
  cf_startmode :: startmode
  cf_startmode_set :: bool
  cf_resumed :: "bool option"
  cf_webui :: bool
  cf_connector :: bool
  cf_legacy_initialize :: bool
  cf_hibernate_support :: bool
  cf_allowed_hibernate :: bool
  cf_allowed_unavailable :: bool
  cf_controls :: "subsystem list"
  cf_configline :: string

record service =
  sv_state :: shell_state
  sv_reason :: reason
  sv_error :: string
  sv_config :: plugin_config
  sv_handler :: bool
  sv_interfaces :: "plugin_interface set"
  sv_stateControl :: bool
  sv_connection :: "nat option"
  sv_lastId :: nat
  sv_library :: bool
  sv_precondition :: condition
  sv_termination :: condition
  sv_lock :: nat
  sv_qlock :: nat
  sv_calls :: "(lc_call \<times> nat \<times> nat) list"

record outside =
  out_module :: bool \<comment> \<open>the application exposes its services\<close>
  out_library :: bool \<comment> \<open>the library loads\<close>
  out_instance :: bool \<comment> \<open>the class can be instantiated\<close>
  out_root :: "nat option" \<comment> \<open>the connection of an out of process instance\<close>
  out_interfaces :: "plugin_interface set"
  out_initialize :: string \<comment> \<open>what \<open>IPlugin::Initialize\<close> returns\<close>
  out_connection :: "nat option" \<comment> \<open>a connection the plugin opened while it initialised\<close>
  out_stateControl :: bool
  out_sc_state :: sc_state
  out_request :: error_code
  out_monitorable :: bool
  out_wakeup :: error_code
  out_hibernate :: error_code
  out_hibernate_children :: error_code
  out_subsystems :: u32 \<comment> \<open>\<open>SubSystemInfo().Value()\<close>\<close>

definition new_service :: "plugin_config \<Rightarrow> u32 list \<Rightarrow> u32 list \<Rightarrow> service" where
  "new_service cfg pre term =
     \<lparr>sv_state = (if cf_startmode_set cfg \<and> cf_startmode cfg = StartUnavailable then UNAVAILABLE else DEACTIVATED),
      sv_reason = SHUTDOWN, sv_error = [], sv_config = cfg, sv_handler = False, sv_interfaces = {},
      sv_stateControl = False, sv_connection = None, sv_lastId = 0, sv_library = False,
      sv_precondition = mk_condition True pre, sv_termination = mk_condition False term,
      sv_lock = 0, sv_qlock = 0, sv_calls = []\<rparr>"

definition lock :: "service \<Rightarrow> service" where
  "lock s = s\<lparr>sv_lock := Suc (sv_lock s)\<rparr>"

definition unlock :: "service \<Rightarrow> service" where
  "unlock s = s\<lparr>sv_lock := sv_lock s - 1\<rparr>"

definition qlock :: "service \<Rightarrow> service" where
  "qlock s = s\<lparr>sv_qlock := Suc (sv_qlock s)\<rparr>"

definition qunlock :: "service \<Rightarrow> service" where
  "qunlock s = s\<lparr>sv_qlock := sv_qlock s - 1\<rparr>"

definition call :: "lc_call \<Rightarrow> service \<Rightarrow> service" where
  "call e s = s\<lparr>sv_calls := sv_calls s @ [(e, sv_lock s, sv_qlock s)]\<rparr>"

definition set_state :: "shell_state \<Rightarrow> service \<Rightarrow> service" where
  "set_state x s = s\<lparr>sv_state := x\<rparr>"

definition resumed_config :: "service \<Rightarrow> bool" where
  "resumed_config s =
     (case cf_resumed (sv_config s) of Some b \<Rightarrow> b | None \<Rightarrow> cf_startmode (sv_config s) = StartActivated)"

subsection \<open>Loading and releasing the plugin\<close>

text \<open>
  The part of \<open>AcquireInterfaces\<close> that looks for the plugin: in the process itself (only the
  controller has no locator), in a process of its own, or in a library.
\<close>

definition instantiate_plugin :: "outside \<Rightarrow> service \<Rightarrow> bool \<times> service" where
  "instantiate_plugin w s =
     (let cfg = sv_config s in
      if cf_locator_empty cfg then
        if \<not> out_module w then (False, s\<lparr>sv_error := ''Application does not expose an IService interface''\<rparr>)
        else if \<not> out_instance w then (False, s\<lparr>sv_error := ''local class definitions/version does not exist''\<rparr>)
        else (True, s)
      else if cf_root_set cfg \<and> \<not> cf_root_off cfg then
        case out_root w of
          None \<Rightarrow> (False, s\<lparr>sv_error := ''could not start the plugin in a detached mode''\<rparr>)
        | Some pid \<Rightarrow> (True, s\<lparr>sv_connection := Some pid\<rparr>)
      else if \<not> out_library w then (False, s\<lparr>sv_error := ''Library could not be loaded!''\<rparr>)
      else if \<not> out_instance w then (False, s\<lparr>sv_error := ''class definitions/version does not exist''\<rparr>)
      else (True, s\<lparr>sv_library := True\<rparr>))"

definition eval_conditions :: "u32 \<Rightarrow> service \<Rightarrow> service" where
  "eval_conditions subsystems s =
     s\<lparr>sv_precondition := snd (evaluate (sv_precondition s) subsystems),
       sv_termination := snd (evaluate (sv_termination s) subsystems)\<rparr>"

definition acquire_interfaces :: "outside \<Rightarrow> service \<Rightarrow> service" where
  "acquire_interfaces w s =
     (case instantiate_plugin w s of
        (False, s) \<Rightarrow> s
      | (True, s) \<Rightarrow>
          steps [sv_interfaces_update (\<lambda>_. insert ISecurity (out_interfaces w)),
                 call Composit_Acquire,
                 sv_handler_update (\<lambda>_. True),
                 eval_conditions (out_subsystems w),
                 call (External_Interface True)] s)"

definition terminate_connection :: "service \<Rightarrow> service" where
  "terminate_connection s =
     (case sv_connection s of
        None \<Rightarrow> s
      | Some pid \<Rightarrow> (call (Connection_Terminate pid) (s\<lparr>sv_lastId := pid\<rparr>))\<lparr>sv_connection := None\<rparr>)"

definition release_interfaces :: "service \<Rightarrow> service" where
  "release_interfaces s =
     (let currentIF = sv_handler s in
      steps [sv_interfaces_update (\<lambda>_. {}),
             call Composit_Release,
             terminate_connection,
             sv_handler_update (\<lambda>_. False),
             when (\<lambda>_. currentIF) (call (External_Interface False)),
             when (\<lambda>_. currentIF) (call Plugin_Release),
             when sv_library (call Library_Release),
             sv_library_update (\<lambda>_. False)] s)"

subsection \<open>Wake-up and hibernation\<close>

definition wakeup :: "outside \<Rightarrow> service \<Rightarrow> error_code \<times> service" where
  "wakeup w s =
     (if sv_state s \<noteq> HIBERNATED then (ERROR_ILLEGAL_STATE, s)
      else if \<not> out_monitorable w then (ERROR_BAD_REQUEST, s)
      else
        let (result, s1) =
              (if cf_hibernate_support (sv_config s)
               then (out_wakeup w, call Process_Wakeup (call Children_Wakeup s))
               else (ERROR_NONE, s))
        in (result, if result = ERROR_NONE then set_state ACTIVATED s1 else s1))"

text \<open>
  \<open>Hibernate\<close> gives up the lock twice while the processes are frozen. What other threads do to
  the shell in between is the argument \<open>other\<close>, one function per unlocked window.
\<close>

definition hibernate :: "(nat \<Rightarrow> service \<Rightarrow> service) \<Rightarrow> outside \<Rightarrow> service \<Rightarrow> error_code \<times> service" where
  "hibernate other w s =
     (if \<not> cf_allowed_hibernate (sv_config s) then (ERROR_NOT_SUPPORTED, s)
      else
        let s = lock s;
            (result, s) =
              (if sv_state s \<noteq> ACTIVATED then (ERROR_ILLEGAL_STATE, s)
               else if sv_connection s = None then (ERROR_INPROC, s)
               else if \<not> out_monitorable w then (ERROR_BAD_REQUEST, s)
               else
                 let s = set_state HIBERNATED s;
                     (result, s) =
                       (if cf_hibernate_support (sv_config s) then
                          let s = unlock s;
                              s = other 0 (call Process_Hibernate s);
                              s = lock s;
                              result = (if sv_state s \<noteq> HIBERNATED then ERROR_ABORTED else out_hibernate w);
                              s = unlock s;
                              (result, s) =
                                (if result = ERROR_NONE
                                 then (out_hibernate_children w, other 1 (call Children_Hibernate s))
                                 else (result, s));
                              s = (if result \<noteq> ERROR_NONE \<and> result \<noteq> ERROR_ABORTED
                                   then call Process_Wakeup s else s)
                          in (result, lock s)
                        else (ERROR_NONE, s))
                 in if result = ERROR_NONE then
                      (if sv_state s = HIBERNATED then (ERROR_NONE, s) else (ERROR_ABORTED, s))
                    else if sv_state s = HIBERNATED then (result, set_state ACTIVATED s)
                    else (result, s))
        in (result, unlock s))"

subsection \<open>Activation\<close>

text \<open>
  \<open>Activate\<close> in parts. \<open>activate_begin\<close> ends with a result, or with none and the shell in state
  \<open>ACTIVATION\<close>; then the plugin initialises, with the lock given up, and \<open>activate_failed\<close>
  or \<open>activate_done\<close> follows.
\<close>

definition destroy_pending :: "service \<Rightarrow> service" where
  "destroy_pending s = (call (Admin_Destroy (sv_lastId s)) s)\<lparr>sv_lastId := 0\<rparr>"

definition activate_load :: "reason \<Rightarrow> outside \<Rightarrow> service \<Rightarrow> service" where
  "activate_load why w =
     steps [sv_reason_update (\<lambda>_. why), qlock, when (\<lambda>s. \<not> sv_handler s) (acquire_interfaces w)]"

definition activate_begin :: "reason \<Rightarrow> outside \<Rightarrow> service \<Rightarrow> error_code option \<times> service" where
  "activate_begin why w s0 =
     (let s = lock s0; currentState = sv_state s in
      if currentState = ACTIVATION then (Some ERROR_INPROGRESS, unlock s)
      else if currentState = UNAVAILABLE \<or> currentState = DEACTIVATION \<or> currentState = DESTROYED
      then (Some ERROR_ILLEGAL_STATE, unlock s)
      else if currentState = HIBERNATED
      then (let (result, s) = wakeup w s in (Some result, unlock s))
      else if currentState = DEACTIVATED \<or> currentState = PRECONDITION then
        let s = activate_load why w s in
        if \<not> sv_handler s then
          (Some ERROR_UNAVAILABLE,
           steps [sv_reason_update (\<lambda>_. INSTANTIATION_FAILED), set_state DEACTIVATED, qunlock, unlock] s)
        else if \<not> is_met (sv_precondition s) then
          (Some ERROR_PENDING_CONDITIONS, steps [set_state PRECONDITION, qunlock, unlock] s)
        else
          (None, steps [when (\<lambda>s. sv_lastId s \<noteq> 0) destroy_pending,
                        call Admin_Initialize, set_state ACTIVATION, unlock] s)
      else (Some ERROR_NONE, unlock s))"

definition plugin_initialize :: "outside \<Rightarrow> service \<Rightarrow> service" where
  "plugin_initialize w s =
     (call Plugin_Initialize s)
       \<lparr>sv_error := out_initialize w,
        sv_connection := (case out_connection w of None \<Rightarrow> sv_connection s | Some pid \<Rightarrow> Some pid)\<rparr>"

definition activate_failed :: "service \<Rightarrow> service" where
  "activate_failed =
     steps [sv_reason_update (\<lambda>_. INITIALIZATION_FAILED),
            when (\<lambda>s. \<not> cf_legacy_initialize (sv_config s)) (call Plugin_Deinitialize),
            lock, release_interfaces, set_state DEACTIVATED, unlock,
            qunlock, call Admin_Deinitialized]"

definition activate_done :: "reason \<Rightarrow> outside \<Rightarrow> service \<Rightarrow> service" where
  "activate_done why w =
     steps [when (\<lambda>s. cf_webui (sv_config s)) (call Web_Enable),
            when (\<lambda>s. IDispatcher \<in> sv_interfaces s) (call Rpc_Attach),
            when (\<lambda>s. cf_connector (sv_config s)) (call External_Open),
            lock, set_state ACTIVATED, qunlock, call Admin_Activated,
            sv_stateControl_update (\<lambda>_. out_stateControl w),
            when sv_stateControl (call Sc_Register),
            when (\<lambda>s. sv_stateControl s \<and> resumed_config s) (call (Sc_Request RESUME)),
            unlock, call (Notify_StateChange ACTIVATED why)]"

definition activate :: "reason \<Rightarrow> outside \<Rightarrow> service \<Rightarrow> error_code \<times> service" where
  "activate why w s =
     (case activate_begin why w s of
        (Some result, s) \<Rightarrow> (result, s)
      | (None, s) \<Rightarrow>
          let s = plugin_initialize w s in
          if sv_error s \<noteq> [] then (ERROR_GENERAL, activate_failed s)
          else (ERROR_NONE, activate_done why w s))"

subsection \<open>Deactivation\<close>

text \<open>
  \<open>Deactivate\<close> asks the administrator to reevaluate every plugin once the subsystems this one
  controls are gone. For this shell that is an update of its own two conditions with the new set
  of subsystems: its state is then \<open>DEACTIVATION\<close>, so it neither activates nor deactivates itself.
\<close>

definition unset_subsystems :: "service \<Rightarrow> service" where
  "unset_subsystems s = foldl (\<lambda>s x. call (Subsystem_Unset x) s) s (cf_controls (sv_config s))"

definition remaining_subsystems :: "plugin_config \<Rightarrow> u32 \<Rightarrow> u32" where
  "remaining_subsystems cfg subsystems = subsystems AND NOT (subsystem_mask (cf_controls cfg))"

definition deactivate_teardown :: "shell_state \<Rightarrow> reason \<Rightarrow> outside \<Rightarrow> service \<Rightarrow> service" where
  "deactivate_teardown currentState why w =
     steps [set_state DEACTIVATION,
            unset_subsystems,
            unlock,
            call Admin_Evaluate,
            (\<lambda>s. eval_conditions (remaining_subsystems (sv_config s) (out_subsystems w)) s),
            when sv_stateControl (call Sc_Unregister),
            when sv_stateControl (call Sc_Release),
            sv_stateControl_update (\<lambda>_. False),
            when (\<lambda>_. currentState = ACTIVATED) (call Admin_Deactivated),
            call (Admin_PostMortem why),
            when (\<lambda>s. cf_webui (sv_config s)) (call Web_Disable),
            qlock, call Plugin_Deinitialize, lock,
            when (\<lambda>_. currentState \<noteq> ACTIVATION) (call (Notify_StateChange DEACTIVATED why)),
            when (\<lambda>s. cf_connector (sv_config s)) (call External_Close),
            when (\<lambda>s. IDispatcher \<in> sv_interfaces s) (call Rpc_Detach)]"

text \<open>
  A hibernated plugin is woken up first, and counts as activated even when that fails.
\<close>

definition deactivate_wakeup :: "outside \<Rightarrow> service \<Rightarrow> service" where
  "deactivate_wakeup w s =
     (let (wakeupResult, s) = wakeup w s
      in if wakeupResult \<noteq> ERROR_NONE then set_state ACTIVATED s else s)"

definition deactivate_now :: "shell_state \<Rightarrow> reason \<Rightarrow> outside \<Rightarrow> service \<Rightarrow> service" where
  "deactivate_now currentState why w s0 =
     (let s = when (\<lambda>_. currentState = HIBERNATED) (deactivate_wakeup w) (s0\<lparr>sv_reason := why\<rparr>);
          currentState = (if currentState = HIBERNATED then ACTIVATED else currentState);
          torn = (currentState = ACTIVATION \<or> currentState = ACTIVATED)
      in steps [when (\<lambda>_. torn) (deactivate_teardown currentState why w),
                set_state (if why = CONDITIONS then PRECONDITION else DEACTIVATED),
                release_interfaces, unlock,
                when (\<lambda>_. torn) qunlock,
                call Admin_Deinitialized] s)"

definition deactivate :: "reason \<Rightarrow> outside \<Rightarrow> service \<Rightarrow> error_code \<times> service" where
  "deactivate why w s0 =
     (let s = lock s0; currentState = sv_state s in
      if currentState = DEACTIVATION then (ERROR_INPROGRESS, unlock s)
      else if currentState = ACTIVATION \<and> why \<noteq> INITIALIZATION_FAILED \<or> currentState = DESTROYED
      then (ERROR_ILLEGAL_STATE, unlock s)
      else if currentState = ACTIVATION \<and> why = INITIALIZATION_FAILED \<or> currentState = UNAVAILABLE
           \<or> currentState = ACTIVATED \<or> currentState = PRECONDITION \<or> currentState = HIBERNATED
      then (ERROR_NONE, deactivate_now currentState why w s)
      else (ERROR_NONE, unlock s))"

subsection \<open>Resume, suspend, unavailable, reevaluation\<close>

definition resume :: "reason \<Rightarrow> outside \<Rightarrow> service \<Rightarrow> error_code \<times> service" where
  "resume why w s0 =
     (let s = lock s0;
          currentState = sv_state s;
          (result, currentState, s) =
            (if currentState = ACTIVATION then (ERROR_INPROGRESS, currentState, s)
             else if currentState = DEACTIVATION \<or> currentState = DESTROYED \<or> currentState = HIBERNATED
             then (ERROR_ILLEGAL_STATE, currentState, s)
             else if currentState = DEACTIVATED then
               let (result, s) = activate why w s in (result, sv_state s, s)
             else (ERROR_NONE, currentState, s));
          (result, s) =
            (if currentState = ACTIVATED then
               if \<not> sv_stateControl s then (ERROR_BAD_REQUEST, s)
               else if out_sc_state w = SUSPENDED then (out_request w, call (Sc_Request RESUME) s)
               else (result, s)
             else (result, s))
      in (result, unlock s))"

definition suspend :: "reason \<Rightarrow> outside \<Rightarrow> service \<Rightarrow> error_code \<times> service" where
  "suspend why w s0 =
     (if cf_startmode (sv_config s0) = StartDeactivated then deactivate why w s0
      else
        let s = lock s0;
            currentState = sv_state s;
            (result, s) =
              (if currentState = DEACTIVATION then (ERROR_INPROGRESS, s)
               else if currentState = ACTIVATION \<or> currentState = DESTROYED \<or> currentState = HIBERNATED
               then (ERROR_ILLEGAL_STATE, s)
               else if currentState = ACTIVATED \<or> currentState = PRECONDITION then
                 if \<not> sv_stateControl s then (ERROR_BAD_REQUEST, s)
                 else if out_sc_state w = RESUMED then (out_request w, call (Sc_Request SUSPEND) s)
                 else (ERROR_NONE, s)
               else (ERROR_NONE, s))
        in (result, unlock s))"

definition unavailable :: "reason \<Rightarrow> service \<Rightarrow> error_code \<times> service" where
  "unavailable why s0 =
     (if \<not> cf_allowed_unavailable (sv_config s0) then (ERROR_NOT_SUPPORTED, s0)
      else
        let s = lock s0; currentState = sv_state s in
        if currentState \<in> {DEACTIVATION, ACTIVATION, DESTROYED, ACTIVATED, PRECONDITION, HIBERNATED}
        then (ERROR_ILLEGAL_STATE, unlock s)
        else if currentState = DEACTIVATED then
          let s = call Admin_Unavailable (set_state UNAVAILABLE (s\<lparr>sv_reason := why\<rparr>))
          in (ERROR_NONE, call (Notify_StateChange UNAVAILABLE why) (unlock s))
        else (ERROR_NONE, unlock s))"

text \<open>
  \<open>Service::Evaluate\<close>: a shell that waits for its preconditions activates when they become met,
  an active one is deactivated when its termination stops being met.
\<close>

definition evaluate_precondition :: "outside \<Rightarrow> shell_state \<Rightarrow> service \<Rightarrow> service" where
  "evaluate_precondition w current s0 =
     (let (changed, c) = evaluate (sv_precondition s0) (out_subsystems w);
          s = s0\<lparr>sv_precondition := c\<rparr>
      in if changed \<and> current = PRECONDITION \<and> is_met c
         then lock (snd (activate (sv_reason s) w (unlock s))) else s)"

definition evaluate_termination :: "outside \<Rightarrow> shell_state \<Rightarrow> service \<Rightarrow> service" where
  "evaluate_termination w current s0 =
     (let (changed, c) = evaluate (sv_termination s0) (out_subsystems w);
          s = s0\<lparr>sv_termination := c\<rparr>
      in if changed \<and> current = ACTIVATED \<and> \<not> is_met c
         then lock (snd (deactivate CONDITIONS w (unlock s))) else s)"

definition service_evaluate :: "outside \<Rightarrow> service \<Rightarrow> service" where
  "service_evaluate w s0 =
     (let s = lock s0; current = sv_state s
      in unlock (evaluate_termination w current (evaluate_precondition w current s)))"

text \<open>Setting the configuration text is refused while the plugin runs or starts.\<close>

definition set_configline :: "string \<Rightarrow> service \<Rightarrow> error_code \<times> service" where
  "set_configline newConfiguration s0 =
     (let s = lock s0;
          (result, s) =
            (if sv_state s \<in> {DEACTIVATED, DEACTIVATION, PRECONDITION, UNAVAILABLE}
             then (ERROR_NONE, s\<lparr>sv_config := (sv_config s)\<lparr>cf_configline := newConfiguration\<rparr>\<rparr>)
             else (ERROR_ILLEGAL_STATE, s))
      in (result, unlock s))"

subsection \<open>What each statement leaves alone\<close>

named_theorems svc_simps

text \<open>The fields of a shell under the statements that write one or two of them.\<close>

lemma lock_frame [svc_simps]:
  "sv_state (lock s) = sv_state s"
  "sv_reason (lock s) = sv_reason s"
  "sv_error (lock s) = sv_error s"
  "sv_config (lock s) = sv_config s"
  "sv_handler (lock s) = sv_handler s"
  "sv_interfaces (lock s) = sv_interfaces s"
  "sv_stateControl (lock s) = sv_stateControl s"
  "sv_connection (lock s) = sv_connection s"
  "sv_lastId (lock s) = sv_lastId s"
  "sv_library (lock s) = sv_library s"
  "sv_precondition (lock s) = sv_precondition s"
  "sv_termination (lock s) = sv_termination s"
  "sv_qlock (lock s) = sv_qlock s"
  "sv_calls (lock s) = sv_calls s"
  by (simp_all add: lock_def)

lemma unlock_frame [svc_simps]:
  "sv_state (unlock s) = sv_state s"
  "sv_reason (unlock s) = sv_reason s"
  "sv_error (unlock s) = sv_error s"
  "sv_config (unlock s) = sv_config s"
  "sv_handler (unlock s) = sv_handler s"
  "sv_interfaces (unlock s) = sv_interfaces s"
  "sv_stateControl (unlock s) = sv_stateControl s"
  "sv_connection (unlock s) = sv_connection s"
  "sv_lastId (unlock s) = sv_lastId s"
  "sv_library (unlock s) = sv_library s"
  "sv_precondition (unlock s) = sv_precondition s"
  "sv_termination (unlock s) = sv_termination s"
  "sv_qlock (unlock s) = sv_qlock s"
  "sv_calls (unlock s) = sv_calls s"
  by (simp_all add: unlock_def)

lemma qlock_frame [svc_simps]:
  "sv_state (qlock s) = sv_state s"
  "sv_reason (qlock s) = sv_reason s"
  "sv_error (qlock s) = sv_error s"
  "sv_config (qlock s) = sv_config s"
  "sv_handler (qlock s) = sv_handler s"
  "sv_interfaces (qlock s) = sv_interfaces s"
  "sv_stateControl (qlock s) = sv_stateControl s"
  "sv_connection (qlock s) = sv_connection s"
  "sv_lastId (qlock s) = sv_lastId s"
  "sv_library (qlock s) = sv_library s"
  "sv_precondition (qlock s) = sv_precondition s"
  "sv_termination (qlock s) = sv_termination s"
  "sv_lock (qlock s) = sv_lock s"
  "sv_calls (qlock s) = sv_calls s"
  by (simp_all add: qlock_def)

lemma qunlock_frame [svc_simps]:
  "sv_state (qunlock s) = sv_state s"
  "sv_reason (qunlock s) = sv_reason s"
  "sv_error (qunlock s) = sv_error s"
  "sv_config (qunlock s) = sv_config s"
  "sv_handler (qunlock s) = sv_handler s"
  "sv_interfaces (qunlock s) = sv_interfaces s"
  "sv_stateControl (qunlock s) = sv_stateControl s"
  "sv_connection (qunlock s) = sv_connection s"
  "sv_lastId (qunlock s) = sv_lastId s"
  "sv_library (qunlock s) = sv_library s"
  "sv_precondition (qunlock s) = sv_precondition s"
  "sv_termination (qunlock s) = sv_termination s"
  "sv_lock (qunlock s) = sv_lock s"
  "sv_calls (qunlock s) = sv_calls s"
  by (simp_all add: qunlock_def)

lemma call_frame [svc_simps]:
  "sv_state (call e s) = sv_state s"
  "sv_reason (call e s) = sv_reason s"
  "sv_error (call e s) = sv_error s"
  "sv_config (call e s) = sv_config s"
  "sv_handler (call e s) = sv_handler s"
  "sv_interfaces (call e s) = sv_interfaces s"
  "sv_stateControl (call e s) = sv_stateControl s"
  "sv_connection (call e s) = sv_connection s"
  "sv_lastId (call e s) = sv_lastId s"
  "sv_library (call e s) = sv_library s"
  "sv_precondition (call e s) = sv_precondition s"
  "sv_termination (call e s) = sv_termination s"
  "sv_lock (call e s) = sv_lock s"
  "sv_qlock (call e s) = sv_qlock s"
  by (simp_all add: call_def)

lemma set_state_frame [svc_simps]:
  "sv_reason (set_state x s) = sv_reason s"
  "sv_error (set_state x s) = sv_error s"
  "sv_config (set_state x s) = sv_config s"
  "sv_handler (set_state x s) = sv_handler s"
  "sv_interfaces (set_state x s) = sv_interfaces s"
  "sv_stateControl (set_state x s) = sv_stateControl s"
  "sv_connection (set_state x s) = sv_connection s"
  "sv_lastId (set_state x s) = sv_lastId s"
  "sv_library (set_state x s) = sv_library s"
  "sv_precondition (set_state x s) = sv_precondition s"
  "sv_termination (set_state x s) = sv_termination s"
  "sv_lock (set_state x s) = sv_lock s"
  "sv_qlock (set_state x s) = sv_qlock s"
  "sv_calls (set_state x s) = sv_calls s"
  by (simp_all add: set_state_def)

lemma eval_conditions_frame [svc_simps]:
  "sv_state (eval_conditions v s) = sv_state s"
  "sv_reason (eval_conditions v s) = sv_reason s"
  "sv_error (eval_conditions v s) = sv_error s"
  "sv_config (eval_conditions v s) = sv_config s"
  "sv_handler (eval_conditions v s) = sv_handler s"
  "sv_interfaces (eval_conditions v s) = sv_interfaces s"
  "sv_stateControl (eval_conditions v s) = sv_stateControl s"
  "sv_connection (eval_conditions v s) = sv_connection s"
  "sv_lastId (eval_conditions v s) = sv_lastId s"
  "sv_library (eval_conditions v s) = sv_library s"
  "sv_lock (eval_conditions v s) = sv_lock s"
  "sv_qlock (eval_conditions v s) = sv_qlock s"
  "sv_calls (eval_conditions v s) = sv_calls s"
  by (simp_all add: eval_conditions_def)

lemma statement_effects [svc_simps]:
  "sv_lock (lock s) = Suc (sv_lock s)"
  "sv_lock (unlock s) = sv_lock s - 1"
  "sv_qlock (qlock s) = Suc (sv_qlock s)"
  "sv_qlock (qunlock s) = sv_qlock s - 1"
  "sv_state (set_state x s) = x"
  "sv_calls (call e s) = sv_calls s @ [(e, sv_lock s, sv_qlock s)]"
  by (simp_all add: lock_def unlock_def qlock_def qunlock_def set_state_def call_def)

lemmas when_frames [svc_simps] =
  when_frame [where g = sv_state]
  when_frame [where g = sv_reason]
  when_frame [where g = sv_error]
  when_frame [where g = sv_config]
  when_frame [where g = sv_handler]
  when_frame [where g = sv_interfaces]
  when_frame [where g = sv_stateControl]
  when_frame [where g = sv_connection]
  when_frame [where g = sv_lastId]
  when_frame [where g = sv_library]
  when_frame [where g = sv_precondition]
  when_frame [where g = sv_termination]
  when_frame [where g = sv_lock]
  when_frame [where g = sv_qlock]
  when_frame [where g = sv_calls]

end
