(* ===== verification/Lifecycle_Facts.thy ===== *)
theory Lifecycle_Facts
  imports Lifecycle
begin

text \<open>
  What every operation of a shell keeps: the depth of its two mutexes, the agreement between its
  state and what it holds of the plugin, and the order of the calls it makes.
\<close>

subsection \<open>Effects of the parts of an operation\<close>

named_theorems part_simps

lemma unset_subsystems_eq:
  "unset_subsystems s =
     s\<lparr>sv_calls := sv_calls s @ map (\<lambda>x. (Subsystem_Unset x, sv_lock s, sv_qlock s)) (cf_controls (sv_config s))\<rparr>"
proof -
  have "foldl (\<lambda>s x. call (Subsystem_Unset x) s) s xs =
     s\<lparr>sv_calls := sv_calls s @ map (\<lambda>x. (Subsystem_Unset x, sv_lock s, sv_qlock s)) xs\<rparr>" for xs
    by (induction xs arbitrary: s) (simp_all add: call_def)
  then show ?thesis by (simp add: unset_subsystems_def)
qed

lemma instantiate_effects:
  "instantiate_plugin w s = (b, t) \<Longrightarrow>
     sv_lock t = sv_lock s \<and> sv_qlock t = sv_qlock s \<and> sv_state t = sv_state s \<and> sv_calls t = sv_calls s \<and>
     sv_config t = sv_config s \<and> sv_lastId t = sv_lastId s \<and> sv_stateControl t = sv_stateControl s \<and>
     sv_precondition t = sv_precondition s \<and> sv_termination t = sv_termination s \<and>
     sv_handler t = sv_handler s \<and> sv_interfaces t = sv_interfaces s \<and>
     (\<not> b \<longrightarrow> sv_connection t = sv_connection s \<and> sv_library t = sv_library s)"
  by (auto simp: instantiate_plugin_def Let_def split: if_splits option.splits)

text \<open>Whether the plugin can be loaded, as a function of the configuration and the outside.\<close>

definition loads :: "outside \<Rightarrow> plugin_config \<Rightarrow> bool" where
  "loads w cfg \<longleftrightarrow>
     (if cf_locator_empty cfg then out_module w \<and> out_instance w
      else if cf_root_set cfg \<and> \<not> cf_root_off cfg then out_root w \<noteq> None
      else out_library w \<and> out_instance w)"

lemma fst_instantiate: "fst (instantiate_plugin w s) = loads w (sv_config s)"
  by (auto simp: instantiate_plugin_def loads_def Let_def split: option.splits)

lemma acquire_effects [part_simps]:
  "sv_lock (acquire_interfaces w s) = sv_lock s"
  "sv_qlock (acquire_interfaces w s) = sv_qlock s"
  "sv_state (acquire_interfaces w s) = sv_state s"
  "sv_config (acquire_interfaces w s) = sv_config s"
  "sv_lastId (acquire_interfaces w s) = sv_lastId s"
  "sv_stateControl (acquire_interfaces w s) = sv_stateControl s"
  "sv_handler (acquire_interfaces w s) \<longleftrightarrow> sv_handler s \<or> loads w (sv_config s)"
  by (auto simp: acquire_interfaces_def svc_simps fst_instantiate [symmetric]
      split: prod.splits bool.splits dest: instantiate_effects)

lemma acquire_failed:
  "\<not> loads w (sv_config s) \<Longrightarrow>
     sv_connection (acquire_interfaces w s) = sv_connection s \<and>
     sv_library (acquire_interfaces w s) = sv_library s \<and>
     sv_interfaces (acquire_interfaces w s) = sv_interfaces s"
  by (auto simp: acquire_interfaces_def svc_simps fst_instantiate [symmetric]
      split: prod.splits bool.splits dest: instantiate_effects)

lemma acquire_conditions:
  "loads w (sv_config s) \<Longrightarrow>
     sv_precondition (acquire_interfaces w s) = snd (evaluate (sv_precondition s) (out_subsystems w)) \<and>
     sv_termination (acquire_interfaces w s) = snd (evaluate (sv_termination s) (out_subsystems w))"
  by (auto simp: acquire_interfaces_def svc_simps fst_instantiate [symmetric] eval_conditions_def
      split: prod.splits bool.splits dest: instantiate_effects)

lemma terminate_effects [part_simps]:
  "sv_lock (terminate_connection s) = sv_lock s"
  "sv_qlock (terminate_connection s) = sv_qlock s"
  "sv_state (terminate_connection s) = sv_state s"
  "sv_config (terminate_connection s) = sv_config s"
  "sv_reason (terminate_connection s) = sv_reason s"
  "sv_stateControl (terminate_connection s) = sv_stateControl s"
  "sv_connection (terminate_connection s) = None"
  "sv_interfaces (terminate_connection s) = sv_interfaces s"
  "sv_precondition (terminate_connection s) = sv_precondition s"
  "sv_termination (terminate_connection s) = sv_termination s"
  by (auto simp: terminate_connection_def svc_simps split: option.splits)

lemma release_effects [part_simps]:
  "sv_lock (release_interfaces s) = sv_lock s"
  "sv_qlock (release_interfaces s) = sv_qlock s"
  "sv_state (release_interfaces s) = sv_state s"
  "sv_config (release_interfaces s) = sv_config s"
  "sv_reason (release_interfaces s) = sv_reason s"
  "sv_stateControl (release_interfaces s) = sv_stateControl s"
  "sv_connection (release_interfaces s) = None"
  "sv_interfaces (release_interfaces s) = {}"
  "sv_precondition (release_interfaces s) = sv_precondition s"
  "sv_termination (release_interfaces s) = sv_termination s"
  "sv_handler (release_interfaces s) = False"
  "sv_library (release_interfaces s) = False"
  by (auto simp: release_interfaces_def Let_def svc_simps terminate_effects)

lemma wakeup_effects:
  "wakeup w s = (r, t) \<Longrightarrow>
     sv_lock t = sv_lock s \<and> sv_qlock t = sv_qlock s \<and> sv_handler t = sv_handler s \<and>
     sv_interfaces t = sv_interfaces s \<and> sv_connection t = sv_connection s \<and> sv_library t = sv_library s \<and>
     sv_stateControl t = sv_stateControl s \<and> sv_config t = sv_config s \<and>
     sv_precondition t = sv_precondition s \<and> sv_termination t = sv_termination s \<and>
     (if r = ERROR_NONE then sv_state t = ACTIVATED else sv_state t = sv_state s)"
  by (auto simp: wakeup_def Let_def svc_simps split: if_splits)

lemma destroy_effects [part_simps]:
  "sv_lock (destroy_pending s) = sv_lock s"
  "sv_qlock (destroy_pending s) = sv_qlock s"
  "sv_state (destroy_pending s) = sv_state s"
  "sv_config (destroy_pending s) = sv_config s"
  "sv_handler (destroy_pending s) = sv_handler s"
  "sv_interfaces (destroy_pending s) = sv_interfaces s"
  "sv_connection (destroy_pending s) = sv_connection s"
  "sv_library (destroy_pending s) = sv_library s"
  "sv_stateControl (destroy_pending s) = sv_stateControl s"
  "sv_precondition (destroy_pending s) = sv_precondition s"
  "sv_termination (destroy_pending s) = sv_termination s"
  "sv_lastId (destroy_pending s) = 0"
  by (auto simp: destroy_pending_def svc_simps)

lemma load_effects [part_simps]:
  "sv_lock (activate_load why w s) = sv_lock s"
  "sv_qlock (activate_load why w s) = Suc (sv_qlock s)"
  "sv_state (activate_load why w s) = sv_state s"
  "sv_config (activate_load why w s) = sv_config s"
  "sv_stateControl (activate_load why w s) = sv_stateControl s"
  "sv_handler (activate_load why w s) \<longleftrightarrow> sv_handler s \<or> loads w (sv_config s)"
  by (auto simp: activate_load_def svc_simps acquire_effects when_def)

lemma load_failed:
  "\<not> sv_handler (activate_load why w s) \<Longrightarrow>
     sv_connection (activate_load why w s) = sv_connection s \<and>
     sv_library (activate_load why w s) = sv_library s \<and>
     sv_interfaces (activate_load why w s) = sv_interfaces s"
  by (auto simp: activate_load_def svc_simps acquire_effects acquire_failed when_def)

lemma initialize_effects [part_simps]:
  "sv_lock (plugin_initialize w s) = sv_lock s"
  "sv_qlock (plugin_initialize w s) = sv_qlock s"
  "sv_state (plugin_initialize w s) = sv_state s"
  "sv_config (plugin_initialize w s) = sv_config s"
  "sv_handler (plugin_initialize w s) = sv_handler s"
  "sv_interfaces (plugin_initialize w s) = sv_interfaces s"
  "sv_library (plugin_initialize w s) = sv_library s"
  "sv_stateControl (plugin_initialize w s) = sv_stateControl s"
  "sv_error (plugin_initialize w s) = out_initialize w"
  by (auto simp: plugin_initialize_def svc_simps)

lemma failed_effects [part_simps]:
  "sv_lock (activate_failed s) = sv_lock s"
  "sv_qlock (activate_failed s) = sv_qlock s - 1"
  "sv_state (activate_failed s) = DEACTIVATED"
  "sv_config (activate_failed s) = sv_config s"
  "sv_stateControl (activate_failed s) = sv_stateControl s"
  "sv_handler (activate_failed s) = False"
  "sv_interfaces (activate_failed s) = {}"
  "sv_connection (activate_failed s) = None"
  "sv_library (activate_failed s) = False"
  by (auto simp: activate_failed_def svc_simps release_effects)

lemma done_effects [part_simps]:
  "sv_lock (activate_done why w s) = sv_lock s"
  "sv_qlock (activate_done why w s) = sv_qlock s - 1"
  "sv_state (activate_done why w s) = ACTIVATED"
  "sv_config (activate_done why w s) = sv_config s"
  "sv_handler (activate_done why w s) = sv_handler s"
  "sv_interfaces (activate_done why w s) = sv_interfaces s"
  "sv_connection (activate_done why w s) = sv_connection s"
  "sv_library (activate_done why w s) = sv_library s"
  "sv_stateControl (activate_done why w s) = out_stateControl w"
  by (auto simp: activate_done_def svc_simps)

lemma unset_effects [part_simps]:
  "sv_lock (unset_subsystems s) = sv_lock s"
  "sv_qlock (unset_subsystems s) = sv_qlock s"
  "sv_config (unset_subsystems s) = sv_config s"
  "sv_precondition (unset_subsystems s) = sv_precondition s"
  "sv_termination (unset_subsystems s) = sv_termination s"
  by (auto simp: unset_subsystems_eq)

lemma teardown_effects [part_simps]:
  "sv_lock (deactivate_teardown c why w s) = Suc (sv_lock s - 1)"
  "sv_qlock (deactivate_teardown c why w s) = Suc (sv_qlock s)"
  "sv_stateControl (deactivate_teardown c why w s) = False"
  "sv_config (deactivate_teardown c why w s) = sv_config s"
  by (auto simp: deactivate_teardown_def svc_simps unset_effects)

lemma wakeup_first_effects [part_simps]:
  "sv_lock (deactivate_wakeup w s) = sv_lock s"
  "sv_qlock (deactivate_wakeup w s) = sv_qlock s"
  "sv_config (deactivate_wakeup w s) = sv_config s"
  "sv_state s = HIBERNATED \<Longrightarrow> sv_state (deactivate_wakeup w s) = ACTIVATED"
  by (auto simp: deactivate_wakeup_def svc_simps split: prod.splits dest: wakeup_effects)

lemma deactivate_now_effects [part_simps]:
  assumes "sv_lock s = Suc n"
  shows "sv_lock (deactivate_now c why w s) = n"
    and "sv_qlock (deactivate_now c why w s) = sv_qlock s"
    and "sv_state (deactivate_now c why w s) = (if why = CONDITIONS then PRECONDITION else DEACTIVATED)"
    and "sv_config (deactivate_now c why w s) = sv_config s"
    and "sv_handler (deactivate_now c why w s) = False"
    and "sv_interfaces (deactivate_now c why w s) = {}"
    and "sv_connection (deactivate_now c why w s) = None"
    and "sv_library (deactivate_now c why w s) = False"
  using assms
  by (auto simp: deactivate_now_def Let_def svc_simps part_simps when_def)

lemma deactivate_now_stateControl:
  "sv_stateControl (deactivate_now c why w s) \<longleftrightarrow>
     sv_stateControl s \<and> c \<notin> {ACTIVATION, ACTIVATED, HIBERNATED}"
  by (auto simp: deactivate_now_def Let_def svc_simps part_simps when_def)

subsection \<open>The two mutexes\<close>

definition balanced :: "service \<Rightarrow> service \<Rightarrow> bool" where
  "balanced s t \<longleftrightarrow> sv_lock t = sv_lock s \<and> sv_qlock t = sv_qlock s"

lemma activate_balanced: "balanced s (snd (activate why w s))"
  by (auto simp: activate_def activate_begin_def balanced_def svc_simps part_simps Let_def
      split: option.split if_splits prod.splits dest: wakeup_effects)

lemma deactivate_balanced: "balanced s (snd (deactivate why w s))"
  by (auto simp: deactivate_def balanced_def svc_simps part_simps Let_def)

lemma resume_balanced: "balanced s (snd (resume why w s))"
  using activate_balanced [of "lock s" why w]
  by (auto simp: resume_def balanced_def svc_simps Let_def split: prod.splits if_splits)

lemma suspend_balanced: "balanced s (snd (suspend why w s))"
  using deactivate_balanced [of s why w]
  by (auto simp: suspend_def balanced_def svc_simps Let_def split: prod.splits if_splits)

lemma unavailable_balanced: "balanced s (snd (unavailable why s))"
  by (auto simp: unavailable_def balanced_def svc_simps Let_def)

lemma set_configline_balanced: "balanced s (snd (set_configline x s))"
  by (auto simp: set_configline_def balanced_def svc_simps Let_def)

lemma hibernate_balanced:
  assumes "\<And>i t. balanced t (other i t)"
  shows "balanced s (snd (hibernate other w s))"
proof -
  have "sv_lock (other i t) = sv_lock t" "sv_qlock (other i t) = sv_qlock t" for i t
    using assms by (auto simp: balanced_def)
  then show ?thesis
    by (auto simp: hibernate_def balanced_def svc_simps Let_def split: prod.splits if_splits)
qed

lemma evaluate_parts_balanced:
  "0 < sv_lock s \<Longrightarrow> balanced s (evaluate_precondition w c s)"
  "0 < sv_lock s \<Longrightarrow> balanced s (evaluate_termination w c s)"
  using activate_balanced deactivate_balanced
  by (auto simp: evaluate_precondition_def evaluate_termination_def balanced_def svc_simps Let_def split: prod.splits)

lemma service_evaluate_balanced: "balanced s (service_evaluate w s)"
  using evaluate_parts_balanced [of "lock s"]
    evaluate_parts_balanced(2) [of "evaluate_precondition w (sv_state s) (lock s)" w "sv_state s"]
  by (auto simp: service_evaluate_def balanced_def svc_simps Let_def)

subsection \<open>What a shell holds in each state\<close>

text \<open>
  \<open>holds_inv\<close> ties the state of a shell at rest to what it holds of the plugin: the plugin itself,
  its interfaces, the connection to its process, its library and its state control.
\<close>

definition holds_inv :: "service \<Rightarrow> bool" where
  "holds_inv s \<longleftrightarrow>
     sv_state s \<in> {UNAVAILABLE, DEACTIVATED, ACTIVATED, PRECONDITION, HIBERNATED} \<and>
     (sv_state s \<in> {ACTIVATED, HIBERNATED} \<longrightarrow> sv_handler s) \<and>
     (sv_state s \<in> {UNAVAILABLE, DEACTIVATED} \<longrightarrow> \<not> sv_handler s) \<and>
     (\<not> sv_handler s \<longrightarrow> sv_interfaces s = {} \<and> sv_connection s = None \<and> \<not> sv_library s) \<and>
     (sv_stateControl s \<longrightarrow> sv_state s \<in> {ACTIVATED, HIBERNATED}) \<and>
     (sv_state s = HIBERNATED \<longrightarrow> sv_connection s \<noteq> None)"

lemma holds_new: "holds_inv (new_service cfg pre term)"
  by (simp add: new_service_def holds_inv_def)

lemma unlock_lock [simp]: "unlock (lock s) = s"
  by (simp add: lock_def unlock_def)

lemma holds_conditions:
  "holds_inv (s\<lparr>sv_precondition := d\<rparr>) \<longleftrightarrow> holds_inv s"
  "holds_inv (s\<lparr>sv_termination := d\<rparr>) \<longleftrightarrow> holds_inv s"
  by (simp_all add: holds_inv_def)

text \<open>\<open>Activate\<close> by the state it finds.\<close>

lemma activate_by_state:
  "sv_state s = HIBERNATED \<Longrightarrow>
     activate why w s = (fst (wakeup w (lock s)), unlock (snd (wakeup w (lock s))))"
  "sv_state s \<in> {UNAVAILABLE, DEACTIVATION, DESTROYED} \<Longrightarrow> activate why w s = (ERROR_ILLEGAL_STATE, s)"
  "sv_state s = ACTIVATION \<Longrightarrow> activate why w s = (ERROR_INPROGRESS, s)"
  "sv_state s = ACTIVATED \<Longrightarrow> activate why w s = (ERROR_NONE, s)"
  by (auto simp: activate_def activate_begin_def svc_simps Let_def split: prod.split)

lemma activate_from_rest:
  assumes "sv_state s \<in> {DEACTIVATED, PRECONDITION}"
  shows "activate why w s =
     (let t = activate_load why w (lock s) in
      if \<not> (sv_handler s \<or> loads w (sv_config s)) then
        (ERROR_UNAVAILABLE,
         steps [sv_reason_update (\<lambda>_. INSTANTIATION_FAILED), set_state DEACTIVATED, qunlock, unlock] t)
      else if \<not> is_met (sv_precondition t) then
        (ERROR_PENDING_CONDITIONS, steps [set_state PRECONDITION, qunlock, unlock] t)
      else
        let u = plugin_initialize w
                  (steps [when (\<lambda>s. sv_lastId s \<noteq> 0) destroy_pending,
                          call Admin_Initialize, set_state ACTIVATION, unlock] t)
        in if out_initialize w \<noteq> [] then (ERROR_GENERAL, activate_failed u)
           else (ERROR_NONE, activate_done why w u))"
proof -
  have "sv_state s \<noteq> ACTIVATION" "sv_state s \<noteq> UNAVAILABLE" "sv_state s \<noteq> DEACTIVATION"
    "sv_state s \<noteq> DESTROYED" "sv_state s \<noteq> HIBERNATED" "sv_state s = DEACTIVATED \<or> sv_state s = PRECONDITION"
    using assms by auto
  then show ?thesis
    by (simp add: activate_def activate_begin_def svc_simps part_simps Let_def)
qed

lemma load_keeps_handler:
  "sv_handler s \<Longrightarrow>
     sv_interfaces (activate_load why w s) = sv_interfaces s \<and>
     sv_connection (activate_load why w s) = sv_connection s \<and>
     sv_library (activate_load why w s) = sv_library s \<and>
     sv_precondition (activate_load why w s) = sv_precondition s"
  by (simp add: activate_load_def svc_simps when_def)

lemma holds_from_rest:
  assumes "holds_inv s" "sv_state s \<in> {DEACTIVATED, PRECONDITION}"
  shows "holds_inv (snd (activate why w s))"
proof -
  have sc: "\<not> sv_stateControl s" using assms by (auto simp: holds_inv_def)
  have none: "\<not> sv_handler s \<Longrightarrow> sv_interfaces s = {} \<and> sv_connection s = None \<and> \<not> sv_library s"
    using assms(1) by (auto simp: holds_inv_def)
  have fail: "\<not> loads w (sv_config s) \<Longrightarrow> \<not> sv_handler s \<Longrightarrow>
      sv_interfaces (activate_load why w (lock s)) = {} \<and>
      sv_connection (activate_load why w (lock s)) = None \<and> \<not> sv_library (activate_load why w (lock s))"
    using load_failed [of why w "lock s"] none by (simp add: part_simps svc_simps)
  show ?thesis
    unfolding activate_from_rest [OF assms(2)] holds_inv_def
    using sc fail by (simp add: svc_simps part_simps Let_def)
qed

lemma holds_woken:
  assumes "holds_inv s" "sv_state s = HIBERNATED"
  shows "holds_inv (snd (wakeup w s))"
proof (cases "wakeup w s")
  case (Pair r t)
  then show ?thesis
    using assms wakeup_effects [OF Pair]
    by (cases "r = ERROR_NONE") (auto simp: holds_inv_def)
qed

lemma holds_lock: "holds_inv (lock s) \<longleftrightarrow> holds_inv s"
  and holds_unlock: "holds_inv (unlock s) \<longleftrightarrow> holds_inv s"
  and holds_call: "holds_inv (call e s) \<longleftrightarrow> holds_inv s"
  by (simp_all add: holds_inv_def svc_simps)

lemma holds_activate:
  assumes "holds_inv s"
  shows "holds_inv (snd (activate why w s))"
proof -
  have "sv_state s \<in> {DEACTIVATED, PRECONDITION} \<or> sv_state s = HIBERNATED \<or>
        sv_state s \<in> {UNAVAILABLE, ACTIVATED}"
    using assms by (auto simp: holds_inv_def)
  then show ?thesis
    using assms holds_from_rest [OF assms] holds_woken [of "lock s" w]
    by (auto simp: activate_by_state holds_lock holds_unlock svc_simps)
qed

lemma holds_deactivate:
  assumes "holds_inv s"
  shows "holds_inv (snd (deactivate why w s))"
  using assms
  by (auto simp: deactivate_def holds_inv_def svc_simps part_simps deactivate_now_stateControl Let_def)

lemma holds_unavailable: "holds_inv s \<Longrightarrow> holds_inv (snd (unavailable why s))"
  by (auto simp: unavailable_def Let_def holds_inv_def svc_simps)

lemma holds_configline: "holds_inv s \<Longrightarrow> holds_inv (snd (set_configline x s))"
  by (auto simp: set_configline_def Let_def holds_inv_def svc_simps)

lemma holds_hibernate:
  assumes "holds_inv s" "\<And>i t. holds_inv t \<Longrightarrow> holds_inv (other i t)"
  shows "holds_inv (snd (hibernate other w s))"
proof (cases "cf_allowed_hibernate (sv_config s) \<and> sv_state s = ACTIVATED \<and> sv_connection s \<noteq> None \<and> out_monitorable w")
  case False
  then show ?thesis
    using assms(1) by (auto simp: hibernate_def Let_def holds_lock holds_unlock svc_simps)
next
  case True
  have 0: "holds_inv (set_state HIBERNATED (lock s))"
    using True assms(1) by (auto simp: holds_inv_def svc_simps)
  have 1: "holds_inv t \<Longrightarrow> sv_state t = HIBERNATED \<Longrightarrow> holds_inv (set_state ACTIVATED t)" for t
    by (auto simp: holds_inv_def svc_simps)
  show ?thesis
    using True 0 1 assms(2)
    by (auto simp: hibernate_def Let_def holds_lock holds_unlock holds_call svc_simps split: if_splits prod.splits)
qed

end
