(* ===== verification/Lifecycle_Runs.thy ===== *)
theory Lifecycle_Runs
  imports Lifecycle_Facts
begin

text \<open>
  Any sequence of operations on a shell. The locale \<open>shell_contract\<close> is the interface between the
  operations and what is kept over a run: a predicate that the primitive operations keep is kept
  by the derived ones and holds in every reachable shell. It is interpreted for what a shell
  holds in each state, for the order of the notifications to observers, and for the order of the
  calls to the plugin.
\<close>

subsection \<open>Operations and runs\<close>

datatype shell_op =
    Op_Activate reason | Op_Deactivate reason | Op_Resume reason | Op_Suspend reason
  | Op_Unavailable reason | Op_Hibernate | Op_Evaluate | Op_ConfigLine string

text \<open>One operation, run on its own: no other thread enters the windows of \<open>Hibernate\<close>.\<close>

fun shell_step :: "outside \<Rightarrow> shell_op \<Rightarrow> service \<Rightarrow> service" where
  "shell_step w (Op_Activate why) s = snd (activate why w s)"
| "shell_step w (Op_Deactivate why) s = snd (deactivate why w s)"
| "shell_step w (Op_Resume why) s = snd (resume why w s)"
| "shell_step w (Op_Suspend why) s = snd (suspend why w s)"
| "shell_step w (Op_Unavailable why) s = snd (unavailable why s)"
| "shell_step w Op_Hibernate s = snd (hibernate (\<lambda>_ t. t) w s)"
| "shell_step w Op_Evaluate s = service_evaluate w s"
| "shell_step w (Op_ConfigLine x) s = snd (set_configline x s)"

inductive reachable :: "plugin_config \<Rightarrow> u32 list \<Rightarrow> u32 list \<Rightarrow> service \<Rightarrow> bool"
  for cfg pre ter where
  start: "reachable cfg pre ter (new_service cfg pre ter)"
| step: "reachable cfg pre ter s \<Longrightarrow> reachable cfg pre ter (shell_step w op s)"

subsection \<open>The contract\<close>

locale shell_contract =
  fixes I :: "service \<Rightarrow> bool" and pre ter :: "u32 list"
  assumes I_new: "I (new_service cfg pre ter)"
    and I_lock: "I (lock s) \<longleftrightarrow> I s"
    and I_unlock: "I (unlock s) \<longleftrightarrow> I s"
    and I_request: "I (call (Sc_Request c) s) \<longleftrightarrow> I s"
    and I_precondition: "I s \<Longrightarrow> I (s\<lparr>sv_precondition := snd (evaluate (sv_precondition s) v)\<rparr>)"
    and I_termination: "I s \<Longrightarrow> I (s\<lparr>sv_termination := snd (evaluate (sv_termination s) v)\<rparr>)"
    and I_activate: "I s \<Longrightarrow> I (snd (activate why w s))"
    and I_deactivate: "I s \<Longrightarrow> I (snd (deactivate why w s))"
    and I_unavailable: "I s \<Longrightarrow> I (snd (unavailable why s))"
    and I_hibernate: "I s \<Longrightarrow> I (snd (hibernate (\<lambda>_ t. t) w s))"
    and I_configline: "I s \<Longrightarrow> I (snd (set_configline x s))"
begin

lemma I_resume:
  assumes "I s"
  shows "I (snd (resume why w s))"
proof -
  have "I (snd (activate why w (lock s)))"
    using assms by (intro I_activate) (simp add: I_lock)
  then show ?thesis
    using assms by (auto simp: resume_def Let_def I_lock I_unlock I_request split: prod.splits if_splits)
qed

lemma I_suspend: "I s \<Longrightarrow> I (snd (suspend why w s))"
  by (auto simp: suspend_def Let_def I_lock I_unlock I_request I_deactivate split: prod.splits if_splits)

lemma I_evaluate:
  assumes "I s"
  shows "I (service_evaluate w s)"
proof -
  have 1: "I t \<Longrightarrow> I (evaluate_precondition w c t)" for c t
    using I_precondition [of t "out_subsystems w"]
    by (auto simp: evaluate_precondition_def I_lock I_unlock Let_def intro!: I_activate split: prod.splits)
  have 2: "I t \<Longrightarrow> I (evaluate_termination w c t)" for c t
    using I_termination [of t "out_subsystems w"]
    by (auto simp: evaluate_termination_def I_lock I_unlock Let_def intro!: I_deactivate split: prod.splits)
  show ?thesis using assms by (simp add: service_evaluate_def Let_def I_lock I_unlock 1 2)
qed

lemma I_step: "I s \<Longrightarrow> I (shell_step w op s)"
  by (cases op)
     (simp_all add: I_activate I_deactivate I_resume I_suspend I_unavailable I_hibernate I_evaluate I_configline)

lemma I_reachable: "reachable cfg pre ter s \<Longrightarrow> I s"
  by (induction rule: reachable.induct) (auto intro: I_new I_step)

end

interpretation holds: shell_contract holds_inv pre ter for pre ter
proof unfold_locales
  show "holds_inv s \<Longrightarrow> holds_inv (snd (hibernate (\<lambda>_ t. t) w s))" for s w
    by (rule holds_hibernate)
qed (simp_all add: holds_new holds_lock holds_unlock holds_call holds_activate holds_deactivate
       holds_unavailable holds_configline, simp_all add: holds_inv_def)

subsection \<open>The order of the calls\<close>

definition phase :: "lc_call \<Rightarrow> lc_call \<Rightarrow> service \<Rightarrow> bool option" where
  "phase a b s = alternation a b (map fst (sv_calls s))"

text \<open>The calls whose order is followed; every other call leaves the phase alone.\<close>

definition followed :: "lc_call set" where
  "followed = {Admin_Activated, Admin_Deactivated, Plugin_Initialize, Plugin_Deinitialize}"

lemma phase_call [svc_simps]: "phase a b (call e s) = alt_step a b (phase a b s) e"
  by (simp add: phase_def call_def alternation_snoc)

lemma alt_step_other [simp]: "e \<noteq> a \<Longrightarrow> e \<noteq> b \<Longrightarrow> alt_step a b p e = p"
  by (cases p) simp_all

lemma phase_frames [svc_simps]:
  "phase a b (lock s) = phase a b s"
  "phase a b (unlock s) = phase a b s"
  "phase a b (qlock s) = phase a b s"
  "phase a b (qunlock s) = phase a b s"
  "phase a b (set_state x s) = phase a b s"
  "phase a b (eval_conditions v s) = phase a b s"
  "phase a b (s\<lparr>sv_reason := y1\<rparr>) = phase a b s"
  "phase a b (s\<lparr>sv_interfaces := y2\<rparr>) = phase a b s"
  "phase a b (s\<lparr>sv_handler := y3\<rparr>) = phase a b s"
  "phase a b (s\<lparr>sv_stateControl := y4\<rparr>) = phase a b s"
  "phase a b (s\<lparr>sv_connection := y5\<rparr>) = phase a b s"
  "phase a b (s\<lparr>sv_lastId := y6\<rparr>) = phase a b s"
  "phase a b (s\<lparr>sv_library := y7\<rparr>) = phase a b s"
  "phase a b (s\<lparr>sv_precondition := y8\<rparr>) = phase a b s"
  "phase a b (s\<lparr>sv_termination := y9\<rparr>) = phase a b s"
  "phase a b (s\<lparr>sv_config := y10\<rparr>) = phase a b s"
  "phase a b (s\<lparr>sv_error := y11\<rparr>) = phase a b s"
  by (simp_all add: phase_def svc_simps)

lemmas phase_when [svc_simps] = when_frame [where g = "phase a b" for a b]

text \<open>The parts that make no followed call.\<close>

lemma phase_instantiate: "instantiate_plugin w s = (r, t) \<Longrightarrow> phase a b t = phase a b s"
  by (auto simp: phase_def dest: instantiate_effects)

locale call_order =
  fixes a b :: lc_call
  assumes a_followed: "a \<in> followed" and b_followed: "b \<in> followed"
begin

lemma other [simp]:
  "alt_step a b p Plugin_Release = p"
  "alt_step a b p Admin_Initialize = p"
  "alt_step a b p Admin_Deinitialized = p"
  "alt_step a b p Admin_Unavailable = p"
  "alt_step a b p Admin_Evaluate = p"
  "alt_step a b p (Admin_Destroy n) = p"
  "alt_step a b p (Admin_PostMortem why) = p"
  "alt_step a b p Composit_Acquire = p"
  "alt_step a b p Composit_Release = p"
  "alt_step a b p Rpc_Attach = p"
  "alt_step a b p Rpc_Detach = p"
  "alt_step a b p Web_Enable = p"
  "alt_step a b p Web_Disable = p"
  "alt_step a b p (External_Interface bb) = p"
  "alt_step a b p External_Open = p"
  "alt_step a b p External_Close = p"
  "alt_step a b p Sc_Register = p"
  "alt_step a b p Sc_Unregister = p"
  "alt_step a b p Sc_Release = p"
  "alt_step a b p (Sc_Request c) = p"
  "alt_step a b p (Connection_Terminate n) = p"
  "alt_step a b p Library_Release = p"
  "alt_step a b p Process_Wakeup = p"
  "alt_step a b p Children_Wakeup = p"
  "alt_step a b p Process_Hibernate = p"
  "alt_step a b p Children_Hibernate = p"
  "alt_step a b p (Subsystem_Unset sub) = p"
  "alt_step a b p (Notify_StateChange x why) = p"
  using a_followed b_followed by (cases p; auto simp: followed_def)+

lemma phase_acquire [simp]: "phase a b (acquire_interfaces w s) = phase a b s"
  by (auto simp: acquire_interfaces_def svc_simps split: prod.splits bool.splits dest: phase_instantiate)

lemma phase_terminate [simp]: "phase a b (terminate_connection s) = phase a b s"
  by (simp add: terminate_connection_def svc_simps split: option.split)

lemma phase_release [simp]: "phase a b (release_interfaces s) = phase a b s"
  by (simp add: release_interfaces_def Let_def svc_simps)

lemma phase_wakeup [simp]: "phase a b (snd (wakeup w s)) = phase a b s"
  by (simp add: wakeup_def Let_def svc_simps)

lemma phase_destroy [simp]: "phase a b (destroy_pending s) = phase a b s"
  by (simp add: destroy_pending_def svc_simps)

lemma phase_load [simp]: "phase a b (activate_load why w s) = phase a b s"
  by (simp add: activate_load_def svc_simps)

lemma phase_initialize: "phase a b (plugin_initialize w s) = alt_step a b (phase a b s) Plugin_Initialize"
  by (simp add: plugin_initialize_def svc_simps)

lemma phase_unset [simp]: "phase a b (unset_subsystems s) = phase a b s"
proof -
  have "a \<notin> Subsystem_Unset ` X" "b \<notin> Subsystem_Unset ` X" for X
    using a_followed b_followed by (auto simp: followed_def)
  then show ?thesis
    by (auto simp: phase_def unset_subsystems_eq comp_def intro!: alternation_other)
qed

lemma phase_failed:
  "phase a b (activate_failed s) =
     (if cf_legacy_initialize (sv_config s) then phase a b s
      else alt_step a b (phase a b s) Plugin_Deinitialize)"
  by (simp add: activate_failed_def svc_simps when_def)

lemma phase_done: "phase a b (activate_done why w s) = alt_step a b (phase a b s) Admin_Activated"
  by (simp add: activate_done_def svc_simps)

lemma phase_teardown:
  "phase a b (deactivate_teardown c why w s) =
     alt_step a b
       (if c = ACTIVATED then alt_step a b (phase a b s) Admin_Deactivated else phase a b s)
       Plugin_Deinitialize"
  by (simp add: deactivate_teardown_def svc_simps when_def)

lemma phase_wakeup_first [simp]: "phase a b (deactivate_wakeup w s) = phase a b s"
  using phase_wakeup [of w s] by (cases "wakeup w s") (simp add: deactivate_wakeup_def svc_simps)

lemma phase_deactivate_now:
  "phase a b (deactivate_now c why w s) =
     (if c = ACTIVATED \<or> c = HIBERNATED
      then alt_step a b (alt_step a b (phase a b s) Admin_Deactivated) Plugin_Deinitialize
      else if c = ACTIVATION then alt_step a b (phase a b s) Plugin_Deinitialize
      else phase a b s)"
  by (simp add: deactivate_now_def Let_def svc_simps phase_teardown when_def)

lemma phase_activate_from_rest:
  assumes "sv_state s \<in> {DEACTIVATED, PRECONDITION}"
  shows "phase a b (snd (activate why w s)) =
     (case fst (activate why w s) of
        ERROR_NONE \<Rightarrow> alt_step a b (alt_step a b (phase a b s) Plugin_Initialize) Admin_Activated
      | ERROR_GENERAL \<Rightarrow>
          (if cf_legacy_initialize (sv_config s) then alt_step a b (phase a b s) Plugin_Initialize
           else alt_step a b (alt_step a b (phase a b s) Plugin_Initialize) Plugin_Deinitialize)
      | _ \<Rightarrow> phase a b s)"
  unfolding activate_from_rest [OF assms]
  by (simp add: Let_def svc_simps part_simps phase_initialize phase_failed phase_done)

lemma phase_hibernate [simp]: "phase a b (snd (hibernate (\<lambda>_ t. t) w s)) = phase a b s"
  by (simp add: hibernate_def Let_def svc_simps split: prod.split)

lemma phase_unavailable [simp]: "phase a b (snd (unavailable why s)) = phase a b s"
  by (simp add: unavailable_def Let_def svc_simps)

lemma phase_configline [simp]: "phase a b (snd (set_configline x s)) = phase a b s"
  by (simp add: set_configline_def Let_def svc_simps)

end

interpretation observers: call_order Admin_Activated Admin_Deactivated
  by unfold_locales (simp_all add: followed_def)

interpretation plugin: call_order Plugin_Initialize Plugin_Deinitialize
  by unfold_locales (simp_all add: followed_def)

definition observers_inv :: "service \<Rightarrow> bool" where
  "observers_inv s \<longleftrightarrow> holds_inv s \<and>
     phase Admin_Activated Admin_Deactivated s = Some (sv_state s \<in> {ACTIVATED, HIBERNATED})"

definition plugin_inv :: "service \<Rightarrow> bool" where
  "plugin_inv s \<longleftrightarrow> holds_inv s \<and>
     (cf_legacy_initialize (sv_config s) \<or>
      phase Plugin_Initialize Plugin_Deinitialize s = Some (sv_state s \<in> {ACTIVATED, HIBERNATED}))"

lemma rest_states: "holds_inv s \<Longrightarrow> sv_state s \<in> {UNAVAILABLE, DEACTIVATED, ACTIVATED, PRECONDITION, HIBERNATED}"
  by (simp add: holds_inv_def)

text \<open>The state \<open>Activate\<close> ends in, and its result.\<close>

lemma state_activate_from_rest:
  assumes "sv_state s \<in> {DEACTIVATED, PRECONDITION}"
  shows "fst (activate why w s) \<in> {ERROR_UNAVAILABLE, ERROR_PENDING_CONDITIONS, ERROR_GENERAL, ERROR_NONE}"
    and "sv_state (snd (activate why w s)) =
          (case fst (activate why w s) of
             ERROR_NONE \<Rightarrow> ACTIVATED | ERROR_PENDING_CONDITIONS \<Rightarrow> PRECONDITION | _ \<Rightarrow> DEACTIVATED)"
    and "sv_config (snd (activate why w s)) = sv_config s"
  unfolding activate_from_rest [OF assms]
  by (simp_all add: Let_def svc_simps part_simps)

lemma state_wakeup:
  "sv_state s = HIBERNATED \<Longrightarrow>
     sv_state (snd (wakeup w s)) \<in> {HIBERNATED, ACTIVATED} \<and> sv_config (snd (wakeup w s)) = sv_config s"
  by (simp add: wakeup_def Let_def svc_simps)

lemma observers_activate:
  assumes "observers_inv s"
  shows "observers_inv (snd (activate why w s))"
proof -
  have h: "holds_inv s" and p: "phase Admin_Activated Admin_Deactivated s = Some (sv_state s \<in> {ACTIVATED, HIBERNATED})"
    using assms by (simp_all add: observers_inv_def)
  have h': "holds_inv (snd (activate why w s))" by (rule holds_activate [OF h])
  consider "sv_state s \<in> {DEACTIVATED, PRECONDITION}" | "sv_state s = HIBERNATED" | "sv_state s \<in> {UNAVAILABLE, ACTIVATED}"
    using rest_states [OF h] by auto
  then show ?thesis
  proof cases
    case 1
    then show ?thesis
      using h' p state_activate_from_rest [OF 1, of why w]
      by (auto simp: observers_inv_def observers.phase_activate_from_rest [OF 1])
  next
    case 2
    then show ?thesis
      using h' p state_wakeup [of "lock s" w] by (auto simp: observers_inv_def activate_by_state svc_simps)
  next
    case 3
    then show ?thesis using assms by (auto simp: activate_by_state)
  qed
qed

lemma plugin_activate:
  assumes "plugin_inv s"
  shows "plugin_inv (snd (activate why w s))"
proof -
  have h: "holds_inv s" and p: "cf_legacy_initialize (sv_config s) \<or>
      phase Plugin_Initialize Plugin_Deinitialize s = Some (sv_state s \<in> {ACTIVATED, HIBERNATED})"
    using assms by (simp_all add: plugin_inv_def)
  have h': "holds_inv (snd (activate why w s))" by (rule holds_activate [OF h])
  consider "sv_state s \<in> {DEACTIVATED, PRECONDITION}" | "sv_state s = HIBERNATED" | "sv_state s \<in> {UNAVAILABLE, ACTIVATED}"
    using rest_states [OF h] by auto
  then show ?thesis
  proof cases
    case 1
    then show ?thesis
      using h' p state_activate_from_rest [OF 1, of why w]
      by (auto simp: plugin_inv_def plugin.phase_activate_from_rest [OF 1])
  next
    case 2
    then show ?thesis
      using h' p state_wakeup [of "lock s" w] by (auto simp: plugin_inv_def activate_by_state svc_simps)
  next
    case 3
    then show ?thesis using assms by (auto simp: activate_by_state)
  qed
qed

lemma config_deactivate: "sv_config (snd (deactivate why w s)) = sv_config s"
  by (simp add: deactivate_def Let_def svc_simps part_simps)

lemma observers_deactivate:
  "observers_inv s \<Longrightarrow> observers_inv (snd (deactivate why w s))"
  using holds_deactivate [of s why w]
  by (auto simp: observers_inv_def deactivate_def Let_def svc_simps part_simps observers.phase_deactivate_now
      dest!: rest_states)

lemma plugin_deactivate:
  "plugin_inv s \<Longrightarrow> plugin_inv (snd (deactivate why w s))"
  using holds_deactivate [of s why w]
  by (auto simp: plugin_inv_def deactivate_def Let_def svc_simps part_simps plugin.phase_deactivate_now
      dest!: rest_states)

lemma state_hibernate:
  "sv_state (snd (hibernate (\<lambda>_ t. t) w s)) =
     (if sv_state s = ACTIVATED \<and> fst (hibernate (\<lambda>_ t. t) w s) = ERROR_NONE then HIBERNATED else sv_state s)"
  "sv_config (snd (hibernate (\<lambda>_ t. t) w s)) = sv_config s"
  by (simp_all add: hibernate_def Let_def svc_simps split: prod.split)

lemma state_unavailable:
  "sv_state (snd (unavailable why s)) =
     (if sv_state s = DEACTIVATED \<and> cf_allowed_unavailable (sv_config s) then UNAVAILABLE else sv_state s)"
  "sv_config (snd (unavailable why s)) = sv_config s"
  by (auto simp: unavailable_def Let_def svc_simps)

lemma state_configline:
  "sv_state (snd (set_configline x s)) = sv_state s"
  "cf_legacy_initialize (sv_config (snd (set_configline x s))) = cf_legacy_initialize (sv_config s)"
  by (auto simp: set_configline_def Let_def svc_simps)

interpretation notified: shell_contract observers_inv pre ter for pre ter
proof unfold_locales
  show "observers_inv (new_service cfg pre ter)" for cfg
    by (simp add: observers_inv_def holds_new) (simp add: phase_def new_service_def)
  show "observers_inv s \<Longrightarrow> observers_inv (snd (hibernate (\<lambda>_ t. t) w s))" for s w
    using holds_hibernate [of s "\<lambda>_ t. t" w] by (auto simp: observers_inv_def state_hibernate)
  show "observers_inv s \<Longrightarrow> observers_inv (snd (unavailable why s))" for s why
    using holds_unavailable [of s why]
    by (auto simp: observers_inv_def state_unavailable)
  show "observers_inv s \<Longrightarrow> observers_inv (snd (set_configline x s))" for s x
    using holds_configline [of s x]
    by (auto simp: observers_inv_def state_configline)
qed (simp_all add: observers_activate observers_deactivate,
     simp_all add: observers_inv_def holds_lock holds_unlock holds_call holds_conditions svc_simps)

interpretation driven: shell_contract plugin_inv pre ter for pre ter
proof unfold_locales
  show "plugin_inv (new_service cfg pre ter)" for cfg
    by (simp add: plugin_inv_def holds_new) (simp add: phase_def new_service_def)
  show "plugin_inv s \<Longrightarrow> plugin_inv (snd (hibernate (\<lambda>_ t. t) w s))" for s w
    using holds_hibernate [of s "\<lambda>_ t. t" w] by (auto simp: plugin_inv_def state_hibernate)
  show "plugin_inv s \<Longrightarrow> plugin_inv (snd (unavailable why s))" for s why
    using holds_unavailable [of s why]
    by (auto simp: plugin_inv_def state_unavailable)
  show "plugin_inv s \<Longrightarrow> plugin_inv (snd (set_configline x s))" for s x
    using holds_configline [of s x]
    by (auto simp: plugin_inv_def state_configline)
qed (simp_all add: plugin_activate plugin_deactivate,
     simp_all add: plugin_inv_def holds_lock holds_unlock holds_call holds_conditions svc_simps)

subsection \<open>The conditions of a shell\<close>

text \<open>
  The precondition and the termination of a shell go on standing for the subsystems they were
  built from, whatever happens to the shell.
\<close>

definition conditions_inv :: "subsystem list \<Rightarrow> subsystem list \<Rightarrow> service \<Rightarrow> bool" where
  "conditions_inv ss ts s \<longleftrightarrow> requires ss (sv_precondition s) \<and> watches ts (sv_termination s)"

lemma conditions_frames [svc_simps]:
  "conditions_inv ss ts (lock s) = conditions_inv ss ts s"
  "conditions_inv ss ts (unlock s) = conditions_inv ss ts s"
  "conditions_inv ss ts (qlock s) = conditions_inv ss ts s"
  "conditions_inv ss ts (qunlock s) = conditions_inv ss ts s"
  "conditions_inv ss ts (call e s) = conditions_inv ss ts s"
  "conditions_inv ss ts (set_state x s) = conditions_inv ss ts s"
  "conditions_inv ss ts (release_interfaces s) = conditions_inv ss ts s"
  "conditions_inv ss ts (destroy_pending s) = conditions_inv ss ts s"
  "conditions_inv ss ts (unset_subsystems s) = conditions_inv ss ts s"
  "conditions_inv ss ts (s\<lparr>sv_reason := y1\<rparr>) = conditions_inv ss ts s"
  "conditions_inv ss ts (s\<lparr>sv_interfaces := y2\<rparr>) = conditions_inv ss ts s"
  "conditions_inv ss ts (s\<lparr>sv_handler := y3\<rparr>) = conditions_inv ss ts s"
  "conditions_inv ss ts (s\<lparr>sv_stateControl := y4\<rparr>) = conditions_inv ss ts s"
  "conditions_inv ss ts (s\<lparr>sv_connection := y5\<rparr>) = conditions_inv ss ts s"
  "conditions_inv ss ts (s\<lparr>sv_config := y6\<rparr>) = conditions_inv ss ts s"
  "conditions_inv ss ts (s\<lparr>sv_error := y7\<rparr>) = conditions_inv ss ts s"
  by (simp_all add: conditions_inv_def svc_simps part_simps)

lemmas conditions_when [svc_simps] = when_frame [where g = "conditions_inv ss ts" for ss ts]

lemma conditions_eval: "conditions_inv ss ts s \<Longrightarrow> conditions_inv ss ts (eval_conditions v s)"
  by (simp add: conditions_inv_def eval_conditions_def evaluate_requires evaluate_watches)

lemma conditions_wakeup: "conditions_inv ss ts (snd (wakeup w s)) = conditions_inv ss ts s"
  by (simp add: wakeup_def Let_def svc_simps)

lemma conditions_load:
  assumes "conditions_inv ss ts s"
  shows "conditions_inv ss ts (activate_load why w s)"
proof -
  have "conditions_inv ss ts (acquire_interfaces w t)" if "conditions_inv ss ts t" for t
    using that
    by (auto simp: acquire_interfaces_def svc_simps split: prod.split bool.split
        dest!: instantiate_effects intro!: conditions_eval)
       (simp_all add: conditions_inv_def)
  then show ?thesis
    using assms by (simp add: activate_load_def when_def svc_simps)
qed

lemma conditions_activate:
  assumes "conditions_inv ss ts s"
  shows "conditions_inv ss ts (snd (activate why w s))"
proof -
  have "conditions_inv ss ts (activate_load why w (lock s))"
    by (rule conditions_load) (simp add: assms svc_simps)
  then show ?thesis
    using assms conditions_wakeup [of ss ts w "lock s"]
    by (cases "sv_state s")
       (simp_all add: activate_by_state activate_from_rest Let_def svc_simps activate_failed_def
         activate_done_def plugin_initialize_def)
qed

lemma conditions_deactivate:
  assumes "conditions_inv ss ts s"
  shows "conditions_inv ss ts (snd (deactivate why w s))"
proof -
  have 1: "conditions_inv ss ts (deactivate_teardown c why w t)" if "conditions_inv ss ts t" for c t
    using that by (simp add: deactivate_teardown_def svc_simps conditions_eval)
  have 2: "conditions_inv ss ts (deactivate_wakeup w t)" if "conditions_inv ss ts t" for t
    using that conditions_wakeup [of ss ts w t]
    by (cases "wakeup w t") (simp add: deactivate_wakeup_def svc_simps)
  have "conditions_inv ss ts (deactivate_now c why w t)" if "conditions_inv ss ts t" for c t
    using that by (simp add: deactivate_now_def Let_def svc_simps 1 2 when_def)
  then show ?thesis using assms by (simp add: deactivate_def Let_def svc_simps)
qed

interpretation conditioned: shell_contract "conditions_inv ss ts" "map pos_subsystem ss" "map not_subsystem ts" for ss ts
proof unfold_locales
  show "conditions_inv ss ts (new_service cfg (map pos_subsystem ss) (map not_subsystem ts))" for cfg
    by (simp add: conditions_inv_def new_service_def mk_precondition mk_termination)
  show "conditions_inv ss ts s \<Longrightarrow> conditions_inv ss ts (snd (hibernate (\<lambda>_ t. t) w s))" for s w
    by (auto simp: hibernate_def Let_def svc_simps split: prod.split)
qed (simp_all add: svc_simps conditions_activate conditions_deactivate unavailable_def set_configline_def Let_def,
     simp_all add: conditions_inv_def evaluate_requires evaluate_watches)

end
