(* ===== verification/Lifecycle_Properties.thy ===== *)
theory Lifecycle_Properties
  imports Lifecycle_Runs
begin

text \<open>
  The properties of the life cycle of a plugin, over the operations of \<open>Lifecycle\<close> and their
  runs, with a concrete configuration for the witnesses.
\<close>

subsection \<open>A concrete shell\<close>

definition example_config :: plugin_config where
  "example_config =
     \<lparr>cf_locator_empty = False, cf_root_set = False, cf_root_off = False, cf_startmode = StartActivated,
      cf_startmode_set = True, cf_resumed = None, cf_webui = False, cf_connector = False,
      cf_legacy_initialize = False, cf_hibernate_support = True, cf_allowed_hibernate = True,
      cf_allowed_unavailable = True, cf_controls = [], cf_configline = []\<rparr>"

definition example_outside :: "u32 \<Rightarrow> outside" where
  "example_outside v =
     \<lparr>out_module = True, out_library = True, out_instance = True, out_root = None,
      out_interfaces = {IDispatcher}, out_initialize = [], out_connection = Some 7,
      out_stateControl = True, out_sc_state = SUSPENDED, out_request = ERROR_NONE,
      out_monitorable = True, out_wakeup = ERROR_NONE, out_hibernate = ERROR_NONE,
      out_hibernate_children = ERROR_NONE, out_subsystems = v\<rparr>"

definition active_example :: service where
  "active_example = snd (activate STARTUP (example_outside 0) (new_service example_config [] []))"

lemma reachable_active_example: "reachable example_config [] [] active_example"
  using reachable.step [OF reachable.start, of example_config "[]" "[]" "example_outside 0" "Op_Activate STARTUP"]
  by (simp add: active_example_def)

lemma activate_example:
  "fst (activate STARTUP (example_outside 0) (new_service example_config [] [])) = ERROR_NONE"
  "sv_state active_example = ACTIVATED"
  by (simp_all add: active_example_def activate_from_rest new_service_def example_config_def example_outside_def
      loads_def is_met_def activate_load_def acquire_interfaces_def instantiate_plugin_def
      eval_conditions_def evaluate_def mk_condition_def svc_simps part_simps Let_def)

subsection \<open>State and resources\<close>

text \<open>
  C14: in every reachable shell at rest, the state agrees with what the shell holds of its plugin:
  no transient state is left behind; an activated or hibernated shell holds the plugin; an
  unavailable or deactivated one holds neither plugin, interfaces, library nor connection; only an
  activated or hibernated one holds a state control; a hibernated one has a process to wake up.
\<close>

theorem shell_state_agrees:
  assumes "reachable cfg pre ter s"
  shows "sv_state s \<notin> {ACTIVATION, DEACTIVATION, DESTROYED}
    \<and> (sv_state s = ACTIVATED \<or> sv_state s = HIBERNATED \<longrightarrow> sv_handler s)
    \<and> (sv_state s = DEACTIVATED \<or> sv_state s = UNAVAILABLE \<longrightarrow>
         \<not> sv_handler s \<and> sv_interfaces s = {} \<and> \<not> sv_library s \<and> sv_connection s = None \<and> \<not> sv_stateControl s)
    \<and> (sv_stateControl s \<longrightarrow> sv_state s = ACTIVATED \<or> sv_state s = HIBERNATED)
    \<and> (sv_state s = HIBERNATED \<longrightarrow> sv_connection s \<noteq> None)"
  using holds.I_reachable [OF assms] by (auto simp: holds_inv_def)

theorem shell_state_agrees_witness: "sv_state active_example = ACTIVATED \<and> sv_handler active_example"
  using shell_state_agrees [OF reachable_active_example] activate_example(2) by simp

subsection \<open>Notifications\<close>

text \<open>
  C19: in every run, the notifications that observers get about one plugin alternate: Activated,
  Deactivated, Activated, and so on, and the last one is Activated exactly while the plugin is
  activated or hibernated.
\<close>

theorem observers_alternate:
  assumes "reachable cfg pre ter s"
  shows "\<exists>n. filter (\<lambda>e. e = Admin_Activated \<or> e = Admin_Deactivated) (map fst (sv_calls s)) =
     concat (replicate n [Admin_Activated, Admin_Deactivated]) @
     (if sv_state s \<in> {ACTIVATED, HIBERNATED} then [Admin_Activated] else [])"
  using notified.I_reachable [OF assms]
  by (intro alternation_shape) (simp_all add: observers_inv_def phase_def)

theorem observers_alternate_witness:
  "\<exists>n. filter (\<lambda>e. e = Admin_Activated \<or> e = Admin_Deactivated) (map fst (sv_calls active_example)) =
     concat (replicate n [Admin_Activated, Admin_Deactivated]) @ [Admin_Activated]"
  using observers_alternate [OF reachable_active_example] activate_example(2) by simp

text \<open>
  C2: unless the legacy initialisation is configured, the plugin itself sees Initialize and
  Deinitialize in turn, also when an initialisation fails, and is initialised exactly while the
  shell is activated or hibernated.
\<close>

theorem plugin_calls_alternate:
  assumes "reachable cfg pre ter s" and "\<not> cf_legacy_initialize (sv_config s)"
  shows "\<exists>n. filter (\<lambda>e. e = Plugin_Initialize \<or> e = Plugin_Deinitialize) (map fst (sv_calls s)) =
     concat (replicate n [Plugin_Initialize, Plugin_Deinitialize]) @
     (if sv_state s \<in> {ACTIVATED, HIBERNATED} then [Plugin_Initialize] else [])"
  using driven.I_reachable [OF assms(1)] assms(2)
  by (intro alternation_shape) (simp_all add: plugin_inv_def phase_def)

lemma active_example_config: "sv_config active_example = example_config"
  by (simp add: active_example_def state_activate_from_rest(3) new_service_def example_config_def)

theorem plugin_calls_alternate_witness:
  "\<exists>n. filter (\<lambda>e. e = Plugin_Initialize \<or> e = Plugin_Deinitialize) (map fst (sv_calls active_example)) =
     concat (replicate n [Plugin_Initialize, Plugin_Deinitialize]) @ [Plugin_Initialize]"
  using plugin_calls_alternate [OF reachable_active_example] activate_example(2)
  by (simp add: active_example_config example_config_def)

subsection \<open>The mutexes\<close>

text \<open>
  \<open>locks_at n s\<close>: the mutexes at the calls into the plugin so far, with the admin lock at depth \<open>n\<close>
  or less where the operations do not take it themselves. Initialize and Deinitialize were called
  with the query lock held once. The state control was called without the query lock: its Register
  and its Request with the admin lock held, its Unregister and its Release without it.
\<close>

fun call_locks :: "nat \<Rightarrow> lc_call \<Rightarrow> nat \<Rightarrow> nat \<Rightarrow> bool" where
  "call_locks n Plugin_Initialize l q = (l \<le> n \<and> q = 1)"
| "call_locks n Plugin_Deinitialize l q = (l \<le> n \<and> q = 1)"
| "call_locks n Sc_Register l q = (1 \<le> l \<and> l \<le> Suc n \<and> q = 0)"
| "call_locks n (Sc_Request c) l q = (1 \<le> l \<and> l \<le> Suc n \<and> q = 0)"
| "call_locks n Sc_Unregister l q = (l = 0 \<and> q = 0)"
| "call_locks n Sc_Release l q = (l = 0 \<and> q = 0)"
| "call_locks n e l q = True"

definition locks_at :: "nat \<Rightarrow> service \<Rightarrow> bool" where
  "locks_at n s \<longleftrightarrow> (\<forall>(e, l, q) \<in> set (sv_calls s). call_locks n e l q)"

lemma locks_at_call [svc_simps]:
  "locks_at n (call e s) \<longleftrightarrow> locks_at n s \<and> call_locks n e (sv_lock s) (sv_qlock s)"
  by (auto simp: locks_at_def call_def)

lemma locks_at_frames [svc_simps]:
  "locks_at n (lock s) = locks_at n s"
  "locks_at n (unlock s) = locks_at n s"
  "locks_at n (qlock s) = locks_at n s"
  "locks_at n (qunlock s) = locks_at n s"
  "locks_at n (set_state x s) = locks_at n s"
  "locks_at n (eval_conditions v s) = locks_at n s"
  "locks_at n (s\<lparr>sv_reason := y1\<rparr>) = locks_at n s"
  "locks_at n (s\<lparr>sv_interfaces := y2\<rparr>) = locks_at n s"
  "locks_at n (s\<lparr>sv_handler := y3\<rparr>) = locks_at n s"
  "locks_at n (s\<lparr>sv_stateControl := y4\<rparr>) = locks_at n s"
  "locks_at n (s\<lparr>sv_connection := y5\<rparr>) = locks_at n s"
  "locks_at n (s\<lparr>sv_config := y6\<rparr>) = locks_at n s"
  "locks_at n (s\<lparr>sv_error := y7\<rparr>) = locks_at n s"
  "locks_at n (s\<lparr>sv_lastId := y8\<rparr>) = locks_at n s"
  "locks_at n (s\<lparr>sv_library := y9\<rparr>) = locks_at n s"
  "locks_at n (s\<lparr>sv_precondition := y10\<rparr>) = locks_at n s"
  "locks_at n (s\<lparr>sv_termination := y11\<rparr>) = locks_at n s"
  by (simp_all add: locks_at_def svc_simps)

lemma locks_at_unset [svc_simps]: "locks_at n (unset_subsystems s) = locks_at n s"
proof -
  have "locks_at n (foldl (\<lambda>s x. call (Subsystem_Unset x) s) s xs) = locks_at n s" for xs
    by (induction xs arbitrary: s) (simp_all add: svc_simps)
  then show ?thesis by (simp add: unset_subsystems_def)
qed

lemma locks_at_when [svc_simps]:
  "locks_at n (when P f s) = (if P s then locks_at n (f s) else locks_at n s)"
  by (simp add: when_def)

lemma locks_at_parts [svc_simps]:
  "locks_at n (terminate_connection s) = locks_at n s"
  "locks_at n (release_interfaces s) = locks_at n s"
  "locks_at n (destroy_pending s) = locks_at n s"
  "locks_at n (snd (wakeup w s)) = locks_at n s"
  by (auto simp: terminate_connection_def release_interfaces_def destroy_pending_def wakeup_def Let_def svc_simps
      split: option.split)

lemma locks_at_load [svc_simps]: "locks_at n (activate_load why w s) = locks_at n s"
proof -
  have "locks_at n (acquire_interfaces w t) = locks_at n t" for t
    by (auto simp: acquire_interfaces_def svc_simps split: prod.split bool.split dest!: instantiate_effects)
       (simp_all add: locks_at_def)
  then show ?thesis by (simp add: activate_load_def svc_simps)
qed

lemma locks_at_activate:
  assumes "locks_at n s" "sv_lock s \<le> n" "sv_qlock s = 0"
  shows "locks_at n (snd (activate why w s))"
  using assms
  by (cases "sv_state s")
     (simp_all add: activate_by_state activate_from_rest Let_def svc_simps part_simps activate_failed_def
       activate_done_def plugin_initialize_def)

lemma locks_at_deactivate:
  assumes "locks_at n s" "sv_lock s = 0" "sv_qlock s = 0"
  shows "locks_at n (snd (deactivate why w s))"
proof -
  have 1: "locks_at n (deactivate_wakeup w t)" if "locks_at n t" for t
    using that locks_at_parts(4) [of n w t]
    by (cases "wakeup w t") (simp add: deactivate_wakeup_def svc_simps)
  have 2: "locks_at n (deactivate_teardown c why w t)"
    if "locks_at n t" "sv_lock t = 1" "sv_qlock t = 0" for c t
    using that by (simp add: deactivate_teardown_def svc_simps part_simps le_diff_conv)
  have "locks_at n (deactivate_now c why w t)" if "locks_at n t" "sv_lock t = 1" "sv_qlock t = 0" for c t
    using that 1 by (auto simp: deactivate_now_def Let_def svc_simps part_simps 2 when_def le_diff_conv)
  then show ?thesis using assms by (simp add: deactivate_def Let_def svc_simps)
qed

lemma step_balanced: "balanced s (shell_step w op s)"
proof (cases op)
  case Op_Hibernate
  then show ?thesis using hibernate_balanced [of "\<lambda>_ t. t"] by (simp add: balanced_def)
qed (simp_all add: activate_balanced deactivate_balanced resume_balanced suspend_balanced unavailable_balanced
       set_configline_balanced service_evaluate_balanced)

lemma locks_at_resume:
  assumes "locks_at (Suc n) s" "sv_lock s \<le> n" "sv_qlock s = 0"
  shows "locks_at (Suc n) (snd (resume why w s))"
  using assms locks_at_activate [of "Suc n" "lock s" why w] activate_balanced [of "lock s" why w]
  by (auto simp: balanced_def resume_def Let_def svc_simps split: prod.splits if_splits)

lemma locks_at_evaluate:
  assumes "locks_at n s" "sv_lock s = 0" "sv_qlock s = 0"
  shows "locks_at n (service_evaluate w s)"
proof -
  have 1: "locks_at n (evaluate_precondition w c t)" if "locks_at n t" "sv_lock t = 1" "sv_qlock t = 0" for c t
    using that
    by (auto simp: evaluate_precondition_def Let_def svc_simps split: prod.split intro!: locks_at_activate)
  have 2: "locks_at n (evaluate_termination w c t)" if "locks_at n t" "sv_lock t = 1" "sv_qlock t = 0" for c t
    using that
    by (auto simp: evaluate_termination_def Let_def svc_simps split: prod.split intro!: locks_at_deactivate)
  show ?thesis
    using assms 1 2 evaluate_parts_balanced(1) [of "lock s" w "sv_state s"]
    by (simp add: service_evaluate_def Let_def svc_simps balanced_def)
qed

lemma locks_at_step:
  assumes "locks_at n s" "sv_lock s = 0" "sv_qlock s = 0" "\<And>why. op \<noteq> Op_Resume why \<or> 0 < n"
  shows "locks_at n (shell_step w op s)"
proof (cases op)
  case (Op_Resume why)
  then show ?thesis using assms(1-3) assms(4) [of why] locks_at_resume [of "n - 1" s why w] by simp
qed (use assms(1-3) in \<open>simp_all add: locks_at_activate locks_at_deactivate locks_at_evaluate suspend_def
       unavailable_def set_configline_def hibernate_def Let_def svc_simps split: prod.split\<close>)

text \<open>
  C20: no operation of a run leaves a mutex locked. The plugin's Initialize and Deinitialize are
  always called with the query lock held and, as long as nobody calls Resume, without the admin
  lock; a Resume may add one level of the admin lock to them. Its state control is asked to Register
  and to Request with the admin lock held and without the query lock, to Unregister and to Release
  without either.
\<close>

theorem operations_release_locks:
  assumes "reachable cfg pre ter s"
  shows "sv_lock s = 0 \<and> sv_qlock s = 0 \<and> locks_at 1 s
    \<and> (\<forall>w op. (\<forall>why. op \<noteq> Op_Resume why) \<and> locks_at 0 s \<longrightarrow> locks_at 0 (shell_step w op s))"
proof -
  have "sv_lock s = 0 \<and> sv_qlock s = 0 \<and> locks_at 1 s"
    using assms
  proof induction
    case start
    then show ?case by (simp add: new_service_def locks_at_def)
  next
    case (step s w op)
    then show ?case using step_balanced [of s w op] by (simp add: locks_at_step balanced_def)
  qed
  then show ?thesis by (simp add: locks_at_step)
qed

theorem operations_release_locks_witness:
  "sv_lock active_example = 0 \<and> sv_qlock active_example = 0 \<and> locks_at 1 active_example"
  using operations_release_locks [OF reachable_active_example] by simp

text \<open>
  Resume on a deactivated shell runs the whole activation with the admin lock still held: the
  plugin is initialised under the lock that Activate gives up for that call.
\<close>

theorem resume_initializes_under_lock:
  assumes "sv_state s = DEACTIVATED" "fst (activate why w (lock s)) \<in> {ERROR_NONE, ERROR_GENERAL}"
  shows "(Plugin_Initialize, Suc (sv_lock s), Suc (sv_qlock s)) \<in> set (sv_calls (snd (resume why w s)))"
proof -
  have grow: "set (sv_calls t) \<subseteq> set (sv_calls (activate_done why w t))"
             "set (sv_calls t) \<subseteq> set (sv_calls (activate_failed t))" for t
    by (auto simp: activate_done_def activate_failed_def release_interfaces_def terminate_connection_def
        Let_def svc_simps when_def split: option.split)
  have "(Plugin_Initialize, Suc (sv_lock s), Suc (sv_qlock s)) \<in> set (sv_calls (plugin_initialize w
          (steps [when (\<lambda>s. sv_lastId s \<noteq> 0) destroy_pending, call Admin_Initialize, set_state ACTIVATION, unlock]
            (activate_load why w (lock (lock s))))))"
    by (simp add: plugin_initialize_def svc_simps part_simps)
  with grow have "(Plugin_Initialize, Suc (sv_lock s), Suc (sv_qlock s)) \<in> set (sv_calls (snd (activate why w (lock s))))"
    using assms by (auto simp: activate_from_rest Let_def svc_simps subset_iff split: if_splits)
  moreover have "set (sv_calls (snd (activate why w (lock s)))) \<subseteq> set (sv_calls (snd (resume why w s)))"
    using assms by (auto simp: resume_def Let_def svc_simps split: prod.splits if_splits)
  ultimately show ?thesis by blast
qed

theorem resume_initializes_under_lock_witness:
  "(Plugin_Initialize, 1, 1) \<in>
     set (sv_calls (snd (resume STARTUP (example_outside 0) (new_service example_config [] []))))"
proof -
  have "fst (activate STARTUP (example_outside 0) (lock (new_service example_config [] []))) = ERROR_NONE"
    by (simp add: activate_from_rest new_service_def example_config_def example_outside_def lock_def
        loads_def is_met_def activate_load_def acquire_interfaces_def instantiate_plugin_def
        eval_conditions_def evaluate_def mk_condition_def svc_simps part_simps Let_def)
  then show ?thesis
    using resume_initializes_under_lock [of "new_service example_config [] []" STARTUP "example_outside 0"]
    by (simp add: new_service_def example_config_def)
qed

subsection \<open>What the operations promise\<close>

text \<open>
  The abstract view of a shell is its state alone. \<open>activate_outcome\<close> and \<open>deactivate_outcome\<close> are
  the transition tables, with the result the caller gets.
\<close>

definition preconditions_met :: "outside \<Rightarrow> service \<Rightarrow> bool" where
  "preconditions_met w s \<longleftrightarrow>
     is_met (if sv_handler s then sv_precondition s else snd (evaluate (sv_precondition s) (out_subsystems w)))"

definition wakeup_result :: "outside \<Rightarrow> plugin_config \<Rightarrow> error_code" where
  "wakeup_result w cfg =
     (if \<not> out_monitorable w then ERROR_BAD_REQUEST
      else if cf_hibernate_support cfg then out_wakeup w else ERROR_NONE)"

definition activate_outcome :: "outside \<Rightarrow> service \<Rightarrow> error_code \<times> shell_state" where
  "activate_outcome w s =
     (case sv_state s of
        ACTIVATION \<Rightarrow> (ERROR_INPROGRESS, ACTIVATION)
      | ACTIVATED \<Rightarrow> (ERROR_NONE, ACTIVATED)
      | HIBERNATED \<Rightarrow>
          (let r = wakeup_result w (sv_config s) in (r, if r = ERROR_NONE then ACTIVATED else HIBERNATED))
      | UNAVAILABLE \<Rightarrow> (ERROR_ILLEGAL_STATE, UNAVAILABLE)
      | DEACTIVATION \<Rightarrow> (ERROR_ILLEGAL_STATE, DEACTIVATION)
      | DESTROYED \<Rightarrow> (ERROR_ILLEGAL_STATE, DESTROYED)
      | _ \<Rightarrow>
          (if \<not> sv_handler s \<and> \<not> loads w (sv_config s) then (ERROR_UNAVAILABLE, DEACTIVATED)
           else if \<not> preconditions_met w s then (ERROR_PENDING_CONDITIONS, PRECONDITION)
           else if out_initialize w \<noteq> [] then (ERROR_GENERAL, DEACTIVATED)
           else (ERROR_NONE, ACTIVATED)))"

definition deactivate_outcome :: "reason \<Rightarrow> service \<Rightarrow> error_code \<times> shell_state" where
  "deactivate_outcome why s =
     (case sv_state s of
        DEACTIVATION \<Rightarrow> (ERROR_INPROGRESS, DEACTIVATION)
      | DESTROYED \<Rightarrow> (ERROR_ILLEGAL_STATE, DESTROYED)
      | DEACTIVATED \<Rightarrow> (ERROR_NONE, DEACTIVATED)
      | ACTIVATION \<Rightarrow>
          (if why = INITIALIZATION_FAILED then (ERROR_NONE, DEACTIVATED) else (ERROR_ILLEGAL_STATE, ACTIVATION))
      | _ \<Rightarrow> (ERROR_NONE, if why = CONDITIONS then PRECONDITION else DEACTIVATED))"

lemma load_precondition_met:
  assumes "sv_handler s \<or> loads w (sv_config s)"
  shows "is_met (sv_precondition (activate_load why w (lock s))) = preconditions_met w s"
  using assms acquire_conditions [of w "qlock ((lock s)\<lparr>sv_reason := why\<rparr>)"]
  by (auto simp: preconditions_met_def activate_load_def svc_simps when_def)

lemma activate_outcome_eq:
  "(fst (activate why w s), sv_state (snd (activate why w s))) = activate_outcome w s"
proof -
  have rest: "(fst (activate why w s), sv_state (snd (activate why w s))) =
      (if \<not> sv_handler s \<and> \<not> loads w (sv_config s) then (ERROR_UNAVAILABLE, DEACTIVATED)
       else if \<not> preconditions_met w s then (ERROR_PENDING_CONDITIONS, PRECONDITION)
       else if out_initialize w \<noteq> [] then (ERROR_GENERAL, DEACTIVATED)
       else (ERROR_NONE, ACTIVATED))" if "sv_state s \<in> {DEACTIVATED, PRECONDITION}"
    unfolding activate_from_rest [OF that]
    using load_precondition_met [of s w why] by (simp add: Let_def svc_simps part_simps)
  have wake: "(fst (wakeup w t), sv_state (snd (wakeup w t))) =
      (let r = wakeup_result w (sv_config t) in (r, if r = ERROR_NONE then ACTIVATED else HIBERNATED))"
    if "sv_state t = HIBERNATED" for t
    using that by (simp add: wakeup_def wakeup_result_def Let_def svc_simps)
  show ?thesis
    using rest wake [of "lock s"]
    by (cases "sv_state s") (simp_all add: activate_outcome_def activate_by_state svc_simps)
qed

text \<open>
  C1: Activate implements its transition table: in every state the result and the next state are
  those of \<open>activate_outcome\<close>, from the plugin's conditions, its library and what its Initialize
  returns.
\<close>

theorem activate_refines:
  "(fst (activate why w s), sv_state (snd (activate why w s))) = activate_outcome w s"
  by (rule activate_outcome_eq)

text \<open>
  C21: Deactivate implements its transition table, for every reason: only the reason decides whether
  the shell goes back to waiting for its preconditions or becomes deactivated.
\<close>

theorem deactivate_refines:
  "(fst (deactivate why w s), sv_state (snd (deactivate why w s))) = deactivate_outcome why s"
  by (cases "sv_state s") (simp_all add: deactivate_outcome_def deactivate_def Let_def svc_simps part_simps)

text \<open>
  Hibernate returns ERROR_NONE only with the shell hibernated, whatever other threads do to
  the shell while the lock is given up; and when nobody interferes, a failed hibernation of an
  activated plugin leaves it activated.
\<close>

theorem hibernate_result:
  "(fst (hibernate other w s) = ERROR_NONE \<longrightarrow> sv_state (snd (hibernate other w s)) = HIBERNATED)
   \<and> (sv_state s = ACTIVATED \<and> fst (hibernate (\<lambda>_ t. t) w s) \<noteq> ERROR_NONE \<longrightarrow>
        sv_state (snd (hibernate (\<lambda>_ t. t) w s)) = ACTIVATED)"
proof (rule conjI)
  show "fst (hibernate other w s) = ERROR_NONE \<longrightarrow> sv_state (snd (hibernate other w s)) = HIBERNATED"
    by (auto simp: hibernate_def Let_def svc_simps split: prod.splits if_splits)
qed (simp add: state_hibernate)

theorem hibernate_result_witness:
  "sv_state (snd (hibernate (\<lambda>_ t. t) (example_outside 0) active_example)) = HIBERNATED"
proof -
  have "sv_connection active_example = Some 7"
    by (simp add: active_example_def activate_from_rest new_service_def example_config_def example_outside_def
      loads_def is_met_def activate_load_def acquire_interfaces_def instantiate_plugin_def activate_done_def
      plugin_initialize_def eval_conditions_def evaluate_def mk_condition_def svc_simps part_simps Let_def)
  then have "fst (hibernate (\<lambda>_ t. t) (example_outside 0) active_example) = ERROR_NONE"
    using activate_example(2)
    by (simp add: hibernate_def Let_def svc_simps active_example_config example_config_def example_outside_def)
  then show ?thesis using hibernate_result [of "\<lambda>_ t. t" "example_outside 0" active_example] by simp
qed

text \<open>
  The table of the administrator's reevaluation, for a plugin with preconditions \<open>ss\<close> and
  terminations \<open>ts\<close>.
\<close>

definition evaluate_outcome :: "outside \<Rightarrow> subsystem list \<Rightarrow> subsystem list \<Rightarrow> service \<Rightarrow> shell_state" where
  "evaluate_outcome w ss ts s =
     (if sv_state s = PRECONDITION then
        (if (\<forall>x\<in>set ss. bit (out_subsystems w) (subsystem_nr x)) \<and> \<not> is_met (sv_precondition s)
         then (if \<not> sv_handler s \<and> \<not> loads w (sv_config s) \<or> out_initialize w \<noteq> [] then DEACTIVATED else ACTIVATED)
         else PRECONDITION)
      else if sv_state s = ACTIVATED then
        (if is_met (sv_termination s) \<and> ts \<noteq> [] \<and> (\<forall>x\<in>set ts. \<not> bit (out_subsystems w) (subsystem_nr x))
         then PRECONDITION else ACTIVATED)
      else sv_state s)"

lemma activate_from_precondition:
  assumes "sv_state s = PRECONDITION" "preconditions_met w s"
  shows "sv_state (snd (activate why w s)) =
    (if \<not> sv_handler s \<and> \<not> loads w (sv_config s) \<or> out_initialize w \<noteq> [] then DEACTIVATED else ACTIVATED)"
proof -
  have "sv_state (snd (activate why w s)) = snd (activate_outcome w s)"
    using activate_outcome_eq [of why w s] by (metis snd_conv)
  then show ?thesis using assms by (simp add: activate_outcome_def)
qed

lemma evaluate_precondition_state:
  assumes r: "requires ss (sv_precondition s)" and s: "sv_state s = c"
  shows "sv_state (evaluate_precondition w c s) =
    (if c = PRECONDITION \<and> (\<forall>x\<in>set ss. bit (out_subsystems w) (subsystem_nr x)) \<and> \<not> is_met (sv_precondition s)
     then (if \<not> sv_handler s \<and> \<not> loads w (sv_config s) \<or> out_initialize w \<noteq> [] then DEACTIVATED else ACTIVATED)
     else c)"
proof -
  obtain ch d where e: "evaluate (sv_precondition s) (out_subsystems w) = (ch, d)" by (cases rule: prod.exhaust)
  let ?t = "unlock (s\<lparr>sv_precondition := d\<rparr>)"
  have m: "is_met d \<longleftrightarrow> (\<forall>x\<in>set ss. bit (out_subsystems w) (subsystem_nr x))"
    and ch: "ch \<longleftrightarrow> is_met d \<noteq> is_met (sv_precondition s)" and rd: "requires ss d"
    using evaluate_requires [OF r, of "out_subsystems w"] e
      evaluate_changed [of "sv_precondition s" "out_subsystems w"] by simp_all
  have met: "preconditions_met w ?t \<longleftrightarrow> is_met d"
    using evaluate_requires(2) [OF rd, of "out_subsystems w"] m by (simp add: preconditions_met_def svc_simps)
  have "evaluate_precondition w c s =
      (if ch \<and> c = PRECONDITION \<and> is_met d then lock (snd (activate (sv_reason s) w ?t))
       else s\<lparr>sv_precondition := d\<rparr>)"
    by (simp add: evaluate_precondition_def e Let_def)
  then show ?thesis
    using activate_from_precondition [of ?t w "sv_reason s"] met s ch
    by (auto simp: svc_simps simp flip: m)
qed

lemma evaluate_precondition_other:
  assumes "c \<noteq> PRECONDITION"
  shows "evaluate_precondition w c s =
    s\<lparr>sv_precondition := snd (evaluate (sv_precondition s) (out_subsystems w))\<rparr>"
  using assms by (simp add: evaluate_precondition_def split: prod.split)

lemma evaluate_termination_state:
  assumes r: "watches ts (sv_termination s)" and s: "sv_state s = ACTIVATED"
  shows "sv_state (evaluate_termination w ACTIVATED s) =
    (if is_met (sv_termination s) \<and> ts \<noteq> [] \<and> (\<forall>x\<in>set ts. \<not> bit (out_subsystems w) (subsystem_nr x))
     then PRECONDITION else ACTIVATED)"
proof -
  obtain ch d where e: "evaluate (sv_termination s) (out_subsystems w) = (ch, d)" by (cases rule: prod.exhaust)
  let ?t = "unlock (s\<lparr>sv_termination := d\<rparr>)"
  have m: "is_met d \<longleftrightarrow> ts = [] \<or> (\<exists>x\<in>set ts. bit (out_subsystems w) (subsystem_nr x))"
    and ch: "ch \<longleftrightarrow> is_met d \<noteq> is_met (sv_termination s)"
    using evaluate_watches [OF r, of "out_subsystems w"] e
      evaluate_changed [of "sv_termination s" "out_subsystems w"] by simp_all
  have "sv_state (snd (deactivate CONDITIONS w ?t)) = PRECONDITION"
    using s by (simp add: deactivate_def Let_def svc_simps part_simps)
  then show ?thesis
    using s m ch by (auto simp: evaluate_termination_def e Let_def svc_simps)
qed

lemma evaluate_termination_other:
  "c \<noteq> ACTIVATED \<Longrightarrow> sv_state (evaluate_termination w c s) = sv_state s"
  by (simp add: evaluate_termination_def split: prod.split)

text \<open>
  Preconditions that become met activate a waiting plugin, and terminations that are lost make
  an active one wait: for every plugin with preconditions \<open>ss\<close> and terminations \<open>ts\<close> and every run of
  it, the administrator's reevaluation with the subsystems of \<open>w\<close> does exactly that. The documentation
  describes it otherwise on two points: that one lost termination is enough, and that a plugin whose
  preconditions are met does not wait.
\<close>

theorem evaluate_refines:
  assumes "reachable cfg (map pos_subsystem ss) (map not_subsystem ts) s"
  shows "sv_state (service_evaluate w s) = evaluate_outcome w ss ts s"
proof -
  have c: "requires ss (sv_precondition (lock s))" "watches ts (sv_termination s)"
    using conditioned.I_reachable [OF assms] by (simp_all add: conditions_inv_def svc_simps)
  show ?thesis
  proof (cases "sv_state s = PRECONDITION")
    case True
    then show ?thesis
      using evaluate_precondition_state [OF c(1), of PRECONDITION w]
      by (simp add: service_evaluate_def evaluate_outcome_def evaluate_termination_other svc_simps Let_def)
  next
    case False
    then show ?thesis
      using c(2)
      by (cases "sv_state s = ACTIVATED")
         (simp_all add: service_evaluate_def evaluate_outcome_def evaluate_termination_other svc_simps Let_def
           evaluate_precondition_other evaluate_termination_state)
  qed
qed

definition waiting_example :: service where
  "waiting_example = snd (activate STARTUP (example_outside 0)
     (new_service example_config (map pos_subsystem [NETWORK]) (map not_subsystem [NETWORK])))"

lemma reachable_waiting_example:
  "reachable example_config (map pos_subsystem [NETWORK]) (map not_subsystem [NETWORK]) waiting_example"
  using reachable.step [OF reachable.start, of example_config _ _ "example_outside 0" "Op_Activate STARTUP"]
  by (simp add: waiting_example_def)

lemma waiting_example:
  "sv_state waiting_example = PRECONDITION" "sv_handler waiting_example"
  "\<not> is_met (sv_precondition waiting_example)"
  by (simp_all add: waiting_example_def activate_from_rest new_service_def example_config_def example_outside_def
      loads_def is_met_def activate_load_def acquire_interfaces_def instantiate_plugin_def add_bit_def
      pos_subsystem_def NEGATIVE_START_def compliant_def
      eval_conditions_def evaluate_def mk_condition_def svc_simps part_simps Let_def)

theorem evaluate_refines_witness:
  "sv_state (service_evaluate (example_outside 4) waiting_example) = ACTIVATED"
  unfolding evaluate_refines [OF reachable_waiting_example]
  by (simp add: evaluate_outcome_def waiting_example example_outside_def bit_numeral_rec)

lemma evaluate_precondition_met:
  assumes "sv_state s = PRECONDITION" "requires ss (sv_precondition s)" "is_met (sv_precondition s)"
    and "\<forall>x\<in>set ss. bit (out_subsystems w) (subsystem_nr x)"
  shows "sv_state (service_evaluate w s) = PRECONDITION \<and>
    sv_precondition (service_evaluate w s) = sv_precondition s"
proof -
  have e: "evaluate (sv_precondition s) (out_subsystems w) = (False, sv_precondition s)"
    using assms evaluate_requires(2) [OF assms(2), of "out_subsystems w"]
      evaluate_changed [of "sv_precondition s" "out_subsystems w"]
    by (auto simp: evaluate_def split: if_splits)
  then show ?thesis
    using assms(1)
    by (simp add: service_evaluate_def evaluate_precondition_def evaluate_termination_def Let_def svc_simps
        split: prod.split)
qed

text \<open>
  A plugin that was taken down by its terminations while its preconditions are still met is not
  activated again by any later reevaluation as long as the preconditions stay met: the activation
  of a waiting shell is triggered only by a change of the precondition.
\<close>

theorem waiting_with_met_precondition_stays:
  assumes "reachable cfg (map pos_subsystem ss) (map not_subsystem ts) s"
    and "sv_state s = PRECONDITION" "is_met (sv_precondition s)"
    and "\<forall>w\<in>set ws. \<forall>x\<in>set ss. bit (out_subsystems w) (subsystem_nr x)"
  shows "sv_state (fold service_evaluate ws s) = PRECONDITION"
proof -
  have "requires ss (sv_precondition s)"
    using conditioned.I_reachable [OF assms(1)] by (simp add: conditions_inv_def)
  with assms(2-4) show ?thesis
  proof (induction ws arbitrary: s)
    case (Cons w ws)
    then show ?case using evaluate_precondition_met [of s ss w] by simp
  qed simp
qed

definition dropped_example :: service where
  "dropped_example =
     service_evaluate (example_outside 4)
       (snd (activate STARTUP (example_outside 12)
          (new_service example_config (map pos_subsystem [NETWORK]) (map not_subsystem [IDENTIFIER]))))"

lemma reachable_dropped_example:
  "reachable example_config (map pos_subsystem [NETWORK]) (map not_subsystem [IDENTIFIER]) dropped_example"
  using reachable.step [OF reachable.step [OF reachable.start], of example_config _ _ "example_outside 4" Op_Evaluate
      "example_outside 12" "Op_Activate STARTUP"]
  by (simp add: dropped_example_def)

lemma dropped_example: "sv_state dropped_example = PRECONDITION" "is_met (sv_precondition dropped_example)"
proof -
  obtain a where a: "a = snd (activate STARTUP (example_outside 12)
      (new_service example_config (map pos_subsystem [NETWORK]) (map not_subsystem [IDENTIFIER])))" by blast
  have c: "sv_config a = example_config"
    unfolding a by (subst state_activate_from_rest(3)) (simp_all add: new_service_def example_config_def)
  have f: "sv_state a = ACTIVATED" "sv_lock a = 0" "sv_qlock a = 0"
    "sv_precondition a = \<lparr>cd_events = 4, cd_mask = 4, cd_state = STATE_OK\<rparr>"
    "sv_termination a = \<lparr>cd_events = 0, cd_mask = 8, cd_state = STATE_OR OR STATE_OK\<rparr>"
    by (simp_all add: a activate_from_rest new_service_def example_config_def example_outside_def
      loads_def is_met_def activate_load_def acquire_interfaces_def instantiate_plugin_def add_bit_def
      pos_subsystem_def not_subsystem_def NEGATIVE_START_def compliant_def activate_done_def plugin_initialize_def
      eval_conditions_def evaluate_def mk_condition_def svc_simps part_simps Let_def)
  have s: "dropped_example = service_evaluate (example_outside 4) a" by (simp add: dropped_example_def a)
  show "sv_state dropped_example = PRECONDITION" "is_met (sv_precondition dropped_example)"
    unfolding s service_evaluate_def evaluate_precondition_def evaluate_termination_def
    using f c
    by (simp_all add: svc_simps evaluate_def compliant_def is_met_def example_outside_def example_config_def Let_def
        deactivate_def deactivate_now_def deactivate_teardown_def part_simps eval_conditions_def
        remaining_subsystems_def when_def subsystem_mask_Nil)
qed

theorem waiting_with_met_precondition_stays_witness:
  "sv_state (fold service_evaluate [example_outside 12, example_outside 4] dropped_example) = PRECONDITION"
  by (rule waiting_with_met_precondition_stays [OF reachable_dropped_example dropped_example])
     (simp add: example_outside_def bit_numeral_rec)

end
