(* ===== verification/Ring.thy ===== *)
theory Ring
  imports Prelude
begin

text \<open>
  A block of memory used as a ring: reading \<open>n\<close> cells from an index on, with wrap-around, and the
  two copies that \<open>CyclicBuffer\<close> makes into and out of its buffer. The lemmas relate the copies,
  with their cases, to reading the ring.
\<close>

definition ring_get :: "'a list \<Rightarrow> nat \<Rightarrow> nat \<Rightarrow> 'a list" where
  "ring_get r i n = map (\<lambda>j. r ! ((i + j) mod length r)) [0..<n]"

text \<open>The copy of \<open>CyclicBuffer::Write\<close>: in one pass, or in two past the end of the buffer.\<close>

definition ring_put :: "'a list \<Rightarrow> nat \<Rightarrow> 'a list \<Rightarrow> 'a list" where
  "ring_put r writeStart xs =
     (let writeEnd = (writeStart + length xs) mod length r in
      if writeStart \<le> writeEnd then blit r writeStart xs
      else
        let firstLength = length r - writeStart
        in blit (blit r writeStart (take firstLength xs)) 0 (drop firstLength xs))"

text \<open>
  The copy of \<open>CyclicBuffer::Read\<close>: \<open>n\<close> bytes from \<open>offset\<close>, where an entry of \<open>result\<close> bytes
  starts; the offset itself may lie past the end of the buffer.
\<close>

definition ring_copy :: "'a list \<Rightarrow> nat \<Rightarrow> nat \<Rightarrow> nat \<Rightarrow> 'a list" where
  "ring_copy r offset result n =
     (if offset + result < length r then take n (drop offset r)
      else if length r < offset then take n (drop (offset - length r) r)
      else
        let part1 = length r - offset
        in take (min part1 n) (drop offset r) @ (if part1 < n then take (n - part1) r else []))"

lemma length_ring_get [simp, mem_simps]: "length (ring_get r i n) = n"
  by (simp add: ring_get_def)

lemma nth_ring_get [mem_simps]: "j < n \<Longrightarrow> ring_get r i n ! j = r ! ((i + j) mod length r)"
  by (simp add: ring_get_def)

lemma ring_get_0 [simp]: "ring_get r i 0 = []"
  by (simp add: ring_get_def)

lemma ring_get_add: "ring_get r i (m + n) = ring_get r i m @ ring_get r (i + m) n"
  by (rule nth_equalityI) (auto simp: nth_append mem_simps)

lemma ring_get_mod [simp]: "ring_get r (i mod length r) n = ring_get r i n"
  by (simp add: ring_get_def mod_simps)

lemma take_ring_get: "m \<le> n \<Longrightarrow> take m (ring_get r i n) = ring_get r i m"
  by (rule nth_equalityI) (auto simp: mem_simps)

lemma drop_ring_get: "m \<le> n \<Longrightarrow> drop m (ring_get r i n) = ring_get r (i + m) (n - m)"
  by (rule nth_equalityI) (auto simp: mem_simps add.assoc)

lemma length_ring_put [simp, mem_simps]:
  assumes "i < length r" "length xs < length r"
  shows "length (ring_put r i xs) = length r"
proof (cases "i + length xs < length r")
  case True
  then show ?thesis by (simp add: ring_put_def length_blit)
next
  case False
  then have "(i + length xs) mod length r = i + length xs - length r"
    using assms by (simp add: le_mod_geq)
  then show ?thesis using assms False by (simp add: ring_put_def length_blit Let_def)
qed

lemma nth_ring_put:
  assumes "i < length r" "length xs < length r" "k < length r"
  shows "ring_put r i xs ! k =
    (if i \<le> k \<and> k < i + length xs then xs ! (k - i)
     else if k + length r < i + length xs then xs ! (k + length r - i)
     else r ! k)"
proof (cases "i + length xs < length r")
  case True
  then show ?thesis using assms by (auto simp: ring_put_def nth_blit)
next
  case False
  then have "(i + length xs) mod length r = i + length xs - length r"
    using assms by (simp add: le_mod_geq)
  then show ?thesis using assms False
    by (auto simp: ring_put_def nth_blit length_blit add.commute Let_def)
qed

lemma mod_once:
  assumes "a < (n :: nat)" "b < n"
  shows "(a + b) mod n = (if a + b < n then a + b else a + b - n)"
  using assms by (simp add: le_mod_geq)

lemma nth_ring_put_rel:
  assumes "i < length r" "length xs < length r" "j < length r"
  shows "ring_put r i xs ! ((i + j) mod length r) =
    (if j < length xs then xs ! j else r ! ((i + j) mod length r))"
proof -
  have "(i + j) mod length r < length r" using assms(1) by (intro mod_less_divisor) linarith
  then show ?thesis
    using assms by (auto simp: nth_ring_put mod_once)
qed

lemma ring_get_put_same:
  assumes "i < length r" "length xs < length r"
  shows "ring_get (ring_put r i xs) i (length xs) = xs"
  by (rule nth_equalityI) (use assms in \<open>auto simp: mem_simps nth_ring_put_rel\<close>)

lemma ring_get_put_other:
  assumes "i = (s + n) mod length r" "n + length xs \<le> length r" "length xs < length r" "0 < length r"
  shows "ring_get (ring_put r i xs) s n = ring_get r s n"
proof (rule nth_equalityI)
  have i: "i < length r" using assms by simp
  fix j assume "j < length (ring_get (ring_put r i xs) s n)"
  then have j: "j < n" by simp
  have *: "(i + (length r - n + j)) mod length r = (s + j) mod length r"
  proof -
    have "(i + (length r - n + j)) mod length r = (s + n + (length r - n + j)) mod length r"
      using assms(1) by (simp add: mod_simps)
    also have "s + n + (length r - n + j) = (s + j) + length r" using assms by simp
    finally show ?thesis by simp
  qed
  have "ring_put r i xs ! ((i + (length r - n + j)) mod length r) = r ! ((i + (length r - n + j)) mod length r)"
    using assms j i by (subst nth_ring_put_rel) auto
  then have "ring_put r i xs ! ((s + j) mod length r) = r ! ((s + j) mod length r)"
    unfolding * .
  then show "ring_get (ring_put r i xs) s n ! j = ring_get r s n ! j"
    using j i assms(3) by (simp add: mem_simps)
qed simp

lemma ring_copy_get:
  assumes "n \<le> result" "result \<le> length r" "offset < 2 * length r" "offset \<le> length r \<or> offset - length r + result \<le> length r"
  shows "ring_copy r offset result n = ring_get r offset n"
proof (rule nth_equalityI)
  show len: "length (ring_copy r offset result n) = length (ring_get r offset n)"
    using assms by (auto simp: ring_copy_def Let_def)
  fix j assume "j < length (ring_copy r offset result n)"
  then have j: "j < n" using len by simp
  have r: "length r < offset \<Longrightarrow> (offset + j) mod length r = offset - length r + j"
    using assms j by (simp add: le_mod_geq)
  have r': "\<not> length r < offset \<Longrightarrow> \<not> offset + j < length r \<Longrightarrow> (offset + j) mod length r = offset + j - length r"
    using assms j by (simp add: le_mod_geq)
  have r'': "\<not> length r < offset \<Longrightarrow> \<not> offset + j < length r \<Longrightarrow> j - (length r - offset) = offset + j - length r"
    using assms j by simp
  show "ring_copy r offset result n ! j = ring_get r offset n ! j"
    using assms j r r' r'' by (auto simp: ring_copy_def mem_simps nth_append min_def Let_def)
qed

end
