(* ===== verification/Cyclic_Buffer.thy ===== *)
theory Cyclic_Buffer
  imports Ring Errors
begin

text \<open>
  \<open>Core::CyclicBuffer\<close> (\<^verbatim>\<open>Source/core/CyclicBuffer.h\<close> and \<^verbatim>\<open>CyclicBuffer.cpp\<close>): a
  ring of bytes in a shared file, with the index of the head, and a tail that holds an index and, in
  its upper bits, a count of rounds.

  The record \<open>cbuf\<close> is the shared \<open>control\<close> block with the bytes behind it. Operations are those of
  one process with no other party in between, so a compare-and-exchange succeeds exactly when the
  value it compares is still there. The assertions are compiled out. The two virtual methods
  \<open>GetOverwriteSize\<close> and \<open>GetReadSize\<close> are arguments of the operations that call them; a loop that
  would go on for ever is the result \<open>None\<close>.
\<close>

subsection \<open>The control block\<close>

record cbuf =
  cb_ring :: "u8 list"
  cb_head :: nat
  cb_tail :: nat
  cb_mask :: nat
  cb_modulo :: nat
  cb_size :: nat
  cb_state :: u16
  cb_lockPID :: nat
  cb_reserved :: nat
  cb_reservedWritten :: nat
  cb_reservedPID :: nat

abbreviation LOCKED :: u16 where "LOCKED \<equiv> 1"
abbreviation OVERWRITE :: u16 where "OVERWRITE \<equiv> 2"
abbreviation OVERWRITTEN :: u16 where "OVERWRITTEN \<equiv> 4"

record cursor =
  cu_tail :: nat
  cu_size :: nat
  cu_offset :: nat

type_synonym size_policy = "cbuf \<Rightarrow> cursor \<Rightarrow> (nat \<times> cursor) option"

text \<open>The mask over the index and the modulus of the round counter, from the size.\<close>

function mask_loop :: "nat \<Rightarrow> nat \<Rightarrow> nat \<Rightarrow> nat \<times> nat" where
  "mask_loop sz indexMask roundModulo =
     (if indexMask < sz then mask_loop sz (indexMask * 2 + 1) (roundModulo div 2) else (indexMask, roundModulo))"
  by pat_completeness auto
termination by (relation "measure (\<lambda>(sz, indexMask, roundModulo). sz - indexMask)") auto

declare mask_loop.simps [simp del]

definition cb_init :: "u8 list \<Rightarrow> bool \<Rightarrow> cbuf" where
  "cb_init bytes overwrite =
     (let (indexMask, roundModulo) = mask_loop (length bytes) 1 (2 ^ 31) in
      \<lparr>cb_ring = bytes, cb_head = 0, cb_tail = 0, cb_mask = indexMask, cb_modulo = roundModulo,
       cb_size = length bytes, cb_state = (if overwrite then OVERWRITE else 0), cb_lockPID = 0,
       cb_reserved = 0, cb_reservedWritten = 0, cb_reservedPID = 0\<rparr>)"

text \<open>
  Where a buffer lies in a file it shares with others: the offset, aligned to \<open>align\<close>, and the size
  of the region, of which the first \<open>control\<close> bytes hold the control block.
\<close>

definition round_up :: "nat \<Rightarrow> nat \<Rightarrow> nat" where
  "round_up n multiple = add32 n (multiple - 1) div multiple * multiple"

definition cb_region :: "nat \<Rightarrow> nat \<Rightarrow> nat \<Rightarrow> nat \<Rightarrow> (nat \<times> nat) option" where
  "cb_region align fileSize offset bufferSize =
     (let actual_offset = round_up offset align;
          actual_bufferSize =
            (if bufferSize = 0 then (if actual_offset \<le> fileSize then fileSize - actual_offset else 0)
             else if bufferSize \<le> fileSize then bufferSize else 0)
      in if add32 actual_offset actual_bufferSize \<le> fileSize then Some (actual_offset, actual_bufferSize) else None)"

definition cb_index :: "cbuf \<Rightarrow> nat" where
  "cb_index b = cb_tail b AND cb_mask b"

definition used_between :: "cbuf \<Rightarrow> nat \<Rightarrow> nat \<Rightarrow> nat" where
  "used_between b head tail = (if tail \<le> head then head - tail else sub32 (cb_size b) (tail - head))"

definition free_between :: "cbuf \<Rightarrow> nat \<Rightarrow> nat \<Rightarrow> nat" where
  "free_between b head tail = (if tail \<le> head then sub32 (cb_size b) (head - tail) else tail - head)"

definition cb_used :: "cbuf \<Rightarrow> nat" where
  "cb_used b = used_between b (cb_head b) (cb_index b)"

definition cb_free :: "cbuf \<Rightarrow> nat" where
  "cb_free b = free_between b (cb_head b) (cb_index b)"

definition cb_flush :: "cbuf \<Rightarrow> cbuf" where
  "cb_flush b = b\<lparr>cb_tail := cb_head b\<rparr>"

definition cb_overwritten :: "cbuf \<Rightarrow> bool \<times> cbuf" where
  "cb_overwritten b =
     (cb_state b AND OVERWRITTEN = OVERWRITTEN, b\<lparr>cb_state := cb_state b AND NOT OVERWRITTEN\<rparr>)"

definition cb_isLocked :: "cbuf \<Rightarrow> bool" where
  "cb_isLocked b \<longleftrightarrow> cb_state b AND LOCKED = LOCKED"

definition cb_isOverwrite :: "cbuf \<Rightarrow> bool" where
  "cb_isOverwrite b \<longleftrightarrow> cb_state b AND OVERWRITE = OVERWRITE"

subsection \<open>Cursors\<close>

definition cursor_peek :: "cbuf \<Rightarrow> cursor \<Rightarrow> nat \<Rightarrow> u8 list" where
  "cursor_peek b cu n =
     (let startIndex = add32 (cu_tail cu AND cb_mask b) (cu_offset cu) mod cb_size b
      in map (\<lambda>i. cb_ring b ! (add32 startIndex i mod cb_size b)) [0..<n])"

definition cursor_forward :: "cursor \<Rightarrow> nat \<Rightarrow> cursor" where
  "cursor_forward cu byteCount = cu\<lparr>cu_offset := add32 (cu_offset cu) byteCount\<rparr>"

definition complete_tail :: "cbuf \<Rightarrow> cursor \<Rightarrow> nat \<Rightarrow> nat" where
  "complete_tail b cu offset =
     (let roundCount = cu_tail cu div (1 + cb_mask b);
          oldTail = cu_tail cu AND cb_mask b;
          completeTail = add32 oldTail offset mod cb_size b;
          roundCount = (if completeTail < oldTail then (roundCount + 1) mod cb_modulo b else roundCount)
      in completeTail OR mul32 roundCount (1 + cb_mask b))"

definition base_size :: size_policy where
  "base_size b cu = Some (cu_size cu, cu)"

subsection \<open>Reading\<close>

definition cb_read :: "size_policy \<Rightarrow> nat \<Rightarrow> bool \<Rightarrow> cbuf \<Rightarrow> (nat \<times> u8 list \<times> cbuf) option" where
  "cb_read readSize len partialRead b =
     (let oldTail = cb_tail b; offset = oldTail AND cb_mask b in
      if used_between b (cb_head b) offset = 0 then Some (0, [], b)
      else
        case readSize b \<lparr>cu_tail = oldTail, cu_size = len, cu_offset = 0\<rparr> of
          None \<Rightarrow> None
        | Some (result, cu) \<Rightarrow>
            if result = 0 then None
            else if result \<le> len \<or> partialRead then
              let bufferLength = min len result;
                  offset = add32 offset (cu_offset cu);
                  roundCount = oldTail div (1 + cb_mask b);
                  bytes = ring_copy (cb_ring b) offset result bufferLength
              in if add32 offset result < cb_size b then
                   Some (result, bytes,
                         b\<lparr>cb_tail := add32 (add32 offset result) (mul32 roundCount (1 + cb_mask b))\<rparr>)
                 else
                   let newOffset = (if cb_size b < offset then offset - cb_size b + bufferLength
                                    else sub32 result (cb_size b - offset));
                       roundCount = (roundCount + 1) mod cb_modulo b
                   in Some (result, bytes,
                            b\<lparr>cb_tail := add32 newOffset (mul32 roundCount (1 + cb_mask b))\<rparr>)
            else Some (result, [], b))"

definition cb_peek :: "nat \<Rightarrow> cbuf \<Rightarrow> nat \<times> u8 list" where
  "cb_peek len b =
     (let oldTail = cb_tail b;
          tail = oldTail AND cb_mask b;
          result = used_between b (cb_head b) oldTail
      in if result = 0 then (0, [])
         else
           let result = (if len < result then len else result) in
           if add32 tail result < cb_size b then (result, take result (drop tail (cb_ring b)))
           else
             let firstLength = cb_size b - tail;
                 secondLength = sub32 len firstLength
             in (result, take firstLength (drop tail (cb_ring b)) @ take secondLength (cb_ring b)))"

subsection \<open>Writing\<close>

text \<open>
  \<open>AssureFreeSpace\<close> moves the tail until more than \<open>required\<close> bytes are free. The loop keeps the
  tail it last loaded; after a successful exchange that copy is stale and is loaded again.
\<close>

partial_function (option) assure_loop :: "size_policy \<Rightarrow> nat \<Rightarrow> nat \<Rightarrow> nat \<Rightarrow> cbuf \<Rightarrow> cbuf option" where
  "assure_loop overwriteSize required oldTail free b =
     (if free \<le> required then
        Option.bind (overwriteSize b \<lparr>cu_tail = oldTail, cu_size = sub32 (required + 1) free, cu_offset = 0\<rparr>)
          (\<lambda>p. let newTail = complete_tail b (snd p) (fst p) in
             if cb_tail b = oldTail then
               assure_loop overwriteSize required oldTail
                 (free_between b (cb_head b) (newTail AND cb_mask b)) (b\<lparr>cb_tail := newTail\<rparr>)
             else assure_loop overwriteSize required (cb_tail b)
                    (free_between b (cb_head b) (cb_index b)) b)
      else Some b)"

definition assure_free_space :: "size_policy \<Rightarrow> nat \<Rightarrow> cbuf \<Rightarrow> cbuf option" where
  "assure_free_space overwriteSize required b =
     assure_loop overwriteSize required (cb_tail b) (free_between b (cb_head b) (cb_index b)) b"

definition cb_write :: "size_policy \<Rightarrow> u8 list \<Rightarrow> cbuf \<Rightarrow> (nat \<times> cbuf) option" where
  "cb_write overwriteSize bytes b =
     (let len = length bytes;
          store = (\<lambda>b writeStart shouldMoveHead.
            let b = b\<lparr>cb_ring := ring_put (cb_ring b) writeStart bytes\<rparr>
            in (len, if shouldMoveHead then b\<lparr>cb_head := (writeStart + len) mod cb_size b\<rparr> else b))
      in if cb_reservedPID b \<noteq> 0 then
           let newReservedWritten = add32 (cb_reservedWritten b) len;
               writeStart = (cb_head b + cb_reservedWritten b) mod cb_size b;
               b = b\<lparr>cb_reservedWritten := newReservedWritten\<rparr>
           in if newReservedWritten = cb_reserved b
              then Some (store (b\<lparr>cb_reservedPID := 0\<rparr>) writeStart True)
              else Some (store b writeStart False)
         else if cb_size b \<le> len \<or> \<not> cb_isOverwrite b \<and> cb_free b \<le> len then Some (0, b)
         else
           case assure_free_space overwriteSize len b of
             None \<Rightarrow> None
           | Some b \<Rightarrow> Some (store b (cb_head b) True))"

text \<open>\<open>Reserve\<close> by the process \<open>pid\<close>: a length, or an error code that is no length.\<close>

definition cb_reserve :: "size_policy \<Rightarrow> nat \<Rightarrow> nat \<Rightarrow> cbuf \<Rightarrow> (nat \<times> cbuf) option" where
  "cb_reserve overwriteSize pid len b =
     (if cb_size b \<le> len \<or> \<not> cb_isOverwrite b \<and> cb_free b \<le> len
      then Some (error_value ERROR_INVALID_INPUT_LENGTH, b)
      else if cb_reservedPID b \<noteq> 0 then Some (error_value ERROR_ILLEGAL_STATE, b)
      else
        let actualLength = (if cb_size b \<le> len then cb_size b - 1 else len) in
        case assure_free_space overwriteSize actualLength (b\<lparr>cb_reservedPID := pid\<rparr>) of
          None \<Rightarrow> None
        | Some b \<Rightarrow> Some (actualLength, b\<lparr>cb_reserved := actualLength, cb_reservedWritten := 0\<rparr>))"

subsection \<open>The lock\<close>

text \<open>
  A process that waits for the lock is woken up some number of times; each \<open>wake\<close> holds the time
  that is then left, what others did to the buffer meanwhile, and whether the wait was aborted.
  \<open>None\<close> is a process that still waits when the list ends.
\<close>

record wake =
  wk_left :: nat
  wk_others :: "cbuf \<Rightarrow> cbuf"
  wk_alert :: bool

fun cb_lock :: "nat \<Rightarrow> bool \<Rightarrow> nat \<Rightarrow> wake list \<Rightarrow> cbuf \<Rightarrow> (error_code \<times> cbuf) option" where
  "cb_lock pid dataPresent timeLeft wakes b =
     (if \<not> cb_isLocked b \<and> (\<not> dataPresent \<or> 0 < cb_used b) then
        Some (ERROR_NONE, b\<lparr>cb_state := cb_state b OR LOCKED, cb_lockPID := pid\<rparr>)
      else if 0 < timeLeft then
        case wakes of
          [] \<Rightarrow> None
        | w # ws \<Rightarrow>
            let b = wk_others w b in
            if wk_alert w then Some (ERROR_ASYNC_ABORTED, b)
            else if 0 < wk_left w then cb_lock pid dataPresent (wk_left w) ws b
            else Some (ERROR_TIMEDOUT, b)
      else Some (ERROR_TIMEDOUT, b))"

declare cb_lock.simps [simp del]

definition cb_unlock :: "nat \<Rightarrow> cbuf \<Rightarrow> error_code \<times> cbuf" where
  "cb_unlock pid b =
     (if cb_lockPID b = pid
      then (ERROR_NONE, b\<lparr>cb_lockPID := 0, cb_state := cb_state b AND NOT LOCKED\<rparr>)
      else (ERROR_ILLEGAL_STATE, b))"

text \<open>The deadline, in seconds and nanoseconds, that \<open>SignalLock\<close> waits for.\<close>

definition signal_deadline :: "nat \<Rightarrow> nat \<times> nat \<Rightarrow> nat \<times> nat" where
  "signal_deadline waitTime now =
     (fst now + waitTime div 1000, (snd now + waitTime mod 1000 * 1000 * 1000) mod 1000000000)"

subsection \<open>The invariant and the contents\<close>

definition cb_ok :: "cbuf \<Rightarrow> bool" where
  "cb_ok b \<longleftrightarrow> length (cb_ring b) = cb_size b \<and> 0 < cb_size b \<and>
     (\<exists>k. 1 \<le> k \<and> k \<le> 31 \<and> cb_mask b = 2 ^ k - 1 \<and> cb_modulo b = 2 ^ (32 - k) \<and> cb_size b \<le> cb_mask b) \<and>
     cb_head b < cb_size b \<and> cb_index b < cb_size b \<and> cb_tail b < 2 ^ 32"

text \<open>The bytes written and not yet read, in order.\<close>

definition contents :: "cbuf \<Rightarrow> u8 list" where
  "contents b = ring_get (cb_ring b) (cb_index b) (cb_used b)"

lemma mask_loop_spec:
  assumes "1 \<le> k" "k \<le> 31" "sz < 2 ^ 31"
  shows "\<exists>j. k \<le> j \<and> j \<le> 31 \<and> mask_loop sz (2 ^ k - 1) (2 ^ (32 - k)) = (2 ^ j - 1, 2 ^ (32 - j)) \<and> sz \<le> 2 ^ j - 1"
  using assms
proof (induction "31 - k" arbitrary: k)
  case 0
  then show ?case by (intro exI [of _ 31]) (simp add: mask_loop.simps)
next
  case (Suc n)
  show ?case
  proof (cases "2 ^ k - 1 < sz")
    case True
    have "32 - k = Suc (32 - Suc k)" using Suc.prems Suc.hyps(2) by linarith
    then have "(2 :: nat) ^ (32 - k) div 2 = 2 ^ (32 - Suc k)" by (simp only: power_Suc)
    moreover have "(2 ^ k - 1) * 2 + 1 = (2 :: nat) ^ Suc k - 1"
    proof -
      have "1 \<le> (2 :: nat) ^ k" by simp
      then show ?thesis unfolding power_Suc by linarith
    qed
    ultimately have "mask_loop sz (2 ^ k - 1) (2 ^ (32 - k)) = mask_loop sz (2 ^ Suc k - 1) (2 ^ (32 - Suc k))"
      using True by (subst mask_loop.simps) (simp only: if_True)
    moreover have "n = 31 - Suc k" "1 \<le> Suc k" "Suc k \<le> 31" using Suc by simp_all
    ultimately show ?thesis
      using Suc.hyps(1) [of "Suc k"] Suc.prems(3) by (metis Suc_leD)
  next
    case False
    then show ?thesis using Suc.prems by (intro exI [of _ k]) (simp add: mask_loop.simps)
  qed
qed

lemma cb_init_ok:
  assumes "bytes \<noteq> []" "length bytes < 2 ^ 31"
  shows "cb_ok (cb_init bytes ow)" "contents (cb_init bytes ow) = []"
proof -
  have "1 = (2 :: nat) ^ 1 - 1" "(2 :: nat) ^ 31 = 2 ^ (32 - 1)" by simp_all
  then show "cb_ok (cb_init bytes ow)"
    using mask_loop_spec [of 1 "length bytes"] assms
    by (auto simp: cb_init_def cb_ok_def cb_index_def)
  show "contents (cb_init bytes ow) = []"
    by (simp add: cb_init_def contents_def cb_used_def cb_index_def used_between_def split: prod.split)
qed

lemma cb_ok_bounds:
  assumes "cb_ok b"
  shows "cb_size b < 2 ^ 31" "length (cb_ring b) = cb_size b" "0 < cb_size b" "cb_head b < cb_size b"
    "cb_index b < cb_size b" "cb_tail b < 2 ^ 32" "cb_tail b AND cb_mask b = cb_index b"
proof -
  obtain k where "k \<le> 31" "cb_size b \<le> 2 ^ k - 1" using assms by (auto simp: cb_ok_def)
  moreover have "(2 :: nat) ^ k \<le> 2 ^ 31" using \<open>k \<le> 31\<close> by (intro power_increasing) auto
  moreover have "1 \<le> (2 :: nat) ^ k" by simp
  ultimately show "cb_size b < 2 ^ 31" by linarith
qed (use assms in \<open>simp_all add: cb_ok_def cb_index_def\<close>)

lemma used_eq:
  assumes "cb_ok b"
  shows "cb_used b = (if cb_index b \<le> cb_head b then cb_head b - cb_index b else cb_size b - (cb_index b - cb_head b))"
    and "cb_free b = cb_size b - cb_used b"
    and "cb_used b < cb_size b"
    and "(cb_index b + cb_used b) mod cb_size b = cb_head b"
proof -
  note b = cb_ok_bounds [OF assms]
  show u: "cb_used b = (if cb_index b \<le> cb_head b then cb_head b - cb_index b else cb_size b - (cb_index b - cb_head b))"
    using b by (simp add: cb_used_def used_between_def no_wrap)
  show "cb_free b = cb_size b - cb_used b"
    using b by (auto simp: u cb_free_def free_between_def no_wrap)
  show "cb_used b < cb_size b" "(cb_index b + cb_used b) mod cb_size b = cb_head b"
    using b by (auto simp: u)
qed

lemma length_contents [simp]: "length (contents b) = cb_used b"
  by (simp add: contents_def)

lemma contents_Nil: "contents b = [] \<longleftrightarrow> cb_used b = 0"
  by (metis length_0_conv length_contents)

subsection \<open>Moving the tail\<close>

text \<open>\<open>cb_advance b n\<close>: the buffer without its first \<open>n\<close> bytes.\<close>

definition cb_advance :: "cbuf \<Rightarrow> nat \<Rightarrow> cbuf" where
  "cb_advance b n = b\<lparr>cb_tail := complete_tail b \<lparr>cu_tail = cb_tail b, cu_size = 0, cu_offset = 0\<rparr> n\<rparr>"

lemma complete_tail_cursor:
  "cu_tail cu = cb_tail b \<Longrightarrow> b\<lparr>cb_tail := complete_tail b cu n\<rparr> = cb_advance b n"
  by (simp add: cb_advance_def complete_tail_def)

lemma tail_parts:
  assumes "cb_ok b"
  obtains k where "1 \<le> k" "k \<le> 31" "cb_mask b = 2 ^ k - 1" "cb_modulo b = 2 ^ (32 - k)" "1 + cb_mask b = 2 ^ k"
    "cb_size b < 2 ^ k" "cb_index b = cb_tail b mod 2 ^ k" "cb_tail b div (1 + cb_mask b) < 2 ^ (32 - k)"
proof -
  obtain k where k: "1 \<le> k" "k \<le> 31" "cb_mask b = 2 ^ k - 1" "cb_modulo b = 2 ^ (32 - k)" "cb_size b \<le> cb_mask b"
    using assms by (auto simp: cb_ok_def)
  have m: "1 + cb_mask b = 2 ^ k" using k(3) by simp
  have "(2 :: nat) ^ (32 - k) * 2 ^ k = 2 ^ 32" using k(2) by (simp flip: power_add)
  then have "cb_tail b div (1 + cb_mask b) < 2 ^ (32 - k)"
    unfolding m using cb_ok_bounds(6) [OF assms] by (simp add: div_less_iff_less_mult)
  moreover have "cb_size b < 2 ^ k" using k(5) m by linarith
  ultimately show thesis
    using that [OF k(1-4) m] k(3) by (simp add: cb_index_def)
qed

lemma tail_value:
  assumes "k \<le> 31" "i < 2 ^ k" "c < 2 ^ (32 - k)"
  shows "i OR mul32 c (2 ^ k) = i + c * 2 ^ k" "i + c * 2 ^ k < 2 ^ 32" "(i + c * 2 ^ k) mod 2 ^ k = i"
    "add32 i (mul32 c (2 ^ k)) = i + c * 2 ^ k"
proof -
  have p: "(2 :: nat) ^ (32 - k) * 2 ^ k = 2 ^ 32" using assms(1) by (simp flip: power_add)
  have "Suc c * 2 ^ k \<le> 2 ^ (32 - k) * 2 ^ k" using assms(3) by (intro mult_right_mono) auto
  then have le: "2 ^ k + c * 2 ^ k \<le> 2 ^ 32" using p by simp
  show s: "i + c * 2 ^ k < 2 ^ 32" using le assms(2) by linarith
  have m: "mul32 c (2 ^ k) = c * 2 ^ k" using s by (intro mul32_id) linarith
  show "i OR mul32 c (2 ^ k) = i + c * 2 ^ k" using assms(2) by (simp add: m or_shifted_nat)
  show "add32 i (mul32 c (2 ^ k)) = i + c * 2 ^ k" using s by (simp add: m add32_id)
  show "(i + c * 2 ^ k) mod 2 ^ k = i" using assms(2) by simp
qed

lemma advance_tail:
  assumes "cb_ok b" "n < cb_size b"
  shows "\<exists>c. complete_tail b \<lparr>cu_tail = cb_tail b, cu_size = 0, cu_offset = 0\<rparr> n =
      add32 ((cb_index b + n) mod cb_size b) (mul32 c (1 + cb_mask b))
    \<and> c = (if cb_index b + n < cb_size b then cb_tail b div (1 + cb_mask b)
           else (cb_tail b div (1 + cb_mask b) + 1) mod cb_modulo b)
    \<and> cb_tail (cb_advance b n) < 2 ^ 32 \<and> cb_index (cb_advance b n) = (cb_index b + n) mod cb_size b"
proof -
  obtain k where k: "1 \<le> k" "k \<le> 31" "cb_mask b = 2 ^ k - 1" "cb_modulo b = 2 ^ (32 - k)" "1 + cb_mask b = 2 ^ k"
    "cb_size b < 2 ^ k" "cb_index b = cb_tail b mod 2 ^ k" "cb_tail b div (1 + cb_mask b) < 2 ^ (32 - k)"
    using tail_parts [OF assms(1)] .
  note b = cb_ok_bounds [OF assms(1)]
  obtain c where c: "c = (if cb_index b + n < cb_size b then cb_tail b div (1 + cb_mask b)
           else (cb_tail b div (1 + cb_mask b) + 1) mod cb_modulo b)" by blast
  obtain i where i: "i = (cb_index b + n) mod cb_size b" by blast
  have k5: "Suc (cb_mask b) = 2 ^ k" using k(5) by simp
  have n: "n < cb_size b" by (rule assms(2))
  have i': "i < 2 ^ k" using i b(3) k(6) by (simp add: order.strict_trans [OF mod_less_divisor])
  have c': "c < 2 ^ (32 - k)" using k(4,8) c by simp
  have w: "add32 (cb_index b) n = cb_index b + n" using n b(1,5) by (intro add32_id) simp
  have less: "(i < cb_index b) = (\<not> cb_index b + n < cb_size b)"
    using i n b(5) mod_once [of "cb_index b" "cb_size b" n] by auto
  have t: "complete_tail b \<lparr>cu_tail = cb_tail b, cu_size = 0, cu_offset = 0\<rparr> n = i OR mul32 c (2 ^ k)"
    unfolding complete_tail_def using w less by (simp add: b(7) Let_def i [symmetric] c k(5)) (auto simp: k5)
  have v: "complete_tail b \<lparr>cu_tail = cb_tail b, cu_size = 0, cu_offset = 0\<rparr> n = i + c * 2 ^ k"
    using t tail_value(1) [OF k(2) i' c'] by simp
  show ?thesis
    using v tail_value(2-4) [OF k(2) i' c'] c k(3,5)
    by (intro exI [of _ c]) (simp add: i cb_advance_def cb_index_def)
qed

lemma advance_simps [simp]:
  "cb_ring (cb_advance b n) = cb_ring b" "cb_head (cb_advance b n) = cb_head b"
  "cb_mask (cb_advance b n) = cb_mask b" "cb_modulo (cb_advance b n) = cb_modulo b"
  "cb_size (cb_advance b n) = cb_size b" "cb_state (cb_advance b n) = cb_state b"
  "cb_reserved (cb_advance b n) = cb_reserved b" "cb_reservedWritten (cb_advance b n) = cb_reservedWritten b"
  "cb_reservedPID (cb_advance b n) = cb_reservedPID b" "cb_lockPID (cb_advance b n) = cb_lockPID b"
  by (simp_all add: cb_advance_def)

lemma advance_ok:
  assumes "cb_ok b" "n \<le> cb_used b"
  shows "cb_ok (cb_advance b n)" "cb_index (cb_advance b n) = (cb_index b + n) mod cb_size b"
    "cb_used (cb_advance b n) = cb_used b - n" "contents (cb_advance b n) = drop n (contents b)"
proof -
  note b = cb_ok_bounds [OF assms(1)] and u = used_eq [OF assms(1)]
  have t: "cb_tail (cb_advance b n) < 2 ^ 32" "cb_index (cb_advance b n) = (cb_index b + n) mod cb_size b"
    using advance_tail [OF assms(1), of n] u(3) assms(2) by auto
  show ok: "cb_ok (cb_advance b n)"
    using assms(1) t b(3) by (simp add: cb_ok_def)
  show "cb_index (cb_advance b n) = (cb_index b + n) mod cb_size b" by (rule t)
  show used: "cb_used (cb_advance b n) = cb_used b - n"
    using used_eq(1) [OF ok] u(1) u(3) assms(2) b(4,5) t(2) mod_once [of "cb_index b" "cb_size b" n]
    by (auto split: if_splits)
  show "contents (cb_advance b n) = drop n (contents b)"
    using assms(2) b(2) ring_get_mod [of "cb_ring b" "cb_index b + n"]
    by (simp add: contents_def used t(2) drop_ring_get)
qed

lemma advance_0: "cb_ok b \<Longrightarrow> cb_advance b 0 = b"
proof -
  assume b: "cb_ok b"
  obtain k where k: "1 \<le> k" "k \<le> 31" "cb_mask b = 2 ^ k - 1" "cb_modulo b = 2 ^ (32 - k)" "1 + cb_mask b = 2 ^ k"
    "cb_size b < 2 ^ k" "cb_index b = cb_tail b mod 2 ^ k" "cb_tail b div (1 + cb_mask b) < 2 ^ (32 - k)"
    using tail_parts [OF b] .
  have i: "cb_index b < 2 ^ k" using k(7) by simp
  have "complete_tail b \<lparr>cu_tail = cb_tail b, cu_size = 0, cu_offset = 0\<rparr> 0 =
      add32 (cb_index b) (mul32 (cb_tail b div (1 + cb_mask b)) (1 + cb_mask b))"
    using advance_tail [OF b, of 0] cb_ok_bounds(3,5) [OF b] by auto
  also have "\<dots> = cb_tail b"
    using tail_value(4) [OF k(2) i k(8)] k(5,7) by (metis mod_div_mult_eq)
  finally show ?thesis by (simp add: cb_advance_def)
qed

subsection \<open>Reading\<close>

text \<open>
  What a read does when \<open>GetReadSize\<close> finds an entry of \<open>result\<close> bytes behind a header: the tail
  moves over both, except when the header crosses the end of the buffer; then it moves over the
  bytes that the caller's buffer could take.
\<close>

lemma cb_read_entry:
  assumes "cb_ok b" "readSize b \<lparr>cu_tail = cb_tail b, cu_size = len, cu_offset = 0\<rparr> = Some (result, cu)"
    and "0 < result" "cu_offset cu + result < cb_size b" "result \<le> len \<or> partialRead" "contents b \<noteq> []"
    and n: "n = cu_offset cu + (if cb_size b < cb_index b + cu_offset cu then min len result else result)"
  shows "cb_read readSize len partialRead b =
    Some (result, ring_get (cb_ring b) (cb_index b + cu_offset cu) (min len result), cb_advance b n)"
proof -
  note b = cb_ok_bounds [OF assms(1)]
  have n': "n < cb_size b" using n assms(4) by (auto simp: min_def)
  obtain c where t: "complete_tail b \<lparr>cu_tail = cb_tail b, cu_size = 0, cu_offset = 0\<rparr> n =
      add32 ((cb_index b + n) mod cb_size b) (mul32 c (1 + cb_mask b))"
    "c = (if cb_index b + n < cb_size b then cb_tail b div (1 + cb_mask b)
           else (cb_tail b div (1 + cb_mask b) + 1) mod cb_modulo b)"
    using advance_tail [OF assms(1) n'] by blast
  have used: "used_between b (cb_head b) (cb_index b) \<noteq> 0"
    using assms(6) by (simp add: contents_Nil cb_used_def)
  have w1: "add32 (cb_index b) (cu_offset cu) = cb_index b + cu_offset cu"
    using assms(4) b(1,5) by (intro add32_id) simp
  have w2: "add32 (cb_index b + cu_offset cu) result = cb_index b + cu_offset cu + result"
    using assms(4) b(1,5) by (intro add32_id) simp
  have w3: "sub32 result (cb_size b - (cb_index b + cu_offset cu)) = cb_index b + cu_offset cu + result - cb_size b"
    if "\<not> cb_size b < cb_index b + cu_offset cu" "\<not> cb_index b + cu_offset cu + result < cb_size b"
    using that assms(4) b(1) by (subst sub32_id) auto
  have m: "(cb_index b + n) mod cb_size b = (if cb_index b + n < cb_size b then cb_index b + n else cb_index b + n - cb_size b)"
    using n' b(5) mod_once [of "cb_index b" "cb_size b" n] by simp
  have copy: "ring_copy (cb_ring b) (cb_index b + cu_offset cu) result (min len result) =
      ring_get (cb_ring b) (cb_index b + cu_offset cu) (min len result)"
    using assms(4) b(2,5) by (intro ring_copy_get) auto
  have ca: "cb_advance b n = b\<lparr>cb_tail := add32 ((cb_index b + n) mod cb_size b) (mul32 c (1 + cb_mask b))\<rparr>"
    by (simp add: cb_advance_def t(1))
  have rd: "cb_read readSize len partialRead b =
      (if cb_index b + cu_offset cu + result < cb_size b then
         Some (result, ring_get (cb_ring b) (cb_index b + cu_offset cu) (min len result),
           b\<lparr>cb_tail := add32 (cb_index b + cu_offset cu + result) (mul32 (cb_tail b div (1 + cb_mask b)) (1 + cb_mask b))\<rparr>)
       else
         Some (result, ring_get (cb_ring b) (cb_index b + cu_offset cu) (min len result),
           b\<lparr>cb_tail := add32 (if cb_size b < cb_index b + cu_offset cu then cb_index b + cu_offset cu - cb_size b + min len result
                               else cb_index b + cu_offset cu + result - cb_size b)
              (mul32 ((cb_tail b div (1 + cb_mask b) + 1) mod cb_modulo b) (1 + cb_mask b))\<rparr>))"
    using assms(2,3,5) used w3 by (auto simp: cb_read_def b(7) Let_def w1 w2 copy)
  show ?thesis
    unfolding rd ca t(2) m using n by (cases "cb_size b < cb_index b + cu_offset cu") (simp_all add: add.assoc)
qed

lemma cb_read_empty: "cb_ok b \<Longrightarrow> contents b = [] \<Longrightarrow> cb_read readSize len partialRead b = Some (0, [], b)"
  using length_contents [of b]
  by (simp add: cb_read_def Let_def cb_used_def cb_index_def)

subsection \<open>Writing\<close>

lemma index_frames [simp]:
  "cb_index (b\<lparr>cb_ring := r\<rparr>) = cb_index b"
  "cb_index (b\<lparr>cb_head := h\<rparr>) = cb_index b"
  "cb_index (b\<lparr>cb_state := st\<rparr>) = cb_index b"
  "cb_index (b\<lparr>cb_lockPID := n\<rparr>) = cb_index b"
  "cb_index (b\<lparr>cb_reserved := n\<rparr>) = cb_index b"
  "cb_index (b\<lparr>cb_reservedWritten := n\<rparr>) = cb_index b"
  "cb_index (b\<lparr>cb_reservedPID := n\<rparr>) = cb_index b"
  by (simp_all add: cb_index_def)

lemma head_moved:
  assumes "cb_ok b" "length r = cb_size b" "n < cb_size b"
  shows "cb_ok (b\<lparr>cb_ring := r, cb_head := (cb_index b + n) mod cb_size b\<rparr>)"
    and "cb_used (b\<lparr>cb_ring := r, cb_head := (cb_index b + n) mod cb_size b\<rparr>) = n"
    and "contents (b\<lparr>cb_ring := r, cb_head := (cb_index b + n) mod cb_size b\<rparr>) = ring_get r (cb_index b) n"
proof -
  let ?b = "b\<lparr>cb_ring := r, cb_head := (cb_index b + n) mod cb_size b\<rparr>"
  note b = cb_ok_bounds [OF assms(1)]
  have i: "cb_index ?b = cb_index b" by simp
  show ok: "cb_ok ?b" using assms b(3) by (simp add: cb_ok_def)
  show used: "cb_used ?b = n"
    using used_eq(1) [OF ok] assms(3) b(5) mod_once [of "cb_index b" "cb_size b" n] by (auto split: if_splits)
  show "contents ?b = ring_get r (cb_index b) n" by (simp add: contents_def used)
qed

lemma ring_moved:
  assumes "cb_ok b" "length r = cb_size b"
  shows "cb_ok (b\<lparr>cb_ring := r\<rparr>)" "cb_used (b\<lparr>cb_ring := r\<rparr>) = cb_used b" "cb_index (b\<lparr>cb_ring := r\<rparr>) = cb_index b"
  using assms by (simp_all add: cb_ok_def cb_used_def cb_index_def used_between_def)

text \<open>Bytes put behind the \<open>w\<close> bytes that are already pending after the head.\<close>

lemma put_behind_head:
  assumes "cb_ok b" "cb_used b + w + length xs < cb_size b"
  shows "length (ring_put (cb_ring b) ((cb_head b + w) mod cb_size b) xs) = cb_size b"
    and "ring_get (ring_put (cb_ring b) ((cb_head b + w) mod cb_size b) xs) (cb_index b) (cb_used b + w + length xs) =
           ring_get (cb_ring b) (cb_index b) (cb_used b + w) @ xs"
    and "ring_get (ring_put (cb_ring b) ((cb_head b + w) mod cb_size b) xs) (cb_index b) (cb_used b) = contents b"
    and "(cb_head b + w) mod cb_size b = (cb_index b + (cb_used b + w)) mod cb_size b"
proof -
  note b = cb_ok_bounds [OF assms(1)]
  have "(cb_head b + w) mod cb_size b = ((cb_index b + cb_used b) mod cb_size b + w) mod cb_size b"
    using used_eq(4) [OF assms(1)] by simp
  then show s: "(cb_head b + w) mod cb_size b = (cb_index b + (cb_used b + w)) mod cb_size b"
    by (simp add: mod_simps add.assoc)
  let ?r = "ring_put (cb_ring b) ((cb_head b + w) mod cb_size b) xs"
  have lt: "(cb_head b + w) mod cb_size b < cb_size b" using b(3) by simp
  show len: "length ?r = cb_size b"
    using b(2) lt assms(2) by (subst length_ring_put) simp_all
  have old: "ring_get ?r (cb_index b) (cb_used b + w) = ring_get (cb_ring b) (cb_index b) (cb_used b + w)"
    using b(2,3) s assms(2) by (intro ring_get_put_other) simp_all
  have "ring_get ?r (cb_index b + (cb_used b + w)) (length xs) = ring_get ?r ((cb_head b + w) mod cb_size b) (length xs)"
    using ring_get_mod [of ?r "cb_index b + (cb_used b + w)" "length xs"] len s by (simp only:)
  also have "\<dots> = xs" using b(2) lt assms(2) by (intro ring_get_put_same) simp_all
  finally show "ring_get ?r (cb_index b) (cb_used b + w + length xs) = ring_get (cb_ring b) (cb_index b) (cb_used b + w) @ xs"
    using ring_get_add [of ?r "cb_index b" "cb_used b + w" "length xs"] by (simp only: old)
  show "ring_get ?r (cb_index b) (cb_used b) = contents b"
    using arg_cong [OF old, of "take (cb_used b)"] by (simp add: take_ring_get contents_def)
qed

subsection \<open>The overwrite policy\<close>

text \<open>
  The contract between \<open>AssureFreeSpace\<close> and the virtual \<open>GetOverwriteSize\<close>: asked for \<open>n\<close> bytes of
  a non-empty buffer, a policy answers with at least \<open>n\<close> bytes and no more than there are, and
  what is left is again a buffer the policy understands.
\<close>

locale overwrite_policy =
  fixes whole :: "cbuf \<Rightarrow> bool" and overwriteSize :: size_policy
  assumes frees: "cb_ok b \<Longrightarrow> whole b \<Longrightarrow> 0 < n \<Longrightarrow> n \<le> cb_used b \<Longrightarrow>
      \<exists>k cu. overwriteSize b \<lparr>cu_tail = cb_tail b, cu_size = n, cu_offset = 0\<rparr> = Some (k, cu) \<and>
        cu_tail cu = cb_tail b \<and> n \<le> k \<and> k \<le> cb_used b \<and> whole (cb_advance b k)"
begin

definition dropped :: "cbuf \<Rightarrow> nat \<Rightarrow> nat" where
  "dropped b n = fst (the (overwriteSize b \<lparr>cu_tail = cb_tail b, cu_size = n, cu_offset = 0\<rparr>))"

lemma assure:
  assumes "cb_ok b" "whole b" "required < cb_size b"
  shows "assure_free_space overwriteSize required b =
      Some (if required < cb_free b then b else cb_advance b (dropped b (required + 1 - cb_free b)))"
    and "\<not> required < cb_free b \<Longrightarrow> required + 1 - cb_free b \<le> dropped b (required + 1 - cb_free b) \<and>
      dropped b (required + 1 - cb_free b) \<le> cb_used b \<and> whole (cb_advance b (dropped b (required + 1 - cb_free b)))"
proof -
  note b = cb_ok_bounds [OF assms(1)] and u = used_eq [OF assms(1)]
  obtain n where n: "n = required + 1 - cb_free b" by blast
  have f: "free_between b (cb_head b) (cb_index b) = cb_free b" by (simp add: cb_free_def)
  show "assure_free_space overwriteSize required b =
      Some (if required < cb_free b then b else cb_advance b (dropped b (required + 1 - cb_free b)))"
  proof (cases "required < cb_free b")
    case True
    then show ?thesis
      by (simp add: assure_free_space_def f assure_loop.simps)
  next
    case False
    then have "0 < n" "n \<le> cb_used b" using n u(2,3) assms(3) by simp_all
    then obtain k cu where k: "overwriteSize b \<lparr>cu_tail = cb_tail b, cu_size = n, cu_offset = 0\<rparr> = Some (k, cu)"
        "cu_tail cu = cb_tail b" "n \<le> k" "k \<le> cb_used b"
      using frees [OF assms(1,2)] by blast
    note a = advance_ok [OF assms(1) k(4)]
    have w: "sub32 (required + 1) (cb_free b) = n" using False n assms(3) b(1) by (simp add: sub32_id)
    have "free_between (cb_advance b k) (cb_head b) (cb_index (cb_advance b k)) = cb_free (cb_advance b k)"
      by (simp add: cb_free_def)
    also have "required < cb_free (cb_advance b k)"
      using used_eq(2) [OF a(1)] a(3) u(2,3) k(3,4) n False by simp
    finally have "required < free_between (cb_advance b k) (cb_head b) (cb_index (cb_advance b k))" .
    then have stop: "\<not> free_between b (cb_head b) (complete_tail b cu k AND cb_mask b) \<le> required"
      using complete_tail_cursor [OF k(2), of k, symmetric]
      by (simp add: cb_index_def not_le) (auto simp: free_between_def split: if_splits)
    have "assure_loop overwriteSize required (cb_tail b) (cb_free b) b =
        assure_loop overwriteSize required (cb_tail b)
          (free_between b (cb_head b) (complete_tail b cu k AND cb_mask b)) (cb_advance b k)"
      using False k(1) w complete_tail_cursor [OF k(2), of k]
      by (subst assure_loop.simps) (simp add: Let_def)
    also have "\<dots> = Some (cb_advance b k)" using stop by (subst assure_loop.simps) simp
    finally show ?thesis using False k(1) n by (simp add: assure_free_space_def f dropped_def)
  qed
  show "required + 1 - cb_free b \<le> dropped b (required + 1 - cb_free b) \<and>
      dropped b (required + 1 - cb_free b) \<le> cb_used b \<and> whole (cb_advance b (dropped b (required + 1 - cb_free b)))"
    if "\<not> required < cb_free b"
  proof -
    have "0 < n" "n \<le> cb_used b" using that n u(2,3) assms(3) by simp_all
    from frees [OF assms(1,2) this] show ?thesis by (auto simp: dropped_def n)
  qed
qed

text \<open>Room is made, at the expense of the oldest bytes only.\<close>

lemma assure_room:
  assumes "cb_ok b" "whole b" "required < cb_size b"
  obtains k where "assure_free_space overwriteSize required b = Some (cb_advance b k)" "k \<le> cb_used b"
    "cb_ok (cb_advance b k)" "whole (cb_advance b k)" "cb_used b - k + required < cb_size b"
    "k = (if required < cb_free b then 0 else dropped b (required + 1 - cb_free b))"
proof -
  note a = assure [OF assms] and u = used_eq [OF assms(1)]
  obtain k where k: "k = (if required < cb_free b then 0 else dropped b (required + 1 - cb_free b))" by blast
  have "k \<le> cb_used b" "whole (cb_advance b k)" "cb_used b - k + required < cb_size b"
    using a(2) k assms(1,2) u(2,3) advance_0 [OF assms(1)] by (auto split: if_splits)
  moreover have "assure_free_space overwriteSize required b = Some (cb_advance b k)"
    using a(1) k advance_0 [OF assms(1)] by simp
  ultimately show thesis using that k advance_ok(1) [OF assms(1)] by blast
qed

lemma write_unreserved:
  assumes "cb_ok b" "whole b" "cb_reservedPID b = 0" "length xs < cb_size b"
    and "cb_isOverwrite b \<or> length xs < cb_free b"
  obtains k b' where "cb_write overwriteSize xs b = Some (length xs, b')" "cb_ok b'"
    "contents b' = drop k (contents b) @ xs"
    "k = (if length xs < cb_free b then 0 else dropped b (length xs + 1 - cb_free b))"
    "cb_size b' = cb_size b" "cb_state b' = cb_state b" "cb_reservedPID b' = 0"
proof -
  obtain k where k: "assure_free_space overwriteSize (length xs) b = Some (cb_advance b k)" "k \<le> cb_used b"
    "cb_ok (cb_advance b k)" "whole (cb_advance b k)" "cb_used b - k + length xs < cb_size b"
    "k = (if length xs < cb_free b then 0 else dropped b (length xs + 1 - cb_free b))"
    using assure_room [OF assms(1,2,4)] .
  note a = advance_ok [OF assms(1) k(2)]
  have fits: "cb_used (cb_advance b k) + 0 + length xs < cb_size (cb_advance b k)" using k(5) a(3) by simp
  note p = put_behind_head [OF k(3) fits]
  have h: "cb_head b mod cb_size b = cb_head b" using cb_ok_bounds(4) [OF assms(1)] by simp
  obtain b' where b': "b' = (cb_advance b k)\<lparr>cb_ring := ring_put (cb_ring b) (cb_head b) xs,
      cb_head := (cb_index (cb_advance b k) + (cb_used (cb_advance b k) + length xs)) mod cb_size b\<rparr>" by blast
  have "(cb_head b + length xs) mod cb_size b =
      (cb_index (cb_advance b k) + (cb_used (cb_advance b k) + length xs)) mod cb_size b"
    using put_behind_head(4) [OF k(3), of "length xs" "[]"] fits by simp
  then have "cb_write overwriteSize xs b = Some (length xs, b')"
    using assms(3-5) k(1) by (auto simp: cb_write_def Let_def b' not_le)
  moreover have "cb_ok b'" "contents b' = drop k (contents b) @ xs"
    using head_moved [OF k(3), of "ring_put (cb_ring b) (cb_head b) xs" "cb_used (cb_advance b k) + length xs"] p fits h
      a(4) by (simp_all add: b' contents_def)
  moreover have "cb_size b' = cb_size b" "cb_state b' = cb_state b" "cb_reservedPID b' = 0"
    using assms(3) by (simp_all add: b')
  ultimately show thesis using that k(6) by simp
qed

end

interpretation base: overwrite_policy "\<lambda>_. True" base_size
  by unfold_locales (simp add: base_size_def)

subsection \<open>Properties\<close>

text \<open>
  C23: a write without reservation appends its bytes to the contents, and drops from the front
  exactly as many old bytes as are missing for them, so nothing is lost while there is room.
\<close>

theorem write_appends:
  assumes "cb_ok b" "cb_reservedPID b = 0" "length xs < cb_size b" "cb_isOverwrite b \<or> length xs < cb_free b"
  shows "\<exists>b'. cb_write base_size xs b = Some (length xs, b') \<and> cb_ok b'
    \<and> contents b' = drop (length xs + 1 - cb_free b) (contents b) @ xs"
proof -
  obtain k b' where w: "cb_write base_size xs b = Some (length xs, b')" "cb_ok b'" "contents b' = drop k (contents b) @ xs"
    "k = (if length xs < cb_free b then 0 else base.dropped b (length xs + 1 - cb_free b))"
    "cb_size b' = cb_size b" "cb_state b' = cb_state b" "cb_reservedPID b' = 0"
    using base.write_unreserved [OF assms(1) TrueI assms(2-4)] .
  have k: "k = length xs + 1 - cb_free b" using w(4) by (simp add: base.dropped_def base_size_def)
  show ?thesis using w(1-3) unfolding k by (intro exI conjI)
qed

definition ring_example :: cbuf where
  "ring_example = cb_init (replicate 8 0) True"

lemma ring_example: "cb_ok ring_example" "contents ring_example = []" "cb_size ring_example = 8"
  "cb_isOverwrite ring_example" "cb_reservedPID ring_example = 0" "cb_used ring_example = 0"
  using cb_init_ok [of "replicate 8 0" True]
  by (simp_all add: ring_example_def cb_init_def cb_isOverwrite_def cb_used_def cb_index_def used_between_def
      split: prod.split)

theorem write_appends_witness:
  "\<exists>b'. cb_write base_size [1, 2, 3] ring_example = Some (3, b') \<and> cb_ok b' \<and> contents b' = [1, 2, 3]"
  using write_appends [of ring_example "[1, 2, 3]"] ring_example by (simp add: numeral_3_eq_3)

text \<open>
  A read of no more bytes than the buffer holds returns exactly the oldest ones and takes them
  out; what is left is the rest, in order.
\<close>

theorem read_takes_oldest:
  assumes "cb_ok b" "0 < n" "n \<le> cb_used b"
  shows "\<exists>b'. cb_read base_size n partialRead b = Some (n, take n (contents b), b') \<and> cb_ok b'
    \<and> contents b' = drop n (contents b)"
proof -
  have "n < cb_size b" "contents b \<noteq> []"
    using assms used_eq(3) [OF assms(1)] by (auto simp: contents_Nil)
  then have "cb_read base_size n partialRead b = Some (n, ring_get (cb_ring b) (cb_index b) n, cb_advance b n)"
    using assms(1,2) cb_read_entry [OF assms(1), of base_size n n "\<lparr>cu_tail = cb_tail b, cu_size = n, cu_offset = 0\<rparr>"]
    by (simp add: base_size_def)
  moreover have "take n (contents b) = ring_get (cb_ring b) (cb_index b) n"
    using assms(3) by (simp add: contents_def take_ring_get)
  ultimately show ?thesis using advance_ok [OF assms(1,3)] by simp
qed

text \<open>
  A read of more bytes than the buffer holds does not stop at the end of the data. It returns
  the requested length, and the tail passes the head: the buffer then counts as nearly full.
\<close>

theorem read_passes_head:
  assumes "cb_ok b" "0 < cb_used b" "cb_used b < n" "n < cb_size b"
  shows "\<exists>bytes b'. cb_read base_size n partialRead b = Some (n, bytes, b') \<and> length bytes = n
    \<and> cb_used b' = cb_size b - (n - cb_used b)"
proof -
  have c: "contents b \<noteq> []" using assms(2) by (simp add: contents_Nil)
  note b = cb_ok_bounds [OF assms(1)] and u = used_eq [OF assms(1)]
  have r: "cb_read base_size n partialRead b = Some (n, ring_get (cb_ring b) (cb_index b) n, cb_advance b n)"
    using assms(1-4) c cb_read_entry [OF assms(1), of base_size n n "\<lparr>cu_tail = cb_tail b, cu_size = n, cu_offset = 0\<rparr>"]
    by (simp add: base_size_def)
  have t: "cb_tail (cb_advance b n) < 2 ^ 32" "cb_index (cb_advance b n) = (cb_index b + n) mod cb_size b"
    using advance_tail [OF assms(1,4)] by blast+
  have ok: "cb_ok (cb_advance b n)" using assms(1) t b(3) by (simp add: cb_ok_def)
  have "cb_used (cb_advance b n) = cb_size b - (n - cb_used b)"
    using used_eq(1) [OF ok] u(1) assms(3,4) b(4,5) t(2) mod_once [of "cb_index b" "cb_size b" n]
    by (auto split: if_splits)
  then show ?thesis using r by auto
qed

lemma one_byte_example: "\<exists>b. cb_ok b \<and> contents b = [1] \<and> cb_size b = 8"
proof -
  have "length [1 :: u8] < cb_size ring_example" "cb_isOverwrite ring_example \<or> length [1 :: u8] < cb_free ring_example"
    by (simp_all add: ring_example)
  then obtain k b' where "cb_write base_size [1] ring_example = Some (length [1 :: u8], b')" "cb_ok b'"
    "contents b' = drop k (contents ring_example) @ [1]"
    "k = (if length [1 :: u8] < cb_free ring_example then 0 else base.dropped ring_example (length [1 :: u8] + 1 - cb_free ring_example))"
    "cb_size b' = cb_size ring_example" "cb_state b' = cb_state ring_example" "cb_reservedPID b' = 0"
    using base.write_unreserved [OF ring_example(1) TrueI ring_example(5)] by blast
  then show ?thesis using ring_example by (intro exI [of _ b']) simp
qed

theorem read_takes_oldest_witness:
  "\<exists>b b'. contents b = [1] \<and> cb_read base_size 1 False b = Some (1, [1], b') \<and> contents b' = []"
proof -
  obtain b where b: "cb_ok b" "contents b = [1]" using one_byte_example by blast
  then have "cb_used b = 1" using length_contents [of b] by simp
  then show ?thesis using read_takes_oldest [OF b(1), of 1 False] b(2) by auto
qed

theorem read_passes_head_witness:
  "\<exists>b b' bytes. contents b = [1] \<and> cb_read base_size 4 False b = Some (4, bytes, b') \<and> cb_used b' = 5"
proof -
  obtain b where b: "cb_ok b" "contents b = [1]" "cb_size b = 8" using one_byte_example by blast
  then have "cb_used b = 1" using length_contents [of b] by simp
  then show ?thesis using read_passes_head [OF b(1), of 4 False] b(2,3) by auto
qed

end
