(* ===== verification/Cyclic_Properties.thy ===== *)
theory Cyclic_Properties
  imports Cyclic_Buffer
begin

text \<open>
  Properties of the operations of \<open>Core::CyclicBuffer\<close> beside reading and writing: \<open>Peek\<close>, the lock
  between processes, the region of a shared file, and the deadline of a timed wait.
\<close>

subsection \<open>Peek\<close>

text \<open>
  In the first round of the tail, \<open>Peek\<close> returns the oldest bytes, as many as there are and fit,
  and changes nothing.
\<close>

theorem peek_first_round:
  assumes "cb_ok b" "cb_tail b \<le> cb_mask b" "len < 2 ^ 32"
  shows "fst (cb_peek len b) = min len (cb_used b)
    \<and> take (min len (cb_used b)) (snd (cb_peek len b)) = take len (contents b)"
proof -
  note b = cb_ok_bounds [OF assms(1)] and u = used_eq [OF assms(1)]
  obtain k where k: "1 \<le> k" "k \<le> 31" "cb_mask b = 2 ^ k - 1" "cb_modulo b = 2 ^ (32 - k)" "1 + cb_mask b = 2 ^ k"
    "cb_size b < 2 ^ k" "cb_index b = cb_tail b mod 2 ^ k" "cb_tail b div (1 + cb_mask b) < 2 ^ (32 - k)"
    using tail_parts [OF assms(1)] .
  have t: "cb_tail b = cb_index b" using assms(2) k(5,7) by simp
  have used: "used_between b (cb_head b) (cb_tail b) = cb_used b" by (simp add: cb_used_def t)
  obtain r where r: "r = min len (cb_used b)" by blast
  have ru: "r < cb_size b" "r \<le> cb_used b" "r \<le> len" using u(3) r by auto
  have w: "add32 (cb_index b) r = cb_index b + r" using b(1,5) ru(1) by (intro add32_id) simp
  have goal: "take r (if cb_index b + r < cb_size b then take r (drop (cb_index b) (cb_ring b))
      else take (cb_size b - cb_index b) (drop (cb_index b) (cb_ring b))
        @ take (sub32 len (cb_size b - cb_index b)) (cb_ring b)) = ring_get (cb_ring b) (cb_index b) r"
  proof (cases "cb_index b + r < cb_size b")
    case True
    then show ?thesis using b(2) by (intro nth_equalityI) (simp_all add: mem_simps)
  next
    case False
    then have "r \<le> cb_size b - cb_index b + sub32 len (cb_size b - cb_index b)"
      using assms(3) b(1,5) ru by (simp add: sub32_id)
    then show ?thesis
      using False b(2,5) ru(1,3)
      by (intro nth_equalityI) (auto simp: mem_simps nth_append le_mod_geq add.commute)
  qed
  have pk: "cb_peek len b = (if cb_used b = 0 then (0, []) else
      (r, if cb_index b + r < cb_size b then take r (drop (cb_index b) (cb_ring b))
          else take (cb_size b - cb_index b) (drop (cb_index b) (cb_ring b))
            @ take (sub32 len (cb_size b - cb_index b)) (cb_ring b)))"
  proof -
    have "(if len < cb_used b then len else cb_used b) = r" using r by simp
    then show ?thesis unfolding cb_peek_def Let_def used b(7) by (simp only: w) simp
  qed
  have "take len (contents b) = ring_get (cb_ring b) (cb_index b) r"
    using r take_ring_get [of r "cb_used b" "cb_ring b" "cb_index b"]
    by (cases "len \<le> cb_used b") (simp_all add: contents_def take_ring_get)
  then show ?thesis
    unfolding pk r [symmetric] using goal r by (cases "cb_used b = 0") simp_all
qed

theorem peek_first_round_witness: "fst (cb_peek 4 ring_example) = 0"
proof -
  have "cb_tail ring_example \<le> cb_mask ring_example"
    by (simp add: ring_example_def cb_init_def split: prod.split)
  then show ?thesis using peek_first_round [OF ring_example(1), of 4] ring_example(6) by simp
qed

text \<open>
  From the second round on \<open>Peek\<close> takes the round count for part of the index. On an empty
  buffer it then reports as many bytes as were asked for, instead of none.
\<close>

theorem peek_empty_later_round:
  assumes "cb_ok b" "contents b = []" "cb_mask b < cb_tail b" "0 < len" "len \<le> cb_size b"
  shows "fst (cb_peek len b) = len"
proof -
  note b = cb_ok_bounds [OF assms(1)] and u = used_eq [OF assms(1)]
  obtain k where k: "1 \<le> k" "k \<le> 31" "cb_mask b = 2 ^ k - 1" "cb_modulo b = 2 ^ (32 - k)" "1 + cb_mask b = 2 ^ k"
    "cb_size b < 2 ^ k" "cb_index b = cb_tail b mod 2 ^ k" "cb_tail b div (1 + cb_mask b) < 2 ^ (32 - k)"
    using tail_parts [OF assms(1)] .
  obtain c where c: "c = cb_tail b div 2 ^ k" by blast
  have h: "cb_head b = cb_index b" using u(1) assms(2) b(4,5) by (auto simp: contents_Nil split: if_splits)
  have t: "cb_tail b = cb_index b + c * 2 ^ k" using k(7) c by (metis mod_mult_div_eq mult.commute)
  have "Suc c \<le> 2 ^ (32 - k)" using k(5,8) c by simp
  then have "Suc c * 2 ^ k \<le> 2 ^ (32 - k) * 2 ^ k" by (rule mult_right_mono) simp
  also have "\<dots> = (2 :: nat) ^ 32" using k(2) by (simp flip: power_add)
  finally have le: "c * 2 ^ k + 2 ^ k \<le> (2 :: nat) ^ 32" by simp
  have "2 ^ k \<le> cb_tail b" using assms(3) k(5) by linarith
  then have "c \<noteq> 0" using c by (auto simp: div_eq_0_iff)
  then have pos: "0 < c * 2 ^ k" by simp
  have pow: "2 ^ k \<le> c * 2 ^ k" using \<open>c \<noteq> 0\<close> by simp
  have d: "cb_tail b - cb_head b = c * 2 ^ k" "\<not> cb_tail b \<le> cb_head b" using t h pos by simp_all
  have "sub32 (cb_size b) (c * 2 ^ k) = cb_size b + (2 ^ 32 - c * 2 ^ k)"
  proof -
    have p: "1 \<le> (2 :: nat) ^ k" by simp
    have "c * 2 ^ k < 2 ^ 32" using le p by linarith
    moreover have "cb_size b + (2 ^ 32 - c * 2 ^ k) < 2 ^ 32" using pow le k(6) by linarith
    ultimately show ?thesis unfolding sub32_def by (simp only: mod_less)
  qed
  then have "len < used_between b (cb_head b) (cb_tail b)"
    using d assms(5) le k(6) by (simp add: used_between_def)
  then show ?thesis using assms(4) by (simp add: cb_peek_def Let_def)
qed

theorem peek_empty_later_round_witness:
  "fst (cb_peek 2 \<lparr>cb_ring = [0, 0, 0], cb_head = 1, cb_tail = 5, cb_mask = 3, cb_modulo = 2 ^ 30, cb_size = 3,
     cb_state = 0, cb_lockPID = 0, cb_reserved = 0, cb_reservedWritten = 0, cb_reservedPID = 0\<rparr>) = 2"
proof -
  have i: "(5 :: nat) AND 3 = 1" by simp
  show ?thesis
    by (rule peek_empty_later_round)
       (auto simp: cb_ok_def contents_Nil cb_used_def cb_index_def used_between_def i intro!: exI [of _ 2])
qed

subsection \<open>The lock between processes\<close>

lemma isLocked_odd: "cb_isLocked b \<longleftrightarrow> odd (cb_state b)"
  by (simp add: cb_isLocked_def and_one_eq odd_iff_mod_2_eq_one)

lemma lock_taken:
  assumes "cb_lock pid dataPresent timeLeft wakes b = Some (ERROR_NONE, b')"
  shows "\<exists>b0. \<not> cb_isLocked b0 \<and> (dataPresent \<longrightarrow> 0 < cb_used b0)
    \<and> b' = b0\<lparr>cb_state := cb_state b0 OR LOCKED, cb_lockPID := pid\<rparr>"
  using assms
proof (induction wakes arbitrary: timeLeft b)
  case Nil
  then show ?case by (subst (asm) cb_lock.simps) (auto split: if_splits)
next
  case (Cons w ws)
  from Cons.prems show ?case
    by (subst (asm) cb_lock.simps) (auto simp: Let_def split: if_splits dest: Cons.IH)
qed

text \<open>
  Whoever gets the lock, however often it had to wait and whatever others did to the buffer
  meanwhile, found it free at that moment (and with data, if it asked for data), is its recorded
  owner, and is the only one who can give it back; giving it back frees it.
\<close>

theorem lock_is_exclusive:
  assumes "cb_lock pid dataPresent timeLeft wakes b = Some (ERROR_NONE, b')"
  shows "(\<exists>b0. \<not> cb_isLocked b0 \<and> (dataPresent \<longrightarrow> 0 < cb_used b0)
      \<and> b' = b0\<lparr>cb_state := cb_state b0 OR LOCKED, cb_lockPID := pid\<rparr>)
    \<and> cb_isLocked b' \<and> (\<forall>other. other \<noteq> pid \<longrightarrow> cb_unlock other b' = (ERROR_ILLEGAL_STATE, b'))
    \<and> fst (cb_unlock pid b') = ERROR_NONE \<and> \<not> cb_isLocked (snd (cb_unlock pid b'))
    \<and> cb_lock other dataPresent 0 ws b' = Some (ERROR_TIMEDOUT, b')"
proof -
  obtain b0 where b0: "\<not> cb_isLocked b0" "dataPresent \<longrightarrow> 0 < cb_used b0"
    "b' = b0\<lparr>cb_state := cb_state b0 OR LOCKED, cb_lockPID := pid\<rparr>"
    using lock_taken [OF assms] by blast
  have l: "cb_isLocked b'" "cb_lockPID b' = pid" using b0(3) by (simp_all add: isLocked_odd even_or_iff)
  have "\<not> odd (cb_state b' AND NOT LOCKED)" by (simp add: even_and_iff even_not_iff)
  with l b0 show ?thesis
    by (auto simp: cb_unlock_def isLocked_odd cb_lock.simps)
qed

theorem lock_is_exclusive_witness:
  "cb_isLocked (ring_example\<lparr>cb_state := cb_state ring_example OR LOCKED, cb_lockPID := 7\<rparr>)"
proof -
  have "\<not> cb_isLocked ring_example"
    by (simp add: ring_example_def cb_init_def isLocked_odd split: prod.split)
  then have "cb_lock 7 False 0 [] ring_example =
      Some (ERROR_NONE, ring_example\<lparr>cb_state := cb_state ring_example OR LOCKED, cb_lockPID := 7\<rparr>)"
    by (simp add: cb_lock.simps)
  from lock_is_exclusive [OF this] show ?thesis by blast
qed

text \<open>
  The deadline of a timed wait is the time asked for only when the nanoseconds do not carry
  into the seconds; when they do, the deadline is a whole second early, for short waits in the past.
\<close>

theorem deadline_loses_carry:
  assumes "snd now < 1000000000"
  shows "fst (signal_deadline waitTime now) * 1000000000 + snd (signal_deadline waitTime now)
      + (if snd now + waitTime mod 1000 * 1000000 < 1000000000 then 0 else 1000000000)
    = fst now * 1000000000 + snd now + waitTime * 1000000"
proof -
  obtain q r where q: "q = waitTime div 1000" and r: "r = waitTime mod 1000" by blast
  have w: "waitTime = q * 1000 + r" "r < 1000" by (simp_all add: q r)
  have "(snd now + r * 1000 * 1000) mod 1000000000 =
      (if snd now + r * 1000000 < 1000000000 then snd now + r * 1000000 else snd now + r * 1000000 - 1000000000)"
    using assms w(2) by (simp add: le_mod_geq mult.commute)
  then show ?thesis
    using assms unfolding signal_deadline_def fst_conv snd_conv q [symmetric] r [symmetric] by (simp add: w(1))
qed

theorem deadline_loses_carry_witness:
  "signal_deadline 200 (10, 900000000) = (10, 100000000)
   \<and> fst (signal_deadline 200 (10, 900000000)) * 1000000000 + snd (signal_deadline 200 (10, 900000000)) + 1000000000
     = 11100000000"
  using deadline_loses_carry [of "(10, 900000000)" 200] by (simp add: signal_deadline_def)

text \<open>
  A buffer that is given a region of a shared file gets an aligned one inside the file, at or
  after the offset asked for, as long as the sum of offset and size fits 32 bits.
\<close>

theorem region_in_file:
  assumes "cb_region align fileSize offset bufferSize = Some (start, len)"
    and "0 < align" "offset + align + fileSize \<le> 2 ^ 32"
  shows "align dvd start \<and> offset \<le> start \<and> start + len \<le> fileSize"
proof -
  have up: "start = (offset + (align - 1)) div align * align"
    using assms by (auto simp: cb_region_def round_up_def Let_def add32_id split: if_splits)
  have "(offset + (align - 1)) div align * align + (offset + (align - 1)) mod align = offset + (align - 1)"
    by simp
  moreover have "(offset + (align - 1)) mod align < align" using assms(2) by simp
  ultimately have s: "offset \<le> start" "start \<le> offset + (align - 1)" using up by linarith+
  have "len \<le> fileSize" using assms(1) by (auto simp: cb_region_def Let_def split: if_splits)
  then have "add32 start len = start + len" using s assms(2,3) by (intro add32_id) linarith
  then show ?thesis
    using assms(1) s(1) up by (auto simp: cb_region_def Let_def split: if_splits)
qed

theorem region_in_file_witness: "cb_region 8 4096 100 0 = Some (104, 3992)"
proof -
  have r: "cb_region 8 4096 100 0 = Some (104, 3992)"
    by (simp add: cb_region_def round_up_def add32_def)
  from region_in_file [OF r] have "104 + 3992 \<le> (4096 :: nat)" by simp
  with r show ?thesis by simp
qed

end
