(* ===== verification/Message_Buffer.thy ===== *)
theory Message_Buffer
  imports Cyclic_Buffer
begin

text \<open>
  \<open>Messaging::MessageDataBuffer\<close> (\<^verbatim>\<open>Source/messaging/MessageDispatcher.h\<close>): messages of
  up to 64 KB in a cyclic buffer, each behind two bytes with its full length. The two size methods
  it overrides, pushing and popping, and the proof that the buffer is a queue of messages that
  drops the oldest ones when it needs room.
\<close>

subsection \<open>Operations\<close>

text \<open>A \<^verbatim>\<open>uint16_t\<close> as the two bytes it has in memory (little endian), and back.\<close>

definition le16 :: "nat \<Rightarrow> u8 list" where
  "le16 n = [of_nat (n mod 256), of_nat (n div 256 mod 256)]"

definition le16_value :: "u8 list \<Rightarrow> nat" where
  "le16_value bytes = unat (bytes ! 0) + 256 * unat (bytes ! 1)"

partial_function (option) overwrite_loop :: "cbuf \<Rightarrow> cursor \<Rightarrow> cursor option" where
  "overwrite_loop b cu =
     (if cu_offset cu < cu_size cu
      then overwrite_loop b (cursor_forward cu (le16_value (cursor_peek b cu 2)))
      else Some cu)"

definition message_overwrite_size :: size_policy where
  "message_overwrite_size b cu = map_option (\<lambda>cu. (cu_offset cu, cu)) (overwrite_loop b cu)"

definition message_read_size :: size_policy where
  "message_read_size b cu =
     (let entrySize = le16_value (cursor_peek b cu 2); cu = cursor_forward cu 2
      in Some (if 2 < entrySize then entrySize - 2 else 0, cu))"

definition push_data :: "nat \<Rightarrow> u8 list \<Rightarrow> cbuf \<Rightarrow> (error_code \<times> cbuf) option" where
  "push_data pid value b =
     (let fullLength = (2 + length value) mod 2 ^ 16 in
      case cb_reserve message_overwrite_size pid fullLength b of
        None \<Rightarrow> None
      | Some (reserved, b) \<Rightarrow>
          if fullLength \<le> reserved mod 2 ^ 16 then
            case cb_write message_overwrite_size (le16 fullLength) b of
              None \<Rightarrow> None
            | Some (_, b) \<Rightarrow>
                map_option (\<lambda>(_, b). (ERROR_NONE, b)) (cb_write message_overwrite_size value b)
          else Some (ERROR_WRITE_ERROR, b))"

text \<open>\<open>PopData\<close> into a buffer of \<open>outLength\<close> bytes: the result, the new \<open>outLength\<close> and the bytes.\<close>

definition pop_data :: "nat \<Rightarrow> cbuf \<Rightarrow> (error_code \<times> nat \<times> u8 list \<times> cbuf) option" where
  "pop_data outLength b =
     (case cb_read message_read_size outLength True b of
        None \<Rightarrow> None
      | Some (len, bytes, b) \<Rightarrow>
          Some (if 0 < len then (if outLength < len then ERROR_GENERAL else ERROR_NONE) else ERROR_READ_ERROR,
                len mod 2 ^ 16, bytes, b))"

definition flush_data :: "cbuf \<Rightarrow> cbuf" where
  "flush_data b = cb_flush b"

subsection \<open>The queue of messages\<close>

definition encode :: "u8 list \<Rightarrow> u8 list" where
  "encode m = le16 (length m + 2) @ m"

definition message_ok :: "u8 list \<Rightarrow> bool" where
  "message_ok m \<longleftrightarrow> m \<noteq> [] \<and> length m + 2 < 2 ^ 16"

definition holds_messages :: "cbuf \<Rightarrow> u8 list list \<Rightarrow> bool" where
  "holds_messages b ms \<longleftrightarrow> contents b = concat (map encode ms) \<and> (\<forall>m\<in>set ms. message_ok m)"

text \<open>
  The queue with as many old messages dropped as it takes to free \<open>n\<close> bytes: the contract of
  the buffer for a writer that needs room.
\<close>

fun drop_bytes :: "nat \<Rightarrow> u8 list list \<Rightarrow> u8 list list" where
  "drop_bytes n [] = []"
| "drop_bytes n (m # ms) = (if n = 0 then m # ms else drop_bytes (n - (length m + 2)) ms)"

definition queue_bytes :: "u8 list list \<Rightarrow> nat" where
  "queue_bytes ms = length (concat (map encode ms))"

definition queue_push :: "nat \<Rightarrow> u8 list \<Rightarrow> u8 list list \<Rightarrow> u8 list list" where
  "queue_push sz m ms = drop_bytes (queue_bytes ms + length m + 3 - sz) ms @ [m]"

lemma length_le16 [simp]: "length (le16 n) = 2"
  by (simp add: le16_def)

lemma le16_value_le16: "n < 2 ^ 16 \<Longrightarrow> le16_value (le16 n @ xs) = n"
proof -
  assume "n < 2 ^ 16"
  then have "n div 256 mod 256 = n div 256" by simp
  then show ?thesis by (simp add: le16_def le16_value_def unat_of_nat)
qed

lemma length_encode [simp]: "length (encode m) = length m + 2"
  by (simp add: encode_def)

lemma queue_bytes_simps [simp]:
  "queue_bytes [] = 0" "queue_bytes (m # ms) = length m + 2 + queue_bytes ms"
  "queue_bytes (ms @ ms') = queue_bytes ms + queue_bytes ms'"
  by (simp_all add: queue_bytes_def)

lemma holds_messages_used: "holds_messages b ms \<Longrightarrow> cb_used b = queue_bytes ms"
  using length_contents [of b] by (simp add: holds_messages_def queue_bytes_def)

subsection \<open>Looking at a header\<close>

lemma cursor_peek_contents:
  assumes "cb_ok b" "cu_tail cu = cb_tail b" "cu_offset cu + n \<le> cb_used b"
  shows "cursor_peek b cu n = take n (drop (cu_offset cu) (contents b))"
proof -
  note b = cb_ok_bounds [OF assms(1)] and u = used_eq(3) [OF assms(1)]
  have w: "add32 (cb_index b) (cu_offset cu) = cb_index b + cu_offset cu"
    using assms(3) u b(1,5) by (intro add32_id) simp
  have s: "(cb_index b + cu_offset cu) mod cb_size b < cb_size b" using b(3) by simp
  have p: "(2 :: nat) ^ 31 + 2 ^ 31 = 2 ^ 32" by simp
  have i: "add32 ((cb_index b + cu_offset cu) mod cb_size b) i mod cb_size b = (cb_index b + cu_offset cu + i) mod cb_size b"
    if "i < n" for i
  proof -
    have "add32 ((cb_index b + cu_offset cu) mod cb_size b) i = (cb_index b + cu_offset cu) mod cb_size b + i"
      using that assms(3) u b(1) s p by (intro add32_id) linarith
    then show ?thesis by (simp add: mod_simps)
  qed
  have "cursor_peek b cu n = ring_get (cb_ring b) (cb_index b + cu_offset cu) n"
    using i by (simp add: cursor_peek_def assms(2) b(7) w Let_def ring_get_def b(2))
  also have "\<dots> = take n (drop (cu_offset cu) (contents b))"
    using assms(3) by (simp add: contents_def drop_ring_get take_ring_get)
  finally show ?thesis .
qed

text \<open>A cursor at the start of a message sees its length.\<close>

lemma header_value:
  assumes "cb_ok b" "cu_tail cu = cb_tail b" "drop (cu_offset cu) (contents b) = encode m @ rest" "message_ok m"
  shows "le16_value (cursor_peek b cu 2) = length m + 2"
proof -
  have "length (drop (cu_offset cu) (contents b)) = length m + 2 + length rest" by (simp add: assms(3))
  then have "cu_offset cu + 2 \<le> cb_used b" by simp
  then have "cursor_peek b cu 2 = take 2 (encode m @ rest)"
    using cursor_peek_contents [OF assms(1,2)] assms(3) by simp
  then show ?thesis using assms(4) le16_value_le16 [of "length m + 2" "[]"] by (simp add: encode_def message_ok_def)
qed

lemma overwrite_loop_messages:
  assumes "cb_ok b" "cu_tail cu = cb_tail b" "cu_size cu \<le> cb_used b"
    and "drop (cu_offset cu) (contents b) = concat (map encode rest)" "\<forall>m\<in>set rest. message_ok m"
    and "cu_offset cu \<le> cb_used b"
  shows "\<exists>k. overwrite_loop b cu = Some (cu\<lparr>cu_offset := k\<rparr>) \<and> cu_size cu \<le> k \<and> k \<le> cb_used b
    \<and> drop k (contents b) = concat (map encode (drop_bytes (cu_size cu - cu_offset cu) rest))"
  using assms(2-)
proof (induction rest arbitrary: cu)
  case Nil
  then have "cb_used b \<le> cu_offset cu" using length_contents [of b] by simp
  then show ?case using Nil by (intro exI [of _ "cu_offset cu"]) (simp add: overwrite_loop.simps)
next
  case (Cons m rest)
  show ?case
  proof (cases "cu_offset cu < cu_size cu")
    case False
    then show ?thesis using Cons.prems by (intro exI [of _ "cu_offset cu"]) (simp add: overwrite_loop.simps)
  next
    case True
    let ?cu = "cu\<lparr>cu_offset := cu_offset cu + (length m + 2)\<rparr>"
    have h: "le16_value (cursor_peek b cu 2) = length m + 2"
      using Cons.prems by (intro header_value [OF assms(1)]) auto
    have "length (drop (cu_offset cu) (contents b)) = length (encode m @ concat (map encode rest))"
      using Cons.prems(3) by simp
    then have o': "cu_offset cu + (length m + 2) \<le> cb_used b" by simp
    then have "cu_offset cu + (length m + 2) < 2 ^ 32"
      using used_eq(3) [OF assms(1)] cb_ok_bounds(1) [OF assms(1)] by simp
    then have f: "cursor_forward cu (length m + 2) = ?cu"
      by (simp add: cursor_forward_def add32_id)
    have "drop (cu_offset ?cu) (contents b) = drop (length m + 2) (drop (cu_offset cu) (contents b))"
      by (simp add: add.commute)
    also have "\<dots> = concat (map encode rest)" using Cons.prems(3) by simp
    finally have d: "drop (cu_offset ?cu) (contents b) = concat (map encode rest)" .
    obtain k where "overwrite_loop b ?cu = Some (?cu\<lparr>cu_offset := k\<rparr>)" "cu_size ?cu \<le> k" "k \<le> cb_used b"
        "drop k (contents b) = concat (map encode (drop_bytes (cu_size ?cu - cu_offset ?cu) rest))"
      using Cons.IH [of ?cu] Cons.prems d o' by auto
    moreover have "overwrite_loop b cu = overwrite_loop b ?cu"
      using True by (subst overwrite_loop.simps) (simp only: h f if_True)
    ultimately show ?thesis using True by (intro exI [of _ k]) simp
  qed
qed

lemma set_drop_bytes: "set (drop_bytes n ms) \<subseteq> set ms"
  by (induction n ms rule: drop_bytes.induct) auto

lemma advance_messages:
  assumes "cb_ok b" "holds_messages b ms" "k \<le> cb_used b" "drop k (contents b) = concat (map encode ms')" "set ms' \<subseteq> set ms"
  shows "holds_messages (cb_advance b k) ms'"
  using assms advance_ok(4) [OF assms(1,3)] by (auto simp: holds_messages_def)

interpretation messages: overwrite_policy "\<lambda>b. \<exists>ms. holds_messages b ms" message_overwrite_size
proof unfold_locales
  fix b n
  assume b: "cb_ok b" and m: "\<exists>ms. holds_messages b ms" and n: "0 < n" "n \<le> cb_used b"
  obtain ms where ms: "holds_messages b ms" using m by blast
  obtain k where k: "overwrite_loop b \<lparr>cu_tail = cb_tail b, cu_size = n, cu_offset = 0\<rparr> =
      Some \<lparr>cu_tail = cb_tail b, cu_size = n, cu_offset = k\<rparr>" "n \<le> k" "k \<le> cb_used b"
      "drop k (contents b) = concat (map encode (drop_bytes n ms))"
    using overwrite_loop_messages [OF b, of "\<lparr>cu_tail = cb_tail b, cu_size = n, cu_offset = 0\<rparr>" ms] ms n
    by (auto simp: holds_messages_def)
  have "holds_messages (cb_advance b k) (drop_bytes n ms)"
    by (rule advance_messages [OF b ms k(3,4) set_drop_bytes])
  with k show "\<exists>k cu. message_overwrite_size b \<lparr>cu_tail = cb_tail b, cu_size = n, cu_offset = 0\<rparr> = Some (k, cu) \<and>
        cu_tail cu = cb_tail b \<and> n \<le> k \<and> k \<le> cb_used b \<and> (\<exists>ms. holds_messages (cb_advance b k) ms)"
    by (auto simp: message_overwrite_size_def)
qed

subsection \<open>Pushing\<close>

lemma reserved_frames [simp]:
  "cb_used (b\<lparr>cb_reservedPID := p\<rparr>) = cb_used b" "contents (b\<lparr>cb_reservedPID := p\<rparr>) = contents b"
  "cb_used (b\<lparr>cb_reserved := n\<rparr>) = cb_used b" "contents (b\<lparr>cb_reserved := n\<rparr>) = contents b"
  "cb_used (b\<lparr>cb_reservedWritten := n\<rparr>) = cb_used b" "contents (b\<lparr>cb_reservedWritten := n\<rparr>) = contents b"
  "cb_free (b\<lparr>cb_reservedPID := p\<rparr>) = cb_free b" "cb_isOverwrite (b\<lparr>cb_reservedPID := p\<rparr>) = cb_isOverwrite b"
  "cb_ok (b\<lparr>cb_reservedPID := p\<rparr>) = cb_ok b" "cb_ok (b\<lparr>cb_reserved := n\<rparr>) = cb_ok b"
  "cb_ok (b\<lparr>cb_reservedWritten := n\<rparr>) = cb_ok b"
  by (simp_all add: cb_used_def cb_free_def contents_def cb_isOverwrite_def cb_ok_def used_between_def free_between_def)

lemma holds_messages_reserved [simp]: "holds_messages (b\<lparr>cb_reservedPID := p\<rparr>) ms = holds_messages b ms"
  by (simp add: holds_messages_def)

lemma dropped_messages:
  assumes "cb_ok b" "holds_messages b ms" "n \<le> cb_used b"
  shows "holds_messages (cb_advance b (messages.dropped b n)) (drop_bytes n ms)"
proof -
  obtain k where k: "overwrite_loop b \<lparr>cu_tail = cb_tail b, cu_size = n, cu_offset = 0\<rparr> =
      Some \<lparr>cu_tail = cb_tail b, cu_size = n, cu_offset = k\<rparr>" "n \<le> k" "k \<le> cb_used b"
      "drop k (contents b) = concat (map encode (drop_bytes n ms))"
    using overwrite_loop_messages [OF assms(1), of "\<lparr>cu_tail = cb_tail b, cu_size = n, cu_offset = 0\<rparr>" ms] assms(2,3)
    by (auto simp: holds_messages_def)
  then have "messages.dropped b n = k" by (simp add: messages.dropped_def message_overwrite_size_def)
  then show ?thesis using advance_messages [OF assms(1,2) k(3,4) set_drop_bytes] by simp
qed

lemma drop_bytes_0 [simp]: "drop_bytes 0 ms = ms"
  by (cases ms) simp_all

lemma reserve_messages:
  assumes "cb_ok b" "holds_messages b ms" "cb_reservedPID b = 0" "len < cb_size b" "cb_isOverwrite b \<or> len < cb_free b"
  obtains b' where "cb_reserve message_overwrite_size pid len b =
      Some (len, b'\<lparr>cb_reservedPID := pid, cb_reserved := len, cb_reservedWritten := 0\<rparr>)"
    "cb_ok b'" "holds_messages b' (drop_bytes (len + 1 - cb_free b) ms)" "cb_used b' + len < cb_size b"
    "cb_size b' = cb_size b" "cb_state b' = cb_state b"
proof -
  let ?b = "b\<lparr>cb_reservedPID := pid\<rparr>"
  have ok: "cb_ok ?b" and w: "\<exists>ms. holds_messages ?b ms" and ln: "len < cb_size ?b" using assms by auto
  obtain k where k: "assure_free_space message_overwrite_size len ?b = Some (cb_advance ?b k)" "k \<le> cb_used ?b"
    "cb_ok (cb_advance ?b k)" "\<exists>ms. holds_messages (cb_advance ?b k) ms" "cb_used ?b - k + len < cb_size ?b"
    "k = (if len < cb_free ?b then 0 else messages.dropped ?b (len + 1 - cb_free ?b))"
    using messages.assure_room [OF ok w ln] .
  obtain b' where b': "b' = cb_advance ?b k" by blast
  have "b'\<lparr>cb_reservedPID := pid, cb_reserved := len, cb_reservedWritten := 0\<rparr> = b'\<lparr>cb_reserved := len, cb_reservedWritten := 0\<rparr>"
    by (simp add: b' cb_advance_def)
  then have r: "cb_reserve message_overwrite_size pid len b =
      Some (len, b'\<lparr>cb_reservedPID := pid, cb_reserved := len, cb_reservedWritten := 0\<rparr>)"
    using assms(3-5) k(1) by (auto simp: cb_reserve_def b' Let_def)
  have m: "holds_messages b' (drop_bytes (len + 1 - cb_free b) ms)"
  proof (cases "len < cb_free b")
    case True
    then show ?thesis using assms(2) k(6) advance_0 [OF ok] by (simp add: b')
  next
    case False
    then have "len + 1 - cb_free b \<le> cb_used b" using used_eq(2,3) [OF assms(1)] assms(4) by simp
    then show ?thesis using dropped_messages [OF ok, of ms "len + 1 - cb_free b"] assms(2) k(6) False by (simp add: b')
  qed
  have "cb_used b' + len < cb_size b" using k(5) advance_ok(3) [OF ok k(2)] by (simp add: b')
  with r m k(3) show thesis using that by (simp add: b')
qed

lemma push_data_state:
  assumes "cb_ok b" "holds_messages b ms" "cb_reservedPID b = 0" "cb_isOverwrite b" "pid \<noteq> 0"
    and "message_ok m" "length m + 2 < cb_size b"
  obtains b' where "push_data pid m b = Some (ERROR_NONE, b')" "cb_ok b'" "holds_messages b' (queue_push (cb_size b) m ms)"
    "cb_size b' = cb_size b" "cb_state b' = cb_state b" "cb_reservedPID b' = 0"
proof -
  obtain c where c: "cb_reserve message_overwrite_size pid (length m + 2) b =
      Some (length m + 2, c\<lparr>cb_reservedPID := pid, cb_reserved := length m + 2, cb_reservedWritten := 0\<rparr>)"
    "cb_ok c" "holds_messages c (drop_bytes (length m + 2 + 1 - cb_free b) ms)" "cb_used c + (length m + 2) < cb_size b"
    "cb_size c = cb_size b" "cb_state c = cb_state b"
    using reserve_messages [OF assms(1-3,7), of pid] assms(4) by blast
  have full: "(2 + length m) mod 2 ^ 16 = length m + 2" "0 < length m" "2 + length m < 2 ^ 32"
    using assms(6) by (auto simp: message_ok_def)
  obtain r1 where r1: "r1 = ring_put (cb_ring c) (cb_head c mod cb_size c) (le16 (length m + 2))" by blast
  have "cb_used c + 0 + length (le16 (length m + 2)) < cb_size c" using c(4,5) by simp
  note p1 = put_behind_head [OF c(2) this, unfolded add_0_right, folded r1]
  note m1 = ring_moved [OF c(2) p1(1)]
  obtain r2 where r2: "r2 = ring_put r1 ((cb_head c + 2) mod cb_size c) m" by blast
  have "cb_used (c\<lparr>cb_ring := r1\<rparr>) + 2 + length m < cb_size (c\<lparr>cb_ring := r1\<rparr>)" using c(4,5) m1(2) by simp
  note p2 = put_behind_head [OF m1(1) this]
  have l2: "length r2 = cb_size c" using p2(1) by (simp add: r2)
  have n: "cb_used c + 2 + length m < cb_size c" using c(4,5) by simp
  obtain b' where b': "b' = c\<lparr>cb_ring := r2, cb_head := (cb_index c + (cb_used c + 2 + length m)) mod cb_size c,
      cb_reservedPID := 0, cb_reserved := length m + 2, cb_reservedWritten := length m + 2\<rparr>" by blast
  have h: "((cb_head c + 2) mod cb_size c + length m) mod cb_size c = (cb_index c + (cb_used c + 2 + length m)) mod cb_size c"
    using put_behind_head(4) [OF c(2), of "2 + length m" "[]"] n by (simp add: mod_simps add.assoc)
  have w1: "cb_write message_overwrite_size (le16 (length m + 2))
      (c\<lparr>cb_reservedPID := pid, cb_reserved := length m + 2, cb_reservedWritten := 0\<rparr>) =
      Some (2, c\<lparr>cb_ring := r1, cb_reservedPID := pid, cb_reserved := length m + 2, cb_reservedWritten := 2\<rparr>)"
    using assms(5) full(2) by (simp add: cb_write_def Let_def add32_def r1)
  have w2: "cb_write message_overwrite_size m
      (c\<lparr>cb_ring := r1, cb_reservedPID := pid, cb_reserved := length m + 2, cb_reservedWritten := 2\<rparr>) =
      Some (length m, b')"
    using assms(5) full(3) h by (simp add: cb_write_def Let_def add32_id r2 b')
  have push: "push_data pid m b = Some (ERROR_NONE, b')"
    using c(1) full(1) w1 w2 by (simp add: push_data_def Let_def)
  let ?d = "c\<lparr>cb_ring := r2, cb_head := (cb_index c + (cb_used c + 2 + length m)) mod cb_size c\<rparr>"
  note hm = head_moved [OF c(2) l2 n]
  have "ring_get r2 (cb_index c) (cb_used c + 2 + length m) = ring_get r1 (cb_index c) (cb_used c + 2) @ m"
    using p2(2) m1(2) by (simp add: r2)
  also have "ring_get r1 (cb_index c) (cb_used c + 2) = contents c @ le16 (length m + 2)"
    using p1(2) by (simp add: contents_def)
  finally have ct: "contents ?d = contents c @ encode m" using hm(3) by (simp add: encode_def)
  have bd: "b' = ?d\<lparr>cb_reservedPID := 0, cb_reserved := length m + 2, cb_reservedWritten := length m + 2\<rparr>"
    by (simp add: b')
  have q: "length m + 2 + 1 - cb_free b = queue_bytes ms + length m + 3 - cb_size b"
    using used_eq(2,3) [OF assms(1)] holds_messages_used [OF assms(2)] by simp
  have "holds_messages b' (queue_push (cb_size b) m ms)"
    using c(3) ct assms(6) q unfolding bd holds_messages_def queue_push_def by auto
  moreover have "cb_ok b'" unfolding bd using hm(1) by simp
  ultimately show thesis using push that c(5,6) by (simp add: b')
qed

subsection \<open>Popping\<close>

lemma pop_data_state:
  assumes "cb_ok b" "holds_messages b (m # ms)"
    and n: "n = 2 + (if cb_size b < cb_index b + 2 then min len (length m) else length m)"
  shows "pop_data len b =
    Some (if length m \<le> len then ERROR_NONE else ERROR_GENERAL, length m, take len m, cb_advance b n)"
    and "n \<le> cb_used b"
proof -
  have c: "contents b = encode m @ concat (map encode ms)" and ok: "message_ok m"
    using assms(2) by (simp_all add: holds_messages_def)
  have used: "length m + 2 \<le> cb_used b" using holds_messages_used [OF assms(2)] by simp
  have lt: "2 + length m < cb_size b" using used used_eq(3) [OF assms(1)] by simp
  let ?cu = "\<lparr>cu_tail = cb_tail b, cu_size = len, cu_offset = 0\<rparr>"
  have v: "le16_value (cursor_peek b ?cu 2) = length m + 2"
    by (rule header_value [OF assms(1) _ _ ok]) (simp_all add: c)
  have rs: "message_read_size b ?cu = Some (length m, ?cu\<lparr>cu_offset := 2\<rparr>)"
    using ok v by (simp add: message_read_size_def cursor_forward_def add32_def Let_def message_ok_def)
  have rd: "cb_read message_read_size len True b =
      Some (length m, ring_get (cb_ring b) (cb_index b + 2) (min len (length m)), cb_advance b n)"
    using cb_read_entry [where readSize = message_read_size, OF assms(1) rs, of True n] lt ok n used
    by (simp add: message_ok_def contents_Nil)
  have "take len m = take (min len (length m)) (drop 2 (contents b))"
    by (simp add: c encode_def min_def)
  also have "\<dots> = ring_get (cb_ring b) (cb_index b + 2) (min len (length m))"
    using used by (simp add: contents_def drop_ring_get take_ring_get)
  finally have bytes: "ring_get (cb_ring b) (cb_index b + 2) (min len (length m)) = take len m" ..
  show "pop_data len b =
    Some (if length m \<le> len then ERROR_NONE else ERROR_GENERAL, length m, take len m, cb_advance b n)"
    unfolding pop_data_def rd bytes using ok by (simp add: message_ok_def)
  show "n \<le> cb_used b" using n used by (auto simp: min_def)
qed

lemma pop_data_rest:
  assumes "cb_ok b" "holds_messages b (m # ms)" "length m \<le> len \<or> cb_index b + 2 \<le> cb_size b"
  obtains b' where "pop_data len b = Some (if length m \<le> len then ERROR_NONE else ERROR_GENERAL, length m, take len m, b')"
    "cb_ok b'" "holds_messages b' ms" "cb_size b' = cb_size b" "cb_state b' = cb_state b" "cb_reservedPID b' = cb_reservedPID b"
proof -
  have n: "length m + 2 = 2 + (if cb_size b < cb_index b + 2 then min len (length m) else length m)"
    using assms(3) by auto
  note p = pop_data_state [OF assms(1,2) n]
  have "holds_messages (cb_advance b (length m + 2)) ms"
    using assms(2) by (intro advance_messages [OF assms(1,2) p(2)]) (auto simp: holds_messages_def)
  then show thesis using p(1) advance_ok(1) [OF assms(1) p(2)] that by simp
qed

subsection \<open>Properties\<close>

text \<open>
  C3: pushing a message that fits the buffer refines the bounded queue: it succeeds, the message
  becomes the newest, and exactly as many of the oldest messages are dropped, whole, as it takes to
  make room; none is dropped while there is room. The writer's loop over the old messages ends.
\<close>

theorem push_refines_queue:
  assumes "cb_ok b" "holds_messages b ms" "cb_reservedPID b = 0" "cb_isOverwrite b" "pid \<noteq> 0"
    and "message_ok m" "length m + 2 < cb_size b"
  shows "\<exists>b'. push_data pid m b = Some (ERROR_NONE, b') \<and> cb_ok b'
    \<and> holds_messages b' (queue_push (cb_size b) m ms) \<and> cb_reservedPID b' = 0"
proof -
  obtain b' where "push_data pid m b = Some (ERROR_NONE, b')" "cb_ok b'" "holds_messages b' (queue_push (cb_size b) m ms)"
    "cb_size b' = cb_size b" "cb_state b' = cb_state b" "cb_reservedPID b' = 0"
    using push_data_state [OF assms] .
  then show ?thesis by blast
qed

text \<open>
  C22: where the buffer of the caller holds the oldest message, or the two bytes of its header do not
  cross the end of the ring, popping takes that message out of the queue and returns its length and
  its bytes, as many as fit; with a buffer that is too small the result is ERROR_GENERAL and the rest
  of that message, but nothing else, is lost. What happens else is \<open>pop_loses_framing\<close> below.
\<close>

theorem pop_refines_queue:
  assumes "cb_ok b" "holds_messages b (m # ms)" "length m \<le> len \<or> cb_index b + 2 \<le> cb_size b"
  shows "\<exists>b'. pop_data len b = Some (if length m \<le> len then ERROR_NONE else ERROR_GENERAL, length m, take len m, b')
    \<and> cb_ok b' \<and> holds_messages b' ms"
proof -
  obtain b' where "pop_data len b = Some (if length m \<le> len then ERROR_NONE else ERROR_GENERAL, length m, take len m, b')"
    "cb_ok b'" "holds_messages b' ms" "cb_size b' = cb_size b" "cb_state b' = cb_state b" "cb_reservedPID b' = cb_reservedPID b"
    using pop_data_rest [OF assms] .
  then show ?thesis by blast
qed

text \<open>
  When the two bytes of the header lie on both sides of the end of the ring and the caller's
  buffer is too small, the tail is left in the middle of the message: what remains starts with the
  bytes that did not fit, and the next reader takes two of them for a length.
\<close>

theorem pop_loses_framing:
  assumes "cb_ok b" "holds_messages b (m # ms)" "cb_index b + 1 = cb_size b" "len < length m"
  shows "\<exists>b'. pop_data len b = Some (ERROR_GENERAL, length m, take len m, b') \<and> cb_ok b'
    \<and> contents b' = drop len m @ concat (map encode ms)"
proof -
  have n: "2 + len = 2 + (if cb_size b < cb_index b + 2 then min len (length m) else length m)"
    using assms(3,4) by simp
  note p = pop_data_state [OF assms(1,2) n]
  have "contents b = encode m @ concat (map encode ms)" using assms(2) by (simp add: holds_messages_def)
  then show ?thesis
    using p assms(4) advance_ok(1,4) [OF assms(1) p(2)] by (simp add: encode_def)
qed

text \<open>
  An empty buffer is ERROR_READ_ERROR with length 0 and is left alone, and a message that does
  not fit the buffer at all is refused with ERROR_WRITE_ERROR without dropping anything, unless its
  full length is no more than the number of the error that \<open>Reserve\<close> returns.
\<close>

theorem buffer_errors:
  assumes "cb_ok b"
  shows "(holds_messages b [] \<longrightarrow> pop_data len b = Some (ERROR_READ_ERROR, 0, [], b))
    \<and> (cb_size b \<le> length m + 2 \<and> error_value ERROR_INVALID_INPUT_LENGTH < length m + 2 \<and> length m + 2 < 2 ^ 16 \<longrightarrow>
         push_data pid m b = Some (ERROR_WRITE_ERROR, b))"
  using assms cb_read_empty [OF assms, of message_read_size len True]
  by (auto simp: pop_data_def push_data_def cb_reserve_def holds_messages_def Let_def)

lemma message_example:
  "\<exists>b. cb_ok b \<and> holds_messages b [[1, 2, 3]] \<and> cb_reservedPID b = 0 \<and> cb_isOverwrite b \<and> cb_size b = 8"
proof -
  have "holds_messages ring_example []" using ring_example by (simp add: holds_messages_def)
  moreover have "message_ok [1, 2, 3]" "length [1 :: u8, 2, 3] + 2 < cb_size ring_example"
    by (simp_all add: message_ok_def ring_example)
  ultimately obtain b' where "push_data 7 [1, 2, 3] ring_example = Some (ERROR_NONE, b')" "cb_ok b'"
    "holds_messages b' (queue_push (cb_size ring_example) [1, 2, 3] [])"
    "cb_size b' = cb_size ring_example" "cb_state b' = cb_state ring_example" "cb_reservedPID b' = 0"
    using push_data_state [OF ring_example(1) _ ring_example(5,4), of "[]" 7 "[1, 2, 3]"] by auto
  then show ?thesis using ring_example(3,4)
    by (intro exI [of _ b']) (simp add: queue_push_def cb_isOverwrite_def)
qed

theorem push_refines_queue_witness:
  "\<exists>b b'. holds_messages b [[1, 2, 3]] \<and> push_data 7 [4, 5] b = Some (ERROR_NONE, b') \<and> holds_messages b' [[4, 5]]"
proof -
  obtain b where b: "cb_ok b" "holds_messages b [[1, 2, 3]]" "cb_reservedPID b = 0" "cb_isOverwrite b" "cb_size b = 8"
    using message_example by blast
  have "message_ok [4, 5]" "length [4 :: u8, 5] + 2 < cb_size b" by (simp_all add: message_ok_def b)
  from push_refines_queue [OF b(1-4) _ this, of 7] show ?thesis using b(2,5) by (auto simp: queue_push_def)
qed

theorem pop_refines_queue_witness:
  "\<exists>b b'. holds_messages b [[1, 2, 3]] \<and> pop_data 10 b = Some (ERROR_NONE, 3, [1, 2, 3], b') \<and> holds_messages b' []"
proof -
  obtain b where b: "cb_ok b" "holds_messages b [[1, 2, 3]]" using message_example by blast
  from pop_refines_queue [OF b, of 10] show ?thesis using b(2) by auto
qed

theorem buffer_errors_witness:
  "pop_data 10 ring_example = Some (ERROR_READ_ERROR, 0, [], ring_example)"
  using buffer_errors [OF ring_example(1), of 10] ring_example by (simp add: holds_messages_def)

definition crossing_example :: cbuf where
  "crossing_example =
     \<lparr>cb_ring = [0, 1, 2, 3, 0, 0, 0, 5], cb_head = 4, cb_tail = 7, cb_mask = 15, cb_modulo = 2 ^ 28, cb_size = 8,
      cb_state = OVERWRITE, cb_lockPID = 0, cb_reserved = 0, cb_reservedWritten = 0, cb_reservedPID = 0\<rparr>"

lemma crossing_example:
  "cb_ok crossing_example" "holds_messages crossing_example [[1, 2, 3]]" "cb_index crossing_example = 7"
proof -
  show i: "cb_index crossing_example = 7" by (simp add: crossing_example_def cb_index_def)
  show "cb_ok crossing_example"
    unfolding cb_ok_def i by (auto simp: crossing_example_def intro!: exI [of _ 4])
  show "holds_messages crossing_example [[1, 2, 3]]"
    unfolding holds_messages_def contents_def cb_used_def i
    by (simp add: crossing_example_def used_between_def sub32_def ring_get_def encode_def le16_def message_ok_def upt_rec)
qed

theorem pop_loses_framing_witness:
  "\<exists>b'. pop_data 1 crossing_example = Some (ERROR_GENERAL, 3, [1], b') \<and> contents b' = [2, 3]"
proof -
  have "cb_size crossing_example = 8" by (simp add: crossing_example_def)
  then have "\<exists>b'. pop_data 1 crossing_example = Some (ERROR_GENERAL, length [1 :: u8, 2, 3], take 1 [1, 2, 3], b') \<and>
      cb_ok b' \<and> contents b' = drop 1 [1, 2, 3] @ concat (map encode [])"
    using pop_loses_framing [OF crossing_example(1,2), of 1] crossing_example(3) by simp
  then show ?thesis by (simp add: numeral_3_eq_3) blast
qed

end
