(* ===== verification/Web_Socket.thy ===== *)
theory Web_Socket
  imports Prelude
begin

text \<open>
  \<open>Web::WebSocket::Protocol\<close> (\<^verbatim>\<open>Source/websocket/WebSocketLink.h\<close> and
  \<^verbatim>\<open>WebSocketLink.cpp\<close>): the framing of web socket messages, in place in the buffer of the
  socket, and the loop of the link that takes received bytes apart. The random masking keys are
  arguments of the encoder.
\<close>

subsection \<open>State\<close>

abbreviation (input) CONTINUATION_FRAME :: u8 where "CONTINUATION_FRAME \<equiv> 0x00"
abbreviation (input) FINISHING_FRAME :: u8 where "FINISHING_FRAME \<equiv> 0x80"
abbreviation (input) TYPE_FRAME :: u8 where "TYPE_FRAME \<equiv> 0x0F"
abbreviation (input) MASKING_FRAME :: u8 where "MASKING_FRAME \<equiv> 0x80"
abbreviation (input) CONTROL_FRAME :: u8 where "CONTROL_FRAME \<equiv> 0x08"

abbreviation (input) FT_TEXT :: u8 where "FT_TEXT \<equiv> 0x01"
abbreviation (input) FT_BINARY :: u8 where "FT_BINARY \<equiv> 0x02"
abbreviation (input) FT_CLOSE :: u8 where "FT_CLOSE \<equiv> 0x08"
abbreviation (input) FT_PING :: u8 where "FT_PING \<equiv> 0x09"
abbreviation (input) FT_PONG :: u8 where "FT_PONG \<equiv> 0x0A"
abbreviation (input) FT_VIOLATION :: u8 where "FT_VIOLATION \<equiv> 0x10"
abbreviation (input) FT_INCONSISTENT :: u8 where "FT_INCONSISTENT \<equiv> 0x30"

abbreviation (input) REQUEST_CLOSE :: u8 where "REQUEST_CLOSE \<equiv> 0x01"
abbreviation (input) REQUEST_PING :: u8 where "REQUEST_PING \<equiv> 0x02"
abbreviation (input) REQUEST_PONG :: u8 where "REQUEST_PONG \<equiv> 0x04"

record protocol =
  ws_setFlags :: u8
  ws_progress :: u8
  ws_pending :: nat
  ws_frameType :: u8
  ws_key :: "u8 list"
  ws_control :: u8

definition new_protocol :: "bool \<Rightarrow> bool \<Rightarrow> protocol" where
  "new_protocol binary masking =
     \<lparr>ws_setFlags = (if masking then 0x80 else 0x00) OR (if binary then 0x02 else 0x01), ws_progress = 0,
      ws_pending = 0, ws_frameType = FT_TEXT, ws_key = [0, 0, 0, 0], ws_control = 0\<rparr>"

definition ws_ping :: "protocol \<Rightarrow> protocol" where
  "ws_ping p = p\<lparr>ws_control := ws_control p OR REQUEST_PING\<rparr>"

definition ws_pong :: "protocol \<Rightarrow> protocol" where
  "ws_pong p = p\<lparr>ws_control := ws_control p OR REQUEST_PONG\<rparr>"

definition ws_close :: "protocol \<Rightarrow> protocol" where
  "ws_close p = p\<lparr>ws_control := ws_control p OR REQUEST_CLOSE\<rparr>"

definition receive_in_progress :: "protocol \<Rightarrow> bool" where
  "receive_in_progress p \<longleftrightarrow> ws_progress p AND 0x80 \<noteq> 0"

definition send_in_progress :: "protocol \<Rightarrow> bool" where
  "send_in_progress p \<longleftrightarrow> ws_progress p AND 0x40 \<noteq> 0"

definition is_complete_message :: "protocol \<Rightarrow> bool" where
  "is_complete_message p \<longleftrightarrow> ws_pending p = 0"

definition ws_flush :: "protocol \<Rightarrow> protocol" where
  "ws_flush p = p\<lparr>ws_pending := 0\<rparr>"

definition set_binary :: "bool \<Rightarrow> protocol \<Rightarrow> protocol" where
  "set_binary binary p = p\<lparr>ws_setFlags := (ws_setFlags p AND 0xFC) OR (if binary then 0x02 else 0x01)\<rparr>"

definition set_masking :: "bool \<Rightarrow> protocol \<Rightarrow> protocol" where
  "set_masking masking p =
     p\<lparr>ws_setFlags := (if masking then ws_setFlags p OR 0x80 else ws_setFlags p AND 0x7F)\<rparr>"

definition mask_key :: "u32 \<Rightarrow> u8 list" where
  "mask_key v =
     [ucast (v AND 0xFF), ucast (drop_bit 8 v AND 0xFF), ucast (drop_bit 16 v AND 0xFF), ucast (drop_bit 24 v AND 0xFF)]"

subsection \<open>Encoder\<close>

text \<open>
  The payload starts at index 4. With a mask it moves up by \<open>k\<close> bytes, from its last byte down to
  its first, so that source and destination may overlap.
\<close>

fun mask_move :: "u8 list \<Rightarrow> nat \<Rightarrow> nat \<Rightarrow> u8 list \<Rightarrow> u8 list" where
  "mask_move key k 0 d = d"
| "mask_move key k (Suc n) d = mask_move key k n (d[4 + k + n := d ! (4 + n) XOR key ! (n AND 3)])"

definition encode_data :: "u32 \<Rightarrow> nat \<Rightarrow> nat \<Rightarrow> u8 list \<Rightarrow> protocol \<Rightarrow> nat \<times> u8 list \<times> protocol" where
  "encode_data random maxSendSize usedSize d p =
     (let masked = ws_setFlags p AND MASKING_FRAME;
          result = (if usedSize \<le> 125 then 2 else 4);
          key = mask_key random;
          d = (if masked = 0 then
                 (if result = 2 \<and> usedSize \<noteq> 0 then blit d 2 (take usedSize (drop 4 d)) else d)
               else blit (mask_move key result usedSize d) result key);
          result = (if masked = 0 then result else result + 4);
          d = (if usedSize \<le> 125 then d[1 := masked OR of_nat usedSize]
               else d[1 := masked OR 126, 2 := of_nat (usedSize div 256), 3 := of_nat (usedSize mod 256)]);
          opcode = (if send_in_progress p then CONTINUATION_FRAME else TYPE_FRAME AND ws_setFlags p)
      in if usedSize < maxSendSize
         then (result + usedSize, d[0 := FINISHING_FRAME OR opcode], p\<lparr>ws_progress := ws_progress p AND NOT 0x40\<rparr>)
         else (result + usedSize, d[0 := opcode], p\<lparr>ws_progress := ws_progress p OR 0x40\<rparr>))"

definition put_control :: "u8 \<Rightarrow> u8 \<Rightarrow> nat \<times> u8 list \<times> protocol \<Rightarrow> nat \<times> u8 list \<times> protocol" where
  "put_control request opcode = (\<lambda>(result, d, p).
     (result + 2, d[result := FINISHING_FRAME OR opcode, result + 1 := ws_setFlags p AND MASKING_FRAME],
      p\<lparr>ws_control := ws_control p AND NOT request\<rparr>))"

definition encode_control :: "u32 \<Rightarrow> nat \<Rightarrow> nat \<times> u8 list \<times> protocol \<Rightarrow> nat \<times> u8 list \<times> protocol" where
  "encode_control random maxSendSize = (\<lambda>(result, d, p).
     let masked = (ws_setFlags p AND MASKING_FRAME \<noteq> 0) in
     if ws_control p AND (REQUEST_CLOSE OR REQUEST_PING OR REQUEST_PONG) \<noteq> 0
        \<and> result + (if masked then 6 else 2) < maxSendSize
     then
       let wants = (\<lambda>request (result, d, p). ws_control p AND request \<noteq> 0);
           room = (\<lambda>(result, d, p). result + 1 < maxSendSize);
           s = (result, d, p);
           s = (if wants REQUEST_CLOSE s then put_control REQUEST_CLOSE FT_CLOSE s else s);
           s = (if wants REQUEST_PING s \<and> room s then put_control REQUEST_PING FT_PING s else s);
           s = (if wants REQUEST_PONG s \<and> room s then put_control REQUEST_PONG FT_PONG s else s)
       in (case s of (result, d, p) \<Rightarrow>
             if masked then (result + 4, blit d result (mask_key random), p) else (result, d, p))
     else (result, d, p))"

definition encoder :: "u32 \<Rightarrow> u32 \<Rightarrow> nat \<Rightarrow> nat \<Rightarrow> u8 list \<Rightarrow> protocol \<Rightarrow> nat \<times> u8 list \<times> protocol" where
  "encoder random1 random2 maxSendSize usedSize d p =
     encode_control random2 maxSendSize
       (if usedSize \<noteq> 0 \<or> send_in_progress p then encode_data random1 maxSendSize usedSize d p else (0, d, p))"

subsection \<open>Decoder\<close>

text \<open>Unmasking \<open>n\<close> bytes from index \<open>i\<close>; the low bits of the progress byte select the byte of the key.\<close>

fun unmask :: "(u8 \<Rightarrow> u8) \<Rightarrow> u8 list \<Rightarrow> nat \<Rightarrow> nat \<Rightarrow> u8 list \<Rightarrow> u8 \<Rightarrow> u8 list \<times> u8" where
  "unmask next_byte key 0 i d progress = (d, progress)"
| "unmask next_byte key (Suc n) i d progress =
     unmask next_byte key n (Suc i) (d[i := d ! i XOR key ! unat (progress AND 3)]) (next_byte progress)"

definition next_in_frame :: "u8 \<Rightarrow> u8" where
  "next_in_frame progress = (progress + 1) AND 0xF3"

definition next_pending :: "u8 \<Rightarrow> u8" where
  "next_pending progress = ((progress + 1) AND 0x03) OR (progress AND 0xFC)"

definition decode_pending :: "u8 list \<Rightarrow> nat \<Rightarrow> protocol \<Rightarrow> nat \<times> u8 list \<times> protocol" where
  "decode_pending d receivedSize p =
     (if ws_progress p AND 0x20 = 0x20 then
        let receivedSize = (if ws_pending p < receivedSize then ws_pending p else receivedSize);
            (d, progress) = unmask next_pending (ws_key p) receivedSize 0 d (ws_progress p)
        in (receivedSize, d, p\<lparr>ws_progress := progress, ws_pending := ws_pending p - receivedSize\<rparr>)
      else if receivedSize < ws_pending p then (receivedSize, d, p\<lparr>ws_pending := ws_pending p - receivedSize\<rparr>)
      else (ws_pending p, d, p\<lparr>ws_pending := 0\<rparr>))"

definition header_size :: "u8 list \<Rightarrow> nat" where
  "header_size d =
     (let bytesToMove = d ! 1 AND 0x7F
      in 2 + (if bytesToMove = 127 then 8 else if bytesToMove = 126 then 2 else 0)
           + (if d ! 1 AND MASKING_FRAME \<noteq> 0 then 4 else 0))"

definition payload_size :: "u8 list \<Rightarrow> nat" where
  "payload_size d =
     (let bytesToMove = d ! 1 AND 0x7F in
      if bytesToMove = 126 then unat (d ! 2) * 256 + unat (d ! 3)
      else if bytesToMove = 127
      then fold (\<lambda>i n. (n * 256 + unat (d ! i)) mod 2 ^ 64) [8, 7, 6, 5, 4, 3, 2] (unat (d ! 9))
      else unat bytesToMove)"

text \<open>The type of a new frame, from its first byte.\<close>

definition classify :: "u8 \<Rightarrow> protocol \<Rightarrow> protocol" where
  "classify b p =
     (let final = (b AND FINISHING_FRAME \<noteq> 0);
          p = p\<lparr>ws_frameType := b AND TYPE_FRAME\<rparr>;
          p = (if receive_in_progress p then
                 (if ws_frameType p = 0
                  then p\<lparr>ws_frameType := TYPE_FRAME AND ws_setFlags p,
                         ws_progress := ws_progress p AND (if final then 0x7F else 0xFF)\<rparr>
                  else p)
               else if \<not> final then p\<lparr>ws_progress := ws_progress p OR 0x80\<rparr> else p)
      in if \<not> final then
           (if ws_frameType p AND TYPE_FRAME \<noteq> ws_setFlags p AND TYPE_FRAME
            then p\<lparr>ws_frameType := (if ws_frameType p AND CONTROL_FRAME = 0 then FT_INCONSISTENT else FT_VIOLATION)\<rparr>
            else p)
         else if ws_frameType p AND CONTROL_FRAME = 0 \<and> ws_frameType p AND TYPE_FRAME \<noteq> ws_setFlags p AND TYPE_FRAME
         then p\<lparr>ws_frameType := FT_INCONSISTENT\<rparr>
         else p)"

text \<open>
  Whether the body goes on beyond the buffer, and the number of bytes of it that are handled now;
  the sum of the header and the length in it is a \<^verbatim>\<open>uint64_t\<close>.
\<close>

definition body_size :: "u8 list \<Rightarrow> nat \<Rightarrow> nat \<Rightarrow> bool \<times> nat" where
  "body_size d actualHeader receivedSize =
     (if receivedSize < (actualHeader + payload_size d) mod 2 ^ 64 then (True, receivedSize - actualHeader)
      else (False, payload_size d))"

definition decode_body :: "u8 list \<Rightarrow> nat \<Rightarrow> nat \<Rightarrow> protocol \<Rightarrow> nat \<times> u8 list \<times> protocol" where
  "decode_body d actualHeader receivedSize p =
     (let (short, bytesToMove) = body_size d actualHeader receivedSize;
          p = (if short
               then p\<lparr>ws_pending := ((actualHeader + payload_size d) mod 2 ^ 64 - receivedSize) mod 2 ^ 32,
                      ws_progress := ws_progress p AND NOT 0x20\<rparr>
               else p);
          receivedSize = bytesToMove mod 2 ^ 16
      in if d ! 1 AND MASKING_FRAME \<noteq> 0 then
           let key = take 4 (drop (actualHeader - 4) d);
               (d, progress) = unmask next_in_frame key bytesToMove actualHeader d
                                 ((ws_progress p OR 0x20) AND NOT 0x03)
           in (receivedSize, d, p\<lparr>ws_key := key, ws_progress := progress\<rparr>)
         else (receivedSize, d, p))"

text \<open>The header size, the new \<open>receivedSize\<close>, the buffer and the state after \<open>Decoder\<close>.\<close>

definition decoder :: "u8 list \<Rightarrow> nat \<Rightarrow> protocol \<Rightarrow> nat \<times> nat \<times> u8 list \<times> protocol" where
  "decoder d receivedSize p =
     (if 0 < ws_pending p then (0, decode_pending d receivedSize p)
      else if receivedSize < 2 then (0, 0, d, p)
      else
        let actualHeader = header_size d in
        if receivedSize < actualHeader then (0, 0, d, p)
        else
          let p = classify (d ! 0) p in
          if ws_frameType p AND 0xF8 = 0 then (actualHeader, decode_body d actualHeader receivedSize p)
          else (actualHeader, receivedSize, d, p))"

subsection \<open>Frames\<close>

text \<open>
  The wire format: the specification that encoder and decoder are compared with. The masked
  payload, the length of the payload in one or three bytes, and the whole frame.
\<close>

definition masked :: "u8 list \<Rightarrow> nat \<Rightarrow> u8 list \<Rightarrow> u8 list" where
  "masked key off xs = map (\<lambda>i. xs ! i XOR key ! ((off + i) mod 4)) [0..<length xs]"

definition length_bytes :: "u8 \<Rightarrow> nat \<Rightarrow> u8 list" where
  "length_bytes flag n =
     (if n \<le> 125 then [flag OR of_nat n] else [flag OR 126, of_nat (n div 256), of_nat (n mod 256)])"

definition frame :: "u8 \<Rightarrow> u8 list option \<Rightarrow> u8 list \<Rightarrow> u8 list" where
  "frame b key payload =
     (case key of
        None \<Rightarrow> b # length_bytes 0 (length payload) @ payload
      | Some k \<Rightarrow> b # length_bytes MASKING_FRAME (length payload) @ k @ masked k 0 payload)"

lemma length_masked [simp]: "length (masked key off xs) = length xs"
  by (simp add: masked_def)

lemma masked_masked [simp]: "masked key off (masked key off xs) = xs"
  by (rule nth_equalityI) (simp_all add: masked_def xor.assoc)

lemma masked_append:
  "masked key off (xs @ ys) = masked key off xs @ masked key (off + length xs) ys"
  by (rule nth_equalityI) (auto simp: masked_def nth_append add.assoc)

lemma length_length_bytes: "length (length_bytes flag n) = (if n \<le> 125 then 1 else 3)"
  by (simp add: length_bytes_def)

lemma length_mask_key [simp]: "length (mask_key v) = 4"
  by (simp add: mask_key_def)

lemma and_3_nat: "(n :: nat) AND 3 = n mod 4"
  using and_mask_nat [of n 2] by simp

text \<open>The move from the last byte down is a copy of the masked bytes.\<close>

lemma length_mask_move [simp]: "length (mask_move key k n d) = length d"
  by (induction n arbitrary: d) simp_all

lemma nth_mask_move:
  assumes "0 < k" "4 + k + n \<le> length d" "j < length d"
  shows "mask_move key k n d ! j =
    (if 4 + k \<le> j \<and> j < 4 + k + n then d ! (j - k) XOR key ! ((j - 4 - k) mod 4) else d ! j)"
  using assms(2,3)
proof (induction n arbitrary: d)
  case (Suc n)
  have "mask_move key k (Suc n) d ! j =
    (if 4 + k \<le> j \<and> j < 4 + k + n
     then d[4 + k + n := d ! (4 + n) XOR key ! (n AND 3)] ! (j - k) XOR key ! ((j - 4 - k) mod 4)
     else d[4 + k + n := d ! (4 + n) XOR key ! (n AND 3)] ! j)"
    using Suc.IH [of "d[4 + k + n := d ! (4 + n) XOR key ! (n AND 3)]"] Suc.prems by simp
  then show ?case
    using Suc.prems assms(1) by (cases "j = 4 + k + n") (auto simp: and_3_nat nth_list_update)
qed auto

lemma mask_move_blit:
  assumes "0 < k" "4 + k + n \<le> length d"
  shows "mask_move key k n d = blit d (4 + k) (masked key 0 (take n (drop 4 d)))"
proof (rule nth_equalityI)
  have l: "length (masked key 0 (take n (drop 4 d))) = n" using assms by simp
  then have b: "4 + k + length (masked key 0 (take n (drop 4 d))) \<le> length d" using assms by simp
  show "length (mask_move key k n d) = length (blit d (4 + k) (masked key 0 (take n (drop 4 d))))"
    using b by (simp add: length_blit)
  fix j assume "j < length (mask_move key k n d)"
  then have j: "j < length d" by simp
  have m: "masked key 0 (take n (drop 4 d)) ! i = d ! (4 + i) XOR key ! (i mod 4)" if "i < n" for i
    using that assms by (simp add: masked_def)
  have e: "4 + k \<le> j \<Longrightarrow> 4 + (j - (4 + k)) = j - k" by simp
  show "mask_move key k n d ! j = blit d (4 + k) (masked key 0 (take n (drop 4 d))) ! j"
    unfolding nth_mask_move [OF assms j] nth_blit [OF b j] l
    using m [of "j - (4 + k)"] e by (auto simp: diff_diff_left add.commute)
qed

subsection \<open>Encoding is framing\<close>

lemma bit_0x80: "bit (0x80 :: u8) n \<longleftrightarrow> n = 7"
  using bit_push_bit_iff [of 7 "1 :: u8" n] by (auto simp: bit_1_iff)

lemma masking_flag: "(w :: u8) AND MASKING_FRAME = (if bit w 7 then MASKING_FRAME else 0)"
proof (rule bit_word_eqI)
  fix n
  have "bit (w AND MASKING_FRAME) n \<longleftrightarrow> bit w n \<and> n = 7" by (simp only: bit_and_iff bit_0x80)
  moreover have "bit (if bit w 7 then MASKING_FRAME else 0) n \<longleftrightarrow> bit w 7 \<and> n = 7"
    using bit_0x80 [of n] by simp
  ultimately show "bit (w AND MASKING_FRAME) n = bit (if bit w 7 then MASKING_FRAME else 0) n" by blast
qed

definition opcode_byte :: "nat \<Rightarrow> nat \<Rightarrow> protocol \<Rightarrow> u8" where
  "opcode_byte maxSendSize usedSize p =
     (if usedSize < maxSendSize then FINISHING_FRAME else 0) OR
     (if send_in_progress p then CONTINUATION_FRAME else TYPE_FRAME AND ws_setFlags p)"

text \<open>The payload as the caller leaves it in the buffer, from index 4 on.\<close>

definition staged :: "u8 list \<Rightarrow> u8 list \<Rightarrow> bool" where
  "staged payload d \<longleftrightarrow> length payload + 8 \<le> length d \<and> take (length payload) (drop 4 d) = payload"

lemma update_blit_below:
  "i < k \<Longrightarrow> k + length xs \<le> length d \<Longrightarrow> (blit d k xs)[i := v] = blit (d[i := v]) k xs"
  by (rule nth_equalityI) (simp_all add: length_blit nth_blit nth_list_update)

lemma take_updates2: "2 \<le> length d \<Longrightarrow> d[1 := b, 0 := a] = a # b # drop 2 d"
  by (auto simp: Suc_le_length_iff numeral_eq_Suc)

lemma take_updates4: "4 \<le> length d \<Longrightarrow> d[1 := b, 2 := x, 3 := y, 0 := a] = a # b # x # y # drop 4 d"
  by (auto simp: Suc_le_length_iff numeral_eq_Suc)

lemma drop_blit: "k \<le> length d \<Longrightarrow> drop k (blit d k xs) = xs @ drop (k + length xs) d"
  by (simp add: blit_def)

lemma length_frame:
  "length k = 4 \<Longrightarrow> length (frame b (Some k) payload) = (if length payload \<le> 125 then 6 else 8) + length payload"
  "length (frame b None payload) = (if length payload \<le> 125 then 2 else 4) + length payload"
  by (simp_all add: frame_def length_length_bytes)

lemma encode_data_frame:
  assumes "staged payload d"
  shows "\<exists>d'. encode_data random maxSendSize (length payload) d p =
      (length (frame (opcode_byte maxSendSize (length payload) p)
         (if bit (ws_setFlags p) 7 then Some (mask_key random) else None) payload), d',
       p\<lparr>ws_progress := (if length payload < maxSendSize then ws_progress p AND NOT 0x40 else ws_progress p OR 0x40)\<rparr>)
    \<and> length d' = length d
    \<and> take (length (frame (opcode_byte maxSendSize (length payload) p)
         (if bit (ws_setFlags p) 7 then Some (mask_key random) else None) payload)) d' =
      frame (opcode_byte maxSendSize (length payload) p)
         (if bit (ws_setFlags p) 7 then Some (mask_key random) else None) payload"
proof -
  obtain n where n: "n = length payload" by blast
  have l: "n + 8 \<le> length d" and pl: "take n (drop 4 d) = payload" using assms by (simp_all add: staged_def n)
  obtain f where f: "f = opcode_byte maxSendSize n p" by blast
  have fb: "(if n < maxSendSize then FINISHING_FRAME OR (if send_in_progress p then CONTINUATION_FRAME else TYPE_FRAME AND ws_setFlags p)
      else (if send_in_progress p then CONTINUATION_FRAME else TYPE_FRAME AND ws_setFlags p)) = f"
    by (simp add: f opcode_byte_def)
  obtain key where key: "key = mask_key random" by blast
  have lk: "length key = 4" by (simp add: key)
  obtain k where k: "k = (if n \<le> 125 then 2 else 4 :: nat)" by blast
  obtain e where e: "e = (if ws_setFlags p AND MASKING_FRAME = 0 then (if k = 2 \<and> n \<noteq> 0 then blit d 2 payload else d)
      else blit (mask_move key k n d) k key)" by blast
  obtain flag where flag: "flag = ws_setFlags p AND MASKING_FRAME" by blast
  obtain g where g: "g = (if n \<le> 125 then e[1 := flag OR of_nat n]
      else e[1 := flag OR 126, 2 := of_nat (n div 256), 3 := of_nat (n mod 256)])" by blast
  have enc: "encode_data random maxSendSize n d p =
      ((if flag = 0 then k else k + 4) + n, g[0 := f],
       p\<lparr>ws_progress := (if n < maxSendSize then ws_progress p AND NOT 0x40 else ws_progress p OR 0x40)\<rparr>)"
    unfolding encode_data_def Let_def using pl fb
    by (cases "n < maxSendSize") (simp_all add: g e k flag key)
  have mm: "mask_move key k n d = blit d (4 + k) (masked key 0 payload)"
    using mask_move_blit [of k n d key] l pl k by simp
  have le: "length e = length d"
    using l lk n k by (auto simp: e mm length_blit)
  have g0: "g[0 := f] = f # length_bytes flag n @ drop k e"
    using l le take_updates2 [of e] take_updates4 [of e] by (simp add: g k length_bytes_def)
  have body: "drop k e = (if flag = 0 then payload @ drop (k + n) e else key @ masked key 0 payload @ drop (k + 4 + n) e)"
  proof (cases "flag = 0")
    case True
    show ?thesis
    proof (cases "k = 2 \<and> n \<noteq> 0")
      case c: True
      then have "e = blit d 2 payload" using True by (simp add: e flag)
      then have d2: "drop 2 e = payload @ drop (2 + n) d" using l drop_blit [of 2 d payload] n by simp
      have "drop (2 + n) e = drop n (drop 2 e)" by (simp add: add.commute)
      then have "drop (2 + n) e = drop (2 + n) d" unfolding d2 by (simp add: n)
      then show ?thesis using True c d2 by simp
    next
      case c: False
      then have ed: "e = d" using True by (auto simp: e flag)
      show ?thesis
      proof (cases "n = 0")
        case False
        then have "k = 4" using c k by (auto split: if_splits)
        then show ?thesis using True ed pl by (metis append_take_drop_id drop_drop add.commute)
      qed (use True n in simp)
    qed
  next
    case False
    let ?b = "blit d (4 + k) (masked key 0 payload)"
    have b: "4 + k + n \<le> length d" "length ?b = length d" using l k n by (auto simp: length_blit)
    have "e = blit ?b k key" using False by (simp add: e flag mm)
    then have "drop k e = key @ drop (k + 4) ?b" using drop_blit [of k ?b key] lk b by simp
    also have "drop (k + 4) ?b = masked key 0 payload @ drop (4 + k + n) d"
      using drop_blit [of "4 + k" d "masked key 0 payload"] b n by (simp add: add.commute)
    finally have "drop k e = key @ masked key 0 payload @ drop (4 + k + n) d" .
    moreover have "drop (k + 4 + n) e = drop n (drop 4 (drop k e))" by (simp add: add.commute)
    ultimately show ?thesis using False lk by (simp add: n)
  qed
  have fl: "flag = (if bit (ws_setFlags p) 7 then MASKING_FRAME else 0)" by (simp only: flag masking_flag)
  have lb: "length (length_bytes flag n) = k - 1" "0 < k" by (simp_all add: length_length_bytes k)
  have fr: "frame f (if bit (ws_setFlags p) 7 then Some (mask_key random) else None) payload =
      f # length_bytes flag n @ (if flag = 0 then payload else key @ masked key 0 payload)"
    by (simp add: frame_def fl n key)
  have lf: "length (frame f (if bit (ws_setFlags p) 7 then Some (mask_key random) else None) payload) =
      (if flag = 0 then k else k + 4) + n"
    unfolding fr using lb lk by (simp add: n)
  have "take ((if flag = 0 then k else k + 4) + n) (g[0 := f]) =
      f # length_bytes flag n @ (if flag = 0 then payload else key @ masked key 0 payload)"
    unfolding g0 body lf [symmetric] fr by (simp add: n lk)
  moreover have "length (g[0 := f]) = length d" by (simp add: g le)
  ultimately show ?thesis
    using enc lf fr by (simp only: n [symmetric] f [symmetric]) blast
qed

subsection \<open>Unmasking\<close>

lemma u8_masks: "(3 :: u8) = mask 2" "(0xFC :: u8) = NOT (mask 2)"
  by (simp_all add: mask_eq_exp_minus_1)

lemma low_bits: "unat ((q :: u8) AND 3) = unat q mod 4"
  by (simp only: u8_masks take_bit_eq_mask [symmetric] unsigned_take_bit_eq take_bit_eq_mod) (simp add: unat_mod)

lemma low_bits_inc: "unat ((q + 1 :: u8) AND 3) = (unat (q AND 3) + 1) mod 4"
proof -
  have "unat (q + 1) mod 4 = (unat q + 1) mod 256 mod 4" by (simp add: unat_word_ariths)
  also have "\<dots> = (unat q + 1) mod 4" by (simp add: mod_mod_cancel)
  finally show ?thesis by (simp add: low_bits mod_simps)
qed

lemma next_pending_parts:
  "next_pending q AND 3 = (q + 1) AND 3" "next_pending q AND 0xFC = q AND 0xFC"
  unfolding next_pending_def u8_masks
  by (rule bit_word_eqI, auto simp only: bit_and_iff bit_or_iff bit_not_iff)+

lemma next_in_frame_pending:
  assumes "q AND 0x0C = 0"
  shows "next_in_frame q = next_pending q" "next_in_frame q AND 0x0C = 0"
proof -
  obtain h r where h: "h = q AND 0xF0" and r: "r = q AND 3" by blast
  have q: "q = h OR r"
  proof -
    have "q = q AND (-1)" by simp
    also have "(-1 :: u8) = (0xF0 OR 3) OR 0x0C" by simp
    also have "q AND ((0xF0 OR 3) OR 0x0C) = (q AND 0xF0 OR q AND 3) OR (q AND 0x0C)" by (simp only: bit.conj_disj_distrib)
    finally show ?thesis by (simp add: h r assms)
  qed
  have hc: "h AND c = 0" if "0xF0 AND c = 0" for c using that by (simp add: h and.assoc)
  have "unat r < 4" by (simp add: r low_bits)
  then have "unat r \<in> {0, 1, 2, 3}" by auto
  then have rs: "r \<in> {0, 1, 2, 3}" by (auto simp: word_unat_eq_iff)
  have add: "h + c = h OR c" if "0xF0 AND c = 0" for c using hc [OF that] by (simp add: disjunctive_add_eq_or)
  have q1: "q + 1 = h OR (r + 1)"
  proof -
    have "q = h + r" unfolding q using rs by (subst add) auto
    then have "q + 1 = h + (r + 1)" by simp
    also have "\<dots> = h OR (r + 1)" using rs by (subst add) auto
    finally show ?thesis .
  qed
  have hm: "h AND 0xF3 = h" "h AND 3 = 0" "h AND 0xFC = h" by (simp_all add: h and.assoc)
  have n1: "next_in_frame q = h OR ((r + 1) AND 3)"
    unfolding next_in_frame_def q1 bit.conj_disj_distrib2 hm using rs by auto
  have "next_pending q = ((r + 1) AND 3) OR h"
    unfolding next_pending_def q1 bit.conj_disj_distrib2 hm unfolding q bit.conj_disj_distrib2 hm using rs by auto
  with n1 show "next_in_frame q = next_pending q" by (simp add: or.commute)
  show "next_in_frame q AND 0x0C = 0"
    unfolding n1 bit.conj_disj_distrib2 using rs hc [of "0x0C"] by auto
qed
text \<open>
  The two loops that unmask differ in how they step the progress byte. What both rely on: the low
  bits count modulo four and the flags above stay.
\<close>

locale key_walk =
  fixes next_byte :: "u8 \<Rightarrow> u8" and good :: "u8 \<Rightarrow> bool"
  assumes good_next: "good q \<Longrightarrow> good (next_byte q)"
    and low_next: "good q \<Longrightarrow> unat (next_byte q AND 3) = (unat (q AND 3) + 1) mod 4"
    and flags_next: "good q \<Longrightarrow> next_byte q AND 0xE0 = q AND 0xE0"
begin

lemma unmask_blit:
  assumes "good q" "i + n \<le> length d"
  shows "\<exists>q'. unmask next_byte key n i d q = (blit d i (masked key (unat (q AND 3)) (take n (drop i d))), q')
    \<and> good q' \<and> unat (q' AND 3) = (unat (q AND 3) + n) mod 4 \<and> q' AND 0xE0 = q AND 0xE0"
  using assms
proof (induction n arbitrary: i d q)
  case 0
  then show ?case by (simp add: masked_def low_bits)
next
  case (Suc n)
  let ?v = "d ! i XOR key ! unat (q AND 3)"
  let ?d = "d[i := ?v]"
  obtain q' where q': "unmask next_byte key n (Suc i) ?d (next_byte q) =
      (blit ?d (Suc i) (masked key (unat (next_byte q AND 3)) (take n (drop (Suc i) ?d))), q')"
    "good q'" "unat (q' AND 3) = (unat (next_byte q AND 3) + n) mod 4" "q' AND 0xE0 = next_byte q AND 0xE0"
    using Suc.IH [of "next_byte q" "Suc i" ?d] good_next [OF Suc.prems(1)] Suc.prems(2) by auto
  have s: "unat (q AND 3) < 4" by (simp add: low_bits)
  have "blit ?d (Suc i) (masked key (unat (next_byte q AND 3)) (take n (drop (Suc i) ?d))) =
      blit d i (masked key (unat (q AND 3)) (take (Suc n) (drop i d)))"
  proof -
    have "drop (Suc i) ?d = drop (Suc i) d" by simp
    moreover have "take (Suc n) (drop i d) = d ! i # take n (drop (Suc i) d)"
      using Suc.prems(2) by (simp add: Cons_nth_drop_Suc flip: take_Suc_Cons)
    moreover have "masked key (unat (q AND 3)) (d ! i # take n (drop (Suc i) d)) =
        ?v # masked key (unat (next_byte q AND 3)) (take n (drop (Suc i) d))"
      using masked_append [of key "unat (q AND 3)" "[d ! i]" "take n (drop (Suc i) d)"] s low_next [OF Suc.prems(1)]
      by (simp add: masked_def mod_simps)
    moreover have "blit ?d (Suc i) xs = blit d i (?v # xs)" for xs
      using Suc.prems(2) by (simp add: blit_def upd_conv_take_nth_drop take_Suc_conv_app_nth add.commute)
    ultimately show ?thesis by simp
  qed
  then show ?case
    using q' flags_next [OF Suc.prems(1)] low_next [OF Suc.prems(1)] by (simp add: mod_simps)
qed

end

lemma flags_pending: "next_pending q AND 0xE0 = q AND 0xE0"
proof -
  have "x AND 0xE0 = (x AND 0xFC) AND 0xE0" for x :: u8 by (simp add: and.assoc)
  then show ?thesis by (metis next_pending_parts(2))
qed

interpretation pending: key_walk next_pending "\<lambda>_. True"
  by unfold_locales (simp_all add: next_pending_parts low_bits_inc flags_pending)

interpretation in_frame: key_walk next_in_frame "\<lambda>q. q AND 0x0C = 0"
proof
  fix q :: u8 assume q: "q AND 0x0C = 0"
  show "next_in_frame q AND 0x0C = 0" by (rule next_in_frame_pending(2) [OF q])
  show "unat (next_in_frame q AND 3) = (unat (q AND 3) + 1) mod 4" "next_in_frame q AND 0xE0 = q AND 0xE0"
    unfolding next_in_frame_pending(1) [OF q] by (simp_all only: next_pending_parts low_bits_inc flags_pending)
qed

subsection \<open>Reading a header\<close>

lemma small_byte:
  assumes "n \<le> 126"
  shows "(of_nat n :: u8) AND 0x7F = of_nat n" "unat (of_nat n :: u8) = n"
proof -
  show u: "unat (of_nat n :: u8) = n" using assms by (simp add: unat_of_nat)
  have "(0x7F :: u8) = mask 7" by (simp add: mask_eq_exp_minus_1)
  then have "(of_nat n :: u8) AND 0x7F = take_bit 7 (of_nat n)" by (simp add: take_bit_eq_mask)
  moreover have "unat (take_bit 7 (of_nat n :: u8)) = take_bit 7 (unat (of_nat n :: u8))" by (rule unsigned_take_bit_eq)
  moreover have "take_bit 7 n = n" using assms by (simp add: take_bit_eq_mod)
  ultimately show "(of_nat n :: u8) AND 0x7F = of_nat n" using u by (metis word_unat_eq_iff)
qed

lemma length_byte:
  assumes "n \<le> 126" "flag = 0 \<or> flag = MASKING_FRAME"
  shows "(flag OR of_nat n) AND 0x7F = (of_nat n :: u8)" "(flag OR of_nat n) AND MASKING_FRAME = flag"
proof -
  note s = small_byte(1) [OF assms(1)]
  have "(of_nat n :: u8) AND MASKING_FRAME = (of_nat n AND 0x7F) AND MASKING_FRAME" by (simp only: s)
  also have "\<dots> = 0" by (simp add: and.assoc)
  finally show "(flag OR of_nat n) AND MASKING_FRAME = flag"
    using assms(2) by (auto simp: bit.conj_disj_distrib2)
  show "(flag OR of_nat n) AND 0x7F = (of_nat n :: u8)"
    using assms(2) by (auto simp: bit.conj_disj_distrib2 s)
qed

lemma header_of_frame:
  assumes "d = b # length_bytes flag n @ rest" "flag = 0 \<or> flag = MASKING_FRAME" "n < 2 ^ 16"
  shows "header_size d = (if n \<le> 125 then 2 else 4) + (if flag = 0 then 0 else 4)" "payload_size d = n"
    "d ! 0 = b" "d ! 1 AND MASKING_FRAME = flag"
proof -
  have d1: "d ! 1 = flag OR of_nat (if n \<le> 125 then n else 126)" using assms(1) by (simp add: length_bytes_def)
  note lb = length_byte [of "if n \<le> 125 then n else 126", OF _ assms(2)]
  have b: "d ! 1 AND 0x7F = of_nat (if n \<le> 125 then n else 126)" "d ! 1 AND MASKING_FRAME = flag"
    unfolding d1 using lb by simp_all
  have ne: "n \<le> 125 \<Longrightarrow> (of_nat n :: u8) \<noteq> 126 \<and> (of_nat n :: u8) \<noteq> 127"
    using small_byte(2) [of n] by (auto simp: word_unat_eq_iff)
  show "header_size d = (if n \<le> 125 then 2 else 4) + (if flag = 0 then 0 else 4)"
    unfolding header_size_def b Let_def using ne by auto
  have big: "unat (of_nat (n div 256) :: u8) * 256 + unat (of_nat (n mod 256) :: u8) = n"
    using assms(3) by (simp add: unat_of_nat)
  show "payload_size d = n"
  proof (cases "n \<le> 125")
    case True
    then show ?thesis unfolding payload_size_def b Let_def using ne small_byte(2) [of n] by simp
  next
    case False
    then have "d ! 2 = of_nat (n div 256)" "d ! 3 = of_nat (n mod 256)"
      using assms(1) by (simp_all add: length_bytes_def)
    then show ?thesis unfolding payload_size_def b Let_def using False big by simp
  qed
  show "d ! 0 = b" "d ! 1 AND MASKING_FRAME = flag" using assms(1) b by simp_all
qed

subsection \<open>Decoding a stream\<close>

text \<open>What the decoder remembers while \<open>rem\<close> bytes of a payload are still to come, after \<open>off\<close>.\<close>

definition expects :: "protocol \<Rightarrow> nat \<Rightarrow> nat \<Rightarrow> u8 list option \<Rightarrow> bool" where
  "expects p rem off key \<longleftrightarrow> ws_pending p = rem \<and>
     (case key of
        None \<Rightarrow> rem = 0 \<or> ws_progress p AND 0x20 = 0
      | Some k \<Rightarrow> ws_progress p AND 0x20 = 0x20 \<and> ws_key p = k \<and> unat (ws_progress p AND 3) = off mod 4)"

definition hide :: "u8 list option \<Rightarrow> nat \<Rightarrow> u8 list \<Rightarrow> u8 list" where
  "hide key off xs = (case key of None \<Rightarrow> xs | Some k \<Rightarrow> masked k off xs)"

lemma take_masked: "take m (masked key off xs) = masked key off (take m xs)"
  by (rule nth_equalityI) (simp_all add: masked_def)

lemma hide_simps [simp]:
  "length (hide key off xs) = length xs" "hide key off (hide key off xs) = xs" "hide key off [] = []"
  by (simp_all add: hide_def split: option.split) (simp_all add: masked_def)

lemma take_hide: "take m (hide key off xs) = hide key off (take m xs)"
  by (simp add: hide_def take_masked split: option.split)

lemma hide_append: "hide key off (xs @ ys) = hide key off xs @ hide key (off + length xs) ys"
  by (simp add: hide_def masked_append split: option.split)

lemma classify_keeps [simp]:
  "ws_pending (classify b p) = ws_pending p" "ws_setFlags (classify b p) = ws_setFlags p"
  "ws_progress p AND 0x0C = 0 \<Longrightarrow> ws_progress (classify b p) AND 0x0C = 0"
proof -
  have "(x AND 0x7F) AND 0x0C = x AND 0x0C" "(x AND 0xFF) AND 0x0C = x AND 0x0C" "(x OR 0x80) AND 0x0C = x AND 0x0C" for x :: u8
    by (simp_all add: and.assoc bit.conj_disj_distrib2)
  then show "ws_progress p AND 0x0C = 0 \<Longrightarrow> ws_progress (classify b p) AND 0x0C = 0"
    by (simp add: classify_def Let_def)
qed (simp_all add: classify_def Let_def)

text \<open>
  The first call on a frame, with \<open>m\<close> bytes in the buffer: possibly not all of the frame,
  possibly bytes of later frames behind it, which stay as they are.
\<close>

lemma decode_first:
  assumes "ws_pending p = 0" "ws_progress p AND 0x0C = 0" "ws_frameType (classify b p) AND 0xF8 = 0"
    and "length payload < 2 ^ 16" "case key of None \<Rightarrow> True | Some k \<Rightarrow> length k = 4"
    and hdr: "hdr = length (frame b key payload) - length payload" and "hdr \<le> m"
    and "m \<le> length (frame b key payload @ rest)" "m < 2 ^ 16" and t: "t = min m (length (frame b key payload))"
  shows "\<exists>d' p'. decoder (take m (frame b key payload @ rest)) m p = (hdr, t - hdr, d', p')
    \<and> take (t - hdr) (drop hdr d') = take (t - hdr) payload \<and> length d' = m
    \<and> drop t d' = drop t (take m (frame b key payload @ rest))
    \<and> expects p' (length (frame b key payload) - t) (t - hdr) key
    \<and> ws_setFlags p' = ws_setFlags p \<and> ws_frameType p' = ws_frameType (classify b p)
    \<and> ws_progress p' AND 0x0C = 0 \<and> ws_progress p' AND 0x80 = ws_progress (classify b p) AND 0x80"
proof -
  obtain n where n: "n = length payload" by blast
  obtain flag where flag: "flag = (case key of None \<Rightarrow> 0 | Some _ \<Rightarrow> MASKING_FRAME)" by blast
  obtain kp where kp: "kp = (case key of None \<Rightarrow> [] | Some k \<Rightarrow> k)" by blast
  have f: "frame b key payload = b # length_bytes flag n @ kp @ hide key 0 payload"
    by (simp add: frame_def flag kp hide_def n split: option.split)
  have lk: "length kp = (if flag = 0 then 0 else 4)" using assms(5) by (auto simp: kp flag split: option.split)
  have h: "hdr = (if n \<le> 125 then 2 else 4) + (if flag = 0 then 0 else 4)"
    by (simp add: hdr f lk length_length_bytes n)
  have lf: "length (frame b key payload) = hdr + n" using hdr by (simp add: n f)
  have tm: "t = min m (hdr + n)" "hdr \<le> t" "t \<le> m" "t - hdr \<le> n" using t lf assms(7) by auto
  obtain d where d: "d = take m (frame b key payload @ rest)" by blast
  obtain hs where hs: "hs = b # length_bytes flag n @ kp" by blast
  have lhs: "length hs = hdr" by (simp add: hs h lk length_length_bytes)
  have dh0: "d = hs @ take (m - hdr) (hide key 0 payload @ rest)"
  proof -
    have "frame b key payload @ rest = hs @ (hide key 0 payload @ rest)" by (simp add: f hs)
    then show ?thesis unfolding d using lhs assms(7) by (simp only: take_append) simp
  qed
  have dd: "d = b # length_bytes flag n @ (kp @ take (m - hdr) (hide key 0 payload @ rest))"
    unfolding dh0 hs by simp
  have ld: "length d = m" using assms(8) by (simp add: d)
  have fl: "flag = 0 \<or> flag = MASKING_FRAME" by (simp add: flag split: option.split)
  note hd = header_of_frame [OF dd fl assms(4) [folded n]]
  have bs: "body_size d hdr m = (m < hdr + n, t - hdr)"
    using assms(4) h tm(1) hd(2) by (auto simp: body_size_def n)
  have m2: "2 \<le> m" using assms(7) h by (auto split: if_splits)
  obtain p1 where p1: "p1 = (if m < hdr + n then (classify b p)\<lparr>ws_pending := hdr + n - m,
      ws_progress := ws_progress (classify b p) AND NOT 0x20\<rparr> else classify b p)" by blast
  have pn: "((hdr + n) mod 2 ^ 64 - m) mod 2 ^ 32 = hdr + n - m"
    using assms(4) h by (simp add: n)
  have t16: "(t - hdr) mod 2 ^ 16 = t - hdr" using assms(9) tm by simp
  have dec: "decoder d m p = (hdr,
      if flag \<noteq> 0 then
        let key = take 4 (drop (hdr - 4) d);
            (d, progress) = unmask next_in_frame key (t - hdr) hdr d ((ws_progress p1 OR 0x20) AND NOT 0x03)
        in (t - hdr, d, p1\<lparr>ws_key := key, ws_progress := progress\<rparr>)
      else (t - hdr, d, p1))"
  proof -
    have "header_size d = hdr" using hd(1) h by simp
    then have "decoder d m p = (hdr, decode_body d hdr m (classify b p))"
      using assms(1,3,7) m2 hd(3) by (simp add: decoder_def Let_def)
    then show ?thesis
      unfolding decode_body_def bs hd(2,4) pn p1 by (simp only: Let_def prod.case t16)
  qed
  have pend: "ws_pending p1 = length (frame b key payload) - t"
    using assms(1) tm(1) by (auto simp: p1 lf)
  have pc: "ws_progress (classify b p) AND 0x0C = 0" using assms(2) by simp
  have pg: "ws_progress p1 AND 0x0C = 0" "ws_progress p1 AND 0x80 = ws_progress (classify b p) AND 0x80"
    "ws_setFlags p1 = ws_setFlags p" "ws_frameType p1 = ws_frameType (classify b p)"
  proof -
    have "(x AND NOT 0x20) AND 0x0C = x AND 0x0C" "(x AND NOT 0x20) AND 0x80 = x AND 0x80" for x :: u8
      by (simp_all add: and.assoc)
    then show "ws_progress p1 AND 0x0C = 0" "ws_progress p1 AND 0x80 = ws_progress (classify b p) AND 0x80"
      using pc by (simp_all add: p1)
  qed (simp_all add: p1)
  have dh: "take (t - hdr) (drop hdr d) = hide key 0 (take (t - hdr) payload)"
  proof -
    have "drop hdr d = take (m - hdr) (hide key 0 payload @ rest)" by (simp add: dh0 lhs)
    moreover have "min (t - hdr) (m - hdr) = t - hdr" using tm(3) by simp
    ultimately have "take (t - hdr) (drop hdr d) = take (t - hdr) (hide key 0 payload @ rest)"
      by (simp only: take_take)
    then show ?thesis using tm(4) n by (simp add: take_hide)
  qed
  show ?thesis
  proof (cases key)
    case None
    then have fl0: "flag = 0" by (simp add: flag)
    have "(x AND NOT 0x20) AND 0x20 = 0" for x :: u8 by (simp add: and.assoc)
    moreover have "\<not> m < hdr + n \<Longrightarrow> length (frame b key payload) - t = 0" using lf tm(1) by simp
    ultimately have "expects p1 (length (frame b key payload) - t) (t - hdr) key"
      using None pend by (cases "m < hdr + n") (simp_all add: expects_def p1)
    moreover have "decoder d m p = (hdr, t - hdr, d, p1)" unfolding dec using fl0 by simp
    moreover have "take (t - hdr) (drop hdr d) = take (t - hdr) payload" using dh None by (simp add: hide_def)
    ultimately show ?thesis
      using pg ld unfolding d by blast
  next
    case (Some k)
    then have fl1: "flag = MASKING_FRAME" "flag \<noteq> 0" and k: "kp = k" "length k = 4"
      using assms(5) by (simp_all add: flag kp)
    have kk: "take 4 (drop (hdr - 4) d) = k"
      using k fl1 by (simp add: dd h length_length_bytes drop_Cons')
    obtain q where q: "q = (ws_progress p1 OR 0x20) AND NOT 0x03" by blast
    have alg: "((x OR 0x20) AND NOT 0x03) AND 0x0C = x AND 0x0C" "((x OR 0x20) AND NOT 0x03) AND 3 = 0"
      "(((x OR 0x20) AND NOT 0x03) AND 0xE0) AND 0x20 = 0x20"
      "(((x OR 0x20) AND NOT 0x03) AND 0xE0) AND 0x80 = x AND 0x80" for x :: u8
      by (simp_all add: and.assoc bit.conj_disj_distrib2)
    have g: "q AND 0x0C = 0" unfolding q alg(1) using pg(1) .
    obtain q' where u: "unmask next_in_frame k (t - hdr) hdr d q = (blit d hdr (masked k (unat (q AND 3)) (take (t - hdr) (drop hdr d))), q')"
      "q' AND 0x0C = 0" "unat (q' AND 3) = (unat (q AND 3) + (t - hdr)) mod 4" "q' AND 0xE0 = q AND 0xE0"
      using in_frame.unmask_blit [OF g, of hdr "t - hdr" d k] assms(7) ld tm by auto
    have q3: "unat (q AND 3) = 0" unfolding q alg(2) by simp
    have "q' AND 0x20 = (q' AND 0xE0) AND 0x20" "q' AND 0x80 = (q' AND 0xE0) AND 0x80" by (simp_all add: and.assoc)
    then have qf: "q' AND 0x20 = 0x20" "q' AND 0x80 = ws_progress p1 AND 0x80" unfolding u(4) q alg(3,4) .
    have out: "masked k 0 (take (t - hdr) (drop hdr d)) = take (t - hdr) payload"
      unfolding dh Some by (simp add: hide_def)
    have lp: "length (take (t - hdr) payload) = t - hdr" using tm(4) n by simp
    let ?d = "blit d hdr (take (t - hdr) payload)"
    have b: "hdr + length (take (t - hdr) payload) \<le> length d" using lp tm ld by linarith
    have dr: "drop hdr ?d = take (t - hdr) payload @ drop t d"
      using drop_blit [of hdr d "take (t - hdr) payload"] lp b tm by simp
    then have "drop (t - hdr) (drop hdr ?d) = drop t d" using lp by simp
    then have "drop t ?d = drop t d" using tm(2) by simp
    moreover have "take (t - hdr) (drop hdr ?d) = take (t - hdr) payload"
      unfolding dr using lp by simp
    moreover have "length ?d = m" using length_blit [OF b] ld by simp
    moreover have "decoder d m p = (hdr, t - hdr, ?d, p1\<lparr>ws_key := k, ws_progress := q'\<rparr>)"
      unfolding dec kk Let_def using fl1(2) u(1) q3 out q by simp
    moreover have "expects (p1\<lparr>ws_key := k, ws_progress := q'\<rparr>) (length (frame b key payload) - t) (t - hdr) key"
      using pend qf(1) u(3) q3 by (simp add: expects_def Some)
    ultimately show ?thesis using pg qf(2) u(2) unfolding d by auto
  qed
qed

lemma decode_next:
  assumes "expects p (length c + rem) off key" "c \<noteq> []"
  shows "\<exists>p'. decoder c (length c) p = (0, length c, hide key off c, p') \<and> expects p' rem (off + length c) key"
proof (cases key)
  case None
  then have "ws_pending p = length c + rem" "ws_progress p AND 0x20 \<noteq> 0x20"
    using assms by (auto simp: expects_def)
  then show ?thesis
    using assms None by (auto simp: decoder_def decode_pending_def expects_def hide_def)
next
  case (Some k)
  then have e: "ws_pending p = length c + rem" "ws_progress p AND 0x20 = 0x20" "ws_key p = k"
    "unat (ws_progress p AND 3) = off mod 4"
    using assms by (auto simp: expects_def)
  obtain q' where u: "unmask next_pending k (length c) 0 c (ws_progress p) =
      (blit c 0 (masked k (off mod 4) (take (length c) (drop 0 c))), q')"
      "unat (q' AND 3) = (off mod 4 + length c) mod 4" "q' AND 0xE0 = ws_progress p AND 0xE0"
    using pending.unmask_blit [where q = "ws_progress p" and i = 0 and n = "length c" and d = c and key = k] e(4) by auto
  have m: "masked k (off mod 4) c = masked k off c" by (simp add: masked_def mod_simps)
  have b: "blit c 0 (masked k off c) = masked k off c" by (simp add: blit_def)
  have "q' AND 0x20 = (q' AND 0xE0) AND 0x20" "(ws_progress p AND 0xE0) AND 0x20 = ws_progress p AND 0x20"
    by (simp_all add: and.assoc)
  then have "q' AND 0x20 = 0x20" using u(3) e(2) by simp
  then show ?thesis
    using e u(1,2) assms(2) m b Some
    by (auto simp: decoder_def decode_pending_def expects_def hide_def mod_simps)
qed

text \<open>A receiver that hands one buffer after the other to the decoder and collects the payload.\<close>

fun feed :: "u8 list list \<Rightarrow> protocol \<Rightarrow> u8 list \<times> protocol" where
  "feed [] p = ([], p)"
| "feed (c # cs) p =
     (let (header, n, d, p) = decoder c (length c) p; (out, p) = feed cs p
      in (take n (drop header d) @ out, p))"

lemma feed_pending:
  assumes "expects p (length (concat cs)) off key" "[] \<notin> set cs"
  shows "\<exists>p'. feed cs p = (hide key off (concat cs), p') \<and> ws_pending p' = 0"
  using assms
proof (induction cs arbitrary: p off)
  case Nil
  then show ?case by (simp add: expects_def)
next
  case (Cons c cs)
  then obtain p1 where p1: "decoder c (length c) p = (0, length c, hide key off c, p1)"
      "expects p1 (length (concat cs)) (off + length c) key"
    using decode_next [of p c "length (concat cs)" off key] by auto
  then obtain p2 where "feed cs p1 = (hide key (off + length c) (concat cs), p2)" "ws_pending p2 = 0"
    using Cons.IH [of p1 "off + length c"] Cons.prems(2) by auto
  with p1 show ?case by (simp add: hide_append)
qed

lemma feed_frame:
  assumes "ws_pending p = 0" "ws_progress p AND 0x0C = 0" "ws_frameType (classify b p) AND 0xF8 = 0"
    and "length payload < 2 ^ 16" "case key of None \<Rightarrow> True | Some k \<Rightarrow> length k = 4"
    and "c @ concat cs = frame b key payload" "length (frame b key payload) - length payload \<le> length c"
    and "length c < 2 ^ 16" "[] \<notin> set cs"
  shows "\<exists>p'. feed (c # cs) p = (payload, p') \<and> ws_pending p' = 0"
proof -
  obtain hdr where hdr: "hdr = length (frame b key payload) - length payload" by blast
  have len: "length (frame b key payload) = length c + length (concat cs)"
    using arg_cong [OF assms(6), of length] by simp
  have c: "c = take (length c) (frame b key payload)" and r: "concat cs = drop (length c) (frame b key payload)"
    by (simp_all flip: assms(6))
  obtain d' p1 where d: "decoder c (length c) p = (hdr, length c - hdr, d', p1)"
    "take (length c - hdr) (drop hdr d') = take (length c - hdr) payload"
    "expects p1 (length (concat cs)) (length c - hdr) key"
    using decode_first [OF assms(1-5) hdr, of "length c" "[]" "length c"] assms(7,8) len hdr c by auto
  obtain p2 where f: "feed cs p1 = (hide key (length c - hdr) (concat cs), p2)" "ws_pending p2 = 0"
    using feed_pending [OF d(3) assms(9)] by blast
  obtain h where h: "frame b key payload = h @ hide key 0 payload"
  proof (cases key)
    case None
    then show thesis using that [of "b # length_bytes 0 (length payload)"] by (simp add: frame_def hide_def)
  next
    case (Some k)
    then show thesis
      using that [of "b # length_bytes MASKING_FRAME (length payload) @ k"] by (simp add: frame_def hide_def)
  qed
  have lf: "length (frame b key payload) = length h + length payload" by (simp only: h length_append hide_simps)
  have lh: "length h = hdr" using hdr lf by linarith
  have le: "hdr \<le> length c" using assms(7) hdr by linarith
  obtain j where j: "j = length c - hdr" by blast
  have jl: "j \<le> length payload" "length c = hdr + j"
    using j len lf lh le by linarith+
  have "concat cs = drop j (hide key 0 payload)"
    unfolding r by (simp only: h jl(2) lh [symmetric] drop_append drop_all) simp
  also have "\<dots> = hide key j (drop j payload)"
    using hide_append [of key 0 "take j payload" "drop j payload"] jl(1) by simp
  finally have "hide key j (concat cs) = drop j payload" by simp
  then show ?thesis using d(1,2) f(2) by (simp add: f(1) flip: j)
qed

subsection \<open>Sender and receiver in step\<close>

text \<open>
  What a sender and a receiver agree on between two frames: the type of the messages, and whether
  a message is under way.
\<close>

definition in_sync :: "protocol \<Rightarrow> protocol \<Rightarrow> bool" where
  "in_sync s r \<longleftrightarrow> send_in_progress s = receive_in_progress r \<and> ws_setFlags s AND 0x0F = ws_setFlags r AND 0x0F
     \<and> ws_setFlags r AND 0x0F \<in> {0x01, 0x02} \<and> ws_pending r = 0 \<and> ws_progress r AND 0x0C = 0"

definition no_requests :: "protocol \<Rightarrow> bool" where
  "no_requests s \<longleftrightarrow> ws_control s AND (REQUEST_CLOSE OR REQUEST_PING OR REQUEST_PONG) = 0"

lemma encode_control_none [simp]: "no_requests (snd (snd x)) \<Longrightarrow> encode_control random maxSendSize x = x"
  by (auto simp: encode_control_def no_requests_def Let_def split: prod.split)

text \<open>The frame that carries a payload.\<close>

definition sent_frame :: "u32 \<Rightarrow> nat \<Rightarrow> u8 list \<Rightarrow> protocol \<Rightarrow> u8 list" where
  "sent_frame random maxSendSize payload s =
     frame (opcode_byte maxSendSize (length payload) s) (if bit (ws_setFlags s) 7 then Some (mask_key random) else None) payload"

definition after_send :: "nat \<Rightarrow> nat \<Rightarrow> protocol \<Rightarrow> protocol" where
  "after_send maxSendSize n s =
     s\<lparr>ws_progress := (if n < maxSendSize then ws_progress s AND NOT 0x40 else ws_progress s OR 0x40)\<rparr>"

lemma encoder_frame:
  assumes "staged payload d" "no_requests s" "payload \<noteq> [] \<or> send_in_progress s"
  shows "\<exists>d'. encoder random random' maxSendSize (length payload) d s =
      (length (sent_frame random maxSendSize payload s), d', after_send maxSendSize (length payload) s)
    \<and> length d' = length d \<and> take (length (sent_frame random maxSendSize payload s)) d' = sent_frame random maxSendSize payload s"
proof -
  obtain d' where "encode_data random maxSendSize (length payload) d s =
      (length (sent_frame random maxSendSize payload s), d', after_send maxSendSize (length payload) s)"
    "length d' = length d" "take (length (sent_frame random maxSendSize payload s)) d' = sent_frame random maxSendSize payload s"
    using encode_data_frame [OF assms(1), of random maxSendSize s] unfolding sent_frame_def after_send_def by blast
  moreover have "no_requests (after_send maxSendSize (length payload) s)"
    using assms(2) by (simp add: no_requests_def after_send_def)
  ultimately show ?thesis using assms(3) by (auto simp: encoder_def)
qed

lemma sync_classify:
  assumes "in_sync s r"
  shows "ws_frameType (classify (opcode_byte m n s) r) = ws_setFlags r AND 0x0F"
    "ws_progress (classify (opcode_byte m n s) r) AND 0x80 = (if n < m then 0 else 0x80)"
proof -
  let ?b = "opcode_byte m n s"
  have ty: "ws_setFlags r AND 0x0F \<in> {0x01, 0x02}" "TYPE_FRAME AND ws_setFlags s = ws_setFlags r AND 0x0F"
    "TYPE_FRAME AND ws_setFlags r = ws_setFlags r AND 0x0F"
    using assms by (simp_all add: in_sync_def and.commute)
  have b: "?b AND FINISHING_FRAME = (if n < m then FINISHING_FRAME else 0)"
    "?b AND TYPE_FRAME = (if send_in_progress s then 0 else ws_setFlags r AND 0x0F)"
    using ty(1) unfolding opcode_byte_def ty(2) by (auto simp: bit.conj_disj_distrib2)
  have p: "(x AND 0x7F) AND 0x80 = 0" "(x AND 0xFF) AND 0x80 = x AND 0x80" "(x OR 0x80) AND 0x80 = 0x80" for x :: u8
    by (simp_all add: and.assoc bit.conj_disj_distrib2)
  have s: "send_in_progress s = receive_in_progress r" using assms by (simp add: in_sync_def)
  have x: "(x :: u8) AND 0x80 \<noteq> 0 \<Longrightarrow> x AND 0x80 = 0x80" for x using masking_flag [of x] by (simp split: if_splits)
  have fx: "(x AND 0x0F) AND 0x0F = x AND 0x0F" for x :: u8 by (simp add: and.assoc)
  have nc: "(ws_setFlags r AND 0x0F) AND 0x08 = 0" "ws_setFlags r AND 0x0F \<noteq> 0" using ty(1) by auto
  show "ws_frameType (classify ?b r) = ws_setFlags r AND 0x0F"
    using ty nc fx unfolding classify_def b s Let_def by (auto simp: receive_in_progress_def)
  show "ws_progress (classify ?b r) AND 0x80 = (if n < m then 0 else 0x80)"
    using ty nc fx x p unfolding classify_def b s Let_def by (auto simp: receive_in_progress_def)
qed

lemma sync_good:
  assumes "in_sync s r"
  shows "ws_frameType (classify (opcode_byte m n s) r) AND 0xF8 = 0" "ws_frameType (classify (opcode_byte m n s) r) AND 0xF0 = 0"
    "ws_frameType (classify (opcode_byte m n s) r) AND 0x08 = 0"
  using assms unfolding sync_classify(1) [OF assms] by (auto simp: in_sync_def)

lemma sync_after:
  assumes "in_sync s r" "ws_setFlags r' = ws_setFlags r" "ws_pending r' = 0" "ws_progress r' AND 0x0C = 0"
    "ws_progress r' AND 0x80 = (if n < m then 0 else 0x80)"
  shows "in_sync (after_send m n s) r'"
proof -
  have "(x AND NOT 0x40) AND 0x40 = 0" "(x OR 0x40) AND 0x40 = 0x40" for x :: u8
    by (simp_all add: and.assoc bit.conj_disj_distrib2)
  then show ?thesis
    using assms by (simp add: in_sync_def after_send_def send_in_progress_def receive_in_progress_def)
qed

lemma payload_size_64: "payload_size d < 2 ^ 64"
proof -
  have u: "unat (x :: u8) < 256" for x using unsigned_less [of x] by simp
  have "unat (d ! 2) * 256 + unat (d ! 3) < 65536" using u [of "d ! 2"] u [of "d ! 3"] by linarith
  then have "unat (d ! 2) * 256 + unat (d ! 3) < 2 ^ 64" by (rule less_le_trans) simp
  moreover have "fold (\<lambda>i n. (n * 256 + unat (d ! i)) mod 2 ^ 64) [8, 7, 6, 5, 4, 3, 2] x < 2 ^ 64" for x :: nat
    by (simp only: fold_simps o_apply id_apply) (rule mod_less_divisor, simp)
  moreover have "unat (d ! 1 AND 0x7F) < 2 ^ 64" by (rule less_le_trans [OF u]) simp
  ultimately show ?thesis unfolding payload_size_def Let_def by (simp only: split: if_split) blast
qed

subsection \<open>Properties of the protocol\<close>

text \<open>
  A frame that the encoder produced arrives whole however it is cut into buffers, as long as
  the first of them holds the header: the decoder gives back the payload, unmasked, and reports the
  frame complete.
\<close>

theorem frames_survive_chunking:
  assumes "staged payload d" "no_requests s" "payload \<noteq> [] \<or> send_in_progress s" "length payload < 2 ^ 16" "in_sync s r"
    and "c @ concat cs = (case encoder random random' maxSendSize (length payload) d s of (n, d', s') \<Rightarrow> take n d')"
    and "8 \<le> length c" "length c < 2 ^ 16" "[] \<notin> set cs"
  shows "\<exists>r'. feed (c # cs) r = (payload, r') \<and> is_complete_message r'"
proof -
  let ?key = "if bit (ws_setFlags s) 7 then Some (mask_key random) else None"
  have f: "c @ concat cs = sent_frame random maxSendSize payload s"
    using assms(6) encoder_frame [OF assms(1-3), of random random' maxSendSize] by auto
  have k: "case ?key of None \<Rightarrow> True | Some k \<Rightarrow> length k = 4" by simp
  have h: "length (sent_frame random maxSendSize payload s) - length payload \<le> 8"
    using length_frame(1) [where k = "mask_key random"] length_frame(2) by (simp add: sent_frame_def)
  have "ws_pending r = 0" "ws_progress r AND 0x0C = 0" using assms(5) by (simp_all add: in_sync_def)
  then show ?thesis
    using feed_frame [OF _ _ sync_good(1) [OF assms(5)] assms(4) k f [unfolded sent_frame_def] _ assms(8,9)] h assms(7)
    by (simp add: sent_frame_def is_complete_message_def)
qed

theorem frames_survive_chunking_witness:
  "\<exists>r'. feed ([0x81, 0x83, 1, 2, 3, 4, 0x49, 0x6B] # [[0x22]]) (new_protocol False False) = ([0x48, 0x69, 0x21], r') \<and> is_complete_message r'"
proof (rule frames_survive_chunking [where payload = "[0x48, 0x69, 0x21]" and s = "new_protocol False True"
      and d = "[0, 0, 0, 0, 0x48, 0x69, 0x21, 0, 0, 0, 0]" and random = "0x04030201" and random' = 0 and maxSendSize = 100])
  show "[0x81, 0x83, 1, 2, 3, 4, 0x49, 0x6B] @ concat [[0x22]] =
      (case encoder 0x04030201 0 100 (length [0x48, 0x69, 0x21 :: u8]) [0, 0, 0, 0, 0x48, 0x69, 0x21, 0, 0, 0, 0] (new_protocol False True) of
         (n, d', s') \<Rightarrow> take n d')"
    by code_simp
qed (simp_all add: staged_def no_requests_def new_protocol_def in_sync_def send_in_progress_def receive_in_progress_def)

text \<open>
  The decoder stays inside the buffer with the part of a data frame that it handles exactly
  when the sum of the header and the announced length is below 2 to the power 64. A 64 bit length
  close to that bound makes the sum wrap: the frame then counts as complete, and the number of
  bytes to unmask is the announced length.
\<close>

theorem body_in_buffer:
  assumes "actualHeader \<le> receivedSize" "receivedSize < 2 ^ 16"
  shows "actualHeader + snd (body_size d actualHeader receivedSize) \<le> receivedSize \<longleftrightarrow> actualHeader + payload_size d < 2 ^ 64"
proof (cases "actualHeader + payload_size d < 2 ^ 64")
  case True
  then show ?thesis using assms(1) by (simp add: body_size_def)
next
  case False
  have "(actualHeader + payload_size d) mod 2 ^ 64 = actualHeader + payload_size d - 2 ^ 64"
    using False payload_size_64 [of d] assms by (subst le_mod_geq) simp_all
  then have "\<not> receivedSize < (actualHeader + payload_size d) mod 2 ^ 64"
    using payload_size_64 [of d] assms by linarith
  then have "snd (body_size d actualHeader receivedSize) = payload_size d" by (simp add: body_size_def)
  then show ?thesis using False assms by simp
qed

theorem body_in_buffer_witness:
  "14 + snd (body_size [0x82, 0xFF, 0xFF, 0xFF, 0xFF, 0xFF, 0xFF, 0xFF, 0xFF, 0xFF, 1, 2, 3, 4] 14 14) \<le> 14
   \<longleftrightarrow> 14 + payload_size [0x82, 0xFF, 0xFF, 0xFF, 0xFF, 0xFF, 0xFF, 0xFF, 0xFF, 0xFF, 1, 2, 3, 4] < 2 ^ 64"
  by (rule body_in_buffer) simp_all

end
