(* ===== verification/Tokens.thy ===== *)
theory Tokens
  imports Prelude
begin

text \<open>
  \<open>Core::TokenizedStringList\<close> (\<^verbatim>\<open>Source/core/TokenizedStringList.h\<close>): a string cut at a separator, and
  put together again.
\<close>

text \<open>
  One \<open>getline\<close> after the other until the stream is no longer good: the part up to the separator,
  and an empty part behind a separator at the end.
\<close>

fun get_lines :: "char \<Rightarrow> string \<Rightarrow> string \<Rightarrow> string list" where
  "get_lines separator part [] = [part]"
| "get_lines separator part (c # cs) =
     (if c = separator then part # get_lines separator [] cs else get_lines separator (part @ [c]) cs)"

definition is_space :: "char \<Rightarrow> bool" where
  "is_space c \<longleftrightarrow> c \<in> {CHR '' '', CHR 0x09, CHR 0x0A, CHR 0x0B, CHR 0x0C, CHR 0x0D}"

text \<open>
  The stream over the string without spaces is local to the block of the condition; the loop reads
  the stream over the original string.
\<close>

definition tokenize :: "bool \<Rightarrow> char \<Rightarrow> string \<Rightarrow> string list \<Rightarrow> string list" where
  "tokenize remove_whitespaces separator buffer parts =
     (if buffer \<noteq> [] then
        let result = (if remove_whitespaces then filter (\<lambda>c. \<not> is_space c) buffer else buffer);
            iss = buffer
        in parts @ get_lines separator [] iss
      else parts)"

definition token_list :: "bool \<Rightarrow> char \<Rightarrow> string \<Rightarrow> string list" where
  "token_list remove_whitespaces separator buffer = tokenize remove_whitespaces separator buffer []"

text \<open>\<open>erase (rfind separator)\<close> cuts from the last separator on.\<close>

definition erase_from_last :: "char \<Rightarrow> string \<Rightarrow> string" where
  "erase_from_last separator s = rev (tl (dropWhile (\<lambda>c. c \<noteq> separator) (rev s)))"

definition all_tokens :: "char \<Rightarrow> string list \<Rightarrow> string" where
  "all_tokens separator parts =
     (if parts \<noteq> [] then erase_from_last separator (concat (map (\<lambda>part. part @ [separator]) parts)) else [])"

lemma erase_last [simp]: "erase_from_last separator (s @ [separator]) = s"
  by (simp add: erase_from_last_def)

lemma concat_get_lines:
  "concat (map (\<lambda>part. part @ [separator]) (get_lines separator part cs)) = part @ cs @ [separator]"
  by (induction cs arbitrary: part) simp_all

lemma get_lines_nonempty [simp]: "get_lines separator part cs \<noteq> []"
  by (induction cs arbitrary: part) simp_all

lemma get_lines_free:
  "separator \<notin> set part \<Longrightarrow> \<forall>p \<in> set (get_lines separator part cs). separator \<notin> set p"
proof (induction cs arbitrary: part)
  case (Cons c cs)
  show ?case
  proof (cases "c = separator")
    case True
    then show ?thesis using Cons.IH [of "[]"] Cons.prems by simp
  next
    case False
    then show ?thesis using Cons.IH [of "part @ [c]"] Cons.prems by simp
  qed
qed simp

text \<open>
  Cutting a string at the separator and joining the parts gives the string back, and no part
  holds the separator: whether or not white space is to be removed, all of it is kept.
\<close>

theorem tokens_roundtrip:
  "all_tokens separator (token_list remove_whitespaces separator buffer) = buffer
   \<and> list_all (\<lambda>part. separator \<notin> set part) (token_list remove_whitespaces separator buffer)"
proof (cases "buffer = []")
  case False
  have "concat (map (\<lambda>part. part @ [separator]) (get_lines separator [] buffer)) = buffer @ [separator]"
    using concat_get_lines [of separator "[]" buffer] by simp
  then have "all_tokens separator (get_lines separator [] buffer) = buffer" by (simp add: all_tokens_def)
  moreover have "list_all (\<lambda>part. separator \<notin> set part) (get_lines separator [] buffer)"
    using get_lines_free [of separator "[]" buffer] by (simp add: list_all_iff)
  ultimately show ?thesis using False by (simp add: token_list_def tokenize_def)
qed (simp add: token_list_def tokenize_def all_tokens_def)

end
