(* ===== verification/Web_Socket_Link.thy ===== *)
theory Web_Socket_Link
  imports Web_Socket Tokens
begin

text \<open>
  \<open>Web::WebSocketLinkType::HandlerType\<close> (\<^verbatim>\<open>Source/websocket/WebSocketLink.h\<close>): the link that starts as
  an HTTP connection, is upgraded to a web socket and from then on moves frames between the socket
  and its parent. The HTTP serializer and deserializer, the parent, the clock and the socket are
  arguments of the operations; what the link calls on them is recorded in order.
\<close>

subsection \<open>State\<close>

abbreviation (input) WEBSERVICE :: u8 where "WEBSERVICE \<equiv> 0x01"
abbreviation (input) UPGRADING :: u8 where "UPGRADING \<equiv> 0x02"
abbreviation (input) WEBSOCKET :: u8 where "WEBSOCKET \<equiv> 0x04"
abbreviation (input) SUSPENDED :: u8 where "SUSPENDED \<equiv> 0x08"
abbreviation (input) READ_ACTIVITY :: u8 where "READ_ACTIVITY \<equiv> 0x10"
abbreviation (input) WRITE_ACTIVITY :: u8 where "WRITE_ACTIVITY \<equiv> 0x20"
abbreviation (input) PINGED :: u8 where "PINGED \<equiv> 0x40"

datatype link_call =
    Received_Data "u8 list"
  | Received_Element
  | Trigger
  | State_Change
  | Submit_Upgrade
  | Close_Socket nat

text \<open>The message that is sent for the upgrade: the answer of a server or the request of a client.\<close>

record upgrade_message =
  um_errorCode :: nat
  um_message :: string
  um_key :: string
  um_accept :: string
  um_protocol :: "string list"

record link =
  lk_handler :: protocol
  lk_state :: u8
  lk_pingFireTime :: nat
  lk_path :: string
  lk_query :: string
  lk_protocol :: "string list"
  lk_origin :: string
  lk_message :: upgrade_message
  lk_calls :: "link_call list"

definition new_link :: "bool \<Rightarrow> bool \<Rightarrow> link" where
  "new_link binary masking =
     \<lparr>lk_handler = new_protocol binary masking, lk_state = WEBSERVICE, lk_pingFireTime = 0, lk_path = [], lk_query = [],
      lk_protocol = [], lk_origin = [],
      lk_message = \<lparr>um_errorCode = 0, um_message = [], um_key = [], um_accept = [], um_protocol = []\<rparr>, lk_calls = []\<rparr>"

definition link_call :: "link_call \<Rightarrow> link \<Rightarrow> link" where
  "link_call c l = l\<lparr>lk_calls := lk_calls l @ [c]\<rparr>"

definition set_flags :: "u8 \<Rightarrow> link \<Rightarrow> link" where
  "set_flags f l = l\<lparr>lk_state := lk_state l OR f\<rparr>"

definition clear_flags :: "u8 \<Rightarrow> link \<Rightarrow> link" where
  "clear_flags f l = l\<lparr>lk_state := lk_state l AND NOT f\<rparr>"

definition is_state_set :: "u8 \<Rightarrow> link \<Rightarrow> bool" where
  "is_state_set f l \<longleftrightarrow> lk_state l AND f \<noteq> 0"

definition reset_activity :: "link \<Rightarrow> link" where
  "reset_activity = clear_flags (READ_ACTIVITY OR WRITE_ACTIVITY)"

definition has_activity :: "link \<Rightarrow> bool" where
  "has_activity = is_state_set (WRITE_ACTIVITY OR READ_ACTIVITY)"

definition is_ping_in_progress :: "link \<Rightarrow> bool" where
  "is_ping_in_progress = is_state_set PINGED"

definition is_completed :: "link \<Rightarrow> bool" where
  "is_completed l \<longleftrightarrow> \<not> receive_in_progress (lk_handler l)"

definition link_ping :: "nat \<Rightarrow> link \<Rightarrow> link" where
  "link_ping now l = link_call Trigger (lk_handler_update ws_ping (set_flags PINGED (l\<lparr>lk_pingFireTime := now\<rparr>)))"

definition link_pong :: "nat \<Rightarrow> link \<Rightarrow> link" where
  "link_pong now l = link_call Trigger (lk_handler_update ws_pong (l\<lparr>lk_pingFireTime := now\<rparr>))"

subsection \<open>Closing\<close>

text \<open>
  What the link sees of its surroundings, at each moment it looks: the socket below, the queue of
  the serializer, the deserializer, the parent.
\<close>

record surroundings =
  sr_open :: bool
  sr_suspended :: bool
  sr_serializer_idle :: bool
  sr_deserializer_idle :: bool
  sr_parent_idle :: bool

abbreviation (input) INFINITE_WAIT :: nat where "INFINITE_WAIT \<equiv> 0xFFFFFFFF"

definition link_is_open :: "surroundings \<Rightarrow> link \<Rightarrow> bool" where
  "link_is_open e l \<longleftrightarrow> sr_open e \<and> \<not> is_state_set SUSPENDED l"

definition link_is_suspended :: "surroundings \<Rightarrow> link \<Rightarrow> bool" where
  "link_is_suspended e l \<longleftrightarrow> sr_suspended e \<or> is_state_set SUSPENDED l"

definition drained :: "surroundings \<Rightarrow> link \<Rightarrow> bool" where
  "drained e l \<longleftrightarrow> link_is_suspended e l \<and> sr_serializer_idle e \<and> sr_deserializer_idle e \<and> sr_parent_idle e"

text \<open>
  The loop sleeps for at most 100 ms and looks again; with an infinite wait the time left does not
  change. \<open>env i\<close> is what the \<open>i\<close>-th look sees; the outcome is the call of \<open>Close\<close>, if any.
\<close>

partial_function (option) close_loop :: "(nat \<Rightarrow> surroundings) \<Rightarrow> nat \<Rightarrow> nat \<Rightarrow> link \<Rightarrow> link option" where
  "close_loop env i waitTime l =
     (if waitTime = 0 then Some l
      else
        let sleepTime = min waitTime 100;
            waitTime = (if waitTime = INFINITE_WAIT then waitTime else waitTime - sleepTime)
        in if \<not> link_is_open (env i) l \<or> drained (env i) l
           then Some (link_call (Close_Socket waitTime) l)
           else close_loop env (Suc i) waitTime l)"

definition check_for_close :: "(nat \<Rightarrow> surroundings) \<Rightarrow> nat \<Rightarrow> link \<Rightarrow> link option" where
  "check_for_close env waitTime l =
     (if drained (env 0) l then Some (link_call (Close_Socket waitTime) l) else close_loop env 1 waitTime l)"

definition link_close :: "(nat \<Rightarrow> surroundings) \<Rightarrow> nat \<Rightarrow> link \<Rightarrow> link option" where
  "link_close env waitTime l =
     check_for_close env waitTime (if link_is_suspended (env 0) l then l else set_flags SUSPENDED l)"

subsection \<open>Receiving\<close>

text \<open>The reaction to a complete control frame.\<close>

definition control_frame :: "link \<Rightarrow> link" where
  "control_frame l =
     (if ws_frameType (lk_handler l) = FT_PING then link_call Trigger (lk_handler_update ws_pong l)
      else if ws_frameType (lk_handler l) = FT_CLOSE then link_call Trigger (lk_handler_update ws_close l)
      else if ws_frameType (lk_handler l) = FT_PONG then
        (if lk_pingFireTime l \<noteq> 0 then (clear_flags PINGED l)\<lparr>lk_pingFireTime := 0\<rparr> else l)
      else l)"

text \<open>The payload of a control frame at the start of \<open>d\<close>, as far as its header is there.\<close>

definition control_payload :: "u8 list \<Rightarrow> nat \<Rightarrow> nat" where
  "control_payload d headerSize =
     (if 1 < headerSize then
        let n = d ! 1 AND 0x7F in
        if n = 126 then (if 3 < headerSize then unat (d ! 2) * 256 + unat (d ! 3) else 0)
        else if n = 127 then
          (if 9 < headerSize
           then fold (\<lambda>i n. (n * 256 + unat (d ! i)) mod 2 ^ 64) [8, 7, 6, 5, 4, 3, 2] (unat (d ! 9)) else 0)
        else unat n
      else 0)"

text \<open>
  One round of the loop over the received bytes, from \<open>result\<close> on; the counter is a
  \<^verbatim>\<open>uint16_t\<close>. The first component says that the rest is too small to go on.
\<close>

definition receive_frame :: "nat \<Rightarrow> nat \<Rightarrow> u8 list \<Rightarrow> link \<Rightarrow> bool \<times> nat \<times> u8 list \<times> link" where
  "receive_frame receivedSize result buffer l =
     (let (headerSize, actualDataSize, d, h) = decoder (drop result buffer) (receivedSize - result) (lk_handler l);
          buffer = take result buffer @ d;
          l = l\<lparr>lk_handler := h\<rparr>
      in if headerSize = 0 \<and> actualDataSize = 0 then (True, result, buffer, l)
         else if ws_frameType h AND 0xF0 \<noteq> 0 then (False, receivedSize, buffer, l)
         else if ws_frameType h AND 0x08 \<noteq> 0 then
           (False, (result + (headerSize + control_payload d headerSize) mod 2 ^ 16) mod 2 ^ 16, buffer,
            if is_complete_message h then control_frame l else l)
         else
           (False, (result + (headerSize + actualDataSize)) mod 2 ^ 16, buffer,
            if actualDataSize \<noteq> 0 then link_call (Received_Data (take actualDataSize (drop headerSize d))) l else l))"

partial_function (option) receive_loop :: "nat \<Rightarrow> nat \<Rightarrow> u8 list \<Rightarrow> link \<Rightarrow> (nat \<times> u8 list \<times> link) option" where
  "receive_loop receivedSize result buffer l =
     (if result < receivedSize then
        (case receive_frame receivedSize result buffer l of
           (tooSmall, result, buffer, l) \<Rightarrow>
             if tooSmall then Some (result, buffer, l) else receive_loop receivedSize result buffer l)
      else Some (result, buffer, l))"

text \<open>\<open>deserialize\<close> is the HTTP deserializer, in charge until the link is upgraded.\<close>

definition receive_data ::
  "(u8 list \<Rightarrow> nat \<Rightarrow> link \<Rightarrow> nat \<times> link) \<Rightarrow> (nat \<Rightarrow> surroundings) \<Rightarrow> u8 list \<Rightarrow> nat \<Rightarrow> link \<Rightarrow> (nat \<times> u8 list \<times> link) option"
where
  "receive_data deserialize env buffer receivedSize l =
     Option.bind
       (let l = set_flags READ_ACTIVITY l in
        if is_state_set WEBSOCKET l then receive_loop receivedSize 0 buffer l
        else case deserialize buffer receivedSize l of (result, l) \<Rightarrow> Some (result, buffer, l))
       (\<lambda>(result, buffer, l).
          if result = 0 then map_option (\<lambda>l. (result, buffer, l)) (check_for_close env 0 l)
          else Some (result, buffer, l))"

subsection \<open>Sending\<close>

text \<open>
  \<open>payload\<close> is what the parent writes from index 4 on, given the room it has; \<open>serialize\<close> is the
  HTTP serializer.
\<close>

definition send_data ::
  "(u8 list \<Rightarrow> nat \<Rightarrow> link \<Rightarrow> nat \<times> u8 list \<times> link) \<Rightarrow> (nat \<Rightarrow> surroundings) \<Rightarrow> (nat \<Rightarrow> u8 list) \<Rightarrow> u32 \<Rightarrow> u32 \<Rightarrow>
   u8 list \<Rightarrow> nat \<Rightarrow> link \<Rightarrow> (nat \<times> u8 list \<times> link) option"
where
  "send_data serialize env payload random random' buffer maxSendSize l =
     (let l = (if is_state_set PINGED l then set_flags WRITE_ACTIVITY l else l);
          (result, buffer, l) =
            (if is_state_set WEBSOCKET l then
               (if 8 < maxSendSize then
                  let bytes = payload (maxSendSize - 8);
                      (result, d, h) = encoder random random' (maxSendSize - 8) (length bytes) (blit buffer 4 bytes) (lk_handler l)
                  in (result, d, l\<lparr>lk_handler := h\<rparr>)
                else (0, buffer, l))
             else serialize buffer maxSendSize l)
      in if result = 0 then map_option (\<lambda>l. (result, buffer, l)) (check_for_close env 0 l)
         else Some (result, buffer, l))"

subsection \<open>Upgrading\<close>

abbreviation (input) STATUS_SWITCH_PROTOCOL :: nat where "STATUS_SWITCH_PROTOCOL \<equiv> 101"
abbreviation (input) STATUS_FORBIDDEN :: nat where "STATUS_FORBIDDEN \<equiv> 403"
abbreviation (input) STATUS_INTERNAL_SERVER_ERROR :: nat where "STATUS_INTERNAL_SERVER_ERROR \<equiv> 500"

text \<open>The fields of an HTTP message that the upgrade looks at; \<open>None\<close> is a field that is not set.\<close>

record http_element =
  he_upgrade :: bool
  he_connection :: bool
  he_path :: string
  he_query :: "string option"
  he_key :: string
  he_protocol :: "string list"
  he_errorCode :: nat
  he_accept :: string

definition protocols_array :: "string \<Rightarrow> string list" where
  "protocols_array = token_list True (CHR '','')"

definition set_mode :: "u8 \<Rightarrow> link \<Rightarrow> link" where
  "set_mode m l = l\<lparr>lk_state := (lk_state l AND 0xF0) OR m\<rparr>"

definition abort_upgrade :: "nat \<Rightarrow> string \<Rightarrow> link \<Rightarrow> link" where
  "abort_upgrade status reason l = lk_message_update (\<lambda>m. m\<lparr>um_errorCode := status, um_message := reason\<rparr>) l"

text \<open>
  A request arrives at the server side. \<open>parent\<close> is the parent's \<open>StateChange\<close>, which may abort the
  upgrade; \<open>response_key\<close> hashes the key of the client.
\<close>

definition received_by_server :: "(link \<Rightarrow> link) \<Rightarrow> (string \<Rightarrow> string) \<Rightarrow> http_element \<Rightarrow> link \<Rightarrow> link" where
  "received_by_server parent response_key element l =
     (if he_upgrade element \<and> he_connection element then
        let l =
          (if \<not> is_state_set WEBSERVICE l
           then lk_message_update (\<lambda>m. m\<lparr>um_errorCode := STATUS_INTERNAL_SERVER_ERROR,
                  um_message := ''State of the link can not be upgraded.''\<rparr>) l
           else
             let l = (set_mode UPGRADING l)\<lparr>lk_protocol := he_protocol element, lk_path := he_path element,
                       lk_query := (case he_query element of Some q \<Rightarrow> q | None \<Rightarrow> [])\<rparr>;
                 l = lk_message_update (\<lambda>m. m\<lparr>um_message := [], um_errorCode := STATUS_SWITCH_PROTOCOL\<rparr>) l;
                 l = parent (link_call State_Change l)
             in if um_errorCode (lk_message l) \<noteq> STATUS_SWITCH_PROTOCOL
                then (set_mode WEBSERVICE l)\<lparr>lk_path := [], lk_query := [], lk_protocol := []\<rparr>
                else lk_message_update (\<lambda>m. m\<lparr>um_accept := response_key (he_key element),
                       um_protocol := (if lk_protocol l = [] then um_protocol m else [hd (lk_protocol l)])\<rparr>) l)
        in link_call Trigger (link_call Submit_Upgrade l)
      else link_call Received_Element l)"

text \<open>The answer of the server has been sent.\<close>

definition upgrade_completed_server :: "link \<Rightarrow> link" where
  "upgrade_completed_server l =
     (if um_errorCode (lk_message l) = STATUS_SWITCH_PROTOCOL then link_call State_Change (set_mode WEBSOCKET l) else l)"

text \<open>The client side asks for the upgrade, with a fresh key.\<close>

definition upgrade_to_websocket ::
  "string \<Rightarrow> string \<Rightarrow> string \<Rightarrow> string \<Rightarrow> string \<Rightarrow> string \<Rightarrow> link \<Rightarrow> bool \<times> link"
where
  "upgrade_to_websocket localId request_key protocol path query origin l =
     (if is_state_set WEBSERVICE l then
        (True, link_call Trigger (link_call Submit_Upgrade
          (lk_message_update (\<lambda>m. m\<lparr>um_key := request_key, 
                      um_protocol := (if protocol = [] then um_protocol m else protocols_array protocol)\<rparr>)
            ((set_mode UPGRADING l)\<lparr>lk_origin := (if origin = [] then localId else origin),
               lk_query := query, lk_path := path, lk_protocol := protocols_array protocol\<rparr>))))
      else (False, l))"

definition received_by_client ::
  "(nat \<Rightarrow> surroundings) \<Rightarrow> (string \<Rightarrow> string) \<Rightarrow> http_element \<Rightarrow> link \<Rightarrow> link option"
where
  "received_by_client env response_key element l =
     (if he_errorCode element = STATUS_SWITCH_PROTOCOL \<and> he_accept element = response_key (um_key (lk_message l))
      then Some (link_call Trigger (link_call State_Change (set_mode WEBSOCKET l)))
      else if he_errorCode element = STATUS_FORBIDDEN then link_close env 0 l
      else Some (link_call Received_Element l))"

end
