(* ===== verification/Link_Properties.thy ===== *)
theory Link_Properties
  imports Web_Socket_Link
begin

text \<open>
  What the web socket link guarantees: it delivers the payload that was sent and it closes; and what it
  does with control frames whose announced length does not match the buffer, and with an upgrade that ends after Close.
\<close>

subsection \<open>Delivering\<close>

definition received :: "link \<Rightarrow> u8 list" where
  "received l = concat (map (\<lambda>c. case c of Received_Data xs \<Rightarrow> xs | _ \<Rightarrow> []) (lk_calls l))"

text \<open>
  The bytes a sender writes for a list of payloads, each encoded with its random key and the room
  it has.
\<close>

fun transmit :: "(u32 \<times> nat \<times> u8 list) list \<Rightarrow> protocol \<Rightarrow> u8 list" where
  "transmit [] s = []"
| "transmit ((random, maxSendSize, payload) # ms) s =
     (case encoder random 0 maxSendSize (length payload) (replicate 4 0 @ payload @ replicate 4 0) s of
        (n, d, s) \<Rightarrow> take n d @ transmit ms s)"

lemma staged_example: "staged payload (replicate 4 0 @ payload @ replicate 4 0)"
  by (simp add: staged_def)

lemma transmit_Cons:
  assumes "no_requests s"
  shows "transmit ((random, maxSendSize, payload) # ms) s =
    (if payload \<noteq> [] \<or> send_in_progress s
     then sent_frame random maxSendSize payload s @ transmit ms (after_send maxSendSize (length payload) s)
     else transmit ms s)"
proof (cases "payload \<noteq> [] \<or> send_in_progress s")
  case True
  then show ?thesis
    using encoder_frame [OF staged_example assms True, of random 0 maxSendSize] by auto
next
  case False
  then have "encoder random 0 maxSendSize (length payload) (replicate 4 0 @ payload @ replicate 4 0) s =
      (0, replicate 4 0 @ payload @ replicate 4 0, s)"
    using assms by (simp add: encoder_def)
  then show ?thesis using False by simp
qed

lemma no_requests_after [simp]: "no_requests (after_send m n s) = no_requests s"
  by (simp add: no_requests_def after_send_def)

lemma received_call [simp]:
  "received (link_call c l) = received l @ (case c of Received_Data xs \<Rightarrow> xs | _ \<Rightarrow> [])"
  by (simp add: received_def link_call_def)

lemma link_call_simps [simp]:
  "lk_handler (link_call c l) = lk_handler l" "lk_state (link_call c l) = lk_state l"
  "lk_calls (link_call c l) = lk_calls l @ [c]" "lk_message (link_call c l) = lk_message l"
  "lk_pingFireTime (link_call c l) = lk_pingFireTime l"
  by (simp_all add: link_call_def)

lemma flags_simps [simp]:
  "lk_handler (set_flags f l) = lk_handler l" "lk_calls (set_flags f l) = lk_calls l"
  "received (set_flags f l) = received l" "lk_message (set_flags f l) = lk_message l"
  "lk_handler (clear_flags f l) = lk_handler l" "lk_calls (clear_flags f l) = lk_calls l"
  by (simp_all add: set_flags_def clear_flags_def received_def)

lemma set_flags_keeps: "is_state_set f l \<Longrightarrow> is_state_set f (set_flags g l)"
  by (auto simp: is_state_set_def set_flags_def bit_eq_iff bit_simps)

text \<open>One round of the loop on a whole frame.\<close>

lemma receive_sent_frame:
  assumes "in_sync s (lk_handler l)" "length payload < 2 ^ 16"
    and "length pre + length (sent_frame random m payload s) + length rest < 2 ^ 16"
  shows "\<exists>pre' l'. receive_frame (length pre + length (sent_frame random m payload s) + length rest) (length pre)
      (pre @ sent_frame random m payload s @ rest) l =
      (False, length pre + length (sent_frame random m payload s), pre' @ rest, l')
    \<and> length pre' = length pre + length (sent_frame random m payload s)
    \<and> in_sync (after_send m (length payload) s) (lk_handler l') \<and> received l' = received l @ payload"
proof -
  let ?b = "opcode_byte m (length payload) s"
  let ?key = "if bit (ws_setFlags s) 7 then Some (mask_key random) else None"
  let ?f = "sent_frame random m payload s"
  obtain h where h: "h = length (frame ?b ?key payload) - length payload" by blast
  have lf: "length ?f = h + length payload" "2 \<le> h" "h \<le> length ?f"
    using length_frame(1) [where k = "mask_key random" and b = ?b and payload = payload] length_frame(2) [of ?b payload]
    by (auto simp: h sent_frame_def)
  have k: "case ?key of None \<Rightarrow> True | Some k \<Rightarrow> length k = 4" by simp
  have r: "ws_pending (lk_handler l) = 0" "ws_progress (lk_handler l) AND 0x0C = 0"
    using assms(1) by (simp_all add: in_sync_def)
  obtain d' p' where d: "decoder (take (length (?f @ rest)) (?f @ rest)) (length (?f @ rest)) (lk_handler l) = (h, length ?f - h, d', p')"
    "take (length ?f - h) (drop h d') = take (length ?f - h) payload" "length d' = length (?f @ rest)"
    "drop (length ?f) d' = drop (length ?f) (take (length (?f @ rest)) (?f @ rest))"
    "expects p' (length ?f - length ?f) (length ?f - h) ?key"
    "ws_setFlags p' = ws_setFlags (lk_handler l)" "ws_frameType p' = ws_frameType (classify ?b (lk_handler l))"
    "ws_progress p' AND 0x0C = 0" "ws_progress p' AND 0x80 = ws_progress (classify ?b (lk_handler l)) AND 0x80"
    using decode_first [OF r sync_good(1) [OF assms(1)] assms(2) k h, of "length (?f @ rest)" rest "length ?f"] lf assms(3)
    unfolding sent_frame_def [symmetric] by auto
  have p: "ws_pending p' = 0" using d(5) by (simp add: expects_def)
  have s: "in_sync (after_send m (length payload) s) p'"
    using sync_after [OF assms(1) d(6) p d(8)] d(9) sync_classify(2) [OF assms(1)] by simp
  have out: "take (length payload) (drop h d') = payload" using d(2) lf by simp
  have e: "d' = take (length ?f) d' @ rest" using append_take_drop_id [of "length ?f" d'] d(4) by simp
  have dec: "decoder (drop (length pre) (pre @ ?f @ rest)) (length pre + length ?f + length rest - length pre) (lk_handler l) =
      (h, length payload, d', p')"
    using d(1) lf(1) by (simp add: add.assoc)
  have t: "ws_frameType p' AND 0xF0 = 0" "ws_frameType p' AND 0x08 = 0"
    unfolding d(7) by (rule sync_good [OF assms(1)])+
  obtain l' where l': "l' = (if payload \<noteq> [] then link_call (Received_Data payload) (l\<lparr>lk_handler := p'\<rparr>) else l\<lparr>lk_handler := p'\<rparr>)"
    by blast
  have "receive_frame (length pre + length ?f + length rest) (length pre) (pre @ ?f @ rest) l =
      (False, length pre + length ?f, pre @ d', l')"
    unfolding receive_frame_def dec Let_def prod.case using t lf assms(3) out by (simp add: l')
  moreover have "pre @ d' = (pre @ take (length ?f) d') @ rest" using e by simp
  moreover have "length (pre @ take (length ?f) d') = length pre + length ?f" using d(3) by simp
  moreover have lp: "lk_handler l' = p'" "received l' = received l @ payload"
    by (simp_all add: l' received_def)
  ultimately show ?thesis using s unfolding lp(1) [symmetric] by metis
qed

lemma receive_transmitted:
  assumes "no_requests s" "in_sync s (lk_handler l)" "\<forall>(random, m, payload) \<in> set ms. length payload < 2 ^ 16"
    and "length pre + length (transmit ms s) < 2 ^ 16"
  shows "\<exists>buffer s' l'. receive_loop (length pre + length (transmit ms s)) (length pre) (pre @ transmit ms s) l =
      Some (length pre + length (transmit ms s), buffer, l')
    \<and> in_sync s' (lk_handler l') \<and> received l' = received l @ concat (map (\<lambda>m. snd (snd m)) ms)"
  using assms
proof (induction ms arbitrary: s l pre)
  case Nil
  then show ?case by (subst receive_loop.simps) auto
next
  case (Cons msg ms)
  obtain random m payload where msg: "msg = (random, m, payload)" by (cases msg)
  show ?case
  proof (cases "payload \<noteq> [] \<or> send_in_progress s")
    case False
    then have "transmit (msg # ms) s = transmit ms s"
      unfolding msg transmit_Cons [OF Cons.prems(1)] by simp
    then show ?thesis using Cons.IH [OF Cons.prems(1,2), of pre] Cons.prems(3,4) False by (simp add: msg)
  next
    case True
    let ?f = "sent_frame random m payload s" and ?s = "after_send m (length payload) s"
    have tr: "transmit (msg # ms) s = ?f @ transmit ms ?s"
      unfolding msg transmit_Cons [OF Cons.prems(1)] using True by simp
    have len: "length payload < 2 ^ 16" using Cons.prems(3) by (simp add: msg)
    have tot: "length pre + length ?f + length (transmit ms ?s) < 2 ^ 16" using Cons.prems(4) tr by simp
    obtain pre' l1 where l1: "receive_frame (length pre + length ?f + length (transmit ms ?s)) (length pre) (pre @ ?f @ transmit ms ?s) l =
        (False, length pre + length ?f, pre' @ transmit ms ?s, l1)"
      "length pre' = length pre + length ?f" "in_sync ?s (lk_handler l1)" "received l1 = received l @ payload"
      using receive_sent_frame [OF Cons.prems(2) len tot] by blast
    have f: "0 < length ?f" by (simp add: sent_frame_def frame_def)
    obtain buffer s' l' where l': "receive_loop (length pre' + length (transmit ms ?s)) (length pre') (pre' @ transmit ms ?s) l1 =
        Some (length pre' + length (transmit ms ?s), buffer, l')"
      "in_sync s' (lk_handler l')" "received l' = received l1 @ concat (map (\<lambda>m. snd (snd m)) ms)"
      using Cons.IH [of ?s l1 pre'] Cons.prems(1,3) l1(2,3) tot by auto
    have "receive_loop (length pre + length (transmit (msg # ms) s)) (length pre) (pre @ transmit (msg # ms) s) l =
        Some (length pre + length (transmit (msg # ms) s), buffer, l')"
      unfolding tr using l1(1) l'(1) f by (subst receive_loop.simps) (simp add: l1(2) add.assoc)
    moreover have "received l' = received l @ concat (map (\<lambda>m. snd (snd m)) (msg # ms))"
      using l'(3) l1(4) by (simp add: msg)
    ultimately show ?thesis using l'(2) by blast
  qed
qed

lemma received_check_for_close:
  "\<exists>l'. check_for_close env 0 l = Some l' \<and> received l' = received l \<and> lk_handler l' = lk_handler l"
  by (simp add: check_for_close_def close_loop.simps)

text \<open>
  C4: Whatever list of payloads a sender encodes, in however many frames and with or without
  masking, one read of all the bytes hands the parent exactly the payloads in order, counts every
  byte as handled, and leaves sender and receiver in step for the next frame.
\<close>

theorem link_delivers_stream:
  assumes "no_requests s" "in_sync s (lk_handler l)" "is_state_set WEBSOCKET l"
    and "\<forall>(random, m, payload) \<in> set ms. length payload < 2 ^ 16" "length (transmit ms s) < 2 ^ 16"
  shows "\<exists>buffer s' l'. receive_data deserialize env (transmit ms s) (length (transmit ms s)) l =
      Some (length (transmit ms s), buffer, l')
    \<and> in_sync s' (lk_handler l') \<and> received l' = received l @ concat (map (\<lambda>m. snd (snd m)) ms)"
proof -
  obtain buffer s' l' where l': "receive_loop (length (transmit ms s)) 0 (transmit ms s) (set_flags READ_ACTIVITY l) =
      Some (length (transmit ms s), buffer, l')"
    "in_sync s' (lk_handler l')" "received l' = received l @ concat (map (\<lambda>m. snd (snd m)) ms)"
    using receive_transmitted [OF assms(1), of "set_flags READ_ACTIVITY l" ms "[]"] assms(2,4,5) by auto
  obtain l'' where "check_for_close env 0 l' = Some l''" "received l'' = received l'" "lk_handler l'' = lk_handler l'"
    using received_check_for_close by blast
  then show ?thesis
    using l' set_flags_keeps [OF assms(3)] by (cases "transmit ms s = []") (auto simp: receive_data_def)
qed

text \<open>
  The witness sends "Hi" and "!" as two fragments of a masked text message, the first of which fills
  the room of its frame.
\<close>

theorem link_delivers_stream_witness:
  "\<exists>buffer s' l'. receive_data (\<lambda>_ _ l. (0, l)) (\<lambda>_. \<lparr>sr_open = True, sr_suspended = False, sr_serializer_idle = True,
        sr_deserializer_idle = True, sr_parent_idle = True\<rparr>)
      (transmit [(7, 2, [0x48, 0x69]), (9, 100, [0x21])] (new_protocol False True))
      (length (transmit [(7, 2, [0x48, 0x69]), (9, 100, [0x21])] (new_protocol False True)))
      (set_mode WEBSOCKET (new_link False False)) =
      Some (length (transmit [(7, 2, [0x48, 0x69]), (9, 100, [0x21])] (new_protocol False True)), buffer, l')
    \<and> in_sync s' (lk_handler l')
    \<and> received l' = received (set_mode WEBSOCKET (new_link False False)) @
        concat (map (\<lambda>m. snd (snd m)) [(7 :: u32, 2 :: nat, [0x48, 0x69]), (9, 100, [0x21])])"
proof (rule link_delivers_stream)
  have "transmit [(7, 2, [0x48, 0x69]), (9, 100, [0x21])] (new_protocol False True) =
      [0x01, 0x82, 7, 0, 0, 0, 0x4F, 0x69, 0x80, 0x81, 9, 0, 0, 0, 0x28]" by code_simp
  then show "length (transmit [(7, 2, [0x48, 0x69]), (9, 100, [0x21])] (new_protocol False True)) < 2 ^ 16" by simp
qed (simp_all add: no_requests_def new_protocol_def new_link_def set_mode_def in_sync_def send_in_progress_def
      receive_in_progress_def is_state_set_def)

subsection \<open>Control frames\<close>

text \<open>An unmasked control frame at the start of the buffer: the decoder only looks at its header.\<close>

definition control_opcode :: "u8 \<Rightarrow> bool" where
  "control_opcode b \<longleftrightarrow> b \<in> {0x88, 0x89, 0x8A}"

lemma classify_control:
  assumes "control_opcode b"
  shows "ws_frameType (classify b p) = b AND 0x0F" "ws_control (classify b p) = ws_control p"
  using assms by (auto simp: classify_def control_opcode_def Let_def)

lemma decode_control:
  assumes "control_opcode b" "ws_pending p = 0" "n AND 0x80 = 0" "n \<noteq> 0x7F"
    and "header_size (b # n # rest) \<le> Suc (Suc (length rest))"
  shows "decoder (b # n # rest) (Suc (Suc (length rest))) p =
    (header_size (b # n # rest), Suc (Suc (length rest)), b # n # rest, classify b p)"
proof -
  have "ws_frameType (classify b p) AND 0xF8 \<noteq> 0"
    using assms(1) classify_control(1) [OF assms(1), of p] by (auto simp: control_opcode_def)
  then show ?thesis using assms(2,5) by (simp add: decoder_def Let_def)
qed

lemma control_frame_handler:
  "ws_pending (lk_handler (control_frame l)) = ws_pending (lk_handler l)"
  by (simp add: control_frame_def ws_pong_def ws_close_def)

text \<open>A round on such a frame.\<close>

lemma receive_control:
  assumes "control_opcode b" "ws_pending (lk_handler l) = 0" "n AND 0x80 = 0" "n \<noteq> 0x7F"
    and "header_size (b # n # rest) \<le> Suc (Suc (length rest))"
  shows "receive_frame (Suc (Suc (length rest))) 0 (b # n # rest) l =
    (False, (header_size (b # n # rest) + control_payload (b # n # rest) (header_size (b # n # rest))) mod 2 ^ 16, b # n # rest,
     control_frame (l\<lparr>lk_handler := classify b (lk_handler l)\<rparr>))"
proof -
  have d: "decoder (drop 0 (b # n # rest)) (Suc (Suc (length rest)) - 0) (lk_handler l) =
    (header_size (b # n # rest), Suc (Suc (length rest)), b # n # rest, classify b (lk_handler l))"
    using decode_control [OF assms] by simp
  have "(b AND 0x0F) AND 0xF0 = 0" "(b AND 0x0F) AND 0x08 \<noteq> 0" using assms(1) by (auto simp: control_opcode_def)
  then show ?thesis
    unfolding receive_frame_def d Let_def prod.case using assms(2) classify_control(1) [OF assms(1)]
    by (simp add: is_complete_message_def)
qed

text \<open>
  A control frame that announces 65532 bytes of payload, by the two extra bytes of its length,
  makes the 16 bit counter of the loop come out at the start of the buffer again. The link handles
  the same frame for ever, with its lock held, and \<open>ReceiveData\<close> does not return.
\<close>

theorem control_frame_hangs:
  assumes "control_opcode b" "ws_pending (lk_handler l) = 0" "is_state_set WEBSOCKET l"
  shows "receive_data deserialize env (b # 0x7E # 0xFF # 0xFC # rest) (length rest + 4) l = None"
proof -
  let ?d = "b # 0x7E # 0xFF # 0xFC # rest"
  have h: "header_size ?d = 4" "control_payload ?d 4 = 65532" by (simp_all add: header_size_def control_payload_def Let_def)
  have e: "Suc (Suc (length (0xFF # 0xFC # rest))) = length rest + 4" by simp
  have step: "receive_frame (length rest + 4) 0 ?d m = (False, 0, ?d, control_frame (m\<lparr>lk_handler := classify b (lk_handler m)\<rparr>))"
    if "ws_pending (lk_handler m) = 0" for m
    using receive_control [OF assms(1) that, of "0x7E" "0xFF # 0xFC # rest"] unfolding e h by simp
  have no: "receive_loop n result buffer m = Some r \<Longrightarrow>
      \<not> (n = length rest + 4 \<and> result = 0 \<and> buffer = ?d \<and> ws_pending (lk_handler m) = 0)" for n result buffer m r
  proof (rule receive_loop.raw_induct [where P = "\<lambda>n result buffer m r.
        \<not> (n = length rest + 4 \<and> result = 0 \<and> buffer = ?d \<and> ws_pending (lk_handler m) = 0)"])
    fix f n result buffer m r
    assume IH: "\<And>n result buffer m r. f n result buffer m = Some r \<Longrightarrow>
        \<not> (n = length rest + 4 \<and> result = 0 \<and> buffer = ?d \<and> ws_pending (lk_handler m) = 0)"
      and eq: "(if result < n then (case receive_frame n result buffer m of (tooSmall, result, buffer, m) \<Rightarrow>
          if tooSmall then Some (result, buffer, m) else f n result buffer m) else Some (result, buffer, m)) = Some r"
    show "\<not> (n = length rest + 4 \<and> result = 0 \<and> buffer = ?d \<and> ws_pending (lk_handler m) = 0)"
    proof
      assume a: "n = length rest + 4 \<and> result = 0 \<and> buffer = ?d \<and> ws_pending (lk_handler m) = 0"
      then have "f n 0 ?d (control_frame (m\<lparr>lk_handler := classify b (lk_handler m)\<rparr>)) = Some r"
        using eq step [of m] by auto
      from IH [OF this] a show False by (simp add: control_frame_handler)
    qed
  qed
  have "receive_loop (length rest + 4) 0 ?d (set_flags READ_ACTIVITY l) = None"
    using no [of "length rest + 4" 0 ?d "set_flags READ_ACTIVITY l"] assms(2)
    by (cases "receive_loop (length rest + 4) 0 ?d (set_flags READ_ACTIVITY l)") auto
  then show ?thesis using set_flags_keeps [OF assms(3)] by (simp add: receive_data_def)
qed

theorem control_frame_hangs_witness:
  "receive_data (\<lambda>_ _ l. (0, l)) (\<lambda>_. undefined) (0x89 # 0x7E # 0xFF # 0xFC # []) (length ([] :: u8 list) + 4)
    (set_mode WEBSOCKET (new_link False False)) = None"
  by (rule control_frame_hangs) (simp_all add: control_opcode_def new_link_def set_mode_def new_protocol_def is_state_set_def)

text \<open>
  A control frame with a short payload is counted with its whole announced payload, whether or
  not that has arrived: a ping requests a pong and triggers the socket, a close requests a close,
  and the number of handled bytes is larger than the number received when the payload is cut off.
\<close>

theorem control_frame_counted:
  assumes "control_opcode b" "ws_pending (lk_handler l) = 0" "is_state_set WEBSOCKET l" "n \<le> 125" "length part \<le> n"
  shows "receive_data deserialize env (b # of_nat n # part) (length part + 2) l =
    Some (n + 2, b # of_nat n # part,
      control_frame ((set_flags READ_ACTIVITY l)\<lparr>lk_handler := classify b (lk_handler l)\<rparr>))"
proof -
  let ?d = "b # of_nat n # part"
  have n: "(of_nat n :: u8) AND 0x80 = 0" "(of_nat n :: u8) AND 0x7F = of_nat n" "unat (of_nat n :: u8) = n"
    using length_byte(2) [of n 0] small_byte [of n] assms(4) by simp_all
  have ne: "(of_nat n :: u8) \<noteq> 0x7E" "(of_nat n :: u8) \<noteq> 0x7F" using n(3) assms(4) by auto
  have h: "header_size ?d = 2" using n ne by (simp add: header_size_def Let_def)
  have c: "control_payload ?d 2 = n" using n ne by (simp add: control_payload_def Let_def)
  have f: "receive_frame (length part + 2) 0 ?d (set_flags READ_ACTIVITY l) = (False, n + 2, ?d,
      control_frame ((set_flags READ_ACTIVITY l)\<lparr>lk_handler := classify b (lk_handler l)\<rparr>))"
    using receive_control [OF assms(1), of "set_flags READ_ACTIVITY l" "of_nat n" part] assms(2,4) n(1) ne h c by simp
  have "receive_loop (length part + 2) 0 ?d (set_flags READ_ACTIVITY l) = Some (n + 2, ?d,
      control_frame ((set_flags READ_ACTIVITY l)\<lparr>lk_handler := classify b (lk_handler l)\<rparr>))"
    using f assms(5) by (subst receive_loop.simps) (simp, subst receive_loop.simps, simp)
  then show ?thesis using set_flags_keeps [OF assms(3)] by (simp add: receive_data_def)
qed

theorem control_frame_counted_witness:
  "receive_data (\<lambda>_ _ l. (0, l)) (\<lambda>_. undefined) (0x89 # of_nat 5 # [1, 2]) (length [1, 2 :: u8] + 2)
    (set_mode WEBSOCKET (new_link False False)) =
    Some (5 + 2, 0x89 # of_nat 5 # [1, 2],
      control_frame ((set_flags READ_ACTIVITY (set_mode WEBSOCKET (new_link False False)))
        \<lparr>lk_handler := classify 0x89 (lk_handler (set_mode WEBSOCKET (new_link False False)))\<rparr>))"
  by (rule control_frame_counted) (simp_all add: control_opcode_def new_link_def set_mode_def new_protocol_def is_state_set_def)

subsection \<open>Closing\<close>

definition closable :: "(nat \<Rightarrow> surroundings) \<Rightarrow> link \<Rightarrow> nat \<Rightarrow> bool" where
  "closable env l i \<longleftrightarrow> \<not> link_is_open (env i) l \<or> drained (env i) l"

lemma close_loop_finite:
  assumes "waitTime < INFINITE_WAIT"
  shows "\<exists>k. k \<le> (waitTime + 99) div 100 \<and>
    ((\<forall>j < k. \<not> closable env l (i + j)) \<and>
     (if k = (waitTime + 99) div 100 then close_loop env i waitTime l = Some l
      else closable env l (i + k) \<and> close_loop env i waitTime l = Some (link_call (Close_Socket (waitTime - min waitTime (100 * Suc k))) l)))"
  using assms
proof (induction waitTime arbitrary: i rule: less_induct)
  case (less w)
  show ?case
  proof (cases "w = 0")
    case True
    then show ?thesis by (intro exI [of _ 0]) (simp add: close_loop.simps)
  next
    case w: False
    show ?thesis
    proof (cases "closable env l i")
      case True
      then have "close_loop env i w l = Some (link_call (Close_Socket (w - min w 100)) l)"
        using w less.prems by (simp add: close_loop.simps closable_def)
      moreover have "0 \<noteq> (w + 99) div 100" using w by simp
      ultimately show ?thesis using True by (intro exI [of _ 0]) simp
    next
      case False
      then have s: "close_loop env i w l = close_loop env (Suc i) (w - min w 100) l"
        using w less.prems by (subst close_loop.simps) (simp add: closable_def Let_def)
      have "w - min w 100 < w" "w - min w 100 < INFINITE_WAIT" using w less.prems by auto
      from less.IH [OF this, of "Suc i"] obtain k where k: "k \<le> (w - min w 100 + 99) div 100"
        "\<forall>j < k. \<not> closable env l (Suc i + j)"
        "if k = (w - min w 100 + 99) div 100 then close_loop env (Suc i) (w - min w 100) l = Some l
         else closable env l (Suc i + k) \<and> close_loop env (Suc i) (w - min w 100) l =
           Some (link_call (Close_Socket (w - min w 100 - min (w - min w 100) (100 * Suc k))) l)"
        by blast
      have d: "(w + 99) div 100 = Suc ((w - min w 100 + 99) div 100)"
      proof (cases "w \<le> 100")
        case True
        then have "w + 99 = 100 + (w - 1)" "w - 1 < 100" using w by auto
        then show ?thesis using True by simp
      next
        case False
        then have "w + 99 = 100 + (w - 100 + 99)" by simp
        then show ?thesis using False by (simp add: min_def)
      qed
      have m: "w - min w 100 - min (w - min w 100) (100 * Suc k) = w - min w (100 * Suc (Suc k))" by auto
      have "\<forall>j < Suc k. \<not> closable env l (i + j)"
        using k(2) False by (auto simp: less_Suc_eq_0_disj)
      then show ?thesis using k(1,3) s d m by (intro exI [of _ "Suc k"]) auto
    qed
  qed
qed

lemma close_loop_infinite:
  "(\<forall>i \<ge> n. \<not> closable env l i) \<longleftrightarrow> close_loop env n INFINITE_WAIT l = None"
proof
  have no: "close_loop env i waitTime m = Some r \<Longrightarrow> \<not> (waitTime = INFINITE_WAIT \<and> m = l \<and> (\<forall>j \<ge> i. \<not> closable env l j))"
    for i waitTime m r
  proof (rule close_loop.raw_induct [where P = "\<lambda>env i waitTime m r.
        \<not> (waitTime = INFINITE_WAIT \<and> m = l \<and> (\<forall>j \<ge> i. \<not> closable env l j))"])
    fix f env i waitTime m r
    assume IH: "\<And>env i waitTime m r. f env i waitTime m = Some r \<Longrightarrow>
        \<not> (waitTime = INFINITE_WAIT \<and> m = l \<and> (\<forall>j \<ge> i. \<not> closable env l j))"
      and eq: "(if waitTime = 0 then Some m else let sleepTime = min waitTime 100;
          waitTime = if waitTime = INFINITE_WAIT then waitTime else waitTime - sleepTime
        in if \<not> link_is_open (env i) m \<or> drained (env i) m then Some (link_call (Close_Socket waitTime) m)
           else f env (Suc i) waitTime m) = Some r"
    show "\<not> (waitTime = INFINITE_WAIT \<and> m = l \<and> (\<forall>j \<ge> i. \<not> closable env l j))"
    proof
      assume a: "waitTime = INFINITE_WAIT \<and> m = l \<and> (\<forall>j \<ge> i. \<not> closable env l j)"
      then have "f env (Suc i) INFINITE_WAIT l = Some r"
        using eq by (auto simp: closable_def Let_def split: if_splits)
      from IH [OF this] a show False by auto
    qed
  qed auto
  assume "\<forall>i \<ge> n. \<not> closable env l i"
  then show "close_loop env n INFINITE_WAIT l = None"
    using no [of n INFINITE_WAIT l] by (cases "close_loop env n INFINITE_WAIT l") auto
next
  assume none: "close_loop env n INFINITE_WAIT l = None"
  have "close_loop env (n + i) INFINITE_WAIT l = None \<and> (\<forall>j < i. \<not> closable env l (n + j))" for i
  proof (induction i)
    case (Suc i)
    then have "close_loop env (n + i) INFINITE_WAIT l = None" by simp
    then have "\<not> closable env l (n + i) \<and> close_loop env (Suc (n + i)) INFINITE_WAIT l = None"
      by (subst (asm) close_loop.simps) (auto simp: closable_def Let_def split: if_splits)
    then show ?case using Suc.IH by (auto simp: less_Suc_eq)
  next
    case 0
    then show ?case using none by simp
  qed
  then show "\<forall>i \<ge> n. \<not> closable env l i" by (metis le_Suc_ex lessI)
qed

text \<open>
  Waiting for the link to drain takes at most one look at the surroundings for every 100 ms of
  the wait: it returns, and the socket is closed at the first look at which the link is not open
  or has drained. With an infinite wait it returns exactly when such a look comes.
\<close>

theorem close_terminates:
  "(waitTime < INFINITE_WAIT \<longrightarrow> (\<exists>l'. check_for_close env waitTime l = Some l' \<and>
      (if drained (env 0) l then l' = link_call (Close_Socket waitTime) l
       else if \<exists>i \<in> {1..(waitTime + 99) div 100}. closable env l i then (\<exists>w \<le> waitTime. l' = link_call (Close_Socket w) l)
       else l' = l)))
   \<and> (check_for_close env INFINITE_WAIT l = None \<longleftrightarrow> \<not> drained (env 0) l \<and> (\<forall>i \<ge> 1. \<not> closable env l i))"
proof
  show "waitTime < INFINITE_WAIT \<longrightarrow> (\<exists>l'. check_for_close env waitTime l = Some l' \<and>
      (if drained (env 0) l then l' = link_call (Close_Socket waitTime) l
       else if \<exists>i \<in> {1..(waitTime + 99) div 100}. closable env l i then (\<exists>w \<le> waitTime. l' = link_call (Close_Socket w) l)
       else l' = l))"
  proof
    assume "waitTime < INFINITE_WAIT"
    then obtain k where k: "k \<le> (waitTime + 99) div 100" "\<forall>j < k. \<not> closable env l (1 + j)"
      "if k = (waitTime + 99) div 100 then close_loop env 1 waitTime l = Some l
       else closable env l (1 + k) \<and> close_loop env 1 waitTime l = Some (link_call (Close_Socket (waitTime - min waitTime (100 * Suc k))) l)"
      using close_loop_finite [of waitTime env l 1] by blast
    have none: "\<not> closable env l i" if "i \<in> {1..k}" for i
      using k(2) that by (cases i) auto
    show "\<exists>l'. check_for_close env waitTime l = Some l' \<and>
      (if drained (env 0) l then l' = link_call (Close_Socket waitTime) l
       else if \<exists>i \<in> {1..(waitTime + 99) div 100}. closable env l i then (\<exists>w \<le> waitTime. l' = link_call (Close_Socket w) l)
       else l' = l)"
    proof (cases "k = (waitTime + 99) div 100")
      case True
      then show ?thesis using k(3) none by (auto simp: check_for_close_def)
    next
      case False
      then have "1 + k \<in> {1..(waitTime + 99) div 100}" "closable env l (1 + k)" using k(1,3) by auto
      then have e: "\<exists>i \<in> {1..(waitTime + 99) div 100}. closable env l i" by blast
      have "waitTime - min waitTime (100 * Suc k) \<le> waitTime" by simp
      then have "\<exists>w \<le> waitTime. close_loop env 1 waitTime l = Some (link_call (Close_Socket w) l)"
        using k(3) False by metis
      then show ?thesis using e by (auto simp: check_for_close_def)
    qed
  qed
  show "check_for_close env INFINITE_WAIT l = None \<longleftrightarrow> \<not> drained (env 0) l \<and> (\<forall>i \<ge> 1. \<not> closable env l i)"
    using close_loop_infinite [of 1 env l] by (simp add: check_for_close_def)
qed

theorem close_terminates_witness:
  "\<exists>l'. check_for_close (\<lambda>i. \<lparr>sr_open = True, sr_suspended = False, sr_serializer_idle = (2 \<le> i), sr_deserializer_idle = True,
        sr_parent_idle = True\<rparr>) 250 (set_flags SUSPENDED (new_link False False)) = Some l'
    \<and> (\<exists>w \<le> 250. l' = link_call (Close_Socket w) (set_flags SUSPENDED (new_link False False)))"
proof -
  let ?env = "\<lambda>i :: nat. \<lparr>sr_open = True, sr_suspended = False, sr_serializer_idle = (2 \<le> i), sr_deserializer_idle = True,
        sr_parent_idle = True\<rparr>"
  let ?l = "set_flags SUSPENDED (new_link False False)"
  have s: "is_state_set SUSPENDED ?l" by (simp add: is_state_set_def set_flags_def new_link_def)
  have "\<not> drained (?env 0) ?l" by (simp add: drained_def)
  moreover have "\<exists>i \<in> {1..(250 + 99) div 100 :: nat}. closable ?env ?l i"
    using s by (intro bexI [of _ 2]) (simp_all add: closable_def link_is_open_def)
  ultimately show ?thesis using close_terminates [of 250 ?env ?l] by simp
qed

subsection \<open>Upgrading\<close>

lemma is_state_set_mode:
  "is_state_set f (set_mode m l) \<longleftrightarrow> lk_state l AND 0xF0 AND f \<noteq> 0 \<or> m AND f \<noteq> 0"
  by (auto simp: is_state_set_def set_mode_def bit_eq_iff bit_simps)

lemma is_state_set_flags: "is_state_set f (set_flags g l) \<longleftrightarrow> is_state_set f l \<or> g AND f \<noteq> 0"
  by (auto simp: is_state_set_def set_flags_def bit_eq_iff bit_simps)

text \<open>
  Close stops a link from accepting new messages by setting \<open>SUSPENDED\<close>; an upgrade that was
  under way then completes and clears that flag again, because it keeps only the upper four bits of
  the state: the closed link is open as a web socket.
\<close>

theorem upgrade_reopens_closed_link:
  assumes "link_close env waitTime l = Some l'" "\<not> sr_suspended (env 0)" "sr_open e"
    and "um_errorCode (lk_message l) = STATUS_SWITCH_PROTOCOL"
  shows "\<not> link_is_open e l' \<and> link_is_open e (upgrade_completed_server l')"
proof -
  obtain m where m: "m = (if link_is_suspended (env 0) l then l else set_flags SUSPENDED l)" by blast
  have sm: "is_state_set SUSPENDED m" "um_errorCode (lk_message m) = STATUS_SWITCH_PROTOCOL"
    using assms(2,4) by (auto simp: m link_is_suspended_def is_state_set_flags)
  have c: "close_loop env i w l1 = Some l2 \<Longrightarrow> lk_state l2 = lk_state l1 \<and> lk_message l2 = lk_message l1" for i w l1 l2
  proof (rule close_loop.raw_induct [where P = "\<lambda>env i w l1 l2. lk_state l2 = lk_state l1 \<and> lk_message l2 = lk_message l1"])
    fix f env i w l1 l2
    assume IH: "\<And>env i w l1 l2. f env i w l1 = Some l2 \<Longrightarrow> lk_state l2 = lk_state l1 \<and> lk_message l2 = lk_message l1"
      and eq: "(if w = 0 then Some l1 else let sleepTime = min w 100; w = if w = INFINITE_WAIT then w else w - sleepTime
        in if \<not> link_is_open (env i) l1 \<or> drained (env i) l1 then Some (link_call (Close_Socket w) l1)
           else f env (Suc i) w l1) = Some l2"
    then show "lk_state l2 = lk_state l1 \<and> lk_message l2 = lk_message l1"
      by (auto simp: Let_def split: if_splits dest!: IH)
  qed
  have "lk_state l' = lk_state m \<and> lk_message l' = lk_message m"
    using assms(1) c by (auto simp: link_close_def check_for_close_def simp flip: m split: if_splits)
  then have s: "is_state_set SUSPENDED l'" "um_errorCode (lk_message l') = STATUS_SWITCH_PROTOCOL"
    using sm by (simp_all add: is_state_set_def)
  have "\<not> is_state_set SUSPENDED (set_mode WEBSOCKET l')" unfolding is_state_set_mode by (simp add: and.assoc)
  moreover have "is_state_set f (link_call c x) = is_state_set f x" for f c x by (simp add: is_state_set_def)
  ultimately show ?thesis
    using s assms(3) by (simp add: upgrade_completed_server_def link_is_open_def)
qed

theorem upgrade_reopens_closed_link_witness:
  "\<not> link_is_open \<lparr>sr_open = True, sr_suspended = False, sr_serializer_idle = False, sr_deserializer_idle = True, sr_parent_idle = True\<rparr>
      (set_flags SUSPENDED (abort_upgrade STATUS_SWITCH_PROTOCOL [] (new_link False False)))
   \<and> link_is_open \<lparr>sr_open = True, sr_suspended = False, sr_serializer_idle = False, sr_deserializer_idle = True, sr_parent_idle = True\<rparr>
      (upgrade_completed_server (set_flags SUSPENDED (abort_upgrade STATUS_SWITCH_PROTOCOL [] (new_link False False))))"
  by (rule upgrade_reopens_closed_link [where waitTime = 0 and l = "abort_upgrade STATUS_SWITCH_PROTOCOL [] (new_link False False)"
        and env = "\<lambda>_. \<lparr>sr_open = True, sr_suspended = False, sr_serializer_idle = False, sr_deserializer_idle = True, sr_parent_idle = True\<rparr>"])
    (simp_all add: link_close_def check_for_close_def close_loop.simps drained_def link_is_suspended_def is_state_set_def
      new_link_def abort_upgrade_def)

end
