(* ===== verification/Bounded_Queue.thy ===== *)
theory Bounded_Queue
  imports Prelude
begin

text \<open>
  \<open>Core::QueueType\<close> (\<^verbatim>\<open>Source/core/Queue.h\<close>): the bounded queue between threads. Each operation runs
  under the lock of the queue, so it is one step; where an operation waits, other threads may
  change the queue, which the argument \<open>wait\<close> stands for.
\<close>

subsection \<open>The interface of a queue\<close>

text \<open>
  What users of a queue rely on: the entry of an accepted request goes to the end, the entry taken
  is the first, and only an empty queue gives nothing.
\<close>

locale fifo =
  fixes put :: "'o \<Rightarrow> 'q \<Rightarrow> 'q option" and get :: "'q \<Rightarrow> ('a \<times> 'q) option"
    and entry :: "'o \<Rightarrow> 'a" and contents :: "'q \<Rightarrow> 'a list" and good :: "'q \<Rightarrow> bool"
  assumes put_last: "good q \<Longrightarrow> put r q = Some q' \<Longrightarrow> good q' \<and> contents q' = contents q @ [entry r]"
    and get_first: "good q \<Longrightarrow> get q = Some (x, q') \<Longrightarrow> good q' \<and> contents q = x # contents q'"
    and get_none: "good q \<Longrightarrow> get q = None \<Longrightarrow> contents q = []"

text \<open>
  A run of producers and consumers: \<open>Some x\<close> is the request \<open>x\<close> to put, \<open>None\<close> tries to get. The
  requests that were accepted, the entries that were taken, and the queue at the end.
\<close>

fun exchange :: "('o \<Rightarrow> 'q \<Rightarrow> 'q option) \<Rightarrow> ('q \<Rightarrow> ('a \<times> 'q) option) \<Rightarrow> 'o option list \<Rightarrow> 'q \<Rightarrow> 'o list \<times> 'a list \<times> 'q" where
  "exchange put get [] q = ([], [], q)"
| "exchange put get (Some x # ops) q =
     (case put x q of
        None \<Rightarrow> exchange put get ops q
      | Some q \<Rightarrow> (case exchange put get ops q of (accepted, taken, q) \<Rightarrow> (x # accepted, taken, q)))"
| "exchange put get (None # ops) q =
     (case get q of
        None \<Rightarrow> exchange put get ops q
      | Some (x, q) \<Rightarrow> (case exchange put get ops q of (accepted, taken, q) \<Rightarrow> (accepted, x # taken, q)))"

context fifo
begin

lemma exchange_fifo:
  "good q \<Longrightarrow> exchange put get ops q = (accepted, taken, q') \<Longrightarrow>
    good q' \<and> contents q @ map entry accepted = taken @ contents q'"
proof (induction ops arbitrary: q accepted taken q')
  case (Cons op ops)
  show ?case
  proof (cases op)
    case None
    show ?thesis
    proof (cases "get q")
      case g: None
      then show ?thesis using Cons None by simp
    next
      case (Some r)
      obtain x q1 where r: "r = (x, q1)" by (cases r)
      obtain a t q2 where e: "exchange put get ops q1 = (a, t, q2)" by (cases "exchange put get ops q1")
      have "good q1" "contents q = x # contents q1" using get_first [OF Cons.prems(1)] Some r by auto
      then show ?thesis using Cons.IH [OF _ e] Cons.prems(2) None Some r e by simp
    qed
  next
    case (Some x)
    show ?thesis
    proof (cases "put x q")
      case None
      then show ?thesis using Cons Some by simp
    next
      case p: (Some q1)
      obtain a t q2 where e: "exchange put get ops q1 = (a, t, q2)" by (cases "exchange put get ops q1")
      have "good q1" "contents q1 = contents q @ [entry x]" using put_last [OF Cons.prems(1) p] by auto
      then show ?thesis using Cons.IH [OF _ e] Cons.prems(2) Some p e by auto
    qed
  qed
qed simp

end

subsection \<open>State and operations\<close>

datatype queue_state = EMPTY | ENTRIES | LIMITED | DISABLED

record 'a bqueue =
  bq_queue :: "'a list"
  bq_state :: queue_state
  bq_maxSlots :: nat

definition new_queue :: "nat \<Rightarrow> 'a bqueue" where
  "new_queue highWaterMark = \<lparr>bq_queue = [], bq_state = EMPTY, bq_maxSlots = highWaterMark\<rparr>"

definition bq_is_empty :: "'a bqueue \<Rightarrow> bool" where
  "bq_is_empty q \<longleftrightarrow> bq_queue q = []"

definition bq_is_full :: "'a bqueue \<Rightarrow> bool" where
  "bq_is_full q \<longleftrightarrow> bq_maxSlots q \<le> length (bq_queue q)"

definition bq_length :: "'a bqueue \<Rightarrow> nat" where
  "bq_length q = length (bq_queue q) mod 2 ^ 32"

definition bq_has_entry :: "'a \<Rightarrow> 'a bqueue \<Rightarrow> bool" where
  "bq_has_entry x q \<longleftrightarrow> x \<in> set (bq_queue q)"

text \<open>Remove erases the first entry that is equal, and sets the state anew in any case.\<close>

definition bq_remove :: "'a \<Rightarrow> 'a bqueue \<Rightarrow> bool \<times> 'a bqueue" where
  "bq_remove x q =
     (if bq_state q \<noteq> DISABLED then
        let removed = (x \<in> set (bq_queue q)); q = q\<lparr>bq_queue := remove1 x (bq_queue q)\<rparr>
        in (removed, q\<lparr>bq_state := (if bq_is_empty q then EMPTY else ENTRIES)\<rparr>)
      else (False, q))"

definition bq_append :: "'a \<Rightarrow> 'a bqueue \<Rightarrow> 'a bqueue" where
  "bq_append x q =
     (let q = q\<lparr>bq_queue := bq_queue q @ [x]\<rparr> in q\<lparr>bq_state := (if bq_is_full q then LIMITED else ENTRIES)\<rparr>)"

definition bq_post :: "'a \<Rightarrow> 'a bqueue \<Rightarrow> bool \<times> 'a bqueue" where
  "bq_post x q = (if bq_state q \<noteq> DISABLED then (True, bq_append x q) else (False, q))"

text \<open>
  \<open>wait i q\<close> is the outcome of the \<open>i\<close>-th \<open>WaitState\<close> of an operation: whether the state was
  reached in time, and the queue as the thread finds it when it holds the lock again.
\<close>

type_synonym 'a wait = "nat \<Rightarrow> 'a bqueue \<Rightarrow> bool \<times> 'a bqueue"

partial_function (option) insert_loop :: "'a wait \<Rightarrow> nat \<Rightarrow> 'a \<Rightarrow> 'a bqueue \<Rightarrow> (bool \<times> 'a bqueue) option" where
  "insert_loop wait i entry q =
     (if bq_state q \<noteq> LIMITED then Some (True, bq_append entry q)
      else case wait i q of (triggered, q) \<Rightarrow>
             if triggered \<and> bq_state q \<noteq> DISABLED then insert_loop wait (Suc i) entry q else Some (False, q))"

definition bq_insert :: "'a wait \<Rightarrow> 'a \<Rightarrow> 'a bqueue \<Rightarrow> (bool \<times> 'a bqueue) option" where
  "bq_insert wait x q = (if bq_state q \<noteq> DISABLED then insert_loop wait 0 x q else Some (False, q))"

partial_function (option) extract_loop :: "'a wait \<Rightarrow> nat \<Rightarrow> 'a bqueue \<Rightarrow> ('a option \<times> 'a bqueue) option" where
  "extract_loop wait i q =
     (if bq_state q \<noteq> EMPTY then
        (let q' = q\<lparr>bq_queue := tl (bq_queue q)\<rparr>
         in Some (Some (hd (bq_queue q)), q'\<lparr>bq_state := (if bq_is_empty q' then EMPTY else ENTRIES)\<rparr>))
      else case wait i q of (triggered, q) \<Rightarrow>
             if triggered \<and> bq_state q \<noteq> DISABLED then extract_loop wait (Suc i) q else Some (None, q))"

definition bq_extract :: "'a wait \<Rightarrow> 'a bqueue \<Rightarrow> ('a option \<times> 'a bqueue) option" where
  "bq_extract wait q = (if bq_state q \<noteq> DISABLED then extract_loop wait 0 q else Some (None, q))"

definition bq_enable :: "'a bqueue \<Rightarrow> 'a bqueue" where
  "bq_enable q =
     (if bq_state q = DISABLED
      then q\<lparr>bq_state := (if bq_is_empty q then EMPTY else if bq_is_full q then LIMITED else ENTRIES)\<rparr> else q)"

definition bq_disable :: "'a bqueue \<Rightarrow> 'a bqueue" where
  "bq_disable q = q\<lparr>bq_state := DISABLED\<rparr>"

definition bq_flush :: "'a bqueue \<Rightarrow> 'a bqueue" where
  "bq_flush q = q\<lparr>bq_queue := []\<rparr>"

subsection \<open>The state agrees with the contents\<close>

definition agrees :: "'a bqueue \<Rightarrow> bool" where
  "agrees q \<longleftrightarrow> 0 < bq_maxSlots q \<and> (bq_state q \<noteq> DISABLED \<longrightarrow> (bq_state q = EMPTY \<longleftrightarrow> bq_queue q = []))
     \<and> (bq_state q = LIMITED \<longrightarrow> bq_is_full q)"

text \<open>As long as only \<open>Insert\<close> adds entries and \<open>Remove\<close> finds its entry, the bound holds too.\<close>

definition bounded :: "'a bqueue \<Rightarrow> bool" where
  "bounded q \<longleftrightarrow> agrees q \<and> length (bq_queue q) \<le> bq_maxSlots q
     \<and> (bq_state q \<noteq> DISABLED \<longrightarrow> bq_is_full q \<longrightarrow> bq_state q = LIMITED)"

lemmas bq_defs = bq_is_empty_def bq_is_full_def bq_append_def agrees_def bounded_def Let_def

lemma agrees_simple:
  "0 < n \<Longrightarrow> agrees (new_queue n)" "agrees q \<Longrightarrow> agrees (snd (bq_post x q))" "agrees q \<Longrightarrow> agrees (snd (bq_remove x q))"
  "agrees q \<Longrightarrow> agrees (bq_enable q)" "agrees q \<Longrightarrow> agrees (bq_disable q)"
  "agrees q \<Longrightarrow> bq_state q = DISABLED \<Longrightarrow> agrees (bq_flush q)" "agrees q \<Longrightarrow> agrees (bq_append x q)"
  by (auto simp: new_queue_def bq_post_def bq_remove_def bq_enable_def bq_disable_def bq_flush_def bq_defs split: if_splits)

lemma bounded_simple:
  "0 < n \<Longrightarrow> bounded (new_queue n)"
  "bounded q \<Longrightarrow> bq_state q \<noteq> LIMITED \<Longrightarrow> bq_state q \<noteq> DISABLED \<Longrightarrow> bounded (bq_append x q)"
  by (auto simp: new_queue_def bq_defs split: if_splits)

text \<open>An invariant of the other threads is an invariant of a waiting operation.\<close>

lemma insert_loop_inv:
  assumes "insert_loop wait i x q = Some (posted, q')" "I q" "bq_state q \<noteq> DISABLED"
    and "\<And>i q. I q \<Longrightarrow> I (snd (wait i q))"
    and "\<And>q. I q \<Longrightarrow> bq_state q \<noteq> LIMITED \<Longrightarrow> bq_state q \<noteq> DISABLED \<Longrightarrow> I (bq_append x q)"
  shows "I q'"
proof -
  have "insert_loop w i y q = Some r \<Longrightarrow> w = wait \<and> y = x \<longrightarrow> I q \<longrightarrow> bq_state q \<noteq> DISABLED \<longrightarrow> I (snd r)" for w i y q r
  proof (rule insert_loop.raw_induct [where P = "\<lambda>w i y q r. w = wait \<and> y = x \<longrightarrow> I q \<longrightarrow> bq_state q \<noteq> DISABLED \<longrightarrow> I (snd r)"])
    fix f w i y q r
    assume IH: "\<And>w i y q r. f w i y q = Some r \<Longrightarrow> w = wait \<and> y = x \<longrightarrow> I q \<longrightarrow> bq_state q \<noteq> DISABLED \<longrightarrow> I (snd r)"
      and eq: "(if bq_state q \<noteq> LIMITED then Some (True, bq_append y q) else case w i q of (triggered, q) \<Rightarrow>
        if triggered \<and> bq_state q \<noteq> DISABLED then f w (Suc i) y q else Some (False, q)) = Some r"
    show "w = wait \<and> y = x \<longrightarrow> I q \<longrightarrow> bq_state q \<noteq> DISABLED \<longrightarrow> I (snd r)"
    proof (intro impI)
      assume pre: "w = wait \<and> y = x" "I q" "bq_state q \<noteq> DISABLED"
      show "I (snd r)"
      proof (cases "bq_state q = LIMITED")
      case False
      then show ?thesis using eq pre assms(5) by auto
    next
      case True
      then show ?thesis using eq pre IH [of wait "Suc i" x "snd (wait i q)" r] assms(4) [of q i]
        by (auto split: prod.splits if_splits)
    qed
    qed
  qed
  then show ?thesis using assms(1-3) by fastforce
qed

lemma extract_loop_inv:
  assumes "extract_loop wait i q = Some (x, q')" "I q" "bq_state q \<noteq> DISABLED"
    and "\<And>i q. I q \<Longrightarrow> I (snd (wait i q))"
    and "\<And>q. I q \<Longrightarrow> bq_state q \<noteq> EMPTY \<Longrightarrow> bq_state q \<noteq> DISABLED \<Longrightarrow>
      I (q\<lparr>bq_queue := tl (bq_queue q), bq_state := (if tl (bq_queue q) = [] then EMPTY else ENTRIES)\<rparr>)"
  shows "I q'"
proof -
  have "extract_loop w i q = Some r \<Longrightarrow> w = wait \<longrightarrow> I q \<longrightarrow> bq_state q \<noteq> DISABLED \<longrightarrow> I (snd r)" for w i q r
  proof (rule extract_loop.raw_induct [where P = "\<lambda>w i q r. w = wait \<longrightarrow> I q \<longrightarrow> bq_state q \<noteq> DISABLED \<longrightarrow> I (snd r)"])
    fix f w i q r
    assume IH: "\<And>w i q r. f w i q = Some r \<Longrightarrow> w = wait \<longrightarrow> I q \<longrightarrow> bq_state q \<noteq> DISABLED \<longrightarrow> I (snd r)"
      and eq: "(if bq_state q \<noteq> EMPTY then let q' = q\<lparr>bq_queue := tl (bq_queue q)\<rparr>
          in Some (Some (hd (bq_queue q)), q'\<lparr>bq_state := (if bq_is_empty q' then EMPTY else ENTRIES)\<rparr>)
        else case w i q of (triggered, q) \<Rightarrow>
          if triggered \<and> bq_state q \<noteq> DISABLED then f w (Suc i) q else Some (None, q)) = Some r"
    show "w = wait \<longrightarrow> I q \<longrightarrow> bq_state q \<noteq> DISABLED \<longrightarrow> I (snd r)"
    proof (intro impI)
      assume pre: "w = wait" "I q" "bq_state q \<noteq> DISABLED"
    show "I (snd r)"
    proof (cases "bq_state q = EMPTY")
      case False
      then show ?thesis using eq pre assms(5) [of q] by (auto simp: bq_is_empty_def)
    next
      case True
      then show ?thesis using eq pre IH [of wait "Suc i" "snd (wait i q)" r] assms(4) [of q i]
        by (auto split: prod.splits if_splits)
    qed
    qed
  qed
  then show ?thesis using assms(1-3) by fastforce
qed

text \<open>All that a thread can do to a queue.\<close>

inductive queue_step :: "'a bqueue \<Rightarrow> 'a bqueue \<Rightarrow> bool" where
  Remove: "bq_remove x q = (r, q') \<Longrightarrow> queue_step q q'"
| Post: "bq_post x q = (r, q') \<Longrightarrow> queue_step q q'"
| Insert: "bq_insert (\<lambda>_ q. (False, q)) x q = Some (r, q') \<Longrightarrow> queue_step q q'"
| Extract: "bq_extract (\<lambda>_ q. (False, q)) q = Some (r', q') \<Longrightarrow> queue_step q q'"
| Enable: "queue_step q (bq_enable q)"
| Disable: "queue_step q (bq_disable q)"
| Flush: "bq_state q = DISABLED \<Longrightarrow> queue_step q (bq_flush q)"

lemma agrees_tl:
  "agrees q \<Longrightarrow> bq_state q \<noteq> EMPTY \<Longrightarrow> bq_state q \<noteq> DISABLED \<Longrightarrow>
    agrees (q\<lparr>bq_queue := tl (bq_queue q), bq_state := (if tl (bq_queue q) = [] then EMPTY else ENTRIES)\<rparr>)"
  by (auto simp: bq_defs)

lemma insert_agrees:
  assumes "bq_insert wait x q = Some (posted, q')" "agrees q" "\<And>i q. agrees q \<Longrightarrow> agrees (snd (wait i q))"
  shows "agrees q'"
  using assms insert_loop_inv [of wait 0 x q posted q' agrees, OF _ assms(2) _ assms(3) agrees_simple(7)]
  by (auto simp: bq_insert_def split: if_splits)

lemma extract_agrees:
  assumes "bq_extract wait q = Some (r, q')" "agrees q" "\<And>i q. agrees q \<Longrightarrow> agrees (snd (wait i q))"
  shows "agrees q'"
  using assms extract_loop_inv [of wait 0 q r q' agrees, OF _ assms(2) _ assms(3) agrees_tl]
  by (auto simp: bq_extract_def split: if_splits)

lemma step_agrees: "queue_step q q' \<Longrightarrow> agrees q \<Longrightarrow> agrees q'"
proof (induction rule: queue_step.induct)
  case (Insert x q r q')
  then show ?case using insert_agrees [of "\<lambda>_ q. (False, q)" x q r q'] by simp
next
  case (Extract q r q')
  then show ?case using extract_agrees [of "\<lambda>_ q. (False, q)" q r q'] by simp
next
  case (Remove x q r q')
  then show ?case using agrees_simple(3) [of q x] by simp
next
  case (Post x q r q')
  then show ?case using agrees_simple(2) [of q x] by simp
qed (simp_all add: agrees_simple)

subsection \<open>Properties\<close>

text \<open>
  The operations without waiting, in the form of the interface. A request to put names the
  operation: \<open>Insert\<close>, which respects the high water mark, or \<open>Post\<close>, which goes beyond it. A
  thread that does wait in \<open>Insert\<close> or \<open>Extract\<close> does such a step each time it is woken up.
\<close>

datatype 'a request = Insert_entry (requested: 'a) | is_post: Post_entry (requested: 'a)

definition no_wait :: "'a wait" where
  "no_wait i q = (False, q)"

fun bq_put :: "'a request \<Rightarrow> 'a bqueue \<Rightarrow> 'a bqueue option" where
  "bq_put (Insert_entry x) q = (case bq_insert no_wait x q of Some (True, q) \<Rightarrow> Some q | _ \<Rightarrow> None)"
| "bq_put (Post_entry x) q = (case bq_post x q of (True, q) \<Rightarrow> Some q | _ \<Rightarrow> None)"

definition bq_get :: "'a bqueue \<Rightarrow> ('a \<times> 'a bqueue) option" where
  "bq_get q = (case bq_extract no_wait q of Some (Some x, q) \<Rightarrow> Some (x, q) | _ \<Rightarrow> None)"

lemma bq_put_eq:
  "bq_put r q = (if bq_state q = DISABLED \<or> bq_state q = LIMITED \<and> \<not> is_post r then None else Some (bq_append (requested r) q))"
  by (cases r) (auto simp: bq_insert_def insert_loop.simps no_wait_def bq_post_def)

lemma bq_get_eq: "bq_get q = (if bq_state q \<in> {EMPTY, DISABLED} then None
    else Some (hd (bq_queue q), q\<lparr>bq_queue := tl (bq_queue q), bq_state := (if tl (bq_queue q) = [] then EMPTY else ENTRIES)\<rparr>))"
  by (simp add: bq_get_def bq_extract_def extract_loop.simps no_wait_def bq_is_empty_def Let_def)

text \<open>An enabled queue with \<open>n\<close> places.\<close>

definition running :: "nat \<Rightarrow> 'a bqueue \<Rightarrow> bool" where
  "running n q \<longleftrightarrow> agrees q \<and> bq_state q \<noteq> DISABLED \<and> bq_maxSlots q = n"

lemma running_new: "0 < n \<Longrightarrow> running n (new_queue n)"
  using agrees_simple(1) [of n] by (simp add: running_def) (simp add: new_queue_def)

interpretation bq: fifo bq_put bq_get requested bq_queue "running n" for n
proof unfold_locales
  show "running n q \<Longrightarrow> bq_put r q = Some q' \<Longrightarrow> running n q' \<and> bq_queue q' = bq_queue q @ [requested r]" for r :: "'a request" and q q'
    using agrees_simple(7) [of q "requested r"]
    by (auto simp: running_def bq_put_eq split: if_splits) (auto simp: bq_append_def Let_def split: if_splits)
  show "running n q \<Longrightarrow> bq_get q = Some (x, q') \<Longrightarrow> running n q' \<and> bq_queue q = x # bq_queue q'" for x :: 'a and q q'
    using agrees_tl [of q] by (cases "bq_queue q") (auto simp: running_def bq_get_eq agrees_def split: if_splits)
  show "running n q \<Longrightarrow> bq_get q = None \<Longrightarrow> bq_queue q = []" for q :: "'a bqueue"
    by (auto simp: running_def bq_get_eq agrees_def split: if_splits)
qed

text \<open>
  The bound that is left after \<open>p\<close> posts: a queue that does not report its limit has room for one
  entry more below it.
\<close>

definition within :: "nat \<Rightarrow> nat \<Rightarrow> 'a bqueue \<Rightarrow> bool" where
  "within n p q \<longleftrightarrow> bq_maxSlots q = n \<and> length (bq_queue q) \<le> n + p
     \<and> (bq_state q = ENTRIES \<or> bq_state q = EMPTY \<longrightarrow> length (bq_queue q) < n + p)"

lemma within_put:
  "within n p q \<Longrightarrow> bq_put r q = Some q' \<Longrightarrow> within n (p + of_bool (is_post r)) q'"
  by (cases "bq_state q") (auto simp: within_def bq_put_eq bq_defs split: if_splits)

lemma within_get: "running n q \<Longrightarrow> within n p q \<Longrightarrow> bq_get q = Some (x, q') \<Longrightarrow> within n p q'"
  by (cases "bq_queue q") (auto simp: within_def running_def agrees_def bq_get_eq split: if_splits)

lemma exchange_within:
  "running n q \<Longrightarrow> within n p q \<Longrightarrow> exchange bq_put bq_get ops q = (accepted, taken, q') \<Longrightarrow>
    within n (p + length (filter is_post accepted)) q'"
proof (induction ops arbitrary: p q accepted taken q')
  case (Cons op ops)
  show ?case
  proof (cases op)
    case None
    then show ?thesis
      using Cons.IH [of _ p] Cons.prems within_get [OF Cons.prems(1,2)] bq.get_first [OF Cons.prems(1)]
      by (auto split: option.splits prod.splits)
  next
    case (Some r)
    show ?thesis
    proof (cases "bq_put r q")
      case p: (Some q1)
      obtain a t q2 where e: "exchange bq_put bq_get ops q1 = (a, t, q2)" by (cases "exchange bq_put bq_get ops q1")
      show ?thesis
        using Cons.IH [OF _ within_put [OF Cons.prems(2) p] e] bq.put_last [OF Cons.prems(1) p] Cons.prems(3) Some p e
        by auto
    qed (use Cons Some in auto)
  qed
qed simp

text \<open>
  C24: Producers that do not wait, by \<open>Insert\<close> or by \<open>Post\<close>, and consumers that do not wait see a
  first in, first out queue: whatever they do, the entries accepted are, in order, the entries taken
  followed by those still in the queue. \<open>Insert\<close> alone keeps it at the high water mark; each
  accepted \<open>Post\<close> can take it one entry beyond.
\<close>

theorem queue_is_bounded_fifo:
  assumes "0 < n" "exchange bq_put bq_get ops (new_queue n) = (accepted, taken, q)"
  shows "map requested accepted = taken @ bq_queue q \<and> length (bq_queue q) \<le> n + length (filter is_post accepted)"
proof -
  have "within n 0 (new_queue n)" using assms(1) by (simp add: within_def new_queue_def)
  from exchange_within [OF running_new [OF assms(1)] this assms(2)] show ?thesis
    using bq.exchange_fifo [OF running_new [OF assms(1)] assms(2)] by (simp add: within_def) (simp add: new_queue_def)
qed

theorem queue_is_bounded_fifo_witness:
  "exchange bq_put bq_get [Some (Insert_entry 1), Some (Insert_entry 2), Some (Insert_entry 3), Some (Post_entry 5), None, Some (Insert_entry 4)]
      (new_queue 2 :: nat bqueue) =
     ([Insert_entry 1, Insert_entry 2, Post_entry 5, Insert_entry 4], [1], \<lparr>bq_queue = [2, 5, 4], bq_state = LIMITED, bq_maxSlots = 2\<rparr>)
   \<and> map requested [Insert_entry 1, Insert_entry 2, Post_entry 5, Insert_entry 4] =
     [1] @ bq_queue (\<lparr>bq_queue = [2, 5, 4], bq_state = LIMITED, bq_maxSlots = 2\<rparr> :: nat bqueue)"
proof -
  have *: "exchange bq_put bq_get [Some (Insert_entry 1), Some (Insert_entry 2), Some (Insert_entry 3), Some (Post_entry 5), None, Some (Insert_entry 4)]
      (new_queue 2 :: nat bqueue) =
     ([Insert_entry 1, Insert_entry 2, Post_entry 5, Insert_entry 4], [1], \<lparr>bq_queue = [2, 5, 4], bq_state = LIMITED, bq_maxSlots = 2\<rparr>)"
    by (simp add: bq_put_eq bq_get_eq new_queue_def bq_defs)
  have "0 < (2 :: nat)" by simp
  from queue_is_bounded_fifo [OF this *] * show ?thesis by blast
qed

text \<open>
  Whatever sequence of operations a queue goes through, Post and Remove included, it says
  \<open>EMPTY\<close> exactly when it has no entry unless it is disabled: an extract that does not wait gives
  the first entry, and nothing only when there is none or the queue is disabled.
\<close>

theorem queue_state_agrees:
  assumes "0 < n" "queue_step\<^sup>*\<^sup>* (new_queue n) q"
  shows "bq_extract no_wait q = Some (if bq_state q = DISABLED \<or> bq_queue q = [] then (None, q)
    else (Some (hd (bq_queue q)), q\<lparr>bq_queue := tl (bq_queue q), bq_state := (if tl (bq_queue q) = [] then EMPTY else ENTRIES)\<rparr>))"
proof -
  have "agrees q"
    using assms(2) by (induction rule: rtranclp_induct) (simp_all add: agrees_simple(1) [OF assms(1)] step_agrees)
  then show ?thesis
    by (auto simp: bq_extract_def extract_loop.simps no_wait_def agrees_def bq_is_empty_def Let_def)
qed

theorem queue_state_agrees_witness:
  "bq_extract no_wait \<lparr>bq_queue = [7 :: nat], bq_state = LIMITED, bq_maxSlots = 1\<rparr> =
    Some (Some 7, \<lparr>bq_queue = [], bq_state = EMPTY, bq_maxSlots = 1\<rparr>)"
proof -
  have "queue_step (new_queue 1) \<lparr>bq_queue = [7 :: nat], bq_state = LIMITED, bq_maxSlots = 1\<rparr>"
    by (rule queue_step.Post [of 7 _ True]) (simp add: bq_post_def new_queue_def bq_defs)
  then have "queue_step\<^sup>*\<^sup>* (new_queue 1) \<lparr>bq_queue = [7 :: nat], bq_state = LIMITED, bq_maxSlots = 1\<rparr>" by simp
  from queue_state_agrees [OF _ this] show ?thesis by simp
qed

text \<open>
  Remove sets the state to \<open>ENTRIES\<close> also when it did not find the entry: on a full queue that
  lifts the limit, and the next Insert is accepted beyond the high water mark.
\<close>

theorem remove_absent_lifts_limit:
  assumes "bounded q" "bq_state q = LIMITED" "x \<notin> set (bq_queue q)"
  shows "bq_remove x q = (False, q\<lparr>bq_state := ENTRIES\<rparr>)
    \<and> (\<exists>q'. bq_insert no_wait y (snd (bq_remove x q)) = Some (True, q') \<and> length (bq_queue q') = Suc (bq_maxSlots q'))"
  using assms by (auto simp: bq_remove_def bq_insert_def insert_loop.simps remove1_idem bq_defs)

theorem remove_absent_lifts_limit_witness:
  "bq_remove (9 :: nat) \<lparr>bq_queue = [7], bq_state = LIMITED, bq_maxSlots = 1\<rparr> =
    (False, \<lparr>bq_queue = [7], bq_state = ENTRIES, bq_maxSlots = 1\<rparr>)"
  using remove_absent_lifts_limit [of "\<lparr>bq_queue = [7 :: nat], bq_state = LIMITED, bq_maxSlots = 1\<rparr>" 9] by (simp add: bq_defs)

end
