(* ===== verification/Category_Queue.thy ===== *)
theory Category_Queue
  imports Bounded_Queue "HOL-Library.Multiset"
begin

text \<open>
  \<open>Core::CategoryQueueType\<close> (\<^verbatim>\<open>Source/core/Queue.h\<close>): the queue of a thread pool with three
  priorities, each with a limit on how many of its entries are queued or in process. The entries
  beyond the limit wait in the administration of their category until one of it completes.
\<close>

subsection \<open>The administration of a category\<close>

datatype category = HIGH | MEDIUM | LOW

record 'a admin =
  ca_highWaterMark :: nat
  ca_submitted :: nat
  ca_queue :: "'a list"

definition new_admin :: "nat \<Rightarrow> 'a admin" where
  "new_admin highWaterMark = \<lparr>ca_highWaterMark = highWaterMark, ca_submitted = 0, ca_queue = []\<rparr>"

definition admin_flush :: "'a admin \<Rightarrow> 'a admin" where
  "admin_flush c = c\<lparr>ca_queue := [], ca_submitted := 0\<rparr>"

definition admin_length :: "'a admin \<Rightarrow> nat" where
  "admin_length c = length (ca_queue c) mod 2 ^ 16"

definition admin_has_entry :: "'a admin \<Rightarrow> bool" where
  "admin_has_entry c \<longleftrightarrow> ca_queue c \<noteq> [] \<and> ca_submitted c < ca_highWaterMark c"

definition admin_remove :: "'a \<Rightarrow> 'a admin \<Rightarrow> bool \<times> 'a admin" where
  "admin_remove x c = (x \<in> set (ca_queue c), c\<lparr>ca_queue := remove1 x (ca_queue c)\<rparr>)"

text \<open>The result says whether the entry has to wait here; the counter is a \<^verbatim>\<open>uint16_t\<close>.\<close>

definition admin_submit :: "'a \<Rightarrow> 'a admin \<Rightarrow> bool \<times> 'a admin" where
  "admin_submit x c =
     (if ca_submitted c = ca_highWaterMark c then (True, c\<lparr>ca_queue := ca_queue c @ [x]\<rparr>)
      else (False, c\<lparr>ca_submitted := (ca_submitted c + 1) mod 2 ^ 16\<rparr>))"

definition admin_submit_load :: "'a \<Rightarrow> nat \<Rightarrow> 'a admin \<Rightarrow> bool \<times> 'a admin" where
  "admin_submit_load x currentLoad c =
     (if ca_submitted c = ca_highWaterMark c \<or> ca_highWaterMark c \<le> currentLoad
      then (True, c\<lparr>ca_queue := ca_queue c @ [x]\<rparr>)
      else (False, c\<lparr>ca_submitted := (ca_submitted c + 1) mod 2 ^ 16\<rparr>))"

definition admin_extract :: "'a admin \<Rightarrow> 'a \<times> 'a admin" where
  "admin_extract c =
     (hd (ca_queue c), c\<lparr>ca_queue := tl (ca_queue c), ca_submitted := (ca_submitted c + 1) mod 2 ^ 16\<rparr>)"

definition admin_completed :: "'a admin \<Rightarrow> 'a admin" where
  "admin_completed c = c\<lparr>ca_submitted := (ca_submitted c + (2 ^ 16 - 1)) mod 2 ^ 16\<rparr>"

subsection \<open>The queue\<close>

record 'a cqueue =
  cq_state :: queue_state
  cq_highWaterMark :: nat
  cq_categories :: "category \<Rightarrow> 'a admin"
  cq_queue :: "(category \<times> 'a) list"
  cq_inProcess :: "(category \<times> 'a) list"

definition all_categories :: "category list" where
  "all_categories = [HIGH, MEDIUM, LOW]"

definition new_cqueue :: "nat \<Rightarrow> nat \<Rightarrow> nat \<Rightarrow> 'a cqueue" where
  "new_cqueue lowMaxSubmit mediumMaxSubmit totalSubmit =
     \<lparr>cq_state = EMPTY, cq_highWaterMark = totalSubmit,
      cq_categories = (\<lambda>c. new_admin (case c of HIGH \<Rightarrow> totalSubmit | MEDIUM \<Rightarrow> mediumMaxSubmit | LOW \<Rightarrow> lowMaxSubmit)),
      cq_queue = [], cq_inProcess = []\<rparr>"

definition cq_is_empty :: "'a cqueue \<Rightarrow> bool" where
  "cq_is_empty q \<longleftrightarrow> cq_queue q = []"

definition cq_is_full :: "'a cqueue \<Rightarrow> bool" where
  "cq_is_full q \<longleftrightarrow> cq_highWaterMark q \<le> length (cq_queue q) + length (cq_inProcess q)"

definition cq_length :: "'a cqueue \<Rightarrow> nat" where
  "cq_length q = (length (cq_queue q) + sum_list (map (\<lambda>c. admin_length (cq_categories q c)) all_categories)) mod 2 ^ 32"

definition cq_has_entry :: "'a \<Rightarrow> 'a cqueue \<Rightarrow> bool" where
  "cq_has_entry x q \<longleftrightarrow> x \<in> snd ` set (cq_queue q) \<or> x \<in> snd ` set (cq_inProcess q)
     \<or> list_ex (\<lambda>c. x \<in> set (ca_queue (cq_categories q c))) all_categories"

definition set_category :: "category \<Rightarrow> 'a admin \<Rightarrow> 'a cqueue \<Rightarrow> 'a cqueue" where
  "set_category c a q = q\<lparr>cq_categories := (cq_categories q)(c := a)\<rparr>"

text \<open>The first pair with an entry, removed from a list of pairs.\<close>

fun remove_pair :: "'a \<Rightarrow> (category \<times> 'a) list \<Rightarrow> (category \<times> 'a) list" where
  "remove_pair x [] = []"
| "remove_pair x (p # ps) = (if snd p = x then ps else p # remove_pair x ps)"

text \<open>The loop over the categories until one of them has removed the entry.\<close>

fun remove_waiting :: "'a \<Rightarrow> category list \<Rightarrow> 'a cqueue \<Rightarrow> bool \<times> 'a cqueue" where
  "remove_waiting x [] q = (False, q)"
| "remove_waiting x (c # cs) q =
     (case admin_remove x (cq_categories q c) of
        (True, a) \<Rightarrow> (True, set_category c a q)
      | (False, a) \<Rightarrow> remove_waiting x cs q)"

definition cq_remove :: "'a \<Rightarrow> 'a cqueue \<Rightarrow> bool \<times> 'a cqueue" where
  "cq_remove x q =
     (if cq_state q \<noteq> DISABLED then
        (if x \<in> snd ` set (cq_queue q) then
           let q = q\<lparr>cq_queue := remove_pair x (cq_queue q)\<rparr>
           in (True, q\<lparr>cq_state := (if cq_is_empty q then EMPTY else ENTRIES)\<rparr>)
         else remove_waiting x all_categories q)
      else (False, q))"

definition cq_push :: "category \<Rightarrow> 'a \<Rightarrow> 'a cqueue \<Rightarrow> 'a cqueue" where
  "cq_push c x q = q\<lparr>cq_queue := cq_queue q @ [(c, x)]\<rparr>"

definition cq_post :: "'a \<Rightarrow> category \<Rightarrow> 'a cqueue \<Rightarrow> bool \<times> 'a cqueue" where
  "cq_post x c q =
     (if cq_state q \<noteq> DISABLED then
        let (waits, a) = admin_submit x (cq_categories q c);
            q = set_category c a q;
            q = (if waits then q else cq_push c x q)
        in (True, q\<lparr>cq_state := (if cq_is_full q then LIMITED else ENTRIES)\<rparr>)
      else (False, q))"

text \<open>\<open>Submit\<close> of the queue: with a dynamic threshold the load counts too.\<close>

definition cq_submit :: "bool \<Rightarrow> 'a \<Rightarrow> category \<Rightarrow> 'a cqueue \<Rightarrow> bool \<times> 'a cqueue" where
  "cq_submit dynamic x c q =
     (let (waits, a) = (if dynamic then admin_submit_load x (length (cq_queue q) mod 2 ^ 16) (cq_categories q c)
                        else admin_submit x (cq_categories q c))
      in (waits, set_category c a q))"

text \<open>
  \<open>wait\<close> is the outcome of \<open>WaitState\<close>, \<open>await\<close> that of waiting until the entry has left its
  category, with the queue the thread finds afterwards.
\<close>

type_synonym 'a cwait = "nat \<Rightarrow> 'a cqueue \<Rightarrow> bool \<times> 'a cqueue"

partial_function (option) cinsert_loop ::
  "'a cwait \<Rightarrow> ('a cqueue \<Rightarrow> bool \<times> 'a cqueue) \<Rightarrow> bool \<Rightarrow> nat \<Rightarrow> 'a \<Rightarrow> category \<Rightarrow> 'a cqueue \<Rightarrow> (bool \<times> 'a cqueue) option"
where
  "cinsert_loop wait await dynamic i entry c q =
     (if cq_state q \<noteq> LIMITED then
        case cq_submit dynamic entry c q of
          (True, q) \<Rightarrow> Some (await q)
        | (False, q) \<Rightarrow>
            let q = cq_push c entry q in Some (True, q\<lparr>cq_state := (if cq_is_full q then LIMITED else ENTRIES)\<rparr>)
      else case wait i q of (triggered, q) \<Rightarrow>
             if triggered \<and> cq_state q \<noteq> DISABLED then cinsert_loop wait await dynamic (Suc i) entry c q else Some (False, q))"

definition cq_insert ::
  "'a cwait \<Rightarrow> ('a cqueue \<Rightarrow> bool \<times> 'a cqueue) \<Rightarrow> bool \<Rightarrow> 'a \<Rightarrow> category \<Rightarrow> 'a cqueue \<Rightarrow> (bool \<times> 'a cqueue) option"
where
  "cq_insert wait await dynamic x c q =
     (if cq_state q \<noteq> DISABLED then cinsert_loop wait await dynamic 0 x c q else Some (False, q))"

definition cq_state_of :: "'a cqueue \<Rightarrow> queue_state" where
  "cq_state_of q = (if cq_is_empty q then EMPTY else if cq_is_full q then LIMITED else ENTRIES)"

partial_function (option) cextract_loop :: "'a cwait \<Rightarrow> nat \<Rightarrow> 'a cqueue \<Rightarrow> ('a option \<times> 'a cqueue) option" where
  "cextract_loop wait i q =
     (if cq_queue q \<noteq> [] then
        let p = hd (cq_queue q);
            q = q\<lparr>cq_inProcess := cq_inProcess q @ [p], cq_queue := tl (cq_queue q)\<rparr>
        in Some (Some (snd p), q\<lparr>cq_state := cq_state_of q\<rparr>)
      else case wait i q of (triggered, q) \<Rightarrow>
             if triggered \<and> cq_state q \<noteq> DISABLED then cextract_loop wait (Suc i) q else Some (None, q))"

definition cq_extract :: "'a cwait \<Rightarrow> 'a cqueue \<Rightarrow> ('a option \<times> 'a cqueue) option" where
  "cq_extract wait q = (if cq_state q \<noteq> DISABLED then cextract_loop wait 0 q else Some (None, q))"

text \<open>The first category, from high to low, that has an entry waiting and room for it.\<close>

definition next_category :: "'a cqueue \<Rightarrow> category option" where
  "next_category q = find (\<lambda>c. admin_has_entry (cq_categories q c)) all_categories"

definition release_next :: "'a cqueue \<Rightarrow> 'a cqueue" where
  "release_next q =
     (case next_category q of
        Some c \<Rightarrow> (case admin_extract (cq_categories q c) of (x, a) \<Rightarrow> cq_push c x (set_category c a q))
      | None \<Rightarrow> q)"

definition cq_completion :: "'a \<Rightarrow> 'a cqueue \<Rightarrow> 'a cqueue" where
  "cq_completion x q =
     (case find (\<lambda>p. snd p = x) (cq_inProcess q) of
        None \<Rightarrow> q
      | Some (c, _) \<Rightarrow>
          let q = set_category c (admin_completed (cq_categories q c)) q;
              q = release_next (q\<lparr>cq_inProcess := remove_pair x (cq_inProcess q)\<rparr>)
          in (if cq_state q \<noteq> DISABLED then q\<lparr>cq_state := cq_state_of q\<rparr> else q))"

definition cq_enable :: "'a cqueue \<Rightarrow> 'a cqueue" where
  "cq_enable q = (if cq_state q = DISABLED then q\<lparr>cq_state := cq_state_of q\<rparr> else q)"

definition cq_disable :: "'a cqueue \<Rightarrow> 'a cqueue" where
  "cq_disable q = q\<lparr>cq_state := DISABLED\<rparr>"

definition cq_flush :: "'a cqueue \<Rightarrow> 'a cqueue" where
  "cq_flush q = q\<lparr>cq_queue := [], cq_categories := (\<lambda>c. admin_flush (cq_categories q c))\<rparr>"

end
