(* ===== verification/Category_Properties.thy ===== *)
theory Category_Properties
  imports Category_Queue
begin

text \<open>
  What the queue with priorities guarantees while entries are added, taken and completed: the
  slots of a category are exactly its queued and running entries, no entry waits next to a free
  slot, each category is first in, first out. And what removing an entry or flushing does to that.
\<close>

subsection \<open>Slots and lines\<close>

definition busy :: "'a cqueue \<Rightarrow> category \<Rightarrow> nat" where
  "busy q c = length (filter (\<lambda>p. fst p = c) (cq_queue q)) + length (filter (\<lambda>p. fst p = c) (cq_inProcess q))"

definition queued :: "'a cqueue \<Rightarrow> category \<Rightarrow> nat" where
  "queued q c = length (filter (\<lambda>p. fst p = c) (cq_queue q))"

text \<open>The entries of a category that have not been taken yet, oldest first.\<close>

definition line :: "'a cqueue \<Rightarrow> category \<Rightarrow> 'a list" where
  "line q c = map snd (filter (\<lambda>p. fst p = c) (cq_queue q)) @ ca_queue (cq_categories q c)"

definition tidy_admin :: "nat \<Rightarrow> 'a admin \<Rightarrow> bool" where
  "tidy_admin n a \<longleftrightarrow> ca_submitted a = n \<and> n \<le> ca_highWaterMark a \<and> ca_highWaterMark a < 2 ^ 16
     \<and> (ca_queue a \<noteq> [] \<longrightarrow> n = ca_highWaterMark a)"

text \<open>The slots taken in a category: its entries, and \<open>l c\<close> slots that were lost.\<close>

definition used :: "(category \<Rightarrow> nat) \<Rightarrow> 'a cqueue \<Rightarrow> category \<Rightarrow> nat" where
  "used l q c = busy q c + l c"

definition tidy :: "(category \<Rightarrow> nat) \<Rightarrow> 'a cqueue \<Rightarrow> bool" where
  "tidy l q \<longleftrightarrow> (\<forall>c. tidy_admin (used l q c) (cq_categories q c))"

lemma tidyD: "tidy l q \<Longrightarrow> tidy_admin (used l q c) (cq_categories q c)"
  by (simp add: tidy_def)

lemma all_categories_UNIV: "set all_categories = UNIV"
proof
  show "UNIV \<subseteq> set all_categories"
  proof
    fix c show "c \<in> set all_categories" by (cases c) (simp_all add: all_categories_def)
  qed
qed simp

lemma cq_simps [simp]:
  "busy (q\<lparr>cq_state := s\<rparr>) c = busy q c" "line (q\<lparr>cq_state := s\<rparr>) c = line q c"
  "tidy l (q\<lparr>cq_state := s\<rparr>) = tidy l q"
  "busy (set_category d a q) c = busy q c" "used l (q\<lparr>cq_state := s\<rparr>) c = used l q c" "used l (set_category d a q) c = used l q c"
  "used l (cq_push d x q) c = (if c = d then Suc (used l q c) else used l q c)"
  "busy (cq_push d x q) c = (if c = d then Suc (busy q c) else busy q c)"
  "cq_categories (set_category d a q) = (cq_categories q)(d := a)" "cq_categories (cq_push d x q) = cq_categories q"
  "cq_queue (set_category d a q) = cq_queue q" "cq_queue (cq_push d x q) = cq_queue q @ [(d, x)]"
  "cq_inProcess (set_category d a q) = cq_inProcess q" "cq_inProcess (cq_push d x q) = cq_inProcess q"
  "cq_state (set_category d a q) = cq_state q" "cq_state (cq_push d x q) = cq_state q"
  by (auto simp: used_def busy_def line_def tidy_def set_category_def cq_push_def)

lemma line_simps [simp]:
  "line (set_category d a q) c = (if c = d then map snd (filter (\<lambda>p. fst p = c) (cq_queue q)) @ ca_queue a else line q c)"
  "line (cq_push d x q) c = (if c = d then map snd (filter (\<lambda>p. fst p = c) (cq_queue q)) @ [x] @ ca_queue (cq_categories q c) else line q c)"
  by (auto simp: line_def set_category_def cq_push_def)

lemma tidy_new:
  assumes "low < 2 ^ 16" "medium < 2 ^ 16" "high < 2 ^ 16"
  shows "tidy (\<lambda>_. 0) (new_cqueue low medium high)"
  using assms by (auto simp: tidy_def tidy_admin_def used_def busy_def new_cqueue_def new_admin_def split: category.split)

subsection \<open>Each operation keeps the slots\<close>

lemma admin_submit_tidy:
  assumes "tidy_admin n a" "admin_submit x a = (waits, a')"
  shows "tidy_admin (if waits then n else Suc n) a'"
    "waits \<Longrightarrow> ca_queue a' = ca_queue a @ [x]" "\<not> waits \<Longrightarrow> ca_queue a' = ca_queue a \<and> ca_queue a = []"
  using assms by (auto simp: admin_submit_def tidy_admin_def split: if_splits)

text \<open>\<open>Submit\<close> followed by the push of the entry when it need not wait.\<close>

lemma submit_push:
  assumes "tidy l q" "admin_submit x (cq_categories q c) = (waits, a)"
    and q': "q' = (if waits then set_category c a q else cq_push c x (set_category c a q))"
  shows "tidy l q'" "line q' = (line q)(c := line q c @ [x])"
proof -
  note s = admin_submit_tidy [OF tidyD [OF assms(1)] assms(2)]
  show "tidy l q'"
    using s(1) assms(1) by (auto simp: q' tidy_def split: if_splits)
  show "line q' = (line q)(c := line q c @ [x])"
    using s(2,3) by (auto simp: q' line_def fun_eq_iff set_category_def cq_push_def)
qed

lemma post_tidy:
  assumes "tidy l q" "cq_post x c q = (posted, q')" "cq_state q \<noteq> DISABLED"
  shows "posted" "tidy l q'" "line q' = (line q)(c := line q c @ [x])" "cq_inProcess q' = cq_inProcess q"
proof -
  obtain waits a where w: "admin_submit x (cq_categories q c) = (waits, a)" by (cases "admin_submit x (cq_categories q c)")
  note sp = submit_push [OF assms(1) w refl]
  show "posted" "tidy l q'" "line q' = (line q)(c := line q c @ [x])" "cq_inProcess q' = cq_inProcess q"
    using assms(2,3) w sp by (auto simp: cq_post_def Let_def fun_eq_iff split: if_splits)
qed

text \<open>Insert without waiting for a free place; \<open>b\<close> says whether it waits for its category in vain.\<close>

definition now :: "bool \<Rightarrow> 'a cqueue \<Rightarrow> bool \<times> 'a cqueue" where
  "now b q = (b, q)"

lemma insert_tidy:
  assumes "tidy l q" "cq_insert (\<lambda>_. now False) (now b) False x c q = Some (posted, q')" "cq_state q \<notin> {LIMITED, DISABLED}"
  shows "tidy l q'" "line q' = (line q)(c := line q c @ [x])" "cq_inProcess q' = cq_inProcess q"
proof -
  obtain waits a where w: "admin_submit x (cq_categories q c) = (waits, a)" by (cases "admin_submit x (cq_categories q c)")
  note sp = submit_push [OF assms(1) w refl]
  show "tidy l q'" "line q' = (line q)(c := line q c @ [x])" "cq_inProcess q' = cq_inProcess q"
    using assms(2,3) w sp
    by (auto simp: cq_insert_def cinsert_loop.simps cq_submit_def now_def Let_def fun_eq_iff split: if_splits bool.splits)
qed

lemma insert_refused:
  assumes "cq_insert (\<lambda>_. now False) (now b) False x c q = Some (posted, q')" "cq_state q \<in> {LIMITED, DISABLED}"
  shows "\<not> posted" "q' = q"
  using assms by (auto simp: cq_insert_def cinsert_loop.simps now_def split: if_splits)

lemma extract_tidy:
  assumes "tidy l q" "cq_extract (\<lambda>_. now False) q = Some (Some x, q')"
  shows "tidy l q'" "\<exists>c. line q c = x # line q' c \<and> (\<forall>d. d \<noteq> c \<longrightarrow> line q' d = line q d) \<and> cq_inProcess q' = cq_inProcess q @ [(c, x)]"
proof -
  obtain c r where q: "cq_state q \<noteq> DISABLED" "cq_queue q = (c, x) # r"
      "q' = q\<lparr>cq_inProcess := cq_inProcess q @ [(c, x)], cq_queue := r,
        cq_state := cq_state_of (q\<lparr>cq_inProcess := cq_inProcess q @ [(c, x)], cq_queue := r\<rparr>)\<rparr>"
    using assms(2)
    by (cases "cq_queue q") (auto simp: cq_extract_def cextract_loop.simps now_def Let_def split: if_splits)
  have "used l q' d = used l q d" for d using q by (simp add: used_def busy_def)
  then show "tidy l q'" using assms(1) q(3) by (simp add: tidy_def)
  show "\<exists>c. line q c = x # line q' c \<and> (\<forall>d. d \<noteq> c \<longrightarrow> line q' d = line q d) \<and> cq_inProcess q' = cq_inProcess q @ [(c, x)]"
    using q by (intro exI [of _ c]) (auto simp: line_def)
qed

lemma extract_nothing: "cq_extract (\<lambda>_. now False) q = Some (None, q') \<Longrightarrow> q' = q \<and> (cq_state q = DISABLED \<or> cq_queue q = [])"
  by (auto simp: cq_extract_def cextract_loop.simps now_def Let_def split: if_splits)

lemma find_remove_pair:
  assumes "find (\<lambda>p. snd p = x) ps = Some (c, y)"
  shows "length (filter (\<lambda>p. fst p = d) ps) = (if d = c then 1 else 0) + length (filter (\<lambda>p. fst p = d) (remove_pair x ps))"
    "mset ps = add_mset (c, x) (mset (remove_pair x ps))" "y = x"
  using assms by (induction ps) (auto split: if_splits)

text \<open>One slot of category \<open>c\<close> is free and nothing else has changed.\<close>

lemma release_next_tidy:
  assumes d: "\<And>d. d \<noteq> c \<Longrightarrow> tidy_admin (used l q d) (cq_categories q d)"
    and c: "ca_submitted (cq_categories q c) = used l q c" "used l q c < ca_highWaterMark (cq_categories q c)"
      "ca_highWaterMark (cq_categories q c) < 2 ^ 16"
      "ca_queue (cq_categories q c) \<noteq> [] \<Longrightarrow> Suc (used l q c) = ca_highWaterMark (cq_categories q c)"
  shows "tidy l (release_next q)" "line (release_next q) = line q" "cq_inProcess (release_next q) = cq_inProcess q"
    "cq_state (release_next q) = cq_state q"
proof -
  have other: "\<not> admin_has_entry (cq_categories q e)" if "e \<noteq> c" for e
    using d [OF that] by (auto simp: tidy_admin_def admin_has_entry_def)
  have "next_category q = (if admin_has_entry (cq_categories q c) then Some c else None)"
  proof (cases c)
    case HIGH
    then show ?thesis using other [of MEDIUM] other [of LOW] by (simp add: next_category_def all_categories_def)
  next
    case MEDIUM
    then show ?thesis using other [of HIGH] other [of LOW] by (simp add: next_category_def all_categories_def)
  next
    case LOW
    then show ?thesis using other [of HIGH] other [of MEDIUM] by (simp add: next_category_def all_categories_def)
  qed
  then have r: "release_next q = (if ca_queue (cq_categories q c) = [] then q else
      cq_push c (hd (ca_queue (cq_categories q c))) (set_category c (snd (admin_extract (cq_categories q c))) q))"
    using c by (simp add: release_next_def admin_has_entry_def admin_extract_def)
  show "tidy l (release_next q)"
  proof (cases "ca_queue (cq_categories q c) = []")
    case True
    then have "tidy_admin (used l q e) (cq_categories q e)" for e
      using d [of e] c(1-3) by (cases "e = c") (simp_all add: tidy_admin_def)
    then show ?thesis using r True by (simp add: tidy_def)
  next
    case False
    then show ?thesis using d c by (simp add: r tidy_def tidy_admin_def admin_extract_def)
  qed
  show "line (release_next q) = line q"
    by (auto simp: r fun_eq_iff admin_extract_def line_def set_category_def cq_push_def)
  show "cq_inProcess (release_next q) = cq_inProcess q" "cq_state (release_next q) = cq_state q" by (simp_all add: r)
qed

lemma completion_tidy:
  assumes "tidy l q"
  shows "tidy l (cq_completion x q)" "line (cq_completion x q) = line q"
    "cq_inProcess (cq_completion x q) = remove_pair x (cq_inProcess q)"
proof -
  have absent: "find (\<lambda>p. snd p = x) ps = None \<Longrightarrow> remove_pair x ps = ps" for ps :: "(category \<times> 'a) list"
    by (induction ps) (auto split: if_splits)
  show "tidy l (cq_completion x q)" "line (cq_completion x q) = line q"
    "cq_inProcess (cq_completion x q) = remove_pair x (cq_inProcess q)"
  proof (atomize (full), cases "find (\<lambda>p. snd p = x) (cq_inProcess q)")
    case None
    then show "tidy l (cq_completion x q) \<and> line (cq_completion x q) = line q \<and>
        cq_inProcess (cq_completion x q) = remove_pair x (cq_inProcess q)"
      using assms absent by (simp add: cq_completion_def)
  next
    case (Some p)
    obtain c y where p: "p = (c, y)" by (cases p)
    let ?q = "(set_category c (admin_completed (cq_categories q c)) q)\<lparr>cq_inProcess := remove_pair x (cq_inProcess q)\<rparr>"
    note fr = find_remove_pair(1) [OF Some [unfolded p]]
    have b: "used l q d = (if d = c then 1 else 0) + used l ?q d" for d
      using fr [of d] by (simp add: used_def busy_def set_category_def)
    have l: "line ?q = line q" by (simp add: fun_eq_iff line_def set_category_def admin_completed_def)
    have cc: "ca_submitted (cq_categories q c) = Suc (used l ?q c)"
      "used l ?q c < ca_highWaterMark (cq_categories q c)" "ca_highWaterMark (cq_categories q c) < 2 ^ 16"
      using tidyD [OF assms, of c] b [of c] by (simp_all add: tidy_admin_def)
    have c1: "ca_submitted (cq_categories ?q c) = used l ?q c" "used l ?q c < ca_highWaterMark (cq_categories ?q c)"
      "ca_highWaterMark (cq_categories ?q c) < 2 ^ 16"
    proof -
      have e: "cq_categories ?q c = admin_completed (cq_categories q c)" by (simp add: set_category_def)
      obtain n where n: "n = used l ?q c" by blast
      show "ca_submitted (cq_categories ?q c) = used l ?q c" "used l ?q c < ca_highWaterMark (cq_categories ?q c)"
        "ca_highWaterMark (cq_categories ?q c) < 2 ^ 16"
        unfolding e n [symmetric] using cc [folded n] by (simp_all add: admin_completed_def)
    qed
    have w: "ca_queue (cq_categories ?q c) \<noteq> [] \<Longrightarrow> Suc (used l ?q c) = ca_highWaterMark (cq_categories ?q c)"
    proof -
      have e: "ca_queue (cq_categories ?q c) = ca_queue (cq_categories q c)"
        "ca_highWaterMark (cq_categories ?q c) = ca_highWaterMark (cq_categories q c)"
        by (simp_all add: set_category_def admin_completed_def)
      have "ca_queue (cq_categories q c) \<noteq> [] \<Longrightarrow> used l q c = ca_highWaterMark (cq_categories q c)"
        using tidyD [OF assms, of c] unfolding tidy_admin_def by blast
      moreover have "used l q c = Suc (used l ?q c)" using b [of c] by (simp only: refl if_True add_Suc plus_1_eq_Suc)
      ultimately show "ca_queue (cq_categories ?q c) \<noteq> [] \<Longrightarrow> Suc (used l ?q c) = ca_highWaterMark (cq_categories ?q c)"
        unfolding e by metis
    qed
    have d1: "tidy_admin (used l ?q d) (cq_categories ?q d)" if "d \<noteq> c" for d
      using tidyD [OF assms, of d] b [of d] that by (simp add: set_category_def)
    note r = release_next_tidy [OF d1 c1 w]
    have "cq_completion x q = (let r = release_next ?q in if cq_state r \<noteq> DISABLED then r\<lparr>cq_state := cq_state_of r\<rparr> else r)"
      using Some p by (simp add: cq_completion_def Let_def)
    then show "tidy l (cq_completion x q) \<and> line (cq_completion x q) = line q \<and>
        cq_inProcess (cq_completion x q) = remove_pair x (cq_inProcess q)"
      using r l by (simp add: Let_def fun_eq_iff)
  qed
qed

lemma remove_pair_count:
  "x \<in> snd ` set ps \<Longrightarrow> \<exists>c. \<forall>d. length (filter (\<lambda>p. fst p = d) ps) = (if d = c then 1 else 0) + length (filter (\<lambda>p. fst p = d) (remove_pair x ps))"
proof (induction ps)
  case (Cons p ps)
  show ?case
  proof (cases "snd p = x")
    case False
    then obtain c where "\<forall>d. length (filter (\<lambda>p. fst p = d) ps) = (if d = c then 1 else 0) + length (filter (\<lambda>p. fst p = d) (remove_pair x ps))"
      using Cons by auto
    then show ?thesis using False by (intro exI [of _ c]) simp
  qed (intro exI [of _ "fst p"], simp)
qed simp

subsection \<open>Properties\<close>

text \<open>The life of a queue whose entries are added, taken and completed.\<close>

inductive pool_step :: "'a cqueue \<Rightarrow> 'a cqueue \<Rightarrow> bool" where
  Post: "cq_post x c q = (r, q') \<Longrightarrow> pool_step q q'"
| Insert: "cq_insert (\<lambda>_. now False) (now b) False x c q = Some (r, q') \<Longrightarrow> pool_step q q'"
| Extract: "cq_extract (\<lambda>_. now False) q = Some (r', q') \<Longrightarrow> pool_step q q'"
| Completion: "pool_step q (cq_completion x q)"
| Enable: "pool_step q (cq_enable q)"
| Disable: "pool_step q (cq_disable q)"

lemma pool_step_tidy: "pool_step q q' \<Longrightarrow> tidy l q \<Longrightarrow> tidy l q'"
proof (induction rule: pool_step.induct)
  case (Post x c q r q')
  then show ?case using post_tidy(2) [of l q x c r q'] by (cases "cq_state q = DISABLED") (auto simp: cq_post_def)
next
  case (Insert b x c q r q')
  then show ?case using insert_tidy(1) [of l q b x c r q'] insert_refused(2) [of b x c q r q'] by blast
next
  case (Extract q r q')
  then show ?case using extract_nothing [of q q'] extract_tidy(1) [of l q _ q'] by (cases r) auto
next
  case (Completion q x)
  then show ?case by (rule completion_tidy(1))
qed (simp_all add: cq_enable_def cq_disable_def)

lemma pool_tidy:
  "pool_step\<^sup>*\<^sup>* (new_cqueue low medium high) q \<Longrightarrow> low < 2 ^ 16 \<Longrightarrow> medium < 2 ^ 16 \<Longrightarrow> high < 2 ^ 16 \<Longrightarrow> tidy (\<lambda>_. 0) q"
  by (induction rule: rtranclp_induct) (simp_all add: tidy_new pool_step_tidy)

text \<open>
  Where entries are removed too. \<open>lost\<close> counts, for each category, the entries that were removed
  after they had been given a slot.
\<close>

inductive removing_run :: "'a cqueue \<Rightarrow> (category \<Rightarrow> nat) \<Rightarrow> 'a cqueue \<Rightarrow> bool" for start where
  Start: "removing_run start (\<lambda>_. 0) start"
| Step: "removing_run start lost q \<Longrightarrow> pool_step q q' \<Longrightarrow> removing_run start lost q'"
| Remove: "removing_run start lost q \<Longrightarrow> cq_remove x q = (r, q') \<Longrightarrow>
    removing_run start (\<lambda>c. lost c + (queued q c - queued q' c)) q'"

lemma remove_waiting_keeps:
  "remove_waiting x cs q = (r, q') \<Longrightarrow> cq_queue q' = cq_queue q \<and> cq_inProcess q' = cq_inProcess q \<and> (tidy l q \<longrightarrow> tidy l q')"
proof (induction cs arbitrary: q)
  case (Cons c cs)
  show ?case
  proof (cases "fst (admin_remove x (cq_categories q c))")
    case True
    then have "ca_queue (cq_categories q c) \<noteq> []" by (auto simp: admin_remove_def)
    then show ?thesis using Cons.prems True by (auto simp: admin_remove_def tidy_def tidy_admin_def)
  next
    case False
    then show ?thesis using Cons by (simp add: admin_remove_def)
  qed
qed simp

lemma remove_tidy:
  assumes "tidy l q" "cq_remove x q = (r, q')"
  shows "tidy (\<lambda>c. l c + (queued q c - queued q' c)) q'"
proof (cases "cq_state q \<noteq> DISABLED \<and> x \<in> snd ` set (cq_queue q)")
  case True
  then obtain c where c: "\<And>d. queued q d = (if d = c then 1 else 0) + length (filter (\<lambda>p. fst p = d) (remove_pair x (cq_queue q)))"
    using remove_pair_count [of x "cq_queue q"] by (auto simp: queued_def)
  have q': "cq_queue q' = remove_pair x (cq_queue q)" "cq_inProcess q' = cq_inProcess q" "cq_categories q' = cq_categories q"
    using True assms(2) by (auto simp: cq_remove_def Let_def)
  then have "used (\<lambda>c. l c + (queued q c - queued q' c)) q' d = used l q d" for d
    using c [of d] by (simp add: used_def busy_def queued_def)
  then show ?thesis using assms(1) by (simp add: tidy_def q')
next
  case False
  then have "cq_queue q' = cq_queue q \<and> tidy l q'"
    using remove_waiting_keeps [of x all_categories q r q' l] assms by (auto simp: cq_remove_def split: if_splits)
  then show ?thesis by (simp add: queued_def)
qed

lemma removing_tidy:
  "removing_run (new_cqueue low medium high) lost q \<Longrightarrow> low < 2 ^ 16 \<Longrightarrow> medium < 2 ^ 16 \<Longrightarrow> high < 2 ^ 16 \<Longrightarrow> tidy lost q"
  by (induction rule: removing_run.induct) (simp_all add: tidy_new pool_step_tidy remove_tidy)

text \<open>
  C15: In a queue with static thresholds that has not been flushed, the slots taken in a category are
  exactly its entries that are queued or in process and those that were removed when they were
  queued, whose slots are never given back; they are never more than the limit of the category, and
  no entry waits while its category has a slot that is not taken.
\<close>

theorem priority_slots_accounted:
  assumes "removing_run (new_cqueue low medium high) lost q" "low < 2 ^ 16" "medium < 2 ^ 16" "high < 2 ^ 16"
  shows "ca_submitted (cq_categories q c) = busy q c + lost c \<and> busy q c + lost c \<le> ca_highWaterMark (cq_categories q c)
    \<and> (ca_queue (cq_categories q c) = [] \<or> busy q c + lost c = ca_highWaterMark (cq_categories q c))"
  using tidyD [OF removing_tidy [OF assms], of c] by (auto simp: tidy_admin_def used_def)

lemma two_posts:
  "pool_step\<^sup>*\<^sup>* (new_cqueue 1 2 3) (snd (cq_post (8 :: nat) LOW (snd (cq_post 7 LOW (new_cqueue 1 2 3)))))"
  by (rule rtranclp.rtrancl_into_rtrancl [OF r_into_rtranclp]) (rule pool_step.Post, rule prod.collapse [symmetric])+

theorem priority_slots_accounted_witness:
  "\<exists>lost q. removing_run (new_cqueue 1 2 3) lost q \<and> q = snd (cq_remove 7 (snd (cq_post (8 :: nat) LOW (snd (cq_post 7 LOW (new_cqueue 1 2 3))))))
    \<and> lost LOW = 1 \<and> ca_queue (cq_categories q LOW) = [8] \<and> ca_submitted (cq_categories q LOW) = busy q LOW + lost LOW"
proof -
  let ?p = "snd (cq_post (8 :: nat) LOW (snd (cq_post 7 LOW (new_cqueue 1 2 3))))"
  let ?q = "snd (cq_remove 7 ?p)"
  have "removing_run (new_cqueue 1 2 3) (\<lambda>_. 0) ?p"
    using two_posts by (induction rule: rtranclp_induct) (rule removing_run.Start, rule removing_run.Step)
  from removing_run.Remove [OF this surjective_pairing, of 7]
  have r: "removing_run (new_cqueue 1 2 3) (\<lambda>c. 0 + (queued ?p c - queued ?q c)) ?q" .
  have q: "queued ?p LOW = 1" "queued ?q LOW = 0" "ca_queue (cq_categories ?q LOW) = [8]"
    by (simp_all add: queued_def cq_post_def cq_remove_def new_cqueue_def new_admin_def admin_submit_def set_category_def cq_push_def
        cq_is_full_def cq_is_empty_def Let_def)
  from priority_slots_accounted [OF r, of LOW]
  have "ca_submitted (cq_categories ?q LOW) = busy ?q LOW + (0 + (queued ?p LOW - queued ?q LOW))" by simp
  then have "0 + (queued ?p LOW - queued ?q LOW) = 1 \<and> ca_queue (cq_categories ?q LOW) = [8]
      \<and> ca_submitted (cq_categories ?q LOW) = busy ?q LOW + (0 + (queued ?p LOW - queued ?q LOW))"
    using q by simp
  with r show ?thesis by blast
qed

text \<open>
  C25: The queue refines one first in, first out line for each category: Post puts the entry at the
  end of the line of its category, Extract takes the first of a line, Completion only takes the
  entry out of process, and no other line changes.
\<close>

theorem priority_lines_refined:
  assumes "pool_step\<^sup>*\<^sup>* (new_cqueue low medium high) q" "low < 2 ^ 16" "medium < 2 ^ 16" "high < 2 ^ 16"
  shows "(cq_state q \<noteq> DISABLED \<longrightarrow> fst (cq_post x c q) \<and> line (snd (cq_post x c q)) = (line q)(c := line q c @ [x]))
    \<and> (\<forall>y q'. cq_extract (\<lambda>_. now False) q = Some (Some y, q') \<longrightarrow>
        (\<exists>d. line q d = y # line q' d \<and> (\<forall>e. e \<noteq> d \<longrightarrow> line q' e = line q e) \<and> cq_inProcess q' = cq_inProcess q @ [(d, y)]))
    \<and> line (cq_completion x q) = line q \<and> cq_inProcess (cq_completion x q) = remove_pair x (cq_inProcess q)"
proof -
  note t = pool_tidy [OF assms]
  have "cq_state q \<noteq> DISABLED \<Longrightarrow> fst (cq_post x c q) \<and> line (snd (cq_post x c q)) = (line q)(c := line q c @ [x])"
    using post_tidy(1,3) [OF t surjective_pairing] by blast
  then show ?thesis using extract_tidy(2) [OF t] completion_tidy(2,3) [OF t, of x] by blast
qed

theorem priority_lines_refined_witness:
  "line (snd (cq_post (9 :: nat) LOW (snd (cq_post 8 LOW (snd (cq_post 7 LOW (new_cqueue 1 2 3))))))) LOW =
    line (snd (cq_post (8 :: nat) LOW (snd (cq_post 7 LOW (new_cqueue 1 2 3))))) LOW @ [9]"
proof -
  have "cq_state (snd (cq_post (8 :: nat) LOW (snd (cq_post 7 LOW (new_cqueue 1 2 3))))) \<noteq> DISABLED"
    by (simp add: cq_post_def new_cqueue_def Let_def split: prod.split)
  then show ?thesis using priority_lines_refined [OF two_posts, of 9 LOW] by simp
qed

text \<open>
  Removing an entry that is queued does not give back its slot. The category counts one entry
  too many for ever after; in a category with one slot every later entry waits for a completion
  that cannot come.
\<close>

theorem remove_leaks_slot:
  assumes "tidy (\<lambda>_. 0) q" "cq_state q \<noteq> DISABLED" "x \<in> snd ` set (cq_queue q)"
  shows "\<exists>c. cq_remove x q = (True, q\<lparr>cq_queue := remove_pair x (cq_queue q), cq_state := (if remove_pair x (cq_queue q) = [] then EMPTY else ENTRIES)\<rparr>)
    \<and> ca_submitted (cq_categories (snd (cq_remove x q)) c) = Suc (busy (snd (cq_remove x q)) c)"
proof -
  obtain c where c: "\<forall>d. length (filter (\<lambda>p. fst p = d) (cq_queue q)) =
      (if d = c then 1 else 0) + length (filter (\<lambda>p. fst p = d) (remove_pair x (cq_queue q)))"
    using remove_pair_count [OF assms(3)] by blast
  have "ca_submitted (cq_categories q c) = busy q c" using tidyD [OF assms(1)] by (simp add: tidy_admin_def used_def)
  then show ?thesis
    using assms(2,3) c by (intro exI [of _ c]) (simp add: cq_remove_def Let_def cq_is_empty_def busy_def)
qed

theorem remove_leaks_slot_witness:
  "\<exists>c. ca_submitted (cq_categories (snd (cq_remove (7 :: nat) (snd (cq_post 7 LOW (new_cqueue 1 2 3))))) c) =
     Suc (busy (snd (cq_remove (7 :: nat) (snd (cq_post 7 LOW (new_cqueue 1 2 3))))) c)"
proof -
  let ?q = "snd (cq_post (7 :: nat) LOW (new_cqueue 1 2 3))"
  have t: "tidy (\<lambda>_. 0) ?q" using post_tidy(2) [OF tidy_new, of 1 2 3 7 LOW True ?q] by (simp add: cq_post_def new_cqueue_def Let_def split: prod.split)
  have e: "cq_queue ?q = [(LOW, 7)]" "cq_state ?q \<noteq> DISABLED"
    by (simp_all add: cq_post_def new_cqueue_def new_admin_def admin_submit_def cq_push_def set_category_def Let_def)
  have "7 \<in> snd ` set (cq_queue ?q)" using e(1) by simp
  from remove_leaks_slot [OF t e(2) this] show ?thesis by blast
qed

text \<open>
  Flush resets the counters of the categories but not the list of entries in process: the next
  completion takes the counter below zero, to 65535, and the limit of the category is gone.
\<close>

theorem flush_underflows_slots:
  assumes "cq_inProcess q = (c, x) # r"
  shows "ca_submitted (cq_categories (cq_completion x (cq_flush q)) c) = 65535"
proof -
  have "ca_queue (cq_categories (cq_flush q) d) = []" for d by (simp add: cq_flush_def admin_flush_def)
  then have "next_category ((set_category c (admin_completed (cq_categories (cq_flush q) c)) (cq_flush q))\<lparr>cq_inProcess := r\<rparr>) = None"
    by (auto simp: next_category_def all_categories_def set_category_def admin_completed_def admin_has_entry_def)
  then show ?thesis
    using assms by (simp add: cq_completion_def release_next_def cq_flush_def set_category_def admin_completed_def admin_flush_def Let_def)
qed

theorem flush_underflows_slots_witness:
  "ca_submitted (cq_categories (cq_completion (7 :: nat) (cq_flush ((new_cqueue 1 2 3)\<lparr>cq_inProcess := [(LOW, 7)]\<rparr>))) LOW) = 65535"
  by (rule flush_underflows_slots) simp

text \<open>
  When the entry posted has to wait in its category, Post still says that the queue has entries.
  An Extract on the empty queue then finds its condition met whenever it is about to wait, and
  goes round for ever instead of sleeping.
\<close>

definition state_reached :: "'a cwait" where
  "state_reached i q = (cq_state q \<in> {DISABLED, ENTRIES, LIMITED}, q)"

theorem extract_spins:
  assumes "cq_state q \<noteq> DISABLED" "cq_queue q = []" "ca_submitted (cq_categories q c) = ca_highWaterMark (cq_categories q c)"
  shows "cq_extract state_reached (snd (cq_post x c q)) = None"
proof -
  obtain q1 where q1: "q1 = snd (cq_post x c q)" by blast
  have p: "cq_queue q1 = []" "cq_state q1 \<in> {ENTRIES, LIMITED}"
    using assms by (auto simp: q1 cq_post_def admin_submit_def set_category_def Let_def)
  have no: "cextract_loop w i q2 = Some r \<Longrightarrow> \<not> (w = state_reached \<and> q2 = q1)" for w i q2 r
  proof (rule cextract_loop.raw_induct [where P = "\<lambda>w i q2 r. \<not> (w = state_reached \<and> q2 = q1)"])
    fix f w i q2 r
    assume IH: "\<And>w i q2 r. f w i q2 = Some r \<Longrightarrow> \<not> (w = state_reached \<and> q2 = q1)"
      and eq: "(if cq_queue q2 \<noteq> [] then let p = hd (cq_queue q2);
          q = q2\<lparr>cq_inProcess := cq_inProcess q2 @ [p], cq_queue := tl (cq_queue q2)\<rparr>
          in Some (Some (snd p), q\<lparr>cq_state := cq_state_of q\<rparr>)
        else case w i q2 of (triggered, q) \<Rightarrow>
          if triggered \<and> cq_state q \<noteq> DISABLED then f w (Suc i) q else Some (None, q)) = Some r"
    show "\<not> (w = state_reached \<and> q2 = q1)"
    proof
      assume "w = state_reached \<and> q2 = q1"
      then have "f state_reached (Suc i) q1 = Some r" using eq p by (auto simp: state_reached_def)
      from IH [OF this] show False by simp
    qed
  qed
  have "cextract_loop state_reached 0 q1 = None" using no [of state_reached 0 q1] by (cases "cextract_loop state_reached 0 q1") auto
  then show ?thesis using p by (auto simp: cq_extract_def simp flip: q1)
qed

theorem extract_spins_witness:
  "cq_extract state_reached (snd (cq_post (8 :: nat) LOW ((new_cqueue 1 2 3)\<lparr>cq_inProcess := [(LOW, 7)],
      cq_categories := (\<lambda>_. \<lparr>ca_highWaterMark = 1, ca_submitted = 1, ca_queue = []\<rparr>)\<rparr>))) = None"
  by (rule extract_spins) (simp_all add: new_cqueue_def)

end
