(* ===== verification/Timer.thy ===== *)
theory Timer
  imports Prelude "HOL-Library.Multiset"
begin

text \<open>
  \<open>Core::TimerType\<close> (\<^verbatim>\<open>Source/core/Timer.h\<close>): the list of entries that wait for their time, and the
  pass of the timer thread that runs those that are due. What other threads, and the entries
  themselves, do to the timer while an entry runs without the lock is part of the function that
  stands for running it.
\<close>

subsection \<open>State and operations\<close>

abbreviation (input) INFINITE_DELAY :: nat where "INFINITE_DELAY \<equiv> 0xFFFFFFFF"
abbreviation (input) MAX_U64 :: nat where "MAX_U64 \<equiv> 0xFFFFFFFFFFFFFFFF"
abbreviation (input) TICKS_PER_MS :: nat where "TICKS_PER_MS \<equiv> 1000"

text \<open>
  \<open>tm_executing\<close> says that the pointer to the running entry is set; \<open>tm_runs\<close> counts how often the
  timer thread was told to run. \<open>tm_ran\<close> is not in the code: it lists the entries that were run,
  in order, for the theorems.
\<close>

record 'c timer =
  tm_pending :: "(nat \<times> 'c) list"
  tm_nextTrigger :: nat
  tm_executing :: bool
  tm_runs :: nat
  tm_ran :: "(nat \<times> 'c) list"

definition new_timer :: "'c timer" where
  "new_timer = \<lparr>tm_pending = [], tm_nextTrigger = MAX_U64, tm_executing = False, tm_runs = 0, tm_ran = []\<rparr>"

text \<open>Behind all entries that are not later; the result says whether it is the new head.\<close>

fun insert_entry :: "nat \<times> 'c \<Rightarrow> (nat \<times> 'c) list \<Rightarrow> (nat \<times> 'c) list" where
  "insert_entry e [] = [e]"
| "insert_entry e (f # fs) = (if fst f \<le> fst e then f # insert_entry e fs else e # f # fs)"

definition at_head :: "nat \<times> 'c \<Rightarrow> (nat \<times> 'c) list \<Rightarrow> bool" where
  "at_head e q \<longleftrightarrow> (case q of [] \<Rightarrow> True | f # fs \<Rightarrow> fst e < fst f)"

definition schedule_entry :: "nat \<times> 'c \<Rightarrow> 'c timer \<Rightarrow> bool \<times> 'c timer" where
  "schedule_entry e t = (at_head e (tm_pending t), t\<lparr>tm_pending := insert_entry e (tm_pending t)\<rparr>)"

definition run_if :: "bool \<Rightarrow> 'c timer \<Rightarrow> 'c timer" where
  "run_if b t = (if b then t\<lparr>tm_runs := tm_runs t + 1\<rparr> else t)"

definition schedule :: "nat \<Rightarrow> 'c \<Rightarrow> 'c timer \<Rightarrow> 'c timer" where
  "schedule time info t = (case schedule_entry (time, info) t of (reevaluate, t) \<Rightarrow> run_if reevaluate t)"

fun erase_first :: "'c \<Rightarrow> (nat \<times> 'c) list \<Rightarrow> (nat \<times> 'c) list" where
  "erase_first info [] = []"
| "erase_first info (e # es) = (if snd e = info then es else e # erase_first info es)"

definition timer_trigger :: "nat \<Rightarrow> 'c \<Rightarrow> 'c timer \<Rightarrow> 'c timer" where
  "timer_trigger time info t = schedule time info (t\<lparr>tm_pending := erase_first info (tm_pending t)\<rparr>)"

text \<open>
  The loop of \<open>Revoke\<close> erases every entry that is equal; the head has changed when an erased entry
  was at the beginning of the list at that moment.
\<close>

fun erase_all :: "'c \<Rightarrow> bool \<Rightarrow> (nat \<times> 'c) list \<Rightarrow> (nat \<times> 'c) list \<Rightarrow> bool \<times> bool \<times> (nat \<times> 'c) list" where
  "erase_all info changedHead kept [] = (False, changedHead, kept)"
| "erase_all info changedHead kept (e # es) =
     (if snd e = info
      then (case erase_all info (changedHead \<or> kept = []) kept es of (found, changedHead, q) \<Rightarrow> (True, changedHead, q))
      else erase_all info changedHead (kept @ [e]) es)"

text \<open>
  \<open>executing_object\<close> says that the argument is the very object that is running, which the code finds
  out by comparing addresses; the wait for its completion is then over when the loop starts.
\<close>

definition timer_revoke :: "bool \<Rightarrow> 'c \<Rightarrow> 'c timer \<Rightarrow> bool \<times> 'c timer" where
  "timer_revoke executing_object info t =
     (let t = (if executing_object \<and> tm_executing t then t\<lparr>tm_executing := False\<rparr> else t)
      in case erase_all info False [] (tm_pending t) of
           (found, changedHead, q) \<Rightarrow> (found, run_if changedHead (t\<lparr>tm_pending := q\<rparr>)))"

definition timer_flush :: "'c timer \<Rightarrow> 'c timer" where
  "timer_flush t = t\<lparr>tm_pending := []\<rparr>"

definition timer_has_entry :: "'c \<Rightarrow> 'c timer \<Rightarrow> bool" where
  "timer_has_entry info t \<longleftrightarrow> info \<in> snd ` set (tm_pending t)"

subsection \<open>The pass of the timer thread\<close>

text \<open>
  \<open>timed info time t\<close> runs an entry: the time at which it wants to be run again, 0 for never, and
  the timer as it is when the lock has been taken again.
\<close>

type_synonym 'c timed = "'c \<Rightarrow> nat \<Rightarrow> 'c timer \<Rightarrow> nat \<times> 'c timer"

definition run_head :: "'c timed \<Rightarrow> 'c timer \<Rightarrow> 'c timer" where
  "run_head timed t =
     (case hd (tm_pending t) of
        (time, info) \<Rightarrow>
          (case timed info time (t\<lparr>tm_executing := True, tm_pending := tl (tm_pending t), tm_ran := tm_ran t @ [(time, info)]\<rparr>) of
             (reschedule, t) \<Rightarrow>
               let t = (if tm_executing t \<and> reschedule \<noteq> 0 then snd (schedule_entry (reschedule, info) t) else t)
               in t\<lparr>tm_executing := False\<rparr>))"

partial_function (option) run_due :: "'c timed \<Rightarrow> nat \<Rightarrow> 'c timer \<Rightarrow> 'c timer option" where
  "run_due timed current t =
     (if tm_pending t \<noteq> [] \<and> fst (hd (tm_pending t)) \<le> current then run_due timed current (run_head timed t) else Some t)"

text \<open>The delay until the next pass, in milliseconds, from a second look at the clock.\<close>

definition next_delay :: "nat \<Rightarrow> 'c timer \<Rightarrow> nat \<times> 'c timer" where
  "next_delay delta t =
     (if tm_pending t = [] then (INFINITE_DELAY, t\<lparr>tm_nextTrigger := MAX_U64\<rparr>)
      else if fst (hd (tm_pending t)) \<le> delta then (0, t\<lparr>tm_nextTrigger := delta\<rparr>)
      else (((fst (hd (tm_pending t)) - delta) div TICKS_PER_MS) mod 2 ^ 32, t\<lparr>tm_nextTrigger := fst (hd (tm_pending t))\<rparr>))"

definition process :: "'c timed \<Rightarrow> nat \<Rightarrow> nat \<Rightarrow> 'c timer \<Rightarrow> (nat \<times> 'c timer) option" where
  "process timed current delta t = map_option (next_delay delta) (run_due timed current t)"

subsection \<open>Order\<close>

lemma mset_insert_entry [simp]: "mset (insert_entry e q) = add_mset e (mset q)"
  by (induction q) auto

lemma set_insert_entry [simp]: "set (insert_entry e q) = insert e (set q)"
  by (induction q) auto

lemma sorted_insert_entry: "sorted (map fst q) \<Longrightarrow> sorted (map fst (insert_entry e q))"
  by (induction q) (auto simp: less_imp_le)

lemma filter_insert_entry:
  assumes "sorted (map fst q)"
  shows "filter (\<lambda>f. fst f = k) (insert_entry e q) = filter (\<lambda>f. fst f = k) q @ (if fst e = k then [e] else [])"
  using assms
proof (induction q)
  case (Cons f fs)
  show ?case
  proof (cases "fst f \<le> fst e")
    case False
    have "g \<in> set fs \<Longrightarrow> fst f \<le> fst g" for g using Cons.prems by auto
    then have none: "fst e = k \<Longrightarrow> filter (\<lambda>g. fst g = k) (f # fs) = []" using False by (auto simp: filter_empty_conv)
    show ?thesis using False none by (cases "fst e = k") simp_all
  qed (use Cons in auto)
qed simp

lemma foldl_insert_entry: "foldl (\<lambda>q e. insert_entry e q) (sort_key fst xs) es = sort_key fst (xs @ es)"
proof (induction es rule: rev_induct)
  case (snoc e es)
  let ?q = "sort_key fst (xs @ es)"
  have "insert_entry e ?q = sort_key fst (xs @ es @ [e])"
  proof (rule sym, rule properties_for_sort_key)
    show "mset (insert_entry e ?q) = mset (xs @ es @ [e])" by simp
    show "filter (\<lambda>x. fst k = fst x) (insert_entry e ?q) = filter (\<lambda>x. fst k = fst x) (xs @ es @ [e])"
      if "k \<in> set (insert_entry e ?q)" for k
    proof -
      have "filter (\<lambda>x. fst k = fst x) ?q = filter (\<lambda>x. fst k = fst x) (xs @ es)"
        using sort_key_stable [of fst "fst k" "xs @ es"] by (simp add: eq_commute)
      then show ?thesis using filter_insert_entry [of ?q "fst k" e] by (simp add: eq_commute)
    qed
    show "sorted (map fst (insert_entry e ?q))" by (rule sorted_insert_entry) simp
  qed
  then show ?case using snoc.IH by simp
qed simp

text \<open>
  C26: The list of pending entries is the stable sort, by time, of the entries in the order in which
  they were scheduled: entries with the same time run in the order of their scheduling.
\<close>

theorem schedule_is_stable_sort:
  "tm_pending (foldl (\<lambda>t e. schedule (fst e) (snd e) t) new_timer es) = sort_key fst es"
proof -
  have "tm_pending (foldl (\<lambda>t e. schedule (fst e) (snd e) t) t es) = foldl (\<lambda>q e. insert_entry e q) (tm_pending t) es" for t
    by (induction es arbitrary: t) (simp_all add: schedule_def schedule_entry_def run_if_def)
  then show ?thesis using foldl_insert_entry [of "[]" es] by (simp add: new_timer_def)
qed

subsection \<open>A pass\<close>

text \<open>Entries that leave the timer alone: \<open>r\<close> says when each wants to be run again.\<close>

definition quiet :: "('c \<Rightarrow> nat \<Rightarrow> nat) \<Rightarrow> 'c timed" where
  "quiet r info time t = (r info time, t)"

definition again :: "('c \<Rightarrow> nat \<Rightarrow> nat) \<Rightarrow> (nat \<times> 'c) list \<Rightarrow> (nat \<times> 'c) list" where
  "again r es = map (\<lambda>e. (r (snd e) (fst e), snd e)) (filter (\<lambda>e. r (snd e) (fst e) \<noteq> 0) es)"

lemma insert_behind:
  assumes "\<forall>f \<in> set xs. fst f \<le> fst e" shows "insert_entry e (xs @ ys) = xs @ insert_entry e ys"
  using assms by (induction xs) auto

lemma run_due_quiet:
  assumes "tm_pending t = due @ later" "\<forall>e \<in> set due. fst e \<le> current" "\<forall>e \<in> set later. current < fst e"
    and "\<forall>e \<in> set due. r (snd e) (fst e) = 0 \<or> current < r (snd e) (fst e)"
  shows "\<exists>t'. run_due (quiet r) current t = Some t' \<and> tm_ran t' = tm_ran t @ due
    \<and> tm_pending t' = foldl (\<lambda>q e. insert_entry e q) later (again r due)"
  using assms
proof (induction due arbitrary: t later)
  case Nil
  then have "\<not> (tm_pending t \<noteq> [] \<and> fst (hd (tm_pending t)) \<le> current)" by (cases "tm_pending t") auto
  then have "run_due (quiet r) current t = Some t" by (subst run_due.simps) auto
  then show ?case using Nil.prems by (simp add: again_def)
next
  case (Cons e due)
  obtain time info where e: "e = (time, info)" by (cases e)
  let ?a = "(r info time, info)"
  let ?later = "if r info time = 0 then later else insert_entry ?a later"
  have d: "\<forall>f \<in> set due. fst f \<le> fst ?a" if "r info time \<noteq> 0"
    using Cons.prems(2,4) that by (auto simp: e intro: order.strict_implies_order le_less_trans)
  have h: "tm_pending (run_head (quiet r) t) = due @ ?later" "tm_ran (run_head (quiet r) t) = tm_ran t @ [e]"
    using Cons.prems(1) insert_behind [of due ?a later] d
    by (auto simp: run_head_def quiet_def schedule_entry_def e Let_def)
  have s: "run_due (quiet r) current t = run_due (quiet r) current (run_head (quiet r) t)"
    using Cons.prems(1,2) by (subst run_due.simps) simp
  have l: "\<forall>f \<in> set ?later. current < fst f" using Cons.prems(3,4) by (auto simp: e)
  have "\<forall>f \<in> set due. fst f \<le> current" "\<forall>f \<in> set due. r (snd f) (fst f) = 0 \<or> current < r (snd f) (fst f)"
    using Cons.prems(2,4) by auto
  from Cons.IH [OF h(1) this(1) l this(2)] show ?case
    using s h(2) by (auto simp: again_def e)
qed

lemma sorted_split:
  assumes "sorted (map fst q)"
  shows "\<forall>e \<in> set (dropWhile (\<lambda>e. fst e \<le> current) q). (current :: nat) < fst e"
  using assms by (induction q) (auto intro: less_le_trans)

text \<open>
  C17: A pass over entries that leave the timer alone returns: it runs exactly the entries that are
  due, each once and in the order of their times, and keeps the others together with those that
  want to run again later, in the stable order of their times.
\<close>

theorem pass_runs_due_entries:
  assumes "sorted (map fst (tm_pending t))"
    and "\<forall>e \<in> set (tm_pending t). fst e \<le> current \<longrightarrow> r (snd e) (fst e) = 0 \<or> current < r (snd e) (fst e)"
  shows "\<exists>t'. run_due (quiet r) current t = Some t'
    \<and> tm_ran t' = tm_ran t @ takeWhile (\<lambda>e. fst e \<le> current) (tm_pending t)
    \<and> tm_pending t' = sort_key fst (dropWhile (\<lambda>e. fst e \<le> current) (tm_pending t)
        @ again r (takeWhile (\<lambda>e. fst e \<le> current) (tm_pending t)))"
proof -
  let ?due = "takeWhile (\<lambda>e. fst e \<le> current) (tm_pending t)" and ?later = "dropWhile (\<lambda>e. fst e \<le> current) (tm_pending t)"
  have "\<forall>e \<in> set ?due. fst e \<le> current" by (auto dest: set_takeWhileD)
  moreover have "\<forall>e \<in> set ?due. r (snd e) (fst e) = 0 \<or> current < r (snd e) (fst e)"
    using assms(2) by (auto dest!: set_takeWhileD)
  moreover have "tm_pending t = ?due @ ?later" by simp
  ultimately obtain t' where t': "run_due (quiet r) current t = Some t'" "tm_ran t' = tm_ran t @ ?due"
    "tm_pending t' = foldl (\<lambda>q e. insert_entry e q) ?later (again r ?due)"
    using run_due_quiet [of t ?due ?later current r] sorted_split [OF assms(1)] by blast
  have "sorted (map fst ?later)" using assms(1) by (metis map_append sorted_append takeWhile_dropWhile_id)
  then have "sort_key fst ?later = ?later" by (rule sort_key_id_if_sorted)
  then have "tm_pending t' = sort_key fst (?later @ again r ?due)"
    using t'(3) foldl_insert_entry [of ?later "again r ?due"] by simp
  then show ?thesis using t'(1,2) by blast
qed

theorem pass_runs_due_entries_witness:
  "\<exists>t'. run_due (quiet (\<lambda>info time. if info then time + 20 else 0)) 10 (new_timer\<lparr>tm_pending := [(3, True), (10, False), (15, False)]\<rparr>) = Some t'
    \<and> tm_ran t' = [(3, True), (10, False)] \<and> tm_pending t' = [(15, False), (23, True)]"
  using pass_runs_due_entries [of "new_timer\<lparr>tm_pending := [(3, True), (10, False), (15, False)]\<rparr>" 10
      "\<lambda>info time. if info then time + 20 else 0"]
  by (simp add: new_timer_def again_def)

text \<open>
  The delay after a pass never lets the thread sleep beyond the time of the first entry, with
  one exception: 32 bits are too few for a delay of 2 to the power 32 less one milliseconds, or that
  modulo 2 to the power 32, which comes out as the value for an infinite delay.
\<close>

theorem delay_not_late:
  assumes "tm_pending t \<noteq> []"
  shows "(fst (next_delay delta t) = INFINITE_DELAY \<longleftrightarrow>
      delta < fst (hd (tm_pending t)) \<and> (fst (hd (tm_pending t)) - delta) div TICKS_PER_MS mod 2 ^ 32 = 2 ^ 32 - 1)
    \<and> delta + TICKS_PER_MS * fst (next_delay delta t) \<le> max delta (fst (hd (tm_pending t)))"
proof -
  let ?d = "fst (hd (tm_pending t)) - delta"
  have "?d div TICKS_PER_MS mod 2 ^ 32 \<le> ?d div TICKS_PER_MS" by (rule mod_less_eq_dividend)
  then have "TICKS_PER_MS * (?d div TICKS_PER_MS mod 2 ^ 32) \<le> ?d" by (meson le_trans mult_le_mono2 times_div_less_eq_dividend)
  then have "delta < fst (hd (tm_pending t)) \<Longrightarrow> delta + TICKS_PER_MS * (?d div TICKS_PER_MS mod 2 ^ 32) \<le> fst (hd (tm_pending t))"
    by linarith
  then show ?thesis using assms by (simp add: next_delay_def)
qed

theorem delay_not_late_witness:
  "fst (next_delay 0 (new_timer\<lparr>tm_pending := [(4294967295000, ())]\<rparr>)) = INFINITE_DELAY"
  using delay_not_late [of "new_timer\<lparr>tm_pending := [(4294967295000, ())]\<rparr>" 0] by simp

lemma erase_all_set:
  "erase_all info c kept q = (found, c', q') \<Longrightarrow> info \<notin> snd ` set kept \<Longrightarrow> info \<notin> snd ` set q'"
  by (induction info c kept q arbitrary: found c' q' rule: erase_all.induct) (auto split: if_splits prod.splits)

text \<open>
  An entry that is revoked while it runs, and wants to be run again, is gone afterwards only if
  it was revoked through the very object that the timer runs; revoked through an equal object it is
  scheduled again.
\<close>

theorem revoke_while_running:
  assumes "tm_pending t = (time, info) # rest" "again_at \<noteq> 0"
  shows "timer_has_entry info (run_head (\<lambda>info time t. (again_at, snd (timer_revoke executing_object info t))) t)
    \<longleftrightarrow> \<not> executing_object"
proof -
  obtain found c q where e: "erase_all info False [] rest = (found, c, q)" by (cases "erase_all info False [] rest")
  have "info \<notin> snd ` set q" using erase_all_set [OF e] by simp
  then show ?thesis
    using assms e by (auto simp: run_head_def timer_revoke_def timer_has_entry_def schedule_entry_def run_if_def Let_def image_iff)
qed

theorem revoke_while_running_witness:
  "timer_has_entry ''job'' (run_head (\<lambda>info time t. (50, snd (timer_revoke False info t))) (new_timer\<lparr>tm_pending := [(5, ''job'')]\<rparr>))"
  using revoke_while_running [of "new_timer\<lparr>tm_pending := [(5, ''job'')]\<rparr>" 5 "''job''" "[]" 50 False] by simp

end
