(* ===== verification/Jobs.thy ===== *)
theory Jobs
  imports Prelude Errors
begin

text \<open>
  A job of the worker pool: the state machine of \<open>Core::ThreadPool::JobType\<close>
  (\<^verbatim>\<open>Source/core/ThreadPool.h\<close>) and its use by \<open>Core::IWorkerPool::JobType\<close> and \<open>WorkerPool\<close>
  (\<^verbatim>\<open>Source/core/WorkerPool.h\<close>), seen from one job: the copies of it in the queue of the pool and in
  the timer, the units that have it as their request, and the threads that are inside of one of its operations. What
  a thread does between two accesses to something shared is one step, and the steps of all threads interleave.
\<close>

subsection \<open>The state machine\<close>

datatype job_state = IDLE | SUBMITTED | EXECUTING | RESUBMIT | SCHEDULE | REVOKING

record job =
  jb_state :: job_state
  jb_time :: nat

definition new_job :: job where
  "new_job = \<lparr>jb_state = IDLE, jb_time = 0\<rparr>"

definition compare_exchange :: "job_state \<Rightarrow> job_state \<Rightarrow> job \<Rightarrow> bool \<times> job" where
  "compare_exchange expected desired j =
     (if jb_state j = expected then (True, j\<lparr>jb_state := desired\<rparr>) else (False, j))"

definition is_idle :: "job \<Rightarrow> bool" where
  "is_idle j \<longleftrightarrow> jb_state j = IDLE"

text \<open>The results say whether the operation hands out the job, to be put in the queue by the caller.\<close>

definition job_idle :: "job \<Rightarrow> bool \<times> job" where
  "job_idle = compare_exchange IDLE SUBMITTED"

definition job_submit :: "job \<Rightarrow> bool \<times> job" where
  "job_submit j =
     (case compare_exchange EXECUTING RESUBMIT j of
        (True, j) \<Rightarrow> (False, j)
      | (False, j) \<Rightarrow>
          (case compare_exchange SCHEDULE RESUBMIT j of
             (True, j) \<Rightarrow> (False, j)
           | (False, j) \<Rightarrow> compare_exchange IDLE SUBMITTED j))"

text \<open>Where \<open>Reschedule\<close> hands out nothing it keeps the time, in an assignment of its own.\<close>

definition job_reschedule :: "job \<Rightarrow> bool \<times> job" where
  "job_reschedule j =
     (case compare_exchange EXECUTING SCHEDULE j of
        (True, j) \<Rightarrow> (False, j)
      | (False, j) \<Rightarrow>
          (case compare_exchange RESUBMIT SCHEDULE j of
             (True, j) \<Rightarrow> (False, j)
           | (False, j) \<Rightarrow>
               (case compare_exchange SUBMITTED SCHEDULE j of
                  (True, j) \<Rightarrow> (True, j)
                | (False, j) \<Rightarrow> compare_exchange IDLE SCHEDULE j)))"

definition revoke_required :: "job \<Rightarrow> bool \<times> job" where
  "revoke_required j =
     (if jb_state j = REVOKING then (True, j)
      else if jb_state j \<in> {SUBMITTED, EXECUTING, RESUBMIT, SCHEDULE} then (True, j\<lparr>jb_state := REVOKING\<rparr>)
      else (False, j))"

definition job_revoked :: "job \<Rightarrow> job" where
  "job_revoked j = snd (compare_exchange REVOKING IDLE j)"

text \<open>After a run: whether the job is to be queued again, and the time if it is to be scheduled.\<close>

definition job_resubmit :: "job \<Rightarrow> (bool \<times> nat) \<times> job" where
  "job_resubmit j =
     (case compare_exchange EXECUTING IDLE j of
        (True, j) \<Rightarrow> ((False, 0), j)
      | (False, j) \<Rightarrow>
          (case compare_exchange RESUBMIT SUBMITTED j of
             (True, j) \<Rightarrow> ((True, 0), j)
           | (False, j) \<Rightarrow>
               (case compare_exchange SCHEDULE SUBMITTED j of
                  (True, j) \<Rightarrow> ((True, jb_time j), j)
                | (False, j) \<Rightarrow> ((False, 0), j))))"

text \<open>\<open>Dispatch\<close> calls the implementation only when the state was \<open>SUBMITTED\<close>.\<close>

definition job_dispatch :: "job \<Rightarrow> bool \<times> job" where
  "job_dispatch = compare_exchange SUBMITTED EXECUTING"

subsection \<open>The pool, seen from one job\<close>

text \<open>Where a copy of the job goes to: the queue, or \<open>Schedule\<close> with a time.\<close>

datatype target = To_queue | To_timer nat

text \<open>
  How far a thread is inside of \<open>Submit\<close>, \<open>Revoke\<close>, \<open>Reschedule\<close> or \<open>Timed\<close>. The argument of the stages of a revoke is
  the time of \<open>Reschedule\<close>, which goes on behind it.
\<close>

datatype stage =
    Put_copy target
  | Set_time nat
  | Ask_revoke "nat option"
  | Stop_timer "nat option"
  | Stop_queue "nat option"
  | Look_at_unit "nat option" nat
  | Wait_for_unit "nat option" nat
  | Finish_revoke "nat option"
  | Ask_idle nat

text \<open>A unit whose \<open>_currentRequest\<close> is the job; \<open>Leaving\<close> is \<open>Completed\<close> after \<open>Resubmit\<close>, with the copy that it got.\<close>

datatype unit_stage = Taken | Running | Returned | Leaving "target option"

text \<open>
  The units are those of the thread pool, and behind them the one of the thread that joined. The thread of a client is
  the unit that it runs on, or nothing for other threads.
\<close>

record pool =
  pl_job :: job
  pl_queue :: nat
  pl_timer :: "nat list"
  pl_units :: "unit_stage option list"
  pl_clients :: "(nat option \<times> stage) list"

definition new_pool :: "nat \<Rightarrow> pool" where
  "new_pool n = \<lparr>pl_job = new_job, pl_queue = 0, pl_timer = [], pl_units = replicate n None, pl_clients = []\<rparr>"

definition wp_submit :: "pool \<Rightarrow> pool" where
  "wp_submit p = p\<lparr>pl_queue := pl_queue p + 1\<rparr>"

definition wp_schedule :: "nat \<Rightarrow> nat \<Rightarrow> pool \<Rightarrow> pool" where
  "wp_schedule current time p = (if current < time then p\<lparr>pl_timer := pl_timer p @ [time]\<rparr> else wp_submit p)"

fun put_copy :: "nat \<Rightarrow> target \<Rightarrow> pool \<Rightarrow> pool" where
  "put_copy current To_queue p = wp_submit p"
| "put_copy current (To_timer time) p = wp_schedule current time p"

text \<open>
  \<open>WorkerPool::Revoke\<close> takes all copies out of the timer, then \<open>ThreadPool::Revoke\<close> one out of its queue, and only without
  one it looks at the units in turn: at the one of its own thread it returns, for one that has the job it waits. The result
  of the first drops the report of the second where there is one.
\<close>

definition tp_revoke :: "nat option \<Rightarrow> pool \<Rightarrow> nat option \<Rightarrow> nat \<Rightarrow> stage" where
  "tp_revoke own p again i =
     (if length (pl_units p) \<le> i \<or> own = Some i then Finish_revoke again
      else if pl_units p ! i = None then Look_at_unit again (i + 1)
      else Wait_for_unit again i)"

definition wp_revoke_result :: "bool \<Rightarrow> error_code \<Rightarrow> bool \<Rightarrow> error_code \<Rightarrow> error_code" where
  "wp_revoke_result in_timer report joined completed =
     (let result = (if in_timer then ERROR_NONE else ERROR_UNKNOWN_KEY)
      in if report = ERROR_UNKNOWN_KEY then
           (if joined then ERROR_NONE
            else if completed \<noteq> ERROR_UNKNOWN_KEY \<and> result = ERROR_UNKNOWN_KEY then completed
            else result)
         else result)"

text \<open>
  An operation on the state is a sequence of comparisons. The one that succeeds sees the state at its moment, and
  is what the whole operation does then; where other threads change the state in between, all of them may fail.
\<close>

definition attempt :: "bool \<Rightarrow> (job \<Rightarrow> bool \<times> job) \<Rightarrow> pool \<Rightarrow> bool \<times> pool" where
  "attempt missed f p = (if missed then (False, p) else case f (pl_job p) of (valid, j) \<Rightarrow> (valid, p\<lparr>pl_job := j\<rparr>))"

text \<open>The next step of a thread: what is left to do, and the pool. A thread that waits has none.\<close>

fun client_step :: "nat \<Rightarrow> bool \<Rightarrow> nat option \<Rightarrow> stage \<Rightarrow> pool \<Rightarrow> (stage option \<times> pool) option" where
  "client_step current missed own (Put_copy target) p = Some (None, put_copy current target p)"
| "client_step current missed own (Set_time time) p = Some (None, p\<lparr>pl_job := (pl_job p)\<lparr>jb_time := time\<rparr>\<rparr>)"
| "client_step current missed own (Ask_revoke again) p =
     (case attempt missed revoke_required p of
        (valid, p) \<Rightarrow> Some (if valid then Some (Stop_timer again) else map_option Ask_idle again, p))"
| "client_step current missed own (Stop_timer again) p = Some (Some (Stop_queue again), p\<lparr>pl_timer := []\<rparr>)"
| "client_step current missed own (Stop_queue again) p =
     Some (if 0 < pl_queue p then (Some (Finish_revoke again), p\<lparr>pl_queue := pl_queue p - 1\<rparr>) else (Some (Look_at_unit again 0), p))"
| "client_step current missed own (Look_at_unit again i) p = Some (Some (tp_revoke own p again i), p)"
| "client_step current missed own (Wait_for_unit again i) p = None"
| "client_step current missed own (Finish_revoke again) p = Some (map_option Ask_idle again, p\<lparr>pl_job := job_revoked (pl_job p)\<rparr>)"
| "client_step current missed own (Ask_idle time) p =
     (case attempt False job_idle p of (valid, p) \<Rightarrow> Some (if valid then Some (Put_copy (To_timer time)) else None, p))"

definition add_client :: "nat option \<Rightarrow> stage option \<Rightarrow> pool \<Rightarrow> pool" where
  "add_client own st p = p\<lparr>pl_clients := pl_clients p @ (case st of None \<Rightarrow> [] | Some s \<Rightarrow> [(own, s)])\<rparr>"

definition set_client :: "nat \<Rightarrow> nat option \<Rightarrow> stage option \<Rightarrow> pool \<Rightarrow> pool" where
  "set_client i own st p =
     p\<lparr>pl_clients := take i (pl_clients p) @ (case st of None \<Rightarrow> [] | Some s \<Rightarrow> [(own, s)]) @ drop (Suc i) (pl_clients p)\<rparr>"

definition set_unit :: "nat \<Rightarrow> unit_stage option \<Rightarrow> pool \<Rightarrow> pool" where
  "set_unit u st p = p\<lparr>pl_units := (pl_units p)[u := st]\<rparr>"

text \<open>The start of \<open>Submit\<close> and of \<open>Reschedule\<close>: the operation of the job.\<close>

definition wp_job_submit :: "bool \<Rightarrow> nat option \<Rightarrow> pool \<Rightarrow> pool" where
  "wp_job_submit missed own p =
     (case attempt missed job_submit p of (valid, p) \<Rightarrow> add_client own (if valid then Some (Put_copy To_queue) else None) p)"

definition wp_job_reschedule :: "bool \<Rightarrow> nat option \<Rightarrow> nat \<Rightarrow> pool \<Rightarrow> pool" where
  "wp_job_reschedule missed own time p =
     (case attempt missed job_reschedule p of
        (valid, p) \<Rightarrow> add_client own (Some (if valid then Ask_revoke (Some time) else Set_time time)) p)"

definition wp_job_revoke :: "nat option \<Rightarrow> pool \<Rightarrow> pool" where
  "wp_job_revoke own p = add_client own (Some (Ask_revoke None)) p"

text \<open>\<open>Minion::Process\<close>: a unit takes a copy, calls \<open>Dispatch\<close>, and reports the job completed.\<close>

definition worker_take :: "nat \<Rightarrow> pool \<Rightarrow> pool" where
  "worker_take u p = set_unit u (Some Taken) (p\<lparr>pl_queue := pl_queue p - 1\<rparr>)"

definition worker_dispatch :: "nat \<Rightarrow> pool \<Rightarrow> pool" where
  "worker_dispatch u p =
     (case job_dispatch (pl_job p) of (called, j) \<Rightarrow> set_unit u (Some (if called then Running else Returned)) (p\<lparr>pl_job := j\<rparr>))"

definition tp_completed :: "bool \<Rightarrow> nat \<Rightarrow> pool \<Rightarrow> pool" where
  "tp_completed missed u p =
     (case (if missed then ((False, 0), pl_job p) else job_resubmit (pl_job p)) of
        ((resubmit, time), j) \<Rightarrow>
          set_unit u (Some (Leaving (if \<not> resubmit then None else Some (if time = 0 then To_queue else To_timer time)))) (p\<lparr>pl_job := j\<rparr>))"

text \<open>The request is released, and the threads that wait for the unit go on.\<close>

definition worker_release :: "nat \<Rightarrow> pool \<Rightarrow> pool" where
  "worker_release u p = set_unit u None
     (p\<lparr>pl_clients := map (\<lambda>c. case snd c of Wait_for_unit again i \<Rightarrow> if i = u then (fst c, Finish_revoke again) else c | _ \<Rightarrow> c) (pl_clients p)\<rparr>)"

text \<open>An entry of the timer leaves it before it calls \<open>Submit\<close>.\<close>

definition timer_fires :: "nat \<Rightarrow> pool \<Rightarrow> pool" where
  "timer_fires k p = add_client None (Some (Put_copy To_queue)) (p\<lparr>pl_timer := take k (pl_timer p) @ drop (Suc k) (pl_timer p)\<rparr>)"

datatype pool_event =
    Client_submits bool "nat option"
  | Client_reschedules bool "nat option" nat
  | Client_revokes "nat option"
  | Client_goes_on nat bool nat
  | Unit_takes nat
  | Unit_dispatches nat
  | Unit_returns nat
  | Unit_completes nat bool
  | Unit_requeues nat nat
  | Unit_releases nat
  | Timer_fires nat

definition unit_at :: "nat \<Rightarrow> pool \<Rightarrow> unit_stage option \<Rightarrow> bool" where
  "unit_at u p st \<longleftrightarrow> u < length (pl_units p) \<and> pl_units p ! u = st"

fun pool_do :: "pool_event \<Rightarrow> pool \<Rightarrow> pool option" where
  "pool_do (Client_submits missed own) p = Some (wp_job_submit missed own p)"
| "pool_do (Client_reschedules missed own time) p = Some (wp_job_reschedule missed own time p)"
| "pool_do (Client_revokes own) p = Some (wp_job_revoke own p)"
| "pool_do (Client_goes_on i missed current) p =
     (if i < length (pl_clients p) then
        (case pl_clients p ! i of
           (own, st) \<Rightarrow> map_option (\<lambda>(st, p). set_client i own st p) (client_step current missed own st p))
      else None)"
| "pool_do (Unit_takes u) p = (if unit_at u p None \<and> 0 < pl_queue p then Some (worker_take u p) else None)"
| "pool_do (Unit_dispatches u) p = (if unit_at u p (Some Taken) then Some (worker_dispatch u p) else None)"
| "pool_do (Unit_returns u) p = (if unit_at u p (Some Running) then Some (set_unit u (Some Returned) p) else None)"
| "pool_do (Unit_completes u missed) p = (if unit_at u p (Some Returned) then Some (tp_completed missed u p) else None)"
| "pool_do (Unit_requeues u current) p =
     (if u < length (pl_units p) then
        (case pl_units p ! u of
           Some (Leaving (Some target)) \<Rightarrow> Some (set_unit u (Some (Leaving None)) (put_copy current target p))
         | _ \<Rightarrow> None)
      else None)"
| "pool_do (Unit_releases u) p = (if unit_at u p (Some (Leaving None)) then Some (worker_release u p) else None)"
| "pool_do (Timer_fires k) p = (if k < length (pl_timer p) then Some (timer_fires k p) else None)"

text \<open>A run, every pool of which is as the first argument says.\<close>

fun pool_run :: "(pool \<Rightarrow> bool) \<Rightarrow> pool_event list \<Rightarrow> pool \<Rightarrow> pool option" where
  "pool_run ok [] p = Some p"
| "pool_run ok (e # es) p = (case pool_do e p of None \<Rightarrow> None | Some p \<Rightarrow> if ok p then pool_run ok es p else None)"

subsection \<open>Copies and runs\<close>

fun held :: "nat option \<times> stage \<Rightarrow> nat" where
  "held (own, Put_copy target) = 1"
| "held (own, st) = 0"

fun unit_held :: "unit_stage option \<Rightarrow> nat" where
  "unit_held (Some (Leaving (Some target))) = 1"
| "unit_held st = 0"

fun unit_busy :: "unit_stage option \<Rightarrow> nat" where
  "unit_busy None = 0"
| "unit_busy (Some (Leaving c)) = 0"
| "unit_busy (Some st) = 1"

text \<open>Copies that are on their way to the queue or the timer, all copies, and units with the job ahead of \<open>Completed\<close>.\<close>

definition in_hand :: "pool \<Rightarrow> nat" where
  "in_hand p = sum_list (map held (pl_clients p)) + sum_list (map unit_held (pl_units p))"

definition copies :: "pool \<Rightarrow> nat" where
  "copies p = pl_queue p + length (pl_timer p) + in_hand p"

definition busy :: "pool \<Rightarrow> nat" where
  "busy p = sum_list (map unit_busy (pl_units p))"

definition runs :: "pool \<Rightarrow> nat" where
  "runs p = length (filter (\<lambda>u. u = Some Running) (pl_units p))"

fun revoking :: "nat option \<times> stage \<Rightarrow> bool" where
  "revoking (own, Stop_timer again) = True"
| "revoking (own, Stop_queue again) = True"
| "revoking (own, Look_at_unit again i) = True"
| "revoking (own, Wait_for_unit again i) = True"
| "revoking (own, Finish_revoke again) = True"
| "revoking (own, st) = False"

fun finishing :: "nat option \<times> stage \<Rightarrow> bool" where
  "finishing (own, Finish_revoke again) = True"
| "finishing (own, st) = False"

text \<open>
  What a user has to see to: at most one thread is in the middle of a revoke, meanwhile no copy is on its way,
  and it does not end while a unit has the job, as it can on the thread of a unit.
\<close>

definition calm :: "pool \<Rightarrow> bool" where
  "calm p \<longleftrightarrow> length (filter revoking (pl_clients p)) \<le> 1 \<and>
     (list_ex revoking (pl_clients p) \<longrightarrow> in_hand p = 0) \<and> (list_ex finishing (pl_clients p) \<longrightarrow> busy p = 0)"

end
