(* ===== verification/Job_Properties.thy ===== *)
theory Job_Properties
  imports Jobs
begin

text \<open>
  The properties of a job in the worker pool, over runs in which the steps of all threads interleave: there is one
  copy of it at most, as long as the revokes are alone, and what happens where they are not.
\<close>

subsection \<open>Counting\<close>

lemma sum_update: "i < length xs \<Longrightarrow> sum_list (map f (xs[i := x])) + f (xs ! i) = sum_list (map f xs) + (f x :: nat)"
  by (induction xs arbitrary: i) (auto split: nat.splits)

lemma sum_replace:
  "i < length xs \<Longrightarrow> sum_list (map f (take i xs @ ys @ drop (Suc i) xs)) + f (xs ! i) = sum_list (map f xs) + (sum_list (map f ys) :: nat)"
  using arg_cong [OF id_take_nth_drop [of i xs], of "\<lambda>l. sum_list (map f l)"] by simp

definition load :: "pool \<Rightarrow> nat" where
  "load p = copies p + busy p"

lemmas counts = load_def copies_def busy_def in_hand_def

fun stage_sound :: "pool \<Rightarrow> nat option \<times> stage \<Rightarrow> bool" where
  "stage_sound p (own, Stop_timer again) = (jb_state (pl_job p) = REVOKING)"
| "stage_sound p (own, Stop_queue again) = (jb_state (pl_job p) = REVOKING \<and> pl_timer p = [])"
| "stage_sound p (own, Look_at_unit again i) = (jb_state (pl_job p) = REVOKING \<and> pl_timer p = [] \<and> pl_queue p = 0)"
| "stage_sound p (own, Wait_for_unit again i) = (jb_state (pl_job p) = REVOKING \<and> pl_timer p = [] \<and> pl_queue p = 0)"
| "stage_sound p (own, Finish_revoke again) = (jb_state (pl_job p) = REVOKING \<and> pl_timer p = [] \<and> pl_queue p = 0)"
| "stage_sound p (own, st) = True"

definition sound :: "pool \<Rightarrow> bool" where
  "sound p \<longleftrightarrow> load p \<le> 1 \<and> (is_idle (pl_job p) \<longrightarrow> load p = 0) \<and> (\<forall>c\<in>set (pl_clients p). stage_sound p c)"

text \<open>What the steps of other threads may change while a revoke is under way.\<close>

lemma stage_sound_keeps:
  assumes "stage_sound p c"
    and "revoking c \<Longrightarrow> jb_state (pl_job p) = REVOKING \<Longrightarrow>
      jb_state (pl_job p') = REVOKING \<and> pl_queue p' \<le> pl_queue p \<and> length (pl_timer p') \<le> length (pl_timer p)"
  shows "stage_sound p' c"
  using assms by (cases "(p, c)" rule: stage_sound.cases) auto

lemma stage_sound_revoking: "stage_sound p c \<Longrightarrow> revoking c \<Longrightarrow> jb_state (pl_job p) = REVOKING"
  by (cases "(p, c)" rule: stage_sound.cases) auto

lemma others_sound:
  assumes "sound p" "c \<in> set (pl_clients p)"
    and "list_ex revoking (pl_clients p) \<Longrightarrow> jb_state (pl_job p) = REVOKING \<Longrightarrow>
      jb_state (pl_job p') = REVOKING \<and> pl_queue p' \<le> pl_queue p \<and> length (pl_timer p') \<le> length (pl_timer p)"
  shows "stage_sound p' c"
  by (rule stage_sound_keeps [of p]) (use assms in \<open>auto simp: sound_def list_ex_iff\<close>)

lemma calm_hands: "calm p \<Longrightarrow> list_ex revoking (pl_clients p) \<Longrightarrow> in_hand p = 0"
  by (simp add: calm_def)

subsection \<open>Steps of the job\<close>

text \<open>The operations of the job leave a revoke alone, and hand out only what was idle.\<close>

lemma attempt_facts:
  assumes "attempt missed f p = (valid, p')"
  shows "pl_queue p' = pl_queue p" "pl_timer p' = pl_timer p" "pl_units p' = pl_units p" "pl_clients p' = pl_clients p"
  using assms by (auto simp: attempt_def split: if_splits prod.splits)

lemma job_ops:
  "jb_state j = REVOKING \<Longrightarrow> job_submit j = (False, j)" "jb_state j = REVOKING \<Longrightarrow> job_reschedule j = (False, j)"
  "jb_state j = REVOKING \<Longrightarrow> job_idle j = (False, j)" "jb_state j = REVOKING \<Longrightarrow> job_dispatch j = (False, j)"
  "jb_state j = REVOKING \<Longrightarrow> job_resubmit j = ((False, 0), j)" "jb_state j = REVOKING \<Longrightarrow> revoke_required j = (True, j)"
  by (simp_all add: job_submit_def job_reschedule_def job_idle_def job_dispatch_def job_resubmit_def revoke_required_def compare_exchange_def)

lemma not_idle_after:
  "\<not> is_idle (snd (job_reschedule j))" "\<not> is_idle (snd (job_submit j))" "\<not> is_idle (snd (job_idle j))"
  "is_idle (snd (revoke_required j)) \<Longrightarrow> is_idle j" "is_idle (snd (job_dispatch j)) \<Longrightarrow> is_idle j"
  "fst (job_submit j) \<Longrightarrow> is_idle j" "fst (job_idle j) \<Longrightarrow> is_idle j"
  "fst (revoke_required j) \<Longrightarrow> jb_state (snd (revoke_required j)) = REVOKING"
  by (cases "jb_state j"; simp add: job_submit_def job_reschedule_def job_idle_def job_dispatch_def revoke_required_def compare_exchange_def is_idle_def)+

lemma sound_client_submits:
  assumes "sound p"
  shows "sound (wp_job_submit missed own p)"
proof -
  obtain valid q where q: "attempt missed job_submit p = (valid, q)" by fastforce
  note f = attempt_facts [OF q]
  have v: "valid \<Longrightarrow> load p = 0" using q not_idle_after(6) [of "pl_job p"] assms
    by (auto simp: attempt_def sound_def split: if_splits prod.splits)
  have i: "is_idle (pl_job q) \<Longrightarrow> is_idle (pl_job p) \<and> \<not> valid" using q not_idle_after(2) [of "pl_job p"]
    by (auto simp: attempt_def split: if_splits prod.splits)
  have r: "jb_state (pl_job p) = REVOKING \<Longrightarrow> pl_job q = pl_job p" using q job_ops(1) [of "pl_job p"]
    by (auto simp: attempt_def split: if_splits)
  obtain p' where p': "p' = wp_job_submit missed own p" by blast
  have e: "pl_job p' = pl_job q" "pl_queue p' = pl_queue p" "pl_timer p' = pl_timer p" "pl_units p' = pl_units p"
    "pl_clients p' = pl_clients p @ (if valid then [(own, Put_copy To_queue)] else [])"
    using f by (simp_all add: p' wp_job_submit_def q add_client_def)
  have l: "load p' = load p + (if valid then 1 else 0)" by (simp add: counts e)
  have "stage_sound p' c" if "c \<in> set (pl_clients p')" for c
    using that others_sound [OF assms, of c p'] r by (auto simp: e split: if_splits)
  then show ?thesis using assms v i l by (auto simp: sound_def e simp flip: p')
qed

lemma sound_client_reschedules:
  assumes "sound p"
  shows "sound (wp_job_reschedule missed own time p)"
proof -
  obtain valid q where q: "attempt missed job_reschedule p = (valid, q)" by fastforce
  note f = attempt_facts [OF q]
  have i: "is_idle (pl_job q) \<Longrightarrow> is_idle (pl_job p)" using q not_idle_after(1) [of "pl_job p"]
    by (auto simp: attempt_def split: if_splits prod.splits)
  have r: "jb_state (pl_job p) = REVOKING \<Longrightarrow> pl_job q = pl_job p" using q job_ops(2) [of "pl_job p"]
    by (auto simp: attempt_def split: if_splits)
  obtain p' where p': "p' = wp_job_reschedule missed own time p" by blast
  have e: "pl_job p' = pl_job q" "pl_queue p' = pl_queue p" "pl_timer p' = pl_timer p" "pl_units p' = pl_units p"
    "pl_clients p' = pl_clients p @ [(own, if valid then Ask_revoke (Some time) else Set_time time)]"
    using f by (simp_all add: p' wp_job_reschedule_def q add_client_def)
  have l: "load p' = load p" by (simp add: counts e)
  have "stage_sound p' c" if "c \<in> set (pl_clients p')" for c
    using that others_sound [OF assms, of c p'] r by (auto simp: e split: if_splits)
  then show ?thesis using assms i l by (auto simp: sound_def e simp flip: p')
qed

lemma sound_client_revokes:
  assumes "sound p"
  shows "sound (wp_job_revoke own p)"
proof -
  have "stage_sound (wp_job_revoke own p) c" if "c \<in> set (pl_clients (wp_job_revoke own p))" for c
    using that others_sound [OF assms, of c "wp_job_revoke own p"] by (auto simp: wp_job_revoke_def add_client_def)
  then show ?thesis using assms by (auto simp: sound_def counts wp_job_revoke_def add_client_def)
qed

subsection \<open>Steps of the units and of the timer\<close>

lemma unit_counts:
  assumes "unit_at u p st"
  shows "sum_list (map unit_busy ((pl_units p)[u := st'])) + unit_busy st = sum_list (map unit_busy (pl_units p)) + unit_busy st'"
    "sum_list (map unit_held ((pl_units p)[u := st'])) + unit_held st = sum_list (map unit_held (pl_units p)) + unit_held st'"
  using assms sum_update [of u "pl_units p"] by (auto simp: unit_at_def)

lemma sound_unit_step:
  assumes "sound p" "unit_at u p st" "p' = set_unit u st' (p\<lparr>pl_job := j, pl_queue := k\<rparr>)"
    and "k + unit_busy st' + unit_held st' \<le> pl_queue p + unit_busy st + unit_held st"
    and "is_idle j \<Longrightarrow> is_idle (pl_job p) \<or> unit_busy st + unit_held st = 1 \<and> k + unit_busy st' + unit_held st' = 0"
    and "jb_state (pl_job p) = REVOKING \<Longrightarrow> j = pl_job p" "k \<le> pl_queue p"
  shows "sound p'"
proof -
  have l: "load p' + pl_queue p + unit_busy st + unit_held st = load p + k + unit_busy st' + unit_held st'"
    using unit_counts [OF assms(2), of st'] by (simp add: counts assms(3) set_unit_def)
  have "stage_sound p' c" if "c \<in> set (pl_clients p')" for c
    using that others_sound [OF assms(1), of c p'] assms(6,7) by (auto simp: assms(3) set_unit_def)
  moreover have "load p' \<le> load p" using l assms(4) by linarith
  moreover have "is_idle (pl_job p') \<Longrightarrow> load p' = 0"
  proof -
    assume "is_idle (pl_job p')"
    then have "is_idle (pl_job p) \<or> unit_busy st + unit_held st = 1 \<and> k + unit_busy st' + unit_held st' = 0"
      using assms(5) by (simp add: assms(3) set_unit_def)
    then show "load p' = 0"
    proof
      assume "is_idle (pl_job p)"
      then show ?thesis using assms(1) \<open>load p' \<le> load p\<close> by (simp add: sound_def)
    next
      assume a: "unit_busy st + unit_held st = 1 \<and> k + unit_busy st' + unit_held st' = 0"
      moreover have "load p \<le> 1" using assms(1) by (simp add: sound_def)
      ultimately show ?thesis using l by linarith
    qed
  qed
  ultimately show ?thesis using assms(1) by (auto simp: sound_def)
qed

lemma sound_unit_takes: "sound p \<Longrightarrow> unit_at u p None \<Longrightarrow> 0 < pl_queue p \<Longrightarrow> sound (worker_take u p)"
  by (rule sound_unit_step [of p u None _ "Some Taken" "pl_queue p - 1" "pl_job p"]) (auto simp: worker_take_def)

lemma sound_unit_dispatches:
  assumes "sound p" "unit_at u p (Some Taken)"
  shows "sound (worker_dispatch u p)"
proof -
  obtain called j where j: "job_dispatch (pl_job p) = (called, j)" by fastforce
  show ?thesis
    by (rule sound_unit_step [OF assms, of _ "Some (if called then Running else Returned)" "pl_queue p" j])
      (use not_idle_after(5) [of "pl_job p"] job_ops(4) [of "pl_job p"] j in \<open>auto simp: worker_dispatch_def\<close>)
qed

lemma sound_unit_returns: "sound p \<Longrightarrow> unit_at u p (Some Running) \<Longrightarrow> sound (set_unit u (Some Returned) p)"
  by (rule sound_unit_step [of p u "Some Running" _ "Some Returned" "pl_queue p" "pl_job p"]) auto

lemma resubmit_not_idle: "job_resubmit j = ((True, time), j') \<Longrightarrow> \<not> is_idle j'"
  by (cases "jb_state j") (auto simp: job_resubmit_def compare_exchange_def is_idle_def)

lemma load_busy: "unit_at u p st \<Longrightarrow> unit_busy st + unit_held st + pl_queue p \<le> load p"
  using member_le_sum_list [of "unit_busy st" "map unit_busy (pl_units p)"] member_le_sum_list [of "unit_held st" "map unit_held (pl_units p)"]
  by (auto simp: counts unit_at_def)

lemma sound_unit_completes:
  assumes "sound p" "unit_at u p (Some Returned)"
  shows "sound (tp_completed missed u p)"
proof -
  obtain again time j where j: "(if missed then ((False, 0), pl_job p) else job_resubmit (pl_job p)) = ((again, time), j)" by (metis surj_pair)
  have q: "pl_queue p = 0" using load_busy [OF assms(2)] assms(1) by (simp add: sound_def)
  have "jb_state (pl_job p) = REVOKING \<Longrightarrow> j = pl_job p" using j job_ops(5) [of "pl_job p"] by (auto split: if_splits)
  moreover have "is_idle j \<Longrightarrow> \<not> again" using j resubmit_not_idle [of "pl_job p" time j] by (auto split: if_splits)
  moreover have "tp_completed missed u p =
      set_unit u (Some (Leaving (if \<not> again then None else Some (if time = 0 then To_queue else To_timer time)))) (p\<lparr>pl_job := j, pl_queue := pl_queue p\<rparr>)"
    by (simp add: tp_completed_def j)
  ultimately show ?thesis
    using q by (intro sound_unit_step [OF assms, of _ "Some (Leaving (if \<not> again then None else Some (if time = 0 then To_queue else To_timer time)))" "pl_queue p" j])
      (auto split: if_splits)
qed

lemma sound_put:
  assumes "sound p" "calm p" "in_hand p = 1" "pl_job p' = pl_job p" "in_hand p' = 0" "busy p' = busy p" "set (pl_clients p') \<subseteq> set (pl_clients p)"
    "pl_queue p' + length (pl_timer p') = pl_queue p + length (pl_timer p) + 1"
  shows "sound p'"
proof -
  have "load p' = load p" using assms by (simp add: load_def copies_def)
  moreover have "stage_sound p' c" if "c \<in> set (pl_clients p')" for c
    using others_sound [OF assms(1), of c p'] calm_hands [OF assms(2)] assms(3,7) that by auto
  ultimately show ?thesis using assms(1,4) by (simp add: sound_def)
qed

lemma put_copy_facts:
  "pl_job (put_copy current target p) = pl_job p" "pl_units (put_copy current target p) = pl_units p" "pl_clients (put_copy current target p) = pl_clients p"
  "pl_queue (put_copy current target p) + length (pl_timer (put_copy current target p)) = pl_queue p + length (pl_timer p) + 1"
  by (cases target; simp add: wp_submit_def wp_schedule_def)+

lemma sound_unit_requeues:
  assumes "sound p" "calm p" "unit_at u p (Some (Leaving (Some target)))"
  shows "sound (set_unit u (Some (Leaving None)) (put_copy current target p))"
proof -
  obtain q where q: "q = set_unit u (Some (Leaving None)) (put_copy current target p)" by blast
  have e: "pl_job q = pl_job p" "pl_clients q = pl_clients p" "pl_units q = (pl_units p)[u := Some (Leaving None)]"
    "pl_queue q + length (pl_timer q) = pl_queue p + length (pl_timer p) + 1"
    unfolding q set_unit_def using put_copy_facts [of current target p] by simp_all
  have "in_hand q + 1 = in_hand p" "busy q = busy p"
    using unit_counts [OF assms(3), of "Some (Leaving None)"] by (simp_all add: in_hand_def busy_def e)
  moreover have "in_hand p \<le> 1" using assms(1) by (simp add: sound_def load_def copies_def)
  ultimately have "in_hand p = 1" "in_hand q = 0" "busy q = busy p" by simp_all
  then show ?thesis using sound_put [OF assms(1,2) _ e(1) _ _ _ e(4)] e(2) by (simp flip: q)
qed

lemma sound_unit_releases:
  assumes "sound p" "unit_at u p (Some (Leaving None))"
  shows "sound (worker_release u p)"
proof -
  obtain g where g: "g = (\<lambda>c :: nat option \<times> stage. case snd c of Wait_for_unit again i \<Rightarrow> if i = u then (fst c, Finish_revoke again) else c | _ \<Rightarrow> c)" by blast
  have "held (g c) = held c" for c by (cases c; cases "snd c") (auto simp: g)
  then have h: "map held (map g (pl_clients p)) = map held (pl_clients p)" by simp
  obtain p' where p': "p' = worker_release u p" by blast
  have e: "pl_job p' = pl_job p" "pl_queue p' = pl_queue p" "pl_timer p' = pl_timer p" "pl_units p' = (pl_units p)[u := None]"
    "pl_clients p' = map g (pl_clients p)"
    by (simp_all add: p' worker_release_def set_unit_def g)
  have l: "load p' = load p" using unit_counts [OF assms(2), of None] h by (simp add: counts e del: map_map)
  have "stage_sound p' (g c)" if "c \<in> set (pl_clients p)" for c
  proof -
    have s: "stage_sound p' c" using others_sound [OF assms(1) that, of p'] by (simp add: e)
    obtain own st where "c = (own, st)" by fastforce
    then show ?thesis using s by (cases st) (auto simp: g)
  qed
  then show ?thesis using assms(1) l by (auto simp: sound_def e simp flip: p')
qed

lemma sound_timer_fires:
  assumes "sound p" "k < length (pl_timer p)"
  shows "sound (timer_fires k p)"
proof -
  obtain p' where p': "p' = timer_fires k p" by blast
  have e: "pl_job p' = pl_job p" "pl_queue p' = pl_queue p" "length (pl_timer p') + 1 = length (pl_timer p)" "pl_units p' = pl_units p"
    "pl_clients p' = pl_clients p @ [(None, Put_copy To_queue)]"
    using assms(2) by (simp_all add: p' timer_fires_def add_client_def)
  have l: "load p' = load p" using e(3) by (simp add: counts e)
  have "stage_sound p' c" if "c \<in> set (pl_clients p')" for c
    using that others_sound [OF assms(1), of c p'] e(3) by (auto simp: e)
  then show ?thesis using assms l by (auto simp: sound_def e simp flip: p')
qed

subsection \<open>Steps of the clients\<close>

lemma stage_sound_other: "\<not> revoking c \<Longrightarrow> stage_sound p c"
  by (cases "(p, c)" rule: stage_sound.cases) auto

lemma sole_revoke:
  assumes "calm p" "i < length (pl_clients p)" "revoking (pl_clients p ! i)" "c \<in> set (take i (pl_clients p) @ drop (Suc i) (pl_clients p))"
  shows "\<not> revoking c"
proof -
  have "filter revoking (pl_clients p) =
      filter revoking (take i (pl_clients p)) @ filter revoking (pl_clients p ! i # drop (Suc i) (pl_clients p))"
    using arg_cong [OF id_take_nth_drop [OF assms(2)], of "filter revoking"] by (simp only: filter_append)
  then have "length (filter revoking (take i (pl_clients p) @ drop (Suc i) (pl_clients p))) = 0"
    using assms(1,3) by (simp add: calm_def)
  then show ?thesis using assms(4) by (metis filter_empty_conv length_0_conv)
qed

lemma set_client_facts [simp]:
  "pl_job (set_client i own st p) = pl_job p" "pl_queue (set_client i own st p) = pl_queue p" "pl_timer (set_client i own st p) = pl_timer p"
  "pl_units (set_client i own st p) = pl_units p" "stage_sound (set_client i own st p) c = stage_sound p c"
  by (simp_all add: set_client_def) (cases "(p, c)" rule: stage_sound.cases; simp)

definition stage_held :: "stage option \<Rightarrow> nat" where
  "stage_held st = (case st of None \<Rightarrow> 0 | Some s \<Rightarrow> held (None, s))"

lemma held_owner: "held (own, s) = held (None, s)"
  by (cases s) simp_all

lemma sound_replace:
  assumes "sound p" "i < length (pl_clients p)" "pl_clients p ! i = (own, st)" "pl_clients q = pl_clients p" "pl_units q = pl_units p"
    and "\<And>c. c \<in> set (take i (pl_clients p) @ drop (Suc i) (pl_clients p)) \<Longrightarrow> stage_sound q c"
    and "\<And>s. st' = Some s \<Longrightarrow> stage_sound q (own, s)"
    and "\<And>n. n + held (None, st) + pl_queue p + length (pl_timer p) = load p + pl_queue q + length (pl_timer q) + stage_held st' \<Longrightarrow>
      n \<le> 1 \<and> (is_idle (pl_job q) \<longrightarrow> n = 0)"
  shows "sound (set_client i own st' q)"
proof -
  have "sum_list (map held (pl_clients (set_client i own st' q))) + held (None, st) = sum_list (map held (pl_clients p)) + stage_held st'"
    using sum_replace [OF assms(2), of held "case st' of None \<Rightarrow> [] | Some s \<Rightarrow> [(own, s)]"] assms(3,4) held_owner [of own]
    by (simp add: set_client_def stage_held_def split: option.splits)
  then have "load (set_client i own st' q) + held (None, st) + pl_queue p + length (pl_timer p) =
      load p + pl_queue q + length (pl_timer q) + stage_held st'"
    by (simp add: counts assms(5))
  from assms(8) [OF this] have "load (set_client i own st' q) \<le> 1 \<and> (is_idle (pl_job q) \<longrightarrow> load (set_client i own st' q) = 0)" .
  moreover have "stage_sound q c" if "c \<in> set (pl_clients (set_client i own st' q))" for c
    using that assms(4,7) assms(6) [of c] by (auto simp: set_client_def split: option.splits)
  ultimately show ?thesis by (simp add: sound_def)
qed

lemma sound_client_goes_on:
  assumes s: "sound p" and c: "calm p" and i: "i < length (pl_clients p)" "pl_clients p ! i = (own, st)"
    and step: "client_step current missed own st p = Some (st', q)"
  shows "sound (set_client i own st' q)"
proof -
  obtain others where o: "others = set (take i (pl_clients p) @ drop (Suc i) (pl_clients p))" by blast
  have sub: "others \<subseteq> set (pl_clients p)" by (auto simp: o dest: in_set_takeD in_set_dropD)
  have m: "(own, st) \<in> set (pl_clients p)" using nth_mem [OF i(1)] i(2) by simp
  have ss: "stage_sound p (own, st)" using s m by (auto simp: sound_def)
  have l: "load p \<le> 1" "is_idle (pl_job p) \<Longrightarrow> load p = 0" using s by (simp_all add: sound_def)
  have ql: "pl_queue p + length (pl_timer p) + busy p \<le> load p" by (simp add: counts)
  have alone: "stage_sound q c" if "revoking (own, st)" "c \<in> others" for c
    using stage_sound_other sole_revoke [OF c i(1), of c] that i(2) by (simp add: o)
  have along: "stage_sound q c" if "c \<in> others" "jb_state (pl_job p) = REVOKING \<Longrightarrow> jb_state (pl_job q) = REVOKING"
    "list_ex revoking (pl_clients p) \<Longrightarrow> pl_queue q \<le> pl_queue p \<and> length (pl_timer q) \<le> length (pl_timer p)" for c
    by (rule others_sound [OF s]) (use that sub in auto)
  note fit = sound_replace [OF s i, of q st', folded o]
  show ?thesis
  proof (cases st)
    case (Put_copy target)
    then have q: "q = put_copy current target p" "st' = None" using step by simp_all
    have "held (own, st) \<le> sum_list (map held (pl_clients p))" using member_le_sum_list [of "held (own, st)" "map held (pl_clients p)"] m by auto
    then have h: "0 < in_hand p" by (simp add: in_hand_def Put_copy)
    then have n: "\<not> list_ex revoking (pl_clients p)" using calm_hands [OF c] by auto
    have "1 \<le> load p" using h by (simp add: load_def copies_def)
    then show ?thesis using put_copy_facts [of current target p] l n along q by (intro fit) (auto simp: Put_copy stage_held_def)
  next
    case (Set_time time)
    then have q: "q = p\<lparr>pl_job := (pl_job p)\<lparr>jb_time := time\<rparr>\<rparr>" "st' = None" using step by simp_all
    then show ?thesis using l along by (intro fit) (auto simp: Set_time stage_held_def is_idle_def)
  next
    case (Ask_revoke again)
    obtain valid q' where a: "attempt missed revoke_required p = (valid, q')" by fastforce
    then have q: "q' = q" "st' = (if valid then Some (Stop_timer again) else map_option Ask_idle again)" using step Ask_revoke by auto
    have v: "valid \<Longrightarrow> jb_state (pl_job q) = REVOKING" using a not_idle_after(8) [of "pl_job p"] q
      by (auto simp: attempt_def split: if_splits prod.splits)
    have k: "is_idle (pl_job q) \<Longrightarrow> is_idle (pl_job p)" using a not_idle_after(4) [of "pl_job p"] q
      by (auto simp: attempt_def split: if_splits prod.splits)
    have r: "jb_state (pl_job p) = REVOKING \<Longrightarrow> jb_state (pl_job q) = REVOKING" using a job_ops(6) [of "pl_job p"] q
      by (auto simp: attempt_def split: if_splits)
    have "stage_held st' = 0" by (cases again) (simp_all add: q stage_held_def)
    then show ?thesis using attempt_facts [OF a] l k v r along q by (intro fit; cases again; auto simp: Ask_revoke split: if_splits)
  next
    case (Stop_timer again)
    then have q: "q = p\<lparr>pl_timer := []\<rparr>" "st' = Some (Stop_queue again)" using step by simp_all
    then show ?thesis using l alone ss by (intro fit) (auto simp: Stop_timer stage_held_def)
  next
    case (Stop_queue again)
    then show ?thesis
    proof (cases "0 < pl_queue p")
      case True
      then have q: "q = p\<lparr>pl_queue := pl_queue p - 1\<rparr>" "st' = Some (Finish_revoke again)" using step Stop_queue by simp_all
      have "pl_queue p = 1" using True ql l(1) by simp
      then show ?thesis using l alone ss q by (intro fit) (auto simp: Stop_queue stage_held_def)
    next
      case False
      then have q: "q = p" "st' = Some (Look_at_unit again 0)" using step Stop_queue by simp_all
      then show ?thesis using l alone ss False by (intro fit) (auto simp: Stop_queue stage_held_def)
    qed
  next
    case (Look_at_unit again k)
    then have q: "q = p" "st' = Some (tp_revoke own p again k)" using step by auto
    then show ?thesis using l alone ss by (intro fit) (auto simp: Look_at_unit stage_held_def tp_revoke_def)
  next
    case (Wait_for_unit again k)
    then show ?thesis using step by simp
  next
    case (Finish_revoke again)
    then have q: "q = p\<lparr>pl_job := job_revoked (pl_job p)\<rparr>" "st' = map_option Ask_idle again" using step by simp_all
    have "list_ex revoking (pl_clients p)" "list_ex finishing (pl_clients p)" using m Finish_revoke
      by (auto simp: list_ex_iff intro!: bexI [of _ "(own, Finish_revoke again)"])
    then have "load p = 0" using c ss Finish_revoke by (simp add: calm_def load_def copies_def)
    moreover have "stage_held st' = 0" by (cases again) (simp_all add: q stage_held_def)
    ultimately show ?thesis using alone q by (intro fit; cases again; auto simp: Finish_revoke)
  next
    case (Ask_idle time)
    obtain valid q' where a: "attempt False job_idle p = (valid, q')" by fastforce
    then have q: "q' = q" "st' = (if valid then Some (Put_copy (To_timer time)) else None)" using step Ask_idle by (auto split: prod.splits)
    have v: "valid \<Longrightarrow> load p = 0" using a not_idle_after(7) [of "pl_job p"] q l by (auto simp: attempt_def split: prod.splits)
    have k: "\<not> is_idle (pl_job q)" using a not_idle_after(3) [of "pl_job p"] q by (auto simp: attempt_def split: prod.splits)
    have r: "jb_state (pl_job p) = REVOKING \<Longrightarrow> jb_state (pl_job q) = REVOKING" using a job_ops(3) [of "pl_job p"] q
      by (auto simp: attempt_def)
    then show ?thesis using attempt_facts [OF a] l k v along q by (intro fit) (auto simp: Ask_idle stage_held_def split: if_splits)
  qed
qed

subsection \<open>Runs\<close>

lemma pool_do_sound:
  assumes "pool_do e p = Some p'" "sound p" "calm p"
  shows "sound p'"
proof (cases e)
  case (Client_goes_on i missed current)
  obtain own st where c: "pl_clients p ! i = (own, st)" by fastforce
  then obtain st' q where "i < length (pl_clients p)" "client_step current missed own st p = Some (st', q)" "p' = set_client i own st' q"
    using assms(1) Client_goes_on by (auto split: if_splits)
  then show ?thesis using sound_client_goes_on [OF assms(2,3) _ c] by simp
next
  case (Unit_requeues u current)
  then obtain target where "unit_at u p (Some (Leaving (Some target)))" "p' = set_unit u (Some (Leaving None)) (put_copy current target p)"
    using assms(1) by (auto simp: unit_at_def split: if_splits option.splits unit_stage.splits)
  then show ?thesis using sound_unit_requeues [OF assms(2,3)] by simp
qed (use assms in \<open>auto split: if_splits intro: sound_client_submits sound_client_reschedules sound_client_revokes sound_unit_takes
    sound_unit_dispatches sound_unit_returns sound_unit_completes sound_unit_releases sound_timer_fires\<close>)

lemma pool_run_sound: "pool_run calm es p = Some p' \<Longrightarrow> sound p \<Longrightarrow> calm p \<Longrightarrow> sound p'"
proof (induction es arbitrary: p)
  case (Cons e es)
  then obtain q where "pool_do e p = Some q" "calm q" "pool_run calm es q = Some p'" by (auto split: option.splits if_splits)
  then show ?case using Cons pool_do_sound by blast
qed simp

lemma new_pool_sound: "sound (new_pool n)" "calm (new_pool n)"
  by (simp_all add: sound_def calm_def counts new_pool_def new_job_def sum_list_replicate)

lemma runs_busy: "runs p \<le> busy p"
proof -
  have "length (filter (\<lambda>u. u = Some Running) us) \<le> sum_list (map unit_busy us)" for us
    by (induction us) auto
  then show ?thesis by (simp add: runs_def busy_def)
qed

text \<open>C16: Threads submit, reschedule and revoke a job, units run it, and the timer fires, in any interleaving of the steps
  in which all these access the state of the job, the queue and the timer. As long as the run is \<open>calm\<close>, that is, at most one thread revokes at a time, no
  copy is on its way to the queue or the timer meanwhile, and no revoke ends while a unit has the job ahead of it, there is at most one copy
  of the job, none while a unit has it, the job never runs twice at a time, and an idle job is nowhere. The two lemmas behind
  it show that without these conditions the code does run a job twice at a time and does make copies.\<close>

theorem job_single_copy:
  assumes "pool_run calm es (new_pool n) = Some p"
  shows "copies p + busy p \<le> 1 \<and> runs p \<le> 1 \<and> (is_idle (pl_job p) \<longrightarrow> copies p = 0 \<and> busy p = 0)"
proof -
  have "sound p" using pool_run_sound [OF assms new_pool_sound] .
  then show ?thesis using runs_busy [of p] by (auto simp: sound_def load_def)
qed

text \<open>A job is submitted and run, rescheduled while it runs, and revoked by another thread while it is in the timer.\<close>

definition busy_run :: "pool_event list" where
  "busy_run = [Client_submits False None, Client_goes_on 0 False 0, Unit_takes 1, Unit_dispatches 1, Client_reschedules False None 7,
     Client_goes_on 0 False 0, Unit_returns 1, Unit_completes 1 False, Unit_requeues 1 0, Unit_releases 1, Client_revokes None,
     Client_goes_on 0 False 0, Client_goes_on 0 False 0, Client_goes_on 0 False 0, Client_goes_on 0 False 0, Client_goes_on 0 False 0,
     Client_goes_on 0 False 0, Client_goes_on 0 False 0]"

lemma job_single_copy_witness:
  "\<exists>p. pool_run calm busy_run (new_pool 2) = Some p \<and> is_idle (pl_job p) \<and> copies p = 0 \<and> busy p = 0 \<and> runs p \<le> 1"
proof -
  have "map_option (\<lambda>p. is_idle (pl_job p)) (pool_run calm busy_run (new_pool 2)) = Some True" by code_simp
  then obtain p where p: "pool_run calm busy_run (new_pool 2) = Some p" "is_idle (pl_job p)" by auto
  then show ?thesis using job_single_copy [OF p(1)] by blast
qed

text \<open>A job that revokes itself: the thread of its unit does not wait, and the next submit runs it a second time.\<close>

lemma own_revoke_runs_twice:
  "map_option runs (pool_run (\<lambda>p. True)
     ([Client_submits False None, Client_goes_on 0 False 0, Unit_takes 0, Unit_dispatches 0, Client_revokes (Some 0)] @
      replicate 5 (Client_goes_on 0 False 0) @ [Client_submits False None, Client_goes_on 0 False 0, Unit_takes 1, Unit_dispatches 1])
     (new_pool 2)) = Some 2"
  by code_simp

text \<open>
  A unit that comes before the one that runs the job does not wait either, and a revoke between the two steps of a submit leaves the
  copy behind.
\<close>

lemma earlier_unit_does_not_wait:
  "map_option runs (pool_run (\<lambda>p. True)
     ([Client_submits False None, Client_goes_on 0 False 0, Unit_takes 1, Unit_dispatches 1, Client_revokes (Some 0)] @
      replicate 5 (Client_goes_on 0 False 0) @ [Client_submits False None, Client_goes_on 0 False 0, Unit_takes 0, Unit_dispatches 0])
     (new_pool 2)) = Some 2"
  by code_simp

lemma late_copy_stays:
  "map_option copies (pool_run (\<lambda>p. True)
     ([Client_submits False None, Client_revokes None] @ replicate 7 (Client_goes_on 1 False 0) @
      [Client_goes_on 0 False 0, Client_submits False None, Client_goes_on 0 False 0])
     (new_pool 2)) = Some 2"
  by code_simp

text \<open>
  The comparisons of \<open>Resubmit\<close> may all fail, when a submit comes between the last two of a job that was rescheduled. Nothing
  has the job then, and no further submit gives it to the pool.
\<close>

lemma resubmit_loses_job:
  "map_option (\<lambda>p. (jb_state (pl_job p), copies p, busy p, pl_clients (wp_job_submit False None p))) (pool_run calm
     [Client_submits False None, Client_goes_on 0 False 0, Unit_takes 0, Unit_dispatches 0, Client_reschedules False None 7,
      Client_goes_on 0 False 0, Unit_returns 0, Client_submits False None, Unit_completes 0 True, Unit_releases 0]
     (new_pool 1)) = Some (RESUBMIT, 0, 0, [])"
  by code_simp

text \<open>
  A revoke of a job that waits in the queue of the thread pool reports an unknown key, because that report is dropped.
\<close>

lemma revoke_drops_report: "wp_revoke_result False ERROR_NONE joined completed = ERROR_UNKNOWN_KEY"
  by (simp add: wp_revoke_result_def)

end
