(* ===== verification/Throttle_Queue.thy ===== *)
theory Throttle_Queue
  imports Prelude
begin

text \<open>
  \<open>Core::ThrottleQueueType\<close> (\<^verbatim>\<open>Source/Thunder/PluginServer.h\<close>): a bound on how many objects of a
  source are with the forwarder at a time; the others wait. What was given to the forwarder is
  recorded in order.
\<close>

record 'a throttle =
  tq_slots :: nat
  tq_used :: nat
  tq_queue :: "'a list"
  tq_forwarded :: "'a list"

definition new_throttle :: "'a throttle" where
  "new_throttle = \<lparr>tq_slots = 1, tq_used = 0, tq_queue = [], tq_forwarded = []\<rparr>"

definition set_slots :: "nat \<Rightarrow> 'a throttle \<Rightarrow> 'a throttle" where
  "set_slots n t = t\<lparr>tq_slots := n\<rparr>"

definition throttle_push :: "'a \<Rightarrow> 'a throttle \<Rightarrow> 'a throttle" where
  "throttle_push x t =
     (if tq_used t < tq_slots t \<or> tq_slots t = 0
      then t\<lparr>tq_used := add32 (tq_used t) 1, tq_forwarded := tq_forwarded t @ [x]\<rparr>
      else t\<lparr>tq_queue := tq_queue t @ [x]\<rparr>)"

definition throttle_pop :: "'a throttle \<Rightarrow> 'a throttle" where
  "throttle_pop t =
     (case tq_queue t of
        x # xs \<Rightarrow> t\<lparr>tq_forwarded := tq_forwarded t @ [x], tq_queue := xs\<rparr>
      | [] \<Rightarrow> t\<lparr>tq_used := sub32 (tq_used t) 1\<rparr>)"

text \<open>
  A run of a source and a forwarder: \<open>Some x\<close> pushes \<open>x\<close>, \<open>None\<close> is the forwarder that has finished
  an object, which needs one in use.
\<close>

fun throttle_run :: "'a option list \<Rightarrow> 'a throttle \<Rightarrow> 'a throttle option" where
  "throttle_run [] t = Some t"
| "throttle_run (Some x # ops) t = throttle_run ops (throttle_push x t)"
| "throttle_run (None # ops) t = (if 0 < tq_used t then throttle_run ops (throttle_pop t) else None)"

definition pushed :: "'a option list \<Rightarrow> 'a list" where
  "pushed ops = map the (filter (\<lambda>o'. o' \<noteq> None) ops)"

text \<open>With \<open>finished\<close> objects handed back so far.\<close>

definition throttled :: "nat \<Rightarrow> nat \<Rightarrow> 'a throttle \<Rightarrow> bool" where
  "throttled n finished t \<longleftrightarrow> tq_slots t = n \<and> tq_used t \<le> n
     \<and> (tq_queue t = [] \<or> tq_used t = n) \<and> tq_used t + finished = length (tq_forwarded t)"

lemma push_throttled:
  assumes "throttled n finished t" "0 < n" "n < 2 ^ 32"
  shows "throttled n finished (throttle_push x t)"
    "tq_forwarded (throttle_push x t) @ tq_queue (throttle_push x t) = (tq_forwarded t @ tq_queue t) @ [x]"
  using assms by (auto simp: throttled_def throttle_push_def add32_id)

lemma pop_throttled:
  assumes "throttled n finished t" "0 < tq_used t" "n < 2 ^ 32"
  shows "throttled n (Suc finished) (throttle_pop t)"
    "tq_forwarded (throttle_pop t) @ tq_queue (throttle_pop t) = tq_forwarded t @ tq_queue t"
  using assms by (auto simp: throttled_def throttle_pop_def sub32_id split: list.split)

lemma run_throttled:
  assumes "throttled n finished t" "0 < n" "n < 2 ^ 32" "throttle_run ops t = Some t'"
  shows "throttled n (finished + length (filter (\<lambda>o'. o' = None) ops)) t'
    \<and> tq_forwarded t' @ tq_queue t' = (tq_forwarded t @ tq_queue t) @ pushed ops"
  using assms
proof (induction ops t arbitrary: finished rule: throttle_run.induct)
  case (2 x ops t)
  then show ?case using push_throttled [OF 2(2-4), of x] by (simp add: pushed_def)
next
  case (3 ops t)
  then have u: "0 < tq_used t" by (auto split: if_splits)
  then have "throttle_run ops (throttle_pop t) = Some t'" using 3(5) by simp
  from 3(1) [OF u pop_throttled(1) [OF 3(2) u 3(4)] 3(3,4) this]
  show ?case using pop_throttled(2) [OF 3(2) u 3(4)] by (simp add: pushed_def)
qed (simp add: pushed_def)

text \<open>
  C27: With \<open>n\<close> slots the objects reach the forwarder in the order in which they were pushed, none is
  lost, at most \<open>n\<close> are with it at a time, and an object waits only while all \<open>n\<close> are in use.
\<close>

theorem throttle_in_order:
  assumes "0 < n" "n < 2 ^ 32" "throttle_run ops (set_slots n new_throttle) = Some t"
  shows "tq_forwarded t @ tq_queue t = pushed ops
    \<and> length (tq_forwarded t) - length (filter (\<lambda>o'. o' = None) ops) \<le> n
    \<and> (tq_queue t = [] \<or> length (tq_forwarded t) - length (filter (\<lambda>o'. o' = None) ops) = n)"
proof -
  have "throttled n 0 (set_slots n new_throttle)" by (simp add: throttled_def set_slots_def new_throttle_def)
  from run_throttled [OF this assms(1,2,3)] show ?thesis
    by (auto simp: throttled_def set_slots_def new_throttle_def)
qed

theorem throttle_in_order_witness:
  "tq_forwarded \<lparr>tq_slots = 1, tq_used = 1, tq_queue = [''c''], tq_forwarded = [''a'', ''b'']\<rparr> @ [''c''] =
    pushed [Some ''a'', Some ''b'', None, Some ''c'']"
proof -
  have "throttle_run [Some ''a'', Some ''b'', None, Some ''c''] (set_slots 1 new_throttle) =
      Some \<lparr>tq_slots = 1, tq_used = 1, tq_queue = [''c''], tq_forwarded = [''a'', ''b'']\<rparr>"
    by (simp add: set_slots_def new_throttle_def throttle_push_def throttle_pop_def add32_def)
  from throttle_in_order [OF _ _ this] show ?thesis by simp
qed

end
