(* ===== verification/Serialization.thy ===== *)
theory Serialization
  imports Prelude
begin

text \<open>
  The text encodings of \<^verbatim>\<open>Source/core/Serialization.cpp\<close>: hexadecimal and base64 strings of bytes,
  UTF-16 and UTF-8 of code points, and quoting. A \<^verbatim>\<open>TCHAR\<close> is a \<open>char\<close>, the terminating character
  behind a string is read as \<open>CHR 0x00\<close>.
\<close>

subsection \<open>Hexadecimal strings\<close>

definition hex_chars :: string where
  "hex_chars = ''0123456789abcdef''"

definition is_between :: "char \<Rightarrow> char \<Rightarrow> char \<Rightarrow> bool" where
  "is_between a b c \<longleftrightarrow> (of_char a :: nat) \<le> of_char c \<and> (of_char c :: nat) \<le> of_char b"

definition offset :: "char \<Rightarrow> char \<Rightarrow> u8" where
  "offset a c = of_nat (of_char c - of_char a)"

definition from_hex_digits :: "char \<Rightarrow> u8" where
  "from_hex_digits c =
     (if is_between (CHR ''0'') (CHR ''9'') c then offset (CHR ''0'') c
      else if is_between (CHR ''a'') (CHR ''f'') c then offset (CHR ''a'') c + 10
      else if is_between (CHR ''A'') (CHR ''F'') c then offset (CHR ''A'') c + 10
      else 0)"

text \<open>A delimiter of \<open>CHR 0x00\<close> means none.\<close>

definition resize :: "nat \<Rightarrow> string \<Rightarrow> string" where
  "resize n s = take n s @ replicate (n - length s) (CHR 0x00)"

definition hex_byte :: "u8 \<Rightarrow> string" where
  "hex_byte b = [hex_chars ! unat (drop_bit 4 b), hex_chars ! unat (b AND 0xF)]"

fun put_hex :: "char \<Rightarrow> bool \<Rightarrow> nat \<Rightarrow> u8 list \<Rightarrow> string \<Rightarrow> string" where
  "put_hex delimiter first j [] result = result"
| "put_hex delimiter first j (b # bs) result =
     (let (j, result) = (if delimiter \<noteq> CHR 0x00 \<and> \<not> first then (j + 1, result[j := delimiter]) else (j, result))
      in put_hex delimiter False (j + 2) bs (result[j := hex_byte b ! 0, j + 1 := hex_byte b ! 1]))"

definition to_hex_string :: "u8 list \<Rightarrow> char \<Rightarrow> string \<Rightarrow> string" where
  "to_hex_string object delimiter result =
     (let index = length result;
          size' = add32 (add32 index (mul32 (length object) 2)) (if delimiter = CHR 0x00 then 0 else sub32 (length object) 1)
      in put_hex delimiter True index object (resize size' result))"

text \<open>The loop without a delimiter, and with one: at most \<open>n\<close> bytes.\<close>

fun hex_pairs :: "nat \<Rightarrow> string \<Rightarrow> u8 list" where
  "hex_pairs 0 s = []"
| "hex_pairs n [] = []"
| "hex_pairs (Suc n) [c] = [push_bit 4 (from_hex_digits c) + from_hex_digits (CHR 0x00)]"
| "hex_pairs (Suc n) (c # d # s) = (push_bit 4 (from_hex_digits c) + from_hex_digits d) # hex_pairs n s"

fun hex_delimited :: "char \<Rightarrow> nat \<Rightarrow> string \<Rightarrow> u8 list" where
  "hex_delimited delimiter 0 s = []"
| "hex_delimited delimiter n [] = []"
| "hex_delimited delimiter (Suc n) [c] = [push_bit 4 (from_hex_digits c) + from_hex_digits (CHR 0x00)]"
| "hex_delimited delimiter (Suc n) (c # d # s) =
     (if d = delimiter then from_hex_digits c # hex_delimited delimiter n s
      else (push_bit 4 (from_hex_digits c) + from_hex_digits d) #
        hex_delimited delimiter n (case s of e # s' \<Rightarrow> if e = delimiter then s' else s | [] \<Rightarrow> []))"

definition from_hex_string :: "string \<Rightarrow> nat \<Rightarrow> char \<Rightarrow> u8 list" where
  "from_hex_string hexString maxLength delimiter =
     (if delimiter = CHR 0x00 then
        (if odd (length hexString)
         then from_hex_digits (hd hexString) # hex_pairs (maxLength - 1) (tl hexString)
         else hex_pairs maxLength hexString)
      else hex_delimited delimiter maxLength hexString)"

text \<open>Into a vector: its size is computed from the length of the string.\<close>

definition from_hex_vector :: "string \<Rightarrow> nat \<Rightarrow> char \<Rightarrow> u8 list" where
  "from_hex_vector hexString maxLength delimiter =
     (let maxSize = (if delimiter = CHR 0x00 then length hexString div 2 else (length hexString + 1) div 3)
      in from_hex_string hexString (min maxSize maxLength) delimiter)"

subsection \<open>Base64\<close>

definition base64_chars :: string where
  "base64_chars = ''ABCDEFGHIJKLMNOPQRSTUVWXYZabcdefghijklmnopqrstuvwxyz0123456789+/''"

definition char64 :: "u8 \<Rightarrow> char" where
  "char64 v = base64_chars ! unat v"

text \<open>The loop over the bytes: the characters written, and the state and left over bits at the end.\<close>

fun encode64 :: "nat \<Rightarrow> u8 \<Rightarrow> u8 list \<Rightarrow> string \<times> nat \<times> u8" where
  "encode64 state lastStuff [] = ([], state, lastStuff)"
| "encode64 state lastStuff (b # bs) =
     (if state = 0 then
        (case encode64 1 (push_bit 4 (b AND 0x03)) bs of (s, r) \<Rightarrow> (char64 (drop_bit 2 (b AND 0xFC)) # s, r))
      else if state = 1 then
        (case encode64 2 (push_bit 2 (b AND 0x0F)) bs of (s, r) \<Rightarrow> (char64 (drop_bit 4 (b AND 0xF0) OR lastStuff) # s, r))
      else
        (case encode64 0 lastStuff bs of
           (s, r) \<Rightarrow> (char64 (drop_bit 6 (b AND 0xC0) OR lastStuff) # char64 (b AND 0x3F) # s, r)))"

definition to_base64 :: "u8 list \<Rightarrow> bool \<Rightarrow> string \<Rightarrow> string" where
  "to_base64 object padding result =
     (case encode64 0 0 object of
        (s, state, lastStuff) \<Rightarrow>
          result @ s @
          (if state \<noteq> 0
           then char64 lastStuff # (if padding then (if state = 1 then ''=='' else ''='') else [])
           else []))"

definition from_base64_digit :: "char \<Rightarrow> u8 option" where
  "from_base64_digit c =
     (if is_between (CHR ''A'') (CHR ''Z'') c then Some (offset (CHR ''A'') c)
      else if is_between (CHR ''a'') (CHR ''z'') c then Some (offset (CHR ''a'') c + 26)
      else if is_between (CHR ''0'') (CHR ''9'') c then Some (offset (CHR ''0'') c + 52)
      else if c = CHR ''+'' then Some 62
      else if c = CHR ''/'' then Some 63
      else None)"

text \<open>
  The loop over the characters, with room for \<open>n\<close> bytes: the bytes, and how many characters were
  looked at. The terminating character counts as one of the characters to ignore.
\<close>

fun decode64 :: "string option \<Rightarrow> nat \<Rightarrow> nat \<Rightarrow> u8 \<Rightarrow> string \<Rightarrow> u8 list \<times> nat" where
  "decode64 ignore n state lastStuff [] = ([], 0)"
| "decode64 ignore n state lastStuff (c # cs) =
     (if n = 0 then ([], 0)
      else
        (case from_base64_digit c of
           None \<Rightarrow>
             (if (case ignore of None \<Rightarrow> False | Some xs \<Rightarrow> c = CHR 0x00 \<or> c \<in> set xs)
              then (case decode64 ignore n state lastStuff cs of (bs, i) \<Rightarrow> (bs, Suc i))
              else ([], 1))
         | Some converted \<Rightarrow>
             if state = 0 then
               (case decode64 ignore n 1 (push_bit 2 converted) cs of (bs, i) \<Rightarrow> (bs, Suc i))
             else if state = 1 then
               (case decode64 ignore (n - 1) 2 (push_bit 4 (converted AND 0x0F)) cs of
                  (bs, i) \<Rightarrow> ((drop_bit 4 (converted AND 0x30) OR lastStuff) # bs, Suc i))
             else if state = 2 then
               (case decode64 ignore (n - 1) 3 (push_bit 6 (converted AND 0x03)) cs of
                  (bs, i) \<Rightarrow> ((drop_bit 2 (converted AND 0x3C) OR lastStuff) # bs, Suc i))
             else
               (case decode64 ignore (n - 1) 0 lastStuff cs of
                  (bs, i) \<Rightarrow> (((converted AND 0x3F) OR lastStuff) # bs, Suc i))))"

definition from_base64 :: "string \<Rightarrow> nat \<Rightarrow> string option \<Rightarrow> u8 list \<times> nat" where
  "from_base64 newValue length' ignoreList = decode64 ignoreList length' 0 0 newValue"

definition from_base64_vector :: "string \<Rightarrow> nat \<Rightarrow> string option \<Rightarrow> u8 list \<times> nat" where
  "from_base64_vector value length' ignoreList =
     (let padding = (if 0 < length value \<and> value ! (length value - 1) = CHR ''='' then 1 else 0)
                  + (if 1 < length value \<and> value ! (length value - 2) = CHR ''='' then 1 else 0);
          maxSize = sub32 (length value div 4 * 3) padding
      in from_base64 value (min maxSize length') ignoreList)"

subsection \<open>Code points\<close>

text \<open>Whether the code point can be translated, the low part and the high part.\<close>

definition code_point_to_utf16 :: "u32 \<Rightarrow> bool \<times> u16 \<times> u16" where
  "code_point_to_utf16 codePoint =
     (if codePoint \<le> 0xFFFF then (True, ucast codePoint, 0)
      else
        let adjusted = codePoint - 0x10000 in
        if 0xFFFFF < adjusted then (False, 0x20, 0)
        else (True, ucast ((adjusted AND 0x3FF) OR 0xDC00), ucast ((drop_bit 10 adjusted AND 0x3FF) OR 0xD800)))"

definition utf16_to_code_point :: "u16 \<Rightarrow> u16 \<Rightarrow> bool \<times> u32" where
  "utf16_to_code_point lowPart highPart =
     (if highPart = 0 then (True, ucast lowPart)
      else if lowPart AND 0xFC00 = 0xDC00 \<and> highPart AND 0xFC00 = 0xD800
      then (True, ((ucast lowPart AND 0x03FF) OR push_bit 10 (ucast highPart AND 0x03FF)) + 0x10000)
      else (False, 0x20))"

definition bytes_following :: "u32 \<Rightarrow> nat" where
  "bytes_following header =
     (if header < 0xC0 then 0 else if header < 0xE0 then 1 else if header < 0xF0 then 2
      else if header < 0xF8 then 3 else if header < 0xFC then 4 else 5)"

text \<open>
  \<open>ToCodePoint\<close>: the loop over the following bytes, up to and including index \<open>length\<close>.
\<close>

fun gather :: "nat \<Rightarrow> nat \<Rightarrow> u8 list \<Rightarrow> u32 \<Rightarrow> bool \<Rightarrow> u32 \<times> bool" where
  "gather index 0 data codePoint invalid = (codePoint, invalid)"
| "gather index (Suc n) data codePoint invalid =
     gather (Suc index) n data (push_bit 6 codePoint OR (ucast (data ! index) AND 0x3F))
       (invalid \<or> data ! index AND 0xC0 \<noteq> 0x80)"

definition to_code_point :: "u8 list \<Rightarrow> nat \<Rightarrow> int \<times> u32" where
  "to_code_point data length' =
     (let header = ucast (data ! 0);
          following = bytes_following header;
          (codePoint, invalid) =
            (if following = 0 then (header AND 0x7F, False)
             else gather 1 (min following length') data (header AND (push_bit (7 - following) 1 - 1)) False)
      in (if invalid then - (int following + 1) else int following + 1, codePoint))"

definition following_bytes :: "u32 \<Rightarrow> nat" where
  "following_bytes codePoint =
     (if codePoint \<le> 0x7F then 0 else if codePoint \<le> 0x7FF then 1 else if codePoint \<le> 0xFFFF then 2
      else if codePoint \<le> 0x1FFFFF then 3 else if codePoint \<le> 0x03FFFFFF then 4 else 5)"

text \<open>The loop from the last byte down to index 1; bytes beyond the length are not written.\<close>

fun scatter :: "nat \<Rightarrow> nat \<Rightarrow> u32 \<Rightarrow> u8 list \<Rightarrow> u32 \<times> u8 list" where
  "scatter 0 length' shifter data = (shifter, data)"
| "scatter (Suc n) length' shifter data =
     scatter n length' (drop_bit 6 shifter)
       (if Suc n < length' then data[Suc n := ucast ((shifter AND 0x3F) OR 0x80)] else data)"

definition from_code_point :: "u32 \<Rightarrow> u8 list \<Rightarrow> nat \<Rightarrow> int \<times> u8 list" where
  "from_code_point codePoint data length' =
     (let following = following_bytes codePoint in
      if following = 0 then (1, data[0 := ucast (codePoint AND 0x7F)])
      else
        (case scatter following length' codePoint data of
           (shifter, data) \<Rightarrow>
             (int following + 1,
              data[0 := ucast (NOT (push_bit (7 - following) 1 - 1) OR (shifter AND 0x3F) :: u32)])))"

subsection \<open>Quoting\<close>

definition to_quoted_string :: "char \<Rightarrow> string \<Rightarrow> string" where
  "to_quoted_string quote input =
     [quote] @ concat (map (\<lambda>entry. (if entry = quote then [CHR 0x5C] else []) @ [entry]) input) @ [quote]"

subsection \<open>Facts about bytes\<close>

lemma sextet_below: "v AND 0xC0 = 0 \<Longrightarrow> unat (v :: u8) < 64"
proof -
  assume z: "v AND 0xC0 = 0"
  have "bit (v AND 0xC0) 6 = bit v 6" "bit (v AND 0xC0) 7 = bit v 7" by (simp_all add: bit_simps)
  then have "v = take_bit 6 v" using z by (intro byte_eqI) (simp_all add: bit_simps)
  then have "unat v = take_bit 6 (unat v)" by (metis unsigned_take_bit_eq)
  then show ?thesis using take_bit_nat_less_exp [of 6 "unat v"] by simp
qed

text \<open>The four groups of six bits of three bytes.\<close>

definition sx1 :: "u8 \<Rightarrow> u8" where "sx1 a = drop_bit 2 (a AND 0xFC)"
definition sx2 :: "u8 \<Rightarrow> u8 \<Rightarrow> u8" where "sx2 a b = drop_bit 4 (b AND 0xF0) OR push_bit 4 (a AND 0x03)"
definition sx3 :: "u8 \<Rightarrow> u8 \<Rightarrow> u8" where "sx3 b c = drop_bit 6 (c AND 0xC0) OR push_bit 2 (b AND 0x0F)"
definition sx4 :: "u8 \<Rightarrow> u8" where "sx4 c = c AND 0x3F"

lemmas sx_defs = sx1_def sx2_def sx3_def sx4_def

lemma sextet_less: "unat (sx1 a) < 64" "unat (sx2 a b) < 64" "unat (sx3 b c) < 64" "unat (sx4 c) < 64"
  unfolding sx_defs by (rule sextet_below, rule byte_eqI; simp add: bit_simps)+

lemma sextets_join:
  "drop_bit 4 (sx2 a b AND 0x30) OR push_bit 2 (sx1 a) = a"
  "drop_bit 2 (sx3 b c AND 0x3C) OR push_bit 4 (sx2 a b AND 0x0F) = b"
  "(sx4 c AND 0x3F) OR push_bit 6 (sx3 b c AND 0x03) = c"
  unfolding sx_defs by (rule byte_eqI; simp add: bit_simps)+

lemma nibbles_join: "push_bit 4 (drop_bit 4 b) + (b AND 0xF) = (b :: u8)"
proof -
  have "push_bit 4 (drop_bit 4 b) + (b AND 0xF) = push_bit 4 (drop_bit 4 b) OR (b AND 0xF)"
    by (rule disjunctive_add_eq_or, rule byte_eqI; simp add: bit_simps)
  also have "\<dots> = b" by (rule byte_eqI; simp add: bit_simps)
  finally show ?thesis .
qed

lemma nibble_less: "unat (drop_bit 4 b :: u8) < 16" "unat (b AND 0xF :: u8) < 16"
proof -
  show "unat (drop_bit 4 b) < 16"
  proof -
    have "unat b < 2 ^ LENGTH(8)" by (rule unsigned_less)
    then have "unat b < 256" by simp
    then show ?thesis by (subst unat_drop_bit_eq) (simp add: drop_bit_eq_div)
  qed
  have "b AND 0xF = take_bit 4 b" by (simp add: take_bit_eq_mask mask_eq_exp_minus_1)
  then show "unat (b AND 0xF) < 16"
    using take_bit_nat_less_exp [of 4 "unat b"] by (simp add: unsigned_take_bit_eq)
qed

subsection \<open>Base64 round trip\<close>

lemma digits_of_base64_chars: "map from_base64_digit base64_chars = map (Some \<circ> of_nat) [0..<64]"
  by (simp add: base64_chars_def from_base64_digit_def is_between_def offset_def upt_rec)

lemma from_base64_digit_char64:
  assumes "unat v < 64" shows "from_base64_digit (char64 v) = Some v"
proof -
  have "length base64_chars = 64" by (simp add: base64_chars_def)
  then have "from_base64_digit (char64 v) = map from_base64_digit base64_chars ! unat v"
    using assms by (simp add: char64_def)
  also have "\<dots> = Some v" using assms by (simp add: digits_of_base64_chars)
  finally show ?thesis .
qed

lemma decode64_sextet:
  "n > 0 \<Longrightarrow> unat v < 64 \<Longrightarrow>
     fst (decode64 ignore n 0 l (char64 v # cs)) = fst (decode64 ignore n (Suc 0) (push_bit 2 v) cs)"
  "unat v < 64 \<Longrightarrow> fst (decode64 ignore (Suc m) (Suc 0) l (char64 v # cs)) =
     (drop_bit 4 (v AND 0x30) OR l) # fst (decode64 ignore m 2 (push_bit 4 (v AND 0x0F)) cs)"
  "unat v < 64 \<Longrightarrow> fst (decode64 ignore (Suc m) 2 l (char64 v # cs)) =
     (drop_bit 2 (v AND 0x3C) OR l) # fst (decode64 ignore m 3 (push_bit 6 (v AND 0x03)) cs)"
  "unat v < 64 \<Longrightarrow> fst (decode64 ignore (Suc m) 3 l (char64 v # cs)) =
     ((v AND 0x3F) OR l) # fst (decode64 ignore m 0 l cs)"
  by (simp_all add: from_base64_digit_char64 split: prod.splits)

lemma decode64_padding: "fst (decode64 ignore n state l (replicate k (CHR ''=''))) = []"
  by (induction k)
    (auto simp: from_base64_digit_def is_between_def split: prod.splits option.splits)

lemma list_cases3:
  obtains "xs = []" | a where "xs = [a]" | a b where "xs = [a, b]" | a b c ys where "xs = a # b # c # ys"
  by (metis list.exhaust)

lemma list_induct3:
  assumes "P []" "\<And>a. P [a]" "\<And>a b. P [a, b]" "\<And>a b c xs. P xs \<Longrightarrow> P (a # b # c # xs)"
  shows "P xs"
proof (induction xs rule: length_induct)
  case (1 xs)
  show ?case
    by (cases xs rule: list_cases3) (use 1 assms in auto)
qed

text \<open>The text of a list of bytes, three bytes at a time.\<close>

fun text64 :: "bool \<Rightarrow> u8 list \<Rightarrow> string" where
  "text64 p [] = []"
| "text64 p [a] = [char64 (sx1 a), char64 (sx2 a 0)] @ replicate (if p then 2 else 0) (CHR ''='')"
| "text64 p [a, b] = [char64 (sx1 a), char64 (sx2 a b), char64 (sx3 b 0)] @ replicate (if p then 1 else 0) (CHR ''='')"
| "text64 p (a # b # c # bs) = char64 (sx1 a) # char64 (sx2 a b) # char64 (sx3 b c) # char64 (sx4 c) # text64 p bs"

lemma encode64_text64:
  "(case encode64 0 l bs of (s, state, r) \<Rightarrow>
      s @ (if state \<noteq> 0 then char64 r # (if p then (if state = 1 then ''=='' else ''='') else []) else [])) = text64 p bs"
proof (induction bs arbitrary: l rule: list_induct3)
  case (4 a b c bs)
  show ?case
    using 4 [of "push_bit 2 (b AND 0x0F)"]
    by (cases "encode64 0 (push_bit 2 (b AND 0x0F)) bs") (simp add: sx_defs)
qed (simp_all add: sx_defs numeral_2_eq_2)

lemma to_base64_text: "to_base64 bs p result = result @ text64 p bs"
  unfolding to_base64_def encode64_text64 [where l = 0, symmetric] by (simp split: prod.splits)

lemma decode64_text64:
  "length bs \<le> n \<Longrightarrow> fst (decode64 ignore n 0 l (text64 p bs)) = bs"
proof (induction bs arbitrary: n l rule: list_induct3)
  case (2 a)
  then obtain m where "n = Suc m" by (cases n) simp_all
  then show ?case
    by (simp del: decode64.simps replicate.simps
        add: decode64_sextet sextet_less sextets_join [simplified] decode64_padding)
next
  case (3 a b)
  then obtain m where "n = Suc (Suc m)" by (metis Suc_le_D length_Cons Suc_le_mono)
  then show ?case
    by (simp del: decode64.simps replicate.simps
        add: decode64_sextet sextet_less sextets_join [simplified] decode64_padding)
next
  case (4 a b c bs)
  from 4(2) obtain m where m: "n = Suc (Suc (Suc m))" "length bs \<le> m"
    by (metis Suc_le_D Suc_le_mono length_Cons)
  then show ?case
    by (simp del: decode64.simps add: decode64_sextet sextet_less sextets_join [simplified] 4(1))
qed simp

text \<open>C28: decoding the base64 text of any bytes, padded or not, with room for them, returns the
  bytes, whatever characters the caller lets the decoder ignore.\<close>

theorem base64_roundtrip:
  assumes "length bs \<le> n"
  shows "\<exists>t. to_base64 bs padding result = result @ t \<and> fst (from_base64 t n ignoreList) = bs"
  using decode64_text64 [OF assms] by (simp add: to_base64_text from_base64_def)

theorem base64_roundtrip_witness:
  "\<exists>t. to_base64 [0, 255, 16, 131] True ''b:'' = ''b:'' @ t \<and> fst (from_base64 t 10 None) = [0, 255, 16, 131]"
  by (rule base64_roundtrip) simp

text \<open>Into a vector.\<close>

lemma decode64_take:
  "n \<le> m \<Longrightarrow> fst (decode64 ignore n state l cs) = take n (fst (decode64 ignore m state l cs))"
proof (induction cs arbitrary: n m state l)
  case (Cons c cs)
  show ?case
  proof (cases n)
    case (Suc n')
    then obtain m' where m: "m = Suc m'" "n' \<le> m'" using Cons.prems by (metis Suc_le_D Suc_le_mono)
    show ?thesis
      using Suc m Cons.IH [OF Cons.prems] Cons.IH [OF m(2)]
      by (auto simp: case_prod_beta split: option.splits)
  qed simp
qed simp

lemma char64_no_equals: "unat v < 64 \<Longrightarrow> char64 v \<noteq> CHR ''=''"
  using from_base64_digit_char64 [of v] by (auto simp: from_base64_digit_def is_between_def)

lemma text64_shape:
  "length (text64 p bs) = 4 * (length bs div 3) + (if length bs mod 3 = 0 then 0 else if p then 4 else length bs mod 3 + 1)"
  "bs \<noteq> [] \<Longrightarrow> text64 p bs ! (length (text64 p bs) - 1) = CHR ''='' \<longleftrightarrow> p \<and> length bs mod 3 \<noteq> 0"
  "bs \<noteq> [] \<Longrightarrow> text64 p bs ! (length (text64 p bs) - 2) = CHR ''='' \<longleftrightarrow> p \<and> length bs mod 3 = 1"
proof (induction bs rule: list_induct3)
  case (4 a b c bs)
  {
    case 1
    show ?case using 4(1) div_add_self1 [of 3 "length bs"] by simp
  next
    case 2
    show ?case
    proof (cases "bs = []")
      case False
      then obtain k where "length (text64 p bs) = Suc (Suc k)" by (cases bs rule: list_cases3) auto
      then show ?thesis using 4(2) False by simp
    qed (simp add: char64_no_equals sextet_less)
  next
    case 3
    show ?case
    proof (cases "bs = []")
      case False
      then obtain k where "length (text64 p bs) = Suc (Suc k)" by (cases bs rule: list_cases3) auto
      then show ?thesis using 4(3) False by simp
    qed (simp add: char64_no_equals sextet_less)
  }
qed (simp_all add: char64_no_equals sextet_less numeral_2_eq_2)

text \<open>Into a vector, padded text is decoded to all its bytes; of text without padding the bytes
  after the last whole group of three are lost, because the size of the vector counts whole groups of
  four characters.\<close>

theorem base64_vector:
  assumes "length bs \<le> n" "2 * length bs + 4 < 2 ^ 32"
  shows "fst (from_base64_vector (to_base64 bs padding []) n ignoreList)
    = (if padding then bs else take (3 * (length bs div 3)) bs)"
proof (cases "bs = []")
  case True
  then show ?thesis by (simp add: from_base64_vector_def from_base64_def to_base64_text sub32_def)
next
  case False
  let ?t = "text64 padding bs"
  let ?n = "if padding then length bs else 3 * (length bs div 3)"
  have l: "1 < length ?t" using False by (cases bs rule: list_cases3) auto
  obtain q r where qr: "length bs = 3 * q + r" "r < 3"
    by (rule that [of "length bs div 3" "length bs mod 3"]) simp_all
  then have dm: "length bs div 3 = q" "length bs mod 3 = r" by simp_all
  have "length ?t div 4 * 3 = (if padding \<and> r \<noteq> 0 then 3 * q + 3 else 3 * q)"
    using qr(2) by (auto simp: text64_shape(1) dm)
  moreover have "(if 0 < length ?t \<and> ?t ! (length ?t - 1) = CHR ''='' then 1 else 0)
      + (if 1 < length ?t \<and> ?t ! (length ?t - 2) = CHR ''='' then 1 else 0)
      = (if padding \<and> r = 1 then 2 else if padding \<and> r = 2 then 1 else (0 :: nat))"
    using l qr(2) text64_shape(2,3) [where p = padding and bs = bs, OF False] by (auto simp: dm)
  ultimately have "sub32 (length ?t div 4 * 3) ((if 0 < length ?t \<and> ?t ! (length ?t - 1) = CHR ''='' then 1 else 0)
      + (if 1 < length ?t \<and> ?t ! (length ?t - 2) = CHR ''='' then 1 else 0)) = ?n"
    using qr assms(2) by (auto simp: no_wrap)
  then have "fst (from_base64_vector (to_base64 bs padding []) n ignoreList)
      = fst (decode64 ignoreList (min ?n n) 0 0 ?t)"
    by (simp add: from_base64_vector_def Let_def to_base64_text from_base64_def)
  also have "\<dots> = take (min ?n n) (fst (decode64 ignoreList n 0 0 ?t))" by (rule decode64_take) simp
  also have "\<dots> = take (min ?n n) bs" using decode64_text64 [OF assms(1)] by simp
  finally show ?thesis using assms(1) by simp
qed

theorem base64_vector_witness:
  "fst (from_base64_vector (to_base64 [1, 2, 3, 4] False []) 9 None) = [1, 2, 3]"
  using base64_vector [of "[1, 2, 3, 4]" 9 False None] by simp

subsection \<open>Hexadecimal round trip\<close>

text \<open>The text of the bytes, with a delimiter before each but the first.\<close>

fun hex_text :: "char \<Rightarrow> bool \<Rightarrow> u8 list \<Rightarrow> string" where
  "hex_text d first [] = []"
| "hex_text d first (b # bs) =
     (if d \<noteq> CHR 0x00 \<and> \<not> first then [d] else []) @ hex_byte b @ hex_text d False bs"

definition hex_length :: "char \<Rightarrow> bool \<Rightarrow> nat \<Rightarrow> nat" where
  "hex_length d first n = 2 * n + (if d = CHR 0x00 then 0 else if first then n - 1 else n)"

lemma length_hex_text: "length (hex_text d first bs) = hex_length d first (length bs)"
  by (induction d first bs rule: hex_text.induct) (auto simp: hex_length_def hex_byte_def)

lemma put_hex_text:
  "put_hex d first (length pre) bs (pre @ replicate (hex_length d first (length bs)) z) = pre @ hex_text d first bs"
proof (induction d first bs arbitrary: pre rule: hex_text.induct)
  case (1 d first)
  then show ?case by (simp add: hex_length_def)
next
  case (2 d first b bs)
  let ?n = "hex_length d False (length bs)"
  have two: "(xs @ z # z # ys)[length xs := u, Suc (length xs) := v] = xs @ u # v # ys" for xs ys :: string and u v
    by (simp add: list_update_append)
  have hb: "hex_byte b = [hex_byte b ! 0, hex_byte b ! 1]" by (simp add: hex_byte_def)
  show ?case
  proof (cases "d \<noteq> CHR 0x00 \<and> \<not> first")
    case True
    then have "replicate (hex_length d first (length (b # bs))) z = z # z # z # replicate ?n z"
      by (simp add: hex_length_def)
    then show ?thesis
      using True 2 [of "pre @ [d] @ hex_byte b"] two [of "pre @ [d]" "replicate ?n z" "hex_byte b ! 0" "hex_byte b ! 1"]
      by (simp add: hex_byte_def)
  next
    case False
    then have "replicate (hex_length d first (length (b # bs))) z = z # z # replicate ?n z"
      by (auto simp: hex_length_def)
    then show ?thesis
      using False 2 [of "pre @ hex_byte b"] two [of pre "replicate ?n z" "hex_byte b ! 0" "hex_byte b ! 1"]
      by (auto simp: hex_byte_def)
  qed
qed

lemma to_hex_string_text:
  assumes "bs \<noteq> []" "length result + 3 * length bs < 2 ^ 32"
  shows "to_hex_string bs d result = result @ hex_text d True bs"
proof -
  have *: "add32 (add32 (length result) (mul32 (length bs) 2)) (if d = CHR 0x00 then 0 else sub32 (length bs) 1)
      = length result + hex_length d True (length bs)"
    using assms by (cases bs) (simp_all add: add32_def mul32_def sub32_def hex_length_def)
  show ?thesis
    using put_hex_text [of d True result bs "CHR 0x00"]
    by (simp add: to_hex_string_def Let_def * resize_def)
qed

lemma from_hex_digits_hex_chars:
  assumes "unat v < 16" shows "from_hex_digits (hex_chars ! unat v) = v"
proof -
  have m: "map from_hex_digits hex_chars = map of_nat [0..<16]"
    by (simp add: hex_chars_def from_hex_digits_def is_between_def offset_def upt_rec)
  have "length hex_chars = 16" by (simp add: hex_chars_def)
  then have "from_hex_digits (hex_chars ! unat v) = map from_hex_digits hex_chars ! unat v" using assms by simp
  also have "\<dots> = v" using assms by (simp add: m)
  finally show ?thesis .
qed

lemma hex_pairs_text: "length bs \<le> n \<Longrightarrow> hex_pairs n (hex_text (CHR 0x00) first bs) = bs"
proof (induction bs arbitrary: n first)
  case (Cons b bs)
  then obtain m where m: "n = Suc m" "length bs \<le> m" by (metis Suc_le_D Suc_le_mono length_Cons)
  then show ?case
    by (simp add: hex_byte_def Cons.IH from_hex_digits_hex_chars nibble_less nibbles_join)
next
  case Nil
  then show ?case by (cases n) simp_all
qed

lemma hex_chars_nth: "unat v < 16 \<Longrightarrow> hex_chars ! unat v \<in> set hex_chars"
  by (rule nth_mem) (simp add: hex_chars_def)

lemma hex_delimited_text:
  "d \<notin> set hex_chars \<Longrightarrow> d \<noteq> CHR 0x00 \<Longrightarrow> length bs \<le> n \<Longrightarrow> hex_delimited d n (hex_text d True bs) = bs"
proof (induction bs arbitrary: n)
  case (Cons b bs)
  then obtain m where m: "n = Suc m" "length bs \<le> m" by (metis Suc_le_D Suc_le_mono length_Cons)
  have ne: "hex_chars ! unat (b AND 0xF) \<noteq> d"
    using Cons.prems(1) hex_chars_nth [OF nibble_less(2) [of b]] by metis
  have rest: "(case hex_text d False bs of [] \<Rightarrow> [] | e # s' \<Rightarrow> if e = d then s' else hex_text d False bs)
      = hex_text d True bs"
    using Cons.prems(2) by (cases bs) simp_all
  show ?case
    using m Cons.prems ne
    by (simp add: hex_byte_def rest Cons.IH from_hex_digits_hex_chars nibble_less nibbles_join)
next
  case Nil
  then show ?case by (cases n) simp_all
qed

text \<open>The hexadecimal text of some bytes, with or without a delimiter that is not one of the
  digits written, is read back as the bytes, into an array and into a vector.\<close>

theorem hex_roundtrip:
  assumes "bs \<noteq> []" "length bs \<le> n" "d \<notin> set hex_chars" "length result + 3 * length bs < 2 ^ 32"
  shows "\<exists>t. to_hex_string bs d result = result @ t \<and> from_hex_string t n d = bs \<and> from_hex_vector t n d = bs"
proof -
  let ?t = "hex_text d True bs"
  have l: "length ?t = hex_length d True (length bs)" by (rule length_hex_text)
  have r: "from_hex_string ?t k d = bs" if "length bs \<le> k" for k
    using that l assms(3)
    by (auto simp: from_hex_string_def hex_length_def hex_pairs_text hex_delimited_text)
  have "(if d = CHR 0x00 then length ?t div 2 else (length ?t + 1) div 3) = length bs"
    using l assms(1) by (cases bs) (auto simp: hex_length_def)
  then have "from_hex_vector ?t n d = bs" using assms(2) r by (simp add: from_hex_vector_def Let_def)
  then show ?thesis using to_hex_string_text [OF assms(1,4)] r [OF assms(2)] by blast
qed

theorem hex_roundtrip_witness:
  "\<exists>t. to_hex_string [0, 255, 16] (CHR '':'') ''x='' = ''x='' @ t
     \<and> from_hex_string t 7 (CHR '':'') = [0, 255, 16] \<and> from_hex_vector t 7 (CHR '':'') = [0, 255, 16]"
  by (rule hex_roundtrip) (simp_all add: hex_chars_def)

subsection \<open>Code points round trip\<close>

lemma bit_six: "bit (0x3F :: int) k \<longleftrightarrow> k < 6" and bit_seven: "bit (0x80 :: int) k \<longleftrightarrow> k = 7"
proof -
  have "(0x3F :: int) = mask 6" by (simp add: mask_eq_exp_minus_1)
  then show "bit (0x3F :: int) k \<longleftrightarrow> k < 6" by (simp only: bit_mask_iff) simp
  have "(0x80 :: int) = 2 ^ 7" by simp
  then show "bit (0x80 :: int) k \<longleftrightarrow> k = 7" by (simp only: bit_exp_iff) auto
qed

lemma byte_payload: "(ucast (ucast ((w AND 0x3F) OR 0x80 :: u32) :: u8) :: u32) AND 0x3F = take_bit 6 w"
  by (rule bit_word_eqI) (auto simp: bit_simps bit_six bit_seven)

lemma byte_marker: "(ucast ((w AND 0x3F) OR 0x80 :: u32) :: u8) AND 0xC0 = 0x80"
  by (rule byte_eqI; simp add: bit_simps)

lemma gather_continuation:
  assumes "\<And>i. i < n \<Longrightarrow> data ! (index + i) = ucast ((drop_bit (6 * (n - 1 - i)) s AND 0x3F) OR 0x80 :: u32)"
  shows "gather index n data c invalid = (push_bit (6 * n) c OR take_bit (6 * n) s, invalid)"
  using assms
proof (induction n arbitrary: index c)
  case (Suc n)
  have 0: "data ! index = ucast ((drop_bit (6 * n) s AND 0x3F) OR 0x80 :: u32)" using Suc.prems [of 0] by simp
  have 1: "data ! (Suc index + i) = ucast ((drop_bit (6 * (n - 1 - i)) s AND 0x3F) OR 0x80 :: u32)" if "i < n" for i
    using Suc.prems [of "Suc i"] that by simp
  have "push_bit (6 * n) (push_bit 6 c OR take_bit 6 (drop_bit (6 * n) s)) OR take_bit (6 * n) s
      = push_bit (6 * Suc n) c OR take_bit (6 * Suc n) s"
    by (rule bit_word_eqI) (auto simp: bit_simps algebra_simps)
  then show ?case by (simp add: Suc.IH [OF 1] 0 byte_payload byte_marker)
qed simp

lemma scatter_continuation:
  assumes "n < len" "len \<le> length data"
  shows "\<exists>data'. scatter n len s data = (drop_bit (6 * n) s, data') \<and> length data' = length data
    \<and> (\<forall>i. 1 \<le> i \<and> i \<le> n \<longrightarrow> data' ! i = ucast ((drop_bit (6 * (n - i)) s AND 0x3F) OR 0x80 :: u32))
    \<and> (\<forall>i. i = 0 \<or> n < i \<longrightarrow> data' ! i = data ! i)"
  using assms
proof (induction n arbitrary: s data)
  case (Suc n)
  let ?d = "data[Suc n := ucast ((s AND 0x3F) OR 0x80 :: u32)]"
  from Suc.IH [of ?d "drop_bit 6 s"] Suc.prems obtain data' where
    d: "scatter n len (drop_bit 6 s) ?d = (drop_bit (6 * n) (drop_bit 6 s), data')" "length data' = length data"
    "\<And>i. 1 \<le> i \<Longrightarrow> i \<le> n \<Longrightarrow> data' ! i = ucast ((drop_bit (6 * (n - i)) (drop_bit 6 s) AND 0x3F) OR 0x80 :: u32)"
    "\<And>i. i = 0 \<or> n < i \<Longrightarrow> data' ! i = ?d ! i" by (auto simp del: nth_list_update_neq)
  have "drop_bit (6 * n) (drop_bit 6 s) = drop_bit (6 * Suc n) s" by (simp add: algebra_simps)
  moreover have "data' ! i = ucast ((drop_bit (6 * (Suc n - i)) s AND 0x3F) OR 0x80 :: u32)" if "1 \<le> i" "i \<le> Suc n" for i
  proof (cases "i = Suc n")
    case True
    then show ?thesis using d(4) [of i] Suc.prems by simp
  next
    case False
    then have "6 * (Suc n - i) = 6 * (n - i) + 6" using that by simp
    then show ?thesis using d(3) [of i] that False by (simp add: algebra_simps)
  qed
  moreover have "data' ! i = data ! i" if "i = 0 \<or> Suc n < i" for i
    using d(4) [of i] that by auto
  ultimately show ?case using d(1,2) Suc.prems by auto
qed simp

text \<open>The first byte of a code point of \<open>f\<close> following bytes whose topmost bits are \<open>u\<close>.\<close>

definition lead_byte :: "nat \<Rightarrow> u32 \<Rightarrow> u8" where
  "lead_byte f u = ucast (NOT (push_bit (7 - f) 1 - 1) OR (u AND 0x3F) :: u32)"

definition lead_ok :: "nat \<Rightarrow> u32 \<Rightarrow> bool" where
  "lead_ok f u \<longleftrightarrow> bytes_following (ucast (lead_byte f u)) = f \<and> ucast (lead_byte f u) AND (push_bit (7 - f) 1 - 1) = u"

lemmas lead_defs = lead_ok_def lead_byte_def bytes_following_def

lemma lead_ok_lists:
  "list_all (lead_ok 1) (map of_nat [0..<32])" "list_all (lead_ok 2) (map of_nat [0..<16])"
  "list_all (lead_ok 3) (map of_nat [0..<8])" "list_all (lead_ok 4) (map of_nat [0..<4])"
  "list_all (lead_ok 5) (map of_nat [0..<4])"
proof -
  have "ucast (- 1 :: u32) = (0xFF :: u8)" by (rule byte_eqI; simp add: bit_simps)
  then show
    "list_all (lead_ok 1) (map of_nat [0..<32])" "list_all (lead_ok 2) (map of_nat [0..<16])"
    "list_all (lead_ok 3) (map of_nat [0..<8])" "list_all (lead_ok 4) (map of_nat [0..<4])"
    "list_all (lead_ok 5) (map of_nat [0..<4])"
    by (simp_all add: lead_defs upt_rec)
qed

lemma all_below_word: "list_all P (map of_nat [0..<n]) \<Longrightarrow> unat u < n \<Longrightarrow> P (u :: 'a::len word)"
proof -
  assume *: "list_all P (map of_nat [0..<n])" "unat u < n"
  then have "P (of_nat (unat u))" by (simp add: list_all_iff del: of_nat_unat)
  then show "P u" by simp
qed

lemmas lead_ok_below = lead_ok_lists [THEN all_below_word]

lemma lead_ok_code_point:
  assumes "following_bytes cp = f" "f > 0" shows "lead_ok f (drop_bit (6 * f) cp)"
proof -
  have u: "unat (drop_bit (6 * f) cp) = unat cp div 2 ^ (6 * f)" by (subst unat_drop_bit_eq) (simp add: drop_bit_eq_div)
  have "unat cp < 2 ^ LENGTH(32)" by (rule unsigned_less)
  then have c: "unat cp < 4294967296" by simp
  consider "f = 1" "cp \<le> 0x7FF" | "f = 2" "cp \<le> 0xFFFF" | "f = 3" "cp \<le> 0x1FFFFF" | "f = 4" "cp \<le> 0x03FFFFFF" | "f = 5"
    using assms by (auto simp: following_bytes_def split: if_splits)
  then show ?thesis
    by cases (use u c lead_ok_below in \<open>simp_all add: word_le_nat_alt div_less_iff_less_mult\<close>)
qed

lemma code_point_split: "push_bit (6 * f) (drop_bit (6 * f) cp) OR take_bit (6 * f) cp = (cp :: u32)"
  by (rule bit_word_eqI) (auto simp: bit_simps)

text \<open>What is written is read, of the same number of bytes and valid.\<close>

lemma code_point_bytes:
  assumes "following_bytes cp < len" "len \<le> length data"
  shows "\<exists>k data'. from_code_point cp data len = (k, data') \<and> to_code_point data' len = (k, cp)
    \<and> k = int (following_bytes cp) + 1 \<and> length data' = length data \<and> drop (nat k) data' = drop (nat k) data"
proof (cases "following_bytes cp = 0")
  case True
  then have "cp \<le> 0x7F" by (simp add: following_bytes_def split: if_splits)
  then have c: "cp < 2 ^ 7" "cp < 0xC0" by (auto intro: le_less_trans)
  have "ucast (ucast (take_bit 7 cp) :: u8) = take_bit 7 cp" by (rule bit_word_eqI) (auto simp: bit_simps)
  moreover have "take_bit 7 cp = cp"
    using c(1) by (simp only: take_bit_eq_mask less_mask_eq)
  moreover have "cp AND 0x7F = take_bit 7 cp" by (simp add: take_bit_eq_mask mask_eq_exp_minus_1)
  ultimately have p: "ucast (ucast (cp AND 0x7F) :: u8) = cp" "cp AND 0x7F = cp" by simp_all
  have "bytes_following cp = 0" using c(2) by (simp add: bytes_following_def)
  moreover have "data[0 := ucast cp] ! 0 = ucast cp" using assms True by (cases data) simp_all
  ultimately show ?thesis
    using True assms p by (simp add: from_code_point_def to_code_point_def Let_def)
next
  case False
  obtain f where f: "following_bytes cp = f" "f > 0" using False by blast
  obtain data' where d: "scatter f len cp data = (drop_bit (6 * f) cp, data')" "length data' = length data"
    "\<And>i. 1 \<le> i \<Longrightarrow> i \<le> f \<Longrightarrow> data' ! i = ucast ((drop_bit (6 * (f - i)) cp AND 0x3F) OR 0x80 :: u32)"
    "\<And>i. i = 0 \<or> f < i \<Longrightarrow> data' ! i = data ! i"
    using scatter_continuation [of f len data cp] assms f by blast
  obtain e where e: "e = data'[0 := lead_byte f (drop_bit (6 * f) cp)]" by blast
  have 1: "from_code_point cp data len = (int f + 1, e)"
    using f d(1) by (simp add: from_code_point_def e lead_byte_def Let_def)
  have 0: "e ! 0 = lead_byte f (drop_bit (6 * f) cp)" using assms d(2) by (cases data') (auto simp: e)
  have "gather 1 f e (drop_bit (6 * f) cp) False = (push_bit (6 * f) (drop_bit (6 * f) cp) OR take_bit (6 * f) cp, False)"
    by (rule gather_continuation) (use d(3) in \<open>simp add: e\<close>)
  moreover have "lead_ok f (drop_bit (6 * f) cp)" by (rule lead_ok_code_point [OF f])
  ultimately have 2: "to_code_point e len = (int f + 1, cp)"
    using f assms by (simp add: to_code_point_def lead_ok_def 0 code_point_split Let_def)
  have "drop (Suc f) e = drop (Suc f) data"
    by (rule nth_equalityI) (use d in \<open>simp_all add: e\<close>)
  then show ?thesis using 1 2 f d(2) by (auto simp: e nat_add_distrib)
qed

text \<open>C29: a code point of 32 bits written as UTF-8 into a buffer with room for it takes its number of
  bytes, leaves the bytes behind it alone, and is read back as the same code point, of the same number
  of bytes and valid.\<close>

theorem utf8_roundtrip:
  assumes "following_bytes cp < len" "len \<le> length data"
  shows "\<exists>k data'. from_code_point cp data len = (k, data') \<and> to_code_point data' len = (k, cp)
    \<and> k = int (following_bytes cp) + 1 \<and> length data' = length data \<and> drop (nat k) data' = drop (nat k) data"
  using assms by (rule code_point_bytes)

theorem utf8_roundtrip_witness:
  "\<exists>k data'. from_code_point 0x1F600 [1, 2, 3, 4, 5, 6] 5 = (k, data') \<and> to_code_point data' 5 = (k, 0x1F600)
    \<and> k = int (following_bytes 0x1F600) + 1 \<and> length data' = length [1, 2, 3, 4, 5, 6 :: u8]
    \<and> drop (nat k) data' = drop (nat k) [1, 2, 3, 4, 5, 6]"
  by (rule utf8_roundtrip) (simp_all add: following_bytes_def)

lemma word16_eqI:
  assumes "\<forall>n\<in>set [0..<16]. bit (a :: u16) n = bit b n"
  shows "a = b"
  using assms by (intro bit_word_eqI) simp

lemma surrogate_markers:
  "(ucast ((a AND 0x3FF) OR 0xDC00 :: u32) :: u16) AND 0xFC00 = 0xDC00"
  "(ucast ((a AND 0x3FF) OR 0xD800 :: u32) :: u16) AND 0xFC00 = 0xD800"
  by (rule word16_eqI; simp add: upt_conv_Cons bit_simps)+

lemma surrogate_payload:
  assumes "v = 0xDC00 \<or> v = 0xD800"
  shows "(ucast (ucast ((a AND 0x3FF) OR v :: u32) :: u16) :: u32) AND 0x3FF = take_bit 10 a"
proof -
  have nb: "\<not> bit v n" if "n < 10" for n
  proof -
    have "\<forall>n\<in>set [0..<10]. \<not> bit v n" using assms by (auto simp: upt_conv_Cons)
    then show ?thesis using that by simp
  qed
  have m: "(0x3FF :: u32) = mask 10" by (simp add: mask_eq_exp_minus_1)
  show ?thesis
    unfolding m by (intro bit_word_eqI) (auto simp: bit_simps nb)
qed

text \<open>The code points up to \<open>0x10FFFF\<close>, and no others, are translated to UTF-16, and the parts are
  read back as the code point; the others become a space.\<close>

theorem utf16_roundtrip:
  "case code_point_to_utf16 cp of (translated, low, high) \<Rightarrow>
     translated = (cp \<le> 0x10FFFF) \<and>
     utf16_to_code_point low high = (if translated then (True, cp) else (True, 0x20))"
proof -
  obtain a where a: "a = cp - 0x10000" by blast
  consider "cp \<le> 0xFFFF" | "\<not> cp \<le> 0xFFFF" "cp \<le> 0x10FFFF" | "\<not> cp \<le> 0x10FFFF" by blast
  then show ?thesis
  proof cases
    case 1
    then have "cp < 2 ^ 16" by (auto intro: le_less_trans)
    then have "take_bit 16 cp = cp" by (simp only: take_bit_eq_mask less_mask_eq)
    moreover have "(ucast (ucast cp :: u16) :: u32) = take_bit 16 cp" by (rule bit_word_eqI) (auto simp: bit_simps)
    moreover have "cp \<le> 0x10FFFF" using 1 by (rule order_trans) simp
    ultimately show ?thesis using 1 by (simp add: code_point_to_utf16_def utf16_to_code_point_def)
  next
    case 2
    then have "a \<le> 0xFFFFF" by (simp add: a word_le_nat_alt unat_sub word_less_nat_alt)
    then have "a < 2 ^ 20" by (auto intro: le_less_trans)
    then have "take_bit 20 a = a" by (simp only: take_bit_eq_mask less_mask_eq)
    moreover have "take_bit 10 a OR push_bit 10 (take_bit 10 (drop_bit 10 a)) = take_bit 20 a"
      by (rule bit_word_eqI) (auto simp: bit_simps)
    moreover have "(ucast ((drop_bit 10 a AND 0x3FF) OR 0xD800) :: u16) \<noteq> 0"
      using surrogate_markers(2) [of "drop_bit 10 a"] by auto
    ultimately show ?thesis
      using 2 \<open>a \<le> 0xFFFFF\<close>
      by (simp add: code_point_to_utf16_def utf16_to_code_point_def Let_def a [symmetric]
          surrogate_markers surrogate_payload) (simp add: a)
  next
    case 3
    then have "\<not> cp \<le> 0xFFFF" by (auto intro: order_trans)
    moreover have "0xFFFFF < a" using 3 \<open>\<not> cp \<le> 0xFFFF\<close>
      by (simp add: a word_le_nat_alt unat_sub word_less_nat_alt)
    ultimately show ?thesis using 3 by (simp add: code_point_to_utf16_def utf16_to_code_point_def a)
  qed
qed

subsection \<open>Quoted text\<close>

lemma quote_escape_inj:
  "concat (map (\<lambda>e. (if e = q then [CHR 0x5C] else []) @ [e]) xs)
     = concat (map (\<lambda>e. (if e = q then [CHR 0x5C] else []) @ [e]) ys) \<Longrightarrow> xs = ys"
proof (induction xs arbitrary: ys rule: rev_induct)
  case Nil
  then show ?case by (cases ys) auto
next
  case (snoc x xs)
  then obtain y zs where y: "ys = zs @ [y]" by (cases ys rule: rev_cases) auto
  with snoc.prems have "x = y" by simp
  with snoc y show ?case by (auto split: if_splits)
qed

text \<open>No two texts have the same quoted form.\<close>

lemma to_quoted_string_inj: "to_quoted_string q a = to_quoted_string q b \<Longrightarrow> a = b"
  unfolding to_quoted_string_def using quote_escape_inj [of q a b] by simp

end
