(* ===== verification/Hash.thy ===== *)
theory Hash
  imports Prelude
begin

text \<open>
  The message digests of \<^verbatim>\<open>Source/cryptalgo/Hash.h\<close> and \<^verbatim>\<open>Hash.cpp\<close>: MD5, SHA-1, SHA-224,
  SHA-256, SHA-384 and SHA-512, on a little endian machine, with the loops as they are compiled
  without \<^verbatim>\<open>UNROLL_LOOPS\<close>. A word of the array \<^verbatim>\<open>h\<close> has 64 bits for every algorithm.
\<close>

subsection \<open>The context\<close>

record hash_context =
  cx_length :: u64
  cx_h :: "u64 list"
  cx_index :: nat
  cx_block :: "u8 list"

record hash =
  hs_context :: hash_context
  hs_computed :: bool
  hs_corrupted :: bool

text \<open>The two halves of the length, and the length of two halves.\<close>

definition low32 :: "u64 \<Rightarrow> u32" where
  "low32 v = ucast v"

definition high32 :: "u64 \<Rightarrow> u32" where
  "high32 v = ucast (drop_bit 32 v)"

definition join32 :: "u32 \<Rightarrow> u32 \<Rightarrow> u64" where
  "join32 high low = push_bit 32 (ucast high) OR ucast low"

subsection \<open>Words and bytes\<close>

definition shfr :: "'a::len word \<Rightarrow> nat \<Rightarrow> 'a word" where
  "shfr a n = drop_bit n a"

definition rotr :: "'a::len word \<Rightarrow> nat \<Rightarrow> 'a word" where
  "rotr a n = drop_bit n a OR push_bit (LENGTH('a) - n) a"

definition ch :: "'a::len word \<Rightarrow> 'a word \<Rightarrow> 'a word \<Rightarrow> 'a word" where
  "ch a b c = (a AND b) XOR (NOT a AND c)"

definition maj :: "'a::len word \<Rightarrow> 'a word \<Rightarrow> 'a word \<Rightarrow> 'a word" where
  "maj a b c = (a AND b) XOR (a AND c) XOR (b AND c)"

definition sha256_f1 :: "u32 \<Rightarrow> u32" where "sha256_f1 a = rotr a 2 XOR rotr a 13 XOR rotr a 22"
definition sha256_f2 :: "u32 \<Rightarrow> u32" where "sha256_f2 a = rotr a 6 XOR rotr a 11 XOR rotr a 25"
definition sha256_f3 :: "u32 \<Rightarrow> u32" where "sha256_f3 a = rotr a 7 XOR rotr a 18 XOR shfr a 3"
definition sha256_f4 :: "u32 \<Rightarrow> u32" where "sha256_f4 a = rotr a 17 XOR rotr a 19 XOR shfr a 10"

definition sha512_f1 :: "u64 \<Rightarrow> u64" where "sha512_f1 a = rotr a 28 XOR rotr a 34 XOR rotr a 39"
definition sha512_f2 :: "u64 \<Rightarrow> u64" where "sha512_f2 a = rotr a 14 XOR rotr a 18 XOR rotr a 41"
definition sha512_f3 :: "u64 \<Rightarrow> u64" where "sha512_f3 a = rotr a 1 XOR rotr a 8 XOR shfr a 7"
definition sha512_f4 :: "u64 \<Rightarrow> u64" where "sha512_f4 a = rotr a 19 XOR rotr a 61 XOR shfr a 6"

definition unpack32 :: "'a::len word \<Rightarrow> u8 list" where
  "unpack32 a = [ucast (drop_bit 24 a), ucast (drop_bit 16 a), ucast (drop_bit 8 a), ucast a]"

definition unpack64 :: "u64 \<Rightarrow> u8 list" where
  "unpack64 a = [ucast (drop_bit 56 a), ucast (drop_bit 48 a), ucast (drop_bit 40 a), ucast (drop_bit 32 a),
     ucast (drop_bit 24 a), ucast (drop_bit 16 a), ucast (drop_bit 8 a), ucast a]"

text \<open>\<open>pack32 s i\<close> reads the four bytes at index \<open>i\<close>, the most significant one first.\<close>

definition pack32 :: "u8 list \<Rightarrow> nat \<Rightarrow> u32" where
  "pack32 s i = ucast (s ! (i + 3)) OR push_bit 8 (ucast (s ! (i + 2)))
     OR push_bit 16 (ucast (s ! (i + 1))) OR push_bit 24 (ucast (s ! i))"

definition pack64 :: "u8 list \<Rightarrow> nat \<Rightarrow> u64" where
  "pack64 s i = ucast (s ! (i + 7)) OR push_bit 8 (ucast (s ! (i + 6)))
     OR push_bit 16 (ucast (s ! (i + 5))) OR push_bit 24 (ucast (s ! (i + 4)))
     OR push_bit 32 (ucast (s ! (i + 3))) OR push_bit 40 (ucast (s ! (i + 2)))
     OR push_bit 48 (ucast (s ! (i + 1))) OR push_bit 56 (ucast (s ! i))"

subsection \<open>SHA-1\<close>

definition circular_shift :: "nat \<Rightarrow> u32 \<Rightarrow> u32" where
  "circular_shift bits w = (push_bit bits w AND 0xFFFFFFFF) OR drop_bit (32 - bits) (w AND 0xFFFFFFFF)"

definition sha1_word :: "u8 list \<Rightarrow> nat \<Rightarrow> u32" where
  "sha1_word block t = push_bit 24 (ucast (block ! (t * 4))) OR push_bit 16 (ucast (block ! (t * 4 + 1)))
     OR push_bit 8 (ucast (block ! (t * 4 + 2))) OR ucast (block ! (t * 4 + 3))"

text \<open>The array \<^verbatim>\<open>W\<close> is filled from the front.\<close>

definition sha1_W :: "u8 list \<Rightarrow> u32 list" where
  "sha1_W block =
     foldl (\<lambda>W t. W @ [circular_shift 1 (W ! (t - 3) XOR W ! (t - 8) XOR W ! (t - 14) XOR W ! (t - 16))])
       (map (sha1_word block) [0..<16]) [16..<80]"

type_synonym sha1_regs = "u32 \<times> u32 \<times> u32 \<times> u32 \<times> u32"

text \<open>One turn of the loops, which differ in the function of \<^verbatim>\<open>B\<close>, \<^verbatim>\<open>C\<close>, \<^verbatim>\<open>D\<close> and in the constant.\<close>

definition sha1_turn :: "(u32 \<Rightarrow> u32 \<Rightarrow> u32 \<Rightarrow> u32) \<Rightarrow> u32 \<Rightarrow> u32 list \<Rightarrow> sha1_regs \<Rightarrow> nat \<Rightarrow> sha1_regs" where
  "sha1_turn f K W r t = (case r of (A, B, C, D, E) \<Rightarrow>
     (circular_shift 5 A + f B C D + E + W ! t + K, A, circular_shift 30 B, C, D))"

definition sha1_rounds :: "u32 list \<Rightarrow> sha1_regs \<Rightarrow> sha1_regs" where
  "sha1_rounds W r =
     (let r = foldl (sha1_turn (\<lambda>B C D. (B AND C) OR (NOT B AND D)) 0x5A827999 W) r [0..<20];
          r = foldl (sha1_turn (\<lambda>B C D. B XOR C XOR D) 0x6ED9EBA1 W) r [20..<40];
          r = foldl (sha1_turn (\<lambda>B C D. (B AND C) OR (B AND D) OR (C AND D)) 0x8F1BBCDC W) r [40..<60]
      in foldl (sha1_turn (\<lambda>B C D. B XOR C XOR D) 0xCA62C1D6 W) r [60..<80])"

text \<open>The new values of the first five words.\<close>

definition sha1_compress :: "u64 list \<Rightarrow> u8 list \<Rightarrow> u64 list" where
  "sha1_compress h block =
     (case sha1_rounds (sha1_W block) (low32 (h ! 0), low32 (h ! 1), low32 (h ! 2), low32 (h ! 3), low32 (h ! 4)) of
        (A, B, C, D, E) \<Rightarrow>
          [(h ! 0 + ucast A) AND 0xFFFFFFFF, (h ! 1 + ucast B) AND 0xFFFFFFFF, (h ! 2 + ucast C) AND 0xFFFFFFFF,
           (h ! 3 + ucast D) AND 0xFFFFFFFF, (h ! 4 + ucast E) AND 0xFFFFFFFF])"

definition sha1_process :: "hash_context \<Rightarrow> hash_context" where
  "sha1_process c = c\<lparr>cx_h := blit (cx_h c) 0 (sha1_compress (cx_h c) (cx_block c))\<rparr>"

text \<open>The tables of constants are those of the code, which writes them in hexadecimal.\<close>

definition sha1_h0 :: "u64 list" where
  "sha1_h0 = [1732584193, 4023233417, 2562383102, 271733878, 3285377520]"

text \<open>\<open>Reset\<close> keeps the block and the other words of the array.\<close>

definition sha1_reset :: "hash \<Rightarrow> hash" where
  "sha1_reset s = \<lparr>hs_context = (hs_context s)\<lparr>cx_length := 0, cx_index := 0,
       cx_h := blit (cx_h (hs_context s)) 0 sha1_h0\<rparr>,
     hs_computed = False, hs_corrupted = False\<rparr>"

text \<open>The loop over the bytes, with the halves of the length.\<close>

fun sha1_bytes :: "u8 list \<Rightarrow> hash_context \<Rightarrow> u32 \<Rightarrow> u32 \<Rightarrow> bool \<Rightarrow> hash_context \<times> u32 \<times> u32 \<times> bool" where
  "sha1_bytes [] c low high corrupted = (c, low, high, corrupted)"
| "sha1_bytes (b # bs) c low high corrupted =
     (if corrupted then (c, low, high, corrupted)
      else
        let c = c\<lparr>cx_block := (cx_block c)[cx_index c := b], cx_index := cx_index c + 1\<rparr>;
            low = low + 1;
            (low, high, corrupted) =
              (if low = 0x20000000 then (0, high + 1, high + 1 = 0) else (low, high, False));
            c = (if cx_index c = 64 then (sha1_process c)\<lparr>cx_index := 0\<rparr> else c)
        in sha1_bytes bs c low high corrupted)"

definition sha1_input :: "hash \<Rightarrow> u8 list \<Rightarrow> hash" where
  "sha1_input s message_array =
     (case sha1_bytes message_array (hs_context s) (low32 (cx_length (hs_context s)))
         (high32 (cx_length (hs_context s))) (hs_corrupted s) of
        (c, low, high, corrupted) \<Rightarrow>
          s\<lparr>hs_context := c\<lparr>cx_length := join32 high low\<rparr>, hs_corrupted := corrupted\<rparr>)"

definition sha1_pad :: "hash \<Rightarrow> hash" where
  "sha1_pad s =
     (let c = hs_context s;
          i = cx_index c;
          c = c\<lparr>cx_block := (cx_block c)[i := 0x80], cx_index := i + 1\<rparr>;
          c = (if i > 55
               then (sha1_process (c\<lparr>cx_block := blit (cx_block c) (i + 1) (replicate (64 - (i + 1)) 0)\<rparr>))\<lparr>cx_index := 0\<rparr>
               else c);
          c = c\<lparr>cx_block := blit (cx_block c) (cx_index c) (replicate (56 - cx_index c) 0)\<rparr>;
          low = low32 (cx_length c);
          high = high32 (cx_length c);
          c = c\<lparr>cx_block := blit (cx_block c) 56
                [ucast (drop_bit 24 high AND 0xFF), ucast (drop_bit 16 high AND 0xFF),
                 ucast (drop_bit 8 high AND 0xFF), ucast (high AND 0xFF),
                 ucast (drop_bit 21 low AND 0xFF), ucast (drop_bit 13 low AND 0xFF),
                 ucast (drop_bit 5 low AND 0xFF), ucast (push_bit 3 low AND 0xFF)]\<rparr>;
          c = sha1_process c
      in s\<lparr>hs_context := c\<lparr>cx_block := blit (cx_block c) 0 (concat (map (\<lambda>v. unpack32 (low32 v)) (take 5 (cx_h c))))\<rparr>,
           hs_computed := True\<rparr>)"

text \<open>The digest is at the beginning of the block.\<close>

definition sha1_result :: "hash \<Rightarrow> hash \<times> u8 list option" where
  "sha1_result s =
     (if hs_corrupted s then (s, None)
      else
        let s = (if hs_computed s then s else sha1_pad s)
        in (s, Some (take 20 (cx_block (hs_context s)))))"

subsection \<open>SHA-224 and SHA-256\<close>

definition sha224_h0 :: "u64 list" where
  "sha224_h0 =
     [3238371032, 914150663, 812702999, 4144912697,
     4290775857, 1750603025, 1694076839, 3204075428]"

definition sha256_h0 :: "u64 list" where
  "sha256_h0 =
     [1779033703, 3144134277, 1013904242, 2773480762,
     1359893119, 2600822924, 528734635, 1541459225]"

definition sha256_k :: "u32 list" where
  "sha256_k =
     [1116352408, 1899447441, 3049323471, 3921009573, 961987163, 1508970993, 2453635748, 2870763221,
     3624381080, 310598401, 607225278, 1426881987, 1925078388, 2162078206, 2614888103, 3248222580,
     3835390401, 4022224774, 264347078, 604807628, 770255983, 1249150122, 1555081692, 1996064986,
     2554220882, 2821834349, 2952996808, 3210313671, 3336571891, 3584528711, 113926993, 338241895,
     666307205, 773529912, 1294757372, 1396182291, 1695183700, 1986661051, 2177026350, 2456956037,
     2730485921, 2820302411, 3259730800, 3345764771, 3516065817, 3600352804, 4094571909, 275423344,
     430227734, 506948616, 659060556, 883997877, 958139571, 1322822218, 1537002063, 1747873779,
     1955562222, 2024104815, 2227730452, 2361852424, 2428436474, 2756734187, 3204031479, 3329325298]"

definition sha256_w :: "u8 list \<Rightarrow> u32 list" where
  "sha256_w message =
     foldl (\<lambda>w i. w @ [sha256_f4 (w ! (i - 2)) + w ! (i - 7) + sha256_f3 (w ! (i - 15)) + w ! (i - 16)])
       (map (\<lambda>j. pack32 message (4 * j)) [0..<16]) [16..<64]"

text \<open>\<^verbatim>\<open>sha256_trans_block\<close>: the working variables are an array that is shifted.\<close>

definition sha256_shift :: "u32 list \<Rightarrow> u32 list \<Rightarrow> nat \<Rightarrow> u32 list" where
  "sha256_shift w wv j =
     (let t1 = wv ! 7 + sha256_f2 (wv ! 4) + ch (wv ! 4) (wv ! 5) (wv ! 6) + sha256_k ! j + w ! j;
          t2 = sha256_f1 (wv ! 0) + maj (wv ! 0) (wv ! 1) (wv ! 2);
          wv = wv[7 := wv ! 6];
          wv = wv[6 := wv ! 5];
          wv = wv[5 := wv ! 4];
          wv = wv[4 := wv ! 3 + t1];
          wv = wv[3 := wv ! 2];
          wv = wv[2 := wv ! 1];
          wv = wv[1 := wv ! 0]
      in wv[0 := t1 + t2])"

definition sha256_sub_block :: "u64 list \<Rightarrow> u8 list \<Rightarrow> u64 list" where
  "sha256_sub_block h sub_block =
     map2 (\<lambda>v wv. v + ucast wv) h (foldl (sha256_shift (sha256_w sub_block)) (map low32 h) [0..<64])"

fun sha256_trans_block :: "hash_context \<Rightarrow> u8 list \<Rightarrow> nat \<Rightarrow> hash_context" where
  "sha256_trans_block c message 0 = c"
| "sha256_trans_block c message (Suc n) =
     sha256_trans_block (c\<lparr>cx_h := sha256_sub_block (cx_h c) (take 64 message)\<rparr>) (drop 64 message) n"

text \<open>\<^verbatim>\<open>sha256_trans\<close>: the working variables have names.\<close>

type_synonym sha256_regs = "u32 \<times> u32 \<times> u32 \<times> u32 \<times> u32 \<times> u32 \<times> u32 \<times> u32"

definition sha256_turn :: "u32 list \<Rightarrow> sha256_regs \<Rightarrow> nat \<Rightarrow> sha256_regs" where
  "sha256_turn m r i = (case r of (a, b, c, d, e, f, g, h) \<Rightarrow>
     (let t1 = h + sha256_f2 e + ch e f g + sha256_k ! i + m ! i;
          t2 = sha256_f1 a + maj a b c
      in (t1 + t2, a, b, c, d + t1, e, f, g)))"

definition sha256_compress :: "u64 list \<Rightarrow> u8 list \<Rightarrow> u64 list" where
  "sha256_compress hh message =
     (case foldl (sha256_turn (sha256_w message))
          (low32 (hh ! 0), low32 (hh ! 1), low32 (hh ! 2), low32 (hh ! 3),
           low32 (hh ! 4), low32 (hh ! 5), low32 (hh ! 6), low32 (hh ! 7)) [0..<64] of
        (a, b, c, d, e, f, g, h) \<Rightarrow>
          [hh ! 0 + ucast a, hh ! 1 + ucast b, hh ! 2 + ucast c, hh ! 3 + ucast d,
           hh ! 4 + ucast e, hh ! 5 + ucast f, hh ! 6 + ucast g, hh ! 7 + ucast h])"

definition sha256_trans :: "hash_context \<Rightarrow> u8 list \<Rightarrow> hash_context" where
  "sha256_trans ctx message = ctx\<lparr>cx_h := sha256_compress (cx_h ctx) message\<rparr>"

definition sha256_reset :: "hash \<Rightarrow> hash" where
  "sha256_reset s = s\<lparr>hs_context := (hs_context s)\<lparr>cx_h := sha256_h0, cx_index := 0, cx_length := 0\<rparr>, hs_computed := False\<rparr>"

fun sha256_update :: "hash_context \<Rightarrow> u8 list \<Rightarrow> hash_context" where
  "sha256_update c [] = c"
| "sha256_update c (b # bs) =
     (let c = c\<lparr>cx_block := (cx_block c)[cx_index c := b], cx_index := cx_index c + 1\<rparr>;
          c = (if cx_index c = 64
               then let c = sha256_trans c (cx_block c) in c\<lparr>cx_length := cx_length c + 512, cx_index := 0\<rparr>
               else c)
      in sha256_update c bs)"

text \<open>
  The loop of \<^verbatim>\<open>Input\<close> hands over at most \<open>n\<close> bytes at a time; \<open>n\<close> is 64, 128 or 512.
\<close>

fun chunked :: "nat \<Rightarrow> ('c \<Rightarrow> u8 list \<Rightarrow> 'c) \<Rightarrow> 'c \<Rightarrow> u8 list \<Rightarrow> 'c" where
  "chunked n update c bs =
     (if bs = [] then c
      else if 0 < n \<and> n < length bs then chunked n update (update c (take n bs)) (drop n bs)
      else update c bs)"

declare chunked.simps [simp del]

definition sha256_input :: "hash \<Rightarrow> u8 list \<Rightarrow> hash" where
  "sha256_input s message_array = s\<lparr>hs_context := chunked 64 sha256_update (hs_context s) message_array\<rparr>"

definition sha256_close :: "hash_context \<Rightarrow> hash_context" where
  "sha256_close c =
     (let i = cx_index c;
          c = (if i < 56
               then c\<lparr>cx_block := blit (cx_block c) i (0x80 # replicate (56 - (i + 1)) 0)\<rparr>
               else
                 let c = c\<lparr>cx_block := blit (cx_block c) i (0x80 # replicate (64 - (i + 1)) 0)\<rparr>;
                     c = sha256_trans c (cx_block c)
                 in c\<lparr>cx_block := blit (cx_block c) 0 (replicate 56 0)\<rparr>);
          c = c\<lparr>cx_length := cx_length c + of_nat (i * 8)\<rparr>;
          c = c\<lparr>cx_block := blit (cx_block c) 56 (unpack64 (cx_length c))\<rparr>;
          c = sha256_trans c (cx_block c)
      in c\<lparr>cx_block := blit (cx_block c) 0 (concat (map unpack32 (cx_h c)))\<rparr>)"

text \<open>\<open>Result\<close> of all but SHA-1 and MD5 remembers that the context is closed.\<close>

definition once_closed :: "(hash_context \<Rightarrow> hash_context) \<Rightarrow> hash \<Rightarrow> hash" where
  "once_closed close s =
     (if hs_computed s then s else s\<lparr>hs_computed := True, hs_context := close (hs_context s)\<rparr>)"

definition sha256_result :: "hash \<Rightarrow> hash \<times> u8 list option" where
  "sha256_result s = (let s = once_closed sha256_close s in (s, Some (take 32 (cx_block (hs_context s)))))"

definition sha224_reset :: "hash \<Rightarrow> hash" where
  "sha224_reset s = s\<lparr>hs_context := (hs_context s)\<lparr>cx_h := sha224_h0, cx_index := 0, cx_length := 0\<rparr>, hs_computed := False\<rparr>"

text \<open>
  \<^verbatim>\<open>sha224_update\<close>, \<^verbatim>\<open>sha384_update\<close> and \<^verbatim>\<open>sha512_update\<close> are the same code but for the size \<open>B\<close>
  of a block and the function that processes blocks.
\<close>

definition block_update :: "nat \<Rightarrow> (hash_context \<Rightarrow> u8 list \<Rightarrow> nat \<Rightarrow> hash_context) \<Rightarrow> hash_context \<Rightarrow> u8 list \<Rightarrow> hash_context" where
  "block_update B transf c message =
     (let i = cx_index c;
          len = length message;
          rem_len = min len (B - i);
          c = c\<lparr>cx_block := blit (cx_block c) i (take rem_len message)\<rparr>
      in if i + len < B then c\<lparr>cx_index := i + len\<rparr>
         else
           let new_len = len - rem_len;
               block_nb = new_len div B;
               shifted_message = drop rem_len message;
               c = transf c (cx_block c) 1;
               c = transf c shifted_message block_nb
           in c\<lparr>cx_block := blit (cx_block c) 0 (take (new_len mod B) (drop (block_nb * B) shifted_message)),
                cx_index := new_len mod B,
                cx_length := cx_length c + of_nat ((block_nb + 1) * B)\<rparr>)"

definition sha224_update :: "hash_context \<Rightarrow> u8 list \<Rightarrow> hash_context" where
  "sha224_update = block_update 64 sha256_trans_block"

definition sha224_input :: "hash \<Rightarrow> u8 list \<Rightarrow> hash" where
  "sha224_input s message_array = s\<lparr>hs_context := chunked 64 sha224_update (hs_context s) message_array\<rparr>"

text \<open>
  So are the three closing functions, up to the room that has to be left (\<open>reserved\<close>) and the words
  that are written as the digest. The length has 32 bits; shifting it before or after the cast gives
  the same bits.
\<close>

definition block_close :: "nat \<Rightarrow> nat \<Rightarrow> (hash_context \<Rightarrow> u8 list \<Rightarrow> nat \<Rightarrow> hash_context) \<Rightarrow> (u64 list \<Rightarrow> u8 list)
    \<Rightarrow> hash_context \<Rightarrow> hash_context" where
  "block_close B reserved transf digest c =
     (let i = cx_index c;
          block_nb = (if B - reserved < i mod B then 2 else 1);
          len_b = low32 (push_bit 3 (cx_length c + of_nat i));
          pm_len = block_nb * B;
          c = c\<lparr>cx_block := (blit (cx_block c) i (replicate (pm_len - i) 0))[i := 0x80]\<rparr>;
          c = c\<lparr>cx_block := blit (cx_block c) (pm_len - 4) (unpack32 len_b)\<rparr>;
          c = transf c (cx_block c) block_nb
      in c\<lparr>cx_block := blit (cx_block c) 0 (digest (cx_h c))\<rparr>)"

definition sha224_close :: "hash_context \<Rightarrow> hash_context" where
  "sha224_close = block_close 64 9 sha256_trans_block (\<lambda>h. concat (map unpack32 (take 7 h)))"

definition sha224_result :: "hash \<Rightarrow> hash \<times> u8 list option" where
  "sha224_result s = (let s = once_closed sha224_close s in (s, Some (take 28 (cx_block (hs_context s)))))"

subsection \<open>SHA-384 and SHA-512\<close>

definition sha384_h0 :: "u64 list" where
  "sha384_h0 =
     [14680500436340154072, 7105036623409894663, 10473403895298186519, 1526699215303891257,
     7436329637833083697, 10282925794625328401, 15784041429090275239, 5167115440072839076]"

definition sha512_h0 :: "u64 list" where
  "sha512_h0 =
     [7640891576956012808, 13503953896175478587, 4354685564936845355, 11912009170470909681,
     5840696475078001361, 11170449401992604703, 2270897969802886507, 6620516959819538809]"

definition sha512_k :: "u64 list" where
  "sha512_k =
     [4794697086780616226, 8158064640168781261, 13096744586834688815, 16840607885511220156,
     4131703408338449720, 6480981068601479193, 10538285296894168987, 12329834152419229976,
     15566598209576043074, 1334009975649890238, 2608012711638119052, 6128411473006802146,
     8268148722764581231, 9286055187155687089, 11230858885718282805, 13951009754708518548,
     16472876342353939154, 17275323862435702243, 1135362057144423861, 2597628984639134821,
     3308224258029322869, 5365058923640841347, 6679025012923562964, 8573033837759648693,
     10970295158949994411, 12119686244451234320, 12683024718118986047, 13788192230050041572,
     14330467153632333762, 15395433587784984357, 489312712824947311, 1452737877330783856,
     2861767655752347644, 3322285676063803686, 5560940570517711597, 5996557281743188959,
     7280758554555802590, 8532644243296465576, 9350256976987008742, 10552545826968843579,
     11727347734174303076, 12113106623233404929, 14000437183269869457, 14369950271660146224,
     15101387698204529176, 15463397548674623760, 17586052441742319658, 1182934255886127544,
     1847814050463011016, 2177327727835720531, 2830643537854262169, 3796741975233480872,
     4115178125766777443, 5681478168544905931, 6601373596472566643, 7507060721942968483,
     8399075790359081724, 8693463985226723168, 9568029438360202098, 10144078919501101548,
     10430055236837252648, 11840083180663258601, 13761210420658862357, 14299343276471374635,
     14566680578165727644, 15097957966210449927, 16922976911328602910, 17689382322260857208,
     500013540394364858, 748580250866718886, 1242879168328830382, 1977374033974150939,
     2944078676154940804, 3659926193048069267, 4368137639120453308, 4836135668995329356,
     5532061633213252278, 6448918945643986474, 6902733635092675308, 7801388544844847127]"

definition sha512_w :: "u8 list \<Rightarrow> u64 list" where
  "sha512_w message =
     foldl (\<lambda>w i. w @ [sha512_f4 (w ! (i - 2)) + w ! (i - 7) + sha512_f3 (w ! (i - 15)) + w ! (i - 16)])
       (map (\<lambda>j. pack64 message (8 * j)) [0..<16]) [16..<80]"

definition sha512_shift :: "u64 list \<Rightarrow> u64 list \<Rightarrow> nat \<Rightarrow> u64 list" where
  "sha512_shift w wv j =
     (let t1 = wv ! 7 + sha512_f2 (wv ! 4) + ch (wv ! 4) (wv ! 5) (wv ! 6) + sha512_k ! j + w ! j;
          t2 = sha512_f1 (wv ! 0) + maj (wv ! 0) (wv ! 1) (wv ! 2);
          wv = wv[7 := wv ! 6];
          wv = wv[6 := wv ! 5];
          wv = wv[5 := wv ! 4];
          wv = wv[4 := wv ! 3 + t1];
          wv = wv[3 := wv ! 2];
          wv = wv[2 := wv ! 1];
          wv = wv[1 := wv ! 0]
      in wv[0 := t1 + t2])"

definition sha512_sub_block :: "u64 list \<Rightarrow> u8 list \<Rightarrow> u64 list" where
  "sha512_sub_block h sub_block = map2 (+) h (foldl (sha512_shift (sha512_w sub_block)) h [0..<80])"

fun sha512_transf :: "hash_context \<Rightarrow> u8 list \<Rightarrow> nat \<Rightarrow> hash_context" where
  "sha512_transf c message 0 = c"
| "sha512_transf c message (Suc n) =
     sha512_transf (c\<lparr>cx_h := sha512_sub_block (cx_h c) (take 128 message)\<rparr>) (drop 128 message) n"

definition sha512_reset :: "hash \<Rightarrow> hash" where
  "sha512_reset s = s\<lparr>hs_context := (hs_context s)\<lparr>cx_h := sha512_h0, cx_index := 0, cx_length := 0\<rparr>, hs_computed := False\<rparr>"

definition sha384_reset :: "hash \<Rightarrow> hash" where
  "sha384_reset s = s\<lparr>hs_context := (hs_context s)\<lparr>cx_h := sha384_h0, cx_index := 0, cx_length := 0\<rparr>, hs_computed := False\<rparr>"

definition sha512_update :: "hash_context \<Rightarrow> u8 list \<Rightarrow> hash_context" where
  "sha512_update = block_update 128 sha512_transf"

definition sha384_update :: "hash_context \<Rightarrow> u8 list \<Rightarrow> hash_context" where
  "sha384_update = block_update 128 sha512_transf"

definition sha512_input :: "hash \<Rightarrow> u8 list \<Rightarrow> hash" where
  "sha512_input s message_array = s\<lparr>hs_context := chunked 128 sha512_update (hs_context s) message_array\<rparr>"

definition sha384_input :: "hash \<Rightarrow> u8 list \<Rightarrow> hash" where
  "sha384_input s message_array = s\<lparr>hs_context := chunked 128 sha384_update (hs_context s) message_array\<rparr>"

definition sha512_close :: "hash_context \<Rightarrow> hash_context" where
  "sha512_close = block_close 128 17 sha512_transf (\<lambda>h. concat (map unpack64 (take 8 h)))"

definition sha384_close :: "hash_context \<Rightarrow> hash_context" where
  "sha384_close = block_close 128 17 sha512_transf (\<lambda>h. concat (map unpack64 (take 6 h)))"

definition sha512_result :: "hash \<Rightarrow> hash \<times> u8 list option" where
  "sha512_result s = (let s = once_closed sha512_close s in (s, Some (take 64 (cx_block (hs_context s)))))"

definition sha384_result :: "hash \<Rightarrow> hash \<times> u8 list option" where
  "sha384_result s = (let s = once_closed sha384_close s in (s, Some (take 48 (cx_block (hs_context s)))))"

subsection \<open>MD5\<close>

definition md5_F :: "u32 \<Rightarrow> u32 \<Rightarrow> u32 \<Rightarrow> u32" where "md5_F a b c = c XOR (a AND (b XOR c))"
definition md5_G :: "u32 \<Rightarrow> u32 \<Rightarrow> u32 \<Rightarrow> u32" where "md5_G a b c = b XOR (c AND (a XOR b))"
definition md5_H :: "u32 \<Rightarrow> u32 \<Rightarrow> u32 \<Rightarrow> u32" where "md5_H a b c = (a XOR b) XOR c"
definition md5_H2 :: "u32 \<Rightarrow> u32 \<Rightarrow> u32 \<Rightarrow> u32" where "md5_H2 a b c = a XOR (b XOR c)"
definition md5_I :: "u32 \<Rightarrow> u32 \<Rightarrow> u32 \<Rightarrow> u32" where "md5_I a b c = b XOR (a OR NOT c)"

text \<open>
  The steps: function, word, constant and shift. The names of the registers rotate from step to step,
  \<open>md5_step\<close> rotates the registers instead.
\<close>

definition md5_table :: "((u32 \<Rightarrow> u32 \<Rightarrow> u32 \<Rightarrow> u32) \<times> nat \<times> u32 \<times> nat) list" where
  "md5_table =
     [(md5_F, 0, 0xd76aa478, 7), (md5_F, 1, 0xe8c7b756, 12), (md5_F, 2, 0x242070db, 17), (md5_F, 3, 0xc1bdceee, 22),
     (md5_F, 4, 0xf57c0faf, 7), (md5_F, 5, 0x4787c62a, 12), (md5_F, 6, 0xa8304613, 17), (md5_F, 7, 0xfd469501, 22),
     (md5_F, 8, 0x698098d8, 7), (md5_F, 9, 0x8b44f7af, 12), (md5_F, 10, 0xffff5bb1, 17), (md5_F, 11, 0x895cd7be, 22),
     (md5_F, 12, 0x6b901122, 7), (md5_F, 13, 0xfd987193, 12), (md5_F, 14, 0xa679438e, 17), (md5_F, 15, 0x49b40821, 22),
     (md5_G, 1, 0xf61e2562, 5), (md5_G, 6, 0xc040b340, 9), (md5_G, 11, 0x265e5a51, 14), (md5_G, 0, 0xe9b6c7aa, 20),
     (md5_G, 5, 0xd62f105d, 5), (md5_G, 10, 0x02441453, 9), (md5_G, 15, 0xd8a1e681, 14), (md5_G, 4, 0xe7d3fbc8, 20),
     (md5_G, 9, 0x21e1cde6, 5), (md5_G, 14, 0xc33707d6, 9), (md5_G, 3, 0xf4d50d87, 14), (md5_G, 8, 0x455a14ed, 20),
     (md5_G, 13, 0xa9e3e905, 5), (md5_G, 2, 0xfcefa3f8, 9), (md5_G, 7, 0x676f02d9, 14), (md5_G, 12, 0x8d2a4c8a, 20),
     (md5_H, 5, 0xfffa3942, 4), (md5_H2, 8, 0x8771f681, 11), (md5_H, 11, 0x6d9d6122, 16), (md5_H2, 14, 0xfde5380c, 23),
     (md5_H, 1, 0xa4beea44, 4), (md5_H2, 4, 0x4bdecfa9, 11), (md5_H, 7, 0xf6bb4b60, 16), (md5_H2, 10, 0xbebfbc70, 23),
     (md5_H, 13, 0x289b7ec6, 4), (md5_H2, 0, 0xeaa127fa, 11), (md5_H, 3, 0xd4ef3085, 16), (md5_H2, 6, 0x04881d05, 23),
     (md5_H, 9, 0xd9d4d039, 4), (md5_H2, 12, 0xe6db99e5, 11), (md5_H, 15, 0x1fa27cf8, 16), (md5_H2, 2, 0xc4ac5665, 23),
     (md5_I, 0, 0xf4292244, 6), (md5_I, 7, 0x432aff97, 10), (md5_I, 14, 0xab9423a7, 15), (md5_I, 5, 0xfc93a039, 21),
     (md5_I, 12, 0x655b59c3, 6), (md5_I, 3, 0x8f0ccc92, 10), (md5_I, 10, 0xffeff47d, 15), (md5_I, 1, 0x85845dd1, 21),
     (md5_I, 8, 0x6fa87e4f, 6), (md5_I, 15, 0xfe2ce6e0, 10), (md5_I, 6, 0xa3014314, 15), (md5_I, 13, 0x4e0811a1, 21),
     (md5_I, 4, 0xf7537e82, 6), (md5_I, 11, 0xbd3af235, 10), (md5_I, 2, 0x2ad7d2bb, 15), (md5_I, 9, 0xeb86d391, 21)]"

type_synonym md5_regs = "u32 \<times> u32 \<times> u32 \<times> u32"

definition md5_step :: "u32 list \<Rightarrow> md5_regs \<Rightarrow> (u32 \<Rightarrow> u32 \<Rightarrow> u32 \<Rightarrow> u32) \<times> nat \<times> u32 \<times> nat \<Rightarrow> md5_regs" where
  "md5_step words r e = (case (r, e) of ((a, b, c, d), (f, n, t, s)) \<Rightarrow>
     (let a = a + (f b c d + words ! n + t);
          a = push_bit s a OR drop_bit (32 - s) (a AND 0xFFFFFFFF)
      in (d, a + b, b, c)))"

text \<open>
  \<open>SET\<close> and \<open>GET\<close>. On the architectures that \<^verbatim>\<open>Hash.cpp\<close> lists as tolerating unaligned accesses
  (\<open>unaligned\<close>), a word is read from the data. On the others the word is assigned to \<^verbatim>\<open>ctx->block[n]\<close>,
  which is a byte, and read from there.
\<close>

definition md5_word :: "bool \<Rightarrow> u8 list \<Rightarrow> nat \<Rightarrow> u32" where
  "md5_word unaligned ptr n =
     (let v = (ucast (ptr ! (n * 4)) :: u32) OR push_bit 8 (ucast (ptr ! (n * 4 + 1)))
            OR push_bit 16 (ucast (ptr ! (n * 4 + 2))) OR push_bit 24 (ucast (ptr ! (n * 4 + 3)))
      in if unaligned then v else ucast (ucast v :: u8))"

definition md5_set :: "bool \<Rightarrow> u8 list \<Rightarrow> u8 list \<Rightarrow> u8 list" where
  "md5_set unaligned ptr block =
     (if unaligned then block else blit block 0 (map (\<lambda>n. ucast (md5_word unaligned ptr n)) [0..<16]))"

definition md5_block :: "bool \<Rightarrow> md5_regs \<Rightarrow> u8 list \<Rightarrow> md5_regs" where
  "md5_block unaligned r ptr =
     (case (r, foldl (md5_step (map (md5_word unaligned ptr) [0..<16])) r md5_table) of
        ((saved_a, saved_b, saved_c, saved_d), (a, b, c, d)) \<Rightarrow> (a + saved_a, b + saved_b, c + saved_c, d + saved_d))"

text \<open>The loop of \<^verbatim>\<open>body\<close> over \<open>n\<close> blocks: the registers and the block of the context.\<close>

fun md5_blocks :: "bool \<Rightarrow> nat \<Rightarrow> md5_regs \<Rightarrow> u8 list \<Rightarrow> u8 list \<Rightarrow> md5_regs \<times> u8 list" where
  "md5_blocks unaligned 0 r ptr block = (r, block)"
| "md5_blocks unaligned (Suc n) r ptr block =
     md5_blocks unaligned n (md5_block unaligned r ptr) (drop 64 ptr) (md5_set unaligned ptr block)"

definition md5_body :: "bool \<Rightarrow> hash_context \<Rightarrow> u8 list \<Rightarrow> nat \<Rightarrow> hash_context" where
  "md5_body unaligned ctx data size' =
     (let h = cx_h ctx in
      case md5_blocks unaligned (size' div 64) (low32 (h ! 0), low32 (h ! 1), low32 (h ! 2), low32 (h ! 3)) data (cx_block ctx) of
        ((a, b, c, d), block) \<Rightarrow>
          ctx\<lparr>cx_h := blit h 0 [ucast a, ucast b, ucast c, ucast d], cx_block := block\<rparr>)"

definition md5_h0 :: "u64 list" where
  "md5_h0 = [0x67452301, 0xefcdab89, 0x98badcfe, 0x10325476]"

definition md5_reset :: "hash \<Rightarrow> hash" where
  "md5_reset s =
     \<lparr>hs_context = \<lparr>cx_length = 0, cx_h = md5_h0 @ [0, 0, 0, 0],
        cx_index = 0, cx_block = replicate 256 0\<rparr>,
      hs_computed = False, hs_corrupted = False\<rparr>"

text \<open>\<open>MD5_Update\<close> of at most 512 bytes.\<close>

definition md5_update :: "bool \<Rightarrow> hash_context \<Rightarrow> u8 list \<Rightarrow> hash_context" where
  "md5_update unaligned ctx data =
     (let saved_lo = low32 (cx_length ctx);
          size' = length data;
          low = ucast ((ucast saved_lo + of_nat size' :: u64) AND 0x1FFFFFFF) :: u32;
          high = high32 (cx_length ctx) + (if low < saved_lo then 1 else 0) + ucast (drop_bit 29 (of_nat size' :: u64));
          ctx = ctx\<lparr>cx_length := join32 high low\<rparr>;
          used = unat (saved_lo AND 0x3F);
          available = 64 - used
      in if used \<noteq> 0 \<and> size' < available then ctx\<lparr>cx_block := blit (cx_block ctx) used data\<rparr>
         else
           let (ctx, data) =
                 (if used \<noteq> 0 then
                    let ctx = ctx\<lparr>cx_block := blit (cx_block ctx) used (take available data)\<rparr>
                    in (md5_body unaligned ctx (cx_block ctx) 64, drop available data)
                  else (ctx, data));
               size' = length data;
               (ctx, data) =
                 (if 64 \<le> size'
                  then (md5_body unaligned ctx data (size' - size' mod 64), drop (size' - size' mod 64) data)
                  else (ctx, data))
           in ctx\<lparr>cx_block := blit (cx_block ctx) 0 data\<rparr>)"

definition md5_input :: "bool \<Rightarrow> hash \<Rightarrow> u8 list \<Rightarrow> hash" where
  "md5_input unaligned s message_array = s\<lparr>hs_context := chunked 512 (md5_update unaligned) (hs_context s) message_array\<rparr>"

definition unpack32_le :: "u32 \<Rightarrow> u8 list" where
  "unpack32_le a = [ucast a, ucast (drop_bit 8 a), ucast (drop_bit 16 a), ucast (drop_bit 24 a)]"

definition md5_close :: "bool \<Rightarrow> hash_context \<Rightarrow> hash_context" where
  "md5_close unaligned ctx =
     (let low = low32 (cx_length ctx);
          high = high32 (cx_length ctx);
          used = unat (low AND 0x3F) + 1;
          ctx = ctx\<lparr>cx_block := (cx_block ctx)[used - 1 := 0x80]\<rparr>;
          available = 64 - used;
          (ctx, used, available) =
            (if available < 8 then
               let ctx = ctx\<lparr>cx_block := blit (cx_block ctx) used (replicate available 0)\<rparr>
               in (md5_body unaligned ctx (cx_block ctx) 64, 0, 64)
             else (ctx, used, available));
          ctx = ctx\<lparr>cx_block := blit (cx_block ctx) used (replicate (available - 8) 0)\<rparr>;
          low = push_bit 3 low;
          ctx = ctx\<lparr>cx_block := blit (cx_block ctx) 56 (unpack32_le low @ unpack32_le high)\<rparr>;
          ctx = md5_body unaligned ctx (cx_block ctx) 64
      in ctx\<lparr>cx_block := blit (cx_block ctx) 0 (concat (map (\<lambda>v. unpack32_le (low32 v)) (take 4 (cx_h ctx)))),
             cx_length := join32 high low\<rparr>)"

definition md5_result :: "bool \<Rightarrow> hash \<Rightarrow> hash \<times> u8 list option" where
  "md5_result unaligned s =
     (if hs_corrupted s then (s, None)
      else
        let s = (if hs_computed s then s else s\<lparr>hs_context := md5_close unaligned (hs_context s)\<rparr>)
        in (s, Some (take 16 (cx_block (hs_context s)))))"

end
