(* ===== verification/Hash_Facts.thy ===== *)
theory Hash_Facts
  imports Hash
begin

text \<open>
  Block hashing: the chain of a compression function over the whole blocks of a message, what a
  context that has absorbed a message holds, and the laws of the update functions.
\<close>

subsection \<open>Whole blocks and the rest\<close>

function chain :: "nat \<Rightarrow> ('h \<Rightarrow> 'b list \<Rightarrow> 'h) \<Rightarrow> 'h \<Rightarrow> 'b list \<Rightarrow> 'h" where
  "chain B f h m = (if B = 0 \<or> length m < B then h else chain B f (f h (take B m)) (drop B m))"
  by pat_completeness auto
termination by (relation "measure (\<lambda>(B, f, h, m). length m)") auto

declare chain.simps [simp del]

definition rest :: "nat \<Rightarrow> 'b list \<Rightarrow> 'b list" where
  "rest B m = drop (length m - length m mod B) m"

lemma chain_short [simp]: "length m < B \<Longrightarrow> chain B f h m = h"
  by (simp add: chain.simps)

lemma chain_block: "0 < B \<Longrightarrow> B \<le> length m \<Longrightarrow> chain B f h m = chain B f (f h (take B m)) (drop B m)"
  by (simp add: chain.simps [of B f h m])

lemma chain_single: "0 < B \<Longrightarrow> length m = B \<Longrightarrow> chain B f h m = f h m"
  by (simp add: chain_block)

lemma length_rest [simp]: "length (rest B m) = length m mod B"
  by (simp add: rest_def)

lemma rest_short [simp]: "length m < B \<Longrightarrow> rest B m = m"
  by (simp add: rest_def)

lemma rest_block: "B \<le> length m \<Longrightarrow> rest B m = rest B (drop B m)"
proof -
  assume B: "B \<le> length m"
  then have "(length m - B) mod B = length m mod B" by (simp add: le_mod_geq)
  moreover have "length m mod B \<le> length m - B" using B calculation mod_less_eq_dividend [of "length m - B" B] by simp
  ultimately show ?thesis using B by (simp add: rest_def)
qed

lemma chain_append: "0 < B \<Longrightarrow> chain B f h (m @ n) = chain B f (chain B f h m) (rest B m @ n)"
proof (induction B f h m rule: chain.induct)
  case (1 B f h m)
  show ?case
  proof (cases "length m < B")
    case False
    then have "chain B f h (m @ n) = chain B f (f h (take B m)) (drop B m @ n)"
      using 1(2) by (simp add: chain_block)
    also have "\<dots> = chain B f (chain B f h m) (rest B m @ n)"
      using False 1 by (simp add: chain_block [of B m] rest_block [of B m])
    finally show ?thesis .
  qed simp
qed

lemma rest_append: "0 < B \<Longrightarrow> rest B (m @ n) = rest B (rest B m @ n)"
proof (induction m rule: length_induct)
  case (1 m)
  show ?case
  proof (cases "length m < B")
    case False
    then have "rest B (m @ n) = rest B (drop B m @ n)" by (simp add: rest_block)
    then show ?thesis using False 1 by (simp add: rest_block [of B m])
  qed simp
qed

subsection \<open>What a context has absorbed\<close>

text \<open>\<open>k\<close> is the number of words of the array that the algorithm uses.\<close>

definition absorbed :: "nat \<Rightarrow> nat \<Rightarrow> (u64 list \<Rightarrow> u8 list \<Rightarrow> u64 list) \<Rightarrow> u64 list \<Rightarrow> hash_context \<Rightarrow> u8 list \<Rightarrow> bool" where
  "absorbed B k f h0 c m \<longleftrightarrow> length (cx_h c) = 8 \<and> length (cx_block c) = 256 \<and>
     take k (cx_h c) = chain B f h0 m \<and> cx_index c = length m mod B \<and>
     take (cx_index c) (cx_block c) = rest B m"

lemma absorbed_length_update [simp]: "absorbed B k f h0 (c\<lparr>cx_length := v\<rparr>) m = absorbed B k f h0 c m"
  by (simp add: absorbed_def)

lemma take_update_snoc: "i < length xs \<Longrightarrow> take (Suc i) (xs[i := b]) = take i xs @ [b]"
  by (simp add: take_Suc_conv_app_nth)

text \<open>A byte that does not complete a block, and one that does.\<close>

lemma absorbed_byte:
  assumes "absorbed B k f h0 c m" "B \<le> 256" "cx_index c + 1 < B"
  shows "absorbed B k f h0 (c\<lparr>cx_block := (cx_block c)[cx_index c := b], cx_index := cx_index c + 1\<rparr>) (m @ [b])"
proof -
  have i: "cx_index c = length m mod B" and B: "0 < B" using assms by (auto simp: absorbed_def)
  then have s: "(length m + 1) mod B = length m mod B + 1" using assms(3) by (simp add: mod_Suc)
  have "rest B (m @ [b]) = rest B m @ [b]" "chain B f h0 (m @ [b]) = chain B f h0 m"
    using assms(3) i B by (simp_all add: rest_append [of B m] chain_append [of B f h0 m])
  then show ?thesis
    using assms s i by (simp add: absorbed_def take_update_snoc)
qed

lemma absorbed_last_byte:
  assumes "absorbed B k f h0 c m" "B \<le> 256" "cx_index c + 1 = B"
    and "cx_index c' = 0" "length (cx_block c') = 256" "length (cx_h c') = 8"
    and "take k (cx_h c') = f (take k (cx_h c)) (take B ((cx_block c)[cx_index c := b]))"
  shows "absorbed B k f h0 c' (m @ [b])"
proof -
  have i: "cx_index c = length m mod B" and B: "0 < B" using assms by (auto simp: absorbed_def)
  then have s: "(length m + 1) mod B = 0" using assms(3) by (simp add: mod_Suc)
  have r: "take B ((cx_block c)[cx_index c := b]) = rest B m @ [b]"
    using assms by (auto simp: absorbed_def take_update_snoc simp flip: assms(3))
  have "length (rest B m @ [b]) = B" using i assms(3) by simp
  then have "chain B f h0 (m @ [b]) = f (chain B f h0 m) (rest B m @ [b])"
    using B by (simp only: chain_append [OF B, of f h0 m] chain_single)
  moreover have "rest B (m @ [b]) = []" using s by (metis length_0_conv length_append_singleton length_rest Suc_eq_plus1)
  ultimately show ?thesis
    using assms s r by (simp add: absorbed_def)
qed

subsection \<open>Updating by blocks\<close>

text \<open>\<open>transf\<close> chains the compression function over the words of the context.\<close>

definition transforms :: "nat \<Rightarrow> nat \<Rightarrow> (u64 list \<Rightarrow> u8 list \<Rightarrow> u64 list) \<Rightarrow> (hash_context \<Rightarrow> u8 list \<Rightarrow> nat \<Rightarrow> hash_context) \<Rightarrow> bool" where
  "transforms B k f transf \<longleftrightarrow> (\<forall>c ms n. length (cx_h c) = 8 \<longrightarrow> B * n \<le> length ms \<longrightarrow>
     (\<exists>h. transf c ms n = c\<lparr>cx_h := h\<rparr> \<and> length h = 8 \<and> take k h = chain B f (take k (cx_h c)) (take (B * n) ms)))"

lemma absorbed_block_update:
  assumes a: "absorbed B k f h0 c m" and B: "0 < B" "B \<le> 128" and t: "transforms B k f transf"
  shows "absorbed B k f h0 (block_update B transf c msg) (m @ msg)"
proof -
  obtain i where i: "i = cx_index c" by blast
  have im: "i = length m mod B" and iB: "i < B" using a B by (auto simp: absorbed_def i)
  have bl: "length (cx_block c) = 256" and r: "take i (cx_block c) = rest B m" and h8: "length (cx_h c) = 8"
    and hc: "take k (cx_h c) = chain B f h0 m"
    using a by (auto simp: absorbed_def i)
  show ?thesis
  proof (cases "i + length msg < B")
    case True
    have "take (i + length msg) (blit (cx_block c) i msg) = rest B m @ msg"
      using r bl iB B True by (simp add: blit_def flip: im)
    moreover have "chain B f h0 (m @ msg) = chain B f h0 m" "rest B (m @ msg) = rest B m @ msg"
      using True B im by (simp_all add: chain_append [of B f h0 m] rest_append [of B m])
    moreover have "(length m + length msg) mod B = i + length msg"
      using True im by (metis mod_add_left_eq mod_less)
    ultimately show ?thesis
      using True bl B iB h8 hc by (simp add: block_update_def Let_def absorbed_def mem_simps flip: i)
  next
    case False
    obtain p where p: "p = take (B - i) msg" and pl: "length p = B - i" using False by simp
    obtain ms where ms: "ms = drop (B - i) msg" by blast
    obtain q where q: "q = length ms div B" by blast
    obtain c1 where c1: "c1 = c\<lparr>cx_block := blit (cx_block c) i p\<rparr>" by blast
    have b1: "take B (cx_block c1) = rest B m @ p" "length (cx_block c1) = 256"
      using r bl pl iB B by (simp_all add: c1 blit_def flip: im)
    obtain h1 where h1: "transf c1 (cx_block c1) 1 = c1\<lparr>cx_h := h1\<rparr>" "length h1 = 8"
      "take k h1 = chain B f (chain B f h0 m) (rest B m @ p)"
      using t [unfolded transforms_def, rule_format, of c1 1 "cx_block c1"] b1 h8 hc B by (auto simp: c1)
    have qB: "B * q \<le> length ms" by (simp add: q)
    obtain h2 where h2: "transf (c1\<lparr>cx_h := h1\<rparr>) ms q = c1\<lparr>cx_h := h2\<rparr>" "length h2 = 8"
      "take k h2 = chain B f (take k h1) (take (B * q) ms)"
      using t [unfolded transforms_def, rule_format, of "c1\<lparr>cx_h := h1\<rparr>" q ms] qB h1(2) by auto
    have len: "length ms - length ms mod B = B * q" by (simp add: q minus_mod_eq_mult_div)
    have R: "rest B ms = drop (B * q) ms" by (simp add: rest_def len)
    have lp: "length (rest B m @ p) = B" using im pl iB by simp
    have "chain B f h0 (m @ msg) = chain B f (chain B f h0 m) ((rest B m @ p) @ ms)"
      using B by (simp add: chain_append [of B f h0 m] p ms)
    also have "\<dots> = chain B f (take k h1) ms"
      using B lp h1(3) chain_append [of B f "chain B f h0 m" "rest B m @ p" ms] by (simp add: rest_def [of B "rest B m @ p"])
    also have "\<dots> = chain B f (take k h1) (take (B * q) ms @ drop (B * q) ms)" by simp
    also have "\<dots> = take k h2"
      using B h2(3) qB R length_rest [of B ms]
      by (simp only: chain_append [OF B(1), of f _ "take (B * q) ms"]) (simp add: rest_def)
    finally have H: "take k h2 = chain B f h0 (m @ msg)" by simp
    have "rest B (m @ msg) = rest B ((rest B m @ p) @ ms)"
      using B by (simp add: rest_append [of B m] p ms)
    also have "\<dots> = rest B ms" using B lp rest_append [of B "rest B m @ p" ms] by (simp add: rest_def [of B "rest B m @ p"])
    finally have RR: "rest B (m @ msg) = rest B ms" .
    then have LL: "(length m + length msg) mod B = length ms mod B" by (metis length_append length_rest)
    have LM: "length msg - (B - i) = length ms" by (simp add: ms)
    have TT: "take (length ms mod B) (drop (q * B) ms) = rest B ms"
      by (simp add: R mult.commute q flip: minus_mod_eq_mult_div)
    have LB: "length (rest B ms) \<le> length (cx_block c1)" using B b1(2) mod_less_divisor [of B "length ms"] by (simp del: mod_less_divisor)
    show ?thesis
      using False B iB h1 h2 H RR LL TT LB b1(2)
      by (simp add: block_update_def Let_def absorbed_def mem_simps LM min_absorb2
          flip: i p ms q c1) (simp add: blit_def)
  qed
qed

subsection \<open>Padding\<close>

text \<open>
  The padding of the standards: a one bit, zeros and the length \<open>L\<close>, up to a whole number of blocks;
  \<open>reserved\<close> counts the first byte and the field of the length.
\<close>

definition pad :: "nat \<Rightarrow> nat \<Rightarrow> u8 list \<Rightarrow> nat \<Rightarrow> u8 list" where
  "pad B reserved L n = 0x80 # replicate ((B - (n + reserved) mod B) mod B + (reserved - 1 - length L)) 0 @ L"

lemma pad_zeros:
  fixes n :: nat
  assumes "i = n mod B" "0 < reserved" "reserved \<le> B"
  shows "(B - (n + reserved) mod B) mod B = (if B - reserved < i then 2 else 1) * B - i - reserved"
proof -
  have iB: "i < B" using assms by simp
  have "(n + reserved) mod B = (i + reserved) mod B" using assms(1) by (simp add: mod_add_left_eq)
  moreover have "(i + reserved) mod B = (if i + reserved < B then i + reserved else i + reserved - B)"
    using iB assms(3) by (simp add: mod_if)
  ultimately show ?thesis using iB assms(2,3) by auto
qed

text \<open>The last one or two blocks of 64 bytes with eight bytes of length.\<close>

lemma chain_pad:
  assumes "i = length m mod 64" "length L = 8"
  shows "i \<le> 55 \<Longrightarrow> chain 64 f h (m @ pad 64 9 L (length m))
      = f (chain 64 f h m) (rest 64 m @ 0x80 # replicate (55 - i) 0 @ L)"
    and "55 < i \<Longrightarrow> chain 64 f h (m @ pad 64 9 L (length m))
      = f (f (chain 64 f h m) (rest 64 m @ 0x80 # replicate (63 - i) 0)) (replicate 56 0 @ L)"
proof -
  have iB: "i < 64" using assms by simp
  have z: "pad 64 9 L (length m) = 0x80 # replicate ((if 55 < i then 2 else 1) * 64 - i - 9) 0 @ L"
    using pad_zeros [OF assms(1), of 9] assms(2) by (simp add: pad_def)
  have c: "chain 64 f h (m @ p) = chain 64 f (chain 64 f h m) (rest 64 m @ p)" for p
    by (rule chain_append) simp
  show "i \<le> 55 \<Longrightarrow> chain 64 f h (m @ pad 64 9 L (length m))
      = f (chain 64 f h m) (rest 64 m @ 0x80 # replicate (55 - i) 0 @ L)"
    using assms iB z unfolding c by (subst chain_single) simp_all
  assume i: "55 < i"
  have "replicate (119 - i) 0 = replicate (63 - i) 0 @ replicate 56 (0 :: u8)"
    using iB i by (simp flip: replicate_add)
  then have "rest 64 m @ pad 64 9 L (length m)
      = (rest 64 m @ 0x80 # replicate (63 - i) 0) @ replicate 56 0 @ L"
    using i z by simp
  then show "chain 64 f h (m @ pad 64 9 L (length m))
      = f (f (chain 64 f h m) (rest 64 m @ 0x80 # replicate (63 - i) 0)) (replicate 56 0 @ L)"
    unfolding c using assms iB i
    by (simp only: chain_append [of 64 f _ "rest 64 m @ _"]) (simp add: chain_single rest_def)
qed

lemma blit_at: "k + length src \<le> length dst \<Longrightarrow> take (k + length src) (blit dst k src) = take k dst @ src"
  by (simp add: blit_def)

lemma unpack64_split: "unpack64 v = unpack32 (high32 v) @ unpack32 (low32 v)"
  unfolding unpack64_def unpack32_def high32_def low32_def append.simps list.inject
  by (intro conjI refl; rule byte_eqI; simp add: bit_simps)

lemma length_unpack [simp]: "length (unpack32 a) = 4" "length (unpack64 v) = 8"
  by (simp_all add: unpack32_def unpack64_def)

lemma low32_of_nat: "low32 (of_nat n) = of_nat n"
  by (rule bit_word_eqI) (simp add: low32_def bit_simps)

lemma unpack64_small: "n < 2 ^ 32 \<Longrightarrow> unpack64 (of_nat n) = replicate 4 0 @ unpack32 (of_nat n :: u32)"
proof -
  assume n: "n < 2 ^ 32"
  have "high32 (of_nat n) = 0"
  proof -
    have "drop_bit 32 (of_nat n :: u64) = 0"
      using n unfolding word_unat_eq_iff unat_drop_bit_eq
      by (simp add: unsigned_of_nat drop_bit_eq_div take_bit_eq_mod)
    then show ?thesis by (simp add: high32_def)
  qed
  then show ?thesis by (simp add: unpack64_split low32_of_nat unpack32_def numeral_eq_Suc)
qed

end
