(* ===== verification/Hash_Properties.thy ===== *)
theory Hash_Properties
  imports Hash_Facts
begin

text \<open>
  The digests: whatever the parts in which a message is handed over, the result is the digest of the
  whole message as the standards define it from the compression function. The contract of a hash
  algorithm is the locale \<open>hash_algorithm\<close>; it is interpreted on all six.
\<close>

subsection \<open>The contract\<close>

locale hash_algorithm =
  fixes wf :: "'c \<Rightarrow> bool" and holds :: "'c \<Rightarrow> u8 list \<Rightarrow> bool"
    and reset :: "'c \<Rightarrow> 'c" and input :: "'c \<Rightarrow> u8 list \<Rightarrow> 'c" and result :: "'c \<Rightarrow> 'c \<times> u8 list option"
    and spec :: "u8 list \<Rightarrow> u8 list" and limit :: nat
  assumes reset: "wf c \<Longrightarrow> holds (reset c) []"
    and input: "holds c m \<Longrightarrow> length m + length bs < limit \<Longrightarrow> holds (input c bs) (m @ bs)"
    and result: "holds c m \<Longrightarrow> length m < limit \<Longrightarrow> snd (result c) = Some (spec m)"
    and wf: "holds c m \<Longrightarrow> wf c"
    and result_wf: "holds c m \<Longrightarrow> length m < limit \<Longrightarrow> wf (fst (result c))"
begin

lemma inputs: "holds c m \<Longrightarrow> length m + length (concat chunks) < limit \<Longrightarrow> holds (foldl input c chunks) (m @ concat chunks)"
proof (induction chunks arbitrary: c m)
  case (Cons bs chunks)
  then have "holds (input c bs) (m @ bs)" by (intro input) simp_all
  then show ?case using Cons.IH [of "input c bs" "m @ bs"] Cons.prems by simp
qed simp

lemma stream:
  "wf c \<Longrightarrow> length (concat chunks) < limit \<Longrightarrow> snd (result (foldl input (reset c) chunks)) = Some (spec (concat chunks))"
  using inputs [OF reset, of c chunks] result [of _ "concat chunks"] by simp

end

lemma chunked_inv:
  assumes "\<And>c m bs. P c m \<Longrightarrow> length bs \<le> n \<Longrightarrow> P (update c bs) (m @ bs)" "0 < n" "P c m"
  shows "P (chunked n update c bs) (m @ bs)"
  using assms(3)
proof (induction bs arbitrary: c m rule: length_induct)
  case (1 bs)
  show ?case
  proof (cases "bs \<noteq> [] \<and> n < length bs")
    case True
    then have "length (drop n bs) < length bs" using assms(2) by simp
    moreover have "P (update c (take n bs)) (m @ take n bs)" using assms(1) "1.prems" by simp
    ultimately have "P (chunked n update (update c (take n bs)) (drop n bs)) ((m @ take n bs) @ drop n bs)"
      using "1.IH" by blast
    then show ?thesis using True assms(2) by (subst chunked.simps) simp
  next
    case False
    then show ?thesis using assms(1) [OF "1.prems", of bs] "1.prems" by (subst chunked.simps) auto
  qed
qed

definition array_sizes :: "hash \<Rightarrow> bool" where
  "array_sizes s \<longleftrightarrow> length (cx_h (hs_context s)) = 8 \<and> length (cx_block (hs_context s)) = 256"

subsection \<open>SHA-256\<close>

lemma pack32_take: "i + 3 < n \<Longrightarrow> pack32 (take n ms) i = pack32 ms i"
  by (simp add: pack32_def)

lemma sha256_w_take: "sha256_w (take 64 ms) = sha256_w ms"
proof -
  have "map (\<lambda>j. pack32 (take 64 ms) (4 * j)) [0..<16] = map (\<lambda>j. pack32 ms (4 * j)) [0..<16]"
    by (simp add: pack32_take)
  then show ?thesis by (simp only: sha256_w_def)
qed

lemma sha256_compress_take: "sha256_compress h (take 64 ms) = sha256_compress h ms"
  by (simp add: sha256_compress_def sha256_w_take)

lemma length_sha256_compress [simp]: "length (sha256_compress h ms) = 8"
  by (simp add: sha256_compress_def split: prod.splits)

lemmas list8 = numeral_eq_Suc length_Suc_conv

text \<open>The two ways to write the working variables.\<close>

definition regs8 :: "sha256_regs \<Rightarrow> u32 list" where
  "regs8 r = (case r of (a, b, c, d, e, f, g, h) \<Rightarrow> [a, b, c, d, e, f, g, h])"

lemma sha256_shift_turn: "sha256_shift w (regs8 r) j = regs8 (sha256_turn w r j)"
proof -
  obtain a b c d e f g h where "r = (a, b, c, d, e, f, g, h)" by (metis prod.exhaust)
  then show ?thesis
    by (simp add: sha256_shift_def sha256_turn_def regs8_def Let_def numeral_eq_Suc)
qed

lemma foldl_shift_turn: "foldl (sha256_shift w) (regs8 r) js = regs8 (foldl (sha256_turn w) r js)"
  by (induction js arbitrary: r) (simp_all add: sha256_shift_turn)

lemma sha256_sub_block_compress:
  assumes "length h = 8" shows "sha256_sub_block h ms = sha256_compress h ms"
proof -
  obtain a b c d e f g i where h: "h = [a, b, c, d, e, f, g, i]"
    using assms by (auto simp: list8)
  have "map low32 h = regs8 (low32 a, low32 b, low32 c, low32 d, low32 e, low32 f, low32 g, low32 i)"
    by (simp add: h regs8_def)
  then show ?thesis
    by (simp add: sha256_sub_block_def foldl_shift_turn sha256_compress_def h split: prod.splits)
      (simp add: regs8_def numeral_eq_Suc)
qed

definition sha256_digest :: "u8 list \<Rightarrow> u8 list" where
  "sha256_digest m =
     concat (map unpack32 (chain 64 sha256_compress sha256_h0 (m @ pad 64 9 (unpack64 (of_nat (8 * length m))) (length m))))"

definition sha256_context :: "hash_context \<Rightarrow> u8 list \<Rightarrow> bool" where
  "sha256_context c m \<longleftrightarrow> absorbed 64 8 sha256_compress sha256_h0 c m
     \<and> cx_length c = of_nat (8 * (length m - length m mod 64))"

lemma sha256_update_byte:
  assumes "sha256_context c m"
  shows "sha256_context (sha256_update c [b]) (m @ [b])"
proof (cases "cx_index c + 1 = 64")
  case False
  have a: "absorbed 64 8 sha256_compress sha256_h0 c m" using assms by (simp add: sha256_context_def)
  then have i: "cx_index c = length m mod 64" by (simp add: absorbed_def)
  moreover have "length m mod 64 < 64" by simp
  ultimately have l: "cx_index c + 1 < 64" using False by linarith
  then have "(length m + 1) mod 64 = length m mod 64 + 1" using i by (simp add: mod_Suc)
  then show ?thesis
    using absorbed_byte [OF a _ l, of b] False assms by (simp add: sha256_context_def)
next
  case True
  have a: "absorbed 64 8 sha256_compress sha256_h0 c m" using assms by (simp add: sha256_context_def)
  then have i: "cx_index c = length m mod 64" by (simp add: absorbed_def)
  have z: "(length m + 1) mod 64 = 0" using True i by (simp add: mod_Suc)
  have "cx_length c + 512 = of_nat (8 * (length m - length m mod 64) + 512)"
    using assms by (simp add: sha256_context_def)
  also have "8 * (length m - length m mod 64) + 512 = 8 * (length m + 1 - (length m + 1) mod 64)"
    using True i z mod_less_eq_dividend [of "length m" 64] by (simp add: algebra_simps)
  finally have n: "cx_length c + 512 = of_nat (8 * (length (m @ [b]) - length (m @ [b]) mod 64))" by simp
  have ch: "chain 64 sha256_compress sha256_h0 m = cx_h c" using a by (metis absorbed_def order_refl take_all)
  have "absorbed 64 8 sha256_compress sha256_h0 (sha256_update c [b]) (m @ [b])"
    by (rule absorbed_last_byte [OF a _ True])
      (use True a ch in \<open>simp_all add: Let_def sha256_trans_def sha256_compress_take absorbed_def\<close>)
  moreover have "cx_length (sha256_update c [b]) = cx_length c + 512"
    using True by (simp add: Let_def sha256_trans_def)
  ultimately show ?thesis using n by (simp add: sha256_context_def)
qed

lemma sha256_update_Cons: "sha256_update c (b # bs) = sha256_update (sha256_update c [b]) bs"
  by (simp add: Let_def)

lemma sha256_update_inv: "sha256_context c m \<Longrightarrow> sha256_context (sha256_update c bs) (m @ bs)"
proof (induction bs arbitrary: c m)
  case (Cons b bs)
  then show ?case
    using Cons.IH [OF sha256_update_byte [OF Cons.prems]] by (subst sha256_update_Cons) simp
qed simp

text \<open>Filling the last blocks.\<close>

lemma fill_one:
  assumes "length blk = 256" "length L = 8" "i \<le> 55"
  shows "take 64 (blit (blit blk i (0x80 # replicate (55 - i) 0)) 56 L) = take i blk @ 0x80 # replicate (55 - i) 0 @ L"
  using assms by (simp add: blit_def take_Cons')

lemma fill_first:
  assumes "length blk = 256" "i < 64"
  shows "take 64 (blit blk i (0x80 # replicate (63 - i) 0)) = take i blk @ 0x80 # replicate (63 - i) 0"
  using assms by (simp add: blit_def take_Cons')

lemma fill_second:
  assumes "length blk = 256" "length L = 8"
  shows "take 64 (blit (blit blk 0 (replicate 56 0)) 56 L) = replicate 56 0 @ L"
  using assms by (simp add: blit_def take_Cons')

lemma length_concat_const: "(\<And>a. a \<in> set xs \<Longrightarrow> length (g a) = k) \<Longrightarrow> length (concat (map g xs)) = k * length xs"
  by (induction xs) simp_all

lemma sha256_close_facts:
  assumes "sha256_context c m"
  shows "take 32 (cx_block (sha256_close c)) = sha256_digest m"
    and "length (cx_h (sha256_close c)) = 8" "length (cx_block (sha256_close c)) = 256"
proof -
  obtain i where i: "i = cx_index c" by blast
  have a: "absorbed 64 8 sha256_compress sha256_h0 c m" and n: "cx_length c = of_nat (8 * (length m - length m mod 64))"
    using assms by (simp_all add: sha256_context_def)
  have im: "i = length m mod 64" and bl: "length (cx_block c) = 256" and r: "take i (cx_block c) = rest 64 m"
    and h: "cx_h c = chain 64 sha256_compress sha256_h0 m"
    using a take_all [of "cx_h c" 8] by (auto simp: absorbed_def i)
  have i64: "i < 64" using im by simp
  obtain L where L: "L = unpack64 (of_nat (8 * length m))" by blast
  have "cx_length c + of_nat (i * 8) = of_nat (8 * (length m - length m mod 64) + i * 8)" using n by simp
  also have "8 * (length m - length m mod 64) + i * 8 = 8 * length m"
    using im mod_less_eq_dividend [of "length m" 64] by (simp add: algebra_simps)
  finally have len: "cx_length c + of_nat (i * 8) = of_nat (8 * length m)" .
  obtain H where H: "H = chain 64 sha256_compress sha256_h0 (m @ pad 64 9 L (length m))" by blast
  have lL: "length L = 8" by (simp add: L)
  note chains = chain_pad [OF im lL, of sha256_compress sha256_h0, folded H]
  have cl: "\<exists>b. length b = 256 \<and> sha256_close c = c\<lparr>cx_length := of_nat (8 * length m), cx_h := H,
      cx_block := blit b 0 (concat (map unpack32 H))\<rparr> \<and> length H = 8"
  proof (cases "i < 56")
    case True
    obtain b where b: "b = blit (blit (cx_block c) i (0x80 # replicate (55 - i) 0)) 56 L" by blast
    have "take 64 b = rest 64 m @ 0x80 # replicate (55 - i) 0 @ L"
      using True bl lL r by (simp add: b fill_one)
    then have "H = sha256_compress (cx_h c) b"
      using chains(1) True h sha256_compress_take [of "cx_h c" b] by simp
    moreover have "length b = 256" using True bl lL by (simp add: b mem_simps)
    ultimately show ?thesis
      using True len by (intro exI [of _ b]) (simp add: sha256_close_def Let_def sha256_trans_def b L flip: i)
  next
    case False
    obtain b0 where b0: "b0 = blit (cx_block c) i (0x80 # replicate (63 - i) 0)" by blast
    have l0: "length b0 = 256" using i64 bl by (simp add: b0 mem_simps)
    obtain b where b: "b = blit (blit b0 0 (replicate 56 0)) 56 L" by blast
    have "take 64 b0 = rest 64 m @ 0x80 # replicate (63 - i) 0"
      using i64 bl r by (simp add: b0 fill_first)
    moreover have "take 64 b = replicate 56 0 @ L" using l0 lL by (simp add: b fill_second)
    ultimately have "H = sha256_compress (sha256_compress (cx_h c) b0) b"
      using chains(2) False h sha256_compress_take [of "cx_h c" b0] sha256_compress_take [of _ b] by simp
    moreover have "length b = 256" using l0 lL by (simp add: b mem_simps)
    ultimately show ?thesis
      using False len by (intro exI [of _ b]) (simp add: sha256_close_def Let_def sha256_trans_def b b0 L flip: i)
  qed
  from cl have H8: "length H = 8" by blast
  then have "length (concat (map unpack32 H)) = 32" by (simp add: length_concat_const)
  then show "take 32 (cx_block (sha256_close c)) = sha256_digest m"
    "length (cx_h (sha256_close c)) = 8" "length (cx_block (sha256_close c)) = 256"
    using cl H8 by (auto simp: blit_def sha256_digest_def H L)
qed

definition sha256_holds :: "hash \<Rightarrow> u8 list \<Rightarrow> bool" where
  "sha256_holds s m \<longleftrightarrow> sha256_context (hs_context s) m \<and> \<not> hs_computed s"

lemma absorbed_start: "length h = 8 \<Longrightarrow> length blk = 256 \<Longrightarrow> take k h = h0 \<Longrightarrow> 0 < B \<Longrightarrow>
    absorbed B k f h0 \<lparr>cx_length = v, cx_h = h, cx_index = 0, cx_block = blk\<rparr> []"
  by (simp add: absorbed_def)

lemma absorbed_sizes: "absorbed B k f h0 (hs_context s) m \<Longrightarrow> array_sizes s"
  by (simp add: absorbed_def array_sizes_def)

interpretation sha256: hash_algorithm array_sizes sha256_holds sha256_reset sha256_input sha256_result sha256_digest "2 ^ 61"
proof
  fix c m bs
  show "sha256_holds (sha256_reset c) []" if "array_sizes c"
    using that by (auto simp: sha256_holds_def sha256_context_def absorbed_def sha256_reset_def array_sizes_def sha256_h0_def)
  show "sha256_holds (sha256_input c bs) (m @ bs)" if "sha256_holds c m"
    using that chunked_inv [of sha256_context 64 sha256_update, OF sha256_update_inv, of "hs_context c" m bs]
    by (simp add: sha256_holds_def sha256_input_def)
  show "snd (sha256_result c) = Some (sha256_digest m)" if "sha256_holds c m"
    using that sha256_close_facts [of "hs_context c" m]
    by (simp add: sha256_holds_def sha256_result_def once_closed_def Let_def)
  show "array_sizes c" if "sha256_holds c m"
    using that absorbed_sizes by (auto simp: sha256_holds_def sha256_context_def)
  show "array_sizes (fst (sha256_result c))" if "sha256_holds c m"
    using that sha256_close_facts [of "hs_context c" m]
    by (simp add: sha256_holds_def sha256_result_def once_closed_def Let_def array_sizes_def)
qed

subsection \<open>SHA-224, SHA-384 and SHA-512\<close>

lemma transforms_blocks:
  assumes step: "\<And>c ms. transf c ms 0 = c"
      "\<And>c ms n. transf c ms (Suc n) = transf (c\<lparr>cx_h := g (cx_h c) (take B ms)\<rparr>) (drop B ms) n"
    and g: "\<And>h ms. length h = 8 \<Longrightarrow> g h ms = f h ms \<and> length (f h ms) = 8" and B: "0 < B"
  shows "transforms B 8 f transf"
proof -
  have "\<exists>h. transf c ms n = c\<lparr>cx_h := h\<rparr> \<and> length h = 8 \<and> take 8 h = chain B f (take 8 (cx_h c)) (take (B * n) ms)"
    if "length (cx_h c) = 8" "B * n \<le> length ms" for c ms n
    using that
  proof (induction n arbitrary: c ms)
    case 0
    then show ?case using B by (auto simp: step intro!: exI [of _ "cx_h c"])
  next
    case (Suc n)
    let ?c = "c\<lparr>cx_h := f (cx_h c) (take B ms)\<rparr>"
    have "length (cx_h ?c) = 8" "B * n \<le> length (drop B ms)" using Suc.prems g by simp_all
    from Suc.IH [OF this] obtain h where h: "transf ?c (drop B ms) n = ?c\<lparr>cx_h := h\<rparr>" "length h = 8"
      "take 8 h = chain B f (take 8 (f (cx_h c) (take B ms))) (take (B * n) (drop B ms))" by auto
    have "take B (take (B * Suc n) ms) = take B ms" "drop B (take (B * Suc n) ms) = take (B * n) (drop B ms)"
      using B by (simp_all add: drop_take min_absorb1)
    then have "chain B f (cx_h c) (take (B * Suc n) ms) = chain B f (f (cx_h c) (take B ms)) (take (B * n) (drop B ms))"
      using B Suc.prems(2) by (subst chain_block) simp_all
    then show ?case
      using h Suc.prems(1) g by (auto simp: step)
  qed
  then show ?thesis by (simp add: transforms_def)
qed

lemma sha256_trans_block_transforms: "transforms 64 8 sha256_compress sha256_trans_block"
  by (rule transforms_blocks [where g = sha256_sub_block]) (simp_all add: sha256_sub_block_compress)

lemma length_sha512_shift: "length (sha512_shift w wv j) = length wv"
  by (simp add: sha512_shift_def Let_def)

lemma length_sha512_sub_block: "length h = 8 \<Longrightarrow> length (sha512_sub_block h ms) = 8"
proof -
  have "length (foldl (sha512_shift w) wv js) = length wv" for w wv js
    by (induction js arbitrary: wv) (simp_all add: length_sha512_shift)
  then show "length h = 8 \<Longrightarrow> length (sha512_sub_block h ms) = 8" by (simp add: sha512_sub_block_def)
qed

lemma sha512_transf_transforms: "transforms 128 8 sha512_sub_block sha512_transf"
  by (rule transforms_blocks [where g = sha512_sub_block]) (simp_all add: length_sha512_sub_block)

definition block_context :: "nat \<Rightarrow> (u64 list \<Rightarrow> u8 list \<Rightarrow> u64 list) \<Rightarrow> u64 list \<Rightarrow> hash_context \<Rightarrow> u8 list \<Rightarrow> bool" where
  "block_context B f h0 c m \<longleftrightarrow> absorbed B 8 f h0 c m \<and> cx_length c = of_nat (length m - length m mod B)"

lemma block_context_update:
  assumes c: "block_context B f h0 c m" and B: "0 < B" "B \<le> 128" and t: "transforms B 8 f transf"
  shows "block_context B f h0 (block_update B transf c msg) (m @ msg)"
proof -
  have a: "absorbed B 8 f h0 c m" and n: "cx_length c = of_nat (length m - length m mod B)"
    using c by (simp_all add: block_context_def)
  obtain i where i: "i = cx_index c" and im: "i = length m mod B" using a by (simp add: absorbed_def)
  have "cx_length (block_update B transf c msg) = of_nat (length (m @ msg) - length (m @ msg) mod B)"
  proof (cases "i + length msg < B")
    case True
    then have "(length m + length msg) mod B = i + length msg"
      using im by (metis mod_add_left_eq mod_less)
    then show ?thesis using True n im by (simp add: block_update_def Let_def flip: i)
  next
    case False
    obtain l where l: "l = length msg - (B - i)" by blast
    obtain q where q: "q = l div B" by blast
    have tl: "cx_length (transf d ms k) = cx_length d" if "length (cx_h d) = 8" "B * k \<le> length ms" for d ms k
      using t [unfolded transforms_def, rule_format, OF that] by auto
    have th: "length (cx_h (transf d ms k)) = 8" if "length (cx_h d) = 8" "B * k \<le> length ms" for d ms k
      using t [unfolded transforms_def, rule_format, OF that] by auto
    have "cx_length (block_update B transf c msg) = cx_length c + of_nat ((q + 1) * B)"
      using False a B im
      by (simp add: block_update_def Let_def tl th absorbed_def mem_simps min_absorb2 l q mult.commute flip: i)
    moreover have "length m - i + (q + 1) * B = length m + length msg - (length m + length msg) mod B"
    proof -
      have iB: "i < B" "i \<le> length m" using im B(1) by (simp_all add: mod_less_eq_dividend)
      have s: "length m + length msg = (length m - i) + B + l" using False iB l by linarith
      have "(length m - i) mod B = 0" by (simp add: im)
      then have "(length m + length msg) mod B = l mod B" unfolding s
        by (metis add.assoc add_cancel_right_left mod_add_left_eq mod_add_self1 plus_nat.add_0)
      then have "length m + length msg - (length m + length msg) mod B = (length m - i) + B + l - l mod B" using s by simp
      also have "\<dots> = length m - i + (B + (l - l mod B))" using mod_less_eq_dividend [of l B] by linarith
      also have "\<dots> = length m - i + (q + 1) * B"
        using minus_mod_eq_mult_div [of l B] by (simp add: q [symmetric] algebra_simps)
      finally show ?thesis by simp
    qed
    ultimately show ?thesis using n im by (metis of_nat_add length_append)
  qed
  then show ?thesis using absorbed_block_update [OF a B t] by (simp add: block_context_def)
qed

text \<open>Filling the last one or two blocks.\<close>

lemma fill_last:
  fixes blk :: "u8 list"
  assumes "length blk = 256" "pm \<le> 256" "i + 5 \<le> pm" "length L = 4"
  shows "take pm (blit ((blit blk i (replicate (pm - i) 0))[i := 0x80]) (pm - 4) L)
    = take i blk @ 0x80 # replicate (pm - i - 5) 0 @ L"
proof -
  have "replicate (pm - i) (0 :: u8) = 0 # replicate (pm - i - 5) 0 @ replicate 4 0"
    using assms(3) by (simp flip: replicate_Suc replicate_add)
  then have "(blit blk i (replicate (pm - i) 0))[i := 0x80]
      = (take i blk @ 0x80 # replicate (pm - i - 5) 0) @ replicate 4 0 @ drop pm blk"
    using assms by (simp add: blit_def list_update_append)
  then show ?thesis using assms by (simp add: blit_def take_Cons')
qed

lemma block_close_facts:
  assumes c: "block_context B f h0 c m" and t: "transforms B 8 f transf"
    and B: "B = 64 \<or> B = 128" "9 \<le> reserved" "reserved \<le> 17" and small: "length m < 2 ^ 29"
    and d: "\<And>h. length h = 8 \<Longrightarrow> length (digest h) \<le> 256"
  shows "\<exists>h. length h = 8 \<and> h = chain B f h0 (m @ pad B reserved (unpack64 (of_nat (8 * length m))) (length m)) \<and>
    take (length (digest h)) (cx_block (block_close B reserved transf digest c)) = digest h \<and>
    length (cx_block (block_close B reserved transf digest c)) = 256 \<and>
    cx_h (block_close B reserved transf digest c) = h"
proof -
  obtain i where i: "i = cx_index c" by blast
  have a: "absorbed B 8 f h0 c m" and n: "cx_length c = of_nat (length m - length m mod B)"
    using c by (simp_all add: block_context_def)
  have im: "i = length m mod B" and bl: "length (cx_block c) = 256" and r: "take i (cx_block c) = rest B m"
    and h: "cx_h c = chain B f h0 m" and h8: "length (cx_h c) = 8"
    using a take_all [of "cx_h c" 8] by (auto simp: absorbed_def i)
  have iB: "i < B" using im B by auto
  obtain nb where nb: "nb = (if B - reserved < i then 2 else 1 :: nat)" by blast
  obtain L :: "u8 list" where L: "L = unpack32 (of_nat (8 * length m) :: u32)" by blast
  have pmB: "nb * B \<le> 256" "i + reserved \<le> nb * B" using nb B iB by auto
  have pd: "pad B reserved (unpack64 (of_nat (8 * length m))) (length m)
      = 0x80 # replicate (nb * B - i - 5) 0 @ L"
  proof -
    have "unpack64 (of_nat (8 * length m)) = replicate 4 0 @ L"
      using unpack64_small [of "8 * length m"] small by (simp add: L)
    moreover have "(B - (length m + reserved) mod B) mod B = nb * B - i - reserved"
      using pad_zeros [OF im, of reserved] B by (auto simp: nb)
    ultimately have "pad B reserved (unpack64 (of_nat (8 * length m))) (length m)
        = 0x80 # replicate (nb * B - i - reserved + (reserved - 9)) 0 @ replicate 4 0 @ L"
      by (simp add: pad_def L)
    also have "replicate (nb * B - i - reserved + (reserved - 9)) 0 @ replicate 4 (0 :: u8) @ L
        = replicate (nb * B - i - reserved + (reserved - 9) + 4) 0 @ L"
      by (simp add: replicate_add)
    also have "nb * B - i - reserved + (reserved - 9) + 4 = nb * B - i - 5" using pmB(2) B(2) by linarith
    finally show ?thesis .
  qed
  have len: "low32 (push_bit 3 (cx_length c + of_nat i)) = of_nat (8 * length m)"
  proof -
    have "cx_length c + of_nat i = of_nat (length m)"
      using n im mod_less_eq_dividend [of "length m" B] by (simp flip: of_nat_add)
    then have "push_bit 3 (cx_length c + of_nat i) = of_nat (8 * length m)" by (simp add: push_bit_eq_mult)
    then show ?thesis by (simp only: low32_of_nat)
  qed
  obtain b where b: "b = blit ((blit (cx_block c) i (replicate (nb * B - i) 0))[i := 0x80]) (nb * B - 4) L" by blast
  have tb: "take (nb * B) b = rest B m @ pad B reserved (unpack64 (of_nat (8 * length m))) (length m)"
  proof -
    have "i + 5 \<le> nb * B" using pmB(2) B(2) by linarith
    moreover have "length L = 4" by (simp add: L)
    ultimately show ?thesis unfolding pd b using fill_last [OF bl pmB(1), of i L] r by simp
  qed
  have lb: "length b = 256" using bl pmB B(2) by (simp add: b L mem_simps)
  obtain H where H: "transf (c\<lparr>cx_block := b\<rparr>) b nb = c\<lparr>cx_block := b, cx_h := H\<rparr>" "length H = 8"
    "take 8 H = chain B f (take 8 (cx_h c)) (take (B * nb) b)"
    using t [unfolded transforms_def, rule_format, of "c\<lparr>cx_block := b\<rparr>" nb b] h8 lb pmB(1)
    by (auto simp: mult.commute)
  have "H = chain B f (chain B f h0 m) (take (nb * B) b)" using H h8 h by (simp add: mult.commute)
  also have "\<dots> = chain B f h0 (m @ pad B reserved (unpack64 (of_nat (8 * length m))) (length m))"
    using B(1) unfolding tb by (intro chain_append [symmetric]) auto
  finally have HH: "H = chain B f h0 (m @ pad B reserved (unpack64 (of_nat (8 * length m))) (length m))" .
  have "block_close B reserved transf digest c = c\<lparr>cx_h := H, cx_block := blit b 0 (digest H)\<rparr>"
  proof -
    have "i mod B = i" using iB by simp
    then show ?thesis using H(1) by (simp add: block_close_def Let_def len b L nb flip: i)
  qed
  then show ?thesis
    using HH H(2) d [OF H(2)] lb by (intro exI [of _ H]) (simp add: blit_def)
qed

text \<open>The digests of the standards; the field of the length has 16 bytes for blocks of 128 bytes.\<close>

definition sha224_digest :: "u8 list \<Rightarrow> u8 list" where
  "sha224_digest m =
     concat (map unpack32 (take 7 (chain 64 sha256_compress sha224_h0 (m @ pad 64 9 (unpack64 (of_nat (8 * length m))) (length m)))))"

definition sha384_digest :: "u8 list \<Rightarrow> u8 list" where
  "sha384_digest m =
     concat (map unpack64 (take 6 (chain 128 sha512_sub_block sha384_h0 (m @ pad 128 17 (unpack64 (of_nat (8 * length m))) (length m)))))"

definition sha512_digest :: "u8 list \<Rightarrow> u8 list" where
  "sha512_digest m =
     concat (map unpack64 (take 8 (chain 128 sha512_sub_block sha512_h0 (m @ pad 128 17 (unpack64 (of_nat (8 * length m))) (length m)))))"

definition block_holds :: "nat \<Rightarrow> (u64 list \<Rightarrow> u8 list \<Rightarrow> u64 list) \<Rightarrow> u64 list \<Rightarrow> hash \<Rightarrow> u8 list \<Rightarrow> bool" where
  "block_holds B f h0 s m \<longleftrightarrow> block_context B f h0 (hs_context s) m \<and> \<not> hs_computed s"

lemma block_algorithm:
  assumes B: "B = 64 \<or> B = 128" "9 \<le> reserved" "reserved \<le> 17" and t: "transforms B 8 f transf"
    and h0: "length h0 = 8"
    and digest: "\<And>h. length h = 8 \<Longrightarrow> length (digest h) = k" "k \<le> 256"
    and reset: "\<And>s. reset s = s\<lparr>hs_context := (hs_context s)\<lparr>cx_h := h0, cx_index := 0, cx_length := 0\<rparr>, hs_computed := False\<rparr>"
    and input: "\<And>s bs. input s bs = s\<lparr>hs_context := chunked B (block_update B transf) (hs_context s) bs\<rparr>"
    and result: "\<And>s. result s = (let s = once_closed (block_close B reserved transf digest) s in (s, Some (take k (cx_block (hs_context s)))))"
    and spec: "\<And>m. spec m = digest (chain B f h0 (m @ pad B reserved (unpack64 (of_nat (8 * length m))) (length m)))"
  shows "hash_algorithm array_sizes (block_holds B f h0) reset input result spec (2 ^ 29)"
proof
  fix c m bs
  have B': "0 < B" "B \<le> 128" using B by auto
  note close = block_close_facts [OF _ t B, of h0 "hs_context c" m digest]
  show "block_holds B f h0 (reset c) []" if "array_sizes c"
    using that h0 B' by (simp add: block_holds_def block_context_def absorbed_def reset array_sizes_def)
  show "block_holds B f h0 (input c bs) (m @ bs)" if "block_holds B f h0 c m"
    using that chunked_inv [of "block_context B f h0" B "block_update B transf", OF block_context_update [OF _ B' t] B'(1), of "hs_context c" m bs]
    by (simp add: block_holds_def input)
  show "snd (result c) = Some (spec m)" if "block_holds B f h0 c m" "length m < 2 ^ 29"
    using that close digest by (auto simp: block_holds_def result spec once_closed_def Let_def)
  show "array_sizes c" if "block_holds B f h0 c m"
    using that absorbed_sizes by (auto simp: block_holds_def block_context_def)
  show "array_sizes (fst (result c))" if "block_holds B f h0 c m" "length m < 2 ^ 29"
    using that close digest by (auto simp: block_holds_def result once_closed_def Let_def array_sizes_def)
qed

interpretation sha224: hash_algorithm array_sizes "block_holds 64 sha256_compress sha224_h0"
  sha224_reset sha224_input sha224_result sha224_digest "2 ^ 29"
  by (rule block_algorithm [where reserved = 9 and k = 28 and transf = sha256_trans_block])
    (auto simp: sha256_trans_block_transforms sha224_h0_def sha224_reset_def sha224_input_def sha224_result_def
       sha224_update_def sha224_close_def sha224_digest_def length_concat_const)

interpretation sha384: hash_algorithm array_sizes "block_holds 128 sha512_sub_block sha384_h0"
  sha384_reset sha384_input sha384_result sha384_digest "2 ^ 29"
  by (rule block_algorithm [where reserved = 17 and k = 48 and transf = sha512_transf])
    (auto simp: sha512_transf_transforms sha384_h0_def sha384_reset_def sha384_input_def sha384_result_def
       sha384_update_def sha384_close_def sha384_digest_def length_concat_const)

interpretation sha512: hash_algorithm array_sizes "block_holds 128 sha512_sub_block sha512_h0"
  sha512_reset sha512_input sha512_result sha512_digest "2 ^ 29"
  by (rule block_algorithm [where reserved = 17 and k = 64 and transf = sha512_transf])
    (auto simp: sha512_transf_transforms sha512_h0_def sha512_reset_def sha512_input_def sha512_result_def
       sha512_update_def sha512_close_def sha512_digest_def length_concat_const)

text \<open>The two functions that process a block for SHA-256, over an array and over named variables, do
  the same.\<close>

theorem sha256_functions_agree:
  assumes "length (cx_h c) = 8"
  shows "sha256_trans_block c message 1 = sha256_trans c message"
  using assms by (simp add: sha256_sub_block_compress sha256_trans_def sha256_compress_take)

theorem sha256_functions_agree_witness:
  "sha256_trans_block \<lparr>cx_length = 0, cx_h = sha256_h0, cx_index = 0, cx_block = []\<rparr> (replicate 64 7) 1
   = sha256_trans \<lparr>cx_length = 0, cx_h = sha256_h0, cx_index = 0, cx_block = []\<rparr> (replicate 64 7)"
  by (rule sha256_functions_agree) (simp add: sha256_h0_def)

end
