(* ===== verification/Hash_Legacy.thy ===== *)
theory Hash_Legacy
  imports Hash_Properties
begin

text \<open>
  SHA-1 and MD5, which keep the length of the message in bytes as two halves, and interpret the
  contract of a hash algorithm as well (MD5 on the architectures that tolerate unaligned accesses).
\<close>

subsection \<open>The length in two halves\<close>

text \<open>The lower half has 29 bits, the upper half counts its overflows.\<close>

definition split_length :: "nat \<Rightarrow> u64" where
  "split_length n = join32 (of_nat (n div 2 ^ 29)) (of_nat (n mod 2 ^ 29))"

lemma bit_u32: "32 \<le> n \<Longrightarrow> \<not> bit (w :: u32) n"
  using bit_imp_le_length [of w n] by auto

lemma low32_join32 [simp]: "low32 (join32 h l) = l"
  unfolding low32_def join32_def by (rule bit_word_eqI) (auto simp: bit_simps)

lemma high32_join32 [simp]: "high32 (join32 h l) = h"
  unfolding high32_def join32_def by (rule bit_word_eqI) (auto simp: bit_simps bit_u32)

lemma unat_join32: "unat (join32 h l) = unat h * 2 ^ 32 + unat l"
proof -
  have "join32 h l = push_bit 32 (ucast h) + ucast l"
    unfolding join32_def
    by (subst disjunctive_add_eq_or) (auto simp: bit_simps bit_u32 intro!: bit_word_eqI)
  moreover have "unat h < 2 ^ LENGTH(32)" "unat l < 2 ^ LENGTH(32)" by (rule unsigned_less)+
  then have "unat h < 4294967296" "unat l < 4294967296" by simp_all
  ultimately show ?thesis
    by (simp add: unat_word_ariths unsigned_push_bit_eq unsigned_ucast_eq take_bit_eq_mod push_bit_eq_mult)
qed

lemma unat_of_nat32: "k < 2 ^ 32 \<Longrightarrow> unat (of_nat k :: u32) = k"
  and unat_of_nat64: "k < 2 ^ 64 \<Longrightarrow> unat (of_nat k :: u64) = k"
  by (simp_all add: unsigned_of_nat take_bit_eq_mod)

lemma join32_of_nat:
  assumes "h < 2 ^ 32" "l < 2 ^ 29"
  shows "join32 (of_nat h) (push_bit 3 (of_nat l)) = of_nat (8 * (h * 2 ^ 29 + l))"
proof -
  have "push_bit 3 (of_nat l :: u32) = of_nat (8 * l)" by (simp add: push_bit_eq_mult)
  moreover have "unat (of_nat (8 * l) :: u32) = 8 * l" by (rule unat_of_nat32) (use assms in simp)
  moreover have "unat (of_nat (8 * (h * 2 ^ 29 + l)) :: u64) = 8 * (h * 2 ^ 29 + l)"
    by (rule unat_of_nat64) (use assms in simp)
  ultimately show ?thesis
    by (simp only: word_unat_eq_iff unat_join32 unat_of_nat32 [OF assms(1)]) simp
qed

lemma bits_of_length:
  assumes "n < 2 ^ 61"
  shows "join32 (of_nat (n div 2 ^ 29)) (push_bit 3 (of_nat (n mod 2 ^ 29))) = of_nat (8 * n)"
proof -
  have "n div 2 ^ 29 < 2 ^ 32" using assms by (simp add: div_less_iff_less_mult)
  moreover have "n mod 2 ^ 29 < 2 ^ 29" by simp
  ultimately show ?thesis by (simp only: join32_of_nat div_mult_mod_eq)
qed

lemma div_mod_add:
  fixes n k :: nat
  assumes "k < M"
  shows "(n + k) div M = n div M + (if (n + k) mod M < n mod M then 1 else 0)"
proof -
  obtain q r where qr: "n = q * M + r" "r < M" using assms by (metis div_mult_mod_eq mod_less_divisor gr_zeroI not_less_zero)
  have dm: "s < M \<Longrightarrow> (p * M + s) div M = p \<and> (p * M + s) mod M = s" for p s by simp
  show ?thesis
  proof (cases "r + k < M")
    case True
    obtain s where s: "s = r + k" by blast
    have "n + k = q * M + s" by (simp add: qr s)
    moreover have "s < M" using True s by simp
    ultimately have "(n + k) div M = q" "(n + k) mod M = s" by simp_all
    then show ?thesis using qr s by simp
  next
    case False
    have "n + k = (q + 1) * M + (r + k - M)" using False by (simp add: qr)
    moreover have "r + k - M < M" using qr(2) assms by linarith
    ultimately have "(n + k) div M = q + 1" "(n + k) mod M = r + k - M" using dm [of "r + k - M" "q + 1"] by argo+
    moreover have "r + k - M < r" using assms False by linarith
    ultimately show ?thesis using qr by simp
  qed
qed

lemma split_length_Suc:
  assumes "n + 1 < 2 ^ 61"
  shows "(let low = (of_nat (n mod 2 ^ 29) :: u32) + 1; high = (of_nat (n div 2 ^ 29) :: u32) in
      if low = 0x20000000 then (0, high + 1, high + 1 = 0) else (low, high, False))
    = (of_nat ((n + 1) mod 2 ^ 29), of_nat ((n + 1) div 2 ^ 29), False)"
proof -
  have l: "(of_nat (n mod 2 ^ 29) :: u32) + 1 = of_nat (n mod 2 ^ 29 + 1)" by simp
  have "n mod 536870912 < 536870912" by simp
  then have "n mod 536870912 + 1 < 4294967296" by linarith
  then have "unat (of_nat (n mod 2 ^ 29 + 1) :: u32) = n mod 2 ^ 29 + 1" by (intro unat_of_nat32) simp
  then have eq: "(of_nat (n mod 2 ^ 29 + 1) :: u32) = 0x20000000 \<longleftrightarrow> n mod 2 ^ 29 + 1 = 2 ^ 29"
    by (simp only: word_unat_eq_iff) simp
  show ?thesis
  proof (cases "n mod 2 ^ 29 + 1 = 2 ^ 29")
    case True
    then have d: "(n + 1) mod 2 ^ 29 = 0" "(n + 1) div 2 ^ 29 = n div 2 ^ 29 + 1"
      by (simp_all add: mod_Suc div_Suc)
    have "(n + 1) div 2 ^ 29 < 2 ^ 32" using assms by (simp add: div_less_iff_less_mult)
    then have "n div 2 ^ 29 + 1 < 2 ^ 32" using d by simp
    then have "unat (of_nat (n div 2 ^ 29 + 1) :: u32) = n div 2 ^ 29 + 1" by (rule unat_of_nat32)
    then have "(of_nat (n div 2 ^ 29 + 1) :: u32) \<noteq> 0" by (simp only: word_unat_eq_iff) simp
    then show ?thesis using True eq l d by (simp add: Let_def add.commute)
  next
    case False
    then have "(n + 1) mod 2 ^ 29 = n mod 2 ^ 29 + 1" "(n + 1) div 2 ^ 29 = n div 2 ^ 29"
      by (simp_all add: mod_Suc div_Suc)
    then show ?thesis using False eq l by (simp add: Let_def)
  qed
qed

subsection \<open>SHA-1\<close>

lemma sha1_W_take: "sha1_W (take 64 blk) = sha1_W blk"
proof -
  have "map (sha1_word (take 64 blk)) [0..<16] = map (sha1_word blk) [0..<16]"
    by (simp add: sha1_word_def)
  then show ?thesis by (simp only: sha1_W_def)
qed

lemma sha1_compress_take: "sha1_compress (take 5 h) blk = sha1_compress h blk" "sha1_compress h (take 64 blk) = sha1_compress h blk"
  by (simp_all add: sha1_compress_def sha1_W_take)

lemma length_sha1_compress [simp]: "length (sha1_compress h ms) = 5"
  by (simp add: sha1_compress_def split: prod.splits)

definition sha1_digest :: "u8 list \<Rightarrow> u8 list" where
  "sha1_digest m =
     concat (map (\<lambda>v. unpack32 (low32 v)) (chain 64 sha1_compress sha1_h0 (m @ pad 64 9 (unpack64 (of_nat (8 * length m))) (length m))))"

definition sha1_holds :: "hash \<Rightarrow> u8 list \<Rightarrow> bool" where
  "sha1_holds s m \<longleftrightarrow> absorbed 64 5 sha1_compress sha1_h0 (hs_context s) m \<and>
     cx_length (hs_context s) = split_length (length m) \<and> \<not> hs_computed s \<and> \<not> hs_corrupted s"

lemma take_blit [simp]: "length src = n \<Longrightarrow> take n (blit dst 0 src) = src"
  by (simp add: blit_def)

lemma sha1_process_absorbs:
  assumes "absorbed 64 5 sha1_compress sha1_h0 c m" "cx_index c + 1 = 64"
  shows "absorbed 64 5 sha1_compress sha1_h0
    ((sha1_process (c\<lparr>cx_block := (cx_block c)[cx_index c := b], cx_index := cx_index c + 1\<rparr>))\<lparr>cx_index := 0\<rparr>) (m @ [b])"
proof -
  have "sha1_compress (chain 64 sha1_compress sha1_h0 m) v = sha1_compress (cx_h c) v" for v
    using assms(1) sha1_compress_take(1) [of "cx_h c" v] by (simp add: absorbed_def)
  then show ?thesis
    by (intro absorbed_last_byte [OF assms(1) _ assms(2)])
      (use assms in \<open>simp_all add: sha1_process_def absorbed_def mem_simps sha1_compress_take\<close>)
qed

lemma sha1_bytes_absorb:
  assumes "absorbed 64 5 sha1_compress sha1_h0 c m" "length m + length bs < 2 ^ 61"
  shows "\<exists>c'. sha1_bytes bs c (of_nat (length m mod 2 ^ 29)) (of_nat (length m div 2 ^ 29)) False
      = (c', of_nat (length (m @ bs) mod 2 ^ 29), of_nat (length (m @ bs) div 2 ^ 29), False)
    \<and> absorbed 64 5 sha1_compress sha1_h0 c' (m @ bs)"
  using assms
proof (induction bs arbitrary: c m)
  case (Cons b bs)
  obtain n where n: "n = length m" by blast
  have nb: "n + 1 < 2 ^ 61" using Cons.prems(2) by (simp add: n)
  obtain c1 where c1: "c1 = c\<lparr>cx_block := (cx_block c)[cx_index c := b], cx_index := cx_index c + 1\<rparr>" by blast
  obtain c2 where c2: "c2 = (if cx_index c1 = 64 then (sha1_process c1)\<lparr>cx_index := 0\<rparr> else c1)" by blast
  have i: "cx_index c < 64" using Cons.prems(1) by (simp add: absorbed_def)
  have a: "absorbed 64 5 sha1_compress sha1_h0 c2 (m @ [b])"
  proof (cases "cx_index c + 1 = 64")
    case True
    then show ?thesis using sha1_process_absorbs [OF Cons.prems(1) True, of b] by (simp add: c2 c1)
  next
    case False
    then show ?thesis using absorbed_byte [OF Cons.prems(1), of b] i by (simp add: c2 c1)
  qed
  note lh = split_length_Suc [OF nb]
  have "sha1_bytes (b # bs) c (of_nat (n mod 2 ^ 29)) (of_nat (n div 2 ^ 29)) False
      = sha1_bytes bs c2 (of_nat ((n + 1) mod 2 ^ 29)) (of_nat ((n + 1) div 2 ^ 29)) False"
    using lh by (simp add: Let_def c1 c2 split: if_splits)
  then show ?case using Cons.IH [OF a] Cons.prems(2) by (simp add: n)
qed simp

lemma set_blit: "k + 1 + length xs \<le> length dst \<Longrightarrow> blit (dst[k := a]) (k + 1) xs = blit dst k (a # xs)"
  by (simp add: blit_def take_update_snoc)

lemma unpack32_shifted:
  "[ucast (drop_bit 24 (h :: u32) AND 0xFF), ucast (drop_bit 16 h AND 0xFF), ucast (drop_bit 8 h AND 0xFF), ucast (h AND 0xFF),
      ucast (drop_bit 21 l AND 0xFF), ucast (drop_bit 13 l AND 0xFF), ucast (drop_bit 5 l AND 0xFF), ucast (push_bit 3 l AND 0xFF) :: u8]
    = unpack32 h @ unpack32 (push_bit 3 l)"
  for l :: u32
  unfolding unpack32_def append.simps list.inject
  by (intro conjI refl; rule byte_eqI; simp add: bit_simps)

lemma sha1_pad_facts:
  assumes "sha1_holds s m" "length m < 2 ^ 61"
  shows "take 20 (cx_block (hs_context (sha1_pad s))) = sha1_digest m" "array_sizes (sha1_pad s)"
proof -
  obtain c where c: "c = hs_context s" by blast
  obtain i where i: "i = cx_index c" by blast
  have a: "absorbed 64 5 sha1_compress sha1_h0 c m" and n: "cx_length c = split_length (length m)"
    using assms(1) by (simp_all add: sha1_holds_def c)
  have im: "i = length m mod 64" and bl: "length (cx_block c) = 256" and r: "take i (cx_block c) = rest 64 m"
    and h: "take 5 (cx_h c) = chain 64 sha1_compress sha1_h0 m" and h8: "length (cx_h c) = 8"
    using a by (auto simp: absorbed_def i)
  have i64: "i < 64" using im by simp
  obtain L where L: "L = unpack64 (of_nat (8 * length m))" by blast
  have lL: "length L = 8" by (simp add: L)
  have bytes: "[ucast (drop_bit 24 (high32 (cx_length c)) AND 0xFF), ucast (drop_bit 16 (high32 (cx_length c)) AND 0xFF),
      ucast (drop_bit 8 (high32 (cx_length c)) AND 0xFF), ucast (high32 (cx_length c) AND 0xFF),
      ucast (drop_bit 21 (low32 (cx_length c)) AND 0xFF), ucast (drop_bit 13 (low32 (cx_length c)) AND 0xFF),
      ucast (drop_bit 5 (low32 (cx_length c)) AND 0xFF), ucast (push_bit 3 (low32 (cx_length c)) AND 0xFF)] = L"
    unfolding unpack32_shifted L bits_of_length [OF assms(2), symmetric] n split_length_def unpack64_split
    by simp
  obtain H where H: "H = chain 64 sha1_compress sha1_h0 (m @ pad 64 9 L (length m))" by blast
  note chains = chain_pad [OF im lL, of sha1_compress sha1_h0, folded H]
  have "\<exists>b h'. length b = 256 \<and> length h' = 8 \<and> take 5 h' = H \<and> length H = 5 \<and>
    cx_block (hs_context (sha1_pad s)) = blit b 0 (concat (map (\<lambda>v. unpack32 (low32 v)) H)) \<and>
    cx_h (hs_context (sha1_pad s)) = h'"
  proof (cases "i > 55")
    case False
    obtain b where b: "b = blit (blit (cx_block c) i (0x80 # replicate (55 - i) 0)) 56 L" by blast
    have "take 64 b = rest 64 m @ 0x80 # replicate (55 - i) 0 @ L"
      using False bl lL r by (simp add: b fill_one)
    then have "H = sha1_compress (cx_h c) b"
      using chains(1) False sha1_compress_take(2) [of "cx_h c" b] sha1_compress_take(1) [of "cx_h c"] h by simp
    moreover have "length b = 256" using False bl lL by (simp add: b mem_simps)
    moreover have "blit ((cx_block c)[i := 0x80]) (i + 1) (replicate (56 - (i + 1)) 0) = blit (cx_block c) i (0x80 # replicate (55 - i) 0)"
      using False bl by (subst set_blit) simp_all
    ultimately show ?thesis
      using False h8 by (intro exI [of _ b] exI [of _ "blit (cx_h c) 0 H"])
        (simp add: sha1_pad_def Let_def sha1_process_def b bytes mem_simps flip: i c)
  next
    case True
    obtain b0 where b0: "b0 = blit (cx_block c) i (0x80 # replicate (63 - i) 0)" by blast
    have l0: "length b0 = 256" using i64 bl by (simp add: b0 mem_simps)
    obtain b where b: "b = blit (blit b0 0 (replicate 56 0)) 56 L" by blast
    have "take 64 b0 = rest 64 m @ 0x80 # replicate (63 - i) 0"
      using i64 bl r by (simp add: b0 fill_first)
    moreover have "take 64 b = replicate 56 0 @ L" using l0 lL by (simp add: b fill_second)
    ultimately have "H = sha1_compress (sha1_compress (cx_h c) b0) b"
      using chains(2) True sha1_compress_take(2) [of "cx_h c" b0] sha1_compress_take(2) [of _ b]
        sha1_compress_take(1) [of "cx_h c"] h by simp
    moreover have "sha1_compress (blit (cx_h c) 0 (sha1_compress (cx_h c) b0)) b = sha1_compress (sha1_compress (cx_h c) b0) b"
      by (subst sha1_compress_take(1) [symmetric]) simp
    moreover have "length b = 256" using l0 lL by (simp add: b mem_simps)
    moreover have "blit ((cx_block c)[i := 0x80]) (i + 1) (replicate (64 - (i + 1)) 0) = b0"
      using i64 bl by (subst set_blit) (simp_all add: b0)
    ultimately show ?thesis
      using True h8 by (intro exI [of _ b] exI [of _ "blit (blit (cx_h c) 0 (sha1_compress (cx_h c) b0)) 0 H"])
        (simp add: sha1_pad_def Let_def sha1_process_def b bytes mem_simps flip: i c)
  qed
  then obtain b h' where *: "length b = 256" "length h' = 8" "take 5 h' = H" "length H = 5"
    "cx_block (hs_context (sha1_pad s)) = blit b 0 (concat (map (\<lambda>v. unpack32 (low32 v)) H))"
    "cx_h (hs_context (sha1_pad s)) = h'" by auto
  moreover have "length (concat (map (\<lambda>v. unpack32 (low32 v)) H)) = 20" using * by (simp add: length_concat_const)
  ultimately show "take 20 (cx_block (hs_context (sha1_pad s))) = sha1_digest m" "array_sizes (sha1_pad s)"
    by (simp_all add: blit_def sha1_digest_def H L array_sizes_def)
qed

interpretation sha1: hash_algorithm array_sizes sha1_holds sha1_reset sha1_input sha1_result sha1_digest "2 ^ 61"
proof
  fix c m bs
  show "sha1_holds (sha1_reset c) []" if "array_sizes c"
    using that
    by (auto simp: sha1_holds_def absorbed_def sha1_reset_def array_sizes_def sha1_h0_def mem_simps blit_def
        split_length_def join32_def)
  show "sha1_holds (sha1_input c bs) (m @ bs)" if c: "sha1_holds c m" and l: "length m + length bs < 2 ^ 61"
  proof -
    have a: "absorbed 64 5 sha1_compress sha1_h0 (hs_context c) m" using c by (simp add: sha1_holds_def)
    obtain c' where "sha1_bytes bs (hs_context c) (of_nat (length m mod 2 ^ 29)) (of_nat (length m div 2 ^ 29)) False
      = (c', of_nat (length (m @ bs) mod 2 ^ 29), of_nat (length (m @ bs) div 2 ^ 29), False)"
      "absorbed 64 5 sha1_compress sha1_h0 c' (m @ bs)"
      using sha1_bytes_absorb [OF a l] by blast
    then show ?thesis using c by (simp add: sha1_holds_def sha1_input_def split_length_def)
  qed
  show "snd (sha1_result c) = Some (sha1_digest m)" if "sha1_holds c m" "length m < 2 ^ 61"
    using that sha1_pad_facts [OF that] by (simp add: sha1_holds_def sha1_result_def Let_def)
  show "array_sizes c" if "sha1_holds c m"
    using that absorbed_sizes by (auto simp: sha1_holds_def)
  show "array_sizes (fst (sha1_result c))" if "sha1_holds c m" "length m < 2 ^ 61"
    using that sha1_pad_facts [OF that] by (simp add: sha1_holds_def sha1_result_def Let_def)
qed

subsection \<open>MD5\<close>

text \<open>The compression function on the four words that MD5 uses.\<close>

definition md5_compress :: "u64 list \<Rightarrow> u8 list \<Rightarrow> u64 list" where
  "md5_compress h blk =
     (case md5_block True (low32 (h ! 0), low32 (h ! 1), low32 (h ! 2), low32 (h ! 3)) blk of
        (a, b, c, d) \<Rightarrow> [ucast a, ucast b, ucast c, ucast d])"

definition md5_digest :: "u8 list \<Rightarrow> u8 list" where
  "md5_digest m =
     concat (map (\<lambda>v. unpack32_le (low32 v)) (chain 64 md5_compress md5_h0 (m @ pad 64 9 (rev (unpack64 (of_nat (8 * length m)))) (length m))))"

lemma md5_compress_take: "md5_compress (take 4 h) blk = md5_compress h blk" "md5_compress h (take 64 blk) = md5_compress h blk"
proof -
  have "map (md5_word True (take 64 blk)) [0..<16] = map (md5_word True blk) [0..<16]"
    by (simp add: md5_word_def)
  then show "md5_compress h (take 64 blk) = md5_compress h blk"
    by (simp only: md5_compress_def md5_block_def)
qed (simp add: md5_compress_def)

lemma length_md5_compress [simp]: "length (md5_compress h ms) = 4"
  by (simp add: md5_compress_def split: prod.splits)

lemma low32_ucast [simp]: "low32 (ucast a) = a"
  unfolding low32_def by (rule bit_word_eqI) (auto simp: bit_simps)

text \<open>The words of the registers.\<close>

definition md5_words :: "md5_regs \<Rightarrow> u64 list" where
  "md5_words r = (case r of (a, b, c, d) \<Rightarrow> [ucast a, ucast b, ucast c, ucast d])"

lemma md5_compress_words: "md5_compress (md5_words r) blk = md5_words (md5_block True r (take 64 blk))"
proof -
  obtain a b c d where "r = (a, b, c, d)" by (cases r)
  then have "md5_compress (md5_words r) (take 64 blk) = md5_words (md5_block True r (take 64 blk))"
    by (simp add: md5_compress_def md5_words_def numeral_eq_Suc)
  then show ?thesis by (simp only: md5_compress_take)
qed

lemma md5_blocks_chain:
  "64 * n \<le> length ms \<Longrightarrow> \<exists>r'. md5_blocks True n r ms blk = (r', blk) \<and> md5_words r' = chain 64 md5_compress (md5_words r) (take (64 * n) ms)"
proof (induction n arbitrary: r ms)
  case (Suc n)
  have b: "md5_block True r (take 64 ms) = md5_block True r ms"
  proof -
    have "map (md5_word True (take 64 ms)) [0..<16] = map (md5_word True ms) [0..<16]" by (simp add: md5_word_def)
    then show ?thesis by (simp only: md5_block_def)
  qed
  have "64 * n \<le> length (drop 64 ms)" using Suc.prems by simp
  from Suc.IH [OF this, of "md5_block True r ms"] obtain r' where
    r': "md5_blocks True n (md5_block True r ms) (drop 64 ms) blk = (r', blk)"
    "md5_words r' = chain 64 md5_compress (md5_words (md5_block True r ms)) (take (64 * n) (drop 64 ms))" by blast
  have "take 64 (take (64 * Suc n) ms) = take 64 ms" "drop 64 (take (64 * Suc n) ms) = take (64 * n) (drop 64 ms)"
    by (simp_all add: drop_take min_absorb1)
  then have "chain 64 md5_compress (md5_words r) (take (64 * Suc n) ms)
      = chain 64 md5_compress (md5_compress (md5_words r) ms) (take (64 * n) (drop 64 ms))"
    using Suc.prems by (subst chain_block) (simp_all add: md5_compress_take)
  then show ?case using r' by (simp add: md5_set_def md5_compress_words b)
qed simp

lemma md5_body_chain:
  assumes "0 < n" "64 * n \<le> length d" "length (cx_h c) = 8"
  shows "\<exists>h. md5_body True c d (64 * n) = c\<lparr>cx_h := h\<rparr> \<and> length h = 8
    \<and> take 4 h = chain 64 md5_compress (take 4 (cx_h c)) (take (64 * n) d)"
proof -
  obtain h where h: "h = cx_h c" by blast
  obtain r where r: "r = (low32 (h ! 0), low32 (h ! 1), low32 (h ! 2), low32 (h ! 3))" by blast
  obtain r' where r': "md5_blocks True n r d (cx_block c) = (r', cx_block c)"
    "md5_words r' = chain 64 md5_compress (md5_words r) (take (64 * n) d)"
    using md5_blocks_chain [OF assms(2)] by blast
  have "md5_compress (md5_words r) v = md5_compress (take 4 h) v" for v
    unfolding md5_compress_take(1) by (simp add: md5_compress_def md5_words_def r numeral_eq_Suc)
  moreover have "64 \<le> length (take (64 * n) d)" using assms(1,2) by simp
  ultimately have "md5_words r' = chain 64 md5_compress (take 4 h) (take (64 * n) d)"
    unfolding r'(2) by (simp add: chain_block)
  moreover have "md5_body True c d (64 * n) = c\<lparr>cx_h := blit h 0 (md5_words r')\<rparr>"
  proof -
    obtain a b c' d' where "r' = (a, b, c', d')" by (cases r')
    then show ?thesis using r'(1) by (simp add: md5_body_def Let_def md5_words_def r flip: h)
  qed
  moreover have "length (md5_words r') = 4" by (simp add: md5_words_def split: prod.splits)
  ultimately show ?thesis using assms(3) by (intro exI [of _ "blit h 0 (md5_words r')"]) (simp add: mem_simps h)
qed

definition md5_core :: "hash_context \<Rightarrow> u8 list \<Rightarrow> bool" where
  "md5_core c m \<longleftrightarrow> length (cx_h c) = 8 \<and> length (cx_block c) = 256 \<and>
     take 4 (cx_h c) = chain 64 md5_compress md5_h0 m \<and> take (length m mod 64) (cx_block c) = rest 64 m"

lemma md5_core_length [simp]: "md5_core (c\<lparr>cx_length := v\<rparr>) m = md5_core c m"
  by (simp add: md5_core_def)

lemma md5_core_aligned:
  assumes "md5_core c m" "length m mod 64 = 0" "0 < n" "64 * n \<le> length d"
  shows "md5_core (md5_body True c d (64 * n)) (m @ take (64 * n) d)"
proof -
  obtain h where h: "md5_body True c d (64 * n) = c\<lparr>cx_h := h\<rparr>" "length h = 8"
    "take 4 h = chain 64 md5_compress (take 4 (cx_h c)) (take (64 * n) d)"
  proof -
    have "length (cx_h c) = 8" using assms(1) by (simp add: md5_core_def)
    from md5_body_chain [OF assms(3,4) this] show ?thesis using that by blast
  qed
  have "rest 64 m = []" using assms(2) by (simp add: rest_def)
  then have "chain 64 md5_compress md5_h0 (m @ take (64 * n) d) = take 4 h"
    using h(3) assms(1) by (simp add: chain_append [of 64 _ _ m] md5_core_def)
  moreover have z: "(length m + 64 * n) mod 64 = 0" using assms(2) by (simp add: mod_add_eq [symmetric])
  moreover have "rest 64 (m @ take (64 * n) d) = []" using z assms(4) by (simp add: rest_def min_absorb2)
  ultimately show ?thesis using h assms(1,4) by (simp add: md5_core_def min_absorb2)
qed

lemma md5_core_full:
  assumes "md5_core c m" "length m mod 64 + length p = 64" "p \<noteq> []"
  shows "md5_core (md5_body True (c\<lparr>cx_block := blit (cx_block c) (length m mod 64) p\<rparr>) (blit (cx_block c) (length m mod 64) p) 64) (m @ p)"
proof -
  obtain b where b: "b = blit (cx_block c) (length m mod 64) p" by blast
  have bl: "length b = 256" and bt: "take 64 b = rest 64 m @ p"
    using assms blit_at [of "length m mod 64" p "cx_block c"] by (auto simp: b md5_core_def mem_simps)
  obtain h where h: "md5_body True (c\<lparr>cx_block := b\<rparr>) b 64 = c\<lparr>cx_block := b, cx_h := h\<rparr>" "length h = 8"
    "take 4 h = chain 64 md5_compress (take 4 (cx_h c)) (take 64 b)"
    using md5_body_chain [of 1 b "c\<lparr>cx_block := b\<rparr>"] bl assms(1) by (auto simp: md5_core_def)
  have "chain 64 md5_compress md5_h0 (m @ p) = take 4 h"
    using h(3) assms(1) bt by (simp add: chain_append [of 64 _ _ m] md5_core_def)
  moreover have "(length m + length p) mod 64 = 0" using assms(2) by (metis mod_add_left_eq mod_self)
  moreover have "rest 64 (m @ p) = []" using calculation(2) by (simp add: rest_def)
  ultimately show ?thesis using h bl by (simp add: md5_core_def flip: b)
qed

lemma md5_core_short:
  assumes "md5_core c m" "length m mod 64 + length d < 64"
  shows "md5_core (c\<lparr>cx_block := blit (cx_block c) (length m mod 64) d\<rparr>) (m @ d)"
proof -
  have "take (length m mod 64 + length d) (blit (cx_block c) (length m mod 64) d) = rest 64 m @ d"
    using assms by (subst blit_at) (auto simp: md5_core_def)
  moreover have "(length m + length d) mod 64 = length m mod 64 + length d" using assms(2) by (metis mod_add_left_eq mod_less)
  moreover have "chain 64 md5_compress md5_h0 (m @ d) = chain 64 md5_compress md5_h0 m" "rest 64 (m @ d) = rest 64 m @ d"
    using assms(2) by (simp_all add: chain_append [of 64 _ _ m] rest_append [of 64 m])
  ultimately show ?thesis using assms by (simp add: md5_core_def mem_simps)
qed

lemma unat_and_3F: "unat (w AND 0x3F) = unat w mod 64" for w :: u32
proof -
  have "w AND 0x3F = take_bit 6 w" by (simp add: take_bit_eq_mask mask_eq_exp_minus_1)
  then show ?thesis by (simp only: unsigned_take_bit_eq) (simp add: take_bit_eq_mod)
qed

lemma md5_length_step:
  fixes n k :: nat
  assumes "k \<le> 512"
  defines "saved \<equiv> of_nat (n mod 2 ^ 29) :: u32"
  defines "low \<equiv> ucast ((ucast saved + of_nat k :: u64) AND 0x1FFFFFFF) :: u32"
  shows "low = of_nat ((n + k) mod 2 ^ 29)"
    "of_nat (n div 2 ^ 29) + (if of_nat ((n + k) mod 2 ^ 29) < saved then 1 else 0) + ucast (drop_bit 29 (of_nat k :: u64))
      = (of_nat ((n + k) div 2 ^ 29) :: u32)"
    "unat (saved AND 0x3F) = n mod 64"
proof -
  have small: "n mod 2 ^ 29 < 2 ^ 32" "(n + k) mod 2 ^ 29 < 2 ^ 32" by (rule less_trans [OF mod_less_divisor]; simp)+
  have s: "unat saved = n mod 2 ^ 29" unfolding saved_def by (rule unat_of_nat32) (rule small)
  have "n mod 536870912 < 536870912" by simp
  then have sum: "n mod 2 ^ 29 + k < 2 ^ 64" using assms(1) by simp
  have "(ucast saved :: u64) = of_nat (unat saved)" by (rule of_nat_unat [symmetric])
  then have "(ucast saved + of_nat k :: u64) = of_nat (n mod 2 ^ 29 + k)"
    unfolding s by (simp only: of_nat_add)
  moreover have "v AND 0x1FFFFFFF = take_bit 29 v" for v :: u64 by (simp add: take_bit_eq_mask mask_eq_exp_minus_1)
  ultimately have "unat ((ucast saved + of_nat k :: u64) AND 0x1FFFFFFF) = take_bit 29 (n mod 2 ^ 29 + k)"
    using sum by (simp only: unsigned_take_bit_eq unat_of_nat64)
  then have "unat ((ucast saved + of_nat k :: u64) AND 0x1FFFFFFF) = (n + k) mod 2 ^ 29"
    by (simp only: take_bit_eq_mod mod_add_left_eq)
  then have u: "unat low = (n + k) mod 2 ^ 29"
    using small(2) unfolding low_def by (simp only: unsigned_ucast_eq) (simp add: take_bit_eq_mod)
  then show l: "low = of_nat ((n + k) mod 2 ^ 29)"
    by (simp only: word_unat_eq_iff unat_of_nat32 [OF small(2)])
  have "drop_bit 29 (of_nat k :: u64) = 0"
    unfolding word_unat_eq_iff unat_drop_bit_eq using assms(1) by (simp add: unat_of_nat64 drop_bit_eq_div)
  moreover have "k < 2 ^ 29" using assms(1) by simp
  ultimately show "of_nat (n div 2 ^ 29) + (if of_nat ((n + k) mod 2 ^ 29) < saved then 1 else 0) + ucast (drop_bit 29 (of_nat k :: u64))
      = (of_nat ((n + k) div 2 ^ 29) :: u32)"
    unfolding l [symmetric]
    using div_mod_add [of k "2 ^ 29" n] by (simp only: word_less_nat_alt u s) simp
  have "n mod 2 ^ 29 mod 64 = n mod 64" by (rule mod_mod_cancel) simp
  then show "unat (saved AND 0x3F) = n mod 64" by (simp only: unat_and_3F s)
qed

definition md5_context :: "hash_context \<Rightarrow> u8 list \<Rightarrow> bool" where
  "md5_context c m \<longleftrightarrow> md5_core c m \<and> cx_length c = split_length (length m)"

text \<open>\<open>MD5_Update\<close> behind the bookkeeping of the length: the whole blocks and the rest of the data.\<close>

definition md5_tail :: "hash_context \<Rightarrow> u8 list \<Rightarrow> hash_context" where
  "md5_tail c data =
     (let size' = length data;
          (c, data) =
            (if 64 \<le> size'
             then (md5_body True c data (size' - size' mod 64), drop (size' - size' mod 64) data)
             else (c, data))
      in c\<lparr>cx_block := blit (cx_block c) 0 data\<rparr>)"

definition md5_absorb :: "nat \<Rightarrow> hash_context \<Rightarrow> u8 list \<Rightarrow> hash_context" where
  "md5_absorb used c data =
     (let available = 64 - used in
      if used \<noteq> 0 \<and> length data < available then c\<lparr>cx_block := blit (cx_block c) used data\<rparr>
      else if used \<noteq> 0 then
        let c = c\<lparr>cx_block := blit (cx_block c) used (take available data)\<rparr>
        in md5_tail (md5_body True c (cx_block c) 64) (drop available data)
      else md5_tail c data)"

lemma md5_core_tail:
  assumes "md5_core c m" "length m mod 64 = 0"
  shows "md5_core (md5_tail c d) (m @ d)"
proof (cases "64 \<le> length d")
  case False
  then show ?thesis using md5_core_short [OF assms(1), of d] assms(2) by (simp add: md5_tail_def)
next
  case True
  obtain n where n: "length d - length d mod 64 = 64 * n" by (metis minus_mod_eq_mult_div)
  have n0: "0 < n" using True n mod_less_divisor [of 64 "length d"] by (cases n) auto
  have ln: "64 * n \<le> length d" using n by (metis diff_le_self)
  obtain c' where c': "c' = md5_body True c d (64 * n)" by blast
  have a: "md5_core c' (m @ take (64 * n) d)" unfolding c' by (rule md5_core_aligned [OF assms n0 ln])
  have "length d - 64 * n = length d mod 64" using n mod_less_eq_dividend [of "length d" 64] by linarith
  then have "length (drop (64 * n) d) < 64" by simp
  moreover have "length (m @ take (64 * n) d) mod 64 = 0" using assms(2) ln by (simp add: min_absorb2 mod_add_eq [symmetric])
  ultimately have "md5_core (c'\<lparr>cx_block := blit (cx_block c') 0 (drop (64 * n) d)\<rparr>) ((m @ take (64 * n) d) @ drop (64 * n) d)"
    using md5_core_short [OF a, of "drop (64 * n) d"] by simp
  then show ?thesis using True by (simp add: md5_tail_def n c')
qed

lemma md5_absorb_core:
  assumes "md5_core c m" "used = length m mod 64"
  shows "md5_core (md5_absorb used c d) (m @ d)"
proof -
  consider "used = 0" | "used \<noteq> 0" "length d < 64 - used" | "used \<noteq> 0" "64 - used \<le> length d" by linarith
  then show ?thesis
  proof cases
    case 1
    then show ?thesis using md5_core_tail [OF assms(1), of d] assms(2) by (simp add: md5_absorb_def)
  next
    case 2
    then have "length m mod 64 + length d < 64" using assms(2) by linarith
    then show ?thesis using 2 md5_core_short [OF assms(1)] assms(2) by (simp add: md5_absorb_def)
  next
    case 3
    have u: "used < 64" using assms(2) by simp
    obtain p where p: "p = take (64 - used) d" by blast
    have pl: "length m mod 64 + length p = 64" "p \<noteq> []" using 3 u assms(2) by (auto simp: p)
    have "length (m @ p) mod 64 = 0" using pl(1) by (metis length_append mod_add_left_eq mod_self)
    from md5_core_tail [OF md5_core_full [OF assms(1) pl] this, of "drop (64 - used) d"]
    have "md5_core (md5_absorb used c d) ((m @ p) @ drop (64 - used) d)"
      using 3 by (simp add: md5_absorb_def Let_def p flip: assms(2))
    then show ?thesis by (simp add: p)
  qed
qed

lemma md5_absorb_let:
  "(let available = 64 - used
    in if used \<noteq> 0 \<and> length d < available then ctx\<lparr>cx_block := blit (cx_block ctx) used d\<rparr>
       else
         let (ctx, data) =
               (if used \<noteq> 0 then
                  let ctx = ctx\<lparr>cx_block := blit (cx_block ctx) used (take available d)\<rparr>
                  in (md5_body True ctx (cx_block ctx) 64, drop available d)
                else (ctx, d))
         in md5_tail ctx data) = md5_absorb used ctx d"
  by (simp add: md5_absorb_def Let_def)

lemma md5_update_absorb:
  assumes "cx_length c = split_length n" "length d \<le> 512"
  shows "md5_update True c d = md5_absorb (n mod 64) (c\<lparr>cx_length := split_length (n + length d)\<rparr>) d"
proof -
  have lo: "low32 (cx_length c) = of_nat (n mod 2 ^ 29)" "high32 (cx_length c) = of_nat (n div 2 ^ 29)"
    by (simp_all add: assms(1) split_length_def)
  show ?thesis
    unfolding md5_absorb_let [symmetric] md5_update_def md5_tail_def Let_def lo md5_length_step [OF assms(2)] split_length_def
    by (rule refl)
qed

lemma md5_update_inv:
  assumes "md5_context c m" "length d \<le> 512"
  shows "md5_context (md5_update True c d) (m @ d)"
proof -
  have "cx_length (md5_body True c' d' k) = cx_length c'" for c' d' k
    by (simp add: md5_body_def Let_def split: prod.splits)
  then have "cx_length (md5_tail c' d') = cx_length c'" for c' d'
    by (simp add: md5_tail_def Let_def)
  then have "cx_length (md5_absorb used c' d') = cx_length c'" for used c' d'
    using \<open>\<And>c' d' k. cx_length (md5_body True c' d' k) = cx_length c'\<close> by (simp add: md5_absorb_def Let_def)
  then show ?thesis
    using assms md5_absorb_core [of "c\<lparr>cx_length := split_length (length m + length d)\<rparr>" m "length m mod 64" d]
    by (simp add: md5_context_def md5_update_absorb)
qed

lemma unpack32_le_rev: "unpack32_le a = rev (unpack32 a)"
  by (simp add: unpack32_le_def unpack32_def)

text \<open>Processing one block of the context.\<close>

lemma md5_body_block:
  assumes "length b = 256" "length (cx_h c) = 8"
  shows "\<exists>h. md5_body True c b 64 = c\<lparr>cx_h := h\<rparr> \<and> length h = 8 \<and> take 4 h = md5_compress (take 4 (cx_h c)) (take 64 b)"
proof -
  have "chain 64 md5_compress (take 4 (cx_h c)) (take 64 b) = md5_compress (take 4 (cx_h c)) (take 64 b)"
    using assms by (simp add: chain_single)
  then show ?thesis using md5_body_chain [of 1 b c] assms by simp
qed

lemma md5_close_facts:
  assumes "md5_context c m" "length m < 2 ^ 61"
  shows "take 16 (cx_block (md5_close True c)) = md5_digest m"
    and "length (cx_h (md5_close True c)) = 8" "length (cx_block (md5_close True c)) = 256"
proof -
  obtain i where im: "i = length m mod 64" by blast
  have len: "cx_length c = split_length (length m)" and bl: "length (cx_block c) = 256" and r: "take i (cx_block c) = rest 64 m"
    and h: "take 4 (cx_h c) = chain 64 md5_compress md5_h0 m" and h8: "length (cx_h c) = 8"
    using assms(1) by (auto simp: md5_context_def md5_core_def im)
  have lo: "low32 (cx_length c) = of_nat (length m mod 2 ^ 29)" "high32 (cx_length c) = of_nat (length m div 2 ^ 29)"
    by (simp_all add: len split_length_def)
  have i64: "i < 64" using im by simp
  obtain L where L: "L = rev (unpack64 (of_nat (8 * length m)))" by blast
  have lL: "length L = 8" by (simp add: L)
  have bytes: "unpack32_le (push_bit 3 (of_nat (length m mod 2 ^ 29))) @ unpack32_le (of_nat (length m div 2 ^ 29)) = L"
    unfolding L bits_of_length [OF assms(2), symmetric] unpack64_split unpack32_le_rev by simp
  obtain H where H: "H = chain 64 md5_compress md5_h0 (m @ pad 64 9 L (length m))" by blast
  note chains = chain_pad [OF im lL, of md5_compress md5_h0, folded H]
  have used: "unat (of_nat (length m mod 2 ^ 29) AND 0x3F :: u32) = i"
    using md5_length_step(3) [of 0 "length m"] by (simp add: im)
  have "\<exists>b h'. length b = 256 \<and> length h' = 8 \<and> take 4 h' = H \<and>
    cx_block (md5_close True c) = blit b 0 (concat (map (\<lambda>v. unpack32_le (low32 v)) H)) \<and> cx_h (md5_close True c) = h'"
  proof (cases "i > 55")
    case False
    obtain b where b: "b = blit (blit (cx_block c) i (0x80 # replicate (55 - i) 0)) 56 L" by blast
    have tb: "take 64 b = rest 64 m @ 0x80 # replicate (55 - i) 0 @ L"
      using False bl lL r by (simp add: b fill_one)
    have lb: "length b = 256" using False bl lL by (simp add: b mem_simps)
    obtain h' where h': "md5_body True (c\<lparr>cx_block := b\<rparr>) b 64 = c\<lparr>cx_block := b, cx_h := h'\<rparr>" "length h' = 8" "take 4 h' = H"
      using md5_body_block [OF lb, of "c\<lparr>cx_block := b\<rparr>"] h8 chains(1) False tb h by auto
    have "blit ((cx_block c)[i := 0x80]) (i + 1) (replicate (64 - (i + 1) - 8) 0) = blit (cx_block c) i (0x80 # replicate (55 - i) 0)"
      using False bl by (subst set_blit) simp_all
    then have "md5_close True c = c\<lparr>cx_h := h', cx_block := blit b 0 (concat (map (\<lambda>v. unpack32_le (low32 v)) H)),
        cx_length := join32 (of_nat (length m div 2 ^ 29)) (push_bit 3 (of_nat (length m mod 2 ^ 29)))\<rparr>"
      unfolding md5_close_def Let_def lo used bytes using False h' by (simp add: b)
    then show ?thesis using lb h' by (intro exI [of _ b] exI [of _ h']) simp
  next
    case True
    obtain b0 where b0: "b0 = blit (cx_block c) i (0x80 # replicate (63 - i) 0)" by blast
    have l0: "length b0 = 256" using i64 bl by (simp add: b0 mem_simps)
    obtain b where b: "b = blit (blit b0 0 (replicate 56 0)) 56 L" by blast
    have t0: "take 64 b0 = rest 64 m @ 0x80 # replicate (63 - i) 0"
      using i64 bl r by (simp add: b0 fill_first)
    have tb: "take 64 b = replicate 56 0 @ L" using l0 lL by (simp add: b fill_second)
    have lb: "length b = 256" using l0 lL by (simp add: b mem_simps)
    obtain h1 where h1: "md5_body True (c\<lparr>cx_block := b0\<rparr>) b0 64 = c\<lparr>cx_block := b0, cx_h := h1\<rparr>" "length h1 = 8"
      "take 4 h1 = md5_compress (take 4 (cx_h c)) (take 64 b0)"
      using md5_body_block [OF l0, of "c\<lparr>cx_block := b0\<rparr>"] h8 by auto
    obtain h' where h': "md5_body True (c\<lparr>cx_h := h1, cx_block := b\<rparr>) b 64 = c\<lparr>cx_block := b, cx_h := h'\<rparr>" "length h' = 8" "take 4 h' = H"
      using md5_body_block [OF lb, of "c\<lparr>cx_h := h1, cx_block := b\<rparr>"] h1 chains(2) True t0 tb h by auto
    have "blit ((cx_block c)[i := 0x80]) (i + 1) (replicate (64 - (i + 1)) 0) = b0"
      using i64 bl by (subst set_blit) (simp_all add: b0)
    then have "md5_close True c = c\<lparr>cx_h := h', cx_block := blit b 0 (concat (map (\<lambda>v. unpack32_le (low32 v)) H)),
        cx_length := join32 (of_nat (length m div 2 ^ 29)) (push_bit 3 (of_nat (length m mod 2 ^ 29)))\<rparr>"
      unfolding md5_close_def Let_def lo used bytes using True h1(1) h' by (simp add: b)
    then show ?thesis using lb h' by (intro exI [of _ b] exI [of _ h']) simp
  qed
  then obtain b h' where *: "length b = 256" "length h' = 8" "take 4 h' = H"
    "cx_block (md5_close True c) = blit b 0 (concat (map (\<lambda>v. unpack32_le (low32 v)) H))" "cx_h (md5_close True c) = h'" by blast
  moreover have "length H = 4" using * by auto
  moreover have "length (concat (map (\<lambda>v. unpack32_le (low32 v)) H)) = 16"
    using \<open>length H = 4\<close> by (simp add: length_concat_const unpack32_le_def)
  ultimately show "take 16 (cx_block (md5_close True c)) = md5_digest m"
    "length (cx_h (md5_close True c)) = 8" "length (cx_block (md5_close True c)) = 256"
    by (simp_all add: blit_def md5_digest_def H L)
qed

definition md5_holds :: "hash \<Rightarrow> u8 list \<Rightarrow> bool" where
  "md5_holds s m \<longleftrightarrow> md5_context (hs_context s) m \<and> \<not> hs_computed s \<and> \<not> hs_corrupted s"

interpretation md5: hash_algorithm array_sizes md5_holds md5_reset "md5_input True" "md5_result True" md5_digest "2 ^ 61"
proof
  fix c m bs
  show "md5_holds (md5_reset c) []" if "array_sizes c"
    by (simp add: md5_holds_def md5_context_def md5_core_def md5_reset_def md5_h0_def split_length_def join32_def)
  show "md5_holds (md5_input True c bs) (m @ bs)" if "md5_holds c m"
    using that chunked_inv [of md5_context 512 "md5_update True", OF md5_update_inv, of "hs_context c" m bs]
    by (simp add: md5_holds_def md5_input_def)
  show "snd (md5_result True c) = Some (md5_digest m)" if "md5_holds c m" "length m < 2 ^ 61"
    using that md5_close_facts [of "hs_context c" m] by (simp add: md5_holds_def md5_result_def Let_def)
  show "array_sizes c" if "md5_holds c m"
    using that by (simp add: md5_holds_def md5_context_def md5_core_def array_sizes_def)
  show "array_sizes (fst (md5_result True c))" if "md5_holds c m" "length m < 2 ^ 61"
    using that md5_close_facts [of "hs_context c" m] by (simp add: md5_holds_def md5_result_def Let_def array_sizes_def)
qed

end
