(* ===== verification/Hmac.thy ===== *)
theory Hmac
  imports Hash_Legacy
begin

text \<open>
  \<^verbatim>\<open>HMACType\<close> of \<^verbatim>\<open>Source/cryptalgo/HMAC.h\<close> over any hash algorithm, and the properties of the
  digests and of the keyed digests.
\<close>

subsection \<open>The keyed digest\<close>

text \<open>The template parameter: the operations of the algorithm, its number of bytes and an object as
  it is before its constructor runs.\<close>

record 'c algorithm =
  al_fresh :: 'c
  al_reset :: "'c \<Rightarrow> 'c"
  al_input :: "'c \<Rightarrow> u8 list \<Rightarrow> 'c"
  al_result :: "'c \<Rightarrow> 'c \<times> u8 list option"
  al_length :: nat

record 'c hmac =
  hm_computed :: bool
  hm_innerKeyPad :: "u8 list"
  hm_outerKeyPad :: "u8 list"
  hm_algorithm :: 'c

definition hmac_reset :: "'c algorithm \<Rightarrow> 'c hmac \<Rightarrow> 'c hmac" where
  "hmac_reset A s = s\<lparr>hm_algorithm := al_input A (al_reset A (hm_algorithm s)) (hm_innerKeyPad s), hm_computed := False\<rparr>"

text \<open>The bytes of the key that go into the pads: a key of more than 64 bytes is hashed, with its
  length cast to 16 bits. \<open>None\<close> is a hash without a result.\<close>

definition hmac_encryption_key :: "'c algorithm \<Rightarrow> u8 list \<Rightarrow> u8 list option" where
  "hmac_encryption_key A key =
     (if 64 < length key
      then map_option (take (al_length A))
        (snd (al_result A (al_input A (al_reset A (al_fresh A)) (take (length key mod 2 ^ 16) key))))
      else Some key)"

definition hmac_key :: "'c algorithm \<Rightarrow> u8 list \<Rightarrow> 'c hmac \<Rightarrow> 'c hmac option" where
  "hmac_key A key s =
     map_option (\<lambda>k. hmac_reset A (s\<lparr>hm_innerKeyPad := map (\<lambda>b. b XOR 0x36) k @ replicate (64 - length k) 0x36,
        hm_outerKeyPad := map (\<lambda>b. b XOR 0x5C) k @ replicate (64 - length k) 0x5C\<rparr>))
       (hmac_encryption_key A key)"

definition hmac_input :: "'c algorithm \<Rightarrow> 'c hmac \<Rightarrow> u8 list \<Rightarrow> 'c hmac" where
  "hmac_input A s message = s\<lparr>hm_algorithm := al_input A (hm_algorithm s) message\<rparr>"

text \<open>\<open>None\<close>: there is no hash to copy or to return.\<close>

definition hmac_result :: "'c algorithm \<Rightarrow> 'c hmac \<Rightarrow> ('c hmac \<times> u8 list) option" where
  "hmac_result A s =
     (let inner =
            (if hm_computed s then Some s
             else
               (case al_result A (hm_algorithm s) of
                  (a, None) \<Rightarrow> None
                | (a, Some hashKey) \<Rightarrow>
                    let a = al_input A (al_input A (al_reset A a) (hm_outerKeyPad s)) (take (al_length A) hashKey)
                    in Some (s\<lparr>hm_computed := True, hm_algorithm := a\<rparr>)))
      in case inner of
           None \<Rightarrow> None
         | Some s \<Rightarrow>
             (case al_result A (hm_algorithm s) of
                (a, None) \<Rightarrow> None
              | (a, Some r) \<Rightarrow> Some (s\<lparr>hm_algorithm := a\<rparr>, r)))"

text \<open>The instances at the end of the file.\<close>

definition sha1_hmac :: "hash \<Rightarrow> hash algorithm" where
  "sha1_hmac f = \<lparr>al_fresh = f, al_reset = sha1_reset, al_input = sha1_input, al_result = sha1_result, al_length = 20\<rparr>"
definition sha224_hmac :: "hash \<Rightarrow> hash algorithm" where
  "sha224_hmac f = \<lparr>al_fresh = f, al_reset = sha224_reset, al_input = sha224_input, al_result = sha224_result, al_length = 28\<rparr>"
definition sha256_hmac :: "hash \<Rightarrow> hash algorithm" where
  "sha256_hmac f = \<lparr>al_fresh = f, al_reset = sha256_reset, al_input = sha256_input, al_result = sha256_result, al_length = 32\<rparr>"
definition sha384_hmac :: "hash \<Rightarrow> hash algorithm" where
  "sha384_hmac f = \<lparr>al_fresh = f, al_reset = sha384_reset, al_input = sha384_input, al_result = sha384_result, al_length = 48\<rparr>"
definition sha512_hmac :: "hash \<Rightarrow> hash algorithm" where
  "sha512_hmac f = \<lparr>al_fresh = f, al_reset = sha512_reset, al_input = sha512_input, al_result = sha512_result, al_length = 64\<rparr>"
definition md5_hmac :: "bool \<Rightarrow> hash \<Rightarrow> hash algorithm" where
  "md5_hmac unaligned f = \<lparr>al_fresh = f, al_reset = md5_reset, al_input = md5_input unaligned, al_result = md5_result unaligned, al_length = 16\<rparr>"

lemmas hmac_algorithms = sha1_hmac_def sha224_hmac_def sha256_hmac_def sha384_hmac_def sha512_hmac_def md5_hmac_def

subsection \<open>The digests\<close>

text \<open>The algorithms with their digests and the lengths they are right for. The digest of the
  standard is \<open>spec\<close>; a message of \<open>limit\<close> bytes or more has a length that does not fit its field.\<close>

definition algorithms :: "hash \<Rightarrow> (hash algorithm \<times> (u8 list \<Rightarrow> u8 list) \<times> nat) list" where
  "algorithms f = [(sha1_hmac f, sha1_digest, 2 ^ 61), (sha224_hmac f, sha224_digest, 2 ^ 29),
     (sha256_hmac f, sha256_digest, 2 ^ 61), (sha384_hmac f, sha384_digest, 2 ^ 29),
     (sha512_hmac f, sha512_digest, 2 ^ 29), (md5_hmac True f, md5_digest, 2 ^ 61)]"

text \<open>C30: whatever the parts in which a message is handed to an algorithm after a reset, the result is
  the digest of the whole message: the compression function chained over the message and its
  standard padding. The algorithms are SHA-1 and SHA-256 with messages of less than \<open>2 ^ 61\<close> bytes, SHA-224, SHA-384 and
  SHA-512 with less than \<open>2 ^ 29\<close>, and MD5 as it is built for x86 and VAX, with less than \<open>2 ^ 61\<close>; \<open>md5_portable_collides\<close> below shows what MD5 is
  elsewhere.\<close>

theorem digest_of_parts:
  assumes "array_sizes s" "(A, spec, limit) \<in> set (algorithms f)" "length (concat parts) < limit"
  shows "snd (al_result A (foldl (al_input A) (al_reset A s) parts)) = Some (spec (concat parts))"
  using assms
  by (auto simp: algorithms_def hmac_algorithms
      intro!: sha1.stream sha224.stream sha256.stream sha384.stream sha512.stream md5.stream)

theorem digest_of_parts_witness:
  "snd (al_result (sha384_hmac (md5_reset undefined))
     (foldl (al_input (sha384_hmac (md5_reset undefined))) (al_reset (sha384_hmac (md5_reset undefined)) (md5_reset undefined)) [[1, 2], [], [3]]))
   = Some (sha384_digest [1, 2, 3])"
  using digest_of_parts [of "md5_reset undefined" "sha384_hmac (md5_reset undefined)" sha384_digest "2 ^ 29" "md5_reset undefined" "[[1, 2], [], [3]]"]
  by (simp add: algorithms_def array_sizes_def md5_reset_def md5_h0_def)

subsection \<open>The keyed digests\<close>

definition hmac_of :: "(u8 list \<Rightarrow> u8 list) \<Rightarrow> u8 list \<Rightarrow> u8 list \<Rightarrow> u8 list" where
  "hmac_of spec key m =
     (let k = (if 64 < length key then spec key else key);
          k = k @ replicate (64 - length k) 0
      in spec (map (\<lambda>b. b XOR 0x5C) k @ spec (map (\<lambda>b. b XOR 0x36) k @ m)))"

locale hmac_hash = hash_algorithm +
  fixes n :: nat
  assumes spec_length: "length (spec m) = n" and n_small: "n \<le> 64" and limit_large: "2 ^ 17 < limit"
begin

lemma keyed:
  assumes wf: "wf f" "wf (hm_algorithm s)" and key: "length key < 2 ^ 16" and m: "length (concat chunks) + 64 < limit"
  defines "A \<equiv> \<lparr>al_fresh = f, al_reset = reset, al_input = input, al_result = result, al_length = n\<rparr>"
  shows "\<exists>s' s''. hmac_key A key s = Some s' \<and>
    hmac_result A (foldl (hmac_input A) s' chunks) = Some (s'', hmac_of spec key (concat chunks))"
proof -
  obtain k where k: "k = (if 64 < length key then spec key else key)" by blast
  have kl: "length k \<le> 64" using spec_length n_small by (simp add: k)
  obtain ik where ik: "ik = map (\<lambda>b. b XOR 0x36) k @ replicate (64 - length k) 0x36" by blast
  obtain ok where ok: "ok = map (\<lambda>b. b XOR 0x5C) k @ replicate (64 - length k) 0x5C" by blast
  have kmod: "take (length key mod 2 ^ 16) key = key" using key by simp
  have "holds (input (reset f) key) ([] @ key)"
    using reset [OF wf(1)] key limit_large by (intro input) simp_all
  then have "snd (result (input (reset f) key)) = Some (spec key)"
    using key limit_large by (intro result) simp_all
  then have "hmac_encryption_key A key = Some k"
    using kmod spec_length by (simp add: hmac_encryption_key_def A_def k)
  then obtain s' where s': "hmac_key A key s = Some s'" "s' = s\<lparr>hm_innerKeyPad := ik, hm_outerKeyPad := ok,
      hm_algorithm := input (reset (hm_algorithm s)) ik, hm_computed := False\<rparr>"
    by (simp add: hmac_key_def hmac_reset_def A_def ik ok)
  have il: "length ik = 64" "length ok = 64" using kl by (simp_all add: ik ok)
  have h: "holds (input (reset (hm_algorithm s)) ik) ([] @ ik)"
    using reset [OF wf(2)] limit_large il by (intro input) simp_all
  obtain a where a: "a = foldl input (input (reset (hm_algorithm s)) ik) chunks" by blast
  have ha: "holds a (ik @ concat chunks)"
    using inputs [OF h, of chunks] m il by (simp add: a)
  obtain a' where a': "result a = (a', Some (spec (ik @ concat chunks)))"
    using result [OF ha] m il by (cases "result a") simp
  have wa: "wf a'" using result_wf [OF ha] m il a' by simp
  obtain b where b: "b = input (input (reset a') ok) (take n (spec (ik @ concat chunks)))" by blast
  have ho: "holds (input (reset a') ok) ([] @ ok)" using reset [OF wa] limit_large il by (intro input) simp_all
  have "holds b (([] @ ok) @ take n (spec (ik @ concat chunks)))"
    unfolding b by (rule input [OF ho]) (use spec_length n_small limit_large il in simp)
  then have hb: "holds b (ok @ spec (ik @ concat chunks))" using spec_length by simp
  obtain b' where b': "result b = (b', Some (spec (ok @ spec (ik @ concat chunks))))"
    using result [OF hb] spec_length n_small limit_large il by (cases "result b") simp
  have "foldl (hmac_input A) t chunks = t\<lparr>hm_algorithm := foldl input (hm_algorithm t) chunks\<rparr>" for t
    by (induction chunks arbitrary: t) (simp_all add: hmac_input_def A_def)
  then have "hmac_result A (foldl (hmac_input A) s' chunks)
      = Some (s'\<lparr>hm_computed := True, hm_algorithm := b'\<rparr>, spec (ok @ spec (ik @ concat chunks)))"
    using a' b' by (simp add: hmac_result_def A_def s'(2) b flip: a)
  moreover have "spec (ok @ spec (ik @ concat chunks)) = hmac_of spec key (concat chunks)"
    by (simp add: hmac_of_def Let_def ik ok flip: k)
  ultimately show ?thesis using s'(1) by auto
qed

end

lemma chain_inv: "P h \<Longrightarrow> (\<And>h b. P h \<Longrightarrow> P (f h b)) \<Longrightarrow> P (chain B f h m)"
proof (induction B f h m rule: chain.induct)
  case (1 B f h m)
  then show ?case by (subst chain.simps) auto
qed

lemma digest_lengths:
  "length (sha1_digest m) = 20" "length (sha224_digest m) = 28" "length (sha256_digest m) = 32"
  "length (sha384_digest m) = 48" "length (sha512_digest m) = 64" "length (md5_digest m) = 16"
proof -
  have "length (chain 64 sha1_compress sha1_h0 p) = 5" for p
    by (rule chain_inv [where P = "\<lambda>h. length h = 5"]) (simp_all add: sha1_h0_def)
  moreover have "length (chain 64 md5_compress md5_h0 p) = 4" for p
    by (rule chain_inv [where P = "\<lambda>h. length h = 4"]) (simp_all add: md5_h0_def)
  moreover have "length h = 8 \<Longrightarrow> length (chain 64 sha256_compress h p) = 8" for h p
    by (rule chain_inv [where P = "\<lambda>h. length h = 8"]) simp_all
  moreover have "length h = 8 \<Longrightarrow> length (chain 128 sha512_sub_block h p) = 8" for h p
    by (rule chain_inv [where P = "\<lambda>h. length h = 8"]) (simp_all add: length_sha512_sub_block)
  moreover have "length sha224_h0 = 8" "length sha256_h0 = 8" "length sha384_h0 = 8" "length sha512_h0 = 8"
    by (simp_all add: sha224_h0_def sha256_h0_def sha384_h0_def sha512_h0_def)
  ultimately show "length (sha1_digest m) = 20" "length (sha224_digest m) = 28" "length (sha256_digest m) = 32"
    "length (sha384_digest m) = 48" "length (sha512_digest m) = 64" "length (md5_digest m) = 16"
    by (simp_all add: sha1_digest_def sha224_digest_def sha256_digest_def sha384_digest_def sha512_digest_def
        md5_digest_def length_concat_const unpack32_le_def)
qed

interpretation sha1_h: hmac_hash array_sizes sha1_holds sha1_reset sha1_input sha1_result sha1_digest "2 ^ 61" 20
  by unfold_locales (simp_all add: digest_lengths)
interpretation sha224_h: hmac_hash array_sizes "block_holds 64 sha256_compress sha224_h0"
  sha224_reset sha224_input sha224_result sha224_digest "2 ^ 29" 28
  by unfold_locales (simp_all add: digest_lengths)
interpretation sha256_h: hmac_hash array_sizes sha256_holds sha256_reset sha256_input sha256_result sha256_digest "2 ^ 61" 32
  by unfold_locales (simp_all add: digest_lengths)
interpretation sha384_h: hmac_hash array_sizes "block_holds 128 sha512_sub_block sha384_h0"
  sha384_reset sha384_input sha384_result sha384_digest "2 ^ 29" 48
  by unfold_locales (simp_all add: digest_lengths)
interpretation sha512_h: hmac_hash array_sizes "block_holds 128 sha512_sub_block sha512_h0"
  sha512_reset sha512_input sha512_result sha512_digest "2 ^ 29" 64
  by unfold_locales (simp_all add: digest_lengths)
interpretation md5_h: hmac_hash array_sizes md5_holds md5_reset "md5_input True" "md5_result True" md5_digest "2 ^ 61" 16
  by unfold_locales (simp_all add: digest_lengths)

text \<open>C31: a keyed digest of a message in parts is the digest of the outer pad and the digest of the inner
  pad and the message, where the pads have 64 bytes for every algorithm and a key of more than 64
  bytes, but less than 64 KB, is replaced by its digest. The message has 64 bytes less than the limit of the algorithm in
  \<open>digest_of_parts\<close>, and MD5 is the one for x86 and VAX.\<close>

theorem hmac_of_parts:
  assumes "array_sizes f" "array_sizes (hm_algorithm s)" "(A, spec, limit) \<in> set (algorithms f)"
    and "length key < 2 ^ 16" "length (concat parts) + 64 < limit"
  shows "\<exists>s' s''. hmac_key A key s = Some s' \<and>
    hmac_result A (foldl (hmac_input A) s' parts) = Some (s'', hmac_of spec key (concat parts))"
  using assms
    sha1_h.keyed [of f s key parts] sha224_h.keyed [of f s key parts] sha256_h.keyed [of f s key parts]
    sha384_h.keyed [of f s key parts] sha512_h.keyed [of f s key parts] md5_h.keyed [of f s key parts]
  by (auto simp: algorithms_def hmac_algorithms)

theorem hmac_of_parts_witness:
  "\<exists>s' s''. hmac_key (sha256_hmac (md5_reset undefined)) [7, 8] \<lparr>hm_computed = False, hm_innerKeyPad = [], hm_outerKeyPad = [], hm_algorithm = md5_reset undefined\<rparr> = Some s' \<and>
    hmac_result (sha256_hmac (md5_reset undefined)) (foldl (hmac_input (sha256_hmac (md5_reset undefined))) s' [[1], [2]])
      = Some (s'', hmac_of sha256_digest [7, 8] [1, 2])"
  using hmac_of_parts [of "md5_reset undefined" "\<lparr>hm_computed = False, hm_innerKeyPad = [], hm_outerKeyPad = [], hm_algorithm = md5_reset undefined\<rparr>"
      "sha256_hmac (md5_reset undefined)" sha256_digest "2 ^ 61" "[7, 8]" "[[1], [2]]"]
  by (simp add: algorithms_def array_sizes_def md5_reset_def md5_h0_def)

subsection \<open>MD5 on other architectures\<close>

lemma md5_word_portable: "md5_word False ptr n = ucast (ptr ! (n * 4))"
proof -
  have "(ucast ((ucast (a :: u8) :: u32) OR push_bit 8 (ucast (b :: u8)) OR push_bit 16 (ucast (c :: u8)) OR push_bit 24 (ucast (d :: u8))) :: u8) = a" for a b c d
    by (rule byte_eqI; simp add: bit_simps)
  then show ?thesis by (simp add: md5_word_def Let_def)
qed

lemma md5_body_portable:
  assumes "\<And>n. n < 16 \<Longrightarrow> p ! (n * 4) = q ! (n * 4)" "cx_h c = cx_h d"
  shows "cx_h (md5_body False c p 64) = cx_h (md5_body False d q 64)"
proof -
  have "map (md5_word False p) [0..<16] = map (md5_word False q) [0..<16]"
    using assms(1) by (simp add: md5_word_portable)
  then have "md5_block False r p = md5_block False r q" for r by (simp only: md5_block_def)
  moreover have "(64 :: nat) div 64 = Suc 0" by simp
  ultimately show ?thesis using assms(2) by (simp only: md5_body_def Let_def md5_blocks.simps) (simp split: prod.splits)
qed

lemma md5_portable_input:
  assumes "length m < 56"
  shows "hs_context (md5_input False (md5_reset s) m)
    = \<lparr>cx_length = split_length (length m), cx_h = md5_h0 @ [0, 0, 0, 0], cx_index = 0, cx_block = blit (replicate 256 0) 0 m\<rparr>"
proof (cases "m = []")
  case True
  then show ?thesis
    by (simp add: md5_input_def chunked.simps md5_reset_def split_length_def join32_def)
next
  case False
  have k: "length m \<le> 512" using assms by simp
  have z: "low32 0 = of_nat (0 mod 2 ^ 29)" "high32 0 = of_nat (0 div 2 ^ 29)" by (simp_all add: low32_def high32_def)
  have "md5_update False (hs_context (md5_reset s)) m
      = \<lparr>cx_length = split_length (length m), cx_h = md5_h0 @ [0, 0, 0, 0], cx_index = 0, cx_block = blit (replicate 256 0) 0 m\<rparr>"
    using assms unfolding md5_update_def Let_def md5_reset_def hash.simps hash_context.simps z md5_length_step [OF k] split_length_def
    by simp
  then show ?thesis using False k by (simp add: md5_input_def chunked.simps)
qed

text \<open>On an architecture that is not listed as tolerating unaligned accesses only every fourth byte of
  a message reaches the digest: two short messages of the same length that agree at the indices
  divisible by four have the same MD5.\<close>

theorem md5_portable_collides:
  assumes "length m = length m'" "length m < 56" "\<forall>i < length m. i mod 4 = 0 \<longrightarrow> m ! i = m' ! i"
  shows "snd (md5_result False (md5_input False (md5_reset s) m)) = snd (md5_result False (md5_input False (md5_reset s) m'))"
proof -
  have e: "hs_computed (md5_input False (md5_reset s) k) = False" "hs_corrupted (md5_input False (md5_reset s) k) = False" for k
    by (simp_all add: md5_input_def md5_reset_def)
  obtain n where n: "n = length m" by blast
  have n56: "n < 56" using assms(2) n by simp
  obtain L where L: "L = unpack32_le (push_bit 3 (of_nat (n mod 2 ^ 29))) @ unpack32_le (of_nat (n div 2 ^ 29))" by blast
  have lL: "length L = 8" by (simp add: L unpack32_le_def)
  obtain B where B: "\<And>k. B k = blit (blit ((blit (replicate 256 0) 0 k)[n := 0x80]) (n + 1) (replicate (55 - n) 0)) 56 L"
    by (rule that [OF refl])
  obtain c where c: "\<And>k. c k = \<lparr>cx_length = split_length n, cx_h = md5_h0 @ [0, 0, 0, 0], cx_index = 0, cx_block = B k\<rparr>"
    by (rule that [OF refl])
  have used: "unat (of_nat (n mod 2 ^ 29) AND 0x3F :: u32) = n" using md5_length_step(3) [of 0 n] n56 by simp
  have close: "take 16 (cx_block (md5_close False (hs_context (md5_input False (md5_reset s) k))))
      = concat (map (\<lambda>v. unpack32_le (low32 v)) (take 4 (cx_h (md5_body False (c k) (B k) 64))))"
    if k: "length k = n" for k
  proof -
    have lo: "low32 (split_length n) = of_nat (n mod 2 ^ 29)" "high32 (split_length n) = of_nat (n div 2 ^ 29)"
      by (simp_all add: split_length_def)
    have room: "\<not> 64 - (n + 1) < 8" "64 - (n + 1) - 8 = 55 - n" using n56 by simp_all
    note input = md5_portable_input [of k s, unfolded k, OF n56]
    have "cx_block (md5_close False (hs_context (md5_input False (md5_reset s) k)))
        = blit (cx_block (md5_body False (c k) (B k) 64)) 0 (concat (map (\<lambda>v. unpack32_le (low32 v)) (take 4 (cx_h (md5_body False (c k) (B k) 64)))))"
      unfolding input md5_close_def Let_def hash_context.simps lo used L [symmetric]
      using room by (simp add: c B)
    moreover have "length (cx_h (md5_body False (c k) (B k) 64)) = 8"
      by (simp add: md5_body_def Let_def c md5_h0_def mem_simps split: prod.splits)
    then have "length (concat (map (\<lambda>v. unpack32_le (low32 v)) (take 4 (cx_h (md5_body False (c k) (B k) 64))))) = 16"
      by (simp add: length_concat_const unpack32_le_def)
    ultimately show ?thesis by simp
  qed
  have BB: "B k = k @ 0x80 # replicate (55 - n) 0 @ L @ replicate 192 0" if k: "length k = n" for k
  proof -
    have "replicate (256 - n) (0 :: u8) = 0 # replicate (255 - n) 0"
      using n56 by (simp flip: replicate_Suc)
    then have "(blit (replicate 256 0) 0 k)[n := 0x80] = k @ 0x80 # replicate (255 - n) 0"
      using k by (simp add: blit_def list_update_append)
    then show ?thesis using n56 k lL by (simp add: B blit_def take_Cons' drop_Cons')
  qed
  have "(B m) ! (j * 4) = (B m') ! (j * 4)" for j
    using BB [of m] BB [of m'] assms(1,3) n by (simp add: nth_append)
  then have "cx_h (md5_body False (c m) (B m) 64) = cx_h (md5_body False (c m') (B m') 64)"
    by (intro md5_body_portable) (simp_all add: c)
  then show ?thesis
    using close [of m] close [of m'] assms(1) n by (simp add: md5_result_def e Let_def)
qed

theorem md5_portable_collides_witness:
  "snd (md5_result False (md5_input False (md5_reset undefined) [1, 2, 3])) = snd (md5_result False (md5_input False (md5_reset undefined) [1, 7, 9]))"
  by (rule md5_portable_collides) (auto simp: less_Suc_eq numeral_3_eq_3)

end
