(* ===== verification/Frame.thy ===== *)
theory Frame
  imports Prelude
begin

text \<open>
  \<^verbatim>\<open>Source/core/Frame.h\<close>: numbers, texts and buffers in a block of memory that grows, read back by
  readers and written by writers that keep an offset. The template parameters are a record, the
  memory is a function on indices, and an operation that touches a byte outside the block it owns
  has no result. The machine is little endian; a text is the list of its bytes.
\<close>

subsection \<open>The block of memory\<close>

text \<open>
  \<open>fk_block\<close> is \<^verbatim>\<open>BLOCKSIZE\<close>, \<open>0\<close> for memory of the caller, \<open>fk_big\<close> is \<^verbatim>\<open>BIG_ENDIAN_ORDERING\<close>,
  \<open>fk_bits\<close> the width of \<^verbatim>\<open>SIZE_CONTEXT\<close>, 16 or 32, and \<open>fk_granted n\<close> tells whether the memory
  manager hands out \<open>n\<close> bytes. What \<open>fr_memory\<close> says of an index behind the capacity is what the
  memory contains when the block grows over it.
\<close>

record frame_kind =
  fk_block :: nat
  fk_big :: bool
  fk_bits :: nat
  fk_granted :: "nat \<Rightarrow> bool"

record frame =
  fr_size :: nat
  fr_capacity :: nat
  fr_memory :: "nat \<Rightarrow> u8"

text \<open>A sum of offsets: \<^verbatim>\<open>uint16_t\<close> is promoted to \<^verbatim>\<open>int\<close>, \<^verbatim>\<open>uint32_t\<close> wraps.\<close>

definition offset_sum :: "frame_kind \<Rightarrow> nat \<Rightarrow> nat \<Rightarrow> nat" where
  "offset_sum k a b = (if fk_bits k = 16 then a + b else (a + b) mod 2 ^ fk_bits k)"

definition to_size :: "frame_kind \<Rightarrow> nat \<Rightarrow> nat" where
  "to_size k n = n mod 2 ^ fk_bits k"

definition block_size :: "frame_kind \<Rightarrow> nat \<Rightarrow> nat" where
  "block_size k required = to_size k (((required div fk_block k + 1) * fk_block k) mod 2 ^ 32)"

definition allocate :: "frame_kind \<Rightarrow> nat \<Rightarrow> frame \<Rightarrow> frame" where
  "allocate k required f =
     (if fk_block k \<noteq> 0 \<and> fr_capacity f < required \<and> fk_granted k (block_size k required)
      then f\<lparr>fr_capacity := block_size k required\<rparr> else f)"

definition set_size :: "frame_kind \<Rightarrow> nat \<Rightarrow> frame \<Rightarrow> frame" where
  "set_size k n f = (allocate k (to_size k n) f)\<lparr>fr_size := to_size k n\<rparr>"

definition clear_frame :: "frame \<Rightarrow> frame" where
  "clear_frame f = f\<lparr>fr_size := 0\<rparr>"

text \<open>\<^verbatim>\<open>memcpy\<close> into and out of the block.\<close>

definition segment :: "frame \<Rightarrow> nat \<Rightarrow> nat \<Rightarrow> u8 list" where
  "segment f offset n = map (fr_memory f) [offset..<offset + n]"

definition store :: "nat \<Rightarrow> u8 list \<Rightarrow> frame \<Rightarrow> frame option" where
  "store offset bs f =
     (if bs = [] then Some f
      else if offset + length bs \<le> fr_capacity f
      then Some (f\<lparr>fr_memory := \<lambda>i. if offset \<le> i \<and> i < offset + length bs then bs ! (i - offset) else fr_memory f i\<rparr>)
      else None)"

definition load :: "nat \<Rightarrow> nat \<Rightarrow> frame \<Rightarrow> u8 list option" where
  "load offset n f = (if n = 0 \<or> offset + n \<le> fr_capacity f then Some (segment f offset n) else None)"

text \<open>\<open>Shrink\<close> and \<open>Expand\<close> move the bytes behind the offset.\<close>

definition shrink :: "nat \<Rightarrow> nat \<Rightarrow> frame \<Rightarrow> frame option" where
  "shrink offset n f =
     (if n = 0 then Some f
      else if offset + n = fr_size f then Some (f\<lparr>fr_size := fr_size f - n\<rparr>)
      else
        case load (offset + n) (fr_size f - offset - n) f of
          None \<Rightarrow> None
        | Some bs \<Rightarrow> map_option (\<lambda>g. g\<lparr>fr_size := fr_size f - n\<rparr>) (store offset bs f))"

definition expand :: "frame_kind \<Rightarrow> nat \<Rightarrow> nat \<Rightarrow> frame \<Rightarrow> frame option" where
  "expand k offset n f =
     (if n = 0 then Some f
      else if offset = fr_size f then Some (f\<lparr>fr_size := to_size k (fr_size f + n)\<rparr>)
      else
        case load offset (fr_size f - offset) f of
          None \<Rightarrow> None
        | Some bs \<Rightarrow> map_option (\<lambda>g. g\<lparr>fr_size := to_size k (fr_size f + n)\<rparr>) (store (offset + n) bs f))"

subsection \<open>Numbers\<close>

definition real_size :: "'a::len word \<Rightarrow> nat" where
  "real_size v = LENGTH('a) div 8"

text \<open>The bytes of a number in the memory of the machine, the least significant one first.\<close>

definition value_bytes :: "'a::len word \<Rightarrow> u8 list" where
  "value_bytes v = map (\<lambda>i. ucast (drop_bit (8 * i) v)) [0..<real_size v]"

definition bytes_value :: "u8 list \<Rightarrow> 'a::len word" where
  "bytes_value bs = foldr (\<lambda>b v. ucast b OR push_bit 8 v) bs 0"

definition ordered_bytes :: "frame_kind \<Rightarrow> 'a::len word \<Rightarrow> u8 list" where
  "ordered_bytes k v = (if fk_big k then rev (value_bytes v) else value_bytes v)"

definition set_number :: "frame_kind \<Rightarrow> nat \<Rightarrow> 'a::len word \<Rightarrow> frame \<Rightarrow> (nat \<times> frame) option" where
  "set_number k offset v f =
     (let n = real_size v;
          f = (if fr_size f \<le> offset_sum k offset n then set_size k (offset + n) f else f)
      in map_option (\<lambda>f. (n, f))
           (store offset (if n = 1 then [ucast v] else ordered_bytes k v) f))"

definition get_number :: "frame_kind \<Rightarrow> nat \<Rightarrow> frame \<Rightarrow> (nat \<times> 'a::len word) option" where
  "get_number k offset f =
     (let n = LENGTH('a) div 8 in
      if n = 1 then map_option (\<lambda>bs. (n, ucast (hd bs))) (load offset 1 f)
      else if fr_size f < offset_sum k offset n then Some (n, 0)
      else map_option (\<lambda>bs. (n, bytes_value (if fk_big k then rev bs else bs))) (load offset n f))"

definition set_boolean :: "frame_kind \<Rightarrow> nat \<Rightarrow> bool \<Rightarrow> frame \<Rightarrow> (nat \<times> frame) option" where
  "set_boolean k offset v f =
     (let f = (if fr_size f \<le> offset_sum k offset 1 then set_size k (offset + 1) f else f)
      in map_option (\<lambda>f. (1, f)) (store offset [if v then 1 else 0] f))"

definition get_boolean :: "nat \<Rightarrow> frame \<Rightarrow> (nat \<times> bool) option" where
  "get_boolean offset f = map_option (\<lambda>bs. (1, hd bs \<noteq> 0)) (load offset 1 f)"

subsection \<open>Numbers of variable length\<close>

text \<open>Groups of seven bits, the last one without the top bit; \<^verbatim>\<open>bytes\<close> before it is reversed.\<close>

fun var_digits :: "nat \<Rightarrow> u8 list" where
  "var_digits v =
     (if v div 128 = 0 then [of_nat (v mod 128)] else (of_nat (v mod 128) OR 0x80) # var_digits (v div 128))"

declare var_digits.simps [simp del]

definition set_variable_number :: "frame_kind \<Rightarrow> nat \<Rightarrow> 'a::len word \<Rightarrow> frame \<Rightarrow> (nat \<times> frame) option" where
  "set_variable_number k offset v f =
     (let bytes = var_digits (unat v);
          index = length bytes;
          f = (if fr_size f \<le> offset_sum k offset index then set_size k (offset + real_size v) f else f)
      in map_option (\<lambda>f. (index, f)) (store offset (if fk_big k \<and> 1 < index then rev bytes else bytes) f))"

text \<open>The loop that looks for the last group; the index is a byte.\<close>

partial_function (option) var_scan :: "frame_kind \<Rightarrow> frame \<Rightarrow> nat \<Rightarrow> nat \<Rightarrow> nat option" where
  "var_scan k f offset index =
     (if offset_sum k offset index < fr_size f \<and> fr_memory f (offset_sum k offset index) AND 0x80 \<noteq> 0
      then var_scan k f offset ((index + 1) mod 256)
      else Some index)"

definition var_value :: "u8 list \<Rightarrow> 'a::len word" where
  "var_value bs = foldl (\<lambda>v b. push_bit 7 v OR ucast (b AND 0x7F)) 0 bs"

definition get_variable_number :: "frame_kind \<Rightarrow> nat \<Rightarrow> frame \<Rightarrow> (nat \<times> 'a::len word) option" where
  "get_variable_number k offset f =
     (case var_scan k f offset 0 of
        None \<Rightarrow> None
      | Some index \<Rightarrow>
          (let index = (index + 1) mod 256
           in map_option (\<lambda>bs. (index, var_value (if fk_big k then bs else rev bs))) (load offset index f)))"

definition get_variable_number_length :: "frame_kind \<Rightarrow> nat \<Rightarrow> frame \<Rightarrow> nat option" where
  "get_variable_number_length k offset f =
     (case var_scan k f offset 0 of
        None \<Rightarrow> None
      | Some index \<Rightarrow>
          (case load (offset + index) 1 f of
             None \<Rightarrow> None
           | Some bs \<Rightarrow> Some (if hd bs AND 0x80 = 0 then (index + 1) mod 256 else 0)))"

fun variable_number_length :: "nat \<Rightarrow> nat" where
  "variable_number_length v = (if v div 128 = 0 then 1 else 1 + variable_number_length (v div 128))"

declare variable_number_length.simps [simp del]

subsection \<open>Buffers and texts\<close>

text \<open>
  \<open>set_buffer\<close> and \<open>get_buffer\<close> are instances of the templates for the type of the length, which
  the argument of type \<^typ>\<open>'a word\<close> fixes; the bytes that \<^verbatim>\<open>buffer\<close> points to are a list.
\<close>

definition set_buffer :: "frame_kind \<Rightarrow> nat \<Rightarrow> 'a::len word \<Rightarrow> u8 list \<Rightarrow> frame \<Rightarrow> (nat \<times> frame) option" where
  "set_buffer k offset len buffer f =
     (let required = to_size k (real_size len + unat len);
          f = (if fr_size f \<le> offset_sum k offset required then set_size k (offset + required) f else f)
      in case set_number k offset len f of
           None \<Rightarrow> None
         | Some (_, f) \<Rightarrow>
             if unat len = 0 then Some (required, f)
             else if length buffer < unat len then None
             else map_option (\<lambda>f. (required, f)) (store (offset + real_size len) (take (unat len) buffer) f))"

definition text_length :: "frame_kind \<Rightarrow> nat \<Rightarrow> frame \<Rightarrow> 'a::len word \<Rightarrow> 'a word" where
  "text_length k offset f len =
     (if fr_size f < offset_sum k (offset_sum k (unat len) offset) (real_size len)
      then of_int (int (fr_size f) - int (offset_sum k offset (real_size len))) else len)"

text \<open>The bytes copied into the caller's buffer of \<^verbatim>\<open>length\<close> bytes.\<close>

definition get_buffer :: "frame_kind \<Rightarrow> nat \<Rightarrow> 'a::len word \<Rightarrow> frame \<Rightarrow> (nat \<times> u8 list) option" where
  "get_buffer k offset max_length f =
     (case get_number k offset f of
        None \<Rightarrow> None
      | Some (n, len :: 'a word) \<Rightarrow>
          (let len = text_length k offset f len
           in map_option (\<lambda>bs. (to_size k (n + unat len), bs)) (load (offset + n) (unat (min len max_length)) f)))"

definition copy_in :: "frame_kind \<Rightarrow> nat \<Rightarrow> u8 list \<Rightarrow> frame \<Rightarrow> (nat \<times> frame) option" where
  "copy_in k offset buffer f = map_option (\<lambda>f. (length buffer, f)) (store offset buffer (set_size k (offset + length buffer) f))"

definition copy_out :: "nat \<Rightarrow> nat \<Rightarrow> frame \<Rightarrow> (nat \<times> u8 list) option" where
  "copy_out offset n f = map_option (\<lambda>bs. (n, bs)) (load offset n f)"

text \<open>\<^verbatim>\<open>check_and_cast\<close> to an unsigned type; a length that does not fit becomes \<open>0\<close>.\<close>

definition check_and_cast :: "nat \<Rightarrow> 'a::len word option" where
  "check_and_cast v = (if v < 2 ^ LENGTH('a) then Some (of_nat v) else None)"

definition buffer_length_cast :: "nat \<Rightarrow> 'a::len word" where
  "buffer_length_cast v = (case check_and_cast v of None \<Rightarrow> 0 | Some len \<Rightarrow> len)"

definition set_text :: "'a::len itself \<Rightarrow> frame_kind \<Rightarrow> nat \<Rightarrow> u8 list \<Rightarrow> frame \<Rightarrow> (nat \<times> frame) option" where
  "set_text ty k offset value f =
     map_option (\<lambda>(n, f). (to_size k n, f)) (set_buffer k offset (buffer_length_cast (length value) :: 'a word) value f)"

definition get_text :: "'a::len itself \<Rightarrow> frame_kind \<Rightarrow> nat \<Rightarrow> frame \<Rightarrow> (nat \<times> u8 list) option" where
  "get_text ty k offset f =
     (case get_number k offset f of
        None \<Rightarrow> None
      | Some (n, len :: 'a word) \<Rightarrow>
          (let len = text_length k offset f len
           in map_option (\<lambda>bs. (to_size k (n + unat len), bs)) (load (offset + n) (unat len) f)))"

text \<open>A text with a terminating zero; a maximum length of \<open>0\<close> asks \<^verbatim>\<open>std::string\<close> for more bytes than it can hold.\<close>

definition set_null_terminated :: "frame_kind \<Rightarrow> nat \<Rightarrow> u8 list \<Rightarrow> nat \<Rightarrow> frame \<Rightarrow> (nat \<times> frame) option" where
  "set_null_terminated k offset value max_length f =
     (let cut = max_length \<noteq> 2 ^ fk_bits k - 1 \<and> max_length < length value + 1;
          text = (if cut then take (max_length - 1) value else value);
          required = to_size k (length text + 1);
          f = (if fr_size f \<le> offset_sum k offset required then set_size k (offset + required) f else f)
      in if cut \<and> max_length = 0 then None
         else map_option (\<lambda>f. (required, f)) (store offset (take required (text @ [0])) f))"

fun terminated :: "frame \<Rightarrow> nat \<Rightarrow> nat \<Rightarrow> u8 list option" where
  "terminated f offset 0 = None"
| "terminated f offset (Suc n) =
     (if fr_memory f offset = 0 then Some [] else map_option ((#) (fr_memory f offset)) (terminated f (offset + 1) n))"

definition get_null_terminated :: "frame_kind \<Rightarrow> nat \<Rightarrow> frame \<Rightarrow> (nat \<times> u8 list) option" where
  "get_null_terminated k offset f =
     map_option (\<lambda>text. (to_size k (length text + 1), text)) (terminated f offset (fr_capacity f - offset))"

end
