(* ===== verification/Frame_Codec.thy ===== *)
theory Frame_Codec
  imports Frame
begin

text \<open>
  The readers and writers of \<^verbatim>\<open>Source/core/Frame.h\<close>, and the contract of a thing that can be
  written into a frame: where its bytes go, and that reading them returns it. The contract holds
  for numbers of every width, booleans, numbers of variable length, texts and terminated texts, and
  with it for any sequence of them.
\<close>

subsection \<open>Readers and writers\<close>

text \<open>A writer or a reader is an offset; what is written or read moves it.\<close>

definition moved :: "frame_kind \<Rightarrow> nat \<Rightarrow> (nat \<times> 'a) option \<Rightarrow> (nat \<times> 'a) option" where
  "moved k offset r = map_option (\<lambda>(n, v). (to_size k (offset + n), v)) r"

definition writer_number :: "frame_kind \<Rightarrow> 'a::len word \<Rightarrow> nat \<times> frame \<Rightarrow> (nat \<times> frame) option" where
  "writer_number k v w = moved k (fst w) (set_number k (fst w) v (snd w))"

definition writer_boolean :: "frame_kind \<Rightarrow> bool \<Rightarrow> nat \<times> frame \<Rightarrow> (nat \<times> frame) option" where
  "writer_boolean k v w = moved k (fst w) (set_boolean k (fst w) v (snd w))"

definition writer_variable_number :: "frame_kind \<Rightarrow> 'a::len word \<Rightarrow> nat \<times> frame \<Rightarrow> (nat \<times> frame) option" where
  "writer_variable_number k v w = moved k (fst w) (set_variable_number k (fst w) v (snd w))"

definition writer_buffer :: "frame_kind \<Rightarrow> 'a::len word \<Rightarrow> u8 list \<Rightarrow> nat \<times> frame \<Rightarrow> (nat \<times> frame) option" where
  "writer_buffer k len buffer w = moved k (fst w) (set_buffer k (fst w) len buffer (snd w))"

definition writer_copy :: "frame_kind \<Rightarrow> u8 list \<Rightarrow> nat \<times> frame \<Rightarrow> (nat \<times> frame) option" where
  "writer_copy k buffer w = moved k (fst w) (copy_in k (fst w) buffer (snd w))"

definition writer_text :: "'a::len itself \<Rightarrow> frame_kind \<Rightarrow> u8 list \<Rightarrow> nat \<times> frame \<Rightarrow> (nat \<times> frame) option" where
  "writer_text ty k value w = moved k (fst w) (set_text ty k (fst w) value (snd w))"

definition writer_null_terminated :: "frame_kind \<Rightarrow> u8 list \<Rightarrow> nat \<times> frame \<Rightarrow> (nat \<times> frame) option" where
  "writer_null_terminated k value w =
     moved k (fst w) (set_null_terminated k (fst w) value (2 ^ fk_bits k - 1) (snd w))"

definition reader_number :: "frame_kind \<Rightarrow> frame \<Rightarrow> nat \<Rightarrow> (nat \<times> 'a::len word) option" where
  "reader_number k f offset = moved k offset (get_number k offset f)"

definition reader_peek_number :: "frame_kind \<Rightarrow> frame \<Rightarrow> nat \<Rightarrow> 'a::len word option" where
  "reader_peek_number k f offset = map_option snd (get_number k offset f)"

definition reader_boolean :: "frame_kind \<Rightarrow> frame \<Rightarrow> nat \<Rightarrow> (nat \<times> bool) option" where
  "reader_boolean k f offset = moved k offset (get_boolean offset f)"

definition reader_buffer :: "frame_kind \<Rightarrow> 'a::len word \<Rightarrow> frame \<Rightarrow> nat \<Rightarrow> (nat \<times> u8 list) option" where
  "reader_buffer k max_length f offset = moved k offset (get_buffer k offset max_length f)"

definition reader_copy :: "frame_kind \<Rightarrow> nat \<Rightarrow> frame \<Rightarrow> nat \<Rightarrow> (nat \<times> u8 list) option" where
  "reader_copy k n f offset = moved k offset (copy_out offset n f)"

definition reader_text :: "'a::len itself \<Rightarrow> frame_kind \<Rightarrow> frame \<Rightarrow> nat \<Rightarrow> (nat \<times> u8 list) option" where
  "reader_text ty k f offset = moved k offset (get_text ty k offset f)"

definition reader_null_terminated :: "frame_kind \<Rightarrow> frame \<Rightarrow> nat \<Rightarrow> (nat \<times> u8 list) option" where
  "reader_null_terminated k f offset = moved k offset (get_null_terminated k offset f)"

definition reader_has_data :: "frame \<Rightarrow> nat \<Rightarrow> bool" where
  "reader_has_data f offset \<longleftrightarrow> offset < fr_size f"

definition reader_length :: "frame_kind \<Rightarrow> frame \<Rightarrow> nat \<Rightarrow> nat" where
  "reader_length k f offset = nat ((int (fr_size f) - int offset) mod 2 ^ 32)"

definition reader_forward :: "frame_kind \<Rightarrow> nat \<Rightarrow> nat \<Rightarrow> nat" where
  "reader_forward k skip offset = to_size k (offset + skip)"

subsection \<open>Memory\<close>

lemma length_segment [simp]: "length (segment f i n) = n"
  by (simp add: segment_def)

lemma nth_segment [simp]: "j < n \<Longrightarrow> segment f i n ! j = fr_memory f (i + j)"
  by (simp add: segment_def)

lemma segment_0 [simp]: "segment f i 0 = []"
  by (simp add: segment_def)

lemma segment_append: "segment f i (m + n) = segment f i m @ segment f (i + m) n"
  by (rule nth_equalityI) (auto simp: nth_append)

lemma segment_eqI: "(\<And>j. j < length bs \<Longrightarrow> fr_memory f (i + j) = bs ! j) \<Longrightarrow> n = length bs \<Longrightarrow> segment f i n = bs"
  by (rule nth_equalityI) simp_all

lemma segment_nth: "segment f i (length bs) = bs \<Longrightarrow> j < length bs \<Longrightarrow> fr_memory f (i + j) = bs ! j"
  by (metis nth_segment)

lemma segment_cong: "(\<And>j. i \<le> j \<Longrightarrow> j < i + n \<Longrightarrow> fr_memory g j = fr_memory f j) \<Longrightarrow> segment g i n = segment f i n"
  by (simp add: segment_def)

lemma segment_size [simp]: "segment (f\<lparr>fr_size := n\<rparr>) i m = segment f i m"
  and segment_capacity [simp]: "segment (f\<lparr>fr_capacity := n\<rparr>) i m = segment f i m"
  by (simp_all add: segment_def)

text \<open>
  \<open>limit\<close> bytes fit: the block has them, or the memory manager hands them out and the rounded size
  of the block is a size.
\<close>

definition frame_room :: "frame_kind \<Rightarrow> nat \<Rightarrow> frame \<Rightarrow> bool" where
  "frame_room k limit f \<longleftrightarrow> (fk_bits k = 16 \<or> fk_bits k = 32) \<and> limit < 2 ^ fk_bits k \<and>
     fr_size f \<le> fr_capacity f \<and> fr_size f \<le> limit \<and>
     (limit \<le> fr_capacity f \<or>
      fk_block k \<noteq> 0 \<and> (limit div fk_block k + 1) * fk_block k < 2 ^ fk_bits k \<and> (\<forall>n<2 ^ fk_bits k. fk_granted k n))"

text \<open>What writing \<open>bs\<close> at an offset does to the frame.\<close>

definition wrote :: "nat \<Rightarrow> u8 list \<Rightarrow> frame \<Rightarrow> frame \<Rightarrow> bool" where
  "wrote offset bs f g \<longleftrightarrow> fr_size g = max (fr_size f) (offset + length bs) \<and> segment g offset (length bs) = bs \<and>
     (\<forall>i. i < offset \<or> offset + length bs \<le> i \<longrightarrow> fr_memory g i = fr_memory f i)"

lemma offset_sum_id [simp]: "frame_room k limit f \<Longrightarrow> a + b \<le> limit \<Longrightarrow> offset_sum k a b = a + b"
  by (auto simp: frame_room_def offset_sum_def)

lemma to_size_id [simp]: "frame_room k limit f \<Longrightarrow> n \<le> limit \<Longrightarrow> to_size k n = n"
  by (auto simp: frame_room_def to_size_def)

lemma set_size_room:
  assumes "frame_room k limit f" "n \<le> limit"
  shows "frame_room k limit (set_size k n f)" "fr_size (set_size k n f) = n"
    "n \<le> fr_capacity (set_size k n f)" "fr_memory (set_size k n f) = fr_memory f"
proof -
  have n: "to_size k n = n" using assms by simp
  have bits: "fk_bits k \<le> 32" "n < 2 ^ fk_bits k" using assms by (auto simp: frame_room_def)
  have m: "2 ^ fk_bits k \<le> (2 :: nat) ^ 32" using bits(1) by (rule power_increasing) simp
  consider "n \<le> fr_capacity f"
    | "fr_capacity f < n" "fk_block k \<noteq> 0" "(limit div fk_block k + 1) * fk_block k < 2 ^ fk_bits k"
      "\<forall>n<2 ^ fk_bits k. fk_granted k n"
    using assms by (fastforce simp: frame_room_def)
  then have "frame_room k limit (set_size k n f) \<and> fr_size (set_size k n f) = n \<and>
    n \<le> fr_capacity (set_size k n f) \<and> fr_memory (set_size k n f) = fr_memory f"
  proof cases
    case 1
    then show ?thesis using assms n by (auto simp: set_size_def allocate_def frame_room_def)
  next
    case 2
    obtain b where b: "b = (n div fk_block k + 1) * fk_block k" by blast
    have "b \<le> (limit div fk_block k + 1) * fk_block k"
      unfolding b using assms(2) by (intro mult_right_mono add_right_mono div_le_mono) simp_all
    with 2 have lt: "b < 2 ^ fk_bits k" by simp
    then have bs: "block_size k n = b" using m by (simp add: block_size_def to_size_def b)
    have "n < b"
      unfolding b using 2(2) by (metis dividend_less_times_div mult.commute neq0_conv add.commute mult_Suc Suc_eq_plus1)
    with 2 lt bs n show ?thesis using assms by (auto simp: set_size_def allocate_def frame_room_def)
  qed
  then show "frame_room k limit (set_size k n f)" "fr_size (set_size k n f) = n"
    "n \<le> fr_capacity (set_size k n f)" "fr_memory (set_size k n f) = fr_memory f" by simp_all
qed

text \<open>The pattern of the writers: enlarge the frame when the bytes end behind it, then copy.\<close>

lemma grow_and_store:
  assumes room: "frame_room k limit f" and fits: "offset + length bs \<le> limit"
    and f': "f' = (if fr_size f \<le> offset + length bs then set_size k (offset + length bs) f else f)"
  shows "\<exists>g. store offset bs f' = Some g \<and> wrote offset bs f g \<and> frame_room k limit g"
proof -
  have r: "frame_room k limit f'" "fr_size f' = max (fr_size f) (offset + length bs)" "fr_memory f' = fr_memory f"
    using set_size_room [OF room fits] room by (auto simp: f')
  have c: "offset + length bs \<le> fr_capacity f'"
    using r(1,2) by (simp add: frame_room_def)
  show ?thesis
  proof (cases "bs = []")
    case True
    then show ?thesis using r by (simp add: store_def wrote_def)
  next
    case False
    then show ?thesis
      using r c by (auto simp: store_def wrote_def frame_room_def intro!: segment_eqI)
  qed
qed

subsection \<open>Bytes of a number\<close>

lemma length_value_bytes [simp]: "length (value_bytes (v :: 'a::len word)) = LENGTH('a) div 8"
  by (simp add: value_bytes_def real_size_def)

lemma length_ordered_bytes [simp]: "length (ordered_bytes k (v :: 'a::len word)) = LENGTH('a) div 8"
  by (simp add: ordered_bytes_def)

lemma bit_bytes_value:
  "bit (bytes_value bs :: 'a::len word) i \<longleftrightarrow> i < LENGTH('a) \<and> i div 8 < length bs \<and> bit (bs ! (i div 8)) (i mod 8)"
proof (induction bs arbitrary: i)
  case Nil
  then show ?case by (simp add: bytes_value_def)
next
  case (Cons b bs)
  have e: "bytes_value (b # bs) = ucast b OR push_bit 8 (bytes_value bs :: 'a word)"
    by (simp add: bytes_value_def)
  show ?case
  proof (cases "i < 8")
    case True
    then show ?thesis by (simp add: e bit_simps)
  next
    case False
    have "\<not> bit b i" using False bit_imp_le_length [of b i] by auto
    moreover have "i div 8 = Suc ((i - 8) div 8)" "(i - 8) mod 8 = i mod 8"
      using False by (auto simp: le_div_geq le_mod_geq)
    ultimately show ?thesis using False by (auto simp: e bit_simps Cons.IH)
  qed
qed

lemma bytes_value_bytes:
  assumes "8 dvd LENGTH('a::len)"
  shows "bytes_value (value_bytes v) = (v :: 'a word)"
proof (rule bit_word_eqI)
  fix i assume i: "i < LENGTH('a)"
  then have d: "i div 8 < LENGTH('a) div 8" using assms by (intro less_mult_imp_div_less) simp
  have "i mod 8 < 8" "8 * (i div 8) + i mod 8 = i" by simp_all
  then show "bit (bytes_value (value_bytes v) :: 'a word) i = bit v i"
    using i d by (simp add: bit_bytes_value value_bytes_def real_size_def bit_simps)
qed

lemma one_byte:
  assumes "8 dvd LENGTH('a::len)" "LENGTH('a) div 8 = 1"
  shows "ordered_bytes k (v :: 'a word) = [ucast v]" "ucast (ucast v :: u8) = v"
proof -
  have l: "LENGTH('a) = 8" using assms by (metis dvd_mult_div_cancel mult.right_neutral)
  show "ordered_bytes k (v :: 'a word) = [ucast v]" using assms by (simp add: ordered_bytes_def value_bytes_def real_size_def)
  show "ucast (ucast v :: u8) = v" using l by (intro bit_word_eqI) (auto simp: bit_simps)
qed


subsection \<open>The contract of a field\<close>

text \<open>\<open>shape v\<close> is what the reader has to know of \<open>v\<close>: the type it asks for.\<close>

locale frame_codec =
  fixes fits :: "frame_kind \<Rightarrow> 'v \<Rightarrow> bool"
    and encode :: "frame_kind \<Rightarrow> 'v \<Rightarrow> u8 list"
    and put :: "frame_kind \<Rightarrow> 'v \<Rightarrow> nat \<times> frame \<Rightarrow> (nat \<times> frame) option"
    and shape :: "'v \<Rightarrow> 's"
    and get :: "frame_kind \<Rightarrow> 's \<Rightarrow> frame \<Rightarrow> nat \<Rightarrow> (nat \<times> 'v) option"
  assumes writes: "fits k v \<Longrightarrow> frame_room k limit f \<Longrightarrow> offset + length (encode k v) \<le> limit \<Longrightarrow>
      \<exists>g. put k v (offset, f) = Some (offset + length (encode k v), g) \<and> wrote offset (encode k v) f g \<and> frame_room k limit g"
    and reads: "fits k v \<Longrightarrow> frame_room k limit f \<Longrightarrow> segment f offset (length (encode k v)) = encode k v \<Longrightarrow>
      offset + length (encode k v) \<le> fr_size f \<Longrightarrow> get k (shape v) f offset = Some (offset + length (encode k v), v)"

text \<open>A sequence of fields.\<close>

fun write_all :: "('v \<Rightarrow> nat \<times> frame \<Rightarrow> (nat \<times> frame) option) \<Rightarrow> 'v list \<Rightarrow> nat \<times> frame \<Rightarrow> (nat \<times> frame) option" where
  "write_all w [] s = Some s"
| "write_all w (v # vs) s = Option.bind (w v s) (write_all w vs)"

fun read_all :: "('s \<Rightarrow> frame \<Rightarrow> nat \<Rightarrow> (nat \<times> 'v) option) \<Rightarrow> 's list \<Rightarrow> frame \<Rightarrow> nat \<Rightarrow> (nat \<times> 'v list) option" where
  "read_all r [] f offset = Some (offset, [])"
| "read_all r (s # ss) f offset =
     Option.bind (r s f offset) (\<lambda>(offset, v). map_option (\<lambda>(offset, vs). (offset, v # vs)) (read_all r ss f offset))"

lemma wrote_append:
  assumes "wrote offset bs f g" "wrote (offset + length bs) cs g h"
  shows "wrote offset (bs @ cs) f h"
proof -
  have "segment h offset (length bs) = segment g offset (length bs)"
    using assms(2) by (intro segment_cong) (auto simp: wrote_def)
  then show ?thesis
    using assms by (auto simp: wrote_def segment_append add.assoc max.assoc)
qed

context frame_codec
begin

lemma write_all_fields:
  assumes "\<forall>v\<in>set vs. fits k v" "frame_room k limit f" "offset + length (concat (map (encode k) vs)) \<le> limit"
  shows "\<exists>g. write_all (put k) vs (offset, f) = Some (offset + length (concat (map (encode k) vs)), g) \<and>
    (vs \<noteq> [] \<longrightarrow> wrote offset (concat (map (encode k) vs)) f g) \<and> frame_room k limit g"
  using assms
proof (induction vs arbitrary: offset f)
  case (Cons v vs)
  obtain g where g: "put k v (offset, f) = Some (offset + length (encode k v), g)"
    "wrote offset (encode k v) f g" "frame_room k limit g"
    using writes [of k v limit f offset] Cons.prems by auto
  obtain h where "write_all (put k) vs (offset + length (encode k v), g) =
      Some (offset + length (encode k v) + length (concat (map (encode k) vs)), h)"
    "vs \<noteq> [] \<longrightarrow> wrote (offset + length (encode k v)) (concat (map (encode k) vs)) g h" "frame_room k limit h"
    using Cons.IH [OF _ g(3), of "offset + length (encode k v)"] Cons.prems by (auto simp: add.assoc)
  then show ?case
    using g by (cases "vs = []") (auto intro: wrote_append simp: add.assoc)
qed simp

lemma read_all_fields:
  assumes "\<forall>v\<in>set vs. fits k v" "frame_room k limit f"
    "segment f offset (length (concat (map (encode k) vs))) = concat (map (encode k) vs)"
    "offset + length (concat (map (encode k) vs)) \<le> fr_size f"
  shows "read_all (get k) (map shape vs) f offset = Some (offset + length (concat (map (encode k) vs)), vs)"
  using assms
proof (induction vs arbitrary: offset)
  case (Cons v vs)
  have s: "segment f offset (length (encode k v)) = encode k v"
    "segment f (offset + length (encode k v)) (length (concat (map (encode k) vs))) = concat (map (encode k) vs)"
    using Cons.prems(3) by (simp_all add: segment_append)
  have r: "get k (shape v) f offset = Some (offset + length (encode k v), v)"
    using reads [OF _ Cons.prems(2) s(1)] Cons.prems by simp
  have "read_all (get k) (map shape vs) f (offset + length (encode k v)) =
    Some (offset + length (encode k v) + length (concat (map (encode k) vs)), vs)"
    using Cons.IH [OF _ Cons.prems(2) s(2)] Cons.prems by (simp add: add.assoc)
  with r show ?case by (simp add: add.assoc)
qed simp

lemma write_then_read:
  assumes "\<forall>v\<in>set vs. fits k v" "frame_room k limit f" "offset + length (concat (map (encode k) vs)) \<le> limit"
    "write_all (put k) vs (offset, f) = Some (offset', g)" "vs \<noteq> []"
  shows "read_all (get k) (map shape vs) g offset = Some (offset', vs)"
proof -
  obtain g' where "write_all (put k) vs (offset, f) = Some (offset + length (concat (map (encode k) vs)), g')"
    "wrote offset (concat (map (encode k) vs)) f g'" "frame_room k limit g'"
    using write_all_fields [OF assms(1-3)] assms(5) by blast
  then show ?thesis using read_all_fields [OF assms(1), of limit g offset] assms(4) by (simp add: wrote_def)
qed

end

subsection \<open>Numbers and booleans\<close>

lemma set_number_writes:
  assumes "8 dvd LENGTH('a::len)" "frame_room k limit f" "offset + LENGTH('a) div 8 \<le> limit"
  shows "\<exists>g. set_number k offset (v :: 'a word) f = Some (LENGTH('a) div 8, g) \<and> wrote offset (ordered_bytes k v) f g \<and> frame_room k limit g"
proof -
  have b: "(if real_size v = 1 then [ucast v] else ordered_bytes k v) = ordered_bytes k v"
    using one_byte(1) [OF assms(1), of k v] by (auto simp: real_size_def)
  have "\<exists>g. store offset (ordered_bytes k v)
      (if fr_size f \<le> offset + length (ordered_bytes k v) then set_size k (offset + length (ordered_bytes k v)) f else f) = Some g
      \<and> wrote offset (ordered_bytes k v) f g \<and> frame_room k limit g"
    by (rule grow_and_store [OF assms(2) _ refl]) (use assms(3) in simp)
  moreover have "offset_sum k offset (real_size v) = offset + LENGTH('a) div 8"
    using assms by (simp add: real_size_def)
  ultimately show ?thesis
    unfolding set_number_def Let_def b by (auto simp: real_size_def)
qed

lemma load_room: "frame_room k limit f \<Longrightarrow> offset + n \<le> fr_size f \<Longrightarrow> load offset n f = Some (segment f offset n)"
  by (auto simp: load_def frame_room_def)

lemma get_number_reads:
  assumes "8 dvd LENGTH('a::len)" "frame_room k limit f"
    "segment f offset (LENGTH('a) div 8) = ordered_bytes k v" "offset + LENGTH('a) div 8 \<le> fr_size f"
  shows "get_number k offset f = Some (LENGTH('a) div 8, v :: 'a word)"
proof (cases "LENGTH('a) div 8 = 1")
  case True
  then show ?thesis
    using assms one_byte [OF assms(1) True] by (simp add: get_number_def load_room)
next
  case False
  have "offset + LENGTH('a) div 8 \<le> limit" using assms by (simp add: frame_room_def)
  then have s: "offset_sum k offset (LENGTH('a) div 8) = offset + LENGTH('a) div 8" using assms(2) by simp
  have v: "bytes_value (value_bytes v) = v" using assms(1) by (rule bytes_value_bytes)
  show ?thesis
    using False assms s by (simp add: get_number_def load_room ordered_bytes_def v)
qed

lemma moved_room: "frame_room k limit f \<Longrightarrow> offset + n \<le> limit \<Longrightarrow> moved k offset (Some (n, v)) = Some (offset + n, v)"
  by (simp add: moved_def)

interpretation number_field: frame_codec
  "\<lambda>k (v :: 'a::len word). 8 dvd LENGTH('a)" ordered_bytes writer_number "\<lambda>v. ()" "\<lambda>k s. reader_number k"
proof
  fix k limit f offset and v :: "'a word"
  assume a: "8 dvd LENGTH('a)" "frame_room k limit f"
  { assume l: "offset + length (ordered_bytes k v) \<le> limit"
    show "\<exists>g. writer_number k v (offset, f) = Some (offset + length (ordered_bytes k v), g) \<and> wrote offset (ordered_bytes k v) f g \<and> frame_room k limit g"
      using set_number_writes [OF a, of offset v] l a by (auto simp: writer_number_def moved_room) }
  { assume "segment f offset (length (ordered_bytes k v)) = ordered_bytes k v" "offset + length (ordered_bytes k v) \<le> fr_size f"
    moreover from this have "offset + LENGTH('a) div 8 \<le> limit" using a by (simp add: frame_room_def)
    ultimately show "reader_number k f offset = Some (offset + length (ordered_bytes k v), v)"
      using get_number_reads [OF a, of offset v] a by (simp add: reader_number_def moved_room) }
qed

interpretation boolean_field: frame_codec
  "\<lambda>k v. True" "\<lambda>k v. [if v then 1 else 0]" writer_boolean "\<lambda>v. ()" "\<lambda>k s. reader_boolean k"
proof
  fix k limit f offset and v :: bool
  assume a: "frame_room k limit f"
  { assume l: "offset + length [if v then 1 else 0 :: u8] \<le> limit"
    show "\<exists>g. writer_boolean k v (offset, f) = Some (offset + length [if v then 1 else 0 :: u8], g) \<and>
        wrote offset [if v then 1 else 0] f g \<and> frame_room k limit g"
      using grow_and_store [OF a l refl] l a by (auto simp: writer_boolean_def set_boolean_def moved_room) }
  { assume b: "segment f offset (length [if v then 1 else 0 :: u8]) = [if v then 1 else 0]" "offset + length [if v then 1 else 0 :: u8] \<le> fr_size f"
    moreover from this have "offset + 1 \<le> limit" using a by (simp add: frame_room_def)
    ultimately show "reader_boolean k f offset = Some (offset + length [if v then 1 else 0 :: u8], v)"
      using a by (auto simp: reader_boolean_def get_boolean_def load_room moved_room) }
qed

subsection \<open>Texts\<close>

definition text_bytes :: "'a::len itself \<Rightarrow> frame_kind \<Rightarrow> u8 list \<Rightarrow> u8 list" where
  "text_bytes ty k value = ordered_bytes k (of_nat (length value) :: 'a word) @ value"

lemma length_text_bytes [simp]: "length (text_bytes (ty :: 'a::len itself) k value) = LENGTH('a) div 8 + length value"
  by (simp add: text_bytes_def)

lemma set_text_writes:
  fixes ty :: "'a::len itself"
  assumes "8 dvd LENGTH('a)" "length value < 2 ^ LENGTH('a)" "frame_room k limit f"
    "offset + LENGTH('a) div 8 + length value \<le> limit"
  shows "\<exists>g. set_text ty k offset value f = Some (LENGTH('a) div 8 + length value, g) \<and>
    wrote offset (text_bytes ty k value) f g \<and> frame_room k limit g"
proof -
  obtain n where n: "n = LENGTH('a) div 8" by blast
  obtain len :: "'a word" where len: "len = of_nat (length value)" by blast
  have u: "unat len = length value" "buffer_length_cast (length value) = len"
    using assms(2) by (simp_all add: len buffer_length_cast_def check_and_cast_def unat_of_nat take_bit_nat_eq_self)
  obtain f' where f': "f' = (if fr_size f \<le> offset + (n + length value) then set_size k (offset + (n + length value)) f else f)" by blast
  have r: "frame_room k limit f'" "fr_size f' = max (fr_size f) (offset + (n + length value))" "fr_memory f' = fr_memory f"
    using set_size_room [OF assms(3), of "offset + (n + length value)"] assms(3,4) by (auto simp: f' n)
  obtain g where g: "set_number k offset len f' = Some (n, g)" "wrote offset (ordered_bytes k len) f' g" "frame_room k limit g"
    using set_number_writes [OF assms(1) r(1), of offset len] assms(4) by (auto simp: n)
  have size: "fr_size g = max (fr_size f) (offset + (n + length value))" using g(2) r(2) by (simp add: wrote_def n)
  have "\<exists>h. store (offset + n) value g = Some h \<and> wrote (offset + n) value g h \<and> frame_room k limit h"
    using g(3) size by (cases "value = []") (auto simp: store_def wrote_def frame_room_def intro!: segment_eqI)
  then obtain h where h: "store (offset + n) value g = Some h" "wrote (offset + n) value g h" "frame_room k limit h" by blast
  have w: "wrote offset (text_bytes ty k value) f h"
    unfolding text_bytes_def len [symmetric]
    using wrote_append [of offset "ordered_bytes k len" f' g "value" h] g(2) h(2) r by (auto simp: wrote_def n)
  have "to_size k (n + length value) = n + length value" "offset_sum k offset (n + length value) = offset + (n + length value)"
    using assms(3,4) by (simp_all add: n)
  then have "set_buffer k offset len value f = Some (n + length value, h)"
    using g(1) h(1) by (simp add: set_buffer_def u real_size_def n [symmetric] f' [symmetric] store_def split: if_splits)
  then show ?thesis
    using w h(3) assms(3,4) by (simp add: set_text_def u n [symmetric])
qed

lemma get_text_reads:
  fixes ty :: "'a::len itself"
  assumes "8 dvd LENGTH('a)" "length value < 2 ^ LENGTH('a)" "frame_room k limit f"
    "segment f offset (length (text_bytes ty k value)) = text_bytes ty k value"
    "offset + length (text_bytes ty k value) \<le> fr_size f"
  shows "get_text ty k offset f = Some (LENGTH('a) div 8 + length value, value)"
proof -
  obtain n where n: "n = LENGTH('a) div 8" by blast
  obtain len :: "'a word" where len: "len = of_nat (length value)" by blast
  have u: "unat len = length value" using assms(2) by (simp add: len unat_of_nat take_bit_nat_eq_self)
  have s: "segment f offset n = ordered_bytes k len" "segment f (offset + n) (length value) = value"
    using assms(4) by (simp_all add: n text_bytes_def len segment_append)
  have l: "offset + (n + length value) \<le> fr_size f" "fr_size f \<le> limit" using assms(3,5) by (simp_all add: n frame_room_def)
  have "get_number k offset f = Some (n, len)"
    using get_number_reads [OF assms(1,3), of offset len] s(1) l by (simp add: n)
  moreover have "text_length k offset f len = len"
    using l assms(3) by (simp add: text_length_def u real_size_def n [symmetric] add.commute add.left_commute)
  moreover have "load (offset + n) (length value) f = Some value"
    using load_room [OF assms(3), of "offset + n" "length value"] l s(2) by (simp add: add.assoc)
  ultimately show ?thesis
    using l assms(3) by (simp add: get_text_def u n [symmetric])
qed

interpretation text_field: frame_codec
  "\<lambda>k v. 8 dvd LENGTH('a) \<and> length v < 2 ^ LENGTH('a)" "text_bytes TYPE('a::len)" "writer_text TYPE('a)" "\<lambda>v. ()" "\<lambda>k s. reader_text TYPE('a) k"
proof
  fix k limit f offset and v :: "u8 list"
  assume a: "8 dvd LENGTH('a) \<and> length v < 2 ^ LENGTH('a)" "frame_room k limit f"
  { assume l: "offset + length (text_bytes TYPE('a) k v) \<le> limit"
    show "\<exists>g. writer_text TYPE('a) k v (offset, f) = Some (offset + length (text_bytes TYPE('a) k v), g) \<and>
        wrote offset (text_bytes TYPE('a) k v) f g \<and> frame_room k limit g"
      using set_text_writes [of v k limit f offset "TYPE('a)"] l a by (auto simp: writer_text_def moved_room add.assoc) }
  { assume b: "segment f offset (length (text_bytes TYPE('a) k v)) = text_bytes TYPE('a) k v" "offset + length (text_bytes TYPE('a) k v) \<le> fr_size f"
    moreover from this have "offset + (LENGTH('a) div 8 + length v) \<le> limit" using a by (simp add: frame_room_def)
    ultimately show "reader_text TYPE('a) k f offset = Some (offset + length (text_bytes TYPE('a) k v), v)"
      using get_text_reads [of v k limit f offset "TYPE('a)"] a by (simp add: reader_text_def moved_room) }
qed

end
