(* ===== verification/Frame_Properties.thy ===== *)
theory Frame_Properties
  imports Frame_Codec
begin

text \<open>
  What the frames of \<^verbatim>\<open>Source/core/Frame.h\<close> promise: any sequence of numbers, booleans and texts that a
  writer puts into a frame is what a reader takes out of it, and nothing else of the frame changes.
  Numbers of variable length keep less than that.
\<close>

subsection \<open>Terminated texts\<close>

lemma terminated_reads:
  assumes "0 \<notin> set t" "segment f offset (length t + 1) = t @ [0]" "length t < n"
  shows "terminated f offset n = Some t"
  using assms
proof (induction t arbitrary: offset n)
  case Nil
  then show ?case by (cases n) (simp_all add: segment_def)
next
  case (Cons c t)
  have "fr_memory f offset = c" "segment f (offset + 1) (length t + 1) = t @ [0]"
    using Cons.prems(2) segment_append [of f offset 1 "length t + 1"] by (simp_all add: segment_def)
  with Cons show ?case by (cases n) auto
qed

interpretation terminated_field: frame_codec
  "\<lambda>k v. 0 \<notin> set v" "\<lambda>k v. v @ [0]" writer_null_terminated "\<lambda>v. ()" "\<lambda>k s. reader_null_terminated k"
proof
  fix k limit f offset and v :: "u8 list"
  assume a: "0 \<notin> set v" "frame_room k limit f"
  { assume l: "offset + length (v @ [0]) \<le> limit"
    have r: "to_size k (length v + 1) = length v + 1" using l a(2) by simp
    have c: "length v + 1 \<le> 2 ^ fk_bits k - 1" using l a(2) by (auto simp: frame_room_def)
    have o: "offset_sum k offset (length v + 1) = offset + (length v + 1)" using l a(2) by simp
    show "\<exists>g. writer_null_terminated k v (offset, f) = Some (offset + length (v @ [0]), g) \<and>
        wrote offset (v @ [0]) f g \<and> frame_room k limit g"
      using grow_and_store [OF a(2) l refl] l a r c o
      by (auto simp: writer_null_terminated_def set_null_terminated_def Let_def moved_room) }
  { assume b: "segment f offset (length (v @ [0])) = v @ [0]" "offset + length (v @ [0]) \<le> fr_size f"
    then have "offset + (length v + 1) \<le> limit" "length v < fr_capacity f - offset" using a by (auto simp: frame_room_def)
    then show "reader_null_terminated k f offset = Some (offset + length (v @ [0]), v)"
      using terminated_reads [of v f offset] a b
      by (simp add: reader_null_terminated_def get_null_terminated_def moved_room) }
qed

subsection \<open>Sequences of fields\<close>

datatype field = Byte u8 | Short u16 | Long u32 | Longer u64 | Flag bool | Tiny_text "u8 list" | Text "u8 list" | Terminated "u8 list"

datatype field_type = Byte_t | Short_t | Long_t | Longer_t | Flag_t | Tiny_text_t | Text_t | Terminated_t

fun field_type_of :: "field \<Rightarrow> field_type" where
  "field_type_of (Byte _) = Byte_t"
| "field_type_of (Short _) = Short_t"
| "field_type_of (Long _) = Long_t"
| "field_type_of (Longer _) = Longer_t"
| "field_type_of (Flag _) = Flag_t"
| "field_type_of (Tiny_text _) = Tiny_text_t"
| "field_type_of (Text _) = Text_t"
| "field_type_of (Terminated _) = Terminated_t"

fun field_fits :: "frame_kind \<Rightarrow> field \<Rightarrow> bool" where
  "field_fits k (Tiny_text v) = (length v < 2 ^ 8)"
| "field_fits k (Text v) = (length v < 2 ^ 16)"
| "field_fits k (Terminated v) = (0 \<notin> set v)"
| "field_fits k _ = True"

fun field_bytes :: "frame_kind \<Rightarrow> field \<Rightarrow> u8 list" where
  "field_bytes k (Byte v) = ordered_bytes k v"
| "field_bytes k (Short v) = ordered_bytes k v"
| "field_bytes k (Long v) = ordered_bytes k v"
| "field_bytes k (Longer v) = ordered_bytes k v"
| "field_bytes k (Flag v) = [if v then 1 else 0]"
| "field_bytes k (Tiny_text v) = text_bytes TYPE(8) k v"
| "field_bytes k (Text v) = text_bytes TYPE(16) k v"
| "field_bytes k (Terminated v) = v @ [0]"

fun write_field :: "frame_kind \<Rightarrow> field \<Rightarrow> nat \<times> frame \<Rightarrow> (nat \<times> frame) option" where
  "write_field k (Byte v) = writer_number k v"
| "write_field k (Short v) = writer_number k v"
| "write_field k (Long v) = writer_number k v"
| "write_field k (Longer v) = writer_number k v"
| "write_field k (Flag v) = writer_boolean k v"
| "write_field k (Tiny_text v) = writer_text TYPE(8) k v"
| "write_field k (Text v) = writer_text TYPE(16) k v"
| "write_field k (Terminated v) = writer_null_terminated k v"

definition read_as :: "('a \<Rightarrow> field) \<Rightarrow> (nat \<times> 'a) option \<Rightarrow> (nat \<times> field) option" where
  "read_as c r = map_option (\<lambda>(n, v). (n, c v)) r"

fun read_field :: "frame_kind \<Rightarrow> field_type \<Rightarrow> frame \<Rightarrow> nat \<Rightarrow> (nat \<times> field) option" where
  "read_field k Byte_t f offset = read_as Byte (reader_number k f offset)"
| "read_field k Short_t f offset = read_as Short (reader_number k f offset)"
| "read_field k Long_t f offset = read_as Long (reader_number k f offset)"
| "read_field k Longer_t f offset = read_as Longer (reader_number k f offset)"
| "read_field k Flag_t f offset = read_as Flag (reader_boolean k f offset)"
| "read_field k Tiny_text_t f offset = read_as Tiny_text (reader_text TYPE(8) k f offset)"
| "read_field k Text_t f offset = read_as Text (reader_text TYPE(16) k f offset)"
| "read_field k Terminated_t f offset = read_as Terminated (reader_null_terminated k f offset)"

interpretation field: frame_codec field_fits field_bytes write_field field_type_of read_field
proof
  fix k limit f offset and v :: field
  assume a: "field_fits k v" "frame_room k limit f"
  { assume l: "offset + length (field_bytes k v) \<le> limit"
    show "\<exists>g. write_field k v (offset, f) = Some (offset + length (field_bytes k v), g) \<and>
        wrote offset (field_bytes k v) f g \<and> frame_room k limit g"
      using a l number_field.writes [OF _ a(2), where ?'a = 8] number_field.writes [OF _ a(2), where ?'a = 16]
        number_field.writes [OF _ a(2), where ?'a = 32] number_field.writes [OF _ a(2), where ?'a = 64]
        boolean_field.writes [OF _ a(2)] text_field.writes [OF _ a(2), where ?'a = 8]
        text_field.writes [OF _ a(2), where ?'a = 16] terminated_field.writes [OF _ a(2)]
      by (cases v) simp_all }
  { assume b: "segment f offset (length (field_bytes k v)) = field_bytes k v" "offset + length (field_bytes k v) \<le> fr_size f"
    show "read_field k (field_type_of v) f offset = Some (offset + length (field_bytes k v), v)"
      using a b number_field.reads [OF _ a(2), where ?'a = 8] number_field.reads [OF _ a(2), where ?'a = 16]
        number_field.reads [OF _ a(2), where ?'a = 32] number_field.reads [OF _ a(2), where ?'a = 64]
        boolean_field.reads [OF _ a(2)] text_field.reads [OF _ a(2), where ?'a = 8]
        text_field.reads [OF _ a(2), where ?'a = 16] terminated_field.reads [OF _ a(2)]
      by (cases v) (simp_all add: read_as_def) }
qed

text \<open>Whatever fields a writer puts into a frame, at any offset, a reader takes out, in both byte
  orders and with both widths of the size, and the frame is otherwise as before: its size covers the
  fields and no other byte has changed.\<close>

theorem frame_roundtrip:
  assumes "\<forall>v\<in>set vs. field_fits k v" "vs \<noteq> []" "frame_room k limit f"
    "offset + length (concat (map (field_bytes k) vs)) \<le> limit"
  shows "\<exists>g. write_all (write_field k) vs (offset, f) = Some (offset + length (concat (map (field_bytes k) vs)), g) \<and>
    read_all (read_field k) (map field_type_of vs) g offset = Some (offset + length (concat (map (field_bytes k) vs)), vs) \<and>
    wrote offset (concat (map (field_bytes k) vs)) f g"
  using field.write_all_fields [OF assms(1,3,4)] field.write_then_read [OF assms(1,3,4)] assms(2) by blast

definition small_kind :: frame_kind where
  "small_kind = \<lparr>fk_block = 16, fk_big = True, fk_bits = 16, fk_granted = \<lambda>n. True\<rparr>"

definition small_frame :: frame where
  "small_frame = \<lparr>fr_size = 0, fr_capacity = 16, fr_memory = \<lambda>i. 0\<rparr>"

theorem frame_roundtrip_witness:
  "\<exists>g. write_all (write_field small_kind) [Long 7, Text [104, 105], Flag True] (0, small_frame) = Some (9, g) \<and>
    read_all (read_field small_kind) [Long_t, Text_t, Flag_t] g 0 = Some (9, [Long 7, Text [104, 105], Flag True])"
  using frame_roundtrip [of "[Long 7, Text [104, 105], Flag True]" small_kind 9 small_frame 0]
  by (auto simp: small_kind_def small_frame_def frame_room_def)


subsection \<open>Numbers of variable length\<close>

lemma var_digits_not_Nil [simp]: "var_digits v \<noteq> []"
  by (subst var_digits.simps) simp

lemma low_group:
  "(of_nat (v mod 128) :: u8) AND 0x7F = of_nat (v mod 128)"
  "((of_nat (v mod 128) :: u8) OR 0x80) AND 0x7F = of_nat (v mod 128)"
  "(of_nat (v mod 128) :: u8) AND 0x80 = 0"
  "((of_nat (v mod 128) :: u8) OR 0x80) AND 0x80 \<noteq> 0"
proof -
  obtain b :: u8 where b: "b = of_nat (v mod 128)" by blast
  have "v mod 128 = take_bit 7 v" by (simp add: take_bit_eq_mod)
  then have "b = take_bit 7 (of_nat v)" unfolding b by (simp add: take_bit_of_nat)
  then have n: "\<not> bit b 7" by (simp add: bit_take_bit_iff)
  show "(of_nat (v mod 128) :: u8) AND 0x7F = of_nat (v mod 128)"
    "((of_nat (v mod 128) :: u8) OR 0x80) AND 0x7F = of_nat (v mod 128)"
    "(of_nat (v mod 128) :: u8) AND 0x80 = 0"
    unfolding b [symmetric] using n by (auto intro!: byte_eqI simp: bit_simps)
  have "bit ((b OR 0x80) AND 0x80) 7" by (simp add: bit_simps)
  then show "((of_nat (v mod 128) :: u8) OR 0x80) AND 0x80 \<noteq> 0"
    unfolding b [symmetric] by force
qed

lemma var_digits_top:
  "i < length (var_digits v) \<Longrightarrow> (var_digits v ! i AND 0x80 = 0) = (i = length (var_digits v) - 1)"
proof (induction v arbitrary: i rule: var_digits.induct)
  case (1 v)
  show ?case
  proof (cases "v div 128 = 0")
    case True
    then show ?thesis using 1(2) low_group [of v] by (simp add: var_digits.simps [of v])
  next
    case False
    have e: "var_digits v = (of_nat (v mod 128) OR 0x80) # var_digits (v div 128)"
      using False by (simp add: var_digits.simps [of v])
    show ?thesis
    proof (cases i)
      case 0
      then show ?thesis by (simp add: e low_group)
    next
      case (Suc j)
      have "length (var_digits (v div 128)) \<noteq> 0" by simp
      then show ?thesis using 1(1) [OF False, of j] 1(2) Suc by (auto simp: e)
    qed
  qed
qed

lemma var_value_snoc: "var_value (bs @ [b]) = (push_bit 7 (var_value bs) OR ucast (b AND 0x7F) :: 'a::len word)"
  by (simp add: var_value_def)

lemma group_join:
  "push_bit 7 (of_nat (v div 128)) OR ucast (of_nat (v mod 128) :: u8) = (of_nat v :: 'a::len word)"
proof -
  have l: "v mod 128 < 2 ^ 8" by (rule less_trans [of _ 128]) simp_all
  have u: "(ucast (of_nat (v mod 128) :: u8) :: 'a word) = of_nat (v mod 128)"
    using l by (simp add: unsigned_of_nat take_bit_nat_eq_self)
  have "bit (push_bit 7 (of_nat (v div 128)) :: 'a word) i \<Longrightarrow> \<not> bit (of_nat (v mod 128) :: 'a word) i" for i
  proof
    assume "bit (push_bit 7 (of_nat (v div 128)) :: 'a word) i" "bit (of_nat (v mod 128) :: 'a word) i"
    then have "7 \<le> i" "bit (take_bit 7 v) i" by (auto simp: bit_simps take_bit_eq_mod)
    then show False by (auto simp: bit_simps)
  qed
  then have "(push_bit 7 (of_nat (v div 128)) :: 'a word) AND of_nat (v mod 128) = 0"
    by (intro bit_eqI) (auto simp: bit_and_iff)
  then have "push_bit 7 (of_nat (v div 128)) OR (of_nat (v mod 128) :: 'a word) = push_bit 7 (of_nat (v div 128)) + of_nat (v mod 128)"
    by (simp add: disjunctive_add_eq_or)
  also have "\<dots> = of_nat (v div 128 * 128 + v mod 128)"
    by (simp only: push_bit_eq_mult of_nat_add of_nat_mult) simp
  finally show ?thesis unfolding u by simp
qed

lemma var_value_digits: "var_value (rev (var_digits v)) = (of_nat v :: 'a::len word)"
proof (induction v rule: var_digits.induct)
  case (1 v)
  show ?case
  proof (cases "v div 128 = 0")
    case True
    then have "(of_nat v :: 'a word) = ucast (of_nat (v mod 128) :: u8)" using group_join [of v, where ?'a = 'a] by simp
    then show ?thesis using True low_group [of v] by (simp add: var_digits.simps [of v] var_value_def)
  next
    case False
    then show ?thesis using 1 group_join [of v, where ?'a = 'a]
      by (simp add: var_digits.simps [of v] var_value_snoc low_group)
  qed
qed

lemma last_digit: "last (var_digits v) AND 0x7F = of_nat (v div 128 ^ (length (var_digits v) - 1)) \<and>
  v div 128 ^ (length (var_digits v) - 1) < 128"
proof (induction v rule: var_digits.induct)
  case (1 v)
  show ?case
  proof (cases "v div 128 = 0")
    case True
    then have "v mod 128 = v" by (simp add: div_eq_0_iff)
    then show ?thesis using True low_group(1) [of v] by (simp add: var_digits.simps [of v])
  next
    case False
    obtain n where n: "length (var_digits (v div 128)) = Suc n" by (cases "var_digits (v div 128)") auto
    have "v div 128 div 128 ^ n = v div (128 * 128 ^ n)" by (simp add: div_mult2_eq)
    then show ?thesis using False 1 n by (simp add: var_digits.simps [of v])
  qed
qed

text \<open>The scan stops at the first byte without the top bit and at the end of the frame.\<close>

lemma var_scan_stops:
  assumes "frame_room k limit f" "offset + n \<le> fr_size f" "n < 256" "index \<le> n"
    "\<forall>i. index \<le> i \<and> i < n \<longrightarrow> fr_memory f (offset + i) AND 0x80 \<noteq> 0"
    "offset + n = fr_size f \<or> fr_memory f (offset + n) AND 0x80 = 0"
  shows "var_scan k f offset index = Some n"
  using assms(4,5)
proof (induction "n - index" arbitrary: index)
  case 0
  then have "index = n" by simp
  moreover have "offset_sum k offset n = offset + n" using assms(1,2) by (simp add: frame_room_def offset_sum_def)
  ultimately show ?case using assms(6) by (subst var_scan.simps) auto
next
  case (Suc d)
  then have l: "index < n" by simp
  have s: "offset_sum k offset index = offset + index" using assms(1,2) l by (auto simp: frame_room_def offset_sum_def)
  have "var_scan k f offset (Suc index) = Some n" using Suc l by (intro Suc.hyps(1)) auto
  then show ?case using l s assms(2,3) Suc.prems(2) by (subst var_scan.simps) simp
qed

lemma store_Some:
  "store offset bs f = Some g \<longleftrightarrow> (if bs = [] then g = f else offset + length bs \<le> fr_capacity f \<and>
    g = f\<lparr>fr_memory := \<lambda>i. if offset \<le> i \<and> i < offset + length bs then bs ! (i - offset) else fr_memory f i\<rparr>)"
  by (auto simp: store_def)

text \<open>A number of variable length that could be written is read back as it is with the groups in
  little endian order. In big endian order, the one that frames use unless told otherwise, the group
  without the top bit comes first: only it is read.\<close>

theorem variable_number_read_back:
  fixes v :: "'a::len word"
  assumes "set_variable_number k offset v f = Some (n, g)" "frame_room k limit f"
    "offset + real_size v < limit" "0 < real_size v" "n \<le> real_size v + 1" "n < 256" "offset \<le> fr_size f"
  shows "get_variable_number k offset g =
    Some (if fk_big k then (1, of_nat (unat v div 128 ^ (n - 1))) else (n, v))"
proof -
  obtain ds where ds: "ds = var_digits (unat v)" by blast
  obtain bs where bs: "bs = (if fk_big k then rev ds else ds)" by blast
  obtain f' where f': "f' = (if fr_size f \<le> offset_sum k offset (length ds) then set_size k (offset + real_size v) f else f)" by blast
  have r: "frame_room k limit f'" using set_size_room(1) [OF assms(2) less_imp_le [OF assms(3)]] assms(2) by (simp add: f')
  have ne: "ds \<noteq> []" "bs \<noteq> []" by (simp_all add: ds bs)
  have "(if fk_big k \<and> 1 < length ds then rev ds else ds) = bs"
    using ne by (cases ds; cases "tl ds") (auto simp: bs)
  then have st: "store offset bs f' = Some g" and n: "n = length ds"
    using assms(1) unfolding set_variable_number_def Let_def ds [symmetric] f' [symmetric] by auto
  have lb: "length bs = n" using n by (simp add: bs)
  have g: "offset + n \<le> fr_capacity g" "fr_size g = fr_size f'" "frame_room k limit g" "segment g offset n = bs"
    using st ne r by (auto simp: store_Some lb frame_room_def intro!: segment_eqI)
  have mem: "fr_memory g (offset + i) = bs ! i" if "i < n" for i
    using segment_nth [of g offset bs i] g(4) that by (simp add: lb)
  have sz: "offset + (n - 1) \<le> fr_size g" "offset < fr_size g"
  proof -
    have "offset + (n - 1) \<le> fr_size f' \<and> offset < fr_size f'"
    proof (cases "fr_size f \<le> offset_sum k offset (length ds)")
      case True
      then show ?thesis using set_size_room(2) [OF assms(2) less_imp_le [OF assms(3)]] assms(4,5) by (simp add: f')
    next
      case False
      have "offset_sum k offset n = offset + n" using assms(2,3,5) by (intro offset_sum_id) auto
      with False ne n have "offset + n < fr_size f \<and> 0 < n" by simp
      then show ?thesis using False by (auto simp: f')
    qed
    then show "offset + (n - 1) \<le> fr_size g" "offset < fr_size g" using g(2) by simp_all
  qed
  show ?thesis
  proof (cases "fk_big k")
    case True
    then have first: "bs ! 0 = last ds" using ne by (simp add: bs rev_nth last_conv_nth)
    have "last ds AND 0x80 = 0" using var_digits_top [of "length ds - 1" "unat v"] ne by (simp add: ds last_conv_nth)
    then have "var_scan k g offset 0 = Some 0"
      using sz mem [of 0] first ne n by (intro var_scan_stops [OF g(3)]) auto
    moreover have "load offset (Suc 0) g = Some [last ds]"
      using g(1) mem [of 0] first ne n by (cases n) (auto simp: load_def segment_def)
    ultimately show ?thesis
      using True last_digit [of "unat v"]
      by (simp add: get_variable_number_def var_value_def ds n unsigned_of_nat take_bit_nat_eq_self)
  next
    case False
    then have b: "bs = ds" by (simp add: bs)
    have "var_scan k g offset 0 = Some (n - 1)"
      using sz mem ne n assms(6) var_digits_top [of _ "unat v"] by (intro var_scan_stops [OF g(3)]) (auto simp: b ds)
    moreover have "(n - 1 + 1) mod 256 = n" using ne n assms(6) by (cases n) auto
    moreover have "load offset n g = Some ds" using g b by (simp add: load_def)
    ultimately show ?thesis
      using False by (simp add: get_variable_number_def ds var_value_digits n)
  qed
qed


definition little_kind :: frame_kind where
  "little_kind = small_kind\<lparr>fk_big := False\<rparr>"

definition counted_frame :: frame where
  "counted_frame = \<lparr>fr_size = 4, fr_capacity = 16,
     fr_memory = (\<lambda>i. 0)(0 := 0xAC, 1 := 0x02)\<rparr>"

theorem variable_number_read_back_witness:
  "get_variable_number little_kind 0 counted_frame = Some (2, 300 :: u32) \<and>
   get_variable_number small_kind 0 (counted_frame\<lparr>fr_memory := (\<lambda>i. 0)(0 := 0x02, 1 := 0xAC)\<rparr>) = Some (1, 2 :: u32)"
proof
  have d: "var_digits 300 = [0xAC, 0x02]" by (simp add: var_digits.simps)
  have "set_variable_number little_kind 0 (300 :: u32) small_frame = Some (2, counted_frame)"
    by (simp add: set_variable_number_def d little_kind_def small_kind_def small_frame_def counted_frame_def store_def
        set_size_def allocate_def to_size_def offset_sum_def real_size_def) (auto simp: fun_eq_iff less_Suc_eq Let_def)
  then show "get_variable_number little_kind 0 counted_frame = Some (2, 300 :: u32)"
    using variable_number_read_back [of little_kind 0 "300 :: u32" small_frame 2 counted_frame 15]
    by (simp add: real_size_def small_kind_def little_kind_def small_frame_def frame_room_def)
  have "set_variable_number small_kind 0 (300 :: u32) small_frame =
      Some (2, counted_frame\<lparr>fr_memory := (\<lambda>i. 0)(0 := 0x02, 1 := 0xAC)\<rparr>)"
    by (simp add: set_variable_number_def d small_kind_def small_frame_def counted_frame_def store_def
        set_size_def allocate_def to_size_def offset_sum_def real_size_def) (auto simp: fun_eq_iff less_Suc_eq Let_def)
  then show "get_variable_number small_kind 0 (counted_frame\<lparr>fr_memory := (\<lambda>i. 0)(0 := 0x02, 1 := 0xAC)\<rparr>) = Some (1, 2 :: u32)"
    using variable_number_read_back [of small_kind 0 "300 :: u32" small_frame 2 _ 15]
    by (simp add: real_size_def small_kind_def small_frame_def frame_room_def)
qed

text \<open>
  The five groups of a number of 32 bits written into the last four bytes of a block: the size grows by the
  size of the type and not by the number of the groups, and the last group is written behind the block.
\<close>

lemma variable_number_overruns:
  "set_variable_number \<lparr>fk_block = 512, fk_big = big, fk_bits = 32, fk_granted = \<lambda>n. True\<rparr> 508 (0xFFFFFFFF :: u32)
     \<lparr>fr_size = 508, fr_capacity = 512, fr_memory = m\<rparr> = None"
proof -
  have "length (var_digits 4294967295) = 5" by (simp add: var_digits.simps)
  then show ?thesis
    by (auto simp: set_variable_number_def Let_def store_def set_size_def allocate_def to_size_def
        offset_sum_def real_size_def)
qed

text \<open>Reading a number of variable length returns exactly when a byte without the top bit, or the end
  of the frame, is among the next 256 bytes: the index of the loop is a byte.\<close>

theorem variable_number_scan_returns:
  assumes "frame_room k limit f" "offset \<le> fr_size f"
  shows "var_scan k f offset 0 \<noteq> None \<longleftrightarrow>
    (\<exists>i<256. offset + i = fr_size f \<or> offset + i < fr_size f \<and> fr_memory f (offset + i) AND 0x80 = 0)"
proof
  assume "\<exists>i<256. offset + i = fr_size f \<or> offset + i < fr_size f \<and> fr_memory f (offset + i) AND 0x80 = 0"
  then obtain i where i: "i < 256" "offset + i = fr_size f \<or> offset + i < fr_size f \<and> fr_memory f (offset + i) AND 0x80 = 0"
    "\<forall>j<i. \<not> (j < 256 \<and> (offset + j = fr_size f \<or> offset + j < fr_size f \<and> fr_memory f (offset + j) AND 0x80 = 0))"
    using exists_least_iff [of "\<lambda>i. i < 256 \<and> (offset + i = fr_size f \<or> offset + i < fr_size f \<and> fr_memory f (offset + i) AND 0x80 = 0)"]
    by blast
  have "var_scan k f offset 0 = Some i"
  proof (rule var_scan_stops [OF assms(1)])
    show "\<forall>j. 0 \<le> j \<and> j < i \<longrightarrow> fr_memory f (offset + j) AND 0x80 \<noteq> 0"
  proof (intro allI impI)
      fix j assume "0 \<le> j \<and> j < i"
      then have "j < i" "j < 256" "offset + j < fr_size f" using i(1,2) by auto
      then show "fr_memory f (offset + j) AND 0x80 \<noteq> 0" using i(3) by blast
    qed
  qed (use i in auto)
  then show "var_scan k f offset 0 \<noteq> None" by simp
next
  assume r: "var_scan k f offset 0 \<noteq> None"
  show "\<exists>i<256. offset + i = fr_size f \<or> offset + i < fr_size f \<and> fr_memory f (offset + i) AND 0x80 = 0"
  proof (rule ccontr)
    assume "\<not> ?thesis"
    then have n: "\<And>i. i < 256 \<Longrightarrow> offset + i \<noteq> fr_size f \<and> (offset + i < fr_size f \<longrightarrow> fr_memory f (offset + i) AND 0x80 \<noteq> 0)"
      by auto
    have l: "i < 256 \<Longrightarrow> offset + i < fr_size f" for i
    proof (induction i)
      case 0
      then show ?case using n [of 0] assms(2) by simp
    next
      case (Suc i)
      then show ?case using n [of "Suc i"] by simp
    qed
    have go: "i < 256 \<Longrightarrow> offset_sum k offset i < fr_size f \<and> fr_memory f (offset_sum k offset i) AND 0x80 \<noteq> 0" for i
      using l [of i] n [of i] assms(1) by (simp add: frame_room_def offset_sum_def)
    have no: "var_scan k' f' o' index = Some y \<Longrightarrow> \<not> (k' = k \<and> f' = f \<and> o' = offset \<and> index < 256)" for k' f' o' index y
    proof (rule var_scan.raw_induct [where P = "\<lambda>k' f' o' index y. \<not> (k' = k \<and> f' = f \<and> o' = offset \<and> index < 256)"])
      fix r k' f' o' index y
      assume IH: "\<And>k' f' o' index y. r k' f' o' index = Some y \<Longrightarrow> \<not> (k' = k \<and> f' = f \<and> o' = offset \<and> index < 256)"
        and eq: "(if offset_sum k' o' index < fr_size f' \<and> fr_memory f' (offset_sum k' o' index) AND 0x80 \<noteq> 0
          then r k' f' o' ((index + 1) mod 256) else Some index) = Some y"
      show "\<not> (k' = k \<and> f' = f \<and> o' = offset \<and> index < 256)"
      proof
        assume a: "k' = k \<and> f' = f \<and> o' = offset \<and> index < 256"
        then have "r k f offset ((index + 1) mod 256) = Some y" using eq go [of index] by simp
        then show False using IH [of k f offset "(index + 1) mod 256" y] by simp
      qed
    qed
    then show False using r by fastforce
  qed
qed

theorem variable_number_scan_returns_witness:
  "var_scan little_kind counted_frame 0 0 \<noteq> None"
  using variable_number_scan_returns [of little_kind 15 counted_frame 0]
  by (fastforce simp: little_kind_def small_kind_def counted_frame_def frame_room_def intro: exI [of _ 2])

end
