(* ===== verification/Numbers.thy ===== *)
theory Numbers
  imports Prelude "HOL-Library.Signed_Division"
begin

text \<open>
  Numbers as text, \<^verbatim>\<open>NumberType\<close> of \<^verbatim>\<open>Source/core/Number.h\<close>: a number is written from the back of a
  buffer of 36 characters, in base 8, 10 or 16 with the prefix of the base, and a text is read
  character by character, with the base found in the prefix. A number is an integer in the range of
  its type, which the bounds \<^verbatim>\<open>Min\<close> and \<^verbatim>\<open>Max\<close> describe; characters are those of 8 bits.
\<close>

datatype number_base = Base_unknown | Base_octal | Base_decimal | Base_hexadecimal

fun base_value :: "number_base \<Rightarrow> int" where
  "base_value Base_unknown = 0"
| "base_value Base_octal = 8"
| "base_value Base_decimal = 10"
| "base_value Base_hexadecimal = 16"

subsection \<open>Writing\<close>

definition max_unsigned :: "nat \<Rightarrow> int" where "max_unsigned w = 2 ^ w - 1"
definition max_signed :: "nat \<Rightarrow> int" where "max_signed w = 2 ^ (w - 1) - 1"
definition min_signed :: "nat \<Rightarrow> int" where "min_signed w = -1 - max_signed w"

text \<open>The value that a type of \<open>w\<close> bits with a sign keeps of an integer.\<close>

definition wrap_signed :: "nat \<Rightarrow> int \<Rightarrow> int" where
  "wrap_signed w v = (v + 2 ^ (w - 1)) mod 2 ^ w - 2 ^ (w - 1)"

definition number_abs :: "nat \<Rightarrow> int \<Rightarrow> int" where
  "number_abs w v = (if v < 0 then wrap_signed w (- v) else v)"

text \<open>\<^verbatim>\<open>newDigit\<close> is a byte.\<close>

definition digit_char :: "int \<Rightarrow> char" where
  "digit_char d = (let newDigit = nat (d mod 256) in
     if newDigit < 10 then char_of (newDigit + 48) else char_of (newDigit - 10 + 65))"

function fill_digits :: "int \<Rightarrow> int \<Rightarrow> nat \<Rightarrow> string \<Rightarrow> nat \<times> string" where
  "fill_digits divider v index location =
     (let location = digit_char (v smod divider) # location;
          v = v sdiv divider;
          index = index - 1
      in if v \<noteq> 0 \<and> 0 < index then fill_digits divider v index location else (index, location))"
  by pat_completeness auto
termination by (relation "measure (\<lambda>(d, v, i, l). i)") auto

declare fill_digits.simps [simp del]

definition base_prefix :: "number_base \<Rightarrow> string" where
  "base_prefix base = (case base of Base_octal \<Rightarrow> ''0'' | Base_hexadecimal \<Rightarrow> ''0x'' | _ \<Rightarrow> [])"

text \<open>The index and the characters of the buffer before the terminating one; \<open>junk\<close> is what it held.\<close>

definition fill_buffer :: "nat \<Rightarrow> number_base \<Rightarrow> string \<Rightarrow> int \<Rightarrow> nat \<times> string" where
  "fill_buffer w base junk v =
     (let index = 35 - (if v < 0 then 1 else 0) - length (base_prefix base);
          divider = base_value (if base = Base_unknown then Base_decimal else base);
          (index, location) = fill_digits divider (number_abs w v) index [];
          location = (if v < 0 then ''-'' else []) @ base_prefix base @ location
      in (index, take (35 - length location) junk @ location))"

definition number_text :: "nat \<Rightarrow> number_base \<Rightarrow> string \<Rightarrow> int \<Rightarrow> string" where
  "number_text w base junk v = (case fill_buffer w base junk v of (index, buffer) \<Rightarrow> drop index buffer)"

subsection \<open>Reading\<close>

definition char_code :: "char \<Rightarrow> int" where
  "char_code c = int (of_char c)"

definition upper :: "char \<Rightarrow> int" where
  "upper c = (if 97 \<le> char_code c \<and> char_code c \<le> 122 then char_code c - 32 else char_code c)"

text \<open>The digit of a character in a base, when it has one there.\<close>

definition digit_of :: "number_base \<Rightarrow> char \<Rightarrow> int option" where
  "digit_of base c =
     (if 48 \<le> char_code c \<and> char_code c \<le> 55 then Some (char_code c - 48)
      else if 56 \<le> char_code c \<and> char_code c \<le> 57 \<and> base \<noteq> Base_octal then Some (char_code c - 48)
      else if 65 \<le> upper c \<and> upper c \<le> 70 \<and> base = Base_hexadecimal then Some (upper c - 65 + 10)
      else None)"

definition known_base :: "number_base \<Rightarrow> number_base" where
  "known_base base = (if base = Base_unknown then Base_decimal else base)"

text \<open>The value after a digit, when it stays in the range.\<close>

definition add_digit :: "int \<Rightarrow> number_base \<Rightarrow> int \<Rightarrow> int \<Rightarrow> int option" where
  "add_digit hi base v d =
     (if v \<le> hi div base_value base \<and> d \<le> hi - v * base_value base then Some (v * base_value base + d) else None)"

definition sub_digit :: "int \<Rightarrow> number_base \<Rightarrow> int \<Rightarrow> int \<Rightarrow> int option" where
  "sub_digit lo base v d =
     (if lo sdiv base_value base \<le> v \<and> lo - v * base_value base \<le> - d then Some (v * base_value base - d) else None)"

text \<open>The number of characters taken, and the value.\<close>

fun convert_unsigned :: "int \<Rightarrow> number_base \<Rightarrow> int \<Rightarrow> string \<Rightarrow> nat \<times> int" where
  "convert_unsigned hi base v [] = (0, v)"
| "convert_unsigned hi base v (c # cs) =
     (if char_code c = 0 then (0, v)
      else
        let next = (\<lambda>base v. case convert_unsigned hi base v cs of (n, r) \<Rightarrow> (n + 1, r))
        in if v = 0 \<and> c = CHR ''0'' \<and> base = Base_unknown then next Base_octal v
           else if v = 0 \<and> upper c = 88 \<and> (base = Base_octal \<or> base = Base_hexadecimal) then next Base_hexadecimal v
           else if v = 0 \<and> (c = CHR ''+'' \<or> c = CHR '' '' \<or> char_code c = 9 \<or> c = CHR ''0'') then next base v
           else
             case Option.bind (digit_of (known_base base) c) (add_digit hi (known_base base) v) of
               None \<Rightarrow> (0, v)
             | Some v \<Rightarrow> next (known_base base) v)"

fun convert_signed :: "nat \<Rightarrow> bool \<Rightarrow> number_base \<Rightarrow> int \<Rightarrow> string \<Rightarrow> nat \<times> int" where
  "convert_signed w sign base v [] = (0, v)"
| "convert_signed w sign base v (c # cs) =
     (if char_code c = 0 then (0, v)
      else
        let next = (\<lambda>sign base v. case convert_signed w sign base v cs of (n, r) \<Rightarrow> (n + 1, r))
        in if v = 0 \<and> c = CHR ''0'' \<and> base = Base_unknown then next sign Base_octal v
           else if v = 0 \<and> upper c = 88 \<and> (base = Base_octal \<or> base = Base_hexadecimal) then next sign Base_hexadecimal v
           else if v = 0 \<and> (c = CHR ''+'' \<or> c = CHR ''-'' \<or> c = CHR '' '' \<or> char_code c = 9 \<or> c = CHR ''0'')
           then next (sign \<or> c = CHR ''-'') base v
           else
             case Option.bind (digit_of (known_base base) c)
                    (if sign then sub_digit (min_signed w) (known_base base) v else add_digit (max_signed w) (known_base base) v) of
               None \<Rightarrow> (0, v)
             | Some v \<Rightarrow> next sign (known_base base) v)"

text \<open>\<^verbatim>\<open>NumberType(const TCHAR[], uint32_t, NumberBase).Value()\<close>\<close>

definition read_unsigned :: "nat \<Rightarrow> number_base \<Rightarrow> string \<Rightarrow> int" where
  "read_unsigned w base t = snd (convert_unsigned (max_unsigned w) base 0 t)"

definition read_signed :: "nat \<Rightarrow> number_base \<Rightarrow> string \<Rightarrow> int" where
  "read_signed w base t = snd (convert_signed w False base 0 t)"


subsection \<open>Digits\<close>

definition radix :: "number_base \<Rightarrow> int" where
  "radix base = base_value (known_base base)"

lemma known_simps [simp]:
  "known_base Base_unknown = Base_decimal" "known_base (known_base base) = known_base base" "known_base base \<noteq> Base_unknown"
  "base \<noteq> Base_unknown \<Longrightarrow> known_base base = base"
  by (simp_all add: known_base_def)

lemma radix_bounds: "2 \<le> radix base" "radix base \<le> 16"
  by (cases base; simp add: radix_def known_base_def)+

text \<open>The digits of a number, the first one most significant.\<close>

function radix_digits :: "int \<Rightarrow> int \<Rightarrow> string" where
  "radix_digits r v = (if 2 \<le> r \<and> r \<le> v then radix_digits r (v div r) @ [digit_char (v mod r)] else [digit_char v])"
  by pat_completeness auto
termination
proof (relation "measure (\<lambda>(r, v). nat v)")
  fix r v :: int
  assume a: "2 \<le> r \<and> r \<le> v"
  then have "v div r < v" by (intro int_div_less_self) simp_all
  with a show "((r, v div r), r, v) \<in> measure (\<lambda>(r, v). nat v)" by simp
qed simp

declare radix_digits.simps [simp del]

lemma length_digits: "8 \<le> r \<Longrightarrow> 0 \<le> v \<Longrightarrow> v < 8 ^ n \<Longrightarrow> length (radix_digits r v) \<le> max 1 n"
proof (induction n arbitrary: v)
  case 0
  then show ?case by (simp add: radix_digits.simps [of r v])
next
  case (Suc n)
  show ?case
  proof (cases "r \<le> v")
    case True
    have "v div r \<le> v div 8" using Suc.prems by (intro zdiv_mono2) simp_all
    also have "\<dots> < 8 ^ n" using Suc.prems by simp
    finally have q: "v div r < 8 ^ n" "0 \<le> v div r" using Suc.prems by (simp_all add: pos_imp_zdiv_nonneg_iff)
    have "n \<noteq> 0" using Suc.prems True by (intro notI) simp
    then show ?thesis using Suc.IH [OF Suc.prems(1) q(2,1)] True Suc.prems by (simp add: radix_digits.simps [of r v])
  qed (simp add: radix_digits.simps [of r v])
qed

lemma fill_digits_eq:
  assumes "2 \<le> r" "0 \<le> v" "length (radix_digits r v) < i"
  shows "fill_digits r v i acc = (i - length (radix_digits r v), radix_digits r v @ acc)"
  using assms
proof (induction r v i acc rule: fill_digits.induct)
  case (1 r v i acc)
  have d: "v sdiv r = v div r" "v smod r = v mod r"
    using 1(2,3) by (simp_all add: signed_divide_int_def signed_modulo_int_def sgn_if)
  show ?case
  proof (cases "r \<le> v")
    case True
    have "0 < v div r" using True 1(2) by (simp add: pos_imp_zdiv_pos_iff)
    then have q: "v div r \<noteq> 0" "0 \<le> v div r" by simp_all
    have l: "radix_digits r v = radix_digits r (v div r) @ [digit_char (v mod r)]" using True 1(2) by (simp add: radix_digits.simps [of r v])
    have "fill_digits r (v div r) (i - 1) (digit_char (v mod r) # acc) =
      (i - 1 - length (radix_digits r (v div r)), radix_digits r (v div r) @ digit_char (v mod r) # acc)"
      using 1(1) [OF refl refl refl] q 1(2-4) by (simp add: d l)
    moreover have "0 < i - 1" using 1(4) l by (cases "radix_digits r (v div r)") auto
    ultimately show ?thesis using q by (simp add: fill_digits.simps [of r v] d l)
  next
    case False
    then show ?thesis using 1(3) by (simp add: fill_digits.simps [of r v] radix_digits.simps [of r v] d div_pos_pos_trivial mod_pos_pos_trivial)
  qed
qed

lemma code_digit_char:
  assumes "0 \<le> d" "d < 16"
  shows "char_code (digit_char d) = (if d < 10 then d + 48 else d + 55)"
proof -
  have "d mod 256 = d" using assms by simp
  then show ?thesis using assms by (auto simp: digit_char_def char_code_def Let_def nat_less_iff)
qed

lemma digit_of_char:
  assumes "base \<noteq> Base_unknown" "0 \<le> d" "d < base_value base"
  shows "digit_of base (digit_char d) = Some d"
proof -
  have "d < 16" using assms by (cases base) auto
  then show ?thesis
    using assms code_digit_char [of d] by (cases base) (auto simp: digit_of_def upper_def)
qed

subsection \<open>A reader\<close>

text \<open>What the loops that read a number have in common; \<open>conv\<close> takes and returns the absolute value.\<close>

definition one_more :: "nat \<times> int \<Rightarrow> nat \<times> int" where
  "one_more r = (fst r + 1, snd r)"

locale number_reader =
  fixes conv :: "number_base \<Rightarrow> int \<Rightarrow> string \<Rightarrow> nat \<times> int"
    and limit :: int
  assumes conv_Nil: "conv base v [] = (0, v)"
    and conv_digit: "base \<noteq> Base_unknown \<Longrightarrow> digit_of base c = Some d \<Longrightarrow> 0 \<le> v \<Longrightarrow> v \<noteq> 0 \<or> d \<noteq> 0 \<Longrightarrow>
      v * base_value base + d \<le> limit \<Longrightarrow> conv base v (c # cs) = one_more (conv base (v * base_value base + d) cs)"
    and conv_zero: "base \<noteq> Base_unknown \<Longrightarrow> conv base 0 (CHR ''0'' # cs) = one_more (conv base 0 cs)"
    and conv_unknown_zero: "conv Base_unknown 0 (CHR ''0'' # cs) = one_more (conv Base_octal 0 cs)"
    and conv_unknown_digit: "digit_of Base_decimal c = Some d \<Longrightarrow> d \<noteq> 0 \<Longrightarrow>
      conv Base_unknown 0 (c # cs) = conv Base_decimal 0 (c # cs)"
    and conv_x: "base = Base_octal \<or> base = Base_hexadecimal \<Longrightarrow> conv base 0 (CHR ''x'' # cs) = one_more (conv Base_hexadecimal 0 cs)"

lemma digit_char_0 [simp]: "digit_char 0 = CHR ''0''"
  by (simp add: digit_char_def char_of_def bit_0)

context number_reader
begin

lemma conv_digits:
  assumes "base \<noteq> Base_unknown" "0 \<le> v" "v \<le> limit"
  shows "conv base 0 (radix_digits (base_value base) v @ cs) =
    (length (radix_digits (base_value base) v) + fst (conv base v cs), snd (conv base v cs))"
  using assms(2,3)
proof (induction "nat v" arbitrary: v cs rule: less_induct)
  case less
  obtain r where r: "r = base_value base" by blast
  have r2: "2 \<le> r" using assms(1) by (cases base) (auto simp: r)
  show ?case
  proof (cases "r \<le> v")
    case True
    obtain q m where q: "q = v div r" and m: "m = v mod r" by blast
    have v: "q * r + m = v" by (simp add: q m)
    have m0: "0 \<le> m" "m < r" using r2 by (simp_all add: m)
    have q0: "0 < q" using True r2 by (simp add: q pos_imp_zdiv_pos_iff)
    have ql: "q < v" unfolding q using True r2 by (intro int_div_less_self) simp_all
    have l: "radix_digits r v = radix_digits r q @ [digit_char m]" using True r2 by (simp add: radix_digits.simps [of r v] q m)
    have "conv base 0 (radix_digits r q @ digit_char m # cs) =
      (length (radix_digits r q) + fst (conv base q (digit_char m # cs)), snd (conv base q (digit_char m # cs)))"
      unfolding r using less.prems ql q0 by (intro less.hyps) simp_all
    moreover have "conv base q (digit_char m # cs) = one_more (conv base v cs)"
      using conv_digit [OF assms(1) digit_of_char [OF assms(1) m0(1) m0(2) [unfolded r]], of q cs] q0 v less.prems by (simp add: r)
    ultimately show ?thesis by (simp add: l r [symmetric] one_more_def)
  next
    case False
    then have d: "radix_digits r v = [digit_char v]" by (simp add: radix_digits.simps [of r v])
    have "conv base 0 (digit_char v # cs) = one_more (conv base v cs)"
    proof (cases "v = 0")
      case True
      then show ?thesis using conv_zero [OF assms(1)] by simp
    next
      case z: False
      then show ?thesis
        using conv_digit [OF assms(1) digit_of_char [OF assms(1)], of v 0 cs] False less.prems by (simp add: r)
    qed
    then show ?thesis by (simp add: d r [symmetric] one_more_def)
  qed
qed

text \<open>The first digit of a number that is not \<open>0\<close> tells that the base is decimal.\<close>

lemma conv_unknown_digits:
  assumes "0 < v" "v \<le> limit"
  shows "conv Base_unknown 0 (radix_digits 10 v @ cs) = conv Base_decimal 0 (radix_digits 10 v @ cs)"
  using assms
proof (induction "nat v" arbitrary: v cs rule: less_induct)
  case less
  show ?case
  proof (cases "10 \<le> v")
    case True
    then have "conv Base_unknown 0 (radix_digits 10 (v div 10) @ digit_char (v mod 10) # cs) =
      conv Base_decimal 0 (radix_digits 10 (v div 10) @ digit_char (v mod 10) # cs)"
      using less.prems by (intro less.hyps) auto
    then show ?thesis using True by (simp add: radix_digits.simps [of 10 v])
  next
    case False
    then show ?thesis
      using conv_unknown_digit [OF digit_of_char [of Base_decimal v], of cs] less.prems
      by (simp add: radix_digits.simps [of 10 v])
  qed
qed

lemma conv_text:
  assumes "0 \<le> v" "v \<le> limit" "parse = Base_unknown \<or> parse = known_base base"
  shows "conv parse 0 (base_prefix base @ radix_digits (radix base) v) = (length (base_prefix base @ radix_digits (radix base) v), v)"
proof -
  have d: "b \<noteq> Base_unknown \<Longrightarrow> conv b 0 (radix_digits (base_value b) v) = (length (radix_digits (base_value b) v), v)" for b
    using conv_digits [OF _ assms(1,2), of b "[]"] by (simp add: conv_Nil)
  show ?thesis
  proof (cases "known_base base")
    case Base_decimal
    then have p: "base_prefix base = []" "radix base = 10" by (auto simp: base_prefix_def radix_def known_base_def split: number_base.splits if_splits)
    have "conv Base_unknown 0 (radix_digits 10 v) = (length (radix_digits 10 v), v)"
    proof (cases "v = 0")
      case True
      then show ?thesis by (simp add: radix_digits.simps [of 10 0] conv_unknown_zero conv_Nil one_more_def)
    next
      case False
      then show ?thesis using conv_unknown_digits [of v "[]"] d [of Base_decimal] assms by simp
    qed
    then show ?thesis using assms(3) d [of Base_decimal] Base_decimal p by auto
  next
    case Base_octal
    then have p: "base_prefix base = ''0''" "radix base = 8" by (auto simp: base_prefix_def radix_def known_base_def split: number_base.splits if_splits)
    then show ?thesis
      using assms(3) d [of Base_octal] Base_octal conv_unknown_zero conv_zero [of Base_octal] by (auto simp: one_more_def)
  next
    case Base_hexadecimal
    then have p: "base_prefix base = ''0x''" "radix base = 16" by (auto simp: base_prefix_def radix_def known_base_def split: number_base.splits if_splits)
    then show ?thesis
      using assms(3) d [of Base_hexadecimal] Base_hexadecimal conv_unknown_zero conv_zero [of Base_hexadecimal] conv_x by (auto simp: one_more_def)
  qed simp
qed

end

lemma digit_of_facts:
  assumes "digit_of base c = Some d"
  shows "0 \<le> d" "char_code c \<noteq> 0" "upper c \<noteq> 88" "c \<noteq> CHR ''+''" "c \<noteq> CHR ''-''" "c \<noteq> CHR '' ''" "char_code c \<noteq> 9"
    "d \<noteq> 0 \<Longrightarrow> c \<noteq> CHR ''0''"
  using assms by (auto simp: digit_of_def upper_def char_code_def split: if_splits)

lemma counted_case: "(case p of (n, r) \<Rightarrow> (n + 1, r)) = one_more p"
  by (simp add: one_more_def split: prod.splits)

lemma counted_case' [simp]: "(case p of (n, r) \<Rightarrow> (Suc n, r)) = one_more p"
  by (simp add: one_more_def split: prod.splits)

lemma base_value_pos: "base \<noteq> Base_unknown \<Longrightarrow> 0 < base_value base"
  by (cases base) simp_all

lemma add_digit_fits:
  assumes "0 < base_value base" "0 \<le> d" "v * base_value base + d \<le> hi"
  shows "add_digit hi base v d = Some (v * base_value base + d)"
proof -
  have "v = v * base_value base div base_value base" using assms(1) by simp
  also have "\<dots> \<le> hi div base_value base" using assms by (intro zdiv_mono1) simp_all
  finally show ?thesis using assms by (simp add: add_digit_def)
qed

interpretation unsigned: number_reader "convert_unsigned (max_unsigned w)" "max_unsigned w" for w
proof
  fix base c d v cs
  assume a: "base \<noteq> Base_unknown" "digit_of base c = Some d" "0 \<le> v" "v \<noteq> 0 \<or> d \<noteq> 0"
    "v * base_value base + d \<le> max_unsigned w"
  note f = digit_of_facts [OF a(2)]
  show "convert_unsigned (max_unsigned w) base v (c # cs) =
    one_more (convert_unsigned (max_unsigned w) base (v * base_value base + d) cs)"
    using a f add_digit_fits [OF base_value_pos [OF a(1)] f(1) a(5)] by (auto simp: Let_def one_more_def split: prod.splits)
next
  fix c d cs
  assume a: "digit_of Base_decimal c = Some d" "d \<noteq> 0"
  note f = digit_of_facts [OF a(1)]
  show "convert_unsigned (max_unsigned w) Base_unknown 0 (c # cs) = convert_unsigned (max_unsigned w) Base_decimal 0 (c # cs)"
    using a f by (simp add: Let_def split: option.splits)
qed (auto simp: one_more_def char_code_def upper_def Let_def split: prod.splits)


lemma sub_digit_fits:
  assumes "0 < base_value base" "0 \<le> d" "0 \<le> v" "v * base_value base + d \<le> - lo" "lo \<le> 0"
  shows "sub_digit lo base (- v) d = Some (- (v * base_value base + d))"
proof -
  have "v = v * base_value base div base_value base" using assms(1) by simp
  also have "\<dots> \<le> (- lo) div base_value base" using assms by (intro zdiv_mono1) simp_all
  finally have "lo sdiv base_value base \<le> - v"
    using assms(1,5) by (cases "lo = 0") (simp_all add: signed_divide_int_def sgn_if)
  then show ?thesis using assms by (simp add: sub_digit_def)
qed

lemma min_signed_neg: "min_signed w < 0" "- min_signed w = max_signed w + 1"
  by (simp_all add: min_signed_def max_signed_def)

interpretation signed: number_reader "convert_signed w False" "max_signed w" for w
proof
  fix base c d v cs
  assume a: "base \<noteq> Base_unknown" "digit_of base c = Some d" "0 \<le> v" "v \<noteq> 0 \<or> d \<noteq> 0"
    "v * base_value base + d \<le> max_signed w"
  note f = digit_of_facts [OF a(2)]
  show "convert_signed w False base v (c # cs) = one_more (convert_signed w False base (v * base_value base + d) cs)"
    using a f add_digit_fits [OF base_value_pos [OF a(1)] f(1) a(5)] by (auto simp: Let_def one_more_def split: prod.splits)
next
  fix c d cs
  assume a: "digit_of Base_decimal c = Some d" "d \<noteq> 0"
  note f = digit_of_facts [OF a(1)]
  show "convert_signed w False Base_unknown 0 (c # cs) = convert_signed w False Base_decimal 0 (c # cs)"
    using a f by (simp add: Let_def split: option.splits)
qed (auto simp: one_more_def char_code_def upper_def Let_def split: prod.splits)

text \<open>Behind a minus sign the loop counts down.\<close>

definition convert_negative :: "nat \<Rightarrow> number_base \<Rightarrow> int \<Rightarrow> string \<Rightarrow> nat \<times> int" where
  "convert_negative w base v cs = map_prod id uminus (convert_signed w True base (- v) cs)"

interpretation negative: number_reader "convert_negative w" "- min_signed w" for w
proof
  fix base c d v cs
  assume a: "base \<noteq> Base_unknown" "digit_of base c = Some d" "0 \<le> v" "v \<noteq> 0 \<or> d \<noteq> 0"
    "v * base_value base + d \<le> - min_signed w"
  note f = digit_of_facts [OF a(2)]
  show "convert_negative w base v (c # cs) = one_more (convert_negative w base (v * base_value base + d) cs)"
    using a f sub_digit_fits [OF base_value_pos [OF a(1)] f(1) a(3,5)] min_signed_neg(1) [of w]
    by (auto simp: convert_negative_def Let_def one_more_def split: prod.splits)
next
  fix c d cs
  assume a: "digit_of Base_decimal c = Some d" "d \<noteq> 0"
  note f = digit_of_facts [OF a(1)]
  show "convert_negative w Base_unknown 0 (c # cs) = convert_negative w Base_decimal 0 (c # cs)"
    using a f by (simp add: convert_negative_def Let_def split: option.splits)
qed (auto simp: convert_negative_def one_more_def char_code_def upper_def Let_def split: prod.splits)

subsection \<open>Round trip\<close>

definition convert :: "bool \<Rightarrow> nat \<Rightarrow> number_base \<Rightarrow> string \<Rightarrow> nat \<times> int" where
  "convert sign w base t =
     (if sign then convert_signed w False base 0 t else convert_unsigned (max_unsigned w) base 0 t)"

definition type_min :: "bool \<Rightarrow> nat \<Rightarrow> int" where "type_min sign w = (if sign then min_signed w else 0)"
definition type_max :: "bool \<Rightarrow> nat \<Rightarrow> int" where "type_max sign w = (if sign then max_signed w else max_unsigned w)"

lemma number_text_eq:
  assumes "number_abs w v = \<bar>v\<bar>" "\<bar>v\<bar> < 8 ^ 22" "length junk = 36"
  shows "number_text w base junk v = (if v < 0 then ''-'' else []) @ base_prefix base @ radix_digits (radix base) \<bar>v\<bar>"
proof -
  have r: "8 \<le> radix base" by (cases base; simp add: radix_def known_base_def)
  have l: "length (radix_digits (radix base) \<bar>v\<bar>) \<le> 22"
    using length_digits [OF r _ assms(2)] by simp
  have p: "length (base_prefix base) \<le> 2" by (cases base; simp add: base_prefix_def)
  have i: "length (radix_digits (radix base) \<bar>v\<bar>) < 35 - (if v < 0 then 1 else 0) - length (base_prefix base)"
    using l p by auto
  have f: "fill_digits (base_value (if base = Base_unknown then Base_decimal else base)) (number_abs w v)
      (35 - (if v < 0 then 1 else 0) - length (base_prefix base)) [] =
    (35 - (if v < 0 then 1 else 0) - length (base_prefix base) - length (radix_digits (radix base) \<bar>v\<bar>), radix_digits (radix base) \<bar>v\<bar>)"
    using fill_digits_eq [OF _ _ i] r by (simp add: assms(1) radix_def known_base_def)
  show ?thesis
    unfolding number_text_def fill_buffer_def Let_def f prod.case using l p assms(3) by auto
qed

lemma convert_minus: "convert_signed w False parse 0 (CHR ''-'' # cs) = map_prod id uminus (one_more (convert_negative w parse 0 cs))"
  by (cases "convert_signed w True parse 0 cs") (simp add: convert_negative_def one_more_def Let_def char_code_def upper_def)

lemma type_range_power:
  assumes "type_min sign w \<le> v" "v \<le> type_max sign w" "0 < w" "w \<le> 64"
  shows "\<bar>v\<bar> < 8 ^ 22"
proof -
  have "(2 :: int) ^ w \<le> 2 ^ 64" "(2 :: int) ^ (w - 1) \<le> 2 ^ 64" using assms(4) by (intro power_increasing; simp)+
  then show ?thesis
    using assms by (auto simp: type_min_def type_max_def min_signed_def max_signed_def max_unsigned_def split: if_splits)
qed

text \<open>Every number of a type, except the least one of a type with a sign, is written in each base as a text
  that is read back completely as the number, whether the base is given or found.\<close>

theorem number_roundtrip:
  assumes "type_min sign w \<le> v" "v \<le> type_max sign w" "v \<noteq> min_signed w" "0 < w" "w \<le> 64" "length junk = 36"
    "parse = Base_unknown \<or> parse = known_base base"
  shows "convert sign w parse (number_text w base junk v) = (length (number_text w base junk v), v)"
proof -
  have l: "\<bar>v\<bar> < 8 ^ 22" using assms(1,2,4,5) by (rule type_range_power)
  have "number_abs w v = \<bar>v\<bar>"
  proof (cases "v < 0")
    case True
    then have "sign" "- v \<le> 2 ^ (w - 1) - 1"
      using assms(1,3) by (auto simp: type_min_def min_signed_def max_signed_def split: if_splits)
    moreover have "(2 :: int) ^ w = 2 * 2 ^ (w - 1)" using assms(4) by (cases w) simp_all
    ultimately show ?thesis using True by (simp add: number_abs_def wrap_signed_def)
  qed (simp add: number_abs_def)
  then have t: "number_text w base junk v = (if v < 0 then ''-'' else []) @ base_prefix base @ radix_digits (radix base) \<bar>v\<bar>"
    using l assms(6) by (rule number_text_eq)
  show ?thesis
  proof (cases "v < 0")
    case True
    then have s: "sign" "\<bar>v\<bar> \<le> - min_signed w"
      using assms(1) by (auto simp: type_min_def split: if_splits)
    have "convert_negative w parse 0 (base_prefix base @ radix_digits (radix base) \<bar>v\<bar>) = (length (base_prefix base @ radix_digits (radix base) \<bar>v\<bar>), \<bar>v\<bar>)"
      using s(2) assms(7) by (intro negative.conv_text) simp_all
    then show ?thesis using s(1) True by (simp add: t convert_def convert_minus one_more_def del: convert_signed.simps)
  next
    case False
    then show ?thesis
      using assms(2,7) unsigned.conv_text [of v w parse base] signed.conv_text [of v w parse base]
      by (cases sign) (simp_all add: t convert_def type_max_def)
  qed
qed

theorem number_roundtrip_witness:
  "convert True 16 Base_unknown (number_text 16 Base_hexadecimal (replicate 36 CHR ''?'') (- 300)) =
     (length (number_text 16 Base_hexadecimal (replicate 36 CHR ''?'') (- 300)), - 300)"
  by (rule number_roundtrip) (simp_all add: type_min_def type_max_def min_signed_def max_signed_def)

text \<open>The least number of a type of 8 bits has no absolute value in the type: its text is not that of a number.\<close>

lemma number_minimum: "number_text 8 Base_decimal (replicate 36 CHR ''?'') (- 128) = ''-65/''"
  by (simp add: number_text_def fill_buffer_def number_abs_def wrap_signed_def base_prefix_def fill_digits.simps
      signed_divide_int_def signed_modulo_int_def digit_char_def char_of_def)

text \<open>One turn of the loop for a type with a sign ends it, or goes on with a value in the range.\<close>

definition signed_range :: "nat \<Rightarrow> bool \<Rightarrow> int \<Rightarrow> bool" where
  "signed_range w sign v \<longleftrightarrow> (if sign then min_signed w \<le> v \<and> v \<le> 0 else 0 \<le> v \<and> v \<le> max_signed w)"

lemma signed_range_0: "0 < w \<Longrightarrow> signed_range w sign 0"
  by (simp add: signed_range_def min_signed_def max_signed_def)

lemma signed_range_digit:
  assumes "digit_of base c = Some d" "signed_range w sign v" "base \<noteq> Base_unknown"
    "(if sign then sub_digit (min_signed w) base v d else add_digit (max_signed w) base v d) = Some r"
  shows "signed_range w sign r"
proof -
  have d: "0 \<le> d" using assms(1) by (rule digit_of_facts)
  have b: "0 < base_value base" using assms(3) by (rule base_value_pos)
  show ?thesis
  proof (cases sign)
    case True
    then have "r = v * base_value base - d" "min_signed w - v * base_value base \<le> - d" "v \<le> 0"
      using assms by (auto simp: sub_digit_def signed_range_def split: if_splits)
    moreover have "v * base_value base \<le> 0" using b calculation(3) by (simp add: mult_nonpos_nonneg)
    ultimately show ?thesis using True d by (simp add: signed_range_def)
  next
    case False
    then have "r = v * base_value base + d" "d \<le> max_signed w - v * base_value base" "0 \<le> v"
      using assms by (auto simp: add_digit_def signed_range_def split: if_splits)
    then show ?thesis using False d b by (simp add: signed_range_def)
  qed
qed

lemma convert_signed_step:
  assumes "signed_range w sign v" "0 < w"
  shows "convert_signed w sign base v (c # cs) = (0, v) \<or>
    (\<exists>sign' base' v'. signed_range w sign' v' \<and> convert_signed w sign base v (c # cs) = one_more (convert_signed w sign' base' v' cs))"
proof -
  have go: ?thesis if "signed_range w sign' v'" "convert_signed w sign base v (c # cs) = one_more (convert_signed w sign' base' v' cs)"
    for sign' base' v' using that by blast
  consider (stop) "char_code c = 0"
    | (octal) "char_code c \<noteq> 0" "v = 0 \<and> c = CHR ''0'' \<and> base = Base_unknown"
    | (hex) "char_code c \<noteq> 0" "\<not> (v = 0 \<and> c = CHR ''0'' \<and> base = Base_unknown)"
        "v = 0 \<and> upper c = 88 \<and> (base = Base_octal \<or> base = Base_hexadecimal)"
    | (skip) "char_code c \<noteq> 0" "\<not> (v = 0 \<and> c = CHR ''0'' \<and> base = Base_unknown)"
        "\<not> (v = 0 \<and> upper c = 88 \<and> (base = Base_octal \<or> base = Base_hexadecimal))"
        "v = 0 \<and> (c = CHR ''+'' \<or> c = CHR ''-'' \<or> c = CHR '' '' \<or> char_code c = 9 \<or> c = CHR ''0'')"
    | (digit) "char_code c \<noteq> 0" "\<not> (v = 0 \<and> c = CHR ''0'' \<and> base = Base_unknown)"
        "\<not> (v = 0 \<and> upper c = 88 \<and> (base = Base_octal \<or> base = Base_hexadecimal))"
        "\<not> (v = 0 \<and> (c = CHR ''+'' \<or> c = CHR ''-'' \<or> c = CHR '' '' \<or> char_code c = 9 \<or> c = CHR ''0''))"
    by blast
  then show ?thesis
  proof cases
    case octal
    then have "char_code (CHR ''0'') \<noteq> 0" by simp
    then show ?thesis using assms(1) octal(2) by (intro go [of sign v Base_octal]) (simp_all add: Let_def)
  next
    case hex
    then show ?thesis using assms(1) by (intro go [of sign v Base_hexadecimal]) (auto simp: Let_def)
  next
    case skip
    have "convert_signed w sign base v (c # cs) = one_more (convert_signed w (sign \<or> c = CHR ''-'') base v cs)"
      unfolding convert_signed.simps Let_def counted_case if_not_P [OF skip(1)] if_not_P [OF skip(2)] if_not_P [OF skip(3)] if_P [OF skip(4)]
      by (rule refl)
    then show ?thesis using skip signed_range_0 [OF assms(2)] by (intro go) auto
  next
    case digit
    show ?thesis
    proof (cases "Option.bind (digit_of (known_base base) c)
        (if sign then sub_digit (min_signed w) (known_base base) v else add_digit (max_signed w) (known_base base) v)")
      case None
      then show ?thesis
        unfolding convert_signed.simps Let_def counted_case if_not_P [OF digit(1)] if_not_P [OF digit(2)] if_not_P [OF digit(3)] if_not_P [OF digit(4)]
        by simp
    next
      case (Some r)
      then obtain d where d: "digit_of (known_base base) c = Some d"
        "(if sign then sub_digit (min_signed w) (known_base base) v d else add_digit (max_signed w) (known_base base) v d) = Some r"
        by (auto simp: bind_eq_Some_conv split: if_splits)
      have "signed_range w sign r" using d(1) assms(1) _ d(2) by (rule signed_range_digit) simp
      moreover have "convert_signed w sign base v (c # cs) = one_more (convert_signed w sign (known_base base) r cs)"
        unfolding convert_signed.simps Let_def counted_case if_not_P [OF digit(1)] if_not_P [OF digit(2)] if_not_P [OF digit(3)] if_not_P [OF digit(4)] Some
        by simp
      ultimately show ?thesis by (rule go)
    qed
  qed simp
qed

lemma convert_signed_range:
  assumes "signed_range w sign v" "0 < w"
  shows "case convert_signed w sign base v t of (n, v) \<Rightarrow> n \<le> length t \<and> min_signed w \<le> v \<and> v \<le> max_signed w"
  using assms(1)
proof (induction t arbitrary: sign base v)
  case Nil
  then show ?case using min_signed_neg [of w] by (auto simp: signed_range_def split: if_splits)
next
  case (Cons c cs)
  show ?case
    using convert_signed_step [OF Cons.prems assms(2), of base c cs]
  proof (elim disjE exE conjE)
    assume "convert_signed w sign base v (c # cs) = (0, v)"
    then show ?thesis using Cons.prems min_signed_neg [of w] by (auto simp: signed_range_def simp del: convert_signed.simps split: if_splits)
  next
    fix sign' base' v'
    assume "signed_range w sign' v'" "convert_signed w sign base v (c # cs) = one_more (convert_signed w sign' base' v' cs)"
    then show ?thesis using Cons.IH [of sign' v' base'] by (auto simp: one_more_def simp del: convert_signed.simps split: prod.splits)
  qed
qed

lemma convert_unsigned_range:
  assumes "0 \<le> v" "v \<le> max_unsigned w"
  shows "fst (convert_unsigned (max_unsigned w) base v t) \<le> length t \<and>
    snd (convert_unsigned (max_unsigned w) base v t) \<in> {0..max_unsigned w}"
  using assms
proof (induction t arbitrary: base v)
  case (Cons c cs)
  have d: "0 \<le> r \<and> r \<le> max_unsigned w" if "digit_of b c = Some d" "add_digit (max_unsigned w) b v d = Some r" for b d r
    using that digit_of_facts(1) [OF that(1)] Cons.prems(1) by (cases b) (auto simp: add_digit_def split: if_splits)
  obtain ok where ok: "ok = (\<lambda>p. fst p \<le> length (c # cs) \<and> snd p \<in> {0..max_unsigned w})" by blast
  have go: "ok (one_more (convert_unsigned (max_unsigned w) base' v' cs))" if "0 \<le> v' \<and> v' \<le> max_unsigned w" for base' v'
    using Cons.IH that by (simp add: one_more_def ok)
  have b: "ok (case Option.bind (digit_of b c) (add_digit (max_unsigned w) b v) of None \<Rightarrow> (0, v)
        | Some v \<Rightarrow> one_more (convert_unsigned (max_unsigned w) b v cs))" for b
    using go d Cons.prems by (cases "Option.bind (digit_of b c) (add_digit (max_unsigned w) b v)") (auto simp: bind_eq_Some_conv ok)
  have "ok (0, v)" using Cons.prems by (simp add: ok)
  then have "ok (convert_unsigned (max_unsigned w) base v (c # cs))"
    unfolding convert_unsigned.simps Let_def counted_case if_split [of ok]
    using go [of v] Cons.prems b by blast
  then show ?case by (simp only: ok)
qed simp

text \<open>Whatever the text, the number that is read lies in the range of its type, and no more characters are
  taken than there are: a digit that would leave the range ends the number.\<close>

theorem number_in_range:
  assumes "0 < w"
  shows "case convert sign w parse t of (n, v) \<Rightarrow> n \<le> length t \<and> type_min sign w \<le> v \<and> v \<le> type_max sign w"
  using convert_unsigned_range [where v = 0 and w = w and base = parse and t = t]
    convert_signed_range [OF signed_range_0 [OF assms] assms, where base = parse and t = t and sign = False]
  by (auto simp: convert_def type_min_def type_max_def max_unsigned_def split: prod.splits)

theorem number_in_range_witness:
  "case convert True 8 Base_unknown ''-129'' of (n, v) \<Rightarrow> n \<le> length ''-129'' \<and> - 128 \<le> v \<and> v \<le> 127"
  using number_in_range [where w = 8 and sign = True and parse = Base_unknown and t = "''-129''"]
  by (simp add: type_min_def type_max_def min_signed_def max_signed_def del: convert_signed.simps)

end
