(* ===== verification/Rpc_Messages.thy ===== *)
theory Rpc_Messages
  imports Frame_Codec Numbers
begin

text \<open>
  The messages of the remote procedure calls, \<^verbatim>\<open>Source/com/Messages.h\<close>: the call, its answer, the
  announcement of a process and the answer to it, each a frame with numbers and texts at fixed
  offsets. An \<^verbatim>\<open>instance_id\<close> has 64 bits. \<open>granted\<close> are the sizes the memory manager hands out.
\<close>

definition rpc_kind :: "(nat \<Rightarrow> bool) \<Rightarrow> frame_kind" where
  "rpc_kind granted = \<lparr>fk_block = 512, fk_big = True, fk_bits = 32, fk_granted = granted\<rparr>"

text \<open>\<open>Frame::Serialize\<close> and \<open>Frame::Deserialize\<close>.\<close>

definition data_serialize :: "frame \<Rightarrow> nat \<Rightarrow> nat \<Rightarrow> u8 list option" where
  "data_serialize f max_length offset = load offset (min (sub32 (fr_size f) offset) max_length) f"

definition data_deserialize :: "(nat \<Rightarrow> bool) \<Rightarrow> frame \<Rightarrow> u8 list \<Rightarrow> nat \<Rightarrow> (nat \<times> frame) option" where
  "data_deserialize granted f stream offset =
     map_option (\<lambda>f. (length stream, f)) (store offset stream (set_size (rpc_kind granted) (offset + length stream) f))"

text \<open>Straight-line code over a frame, in which every number or text is put somewhere.\<close>

definition set_at :: "(frame \<Rightarrow> (nat \<times> frame) option) \<Rightarrow> frame \<Rightarrow> frame option" where
  "set_at op f = map_option snd (op f)"

fun set_seq :: "(frame \<Rightarrow> (nat \<times> frame) option) list \<Rightarrow> frame \<Rightarrow> frame option" where
  "set_seq [] f = Some f"
| "set_seq (op # ops) f = Option.bind (set_at op f) (set_seq ops)"

subsection \<open>The call\<close>

definition input_is_valid :: "frame \<Rightarrow> bool" where
  "input_is_valid f \<longleftrightarrow> 13 \<le> fr_size f"

definition input_set :: "(nat \<Rightarrow> bool) \<Rightarrow> u64 \<Rightarrow> u32 \<Rightarrow> u8 \<Rightarrow> frame \<Rightarrow> frame option" where
  "input_set granted implementation interface_id method_id f =
     map_option snd
       (Option.bind (writer_number (rpc_kind granted) implementation (0, f)) (\<lambda>w.
        Option.bind (writer_number (rpc_kind granted) interface_id w)
          (writer_number (rpc_kind granted) method_id)))"

definition number_at :: "(nat \<Rightarrow> bool) \<Rightarrow> nat \<Rightarrow> frame \<Rightarrow> 'a::len word option" where
  "number_at granted offset f = map_option snd (get_number (rpc_kind granted) offset f)"

definition input_implementation :: "(nat \<Rightarrow> bool) \<Rightarrow> frame \<Rightarrow> u64 option" where
  "input_implementation granted f = number_at granted 0 f"

definition input_interface_id :: "(nat \<Rightarrow> bool) \<Rightarrow> frame \<Rightarrow> u32 option" where
  "input_interface_id granted f = number_at granted 8 f"

definition input_method_id :: "(nat \<Rightarrow> bool) \<Rightarrow> frame \<Rightarrow> u8 option" where
  "input_method_id granted f = number_at granted 12 f"

text \<open>The writer and the reader of the arguments.\<close>

definition input_writer :: "frame \<Rightarrow> nat \<times> frame" where
  "input_writer f = (13, f)"

definition input_reader :: nat where
  "input_reader = 13"

subsection \<open>The answer\<close>

datatype output_mode = Mode_none | Cached_addref | Cached_release

fun mode_code :: "output_mode \<Rightarrow> u8" where
  "mode_code Mode_none = 0"
| "mode_code Cached_addref = 1"
| "mode_code Cached_release = 2"

definition add_implementation :: "(nat \<Rightarrow> bool) \<Rightarrow> u64 \<Rightarrow> u32 \<Rightarrow> output_mode \<Rightarrow> frame \<Rightarrow> frame option" where
  "add_implementation granted implementation ident how =
     set_seq [\<lambda>f. set_number (rpc_kind granted) (fr_size f) implementation f,
       \<lambda>f. set_number (rpc_kind granted) (fr_size f) ident f,
       \<lambda>f. set_number (rpc_kind granted) (fr_size f) (mode_code how) f]"

subsection \<open>The announcement\<close>

datatype announce = Acquire | Offer | Revoke | Request

fun announce_code :: "announce \<Rightarrow> u8" where
  "announce_code Acquire = 0"
| "announce_code Offer = 1"
| "announce_code Revoke = 2"
| "announce_code Request = 3"

text \<open>
  What the environment says of the parent: an exchange identifier, and a callsign behind a comma.
  The exchange identifier is used only where the caller gives none.
\<close>

definition parent_exchange :: "u8 list \<Rightarrow> u32 \<Rightarrow> u32" where
  "parent_exchange parent_info my_exchange_id =
     (if parent_info \<noteq> [] \<and> my_exchange_id = - 1
      then of_int (read_unsigned 32 Base_unknown (map (char_of \<circ> unat) (takeWhile (\<lambda>c. c \<noteq> 44) parent_info)))
      else my_exchange_id)"

definition parent_callsign :: "u8 list \<Rightarrow> u8 list" where
  "parent_callsign parent_info = drop 1 (dropWhile (\<lambda>c. c \<noteq> 44) parent_info)"

definition init_set :: "(nat \<Rightarrow> bool) \<Rightarrow> u8 list \<Rightarrow> u32 \<Rightarrow> u8 list \<Rightarrow> u64 \<Rightarrow> u32 \<Rightarrow> u32 \<Rightarrow> u32 \<Rightarrow> announce \<Rightarrow> frame \<Rightarrow> frame option" where
  "init_set granted parent_info my_id class_name implementation interface_id my_exchange_id version_id what f =
     Option.bind
       (set_seq [set_number (rpc_kind granted) 0 implementation,
         set_number (rpc_kind granted) 8 my_id,
         set_number (rpc_kind granted) 12 interface_id,
         set_number (rpc_kind granted) 16 (parent_exchange parent_info my_exchange_id),
         set_number (rpc_kind granted) 20 version_id,
         set_number (rpc_kind granted) 24 (announce_code what)] f)
       (\<lambda>f. case set_text TYPE(16) (rpc_kind granted) 25 class_name f of
          None \<Rightarrow> None
        | Some (class_name_length, f) \<Rightarrow>
            set_at (set_text TYPE(16) (rpc_kind granted) (25 + class_name_length mod 2 ^ 16) (parent_callsign parent_info)) f)"

definition init_set_id :: "(nat \<Rightarrow> bool) \<Rightarrow> u8 list \<Rightarrow> u32 \<Rightarrow> frame \<Rightarrow> frame option" where
  "init_set_id granted parent_info my_id = init_set granted parent_info my_id [] 0 (- 1) (- 1) (- 1) Acquire"

definition init_set_request :: "(nat \<Rightarrow> bool) \<Rightarrow> u8 list \<Rightarrow> u32 \<Rightarrow> u32 \<Rightarrow> u64 \<Rightarrow> u32 \<Rightarrow> frame \<Rightarrow> frame option" where
  "init_set_request granted parent_info my_id interface_id implementation exchange_id =
     init_set granted parent_info my_id [] implementation interface_id exchange_id 0 Request"

definition init_set_offer :: "(nat \<Rightarrow> bool) \<Rightarrow> u8 list \<Rightarrow> u32 \<Rightarrow> u32 \<Rightarrow> u64 \<Rightarrow> announce \<Rightarrow> frame \<Rightarrow> frame option" where
  "init_set_offer granted parent_info my_id interface_id implementation what =
     init_set granted parent_info my_id [] implementation interface_id (- 1) 0 what"

definition init_set_acquire :: "(nat \<Rightarrow> bool) \<Rightarrow> u8 list \<Rightarrow> u32 \<Rightarrow> u8 list \<Rightarrow> u32 \<Rightarrow> u32 \<Rightarrow> frame \<Rightarrow> frame option" where
  "init_set_acquire granted parent_info my_id class_name interface_id version_id =
     init_set granted parent_info my_id class_name 0 interface_id (- 1) version_id Acquire"

definition init_is_valid :: "frame \<Rightarrow> bool" where
  "init_is_valid f \<longleftrightarrow> 27 \<le> fr_size f"

definition init_is :: "(nat \<Rightarrow> bool) \<Rightarrow> announce \<Rightarrow> frame \<Rightarrow> bool option" where
  "init_is granted what f = map_option (\<lambda>c :: u8. c = announce_code what) (number_at granted 24 f)"

definition init_implementation :: "(nat \<Rightarrow> bool) \<Rightarrow> frame \<Rightarrow> u64 option" where
  "init_implementation granted f = number_at granted 0 f"

definition init_id :: "(nat \<Rightarrow> bool) \<Rightarrow> frame \<Rightarrow> u32 option" where
  "init_id granted f = number_at granted 8 f"

definition init_interface_id :: "(nat \<Rightarrow> bool) \<Rightarrow> frame \<Rightarrow> u32 option" where
  "init_interface_id granted f = number_at granted 12 f"

definition init_exchange_id :: "(nat \<Rightarrow> bool) \<Rightarrow> frame \<Rightarrow> u32 option" where
  "init_exchange_id granted f = number_at granted 16 f"

definition init_version_id :: "(nat \<Rightarrow> bool) \<Rightarrow> frame \<Rightarrow> u32 option" where
  "init_version_id granted f = number_at granted 20 f"

definition init_class_name :: "(nat \<Rightarrow> bool) \<Rightarrow> frame \<Rightarrow> u8 list option" where
  "init_class_name granted f = map_option snd (get_text TYPE(16) (rpc_kind granted) 25 f)"

subsection \<open>The answer to an announcement\<close>

text \<open>The lengths of the texts are added up in 16 bits.\<close>

definition setup_set :: "(nat \<Rightarrow> bool) \<Rightarrow> u64 \<Rightarrow> u32 \<Rightarrow> u8 list \<Rightarrow> u8 list \<Rightarrow> u8 list \<Rightarrow> frame \<Rightarrow> frame option" where
  "setup_set granted implementation sequence_number proxy_stub_path messaging warning f =
     Option.bind
       (set_seq [set_number (rpc_kind granted) 0 implementation, set_number (rpc_kind granted) 8 sequence_number] f)
       (\<lambda>f. case set_text TYPE(16) (rpc_kind granted) 13 proxy_stub_path f of
          None \<Rightarrow> None
        | Some (n, f) \<Rightarrow>
            (let len = n mod 2 ^ 16 in
             case set_text TYPE(16) (rpc_kind granted) (13 + len) messaging f of
               None \<Rightarrow> None
             | Some (n, f) \<Rightarrow>
                 (let len = (len + n) mod 2 ^ 16
                  in set_at (set_text TYPE(16) (rpc_kind granted) (13 + len) warning) f)))"

definition setup_is_set :: "frame \<Rightarrow> bool" where
  "setup_is_set f \<longleftrightarrow> 0 < fr_size f"

definition setup_sequence_number :: "(nat \<Rightarrow> bool) \<Rightarrow> frame \<Rightarrow> u32 option" where
  "setup_sequence_number granted f = number_at granted 8 f"

definition setup_set_action :: "(nat \<Rightarrow> bool) \<Rightarrow> output_mode \<Rightarrow> frame \<Rightarrow> frame option" where
  "setup_set_action granted mode = set_at (set_number (rpc_kind granted) 12 (mode_code mode))"

definition setup_action :: "(nat \<Rightarrow> bool) \<Rightarrow> frame \<Rightarrow> u8 option" where
  "setup_action granted f = number_at granted 12 f"

definition setup_set_implementation :: "(nat \<Rightarrow> bool) \<Rightarrow> u64 \<Rightarrow> frame \<Rightarrow> frame option" where
  "setup_set_implementation granted implementation = set_at (set_number (rpc_kind granted) 0 implementation)"

definition setup_implementation :: "(nat \<Rightarrow> bool) \<Rightarrow> frame \<Rightarrow> u64 option" where
  "setup_implementation granted f = number_at granted 0 f"

text \<open>The texts one behind the other; the offset is kept in 16 bits.\<close>

definition setup_text :: "(nat \<Rightarrow> bool) \<Rightarrow> frame \<Rightarrow> nat \<Rightarrow> (nat \<times> u8 list) option" where
  "setup_text granted f len =
     map_option (\<lambda>(n, v). ((len + n) mod 2 ^ 16, v)) (get_text TYPE(16) (rpc_kind granted) len f)"

definition setup_proxy_stub_path :: "(nat \<Rightarrow> bool) \<Rightarrow> frame \<Rightarrow> u8 list option" where
  "setup_proxy_stub_path granted f = map_option snd (setup_text granted f 13)"

definition setup_messaging :: "(nat \<Rightarrow> bool) \<Rightarrow> frame \<Rightarrow> u8 list option" where
  "setup_messaging granted f =
     Option.bind (setup_text granted f 13) (\<lambda>(len, _). map_option snd (setup_text granted f len))"

definition setup_warning_reporting :: "(nat \<Rightarrow> bool) \<Rightarrow> frame \<Rightarrow> u8 list option" where
  "setup_warning_reporting granted f =
     Option.bind (setup_text granted f 13) (\<lambda>(len, _).
     Option.bind (setup_text granted f len) (\<lambda>(len, _). map_option snd (setup_text granted f len)))"


subsection \<open>Writing several things\<close>

text \<open>What a statement, and a sequence of statements, writes in a frame with room.\<close>

definition puts :: "frame_kind \<Rightarrow> nat \<Rightarrow> nat \<Rightarrow> u8 list \<Rightarrow> (frame \<Rightarrow> (nat \<times> frame) option) \<Rightarrow> bool" where
  "puts k limit offset bs op \<longleftrightarrow> (\<forall>f. frame_room k limit f \<longrightarrow>
     (\<exists>g. op f = Some (length bs, g) \<and> wrote offset bs f g \<and> frame_room k limit g))"

definition seq_puts :: "frame_kind \<Rightarrow> nat \<Rightarrow> nat \<Rightarrow> u8 list \<Rightarrow> (frame \<Rightarrow> (nat \<times> frame) option) list \<Rightarrow> bool" where
  "seq_puts k limit offset bs ops \<longleftrightarrow> (\<forall>f. frame_room k limit f \<longrightarrow>
     (\<exists>g. set_seq ops f = Some g \<and> wrote offset bs f g \<and> frame_room k limit g))"

lemma putsD: "puts k limit offset bs op \<Longrightarrow> frame_room k limit f \<Longrightarrow>
    \<exists>g. op f = Some (length bs, g) \<and> wrote offset bs f g \<and> frame_room k limit g"
  and seq_putsD: "seq_puts k limit offset bs ops \<Longrightarrow> frame_room k limit f \<Longrightarrow>
    \<exists>g. set_seq ops f = Some g \<and> wrote offset bs f g \<and> frame_room k limit g"
  by (simp_all add: puts_def seq_puts_def)

lemma puts_number:
  "8 dvd LENGTH('a::len) \<Longrightarrow> offset + LENGTH('a) div 8 \<le> limit \<Longrightarrow> puts k limit offset (ordered_bytes k (v :: 'a word)) (set_number k offset v)"
  using set_number_writes [of k limit _ offset v] by (simp add: puts_def)

lemma puts_text:
  "length v < 2 ^ 16 \<Longrightarrow> offset + 2 + length v \<le> limit \<Longrightarrow> puts k limit offset (text_bytes TYPE(16) k v) (set_text TYPE(16) k offset v)"
  using set_text_writes [of v k limit _ offset "TYPE(16)"] by (simp add: puts_def)

lemma seq_puts_one: "puts k limit offset bs op \<Longrightarrow> seq_puts k limit offset bs [op]"
  by (fastforce simp: puts_def seq_puts_def set_at_def)

lemma seq_puts_Cons:
  assumes "puts k limit offset bs op" "seq_puts k limit (offset + length bs) cs ops"
  shows "seq_puts k limit offset (bs @ cs) (op # ops)"
  unfolding seq_puts_def
proof (intro allI impI)
  fix f assume f: "frame_room k limit f"
  obtain g where g: "op f = Some (length bs, g)" "wrote offset bs f g" "frame_room k limit g" using putsD [OF assms(1) f] by blast
  obtain h where h: "set_seq ops g = Some h" "wrote (offset + length bs) cs g h" "frame_room k limit h"
    using seq_putsD [OF assms(2) g(3)] by blast
  show "\<exists>g. set_seq (op # ops) f = Some g \<and> wrote offset (bs @ cs) f g \<and> frame_room k limit g"
    using g h wrote_append [OF g(2) h(2)] by (auto simp: set_at_def)
qed

text \<open>A part of the bytes written is read back.\<close>

definition has_bytes :: "frame_kind \<Rightarrow> nat \<Rightarrow> u8 list \<Rightarrow> frame \<Rightarrow> bool" where
  "has_bytes k offset bs f \<longleftrightarrow> (\<exists>limit. frame_room k limit f) \<and> segment f offset (length bs) = bs \<and> offset + length bs \<le> fr_size f"

lemma wrote_has_bytes: "wrote offset bs f g \<Longrightarrow> frame_room k limit g \<Longrightarrow> has_bytes k offset bs g"
  by (auto simp: wrote_def has_bytes_def)

lemma has_bytes_append: "has_bytes k offset (bs @ cs) f \<longleftrightarrow> has_bytes k offset bs f \<and> has_bytes k (offset + length bs) cs f"
  by (auto simp: has_bytes_def segment_append)

lemma has_bytes_later:
  assumes "has_bytes k offset bs f" "wrote offset' cs f g" "frame_room k limit g"
    "offset + length bs \<le> offset' \<or> offset' + length cs \<le> offset"
  shows "has_bytes k offset bs g"
proof -
  have "segment g offset (length bs) = segment f offset (length bs)"
    using assms(2,4) by (intro segment_cong) (auto simp: wrote_def)
  then show ?thesis using assms by (auto simp: has_bytes_def wrote_def)
qed

lemma number_at_bytes:
  "8 dvd LENGTH('a::len) \<Longrightarrow> has_bytes (rpc_kind granted) offset (ordered_bytes (rpc_kind granted) v) f \<Longrightarrow>
    number_at granted offset f = Some (v :: 'a word)"
  using get_number_reads [of "rpc_kind granted" _ f offset v] by (auto simp: has_bytes_def number_at_def)

lemma get_text_bytes:
  "has_bytes k offset (text_bytes TYPE(16) k v) f \<Longrightarrow> length v < 2 ^ 16 \<Longrightarrow> get_text TYPE(16) k offset f = Some (2 + length v, v)"
  using get_text_reads [of v k _ f offset "TYPE(16)"] by (auto simp: has_bytes_def)

lemma mode_code_inj: "mode_code a = mode_code b \<longleftrightarrow> a = b"
  by (cases a; cases b) simp_all

lemma announce_code_inj: "announce_code a = announce_code b \<longleftrightarrow> a = b"
  by (cases a; cases b) simp_all

lemmas field_lengths = length_ordered_bytes length_text_bytes

subsection \<open>Round trips\<close>

text \<open>The instance, the interface and the method of a call are read as they were set, in a new message and in
  one that is used again, and the arguments start behind them.\<close>

theorem input_roundtrip:
  assumes "frame_room (rpc_kind granted) limit f" "13 \<le> limit"
  shows "\<exists>g. input_set granted implementation interface_id method_id f = Some g \<and> input_is_valid g \<and>
    input_implementation granted g = Some implementation \<and> input_interface_id granted g = Some interface_id \<and>
    input_method_id granted g = Some method_id \<and>
    (\<forall>i\<ge>input_reader. fr_memory g i = fr_memory f i) \<and> input_reader = fst (input_writer g)"
proof -
  obtain k where k: "k = rpc_kind granted" by blast
  note room = assms(1) [folded k]
  obtain f1 where f1: "writer_number k implementation (0, f) = Some (8, f1)" "wrote 0 (ordered_bytes k implementation) f f1" "frame_room k limit f1"
    using number_field.writes [where v = implementation and k = k and limit = limit and f = f and offset = 0] room assms(2) by auto
  obtain f2 where f2: "writer_number k interface_id (8, f1) = Some (12, f2)" "wrote 8 (ordered_bytes k interface_id) f1 f2" "frame_room k limit f2"
    using number_field.writes [where v = interface_id and k = k and limit = limit and f = f1 and offset = 8] f1 assms(2) by auto
  obtain g where g: "writer_number k method_id (12, f2) = Some (13, g)" "wrote 12 (ordered_bytes k method_id) f2 g" "frame_room k limit g"
    using number_field.writes [where v = method_id and k = k and limit = limit and f = f2 and offset = 12] f2 assms(2) by auto
  have w2: "wrote 0 (ordered_bytes k implementation @ ordered_bytes k interface_id) f f2"
    using f1(2) by (rule wrote_append) (simp add: f2(2))
  have w: "wrote 0 ((ordered_bytes k implementation @ ordered_bytes k interface_id) @ ordered_bytes k method_id) f g"
    using w2 by (rule wrote_append) (simp add: g(2))
  have b: "has_bytes k 0 (ordered_bytes k implementation) g" "has_bytes k 8 (ordered_bytes k interface_id) g" "has_bytes k 12 (ordered_bytes k method_id) g"
    using wrote_has_bytes [OF w g(3)] by (simp_all add: has_bytes_append)
  have "input_set granted implementation interface_id method_id f = Some g"
    using f1 f2 g by (simp add: input_set_def k)
  moreover have "13 \<le> fr_size g" "\<forall>i\<ge>13. fr_memory g i = fr_memory f i" using w by (auto simp: wrote_def)
  ultimately show ?thesis
    using b by (simp add: k input_is_valid_def input_implementation_def input_interface_id_def input_method_id_def
        number_at_bytes input_reader_def input_writer_def)
qed

definition new_message :: frame where
  "new_message = \<lparr>fr_size = 0, fr_capacity = 512, fr_memory = \<lambda>i. 0\<rparr>"

lemma new_message_room: "limit \<le> 65536 \<Longrightarrow> frame_room (rpc_kind (\<lambda>n. True)) limit new_message"
proof -
  assume l: "limit \<le> 65536"
  have "(limit div 512 + 1) * 512 \<le> limit + 512" by simp
  also have "\<dots> < 4294967296" using l by simp
  finally show ?thesis using l by (simp add: frame_room_def rpc_kind_def new_message_def)
qed

theorem input_roundtrip_witness:
  "\<exists>g. input_set (\<lambda>n. True) 7 8 9 new_message = Some g \<and> input_method_id (\<lambda>n. True) g = Some 9"
  using input_roundtrip [of "\<lambda>n. True" 100 new_message 7 8 9] new_message_room [of 100] by auto

text \<open>C35: what a process announces is what the other side reads: the kind, the instance, the identifiers, the version,
  and the name of the class. The exchange identifier of the environment replaces a missing one.\<close>

theorem announce_roundtrip:
  assumes "frame_room (rpc_kind granted) limit f" "length class_name + 2 < 2 ^ 16" "length (parent_callsign parent_info) < 2 ^ 16"
    "25 + (2 + length class_name) + (2 + length (parent_callsign parent_info)) \<le> limit"
  shows "\<exists>g. init_set granted parent_info my_id class_name implementation interface_id my_exchange_id version_id what f = Some g \<and>
    init_is_valid g \<and> (\<forall>what'. init_is granted what' g = Some (what' = what)) \<and>
    init_implementation granted g = Some implementation \<and> init_id granted g = Some my_id \<and>
    init_interface_id granted g = Some interface_id \<and>
    init_exchange_id granted g = Some (parent_exchange parent_info my_exchange_id) \<and>
    init_version_id granted g = Some version_id \<and> init_class_name granted g = Some class_name"
proof -
  obtain k where k: "k = rpc_kind granted" by blast
  obtain e where e: "e = parent_exchange parent_info my_exchange_id" by blast
  obtain s where s: "s = parent_callsign parent_info" by blast
  note room = assms(1) [folded k]
  have l: "25 \<le> limit" using assms(4) by simp
  have "seq_puts k limit 0 (ordered_bytes k implementation @ ordered_bytes k my_id @ ordered_bytes k interface_id @
      ordered_bytes k e @ ordered_bytes k version_id @ ordered_bytes k (announce_code what))
    [set_number k 0 implementation, set_number k 8 my_id, set_number k 12 interface_id, set_number k 16 e,
     set_number k 20 version_id, set_number k 24 (announce_code what)]"
    (is "seq_puts k limit 0 ?bs ?ops")
    using l by (intro seq_puts_Cons seq_puts_one) (simp_all add: puts_number field_lengths)
  from seq_putsD [OF this room] obtain f1 where
    f1: "set_seq ?ops f = Some f1" "wrote 0 ?bs f f1" "frame_room k limit f1" by blast
  have p: "puts k limit 25 (text_bytes TYPE(16) k class_name) (set_text TYPE(16) k 25 class_name)"
    using assms(2,4) by (intro puts_text) simp_all
  obtain f2 where f2: "set_text TYPE(16) k 25 class_name f1 = Some (2 + length class_name, f2)"
    "wrote 25 (text_bytes TYPE(16) k class_name) f1 f2" "frame_room k limit f2"
    using putsD [OF p f1(3)] by auto
  have p: "puts k limit (27 + length class_name) (text_bytes TYPE(16) k s) (set_text TYPE(16) k (27 + length class_name) s)"
    using assms(3,4) by (intro puts_text) (simp_all add: s)
  obtain g where g: "set_text TYPE(16) k (27 + length class_name) s f2 = Some (2 + length s, g)"
    "wrote (27 + length class_name) (text_bytes TYPE(16) k s) f2 g" "frame_room k limit g"
    using putsD [OF p f2(3)] by auto
  have "wrote 0 (?bs @ text_bytes TYPE(16) k class_name) f f2" using f1(2) by (rule wrote_append) (simp add: field_lengths f2(2))
  then have "has_bytes k 0 (?bs @ text_bytes TYPE(16) k class_name) f2" using f2(3) by (rule wrote_has_bytes)
  then have "has_bytes k 0 (?bs @ text_bytes TYPE(16) k class_name) g"
    using g(2,3) by (rule has_bytes_later) (simp add: field_lengths)
  then have b: "has_bytes k 0 (ordered_bytes k implementation) g" "has_bytes k 8 (ordered_bytes k my_id) g"
    "has_bytes k 12 (ordered_bytes k interface_id) g" "has_bytes k 16 (ordered_bytes k e) g"
    "has_bytes k 20 (ordered_bytes k version_id) g" "has_bytes k 24 (ordered_bytes k (announce_code what)) g"
    "has_bytes k 25 (text_bytes TYPE(16) k class_name) g"
    by (simp_all add: has_bytes_append field_lengths)
  have "init_set granted parent_info my_id class_name implementation interface_id my_exchange_id version_id what f = Some g"
    using f1(1) f2(1) g(1) assms(2) by (simp add: init_set_def set_at_def k [symmetric] e [symmetric] s [symmetric] del: set_seq.simps)
  moreover have "27 \<le> fr_size g" using g(2) by (simp add: wrote_def)
  moreover have "number_at granted 0 g = Some implementation" "number_at granted 8 g = Some my_id"
    "number_at granted 12 g = Some interface_id" "number_at granted 16 g = Some e" "number_at granted 20 g = Some version_id"
    "number_at granted 24 g = Some (announce_code what)" "get_text TYPE(16) (rpc_kind granted) 25 g = Some (2 + length class_name, class_name)"
    using b assms(2) by (simp_all add: k number_at_bytes get_text_bytes)
  ultimately show ?thesis
    by (intro exI [of _ g]) (auto simp: init_is_valid_def init_is_def init_implementation_def init_id_def init_interface_id_def
        init_exchange_id_def init_version_id_def init_class_name_def announce_code_inj e)
qed

theorem announce_roundtrip_witness:
  "\<exists>g. init_set (\<lambda>n. True) [49, 50, 44, 65] 5 [67, 108] 6 7 (- 1) 8 Acquire new_message = Some g \<and>
     init_exchange_id (\<lambda>n. True) g = Some (parent_exchange [49, 50, 44, 65] (- 1)) \<and> init_class_name (\<lambda>n. True) g = Some [67, 108]"
  using announce_roundtrip [of "\<lambda>n. True" 100 new_message "[67, 108]" "[49, 50, 44, 65]" 5 6 7 "- 1" 8 Acquire]
    new_message_room [of 100] by (auto simp: parent_callsign_def)

text \<open>The answer to an announcement keeps the action that was set before, and its three texts are read as they were
  set as long as their lengths can be added up in 16 bits.\<close>

theorem setup_roundtrip:
  assumes "frame_room (rpc_kind granted) limit f" "setup_set_action granted mode f = Some f0"
    "13 + (2 + length path) + (2 + length messaging) < 2 ^ 16" "length warning < 2 ^ 16"
    "13 + (2 + length path) + (2 + length messaging) + (2 + length warning) \<le> limit"
  shows "\<exists>g. setup_set granted implementation sequence_number path messaging warning f0 = Some g \<and> setup_is_set g \<and>
    setup_implementation granted g = Some implementation \<and> setup_sequence_number granted g = Some sequence_number \<and>
    setup_action granted g = Some (mode_code mode) \<and> setup_proxy_stub_path granted g = Some path \<and>
    setup_messaging granted g = Some messaging \<and> setup_warning_reporting granted g = Some warning"
proof -
  obtain k where k: "k = rpc_kind granted" by blast
  obtain a where a: "a = 15 + length path" by blast
  obtain c where c: "c = a + (2 + length messaging)" by blast
  have lim: "13 \<le> limit" "13 + 2 + length path \<le> limit" "a + 2 + length messaging \<le> limit" "c + 2 + length warning \<le> limit"
    using assms(5) by (auto simp: a c)
  have room: "frame_room k limit f0" and action: "has_bytes k 12 (ordered_bytes k (mode_code mode)) f0"
    using putsD [OF puts_number [of 12 limit k "mode_code mode"] assms(1) [folded k]] lim assms(2) wrote_has_bytes
    by (auto simp: setup_set_action_def set_at_def k)
  have "seq_puts k limit 0 (ordered_bytes k implementation @ ordered_bytes k sequence_number)
    [set_number k 0 implementation, set_number k 8 sequence_number]" (is "seq_puts k limit 0 ?bs ?ops")
    using lim by (intro seq_puts_Cons seq_puts_one) (simp_all add: puts_number field_lengths)
  from seq_putsD [OF this room] obtain f1 where
    f1: "set_seq ?ops f0 = Some f1" "wrote 0 ?bs f0 f1" "frame_room k limit f1" by blast
  obtain f2 where f2: "set_text TYPE(16) k 13 path f1 = Some (2 + length path, f2)"
    "wrote 13 (text_bytes TYPE(16) k path) f1 f2" "frame_room k limit f2"
    using putsD [OF puts_text [of path 13 limit k] f1(3)] lim assms(3) by auto
  obtain f3 where f3: "set_text TYPE(16) k a messaging f2 = Some (2 + length messaging, f3)"
    "wrote a (text_bytes TYPE(16) k messaging) f2 f3" "frame_room k limit f3"
    using putsD [OF puts_text [of messaging a limit k] f2(3)] lim assms(3) by auto
  obtain g where g: "set_text TYPE(16) k c warning f3 = Some (2 + length warning, g)"
    "wrote c (text_bytes TYPE(16) k warning) f3 g" "frame_room k limit g"
    using putsD [OF puts_text [of warning c limit k] f3(3)] lim assms(4) by auto
  have later: "has_bytes k i bs g" if "has_bytes k i bs f1" "i + length bs \<le> 13" for i bs
  proof -
    have "has_bytes k i bs f2" using that(1) f2(2,3) by (rule has_bytes_later) (simp add: that(2))
    then have "has_bytes k i bs f3" using f3(2,3) by (rule has_bytes_later) (use that(2) in \<open>simp add: a\<close>)
    then show ?thesis using g(2,3) by (rule has_bytes_later) (use that(2) in \<open>simp add: a c\<close>)
  qed
  have "has_bytes k 0 ?bs f1" using f1(2,3) by (rule wrote_has_bytes)
  then have "has_bytes k 0 ?bs g" by (rule later) (simp add: field_lengths)
  then have b: "has_bytes k 0 (ordered_bytes k implementation) g" "has_bytes k 8 (ordered_bytes k sequence_number) g"
    by (simp_all add: has_bytes_append field_lengths)
  have "has_bytes k 12 (ordered_bytes k (mode_code mode)) f1"
    using action f1(2,3) by (rule has_bytes_later) (simp add: field_lengths)
  then have m: "has_bytes k 12 (ordered_bytes k (mode_code mode)) g" by (rule later) (simp add: field_lengths)
  have "has_bytes k 13 (text_bytes TYPE(16) k path) f3"
    using wrote_has_bytes [OF f2(2,3)] f3(2,3) by (rule has_bytes_later) (simp add: field_lengths a)
  then have t1: "has_bytes k 13 (text_bytes TYPE(16) k path) g"
    using g(2,3) by (rule has_bytes_later) (simp add: field_lengths a c)
  have t2: "has_bytes k a (text_bytes TYPE(16) k messaging) g"
    using wrote_has_bytes [OF f3(2,3)] g(2,3) by (rule has_bytes_later) (simp add: field_lengths c)
  have t3: "has_bytes k c (text_bytes TYPE(16) k warning) g" using g(2,3) by (rule wrote_has_bytes)
  have m16: "(2 + length path) mod 2 ^ 16 = 2 + length path" "(13 + (2 + length path)) mod 2 ^ 16 = a"
    "(2 + length path + (2 + length messaging)) mod 2 ^ 16 = 2 + length path + (2 + length messaging)"
    "13 + (2 + length path) = a" "13 + (2 + length path + (2 + length messaging)) = c" "(a + (2 + length messaging)) mod 2 ^ 16 = c"
    using assms(3) by (simp_all add: a c)
  have "setup_set granted implementation sequence_number path messaging warning f0 = Some g"
    unfolding setup_set_def k [symmetric] f1(1) Option.bind.simps f2(1) option.case prod.case Let_def m16 f3(1) set_at_def g(1)
    by simp
  moreover have "0 < fr_size g" using g(2) by (simp add: wrote_def)
  moreover have "setup_text granted g 13 = Some (a, path)" "setup_text granted g a = Some (c, messaging)"
    using t1 t2 assms(3) m16(2,6) by (simp_all add: setup_text_def get_text_bytes k del: Suc_eq_plus1)
  moreover have "\<exists>n. setup_text granted g c = Some (n, warning)"
    using t3 assms(4) by (simp add: setup_text_def get_text_bytes k)
  ultimately show ?thesis
    using b m by (auto simp: k setup_is_set_def setup_implementation_def setup_sequence_number_def setup_action_def
        number_at_bytes setup_proxy_stub_path_def setup_messaging_def setup_warning_reporting_def)
qed

theorem setup_roundtrip_witness:
  "\<exists>f0 g. setup_set_action (\<lambda>n. True) Cached_addref new_message = Some f0 \<and>
     setup_set (\<lambda>n. True) 1 2 [47] [] [123, 125] f0 = Some g \<and> setup_action (\<lambda>n. True) g = Some 1 \<and>
     setup_warning_reporting (\<lambda>n. True) g = Some [123, 125]"
proof -
  obtain f0 where f0: "setup_set_action (\<lambda>n. True) Cached_addref new_message = Some f0"
    using putsD [OF puts_number [of 12 100 "rpc_kind (\<lambda>n. True)" "mode_code Cached_addref"] new_message_room [of 100]]
    by (auto simp: setup_set_action_def set_at_def)
  then show ?thesis
    using setup_roundtrip [of "\<lambda>n. True" 100 new_message Cached_addref f0 "[47]" "[]" "[123, 125]" 1 2] new_message_room [of 100]
    by auto
qed

end
