(* ===== verification/Ipc_Message.thy ===== *)
theory Ipc_Message
  imports Rpc_Messages
begin

text \<open>
  The packages that a message of \<^verbatim>\<open>Source/core/IPCConnector.h\<close> carries, \<^verbatim>\<open>Source/core/IPCMessage.h\<close> and
  the frames of \<^verbatim>\<open>Source/com/Messages.h\<close>: each is sent and received in parts. The contract of a package
  says that a part sent is the next part of its content, and that parts received one after the other
  add up; frames, texts, buffers and plain structures keep it, the text of a fixed size does not.
\<close>

subsection \<open>A plain structure\<close>

text \<open>\<open>RawSerializedType\<close> for a package without \<open>Serialize\<close> and \<open>Deserialize\<close>: the bytes of the object.\<close>

definition raw_serialize :: "u8 list \<Rightarrow> nat \<Rightarrow> nat \<Rightarrow> u8 list option" where
  "raw_serialize package max_length offset =
     Some (if offset < length package then take (min max_length (length package - offset)) (drop offset package) else [])"

definition raw_deserialize :: "u8 list \<Rightarrow> u8 list \<Rightarrow> nat \<Rightarrow> (nat \<times> u8 list) option" where
  "raw_deserialize package stream offset =
     (if offset < length package then
        let room = (length package - offset) mod 2 ^ 16;
            result = (if room < length stream then room else length stream)
        in Some (result, blit package offset (take result stream))
      else Some (0, package))"

subsection \<open>A text\<close>

text \<open>\<open>ScalarType<string>\<close>: what is received goes behind what the text holds, whatever the offset.\<close>

definition scalar_serialize :: "u8 list \<Rightarrow> nat \<Rightarrow> nat \<Rightarrow> u8 list option" where
  "scalar_serialize s max_length offset =
     Some (take (min (sub32 (length s) offset) max_length) (drop offset s))"

definition scalar_deserialize :: "u8 list \<Rightarrow> u8 list \<Rightarrow> nat \<Rightarrow> (nat \<times> u8 list) option" where
  "scalar_deserialize s stream offset = Some (length stream, s @ stream)"

subsection \<open>A buffer\<close>

text \<open>\<open>BufferType\<close>: a frame whose size has 16 bits.\<close>

definition buffer_serialize :: "frame \<Rightarrow> nat \<Rightarrow> nat \<Rightarrow> u8 list option" where
  "buffer_serialize f max_length offset =
     load offset (min (sub32 (fr_size f) offset) max_length) f"

definition buffer_deserialize :: "frame_kind \<Rightarrow> frame \<Rightarrow> u8 list \<Rightarrow> nat \<Rightarrow> (nat \<times> frame) option" where
  "buffer_deserialize k f stream offset =
     map_option (\<lambda>g. (length stream, g)) (store offset stream (set_size k (length stream + fr_size f) f))"

definition buffer_set :: "frame_kind \<Rightarrow> u8 list \<Rightarrow> frame \<Rightarrow> frame option" where
  "buffer_set k buffer f = map_option snd (copy_in k 0 buffer f)"

definition buffer_clear :: "frame_kind \<Rightarrow> frame \<Rightarrow> frame" where
  "buffer_clear k f = set_size k 0 f"

subsection \<open>A text of a fixed size\<close>

text \<open>\<open>Text<LENGTH>\<close>: the array and the number of characters. A write outside the array has no result.\<close>

record fixed_text =
  tx_text :: "u8 list"
  tx_length :: nat

definition put_byte :: "nat \<Rightarrow> u8 \<Rightarrow> u8 list \<Rightarrow> u8 list option" where
  "put_byte i b bs = (if i < length bs then Some (bs[i := b]) else None)"

definition text_assign :: "u8 list \<Rightarrow> fixed_text \<Rightarrow> fixed_text option" where
  "text_assign s t =
     (let len = length s mod 2 ^ 16;
          len = (if 0 < len \<and> length (tx_text t) \<le> len then length (tx_text t) - 1 else len)
      in map_option (\<lambda>bs. \<lparr>tx_text = bs, tx_length = len\<rparr>)
           (put_byte len 0 (blit (tx_text t) 0 (take len s))))"

definition text_deserialize :: "fixed_text \<Rightarrow> u8 list \<Rightarrow> nat \<Rightarrow> (nat \<times> fixed_text) option" where
  "text_deserialize t stream offset =
     (if offset < length (tx_text t) then
        let room = nat ((int (length (tx_text t)) - 1 - int offset) mod 2 ^ 16);
            result = (if room < length stream then room else length stream);
            len = (offset + length stream) mod 2 ^ 16
        in map_option (\<lambda>bs. (result, \<lparr>tx_text = bs, tx_length = len\<rparr>))
             (put_byte len 0 (blit (tx_text t) offset (take result stream)))
      else Some (0, t))"

text \<open>
  The number of characters is set from the bytes that arrived and not from those that fit: one byte more
  than fits, and the terminating zero is written behind the array.
\<close>

lemma text_overruns:
  assumes "length (tx_text t) < 2 ^ 16" "length stream = length (tx_text t)" "stream \<noteq> []"
  shows "text_deserialize t stream 0 = None"
  using assms by (auto simp: text_deserialize_def put_byte_def Let_def length_blit)

subsection \<open>The contract\<close>

locale ipc_package =
  fixes limit :: nat
    and content :: "'m \<Rightarrow> u8 list"
    and ready :: "'m \<Rightarrow> bool"
    and serialize :: "'m \<Rightarrow> nat \<Rightarrow> nat \<Rightarrow> u8 list option"
    and holds :: "'m \<Rightarrow> u8 list \<Rightarrow> bool"
    and deserialize :: "'m \<Rightarrow> u8 list \<Rightarrow> nat \<Rightarrow> (nat \<times> 'm) option"
  assumes serializes: "ready m \<Longrightarrow> offset \<le> length (content m) \<Longrightarrow>
      serialize m n offset = Some (take n (drop offset (content m)))"
    and deserializes: "holds m bs \<Longrightarrow> length cs < 2 ^ 16 \<Longrightarrow> length bs + length cs \<le> limit \<Longrightarrow>
      \<exists>m'. deserialize m cs (length bs) = Some (length cs, m') \<and> holds m' (bs @ cs)"


subsection \<open>The packages that keep it\<close>

interpretation raw_package: ipc_package n "\<lambda>p. p" "\<lambda>p. True" raw_serialize
  "\<lambda>p bs. length p = n \<and> n < 2 ^ 16 \<and> take (length bs) p = bs \<and> length bs \<le> n" raw_deserialize for n
proof
  fix m :: "u8 list" and offset k
  assume "offset \<le> length m"
  then show "raw_serialize m k offset = Some (take k (drop offset m))"
    by (auto simp: raw_serialize_def min_def)
next
  fix m bs cs :: "u8 list"
  assume a: "length m = n \<and> n < 2 ^ 16 \<and> take (length bs) m = bs \<and> length bs \<le> n" "length cs < 2 ^ 16"
    "length bs + length cs \<le> n"
  show "\<exists>m'. raw_deserialize m cs (length bs) = Some (length cs, m') \<and>
    (length m' = n \<and> n < 2 ^ 16 \<and> take (length (bs @ cs)) m' = bs @ cs \<and> length (bs @ cs) \<le> n)"
  proof (cases "length bs < n")
    case True
    moreover have "take (length bs + length cs) (blit m (length bs) cs) = bs @ cs"
      using a by (simp add: blit_def)
    ultimately show ?thesis using a by (auto simp: raw_deserialize_def length_blit Let_def)
  next
    case False
    then show ?thesis using a by (auto simp: raw_deserialize_def)
  qed
qed

interpretation scalar_package: ipc_package limit "\<lambda>s. s" "\<lambda>s. length s < 2 ^ 32" scalar_serialize "\<lambda>s bs. s = bs" scalar_deserialize for limit
proof
  fix m :: "u8 list" and offset n
  assume "length m < 2 ^ 32" "offset \<le> length m"
  then show "scalar_serialize m n offset = Some (take n (drop offset m))"
    by (simp add: scalar_serialize_def no_wrap min_def)
qed (simp add: scalar_deserialize_def)

text \<open>A frame that has received some bytes consists of them.\<close>

definition received_frame :: "frame_kind \<Rightarrow> nat \<Rightarrow> frame \<Rightarrow> u8 list \<Rightarrow> bool" where
  "received_frame k limit f bs \<longleftrightarrow> frame_room k limit f \<and> fr_size f = length bs \<and> segment f 0 (length bs) = bs"

lemma receive_frame_part:
  assumes "received_frame k limit f bs" "length bs + length cs \<le> limit"
  shows "\<exists>g. store (length bs) cs (set_size k (length bs + length cs) f) = Some g \<and> received_frame k limit g (bs @ cs)"
proof -
  have f: "frame_room k limit f" "fr_size f = length bs" "segment f 0 (length bs) = bs"
    using assms(1) by (auto simp: received_frame_def)
  obtain g where g: "store (length bs) cs (set_size k (length bs + length cs) f) = Some g" "wrote (length bs) cs f g" "frame_room k limit g"
    using grow_and_store [OF f(1) assms(2) refl] f(2) by auto
  have "segment g 0 (length bs) = segment f 0 (length bs)" using g(2) by (intro segment_cong) (auto simp: wrote_def)
  then show ?thesis
    using f g by (auto simp: received_frame_def wrote_def segment_append)
qed

definition frame_content :: "frame \<Rightarrow> u8 list" where
  "frame_content f = segment f 0 (fr_size f)"

lemma received_content: "received_frame k limit f bs \<Longrightarrow> frame_content f = bs"
  by (simp add: received_frame_def frame_content_def)

lemma length_frame_content [simp]: "length (frame_content f) = fr_size f"
  by (simp add: frame_content_def)

lemma load_part:
  assumes "fr_size f \<le> fr_capacity f" "fr_size f < 2 ^ 32" "offset \<le> fr_size f"
  shows "load offset (min (sub32 (fr_size f) offset) n) f = Some (take n (drop offset (frame_content f)))"
  using assms by (auto simp: load_def no_wrap frame_content_def intro!: nth_equalityI)

interpretation rpc_package: ipc_package limit frame_content
  "\<lambda>f. fr_size f \<le> fr_capacity f \<and> fr_size f < 2 ^ 32" data_serialize
  "received_frame (rpc_kind granted) limit" "data_deserialize granted" for limit granted
proof
  fix m and offset n :: nat
  assume "fr_size m \<le> fr_capacity m \<and> fr_size m < 2 ^ 32" "offset \<le> length (frame_content m)"
  then show "data_serialize m n offset = Some (take n (drop offset (frame_content m)))"
    by (simp add: data_serialize_def load_part)
next
  fix m and bs cs :: "u8 list"
  assume "received_frame (rpc_kind granted) limit m bs" "length bs + length cs \<le> limit"
  then show "\<exists>m'. data_deserialize granted m cs (length bs) = Some (length cs, m') \<and> received_frame (rpc_kind granted) limit m' (bs @ cs)"
    using receive_frame_part [of "rpc_kind granted" limit m bs cs] by (auto simp: data_deserialize_def)
qed

interpretation buffer_package: ipc_package limit frame_content
  "\<lambda>f. fr_size f \<le> fr_capacity f \<and> fr_size f < 2 ^ 16" buffer_serialize
  "received_frame k limit" "buffer_deserialize k" for limit k
proof
  fix m and offset n :: nat
  assume "fr_size m \<le> fr_capacity m \<and> fr_size m < 2 ^ 16" "offset \<le> length (frame_content m)"
  then show "buffer_serialize m n offset = Some (take n (drop offset (frame_content m)))"
    by (simp add: buffer_serialize_def load_part)
next
  fix m and bs cs :: "u8 list"
  assume "received_frame k limit m bs" "length bs + length cs \<le> limit"
  then show "\<exists>m'. buffer_deserialize k m cs (length bs) = Some (length cs, m') \<and> received_frame k limit m' (bs @ cs)"
    using receive_frame_part [of k limit m bs cs] by (auto simp: buffer_deserialize_def received_frame_def add.commute)
qed

end
