(* ===== verification/Ipc_Stream.thy ===== *)
theory Ipc_Stream
  imports Ipc_Message
begin

text \<open>
  Messages on a link: \<open>IMessage::Serializer\<close> and \<open>IMessage::Deserializer\<close> of
  \<^verbatim>\<open>Source/core/IPCConnector.h\<close> with the queue and the callbacks that \<^verbatim>\<open>Source/core/Link.h\<close> gives them.
  A message goes out as the length of what follows, its label, both in groups of seven bits, and
  its package. Calls of the socket hand over a buffer at a time; the loops are partial functions,
  because a package that takes no bytes makes them spin.
\<close>

subsection \<open>Messages\<close>

text \<open>The virtual functions of \<open>IMessage\<close>; \<^verbatim>\<open>nullptr\<close> for a label that has no message is \<open>None\<close>.\<close>

record 'm message_ops =
  im_label :: "'m \<Rightarrow> nat"
  im_length :: "'m \<Rightarrow> nat"
  im_serialize :: "'m \<Rightarrow> nat \<Rightarrow> nat \<Rightarrow> u8 list option"
  im_deserialize :: "'m \<Rightarrow> u8 list \<Rightarrow> nat \<Rightarrow> (nat \<times> 'm) option"

definition command_size :: "nat \<Rightarrow> nat" where
  "command_size label = (if 0x1FFFFF < label then 4 else if 0xCFFF < label then 3 else if 0x7F < label then 2 else 1)"

subsection \<open>Sending\<close>

record 'm sender =
  sd_length :: nat
  sd_offset :: nat
  sd_current :: "'m option"
  sd_queue :: "'m list"
  sd_sent :: "'m list"
  sd_triggers :: nat

definition submit_element :: "'m message_ops \<Rightarrow> 'm \<Rightarrow> 'm sender \<Rightarrow> 'm sender" where
  "submit_element ops m s = s\<lparr>sd_length := im_length ops m, sd_offset := 0, sd_current := Some m\<rparr>"

text \<open>\<open>LinkType::Submit\<close> and \<open>SerializerImpl::Submit\<close>: the first message of the queue is the current one.\<close>

definition link_submit :: "'m message_ops \<Rightarrow> bool \<Rightarrow> 'm \<Rightarrow> 'm sender \<Rightarrow> 'm sender" where
  "link_submit ops open m s =
     (if \<not> open then s
      else
        let s = s\<lparr>sd_queue := sd_queue s @ [m]\<rparr>
        in if length (sd_queue s) = 1 then (submit_element ops m s)\<lparr>sd_triggers := sd_triggers s + 1\<rparr> else s)"

text \<open>\<open>Serialized\<close>: \<open>Send\<close> is told, and the next message becomes the current one.\<close>

definition serialized :: "'m message_ops \<Rightarrow> 'm sender \<Rightarrow> 'm sender" where
  "serialized ops s =
     (let s = s\<lparr>sd_sent := sd_sent s @ [hd (sd_queue s)], sd_queue := tl (sd_queue s)\<rparr>
      in case sd_queue s of
           [] \<Rightarrow> s
         | m # _ \<Rightarrow> (submit_element ops m s)\<lparr>sd_triggers := sd_triggers s + 1\<rparr>)"

text \<open>The loops that write a number; \<open>base\<close> is 0 for the length and 4 for the label.\<close>

fun put_groups :: "nat \<Rightarrow> nat \<Rightarrow> nat \<Rightarrow> nat \<Rightarrow> u8 list \<times> nat" where
  "put_groups v base offset 0 = ([], offset)"
| "put_groups v base offset (Suc room) =
     (if offset < base + 4 then
        let group = v div 2 ^ (7 * (offset - base));
            b = (of_nat (group mod 128) OR (if 128 \<le> group then 0x80 else 0)) :: u8
        in case put_groups v base (if 128 \<le> group then offset + 1 else base + 4) room of
             (bs, offset) \<Rightarrow> (b # bs, offset)
      else ([], offset))"

text \<open>The length and the label: what there is room for.\<close>

definition put_headers :: "nat \<Rightarrow> nat \<Rightarrow> nat \<Rightarrow> nat \<Rightarrow> u8 list \<times> nat" where
  "put_headers v l offset room =
     (let (h1, offset) = put_groups v 0 offset room;
          (h2, offset) = (if 4 \<le> offset then put_groups l 4 offset (room - length h1) else ([], offset))
      in (h1 @ h2, offset))"

text \<open>One turn of the loop of \<open>Serialize\<close> for the current message, with \<open>room\<close> bytes left.\<close>

definition serialize_turn :: "'m message_ops \<Rightarrow> 'm \<Rightarrow> nat \<Rightarrow> 'm sender \<Rightarrow> (u8 list \<times> 'm sender) option" where
  "serialize_turn ops m room s =
     (case put_headers ((sd_length s + command_size (im_label ops m)) mod 2 ^ 32) (im_label ops m) (sd_offset s) room of
        (h, offset) \<Rightarrow>
          if room - length h = 0 then Some (h, s\<lparr>sd_offset := offset\<rparr>)
          else
            case im_serialize ops m (room - length h) (offset - 8) of
              None \<Rightarrow> None
            | Some bs \<Rightarrow>
                Some (h @ bs,
                  if offset + length bs - 8 = sd_length s
                  then serialized ops (s\<lparr>sd_offset := offset + length bs, sd_current := None\<rparr>)
                  else s\<lparr>sd_offset := offset + length bs\<rparr>))"

partial_function (option) serialize_loop :: "'m message_ops \<Rightarrow> nat \<Rightarrow> 'm sender \<Rightarrow> (u8 list \<times> 'm sender) option" where
  "serialize_loop ops room s =
     (case sd_current s of
        None \<Rightarrow> Some ([], s)
      | Some m \<Rightarrow>
          (if room = 0 then Some ([], s)
           else
             case serialize_turn ops m room s of
               None \<Rightarrow> None
             | Some (bs, s) \<Rightarrow>
                 Option.bind (serialize_loop ops (room - length bs) s) (\<lambda>(cs, s). Some (bs @ cs, s))))"

subsection \<open>Receiving\<close>

record 'm receiver =
  rc_length :: nat
  rc_offset :: nat
  rc_label :: nat
  rc_current :: "'m option"

text \<open>The loops that read a number; the fourth byte has eight bits.\<close>

fun take_groups :: "nat \<Rightarrow> nat \<Rightarrow> nat \<Rightarrow> u8 list \<Rightarrow> nat \<times> nat \<times> u8 list" where
  "take_groups base offset v [] = (offset, v, [])"
| "take_groups base offset v (b # bs) =
     (if offset < base + 4 then
        take_groups base (if b AND 0x80 \<noteq> 0 then offset + 1 else base + 4)
          (v OR push_bit (7 * (offset - base)) (unat (b AND (if offset = base + 3 then 0xFF else 0x7F)))) bs
      else (offset, v, b # bs))"

text \<open>\<open>element\<close> and \<open>received\<close> are the callbacks \<open>Element\<close> and \<open>Received\<close>, on a state of their owner.\<close>

definition receive_header ::
  "('s \<Rightarrow> nat \<Rightarrow> 's \<times> 'm option) \<Rightarrow> 'm receiver \<Rightarrow> 's \<Rightarrow> u8 list \<Rightarrow> 'm receiver \<times> 's \<times> u8 list" where
  "receive_header element r s bs =
     (if rc_current r = None \<and> rc_offset r < 8 then
        let (offset, len, bs1) = take_groups 0 (rc_offset r) (rc_length r) bs;
            (offset, label, bs2) = (if 4 \<le> offset then take_groups 4 offset (rc_label r) bs1 else (offset, rc_label r, bs1));
            r = r\<lparr>rc_length := sub32 len (length bs1 - length bs2), rc_offset := offset, rc_label := label\<rparr>
        in if offset = 8 then
             case element s label of (s, m) \<Rightarrow> (r\<lparr>rc_current := m, rc_label := 0\<rparr>, s, bs2)
           else (r, s, bs2)
      else (r, s, bs))"

definition receive_part :: "'m message_ops \<Rightarrow> 'm receiver \<Rightarrow> u8 list \<Rightarrow> (nat \<times> 'm option) option" where
  "receive_part ops r bs =
     (if rc_offset r - 8 < rc_length r then
        let handled = min (length bs) (rc_length r - (rc_offset r - 8))
        in case rc_current r of
             None \<Rightarrow> Some (handled, None)
           | Some m \<Rightarrow> map_option (\<lambda>(n, m). (n, Some m)) (im_deserialize ops m (take handled bs) (rc_offset r - 8))
      else Some (0, rc_current r))"

definition receive_body ::
  "'m message_ops \<Rightarrow> ('s \<Rightarrow> 'm \<Rightarrow> 's) \<Rightarrow> 'm receiver \<Rightarrow> 's \<Rightarrow> u8 list \<Rightarrow> ('m receiver \<times> 's \<times> u8 list) option" where
  "receive_body ops received r s bs =
     (if rc_offset r < 8 then Some (r, s, bs)
      else
        case receive_part ops r bs of
          None \<Rightarrow> None
        | Some (handled, current) \<Rightarrow>
            (let r = r\<lparr>rc_offset := rc_offset r + handled, rc_current := current\<rparr>;
                 bs = drop handled bs
             in if rc_offset r - 8 = rc_length r then
                  Some (r\<lparr>rc_current := None, rc_offset := 0, rc_length := 0\<rparr>,
                    case current of None \<Rightarrow> s | Some m \<Rightarrow> received s m, bs)
                else Some (r, s, bs)))"

partial_function (option) deserialize_loop ::
  "'m message_ops \<Rightarrow> ('s \<Rightarrow> nat \<Rightarrow> 's \<times> 'm option) \<Rightarrow> ('s \<Rightarrow> 'm \<Rightarrow> 's) \<Rightarrow> 'm receiver \<Rightarrow> 's \<Rightarrow> u8 list \<Rightarrow> ('m receiver \<times> 's) option" where
  "deserialize_loop ops element received r s bs =
     (if bs = [] then Some (r, s)
      else
        case receive_header element r s bs of
          (r, s, bs) \<Rightarrow>
            (case receive_body ops received r s bs of
               None \<Rightarrow> None
             | Some (r, s, bs) \<Rightarrow> deserialize_loop ops element received r s bs))"

text \<open>The calls of the socket: buffers filled for sending, buffers received.\<close>

fun send_buffers :: "'m message_ops \<Rightarrow> nat list \<Rightarrow> 'm sender \<Rightarrow> (u8 list list \<times> 'm sender) option" where
  "send_buffers ops [] s = Some ([], s)"
| "send_buffers ops (n # ns) s =
     (case serialize_loop ops n s of
        None \<Rightarrow> None
      | Some (bs, s) \<Rightarrow> map_option (\<lambda>(bss, s). (bs # bss, s)) (send_buffers ops ns s))"

fun receive_buffers ::
  "'m message_ops \<Rightarrow> ('s \<Rightarrow> nat \<Rightarrow> 's \<times> 'm option) \<Rightarrow> ('s \<Rightarrow> 'm \<Rightarrow> 's) \<Rightarrow> u8 list list \<Rightarrow> 'm receiver \<Rightarrow> 's \<Rightarrow> ('m receiver \<times> 's) option" where
  "receive_buffers ops element received [] r s = Some (r, s)"
| "receive_buffers ops element received (bs # bss) r s =
     (case deserialize_loop ops element received r s bs of
        None \<Rightarrow> None
      | Some (r, s) \<Rightarrow> receive_buffers ops element received bss r s)"

end
