(* ===== verification/Ipc_Link.thy ===== *)
theory Ipc_Link
  imports Ipc_Stream
begin

text \<open>
  What a link promises: whatever the sizes of the buffers the socket offers, the bytes that leave it
  are those of the queued messages one after the other, and a receiver that is handed these bytes,
  cut anywhere, delivers the messages in order. The proofs are made once for every package that
  keeps its contract.
\<close>

subsection \<open>Numbers in groups\<close>

definition group_byte :: "nat \<Rightarrow> u8" where
  "group_byte grp = of_nat (grp mod 128) OR (if 128 \<le> grp then 0x80 else 0)"

function groups :: "nat \<Rightarrow> nat \<Rightarrow> u8 list" where
  "groups v i =
     (if i < 4 then
        group_byte (v div 2 ^ (7 * i)) # (if 128 \<le> v div 2 ^ (7 * i) then groups v (i + 1) else [])
      else [])"
  by pat_completeness auto
termination by (relation "measure (\<lambda>(v, i). 4 - i)") auto

declare groups.simps [simp del]

lemma groups_4 [simp]: "groups v 4 = []"
  by (simp add: groups.simps)

lemma groups_step: "i < 4 \<Longrightarrow> groups v i =
    group_byte (v div 2 ^ (7 * i)) # (if 128 \<le> v div 2 ^ (7 * i) then groups v (i + 1) else [])"
  by (simp add: groups.simps [of v i])

lemma groups_not_Nil [simp]: "i < 4 \<Longrightarrow> groups v i \<noteq> []"
  by (simp add: groups_step)

lemma length_groups: "length (groups v i) \<le> 4 - i"
proof (induction v i rule: groups.induct)
  case (1 v i)
  then show ?case by (auto simp: groups.simps [of v i])
qed

lemma drop_groups: "n < length (groups v i) \<Longrightarrow> drop n (groups v i) = groups v (i + n) \<and> i + n < 4"
proof (induction n arbitrary: i)
  case 0
  then show ?case by (cases "i < 4") (simp_all add: groups.simps [of v i])
next
  case (Suc n)
  then have i: "i < 4" by (cases "i < 4") (simp_all add: groups.simps [of v i])
  then have "128 \<le> v div 2 ^ (7 * i)" "n < length (groups v (i + 1))" using Suc.prems by (auto simp: groups_step split: if_splits)
  then show ?case using Suc.IH [of "i + 1"] i by (simp add: groups_step [of i])
qed

lemma put_groups_end [simp]: "put_groups v base (base + 4) room = ([], base + 4)"
  by (cases room) simp_all

lemma put_groups_eq:
  "i < 4 \<Longrightarrow> put_groups v base (base + i) room =
    (take room (groups v i), if room < length (groups v i) then base + i + room else base + 4)"
proof (induction room arbitrary: i)
  case (Suc room)
  have g: "groups v i = group_byte (v div 2 ^ (7 * i)) # (if 128 \<le> v div 2 ^ (7 * i) then groups v (i + 1) else [])"
    using Suc.prems by (rule groups_step)
  show ?case
  proof (cases "128 \<le> v div 2 ^ (7 * i)")
    case True
    have "put_groups v base (base + i + 1) room =
      (take room (groups v (i + 1)), if room < length (groups v (i + 1)) then base + i + 1 + room else base + 4)"
    proof (cases "i = 3")
      case True
      then have "base + i + 1 = base + 4" "groups v (i + 1) = []" by (simp_all add: groups.simps [of v])
      then show ?thesis by (simp only: put_groups_end) simp
    next
      case False
      then show ?thesis using Suc.IH [of "i + 1"] Suc.prems by (simp add: add.assoc)
    qed
    then show ?thesis using True g Suc.prems by (simp add: Let_def group_byte_def)
  next
    case False
    then show ?thesis using g Suc.prems by (simp add: Let_def group_byte_def)
  qed
qed simp

lemma group_byte_bits:
  "(group_byte grp AND 0x80 \<noteq> 0) = (128 \<le> grp)"
  "unat (group_byte grp AND 0x7F) = grp mod 128"
  "grp < 256 \<Longrightarrow> unat (group_byte grp AND 0xFF) = grp"
proof -
  obtain b :: u8 where b: "b = of_nat (grp mod 128)" by blast
  have m: "grp mod 128 = take_bit 7 grp" by (simp add: take_bit_eq_mod)
  have "b = take_bit 7 (of_nat grp)" unfolding b m by (simp add: take_bit_of_nat)
  then have n: "\<not> bit b 7" by (simp add: bit_take_bit_iff)
  have g: "group_byte grp = b OR (if 128 \<le> grp then 0x80 else 0)" by (simp add: group_byte_def b)
  have u: "unat b = grp mod 128" unfolding b by (simp add: unat_of_nat take_bit_nat_eq_self)
  have "(b OR 0x80) AND 0x80 = 0x80" "b AND 0x80 = 0" using n by (auto intro!: byte_eqI simp: bit_simps)
  then show "(group_byte grp AND 0x80 \<noteq> 0) = (128 \<le> grp)" by (auto simp: g)
  have "(b OR 0x80) AND 0x7F = b" "b AND 0x7F = b" using n by (auto intro!: byte_eqI simp: bit_simps)
  then show "unat (group_byte grp AND 0x7F) = grp mod 128" using u by (auto simp: g)
  assume l: "grp < 256"
  have e: "group_byte grp AND 0xFF = group_byte grp" by (rule byte_eqI) (simp_all add: bit_simps)
  show "unat (group_byte grp AND 0xFF) = grp"
  proof (cases "128 \<le> grp")
    case True
    have "b AND 0x80 = 0" using n by (auto intro!: byte_eqI simp: bit_simps)
    then have "b OR 0x80 = b + 0x80" by (simp add: disjunctive_add_eq_or)
    moreover have "grp mod 128 + 128 = grp" using True l by (simp add: le_mod_geq)
    moreover have "b + 0x80 = of_nat (grp mod 128 + 128)" by (simp add: b)
    ultimately have "group_byte grp = of_nat grp" using True by (simp add: g)
    then show ?thesis unfolding e using l by (simp add: unat_of_nat take_bit_nat_eq_self)
  next
    case False
    then show ?thesis unfolding e using u by (simp add: g)
  qed
qed

text \<open>Reading a byte adds its bits.\<close>

lemma add_group:
  assumes "i < 4" "v < 2 ^ 29" and grp_def: "grp = v div 2 ^ (7 * i)"
  shows "v mod 2 ^ (7 * i) OR push_bit (7 * i) (unat (group_byte grp AND (if i = 3 then 0xFF else 0x7F))) =
    (if 128 \<le> grp \<and> i \<noteq> 3 then v mod 2 ^ (7 * (i + 1)) else v)"
proof -
  have or: "v mod 2 ^ (7 * i) OR push_bit (7 * i) n = v mod 2 ^ (7 * i) + n * 2 ^ (7 * i)" for n
    unfolding push_bit_eq_mult by (rule or_shifted_nat) simp
  have all: "v mod 2 ^ (7 * i) + grp * 2 ^ (7 * i) = v" by (simp add: grp_def mod_div_mult_eq)
  have "(2 :: nat) ^ (7 * (i + 1)) = 2 ^ (7 * i) * 128" by (simp add: power_add)
  then have next_mod: "v mod 2 ^ (7 * (i + 1)) = v mod 2 ^ (7 * i) + (grp mod 128) * 2 ^ (7 * i)"
    by (simp only: mod_mult2_eq grp_def) simp
  show ?thesis
  proof (cases "i = 3")
    case True
    have "grp < 256" using assms(2) unfolding grp_def True by (simp add: less_mult_imp_div_less)
    then show ?thesis using True all or by (simp add: group_byte_bits)
  next
    case False
    then show ?thesis using all or next_mod by (simp add: group_byte_bits)
  qed
qed

lemma take_groups_end [simp]:
  "take_groups base (base + 4) v bs = (base + 4, v, bs)" "take_groups base (4 + base) v bs = (base + 4, v, bs)"
  by (cases bs; simp)+

lemma take_groups_all:
  "i < 4 \<Longrightarrow> v < 2 ^ 29 \<Longrightarrow> take_groups base (base + i) (v mod 2 ^ (7 * i)) (groups v i @ rest) = (base + 4, v, rest)"
proof (induction "4 - i" arbitrary: i)
  case (Suc d)
  note g = groups_step [OF Suc.prems(1), of v] and a = add_group [OF Suc.prems refl]
  have c: "base + i = base + 3 \<longleftrightarrow> i = 3" "base + i - base = i" by simp_all
  show ?case
  proof (cases "128 \<le> v div 2 ^ (7 * i)")
    case False
    then show ?thesis using a Suc.prems by (simp add: g group_byte_bits c)
  next
    case True
    show ?thesis
    proof (cases "i = 3")
      case 3: True
      then show ?thesis using True a Suc.prems
        by (simp add: groups.simps [of v 3] group_byte_bits)
    next
      case False
      have "take_groups base (base + (i + 1)) (v mod 2 ^ (7 * (i + 1))) (groups v (i + 1) @ rest) = (base + 4, v, rest)"
        using Suc.hyps(2) Suc.prems False by (intro Suc.hyps(1)) simp_all
      then show ?thesis using True False a Suc.prems by (simp add: g group_byte_bits c add.assoc del: mult_Suc_right)
    qed
  qed
qed simp

lemma take_groups_part:
  "i < 4 \<Longrightarrow> v < 2 ^ 29 \<Longrightarrow> n < length (groups v i) \<Longrightarrow>
    take_groups base (base + i) (v mod 2 ^ (7 * i)) (take n (groups v i)) = (base + (i + n), v mod 2 ^ (7 * (i + n)), [])"
proof (induction n arbitrary: i)
  case (Suc n)
  note g = groups_step [OF Suc.prems(1), of v] and a = add_group [OF Suc.prems(1,2) refl]
  have c: "base + i = base + 3 \<longleftrightarrow> i = 3" "base + i - base = i" by simp_all
  have t: "128 \<le> v div 2 ^ (7 * i)" "n < length (groups v (i + 1))" using Suc.prems(3) by (auto simp: g split: if_splits)
  then have "i \<noteq> 3" by (auto simp: groups.simps [of v 4])
  then have "i + 1 < 4" using Suc.prems(1) by simp
  then have "take_groups base (base + (i + 1)) (v mod 2 ^ (7 * (i + 1))) (take n (groups v (i + 1))) =
      (base + (i + 1 + n), v mod 2 ^ (7 * (i + 1 + n)), [])"
    using Suc.IH [of "i + 1"] Suc.prems(2) t(2) by blast
  then show ?case using t(1) a \<open>i \<noteq> 3\<close> Suc.prems(1) by (simp add: g group_byte_bits c add.assoc del: mult_Suc_right)
qed simp


subsection \<open>Typed messages\<close>

text \<open>\<open>RawSerializedType\<close>: a label and a package.\<close>

definition raw_message ::
  "('p \<Rightarrow> nat) \<Rightarrow> ('p \<Rightarrow> nat \<Rightarrow> nat \<Rightarrow> u8 list option) \<Rightarrow> ('p \<Rightarrow> u8 list \<Rightarrow> nat \<Rightarrow> (nat \<times> 'p) option) \<Rightarrow> (nat \<times> 'p) message_ops" where
  "raw_message len ser des =
     \<lparr>im_label = fst, im_length = \<lambda>m. len (snd m), im_serialize = \<lambda>m. ser (snd m),
      im_deserialize = \<lambda>m stream offset. map_option (\<lambda>(n, p). (n, (fst m, p))) (des (snd m) stream offset)\<rparr>"

lemma raw_message_simps [simp]:
  "im_label (raw_message len ser des) = fst"
  "im_length (raw_message len ser des) m = len (snd m)"
  "im_serialize (raw_message len ser des) m = ser (snd m)"
  "im_deserialize (raw_message len ser des) m stream offset = map_option (\<lambda>(n, p). (n, (fst m, p))) (des (snd m) stream offset)"
  by (simp_all add: raw_message_def)

text \<open>The bytes of a message on the link.\<close>

definition wire_bytes :: "('p \<Rightarrow> u8 list) \<Rightarrow> nat \<times> 'p \<Rightarrow> u8 list" where
  "wire_bytes content m =
     groups (length (content (snd m)) + command_size (fst m)) 0 @ groups (fst m) 0 @ content (snd m)"

text \<open>
  The labels for which the number of bytes is counted right: \<^verbatim>\<open>CommandSize\<close> has \<open>0xCFFF\<close> where two groups
  end at \<open>0x3FFF\<close>. Lengths and labels have 29 bits on the link.
\<close>

definition label_ok :: "nat \<Rightarrow> bool" where
  "label_ok l \<longleftrightarrow> l < 2 ^ 29 \<and> (l \<le> 0x3FFF \<or> 0xCFFF < l)"

lemma length_groups_label: "label_ok l \<Longrightarrow> length (groups l 0) = command_size l"
  by (auto simp: label_ok_def command_size_def groups.simps [of l] div_le_dividend Let_def less_mult_imp_div_less
      split: if_splits)

definition sendable :: "('p \<Rightarrow> u8 list) \<Rightarrow> ('p \<Rightarrow> bool) \<Rightarrow> nat \<times> 'p \<Rightarrow> bool" where
  "sendable content ready m \<longleftrightarrow> label_ok (fst m) \<and> ready (snd m) \<and> length (content (snd m)) + 4 < 2 ^ 29"

subsection \<open>The sender\<close>

definition unsent_current :: "('p \<Rightarrow> u8 list) \<Rightarrow> nat \<Rightarrow> nat \<times> 'p \<Rightarrow> u8 list" where
  "unsent_current content offset m =
     (if offset < 4 then groups (length (content (snd m)) + command_size (fst m)) offset @ groups (fst m) 0 @ content (snd m)
      else if offset < 8 then groups (fst m) (offset - 4) @ content (snd m)
      else drop (offset - 8) (content (snd m)))"

definition unsent :: "('p \<Rightarrow> u8 list) \<Rightarrow> (nat \<times> 'p) sender \<Rightarrow> u8 list" where
  "unsent content s = (case sd_current s of None \<Rightarrow> []
     | Some m \<Rightarrow> unsent_current content (sd_offset s) m @ concat (map (wire_bytes content) (tl (sd_queue s))))"

definition sender_ok :: "('p \<Rightarrow> u8 list) \<Rightarrow> ('p \<Rightarrow> bool) \<Rightarrow> (nat \<times> 'p) sender \<Rightarrow> bool" where
  "sender_ok content ready s \<longleftrightarrow> (\<forall>m\<in>set (sd_queue s). sendable content ready m) \<and>
     (case sd_current s of None \<Rightarrow> sd_queue s = []
      | Some m \<Rightarrow> sd_queue s \<noteq> [] \<and> m = hd (sd_queue s) \<and> sd_length s = length (content (snd m)) \<and>
          sd_offset s - 8 \<le> length (content (snd m)))"

context ipc_package
begin

abbreviation ops :: "(nat \<times> 'm) message_ops" where
  "ops \<equiv> raw_message (\<lambda>p. length (content p)) serialize deserialize"

lemma command_size_le: "command_size l \<le> 4"
  by (simp add: command_size_def)

text \<open>After a message the next one is current, from its first byte.\<close>

lemma serialized_next:
  assumes "sender_ok content ready s" "sd_current s = Some m"
  shows "sender_ok content ready (serialized ops (s\<lparr>sd_current := None\<rparr>))"
    "unsent content (serialized ops (s\<lparr>sd_current := None\<rparr>)) = concat (map (wire_bytes content) (tl (sd_queue s)))"
    "sd_sent (serialized ops (s\<lparr>sd_current := None\<rparr>)) @ sd_queue (serialized ops (s\<lparr>sd_current := None\<rparr>)) = sd_sent s @ sd_queue s"
    "length (sd_queue (serialized ops (s\<lparr>sd_current := None\<rparr>))) < length (sd_queue s)"
proof -
  obtain q where q: "sd_queue s = m # q" using assms by (cases "sd_queue s") (auto simp: sender_ok_def)
  show "sender_ok content ready (serialized ops (s\<lparr>sd_current := None\<rparr>))"
    using assms q by (cases q) (auto simp: sender_ok_def serialized_def submit_element_def)
  show "unsent content (serialized ops (s\<lparr>sd_current := None\<rparr>)) = concat (map (wire_bytes content) (tl (sd_queue s)))"
    using q by (cases q) (auto simp: unsent_def unsent_current_def wire_bytes_def serialized_def submit_element_def)
  show "sd_sent (serialized ops (s\<lparr>sd_current := None\<rparr>)) @ sd_queue (serialized ops (s\<lparr>sd_current := None\<rparr>)) = sd_sent s @ sd_queue s"
    using q by (cases q) (auto simp: serialized_def submit_element_def)
  show "length (sd_queue (serialized ops (s\<lparr>sd_current := None\<rparr>))) < length (sd_queue s)"
    using q by (cases q) (auto simp: serialized_def submit_element_def)
qed

end

lemma put_groups_past: "base + 4 \<le> offset \<Longrightarrow> put_groups v base offset room = ([], offset)"
  by (cases room) simp_all

definition unsent_header :: "nat \<Rightarrow> nat \<Rightarrow> nat \<Rightarrow> u8 list" where
  "unsent_header v l offset =
     (if offset < 4 then groups v offset @ groups l 0 else if offset < 8 then groups l (offset - 4) else [])"

lemma unsent_header_eq:
  "unsent_current content offset m =
    unsent_header (length (content (snd m)) + command_size (fst m)) (fst m) offset @ drop (offset - 8) (content (snd m))"
  by (simp add: unsent_current_def unsent_header_def)

text \<open>The headers take what there is room for; the offset moves accordingly.\<close>

lemma put_label_header:
  assumes "4 \<le> offset"
  shows "put_groups l 4 offset room =
    (take room (unsent_header v l offset),
     if room < length (unsent_header v l offset) then offset + room else if offset < 8 then 8 else offset)"
proof (cases "offset < 8")
  case True
  then show ?thesis
    using put_groups_eq [of "offset - 4" l 4 room] assms by (auto simp: unsent_header_def)
next
  case False
  then show ?thesis by (simp add: put_groups_past unsent_header_def)
qed

lemma put_headers_eq:
  "\<exists>offset'. put_headers v l offset room = (take room (unsent_header v l offset), offset') \<and>
    (if room < length (unsent_header v l offset)
     then offset' < 8 \<and> unsent_header v l offset' = drop room (unsent_header v l offset)
     else offset' = (if offset < 8 then 8 else offset))"
proof (cases "4 \<le> offset")
  case True
  have h: "put_headers v l offset room = put_groups l 4 offset room"
    using put_groups_past [of 0 offset v room] True by (simp add: put_headers_def)
  have "offset + room < 8 \<and> unsent_header v l (offset + room) = drop room (unsent_header v l offset)"
    if r: "room < length (unsent_header v l offset)"
  proof -
    have o: "offset < 8" using r by (auto simp: unsent_header_def split: if_splits)
    then have "room < length (groups l (offset - 4))" using r True by (simp add: unsent_header_def)
    from drop_groups [OF this] show ?thesis using o True by (auto simp: unsent_header_def)
  qed
  then show ?thesis unfolding h put_label_header [OF True, of l room v] by auto
next
  case False
  then have g: "put_groups v 0 offset room = (take room (groups v offset), if room < length (groups v offset) then offset + room else 4)"
    using put_groups_eq [of offset v 0 room] by simp
  have u: "unsent_header v l offset = groups v offset @ unsent_header v l 4"
    using False by (simp add: unsent_header_def)
  show ?thesis
  proof (cases "room < length (groups v offset)")
    case True
    from drop_groups [OF this] have "unsent_header v l (offset + room) = drop room (unsent_header v l offset)" "offset + room < 4"
      using True False by (auto simp: unsent_header_def)
    then show ?thesis using True g u by (simp add: put_headers_def)
  next
    case r: False
    obtain room' where room': "room = length (groups v offset) + room'" using r by (metis le_add_diff_inverse not_less)
    have "put_headers v l offset room = (groups v offset @ fst (put_groups l 4 4 room'), snd (put_groups l 4 4 room'))"
      using g by (simp add: put_headers_def room' split: prod.splits)
    moreover have "4 + room' < 8 \<and> unsent_header v l (4 + room') = drop room' (unsent_header v l 4)"
      if d: "room' < length (unsent_header v l 4)"
    proof -
      have "room' < length (groups l 0)" using d by (simp add: unsent_header_def)
      from drop_groups [OF this] show ?thesis by (auto simp: unsent_header_def)
    qed
    ultimately show ?thesis
      using False unfolding put_label_header [of 4 l room' v, OF order_refl] u room' by simp
  qed
qed

context ipc_package
begin

lemma serialize_turn_headers:
  "serialize_turn ops m room s =
    (case put_headers ((sd_length s + command_size (fst m)) mod 2 ^ 32) (fst m) (sd_offset s) room of (h, offset) \<Rightarrow>
       if room - length h = 0 then Some (h, s\<lparr>sd_offset := offset\<rparr>)
       else case serialize (snd m) (room - length h) (offset - 8) of
              None \<Rightarrow> None
            | Some bs \<Rightarrow> Some (h @ bs,
                if offset + length bs - 8 = sd_length s
                then serialized ops (s\<lparr>sd_offset := offset + length bs, sd_current := None\<rparr>)
                else s\<lparr>sd_offset := offset + length bs\<rparr>))"
  unfolding serialize_turn_def raw_message_simps by (rule refl)

lemma serialize_turn_eq:
  assumes ok: "sender_ok content ready s" and m: "sd_current s = Some m" and room: "0 < room"
  obtains bs s' where "serialize_turn ops m room s = Some (bs, s')" "sender_ok content ready s'"
    "unsent content s = bs @ unsent content s'" "length bs \<le> room"
    "sd_sent s' @ sd_queue s' = sd_sent s @ sd_queue s"
    "length bs = room \<and> length (sd_queue s') \<le> length (sd_queue s) \<or> length (sd_queue s') < length (sd_queue s)"
proof -
  obtain c where c: "c = content (snd m)" by blast
  obtain v where v: "v = length c + command_size (fst m)" by blast
  obtain rest where q: "sd_queue s = m # rest" using ok m by (cases "sd_queue s") (auto simp: sender_ok_def)
  have s: "sd_length s = length c" "sd_offset s - 8 \<le> length c" "ready (snd m)" "length c + 4 < 2 ^ 29"
    using ok m q by (auto simp: sender_ok_def sendable_def c)
  have "(sd_length s + command_size (fst m)) mod 2 ^ 32 = v"
    using s(1,4) command_size_le [of "fst m"] by (simp add: v)
  then obtain h offset where h: "serialize_turn ops m room s =
      (if room - length h = 0 then Some (h, s\<lparr>sd_offset := offset\<rparr>)
       else case serialize (snd m) (room - length h) (offset - 8) of
              None \<Rightarrow> None
            | Some bs \<Rightarrow> Some (h @ bs,
                if offset + length bs - 8 = sd_length s
                then serialized ops (s\<lparr>sd_offset := offset + length bs, sd_current := None\<rparr>)
                else s\<lparr>sd_offset := offset + length bs\<rparr>))"
    and hd: "h = take room (unsent_header v (fst m) (sd_offset s))"
    and o: "if room < length (unsent_header v (fst m) (sd_offset s))
      then offset < 8 \<and> unsent_header v (fst m) offset = drop room (unsent_header v (fst m) (sd_offset s))
      else offset = (if sd_offset s < 8 then 8 else sd_offset s)"
    using put_headers_eq [of v "fst m" "sd_offset s" room] by (auto simp: serialize_turn_headers)
  obtain H where H: "H = unsent_header v (fst m) (sd_offset s)" by blast
  obtain D where D: "D = drop (sd_offset s - 8) c" by blast
  have u: "unsent content s = H @ D @ concat (map (wire_bytes content) rest)"
    using m q by (simp add: unsent_def unsent_header_eq H D v c)
  have o8: "drop (offset - 8) c = D" "offset - 8 \<le> length c"
    using o s(2) by (cases "sd_offset s < 8"; auto simp: D H [symmetric] unsent_header_def split: if_splits)+
  show ?thesis
  proof (cases "room - length h = 0")
    case True
    have "unsent content (s\<lparr>sd_offset := offset\<rparr>) = drop room H @ D @ concat (map (wire_bytes content) rest)"
    proof (cases "room < length H")
      case True
      then have "unsent_header v (fst m) offset = drop room H" using o by (simp add: H)
      then show ?thesis using m q by (simp add: unsent_def unsent_header_eq c [symmetric] v [symmetric] o8(1))
    next
      case False
      then have "unsent_header v (fst m) offset = []" using o by (simp add: H unsent_header_def)
      then show ?thesis using m q False by (simp add: unsent_def unsent_header_eq c [symmetric] v [symmetric] o8(1))
    qed
    moreover have "sender_ok content ready (s\<lparr>sd_offset := offset\<rparr>)"
      using ok m q o8(2) by (auto simp: sender_ok_def c)
    moreover have "length h = room" using True room by (simp add: hd)
    moreover have "H = h @ drop room H" by (simp add: hd H)
    moreover have st: "serialize_turn ops m room s = Some (h, s\<lparr>sd_offset := offset\<rparr>)" using h True by simp
    ultimately show ?thesis by (intro that [OF st]) (auto simp: u)
  next
    case False
    then have l: "length H < room" by (auto simp: hd H)
    then have hH: "h = H" and oo: "offset = (if sd_offset s < 8 then 8 else sd_offset s)" using o by (auto simp: hd H)
    obtain n where n: "n = room - length H" by blast
    have n0: "0 < n" using l by (simp add: n)
    have ser: "serialize (snd m) n (offset - 8) = Some (take n D)"
      using serializes [OF s(3), of "offset - 8" n] o8 by (simp add: c)
    have len: "length D = length c - (offset - 8)" using o8 by (metis length_drop)
    show ?thesis
    proof (cases "length D \<le> n")
      case True
      then have fin: "offset + length (take n D) - 8 = sd_length s" using len o8(2) oo s(1) by auto
      have sn: "sender_ok content ready (s\<lparr>sd_offset := offset + length D\<rparr>)" "sd_current (s\<lparr>sd_offset := offset + length D\<rparr>) = Some m"
        using ok m q True fin s(1) by (auto simp: sender_ok_def c)
      note nx = serialized_next [OF sn]
      have st: "serialize_turn ops m room s = Some (H @ D, serialized ops (s\<lparr>sd_offset := offset + length D, sd_current := None\<rparr>))"
        using h False fin True ser by (simp add: hH n [symmetric])
      show ?thesis
        using nx True l by (intro that [OF st]) (simp_all add: u q n)
    next
      case False
      then have nf: "offset + length (take n D) - 8 \<noteq> sd_length s" using len oo s(1) by auto
      have st: "serialize_turn ops m room s = Some (H @ take n D, s\<lparr>sd_offset := offset + n\<rparr>)"
        using h \<open>room - length h \<noteq> 0\<close> nf False ser by (simp add: hH n [symmetric])
      have "\<not> offset + n < 8" using oo by auto
      then have "unsent content (s\<lparr>sd_offset := offset + n\<rparr>) = drop n D @ concat (map (wire_bytes content) rest)"
        using m q oo o8 by (auto simp: unsent_def unsent_header_eq unsent_header_def c [symmetric] add.commute simp flip: o8(1))
      moreover have "sender_ok content ready (s\<lparr>sd_offset := offset + n\<rparr>)"
        using ok m q False len oo by (auto simp: sender_ok_def c)
      ultimately show ?thesis using False l by (intro that [OF st]) (auto simp: u n)
    qed
  qed
qed

text \<open>A call of \<open>Serialize\<close> hands out the next bytes, as many as there is room for.\<close>

lemma serialize_loop_eq:
  assumes "sender_ok content ready s"
  shows "\<exists>s'. serialize_loop ops room s = Some (take room (unsent content s), s') \<and> sender_ok content ready s' \<and>
    unsent content s' = drop room (unsent content s) \<and> sd_sent s' @ sd_queue s' = sd_sent s @ sd_queue s"
  using assms
proof (induction "room + length (sd_queue s)" arbitrary: room s rule: less_induct)
  case less
  show ?case
  proof (cases "sd_current s")
    case None
    then show ?thesis using less.prems by (simp add: serialize_loop.simps unsent_def)
  next
    case (Some m)
    show ?thesis
    proof (cases "room = 0")
      case True
      then show ?thesis using Some less.prems by (simp add: serialize_loop.simps)
    next
      case False
      then have "0 < room" by simp
      from serialize_turn_eq [OF less.prems Some this] obtain bs s1 where
        t: "serialize_turn ops m room s = Some (bs, s1)" "sender_ok content ready s1"
        "unsent content s = bs @ unsent content s1" "length bs \<le> room"
        "sd_sent s1 @ sd_queue s1 = sd_sent s @ sd_queue s"
        "length bs = room \<and> length (sd_queue s1) \<le> length (sd_queue s) \<or> length (sd_queue s1) < length (sd_queue s)" by metis
      have "room - length bs + length (sd_queue s1) < room + length (sd_queue s)" using t(4,6) False by (auto simp flip: length_greater_0_conv)
      from less.hyps [OF this t(2)] obtain s2 where
        r: "serialize_loop ops (room - length bs) s1 = Some (take (room - length bs) (unsent content s1), s2)"
        "sender_ok content ready s2" "unsent content s2 = drop (room - length bs) (unsent content s1)"
        "sd_sent s2 @ sd_queue s2 = sd_sent s1 @ sd_queue s1" by blast
      have e: "serialize_loop ops room s = Some (bs @ take (room - length bs) (unsent content s1), s2)"
        by (subst serialize_loop.simps) (simp add: Some False t(1) r(1))
      show ?thesis using r t(3-5) by (intro exI [of _ s2]) (simp add: e)
    qed
  qed
qed

end

end
