(* ===== verification/Ipc_Delivery.thy ===== *)
theory Ipc_Delivery
  imports Ipc_Link
begin

text \<open>
  The receiving side of a link, and both sides together. \<open>awaits\<close> says which bytes a receiver
  still expects of the message it is in; every buffer moves it on, to the end of the message and
  into the next ones.
\<close>

subsection \<open>The receiver within a message\<close>

text \<open>\<open>known\<close> is the message that \<open>Element\<close> hands out for a label, empty, or \<open>None\<close>: then the bytes are skipped.\<close>

definition holding :: "('p \<Rightarrow> u8 list \<Rightarrow> bool) \<Rightarrow> (nat \<Rightarrow> 'p option) \<Rightarrow> nat \<Rightarrow> (nat \<times> 'p) option \<Rightarrow> u8 list \<Rightarrow> bool" where
  "holding holds known l current bs \<longleftrightarrow>
     (case known l of None \<Rightarrow> current = None | Some _ \<Rightarrow> \<exists>p. current = Some (l, p) \<and> holds p bs)"

definition awaits_length :: "('p \<Rightarrow> u8 list) \<Rightarrow> nat \<times> 'p \<Rightarrow> (nat \<times> 'p) receiver \<Rightarrow> u8 list \<Rightarrow> bool" where
  "awaits_length content m r rem \<longleftrightarrow>
     (let v = length (content (snd m)) + command_size (fst m) in
      rc_offset r < 4 \<and> rc_length r = v mod 2 ^ (7 * rc_offset r) \<and> rc_label r = 0 \<and> rc_current r = None \<and>
      rem = groups v (rc_offset r) @ groups (fst m) 0 @ content (snd m))"

definition awaits_label :: "('p \<Rightarrow> u8 list) \<Rightarrow> nat \<times> 'p \<Rightarrow> (nat \<times> 'p) receiver \<Rightarrow> u8 list \<Rightarrow> bool" where
  "awaits_label content m r rem \<longleftrightarrow> (\<exists>j<length (groups (fst m) 0).
     rc_offset r = 4 + j \<and> rc_length r = length (content (snd m)) + command_size (fst m) - j \<and>
     rc_label r = fst m mod 2 ^ (7 * j) \<and> rc_current r = None \<and>
     rem = drop j (groups (fst m) 0) @ content (snd m))"

definition awaits_package ::
  "('p \<Rightarrow> u8 list) \<Rightarrow> ('p \<Rightarrow> u8 list \<Rightarrow> bool) \<Rightarrow> (nat \<Rightarrow> 'p option) \<Rightarrow> nat \<times> 'p \<Rightarrow> (nat \<times> 'p) receiver \<Rightarrow> u8 list \<Rightarrow> bool" where
  "awaits_package content holds known m r rem \<longleftrightarrow> (\<exists>p\<le>length (content (snd m)).
     rc_offset r = 8 + p \<and> rc_length r = length (content (snd m)) \<and> rc_label r = 0 \<and>
     holding holds known (fst m) (rc_current r) (take p (content (snd m))) \<and> rem = drop p (content (snd m)))"

definition awaits ::
  "('p \<Rightarrow> u8 list) \<Rightarrow> ('p \<Rightarrow> u8 list \<Rightarrow> bool) \<Rightarrow> (nat \<Rightarrow> 'p option) \<Rightarrow> nat \<times> 'p \<Rightarrow> (nat \<times> 'p) receiver \<Rightarrow> u8 list \<Rightarrow> bool" where
  "awaits content holds known m r rem \<longleftrightarrow> rem \<noteq> [] \<and>
     (awaits_length content m r rem \<or> awaits_label content m r rem \<or> awaits_package content holds known m r rem)"

text \<open>The receiver between two messages.\<close>

definition idle_receiver :: "'m receiver" where
  "idle_receiver = \<lparr>rc_length = 0, rc_offset = 0, rc_label = 0, rc_current = None\<rparr>"

lemma awaits_first: "awaits content holds known m idle_receiver (wire_bytes content m)"
  by (simp add: awaits_def awaits_length_def idle_receiver_def wire_bytes_def Let_def)

definition element_of :: "(nat \<Rightarrow> 'p option) \<Rightarrow> 's \<Rightarrow> nat \<Rightarrow> 's \<times> (nat \<times> 'p) option" where
  "element_of known s l = (s, map_option (Pair l) (known l))"

definition deliver :: "'m list \<Rightarrow> 'm \<Rightarrow> 'm list" where
  "deliver ms m = ms @ [m]"

context ipc_package
begin

text \<open>The header up to its end, or as far as the bytes go.\<close>

lemma label_header:
  assumes m: "sendable content ready m"
    and r: "rc_offset r = 4 + j" "j < length (groups (fst m) 0)"
      "rc_length r = length (content (snd m)) + command_size (fst m) - j" "rc_label r = fst m mod 2 ^ (7 * j)" "rc_current r = None"
  shows "n < length (groups (fst m) 0) - j \<Longrightarrow>
      receive_header (element_of known) r s (take n (drop j (groups (fst m) 0))) =
        (r\<lparr>rc_length := length (content (snd m)) + command_size (fst m) - (j + n), rc_offset := 4 + (j + n),
           rc_label := fst m mod 2 ^ (7 * (j + n))\<rparr>, s, [])"
    and "receive_header (element_of known) r s (drop j (groups (fst m) 0) @ bs) =
        (r\<lparr>rc_length := length (content (snd m)), rc_offset := 8, rc_label := 0,
           rc_current := map_option (Pair (fst m)) (known (fst m))\<rparr>, s, bs)"
proof -
  have l: "fst m < 2 ^ 29" "length (groups (fst m) 0) = command_size (fst m)" "length (content (snd m)) + 4 < 2 ^ 29"
    using m length_groups_label [of "fst m"] by (auto simp: sendable_def label_ok_def)
  have d: "drop j (groups (fst m) 0) = groups (fst m) j" "j < 4" using drop_groups [OF r(2)] by simp_all
  have len: "length (groups (fst m) j) = command_size (fst m) - j" using d(1) l(2) by (metis length_drop)
  have g0: "take_groups 0 (4 + j) v bs = (4 + j, v, bs)" for v bs by (cases bs) simp_all
  have sub: "sub32 (length (content (snd m)) + command_size (fst m) - j) k = length (content (snd m)) + command_size (fst m) - j - k"
    if "k \<le> command_size (fst m) - j" for k
    using that l command_size_le [of "fst m"] r(2) by (intro sub32_id) simp_all
  { assume n: "n < length (groups (fst m) 0) - j"
    have t: "take_groups 4 (4 + j) (fst m mod 2 ^ (7 * j)) (take n (groups (fst m) j)) = (4 + (j + n), fst m mod 2 ^ (7 * (j + n)), [])"
      using n l(2) len by (intro take_groups_part [OF d(2) l(1)]) simp
    have "j + n < 4" using n d length_groups [of "fst m" 0] by simp
    then show "receive_header (element_of known) r s (take n (drop j (groups (fst m) 0))) =
        (r\<lparr>rc_length := length (content (snd m)) + command_size (fst m) - (j + n), rc_offset := 4 + (j + n),
           rc_label := fst m mod 2 ^ (7 * (j + n))\<rparr>, s, [])"
      using r d t n l(2) len sub [of n] by (simp add: receive_header_def g0) }
  have t: "take_groups 4 (4 + j) (fst m mod 2 ^ (7 * j)) (groups (fst m) j @ bs) = (8, fst m, bs)"
    using take_groups_all [OF d(2) l(1), of 4 bs] by simp
  have k: "sub32 (length (content (snd m)) + command_size (fst m) - j) (command_size (fst m) - j) = length (content (snd m))"
    using sub [of "command_size (fst m) - j"] r(2) l(2) by simp
  show "receive_header (element_of known) r s (drop j (groups (fst m) 0) @ bs) =
        (r\<lparr>rc_length := length (content (snd m)), rc_offset := 8, rc_label := 0,
           rc_current := map_option (Pair (fst m)) (known (fst m))\<rparr>, s, bs)"
    using r(1,3-5) d t len k by (simp add: receive_header_def g0 element_of_def)
qed

text \<open>After the length the loop for the label goes on in the same turn.\<close>

lemma length_header:
  assumes m: "sendable content ready m" and r: "awaits_length content m r rem"
  shows "n < length (groups (length (content (snd m)) + command_size (fst m)) (rc_offset r)) \<Longrightarrow>
      receive_header (element_of known) r s (take n rem) =
        (r\<lparr>rc_length := (length (content (snd m)) + command_size (fst m)) mod 2 ^ (7 * (rc_offset r + n)), rc_offset := rc_offset r + n\<rparr>, s, [])
      \<and> rc_offset r + n < 4"
    and "receive_header (element_of known) r s (groups (length (content (snd m)) + command_size (fst m)) (rc_offset r) @ bs) =
      receive_header (element_of known) (r\<lparr>rc_length := length (content (snd m)) + command_size (fst m), rc_offset := 4\<rparr>) s bs"
proof -
  obtain v where v: "v = length (content (snd m)) + command_size (fst m)" by blast
  have r': "rc_offset r < 4" "rc_length r = v mod 2 ^ (7 * rc_offset r)" "rc_label r = 0" "rc_current r = None"
    "rem = groups v (rc_offset r) @ groups (fst m) 0 @ content (snd m)"
    using r by (auto simp: awaits_length_def Let_def v)
  have v29: "v < 2 ^ 29" using m command_size_le [of "fst m"] by (simp add: sendable_def v)
  { assume n: "n < length (groups (length (content (snd m)) + command_size (fst m)) (rc_offset r))"
    have t: "take_groups 0 (rc_offset r) (rc_length r) (take n rem) = (rc_offset r + n, v mod 2 ^ (7 * (rc_offset r + n)), [])"
      using take_groups_part [OF r'(1) v29, of n 0] n by (simp add: r' v)
    have lt: "rc_offset r + n < 4" using drop_groups [of n v "rc_offset r"] n by (simp add: v)
    have "v mod 2 ^ (7 * (rc_offset r + n)) \<le> v" by simp
    also have "\<dots> < 2 ^ 32" using v29 by simp
    finally have "v mod 2 ^ (7 * (rc_offset r + n)) < 2 ^ 32" .
    then have "sub32 (v mod 2 ^ (7 * (rc_offset r + n))) 0 = v mod 2 ^ (7 * (rc_offset r + n))" by (simp add: sub32_id)
    then show "receive_header (element_of known) r s (take n rem) =
        (r\<lparr>rc_length := (length (content (snd m)) + command_size (fst m)) mod 2 ^ (7 * (rc_offset r + n)), rc_offset := rc_offset r + n\<rparr>, s, [])
      \<and> rc_offset r + n < 4"
      using t lt r' by (simp add: receive_header_def v) }
  have t: "take_groups 0 (rc_offset r) (rc_length r) (groups v (rc_offset r) @ bs) = (4, v, bs)"
    using take_groups_all [OF r'(1) v29, of 0 bs] by (simp add: r')
  have g0: "take_groups 0 4 v bs = (4, v, bs)" using take_groups_end(1) [of 0 v bs] by simp
  show "receive_header (element_of known) r s (groups (length (content (snd m)) + command_size (fst m)) (rc_offset r) @ bs) =
      receive_header (element_of known) (r\<lparr>rc_length := length (content (snd m)) + command_size (fst m), rc_offset := 4\<rparr>) s bs"
    using t r' g0 by (simp add: receive_header_def v [symmetric])
qed

end

subsection \<open>One turn of the receiver\<close>

definition receive_turn ::
  "(nat \<times> 'p) message_ops \<Rightarrow> (nat \<Rightarrow> 'p option) \<Rightarrow> (nat \<times> 'p) receiver \<Rightarrow> (nat \<times> 'p) list \<Rightarrow> u8 list \<Rightarrow>
    ((nat \<times> 'p) receiver \<times> (nat \<times> 'p) list \<times> u8 list) option" where
  "receive_turn ops known r s bs =
     (case receive_header (element_of known) r s bs of (r, s, bs) \<Rightarrow> receive_body ops deliver r s bs)"

text \<open>What the delivery of a message adds: nothing for an unknown label, else a message with the same content.\<close>

definition delivered :: "('p \<Rightarrow> u8 list) \<Rightarrow> ('p \<Rightarrow> u8 list \<Rightarrow> bool) \<Rightarrow> (nat \<Rightarrow> 'p option) \<Rightarrow> nat \<times> 'p \<Rightarrow> (nat \<times> 'p) list \<Rightarrow> bool" where
  "delivered content holds known m ds \<longleftrightarrow>
     (case known (fst m) of None \<Rightarrow> ds = [] | Some _ \<Rightarrow> \<exists>p. ds = [(fst m, p)] \<and> holds p (content (snd m)))"

definition receivable :: "nat \<Rightarrow> ('p \<Rightarrow> u8 list) \<Rightarrow> ('p \<Rightarrow> u8 list \<Rightarrow> bool) \<Rightarrow> (nat \<Rightarrow> 'p option) \<Rightarrow> nat \<times> 'p \<Rightarrow> bool" where
  "receivable limit content holds known m \<longleftrightarrow>
     (\<forall>p. known (fst m) = Some p \<longrightarrow> holds p [] \<and> length (content (snd m)) \<le> limit)"

lemma take_prefix:
  assumes "bs = take (length bs) (xs @ ys)" "length xs \<le> length bs"
  shows "\<exists>cs. bs = xs @ cs \<and> cs = take (length cs) ys"
proof -
  obtain n where n: "n = length bs" by blast
  have "bs = xs @ take (n - length xs) ys" using assms unfolding n [symmetric] by simp
  then show ?thesis by (intro exI [of _ "take (n - length xs) ys"]) (auto simp: min_def)
qed

context ipc_package
begin

lemma package_part:
  assumes r: "rc_offset r = 8 + p" "p \<le> length (content (snd m))" "rc_length r = length (content (snd m))"
      "holding holds known (fst m) (rc_current r) (take p (content (snd m)))"
    and m: "receivable limit content holds known m"
    and bs: "cs = take (length cs) (drop p (content (snd m)))" "length cs < 2 ^ 16"
    and k: "cs = take (length (content (snd m)) - p) bs"
  shows "\<exists>current. receive_part ops r bs = Some (length cs, current) \<and>
    holding holds known (fst m) current (take (p + length cs) (content (snd m)))"
proof (cases "p < length (content (snd m))")
  case False
  then have "cs = []" using bs(1) by simp
  then show ?thesis using r False by (auto simp: receive_part_def)
next
  case True
  have l: "min (length bs) (rc_length r - (rc_offset r - 8)) = length cs" "take (length cs) bs = cs"
    using r k by (auto simp: min_def)
  have lt: "rc_offset r - 8 < rc_length r" using True r by simp
  show ?thesis
  proof (cases "known (fst m)")
    case None
    then have "rc_current r = None" using r(4) by (simp add: holding_def)
    then show ?thesis using lt l None by (simp add: receive_part_def holding_def)
  next
    case (Some x)
    then obtain q where q: "rc_current r = Some (fst m, q)" "holds q (take p (content (snd m)))"
      using r(4) by (auto simp: holding_def)
    have len: "length (take p (content (snd m))) = p" using r(2) by simp
    have "length cs \<le> length (content (snd m)) - p" using bs(1) by (metis length_drop length_take min.cobounded1)
    then have "length (take p (content (snd m))) + length cs \<le> limit"
      using m Some r(2) len by (auto simp: receivable_def)
    from deserializes [OF q(2) bs(2) this] obtain q' where
      q': "deserialize q cs p = Some (length cs, q')" "holds q' (take p (content (snd m)) @ cs)" unfolding len by blast
    have "take p (content (snd m)) @ cs = take (p + length cs) (content (snd m))" using bs(1) by (metis take_add)
    then show ?thesis using lt l q q' r(1) Some by (simp add: receive_part_def holding_def)
  qed
qed

lemma package_body:
  assumes r: "rc_offset r = 8 + p" "p \<le> length (content (snd m))" "rc_length r = length (content (snd m))" "rc_label r = 0"
      "holding holds known (fst m) (rc_current r) (take p (content (snd m)))"
    and m: "receivable limit content holds known m"
    and bs: "length bs < 2 ^ 16"
  shows "length bs < length (content (snd m)) - p \<Longrightarrow> bs = take (length bs) (drop p (content (snd m))) \<Longrightarrow>
      \<exists>r'. receive_body ops deliver r s bs = Some (r', s, []) \<and>
        awaits_package content holds known m r' (drop (p + length bs) (content (snd m)))"
    and "bs = drop p (content (snd m)) @ rest \<Longrightarrow>
      \<exists>ds. receive_body ops deliver r s bs = Some (idle_receiver, s @ ds, rest) \<and> delivered content holds known m ds"
proof -
  note part = package_part [OF r(1,2,3,5) m]
  { assume b: "length bs < length (content (snd m)) - p" "bs = take (length bs) (drop p (content (snd m)))"
    obtain cur where "receive_part ops r bs = Some (length bs, cur)"
      "holding holds known (fst m) cur (take (p + length bs) (content (snd m)))"
      using part [OF b(2) bs, of bs] b(1) by auto
    then show "\<exists>r'. receive_body ops deliver r s bs = Some (r', s, []) \<and>
        awaits_package content holds known m r' (drop (p + length bs) (content (snd m)))"
      using r b(1) by (intro exI [of _ "r\<lparr>rc_offset := 8 + p + length bs, rc_current := cur\<rparr>"])
        (auto simp: receive_body_def awaits_package_def Let_def intro!: exI [of _ "p + length bs"]) }
  { assume b: "bs = drop p (content (snd m)) @ rest"
    obtain cs where cs: "cs = drop p (content (snd m))" by blast
    have "length cs < 2 ^ 16" "cs = take (length cs) (drop p (content (snd m)))" "cs = take (length (content (snd m)) - p) bs"
      using b bs by (simp_all add: cs)
    from part [OF this(2,1,3)] obtain cur where c: "receive_part ops r bs = Some (length cs, cur)"
      "holding holds known (fst m) cur (take (p + length cs) (content (snd m)))" by blast
    have full: "take (p + length cs) (content (snd m)) = content (snd m)" "p + length cs = length (content (snd m))"
      "drop (length cs) bs = rest" using r(2) b by (simp_all add: cs)
    have idle: "r\<lparr>rc_offset := 0, rc_current := None, rc_length := 0\<rparr> = idle_receiver"
      using r(4) by (simp add: idle_receiver_def)
    show "\<exists>ds. receive_body ops deliver r s bs = Some (idle_receiver, s @ ds, rest) \<and> delivered content holds known m ds"
    proof (cases "known (fst m)")
      case None
      then have "cur = None" using c(2) by (simp add: holding_def)
      then show ?thesis
        using c(1) r full None idle by (auto simp: receive_body_def delivered_def idle_receiver_def)
    next
      case (Some x)
      then obtain q where "cur = Some (fst m, q)" "holds q (content (snd m))" using c(2) full(1) by (auto simp: holding_def)
      then show ?thesis
        using c(1) r full Some idle by (auto simp: receive_body_def delivered_def deliver_def idle_receiver_def)
    qed }
qed

lemma label_turn:
  assumes m: "sendable content ready m" "receivable limit content holds known m"
    and r: "rc_offset r = 4 + j" "j < length (groups (fst m) 0)"
      "rc_length r = length (content (snd m)) + command_size (fst m) - j" "rc_label r = fst m mod 2 ^ (7 * j)" "rc_current r = None"
    and rem: "rem = drop j (groups (fst m) 0) @ content (snd m)"
    and bs: "length bs < 2 ^ 16"
  shows "length bs < length rem \<Longrightarrow> bs = take (length bs) rem \<Longrightarrow>
      \<exists>r'. receive_turn ops known r s bs = Some (r', s, []) \<and> awaits content holds known m r' (drop (length bs) rem)"
    and "bs = rem @ rest \<Longrightarrow>
      \<exists>ds. receive_turn ops known r s bs = Some (idle_receiver, s @ ds, rest) \<and> delivered content holds known m ds"
proof -
  note header = label_header [OF m(1) r]
  obtain r2 where r2: "r2 = r\<lparr>rc_length := length (content (snd m)), rc_offset := 8, rc_label := 0,
           rc_current := map_option (Pair (fst m)) (known (fst m))\<rparr>" by blast
  have hold: "holding holds known (fst m) (rc_current r2) (take 0 (content (snd m)))"
    using m(2) by (auto simp: holding_def r2 receivable_def split: option.splits)
  have r2s: "rc_offset r2 = 8 + 0" "rc_length r2 = length (content (snd m))" "rc_label r2 = 0" by (simp_all add: r2)
  note body = package_body [OF r2s(1) le0 r2s(2,3) hold m(2)]
  { assume b: "length bs < length rem" "bs = take (length bs) rem"
    show "\<exists>r'. receive_turn ops known r s bs = Some (r', s, []) \<and> awaits content holds known m r' (drop (length bs) rem)"
    proof (cases "length bs < length (groups (fst m) 0) - j")
      case True
      then have e: "bs = take (length bs) (drop j (groups (fst m) 0))" using b(2) rem by simp
      have "length (groups (fst m) 0) \<le> 4" using length_groups [of "fst m" 0] by simp
      with True have small: "4 + (j + length bs) < 8" by simp
      from header(1) [OF True, of known s] e have
        "receive_turn ops known r s bs = Some (r\<lparr>rc_length := length (content (snd m)) + command_size (fst m) - (j + length bs),
           rc_offset := 4 + (j + length bs), rc_label := fst m mod 2 ^ (7 * (j + length bs))\<rparr>, s, [])"
        using small by (simp add: receive_turn_def receive_body_def)
      moreover have "drop (length bs) rem = drop (j + length bs) (groups (fst m) 0) @ content (snd m)"
        using True by (simp add: rem add.commute)
      ultimately show ?thesis
        using True r(5) b(1) by (auto simp: awaits_def awaits_label_def intro!: exI [of _ "j + length bs"])
    next
      case False
      then obtain cs where cs: "bs = drop j (groups (fst m) 0) @ cs" "cs = take (length cs) (content (snd m))"
        using take_prefix [of bs "drop j (groups (fst m) 0)" "content (snd m)"] b(2) rem by auto
      have l: "length cs < length (content (snd m))" using b(1) cs(1) rem by simp
      have "length cs < 2 ^ 16" using bs cs(1) by simp
      from body(1) [OF this] l cs(2) obtain r3 where
        "receive_body ops deliver r2 s cs = Some (r3, s, [])" "awaits_package content holds known m r3 (drop (length cs) (content (snd m)))" by auto
      moreover have "drop (length bs) rem = drop (length cs) (content (snd m))" by (simp add: rem cs(1))
      moreover have "receive_turn ops known r s bs = receive_body ops deliver r2 s cs"
        using header(2) [of known s cs] cs(1) by (simp add: receive_turn_def r2)
      ultimately show ?thesis using l by (auto simp: awaits_def)
    qed }
  { assume b: "bs = rem @ rest"
    have "length (content (snd m) @ rest) < 2 ^ 16" using bs b rem by simp
    from body(2) [OF this, of rest s] obtain ds where
      "receive_body ops deliver r2 s (content (snd m) @ rest) = Some (idle_receiver, s @ ds, rest)" "delivered content holds known m ds" by auto
    moreover have "receive_turn ops known r s bs = receive_body ops deliver r2 s (content (snd m) @ rest)"
      using header(2) [of known s "content (snd m) @ rest"] by (simp add: receive_turn_def r2 b rem)
    ultimately show "\<exists>ds. receive_turn ops known r s bs = Some (idle_receiver, s @ ds, rest) \<and> delivered content holds known m ds" by auto }
qed

lemma awaits_turn:
  assumes m: "sendable content ready m" "receivable limit content holds known m"
    and r: "awaits content holds known m r rem"
    and bs: "length bs < 2 ^ 16"
  shows "length bs < length rem \<Longrightarrow> bs = take (length bs) rem \<Longrightarrow>
      \<exists>r'. receive_turn ops known r s bs = Some (r', s, []) \<and> awaits content holds known m r' (drop (length bs) rem)"
    and "bs = rem @ rest \<Longrightarrow>
      \<exists>ds. receive_turn ops known r s bs = Some (idle_receiver, s @ ds, rest) \<and> delivered content holds known m ds"
proof -
  consider (len) "awaits_length content m r rem" | (label) "awaits_label content m r rem" | (package) "awaits_package content holds known m r rem"
    using r by (auto simp: awaits_def)
  then have "(length bs < length rem \<longrightarrow> bs = take (length bs) rem \<longrightarrow>
      (\<exists>r'. receive_turn ops known r s bs = Some (r', s, []) \<and> awaits content holds known m r' (drop (length bs) rem))) \<and>
    (bs = rem @ rest \<longrightarrow>
      (\<exists>ds. receive_turn ops known r s bs = Some (idle_receiver, s @ ds, rest) \<and> delivered content holds known m ds))"
  proof cases
    case label
    then obtain j where "j < length (groups (fst m) 0)" "rc_offset r = 4 + j"
      "rc_length r = length (content (snd m)) + command_size (fst m) - j" "rc_label r = fst m mod 2 ^ (7 * j)"
      "rc_current r = None" "rem = drop j (groups (fst m) 0) @ content (snd m)" by (auto simp: awaits_label_def)
    from label_turn [OF m this(2,1,3-6) bs] show ?thesis by blast
  next
    case package
    then obtain p where p: "p \<le> length (content (snd m))" "rc_offset r = 8 + p" "rc_length r = length (content (snd m))" "rc_label r = 0"
      "holding holds known (fst m) (rc_current r) (take p (content (snd m)))" "rem = drop p (content (snd m))"
      by (auto simp: awaits_package_def)
    have h: "receive_turn ops known r s bs = receive_body ops deliver r s bs" using p(2) by (simp add: receive_turn_def receive_header_def)
    note body = package_body [OF p(2,1,3-5) m(2) bs]
    show ?thesis
    proof (intro conjI impI)
      assume b: "length bs < length rem" "bs = take (length bs) rem"
      then have "length bs < length (content (snd m)) - p" by (simp add: p(6))
      from body(1) [OF this b(2) [unfolded p(6)], of s] obtain r' where
        "receive_body ops deliver r s bs = Some (r', s, [])" "awaits_package content holds known m r' (drop (p + length bs) (content (snd m)))" by blast
      then show "\<exists>r'. receive_turn ops known r s bs = Some (r', s, []) \<and> awaits content holds known m r' (drop (length bs) rem)"
        using b(1) by (auto simp: h p(6) awaits_def add.commute)
    next
      assume b: "bs = rem @ rest"
      show "\<exists>ds. receive_turn ops known r s bs = Some (idle_receiver, s @ ds, rest) \<and> delivered content holds known m ds"
        unfolding h using b p(6) by (intro body(2)) simp
    qed
  next
    case len
    obtain v where v: "v = length (content (snd m)) + command_size (fst m)" by blast
    have l: "rc_offset r < 4" "rc_label r = 0" "rc_current r = None" "rem = groups v (rc_offset r) @ groups (fst m) 0 @ content (snd m)"
      using len by (auto simp: awaits_length_def v Let_def)
    note header = length_header [OF m(1) len, folded v]
    obtain r1 where r1: "r1 = r\<lparr>rc_length := v, rc_offset := 4\<rparr>" by blast
    have lab: "receive_turn ops known r s (groups v (rc_offset r) @ cs) = receive_turn ops known r1 s cs" for cs
      using header(2) [of known s cs] by (simp add: receive_turn_def r1)
    have g0: "0 < length (groups (fst m) 0)" by simp
    have "rc_offset r1 = 4 + 0" "rc_length r1 = length (content (snd m)) + command_size (fst m) - 0" "rc_label r1 = fst m mod 2 ^ (7 * 0)"
      "rc_current r1 = None" using l by (simp_all add: r1 v)
    note turn = label_turn [OF m this(1) g0 this(2-4) refl, simplified drop_0]
    show ?thesis
    proof (intro conjI impI)
      assume b: "length bs < length rem" "bs = take (length bs) rem"
      show "\<exists>r'. receive_turn ops known r s bs = Some (r', s, []) \<and> awaits content holds known m r' (drop (length bs) rem)"
      proof (cases "length bs < length (groups v (rc_offset r))")
        case True
        from header(1) [OF True, of known s] b(2) have
          t: "receive_turn ops known r s bs = Some (r\<lparr>rc_length := v mod 2 ^ (7 * (rc_offset r + length bs)), rc_offset := rc_offset r + length bs\<rparr>, s, [])"
          "rc_offset r + length bs < 4" by (auto simp: receive_turn_def receive_body_def)
        have "drop (length bs) rem = groups v (rc_offset r + length bs) @ groups (fst m) 0 @ content (snd m)"
          using drop_groups [OF True] True by (simp add: l(4))
        then show ?thesis
          using t l b(1) by (auto simp: awaits_def awaits_length_def Let_def v)
      next
        case False
        then obtain cs where cs: "bs = groups v (rc_offset r) @ cs" "cs = take (length cs) (groups (fst m) 0 @ content (snd m))"
          using take_prefix [of bs "groups v (rc_offset r)" "groups (fst m) 0 @ content (snd m)"] b(2) l(4) by auto
        have "length cs < 2 ^ 16" "length cs < length (groups (fst m) 0 @ content (snd m))" using bs b(1) cs(1) l(4) by simp_all
        from turn(1) [OF this cs(2), of s] show ?thesis unfolding cs(1) lab l(4) by simp
      qed
    next
      assume b: "bs = rem @ rest"
      have "length (groups (fst m) 0 @ content (snd m) @ rest) < 2 ^ 16" using bs b l(4) by simp
      from turn(2) [OF this, of rest s] show "\<exists>ds. receive_turn ops known r s bs = Some (idle_receiver, s @ ds, rest) \<and> delivered content holds known m ds"
        unfolding b l(4) append_assoc lab by simp
    qed
  qed
  then show "length bs < length rem \<Longrightarrow> bs = take (length bs) rem \<Longrightarrow>
      \<exists>r'. receive_turn ops known r s bs = Some (r', s, []) \<and> awaits content holds known m r' (drop (length bs) rem)"
    "bs = rem @ rest \<Longrightarrow>
      \<exists>ds. receive_turn ops known r s bs = Some (idle_receiver, s @ ds, rest) \<and> delivered content holds known m ds" by blast+
qed

end

subsection \<open>Streams\<close>

text \<open>
  The receiver expects \<open>stream\<close>: the rest of the message it is in, and the messages \<open>ms\<close> behind it,
  or it is between two messages.
\<close>

definition expects ::
  "('p \<Rightarrow> u8 list) \<Rightarrow> ('p \<Rightarrow> u8 list \<Rightarrow> bool) \<Rightarrow> (nat \<Rightarrow> 'p option) \<Rightarrow> (nat \<times> 'p) list \<Rightarrow> (nat \<times> 'p) receiver \<Rightarrow> u8 list \<Rightarrow> bool" where
  "expects content holds known ms r stream \<longleftrightarrow>
     r = idle_receiver \<and> stream = concat (map (wire_bytes content) ms) \<or>
     (\<exists>m ms' rem. ms = m # ms' \<and> awaits content holds known m r rem \<and> stream = rem @ concat (map (wire_bytes content) ms'))"

text \<open>The messages delivered for the messages sent.\<close>

definition all_delivered ::
  "('p \<Rightarrow> u8 list) \<Rightarrow> ('p \<Rightarrow> u8 list \<Rightarrow> bool) \<Rightarrow> (nat \<Rightarrow> 'p option) \<Rightarrow> (nat \<times> 'p) list \<Rightarrow> (nat \<times> 'p) list \<Rightarrow> bool" where
  "all_delivered content holds known ms ds \<longleftrightarrow>
     list_all2 (\<lambda>m d. fst d = fst m \<and> holds (snd d) (content (snd m))) (filter (\<lambda>m. known (fst m) \<noteq> None) ms) ds"

lemma all_delivered_Nil [simp]: "all_delivered content holds known [] []"
  by (simp add: all_delivered_def)

lemma all_delivered_Cons:
  "delivered content holds known m ds \<Longrightarrow> all_delivered content holds known ms es \<Longrightarrow>
    all_delivered content holds known (m # ms) (ds @ es)"
  by (auto simp: all_delivered_def delivered_def split: option.splits)

lemma all_delivered_append:
  "all_delivered content holds known ms ds \<Longrightarrow> all_delivered content holds known ns es \<Longrightarrow>
    all_delivered content holds known (ms @ ns) (ds @ es)"
  by (auto simp: all_delivered_def intro: list_all2_appendI)

lemma wire_bytes_not_Nil [simp]: "wire_bytes content m \<noteq> []"
  by (simp add: wire_bytes_def)

lemma expects_first:
  assumes "expects content holds known ms r stream" "stream \<noteq> []"
  obtains m ms' rem where "ms = m # ms'" "awaits content holds known m r rem"
    "stream = rem @ concat (map (wire_bytes content) ms')"
  using assms awaits_first [of content holds known]
  by (cases ms) (fastforce simp: expects_def)+

context ipc_package
begin

text \<open>A buffer moves the receiver on by its bytes.\<close>

lemma deserialize_loop_expects:
  assumes "\<forall>m\<in>set ms. sendable content ready m \<and> receivable limit content holds known m"
    "expects content holds known ms r (bs @ stream)" "length bs < 2 ^ 16"
  shows "\<exists>r' front rest ds. ms = front @ rest \<and>
    deserialize_loop ops (element_of known) deliver r s bs = Some (r', s @ ds) \<and>
    all_delivered content holds known front ds \<and> expects content holds known rest r' stream"
  using assms
proof (induction "length ms" arbitrary: ms r s bs rule: less_induct)
  case less
  show ?case
  proof (cases "bs = []")
    case True
    then show ?thesis
      using less.prems(2) by (intro exI [of _ r] exI [of _ "[]"] exI [of _ ms]) (simp add: deserialize_loop.simps)
  next
    case False
    then have ne: "bs @ stream \<noteq> []" by simp
    obtain m ms' rem where m: "ms = m # ms'" "awaits content holds known m r rem"
      "bs @ stream = rem @ concat (map (wire_bytes content) ms')"
      using expects_first [OF less.prems(2) ne] by metis
    have ok: "sendable content ready m" "receivable limit content holds known m" using less.prems(1) m(1) by simp_all
    note turn = awaits_turn [OF ok m(2) less.prems(3)]
    have step: "deserialize_loop ops (element_of known) deliver r s bs =
      (case receive_turn ops known r s bs of None \<Rightarrow> None
       | Some (r, s, bs) \<Rightarrow> deserialize_loop ops (element_of known) deliver r s bs)"
      using False by (subst deserialize_loop.simps) (simp add: receive_turn_def split: prod.splits)
    show ?thesis
    proof (cases "length bs < length rem")
      case True
      have b: "bs = take (length bs) rem" "stream = drop (length bs) rem @ concat (map (wire_bytes content) ms')"
        using m(3) True by (metis append_eq_append_conv_if append_take_drop_id less_imp_le same_append_eq,
          metis append_eq_append_conv_if append_take_drop_id append.assoc less_imp_le same_append_eq)
      from turn(1) [OF True b(1), of s] obtain r' where
        r': "receive_turn ops known r s bs = Some (r', s, [])" "awaits content holds known m r' (drop (length bs) rem)" by blast
      then have "deserialize_loop ops (element_of known) deliver r s bs = Some (r', s)"
        unfolding step by (simp add: deserialize_loop.simps)
      then show ?thesis
        using r'(2) b(2) m(1) by (intro exI [of _ r'] exI [of _ "[]"] exI [of _ ms]) (auto simp: expects_def)
    next
      case False
      then obtain rest where rest: "bs = rem @ rest" "rest @ stream = concat (map (wire_bytes content) ms')"
        using m(3) by (auto simp: append_eq_append_conv2)
      from turn(2) [OF rest(1), of s] obtain ds where
        ds: "receive_turn ops known r s bs = Some (idle_receiver, s @ ds, rest)" "delivered content holds known m ds" by blast
      have "expects content holds known ms' idle_receiver (rest @ stream)" using rest(2) by (simp add: expects_def)
      moreover have "length rest < 2 ^ 16" "length ms' < length ms" using less.prems(3) rest(1) m(1) by simp_all
      ultimately obtain r' front rest' es where
        e: "ms' = front @ rest'" "deserialize_loop ops (element_of known) deliver idle_receiver (s @ ds) rest = Some (r', (s @ ds) @ es)"
        "all_delivered content holds known front es" "expects content holds known rest' r' stream"
        using less.hyps [of ms' idle_receiver rest "s @ ds"] less.prems(1) m(1) by auto
      then show ?thesis
        using ds m(1) by (intro exI [of _ r'] exI [of _ "m # front"] exI [of _ rest'] exI [of _ "ds @ es"])
          (simp add: step all_delivered_Cons)
    qed
  qed
qed

text \<open>Buffers one after the other.\<close>

lemma receive_buffers_expects:
  assumes "\<forall>m\<in>set ms. sendable content ready m \<and> receivable limit content holds known m"
    "expects content holds known ms r (concat bss @ stream)" "\<forall>bs\<in>set bss. length bs < 2 ^ 16"
  shows "\<exists>r' front rest ds. ms = front @ rest \<and>
    receive_buffers ops (element_of known) deliver bss r s = Some (r', s @ ds) \<and>
    all_delivered content holds known front ds \<and> expects content holds known rest r' stream"
  using assms
proof (induction bss arbitrary: ms r s)
  case Nil
  then show ?case by (intro exI [of _ r] exI [of _ "[]"] exI [of _ ms]) simp
next
  case (Cons bs bss)
  have e: "expects content holds known ms r (bs @ (concat bss @ stream))" using Cons.prems(2) by simp
  obtain r1 front rest ds where
    1: "ms = front @ rest" "deserialize_loop ops (element_of known) deliver r s bs = Some (r1, s @ ds)"
    "all_delivered content holds known front ds" "expects content holds known rest r1 (concat bss @ stream)"
    using deserialize_loop_expects [OF Cons.prems(1) e, of s] Cons.prems(3) by auto
  obtain r2 front' rest' es where
    2: "rest = front' @ rest'" "receive_buffers ops (element_of known) deliver bss r1 (s @ ds) = Some (r2, (s @ ds) @ es)"
    "all_delivered content holds known front' es" "expects content holds known rest' r2 stream"
    using Cons.IH [of rest r1 "s @ ds"] 1 Cons.prems by auto
  show ?case
    using 1 2 by (intro exI [of _ r2] exI [of _ "front @ front'"] exI [of _ rest'] exI [of _ "ds @ es"])
      (simp add: all_delivered_append)
qed

text \<open>Both sides: what the calls of the socket take out of the sender and put into the receiver.\<close>

lemma send_buffers_eq:
  assumes "sender_ok content ready s"
  shows "\<exists>bss s'. send_buffers ops ns s = Some (bss, s') \<and> unsent content s = concat bss @ unsent content s' \<and>
    list_all2 (\<lambda>bs n. length bs \<le> n) bss ns \<and>
    length (concat bss) = min (sum_list ns) (length (unsent content s)) \<and>
    sender_ok content ready s' \<and> sd_sent s' @ sd_queue s' = sd_sent s @ sd_queue s"
  using assms
proof (induction ns arbitrary: s)
  case (Cons n ns)
  obtain s1 where 1: "serialize_loop ops n s = Some (take n (unsent content s), s1)" "sender_ok content ready s1"
    "unsent content s1 = drop n (unsent content s)" "sd_sent s1 @ sd_queue s1 = sd_sent s @ sd_queue s"
    using serialize_loop_eq [OF Cons.prems] by blast
  obtain bss s2 where 2: "send_buffers ops ns s1 = Some (bss, s2)" "unsent content s1 = concat bss @ unsent content s2"
    "list_all2 (\<lambda>bs n. length bs \<le> n) bss ns"
    "length (concat bss) = min (sum_list ns) (length (unsent content s1))"
    "sender_ok content ready s2" "sd_sent s2 @ sd_queue s2 = sd_sent s1 @ sd_queue s1"
    using Cons.IH [OF 1(2)] by blast
  have "unsent content s = take n (unsent content s) @ concat bss @ unsent content s2"
    using 1(3) 2(2) by (metis append_take_drop_id)
  then show ?case
    using 1 2 by (intro exI [of _ "take n (unsent content s) # bss"] exI [of _ s2]) auto
qed simp

lemma submit_keeps:
  assumes "sender_ok content ready s" "sendable content ready m"
  shows "sender_ok content ready (link_submit ops True m s)"
    "unsent content (link_submit ops True m s) = unsent content s @ wire_bytes content m"
    "sd_sent (link_submit ops True m s) @ sd_queue (link_submit ops True m s) = sd_sent s @ sd_queue s @ [m]"
  using assms
  by (cases "sd_queue s"; cases "sd_current s";
      auto simp: sender_ok_def link_submit_def submit_element_def unsent_def unsent_current_def wire_bytes_def Let_def)+

end

end
