(* ===== verification/Ipc_Properties.thy ===== *)
theory Ipc_Properties
  imports Ipc_Delivery
begin

text \<open>
  What the links of the remote procedure calls promise, and where they do not: the transfer of any
  messages in any buffers, the labels that break it, and a structure that receives too much.
\<close>

definition rpc_ops :: "(nat \<Rightarrow> bool) \<Rightarrow> (nat \<times> frame) message_ops" where
  "rpc_ops granted = raw_message fr_size data_serialize (data_deserialize granted)"

definition idle_sender :: "'m sender" where
  "idle_sender = \<lparr>sd_length = 0, sd_offset = 0, sd_current = None, sd_queue = [], sd_sent = [], sd_triggers = 0\<rparr>"

definition submit_all :: "'m message_ops \<Rightarrow> 'm list \<Rightarrow> 'm sender \<Rightarrow> 'm sender" where
  "submit_all ops ms s = foldl (\<lambda>s m. link_submit ops True m s) s ms"

lemma rpc_ops_eq: "raw_message (\<lambda>p. length (frame_content p)) data_serialize (data_deserialize granted) = rpc_ops granted"
  by (simp add: rpc_ops_def)

definition frame_ready :: "frame \<Rightarrow> bool" where
  "frame_ready f \<longleftrightarrow> fr_size f \<le> fr_capacity f \<and> fr_size f < 2 ^ 32"

lemma frame_ready_eq: "(\<lambda>f. fr_size f \<le> fr_capacity f \<and> fr_size f < 2 ^ 32) = frame_ready"
  by (simp add: frame_ready_def fun_eq_iff)

lemmas rpc_link = rpc_package.submit_keeps [unfolded rpc_ops_eq frame_ready_eq]
  and rpc_send = rpc_package.send_buffers_eq [unfolded rpc_ops_eq frame_ready_eq]
  and rpc_receive = rpc_package.receive_buffers_expects [unfolded rpc_ops_eq frame_ready_eq]

lemma submit_all_ok:
  assumes "sender_ok frame_content frame_ready s" "\<forall>m\<in>set ms. sendable frame_content frame_ready m"
  shows "sender_ok frame_content frame_ready (submit_all (rpc_ops granted) ms s) \<and>
    unsent frame_content (submit_all (rpc_ops granted) ms s) = unsent frame_content s @ concat (map (wire_bytes frame_content) ms)"
  using assms
proof (induction ms arbitrary: s)
  case (Cons m ms)
  have "sendable frame_content frame_ready m" using Cons.prems(2) by simp
  note step = rpc_link [OF Cons.prems(1) this, of granted]
  show ?case
    using Cons.IH [OF step(1)] Cons.prems(2) step(2) by (simp add: submit_all_def)
qed (simp add: submit_all_def)

text \<open>C7: messages submitted to an open link and taken out of it in buffers of any sizes arrive, whatever way the
  network cuts the bytes again into parts of less than 64 KB, if their labels are below \<open>2 ^ 29\<close> and not between 0x4000 and
  0xCFFF, which \<open>CommandSize\<close> takes for shorter than they are (\<open>label_miscounted\<close>), if they have less than \<open>2 ^ 29 - 4\<close> bytes,
  and if the frames of the receiver can grow to their size: the receiver delivers, in order and with the same label and content, the
  messages that have gone out completely, leaving out those with a label it does not know, and all of
  them when the buffers had room for all bytes.\<close>

theorem link_transfers_messages:
  assumes "\<forall>m\<in>set ms. label_ok (fst m) \<and> frame_ready (snd m) \<and> fr_size (snd m) + 4 < 2 ^ 29 \<and> fr_size (snd m) \<le> limit"
    and "\<forall>l p. known l = Some p \<longrightarrow> received_frame (rpc_kind granted) limit p []"
    and "send_buffers (rpc_ops granted) ns (submit_all (rpc_ops granted) ms idle_sender) = Some (bss, s)"
    and "concat css = concat bss" "\<forall>cs\<in>set css. length cs < 2 ^ 16"
  shows "\<exists>front rest r ds. ms = front @ rest \<and>
    receive_buffers (rpc_ops granted) (element_of known) deliver css idle_receiver [] = Some (r, ds) \<and>
    list_all2 (\<lambda>m d. fst d = fst m \<and> frame_content (snd d) = frame_content (snd m)) (filter (\<lambda>m. known (fst m) \<noteq> None) front) ds \<and>
    (length (concat (map (wire_bytes frame_content) ms)) \<le> sum_list ns \<longrightarrow> rest = [] \<and> r = idle_receiver)"
proof -
  have ok: "\<forall>m\<in>set ms. sendable frame_content frame_ready m"
    "\<forall>m\<in>set ms. sendable frame_content frame_ready m \<and> receivable limit frame_content (received_frame (rpc_kind granted) limit) known m"
    using assms(1,2) by (auto simp: sendable_def receivable_def)
  have "sender_ok frame_content frame_ready idle_sender" "unsent frame_content idle_sender = []"
    by (simp_all add: sender_ok_def idle_sender_def unsent_def)
  then have s: "sender_ok frame_content frame_ready (submit_all (rpc_ops granted) ms idle_sender)"
    "unsent frame_content (submit_all (rpc_ops granted) ms idle_sender) = concat (map (wire_bytes frame_content) ms)"
    using submit_all_ok [of idle_sender ms granted] ok(1) by simp_all
  obtain bss' s' where sent: "send_buffers (rpc_ops granted) ns (submit_all (rpc_ops granted) ms idle_sender) = Some (bss', s')"
    "concat (map (wire_bytes frame_content) ms) = concat bss' @ unsent frame_content s'"
    "length (concat bss') = min (sum_list ns) (length (concat (map (wire_bytes frame_content) ms)))"
    using rpc_send [OF s(1), of granted ns] unfolding s(2) by blast
  have "bss' = bss" using sent(1) unfolding assms(3) by simp
  then obtain rest_bytes where b: "concat (map (wire_bytes frame_content) ms) = concat bss @ rest_bytes"
    "length (concat bss) = min (sum_list ns) (length (concat (map (wire_bytes frame_content) ms)))"
    using sent(2,3) by blast
  have "expects frame_content (received_frame (rpc_kind granted) limit) known ms idle_receiver (concat css @ rest_bytes)"
    using b(1) assms(4) by (simp add: expects_def)
  from rpc_receive [OF ok(2) this assms(5), of "[]", unfolded append_Nil] obtain r front rest ds where
    r: "ms = front @ rest" "receive_buffers (rpc_ops granted) (element_of known) deliver css idle_receiver [] = Some (r, ds)"
    "all_delivered frame_content (received_frame (rpc_kind granted) limit) known front ds"
    "expects frame_content (received_frame (rpc_kind granted) limit) known rest r rest_bytes" by blast
  have d: "list_all2 (\<lambda>m d. fst d = fst m \<and> frame_content (snd d) = frame_content (snd m)) (filter (\<lambda>m. known (fst m) \<noteq> None) front) ds"
    using r(3) unfolding all_delivered_def by (rule list_all2_mono) (auto simp: received_content)
  have e: "rest = [] \<and> r = idle_receiver" if "length (concat (map (wire_bytes frame_content) ms)) \<le> sum_list ns"
  proof -
    have "length (concat (map (wire_bytes frame_content) ms)) = length (concat bss) + length rest_bytes"
      unfolding b(1) by simp
    then have "rest_bytes = []" using b(2) that by simp
    then show ?thesis using r(4) by (cases rest) (auto simp: expects_def awaits_def)
  qed
  show ?thesis using r(1,2) d e by blast
qed

theorem link_transfers_messages_witness:
  "\<exists>bss s r ds. send_buffers (rpc_ops (\<lambda>n. True)) [3, 2] (submit_all (rpc_ops (\<lambda>n. True)) [(2, new_message), (9, new_message)] idle_sender) = Some (bss, s) \<and>
     receive_buffers (rpc_ops (\<lambda>n. True)) (element_of (\<lambda>l. if l = 2 then Some new_message else None)) deliver [concat bss] idle_receiver [] = Some (r, ds) \<and>
     r = idle_receiver \<and> map fst ds = [2]"
proof -
  obtain ms where ms: "ms = [(2 :: nat, new_message), (9, new_message)]" by blast
  obtain known where known: "known = (\<lambda>l :: nat. if l = 2 then Some new_message else None)" by (rule that [OF refl])
  have ok: "\<forall>m\<in>set ms. label_ok (fst m) \<and> frame_ready (snd m) \<and> fr_size (snd m) + 4 < 2 ^ 29 \<and> fr_size (snd m) \<le> 100"
    by (simp add: ms label_ok_def frame_ready_def new_message_def)
  have rec: "\<forall>l p. known l = Some p \<longrightarrow> received_frame (rpc_kind (\<lambda>n. True)) 100 p []"
    using new_message_room [of 100] by (auto simp: known received_frame_def new_message_def)
  have sub: "sender_ok frame_content frame_ready (submit_all (rpc_ops (\<lambda>n. True)) ms idle_sender)"
    using submit_all_ok [of idle_sender ms "\<lambda>n. True"] ok
    by (simp add: sender_ok_def idle_sender_def sendable_def)
  obtain bss s where send: "send_buffers (rpc_ops (\<lambda>n. True)) [3, 2] (submit_all (rpc_ops (\<lambda>n. True)) ms idle_sender) = Some (bss, s)"
    "length (concat bss) \<le> sum_list [3, 2]"
    using rpc_send [OF sub, of "\<lambda>n. True" "[3, 2]"] by (metis min.cobounded1)
  have "length (concat (map (wire_bytes frame_content) ms)) \<le> sum_list [3, 2]"
    by (simp add: ms wire_bytes_def new_message_def groups.simps [of _ 0] command_size_def frame_content_def)
  then obtain r ds where r: "receive_buffers (rpc_ops (\<lambda>n. True)) (element_of known) deliver [concat bss] idle_receiver [] = Some (r, ds)"
    "r = idle_receiver" "list_all2 (\<lambda>m d. fst d = fst m \<and> frame_content (snd d) = frame_content (snd m)) (filter (\<lambda>m. known (fst m) \<noteq> None) ms) ds"
    using link_transfers_messages [OF ok rec send(1), of "[concat bss]"] send(2) by auto
  have "map fst ds = [2]" using r(3) by (auto simp: ms known list_all2_Cons1)
  then show ?thesis using send(1) r(1,2) unfolding ms known by (intro exI conjI)
qed

text \<open>
  A label above \<open>0x3FFF\<close> and up to \<open>0xCFFF\<close> takes three groups, of which two are counted: the last byte of the
  package is taken for the length of the next message.
\<close>

definition text_ops :: "(nat \<times> u8 list) message_ops" where
  "text_ops = raw_message length scalar_serialize scalar_deserialize"

lemma label_miscounted:
  "deserialize_loop text_ops (element_of (\<lambda>l. Some [])) deliver idle_receiver [] (wire_bytes (\<lambda>s. s) (0x4000, [1, 2, 3])) =
     Some (\<lparr>rc_length = 3, rc_offset = 4, rc_label = 0, rc_current = None\<rparr>, [(0x4000, [1, 2])])"
proof -
  have w: "wire_bytes (\<lambda>s. s) (0x4000, [1, 2, 3]) = [5, 0x80, 0x80, 1, 1, 2, 3]"
    by (simp add: wire_bytes_def command_size_def groups.simps group_byte_def)
  have 1: "receive_header (element_of (\<lambda>l. Some [])) idle_receiver ([] :: (nat \<times> u8 list) list) [5, 0x80, 0x80, 1, 1, 2, 3] =
      (\<lparr>rc_length = 2, rc_offset = 8, rc_label = 0, rc_current = Some (0x4000, [])\<rparr>, [], [1, 2, 3])"
    by (simp add: receive_header_def idle_receiver_def element_of_def sub32_def)
  have 2: "receive_body text_ops deliver (\<lparr>rc_length = 2, rc_offset = 8, rc_label = 0, rc_current = Some (0x4000, [])\<rparr>) [] [1, 2, 3] =
      Some (idle_receiver, [(0x4000, [1, 2])], [3])"
    by (simp add: receive_body_def receive_part_def text_ops_def scalar_deserialize_def deliver_def idle_receiver_def Let_def)
  have 3: "receive_header (element_of (\<lambda>l. Some [])) idle_receiver s [3] =
      (\<lparr>rc_length = 3, rc_offset = 4, rc_label = 0, rc_current = None\<rparr>, s, [])" for s :: "(nat \<times> u8 list) list"
    by (simp add: receive_header_def idle_receiver_def sub32_def)
  have 4: "receive_body text_ops deliver (\<lparr>rc_length = 3, rc_offset = 4, rc_label = 0, rc_current = None\<rparr>) s [] =
      Some (\<lparr>rc_length = 3, rc_offset = 4, rc_label = 0, rc_current = None\<rparr>, s, [])" for s
    by (simp add: receive_body_def)
  show ?thesis
    unfolding w by (subst deserialize_loop.simps, simp add: 1 2, subst deserialize_loop.simps, simp add: 3 4, subst deserialize_loop.simps, simp)
qed

text \<open>A package that is a plain structure takes no byte more than its size, and the receiver never returns when
  the sender announces more: the loop goes on with the bytes that are left.\<close>

theorem oversized_package_hangs:
  assumes "rc_current r = Some (l, p)" "rc_offset r = 8 + length p" "length p < rc_length r" "bs \<noteq> []"
  shows "deserialize_loop (raw_message length raw_serialize raw_deserialize) element received r s bs = None"
proof -
  let ?ops = "raw_message length raw_serialize raw_deserialize"
  let ?state = "\<lambda>r bs. rc_current r = Some (l, p) \<and> rc_offset r = 8 + length p \<and> length p < rc_length r \<and> bs \<noteq> []"
  have stays: "receive_header element r s bs = (r, s, bs) \<and> receive_body ?ops received r s bs = Some (r, s, bs)"
    if "?state r bs" for r s bs
    using that by (cases r) (auto simp: receive_header_def receive_body_def receive_part_def raw_deserialize_def Let_def)
  have no: "\<not> (ops = ?ops \<and> elem = element \<and> rcvd = received \<and> ?state r bs)"
    if "deserialize_loop ops elem rcvd r s bs = Some y" for ops elem rcvd r s bs y
  proof (rule deserialize_loop.raw_induct [where P = "\<lambda>ops elem rcvd r s bs y. \<not> (ops = ?ops \<and> elem = element \<and> rcvd = received \<and> ?state r bs)", OF _ that])
    fix f ops elem rcvd r s bs y
    assume 1: "\<And>ops elem rcvd r s bs y. f ops elem rcvd r s bs = Some y \<Longrightarrow>
        \<not> (ops = ?ops \<and> elem = element \<and> rcvd = received \<and> ?state r bs)"
      "(if bs = [] then Some (r, s) else case receive_header elem r s bs of (r, s, bs) \<Rightarrow>
          case receive_body ops rcvd r s bs of None \<Rightarrow> None | Some (r, s, bs) \<Rightarrow> f ops elem rcvd r s bs) = Some y"
    show "\<not> (ops = ?ops \<and> elem = element \<and> rcvd = received \<and> ?state r bs)"
    proof
      assume a: "ops = ?ops \<and> elem = element \<and> rcvd = received \<and> ?state r bs"
      then have st: "?state r bs" by simp
      have "f ?ops element received r s bs = Some y"
        using 1(2) a stays [OF st, of s] by simp
      from 1(1) [OF this] st show False by simp
    qed
  qed
  then show ?thesis using assms by (cases "deserialize_loop ?ops element received r s bs") blast+
qed

theorem oversized_package_hangs_witness:
  "deserialize_loop (raw_message length raw_serialize raw_deserialize) (element_of (\<lambda>l. Some [0])) deliver
    (\<lparr>rc_length = 2, rc_offset = 8 + length [7 :: u8], rc_label = 0, rc_current = Some (2, [7])\<rparr>) [] [1 :: u8] = None"
  by (rule oversized_package_hangs [where p = "[7]"]) simp_all

end
