(* ===== verification/Ipc_Channel.thy ===== *)
theory Ipc_Channel
  imports Errors
begin

text \<open>
  The calls on a channel: \<open>IPCFactory\<close>, \<open>IPCChannelType\<close>, \<open>IPCLink\<close> and \<open>IPCTrigger\<close> of
  \<^verbatim>\<open>Source/core/IPCConnector.h\<close> and \<open>FactoryType\<close> of \<^verbatim>\<open>Source/core/Factory.h\<close>. A call is an object with a
  label; its parameters and its response are the messages of the link. The threads of the callers
  and of the socket interleave at the locks of the code: what happens between two of them is a step.
\<close>

subsection \<open>Calls and messages\<close>

record ipc_call =
  ic_object :: nat
  ic_label :: nat

datatype ipc_message = Parameters ipc_call | Response ipc_call

fun message_label :: "ipc_message \<Rightarrow> nat" where
  "message_label (Parameters c) = (2 * ic_label c) mod 2 ^ 32"
| "message_label (Response c) = (2 * ic_label c) mod 2 ^ 32 + 1"

text \<open>What is told of the end of a call: the event of a waiting caller, or an object of the caller.\<close>

datatype sink = Trigger | Completed nat

subsection \<open>The administration of the calls\<close>

text \<open>
  \<open>fc_pool\<close> are the labels for which the factory makes objects, \<open>fc_created\<close> counts them; \<open>fc_signal\<close>
  is the event of the caller that waits, \<open>fc_completed\<close> what was told to the objects of callers.
\<close>

record ipc_factory =
  fc_inbound :: "ipc_call option"
  fc_outbound :: "ipc_call option"
  fc_callback :: "sink option"
  fc_pool :: "nat list"
  fc_created :: nat
  fc_handlers :: "nat \<rightharpoonup> nat"
  fc_abort :: bool
  fc_signal :: bool
  fc_completed :: "(nat \<times> ipc_call) list"

definition register_handler :: "nat \<Rightarrow> nat \<Rightarrow> ipc_factory \<Rightarrow> ipc_factory" where
  "register_handler ident handler f =
     (if fc_handlers f ident = None then f\<lparr>fc_handlers := (fc_handlers f)(ident \<mapsto> handler)\<rparr> else f)"

definition unregister_handler :: "nat \<Rightarrow> ipc_factory \<Rightarrow> ipc_factory" where
  "unregister_handler ident f = f\<lparr>fc_handlers := (fc_handlers f)(ident := None)\<rparr>"

definition in_progress :: "ipc_factory \<Rightarrow> bool" where
  "in_progress f \<longleftrightarrow> fc_outbound f \<noteq> None"

definition create_factory :: "nat \<Rightarrow> ipc_factory \<Rightarrow> ipc_factory" where
  "create_factory label f = (if label \<in> set (fc_pool f) then f else f\<lparr>fc_pool := label # fc_pool f\<rparr>)"

definition destroy_factory :: "nat \<Rightarrow> ipc_factory \<Rightarrow> ipc_factory" where
  "destroy_factory label f = f\<lparr>fc_pool := removeAll label (fc_pool f)\<rparr>"

definition factory_element :: "nat \<Rightarrow> ipc_factory \<Rightarrow> ipc_factory \<times> ipc_call option" where
  "factory_element label f =
     (if label \<in> set (fc_pool f)
      then (f\<lparr>fc_created := fc_created f + 1\<rparr>, Some \<lparr>ic_object = fc_created f, ic_label = label\<rparr>)
      else (f, None))"

text \<open>\<open>Element\<close>: the message for a label that has arrived. A response is known by its label alone.\<close>

definition message_for :: "nat \<Rightarrow> ipc_factory \<Rightarrow> ipc_factory \<times> ipc_message option" where
  "message_for label f =
     (if odd label then
        (f, case fc_outbound f of
              None \<Rightarrow> None
            | Some c \<Rightarrow> if ic_label c = label div 2 then Some (Response c) else None)
      else
        (case factory_element (label div 2) f of
           (f, None) \<Rightarrow> (f, None)
         | (f, Some c) \<Rightarrow> (f\<lparr>fc_inbound := Some c\<rparr>, Some (Parameters c))))"

definition flush :: "ipc_factory \<Rightarrow> ipc_factory" where
  "flush f = f\<lparr>fc_callback := None, fc_outbound := None, fc_inbound := None\<rparr>"

definition finalize :: "error_code \<Rightarrow> ipc_factory \<Rightarrow> error_code \<times> ipc_factory" where
  "finalize status f =
     (if fc_abort f then (ERROR_ASYNC_FAILED, (flush f)\<lparr>fc_abort := False\<rparr>)
      else if fc_outbound f \<noteq> None then (status, f\<lparr>fc_callback := None, fc_outbound := None\<rparr>)
      else (status, f))"

text \<open>
  \<open>Dispatch\<close>. An object of a caller may do anything with the channel in it, which is \<open>react\<close>.
\<close>

fun dispatch :: "(nat \<Rightarrow> ipc_call \<Rightarrow> ipc_factory \<Rightarrow> ipc_factory) \<Rightarrow> sink \<Rightarrow> ipc_call \<Rightarrow> ipc_factory \<Rightarrow> ipc_factory" where
  "dispatch react Trigger c f = f\<lparr>fc_signal := True\<rparr>"
| "dispatch react (Completed n) c f = react n c (f\<lparr>fc_completed := fc_completed f @ [(n, c)]\<rparr>)"

text \<open>\<open>ReceivedMessage\<close>: the handler to call, if any. No result is the use of a null pointer.\<close>

definition received_message ::
  "(nat \<Rightarrow> ipc_call \<Rightarrow> ipc_factory \<Rightarrow> ipc_factory) \<Rightarrow> ipc_message \<Rightarrow> ipc_factory \<Rightarrow> ((nat \<times> ipc_call) option \<times> ipc_factory) option" where
  "received_message react m f =
     (if \<exists>c\<in>set_option (fc_outbound f). m = Response c then
        (case (fc_callback f, fc_outbound f) of
           (Some cb, Some c) \<Rightarrow> Some (None, (dispatch react cb c (f\<lparr>fc_outbound := None\<rparr>))\<lparr>fc_callback := None\<rparr>)
         | _ \<Rightarrow> None)
      else
        case fc_inbound f of
          None \<Rightarrow> Some (None, f)
        | Some c \<Rightarrow> Some (map_option (\<lambda>h. (h, c)) (fc_handlers f (ic_label c)), f\<lparr>fc_inbound := None\<rparr>))"

definition set_outbound :: "ipc_call \<Rightarrow> sink \<Rightarrow> ipc_factory \<Rightarrow> ipc_factory" where
  "set_outbound c cb f = f\<lparr>fc_outbound := Some c, fc_callback := Some cb\<rparr>"

definition abort_call :: "(nat \<Rightarrow> ipc_call \<Rightarrow> ipc_factory \<Rightarrow> ipc_factory) \<Rightarrow> ipc_factory \<Rightarrow> ipc_factory option" where
  "abort_call react f =
     (case fc_callback f of
        None \<Rightarrow> Some f
      | Some cb \<Rightarrow>
          (case fc_outbound f of
             None \<Rightarrow> None
           | Some c \<Rightarrow> Some ((dispatch react cb c (f\<lparr>fc_abort := True\<rparr>))\<lparr>fc_callback := None\<rparr>)))"

subsection \<open>The channel\<close>

text \<open>
  How far the call is that holds the lock of \<open>Execute\<close>: its call is set, or a synchronous caller waits.
\<close>

datatype phase = Idle | Armed ipc_call sink | Waiting ipc_call

record ipc_channel =
  ch_factory :: ipc_factory
  ch_open :: bool
  ch_phase :: phase
  ch_current :: "ipc_message option"
  ch_submitted :: "ipc_message list"
  ch_called :: "(nat \<times> ipc_call) list"
  ch_results :: "(ipc_call \<times> error_code) list"

text \<open>The two functions \<open>Execute\<close>, up to the test whether the link is open.\<close>

definition execute_completed :: "ipc_call \<Rightarrow> nat \<Rightarrow> ipc_channel \<Rightarrow> ipc_channel" where
  "execute_completed c n ch =
     (if in_progress (ch_factory ch) then ch\<lparr>ch_results := ch_results ch @ [(c, ERROR_INPROGRESS)]\<rparr>
      else ch\<lparr>ch_factory := set_outbound c (Completed n) (ch_factory ch), ch_phase := Armed c (Completed n)\<rparr>)"

definition execute_wait :: "ipc_call \<Rightarrow> ipc_channel \<Rightarrow> ipc_channel" where
  "execute_wait c ch =
     ch\<lparr>ch_factory := (set_outbound c Trigger (ch_factory ch))\<lparr>fc_signal := False\<rparr>, ch_phase := Armed c Trigger\<rparr>"

text \<open>
  The rest: \<open>LinkType::Submit\<close> looks a second time whether the link is open, \<open>still_open\<close> is what it
  sees.
\<close>

definition launch :: "bool \<Rightarrow> ipc_call \<Rightarrow> sink \<Rightarrow> ipc_channel \<Rightarrow> ipc_channel" where
  "launch still_open c k ch =
     (if ch_open ch then
        let ch = (if still_open then ch\<lparr>ch_submitted := ch_submitted ch @ [Parameters c]\<rparr> else ch)
        in case k of
             Trigger \<Rightarrow> ch\<lparr>ch_phase := Waiting c\<rparr>
           | Completed _ \<Rightarrow> ch\<lparr>ch_phase := Idle, ch_results := ch_results ch @ [(c, ERROR_NONE)]\<rparr>
      else
        ch\<lparr>ch_factory := flush (ch_factory ch), ch_phase := Idle,
           ch_results := ch_results ch @ [(c, ERROR_CONNECTION_CLOSED)]\<rparr>)"

text \<open>\<open>IPCTrigger::Wait\<close> returns: the event is set, or the time is over.\<close>

definition wait_over :: "bool \<Rightarrow> ipc_call \<Rightarrow> ipc_channel \<Rightarrow> ipc_channel" where
  "wait_over timed_out c ch =
     (case finalize (if timed_out then ERROR_TIMEDOUT else ERROR_NONE) (ch_factory ch) of
        (result, f) \<Rightarrow> ch\<lparr>ch_factory := f, ch_phase := Idle, ch_results := ch_results ch @ [(c, result)]\<rparr>)"

definition report_response :: "ipc_call \<Rightarrow> ipc_channel \<Rightarrow> ipc_channel" where
  "report_response c ch = (if ch_open ch then ch\<lparr>ch_submitted := ch_submitted ch @ [Response c]\<rparr> else ch)"

text \<open>\<open>IPCLink\<close>: a message has arrived, the state of the link has changed.\<close>

definition received :: "(nat \<Rightarrow> ipc_call \<Rightarrow> ipc_factory \<Rightarrow> ipc_factory) \<Rightarrow> ipc_message \<Rightarrow> ipc_channel \<Rightarrow> ipc_channel option" where
  "received react m ch =
     map_option (\<lambda>(handler, f). ch\<lparr>ch_factory := f, ch_current := None,
         ch_called := (case handler of None \<Rightarrow> ch_called ch | Some call \<Rightarrow> ch_called ch @ [call])\<rparr>)
       (received_message react m (ch_factory ch))"

definition state_change :: "(nat \<Rightarrow> ipc_call \<Rightarrow> ipc_factory \<Rightarrow> ipc_factory) \<Rightarrow> ipc_channel \<Rightarrow> ipc_channel option" where
  "state_change react ch =
     (if ch_open ch then Some ch else map_option (\<lambda>f. ch\<lparr>ch_factory := f\<rparr>) (abort_call react (ch_factory ch)))"

subsection \<open>Events\<close>

text \<open>
  Of the callers: both calls, the test of the link, the end of the wait, and the answer of a handler; of
  the socket: the header and the end of a message, and the state of the link. \<open>Blocked\<close> is an event
  that cannot happen: the lock is held, the event is not set, nothing arrives on a closed link.
\<close>

datatype ipc_event =
    Call_wait ipc_call | Call_completed ipc_call nat | Launch bool | Wait_over bool | Answer ipc_call
  | Header nat | Message | Closes | Opens | Changes

datatype outcome = Next ipc_channel | Blocked | Fault

fun channel_event :: "(nat \<Rightarrow> ipc_call \<Rightarrow> ipc_factory \<Rightarrow> ipc_factory) \<Rightarrow> ipc_event \<Rightarrow> ipc_channel \<Rightarrow> outcome" where
  "channel_event react (Call_wait c) ch = (if ch_phase ch = Idle then Next (execute_wait c ch) else Blocked)"
| "channel_event react (Call_completed c n) ch = (if ch_phase ch = Idle then Next (execute_completed c n ch) else Blocked)"
| "channel_event react (Launch still_open) ch =
     (case ch_phase ch of Armed c k \<Rightarrow> Next (launch still_open c k ch) | _ \<Rightarrow> Blocked)"
| "channel_event react (Wait_over timed_out) ch =
     (case ch_phase ch of
        Waiting c \<Rightarrow> if timed_out \<or> fc_signal (ch_factory ch) then Next (wait_over timed_out c ch) else Blocked
      | _ \<Rightarrow> Blocked)"
| "channel_event react (Answer c) ch = Next (report_response c ch)"
| "channel_event react (Header label) ch =
     (if ch_open ch \<and> ch_current ch = None then
        (case message_for label (ch_factory ch) of (f, m) \<Rightarrow> Next (ch\<lparr>ch_factory := f, ch_current := m\<rparr>))
      else Blocked)"
| "channel_event react Message ch =
     (case ch_current ch of
        Some m \<Rightarrow>
          if ch_open ch then (case received react m ch of None \<Rightarrow> Fault | Some ch \<Rightarrow> Next ch) else Blocked
      | None \<Rightarrow> Blocked)"
| "channel_event react Closes ch = Next (ch\<lparr>ch_open := False\<rparr>)"
| "channel_event react Opens ch = Next (ch\<lparr>ch_open := True\<rparr>)"
| "channel_event react Changes ch = (case state_change react ch of None \<Rightarrow> Fault | Some ch \<Rightarrow> Next ch)"

fun channel_run :: "(nat \<Rightarrow> ipc_call \<Rightarrow> ipc_factory \<Rightarrow> ipc_factory) \<Rightarrow> ipc_event list \<Rightarrow> ipc_channel \<Rightarrow> outcome" where
  "channel_run react [] ch = Next ch"
| "channel_run react (e # es) ch = (case channel_event react e ch of Next ch \<Rightarrow> channel_run react es ch | r \<Rightarrow> r)"

end
