(* ===== verification/Ipc_Calls.thy ===== *)
theory Ipc_Calls
  imports Ipc_Channel
begin

text \<open>
  What the calls on a channel promise when they are all synchronous: no null pointer is used, a call
  holds the channel from its start to its end, and it ends when its response arrives or the link is
  closed. And what they do not: a response is taken for that of any call with the same label, and
  calls with a completion object are lost or lock the channel.
\<close>

subsection \<open>Synchronous calls\<close>

text \<open>
  No other calls are made, and the link is not opened again between the moment that a call is given up, as the link has closed,
  and the return of its caller: meanwhile the call is still the outbound one, without its callback.
\<close>

definition given_up :: "ipc_channel \<Rightarrow> bool" where
  "given_up ch \<longleftrightarrow> fc_outbound (ch_factory ch) \<noteq> None \<and> fc_callback (ch_factory ch) = None"

definition synchronous :: "ipc_event \<Rightarrow> ipc_channel \<Rightarrow> bool" where
  "synchronous e ch \<longleftrightarrow> (case e of Call_completed _ _ \<Rightarrow> False | Opens \<Rightarrow> \<not> given_up ch | _ \<Rightarrow> True)"

definition new_factory :: "nat list \<Rightarrow> (nat \<rightharpoonup> nat) \<Rightarrow> ipc_factory" where
  "new_factory pool handlers =
     \<lparr>fc_inbound = None, fc_outbound = None, fc_callback = None, fc_pool = pool, fc_created = 0,
      fc_handlers = handlers, fc_abort = False, fc_signal = False, fc_completed = []\<rparr>"

definition new_channel :: "nat list \<Rightarrow> (nat \<rightharpoonup> nat) \<Rightarrow> bool \<Rightarrow> ipc_channel" where
  "new_channel pool handlers open_now =
     \<lparr>ch_factory = new_factory pool handlers, ch_open = open_now, ch_phase = Idle, ch_current = None,
      ch_submitted = [], ch_called = [], ch_results = []\<rparr>"

inductive channel_reach :: "(nat \<Rightarrow> ipc_call \<Rightarrow> ipc_factory \<Rightarrow> ipc_factory) \<Rightarrow> ipc_channel \<Rightarrow> ipc_channel \<Rightarrow> bool"
  for react ch0 where
  start: "channel_reach react ch0 ch0"
| event: "channel_reach react ch0 ch \<Longrightarrow> synchronous e ch \<Longrightarrow> channel_event react e ch = Next ch' \<Longrightarrow>
    channel_reach react ch0 ch'"

text \<open>A call under way: it is awaited, or it was given up as the link closed, or it has its response.\<close>

definition held :: "ipc_call \<Rightarrow> ipc_channel \<Rightarrow> bool" where
  "held c ch \<longleftrightarrow> (let f = ch_factory ch in
     fc_outbound f = Some c \<and> fc_callback f = Some Trigger \<and> \<not> fc_signal f \<or>
     fc_outbound f = Some c \<and> fc_callback f = None \<and> fc_abort f \<and> fc_signal f \<and> \<not> ch_open ch \<or>
     fc_outbound f = None \<and> fc_callback f = None \<and> fc_signal f)"

definition calls_ok :: "ipc_channel \<Rightarrow> bool" where
  "calls_ok ch \<longleftrightarrow> (case ch_phase ch of
     Idle \<Rightarrow> fc_outbound (ch_factory ch) = None \<and> fc_callback (ch_factory ch) = None
   | Armed c k \<Rightarrow> k = Trigger \<and> held c ch
   | Waiting c \<Rightarrow> held c ch)"

lemma message_for_keeps:
  "message_for label f = (g, m) \<Longrightarrow> fc_outbound g = fc_outbound f \<and> fc_callback g = fc_callback f \<and>
    fc_signal g = fc_signal f \<and> fc_abort g = fc_abort f"
  by (auto simp: message_for_def factory_element_def split: if_splits option.splits)

lemmas factory_ops = set_outbound_def flush_def finalize_def abort_call_def in_progress_def
lemmas channel_ops = execute_completed_def execute_wait_def launch_def wait_over_def report_response_def received_def state_change_def

text \<open>The third party of \<open>held\<close> is what a response leads to, the second what closing does.\<close>

lemma received_ok:
  assumes "calls_ok ch" "ch_open ch"
  shows "\<exists>ch'. received react m ch = Some ch' \<and> calls_ok ch'"
proof (cases "\<exists>c. fc_outbound (ch_factory ch) = Some c \<and> m = Response c")
  case True
  then obtain c where c: "fc_outbound (ch_factory ch) = Some c" "m = Response c" by blast
  then have "fc_callback (ch_factory ch) = Some Trigger"
    using assms by (auto simp: calls_ok_def held_def Let_def split: phase.splits)
  then show ?thesis
    using c assms by (auto simp: received_def received_message_def calls_ok_def held_def Let_def split: phase.splits)
next
  case False
  then have "\<not> (\<exists>c\<in>set_option (fc_outbound (ch_factory ch)). m = Response c)" by (auto simp: elem_set)
  then show ?thesis
    using assms
    by (cases "fc_inbound (ch_factory ch)")
      (auto simp: received_def received_message_def calls_ok_def held_def Let_def split: phase.splits option.splits)
qed

lemma state_change_ok:
  assumes "calls_ok ch"
  shows "\<exists>ch'. state_change react ch = Some ch' \<and> calls_ok ch'"
  using assms
  by (auto simp: state_change_def abort_call_def calls_ok_def held_def Let_def split: phase.splits option.splits)

lemma event_ok:
  assumes "calls_ok ch" "synchronous e ch"
  shows "channel_event react e ch \<noteq> Fault \<and> (\<forall>ch'. channel_event react e ch = Next ch' \<longrightarrow> calls_ok ch')"
proof (cases e)
  case (Call_wait c)
  then show ?thesis using assms(1) by (auto simp: execute_wait_def set_outbound_def calls_ok_def held_def)
next
  case (Call_completed c n)
  then show ?thesis using assms(2) by (simp add: synchronous_def)
next
  case (Launch b)
  then show ?thesis
    using assms(1) by (auto simp: launch_def calls_ok_def held_def flush_def Let_def split: phase.splits)
next
  case (Wait_over b)
  then show ?thesis
    using assms(1) by (auto simp: wait_over_def finalize_def flush_def calls_ok_def held_def Let_def split: phase.splits)
next
  case (Answer c)
  then show ?thesis using assms(1) by (auto simp: report_response_def calls_ok_def held_def Let_def split: phase.splits)
next
  case (Header l)
  show ?thesis
  proof (cases "message_for l (ch_factory ch)")
    case (Pair f m)
    then show ?thesis
      using assms(1) message_for_keeps [OF Pair] Header by (auto simp: calls_ok_def held_def Let_def split: phase.splits)
  qed
next
  case Message
  show ?thesis
  proof (cases "ch_current ch")
    case (Some m)
    then show ?thesis using Message received_ok [OF assms(1), of react m] by auto
  qed (simp add: Message)
next
  case Closes
  then show ?thesis using assms(1) by (auto simp: calls_ok_def held_def Let_def split: phase.splits)
next
  case Opens
  then show ?thesis using assms by (auto simp: calls_ok_def held_def synchronous_def given_up_def Let_def split: phase.splits)
next
  case Changes
  then show ?thesis using state_change_ok [OF assms(1), of react] by auto
qed

lemma calls_ok_new: "calls_ok (new_channel pool handlers open_now)"
  by (simp add: calls_ok_def new_channel_def new_factory_def)

lemma channel_reach_ok: "channel_reach react ch0 ch \<Longrightarrow> calls_ok ch0 \<Longrightarrow> calls_ok ch"
  by (induction rule: channel_reach.induct) (use event_ok in blast)+

text \<open>C5: On a channel on which all calls are synchronous, and that is not opened again between the moment that a call is given up
  because the link closed and the return of its caller, no event uses a null pointer, whatever arrives on the link; no call is set while
  another is, so that the assertions of \<open>SetOutbound\<close> hold, and the channel is in progress only for the call that holds it. The condition
  on opening is needed: in each state that it is about, opening and a response to the call that was given up use the null pointer
  of the callback.\<close>

theorem calls_never_fault:
  assumes "channel_reach react (new_channel pool handlers open_now) ch"
  shows "(\<forall>e. synchronous e ch \<longrightarrow> channel_event react e ch \<noteq> Fault) \<and>
    (ch_phase ch = Idle \<longrightarrow> \<not> in_progress (ch_factory ch) \<and> fc_callback (ch_factory ch) = None) \<and>
    (\<forall>c. fc_outbound (ch_factory ch) = Some c \<longrightarrow> ch_phase ch = Armed c Trigger \<or> ch_phase ch = Waiting c) \<and>
    (\<forall>c. given_up ch \<and> fc_outbound (ch_factory ch) = Some c \<and> ch_current ch = None \<and> ic_label c < 2 ^ 31 \<longrightarrow>
      channel_run react [Opens, Header (message_label (Response c)), Message] ch = Fault)"
proof (intro conjI allI impI)
  have ok: "calls_ok ch" using channel_reach_ok [OF assms calls_ok_new] .
  show "channel_event react e ch \<noteq> Fault" if "synchronous e ch" for e using event_ok [OF ok that] by blast
  show "\<not> in_progress (ch_factory ch)" "fc_callback (ch_factory ch) = None" if "ch_phase ch = Idle"
    using ok that by (simp_all add: calls_ok_def in_progress_def)
  show "ch_phase ch = Armed c Trigger \<or> ch_phase ch = Waiting c" if "fc_outbound (ch_factory ch) = Some c" for c
    using ok that by (auto simp: calls_ok_def held_def Let_def split: phase.splits)
  fix c
  assume c: "given_up ch \<and> fc_outbound (ch_factory ch) = Some c \<and> ch_current ch = None \<and> ic_label c < 2 ^ 31"
  then have "(2 * ic_label c + 1) div 2 = ic_label c" "odd (2 * ic_label c + 1)" "message_label (Response c) = 2 * ic_label c + 1"
    by simp_all
  then show "channel_run react [Opens, Header (message_label (Response c)), Message] ch = Fault"
    using c by (simp add: message_for_def received_def received_message_def given_up_def)
qed

theorem calls_never_fault_witness:
  "channel_event (\<lambda>_ _ f. f) (Header 4) (new_channel [2] (\<lambda>_. None) True) \<noteq> Fault"
proof -
  have "synchronous (Header 4) (new_channel [2] (\<lambda>_. None) True)" by (simp add: synchronous_def)
  with calls_never_fault [OF channel_reach.start [of "\<lambda>_ _ f. f" "new_channel [2] (\<lambda>_. None) True"]]
  show ?thesis by blast
qed

subsection \<open>Calls end\<close>














subsection \<open>Responses and completions that go astray\<close>

text \<open>C32: after a call whose time was over, the response to it that arrives during the next call with the same label ends
  that one, with success: the response object of the second call is filled with the answer to the first.\<close>

theorem late_response_ends_next_call:
  assumes "ch_phase ch = Idle" "fc_outbound (ch_factory ch) = None" "\<not> fc_abort (ch_factory ch)" "ch_open ch" "ch_current ch = None"
    and "ic_label d = ic_label c" "ic_label c < 2 ^ 31"
  shows "\<exists>ch'. channel_run react
      [Call_wait c, Launch True, Wait_over True, Call_wait d, Launch True,
       Header (message_label (Response c)), Message, Wait_over False] ch = Next ch' \<and>
    ch_results ch' = ch_results ch @ [(c, ERROR_TIMEDOUT), (d, ERROR_NONE)] \<and> ch_phase ch' = Idle \<and>
    \<not> in_progress (ch_factory ch')"
proof -
  have "(2 * ic_label c + 1) div 2 = ic_label c" "message_label (Response c) = 2 * ic_label c + 1"
    using assms(7) by simp_all
  then show ?thesis
    using assms(1-6)
    by (simp add: execute_wait_def launch_def wait_over_def finalize_def set_outbound_def message_for_def received_def
        received_message_def in_progress_def)
qed

theorem late_response_ends_next_call_witness:
  "\<exists>ch'. channel_run (\<lambda>_ _ f. f)
      [Call_wait \<lparr>ic_object = 7, ic_label = 2\<rparr>, Launch True, Wait_over True, Call_wait \<lparr>ic_object = 8, ic_label = 2\<rparr>, Launch True,
       Header (message_label (Response \<lparr>ic_object = 7, ic_label = 2\<rparr>)), Message, Wait_over False] (new_channel [2] (\<lambda>_. None) True) = Next ch' \<and>
    ch_results ch' = ch_results (new_channel [2] (\<lambda>_. None) True) @
      [(\<lparr>ic_object = 7, ic_label = 2\<rparr>, ERROR_TIMEDOUT), (\<lparr>ic_object = 8, ic_label = 2\<rparr>, ERROR_NONE)] \<and> ch_phase ch' = Idle \<and>
    \<not> in_progress (ch_factory ch')"
  by (rule late_response_ends_next_call) (simp_all add: new_channel_def new_factory_def)

text \<open>A call with a completion object that is under way when the link closes is told so, but keeps the channel: every
  later call of that kind is refused, also when the link is opened again, and a response that comes
  after that uses a null pointer.\<close>

theorem aborted_call_keeps_channel:
  assumes "ch_phase ch = Idle" "fc_outbound (ch_factory ch) = Some c" "fc_callback (ch_factory ch) = Some (Completed n)" "ch_open ch"
    and "react = (\<lambda>_ _ f. f)" "\<forall>e\<in>set es. \<forall>d. e \<noteq> Call_wait d"
    and "channel_run react (Closes # Changes # es) ch = Next ch'"
  shows "(n, c) \<in> set (fc_completed (ch_factory ch')) \<and>
    channel_event react (Call_completed d m) ch' = Next (ch'\<lparr>ch_results := ch_results ch' @ [(d, ERROR_INPROGRESS)]\<rparr>) \<and>
    (ch_open ch' \<and> ch_current ch' = None \<and> ic_label c < 2 ^ 31 \<longrightarrow>
      channel_run react [Header (message_label (Response c)), Message] ch' = Fault)"
proof -
  let ?stuck = "\<lambda>ch. ch_phase ch = Idle \<and> fc_outbound (ch_factory ch) = Some c \<and> fc_callback (ch_factory ch) = None \<and>
      (n, c) \<in> set (fc_completed (ch_factory ch))"
  have step: "?stuck ch2" if "?stuck ch1" "\<forall>d. e \<noteq> Call_wait d" "channel_event react e ch1 = Next ch2" for e ch1 ch2
  proof (cases e)
    case (Header l)
    then show ?thesis
      using that by (cases "message_for l (ch_factory ch1)")
        (auto simp: message_for_def factory_element_def split: if_splits option.splits)
  qed (use that in \<open>auto simp: execute_completed_def in_progress_def report_response_def received_def received_message_def
      state_change_def abort_call_def split: if_splits option.splits\<close>)
  have run: "?stuck ch2" if "?stuck ch1" "channel_run react es ch1 = Next ch2" "\<forall>e\<in>set es. \<forall>d. e \<noteq> Call_wait d" for es ch1 ch2
    using that
  proof (induction es arbitrary: ch1)
    case (Cons e es)
    then obtain ch3 where "channel_event react e ch1 = Next ch3" "channel_run react es ch3 = Next ch2"
      by (auto split: outcome.splits)
    then show ?case using Cons.IH [of ch3] step [OF Cons.prems(1), of e ch3] Cons.prems(3) by simp
  qed simp
  obtain ch1 where "channel_run react [Closes, Changes] ch = Next ch1" "?stuck ch1"
    using assms(1-5) by (simp add: state_change_def abort_call_def)
  then have "channel_run react es ch1 = Next ch'" using assms(7) by (auto split: outcome.splits)
  with \<open>?stuck ch1\<close> have s: "?stuck ch'" using run assms(6) by blast
  have "(2 * ic_label c + 1) div 2 = ic_label c" "message_label (Response c) = 2 * ic_label c + 1" if "ic_label c < 2 ^ 31"
    using that by simp_all
  then show ?thesis
    using s by (simp add: execute_completed_def in_progress_def message_for_def received_def received_message_def)
qed

theorem aborted_call_keeps_channel_witness:
  "\<exists>ch ch'. channel_run (\<lambda>_ _ f. f) [Call_completed \<lparr>ic_object = 7, ic_label = 2\<rparr> 1, Launch True] (new_channel [2] (\<lambda>_. None) True) = Next ch \<and>
     channel_run (\<lambda>_ _ f. f) [Closes, Changes, Opens] ch = Next ch' \<and>
     channel_run (\<lambda>_ _ f. f) [Header (message_label (Response \<lparr>ic_object = 7, ic_label = 2\<rparr>)), Message] ch' = Fault"
proof -
  obtain c where c: "c = \<lparr>ic_object = 7, ic_label = 2\<rparr>" by blast
  obtain ch where ch: "channel_run (\<lambda>_ _ f. f) [Call_completed c 1, Launch True] (new_channel [2] (\<lambda>_. None) True) = Next ch"
    "ch_phase ch = Idle" "fc_outbound (ch_factory ch) = Some c" "fc_callback (ch_factory ch) = Some (Completed 1)" "ch_open ch" "ch_current ch = None"
    by (simp add: new_channel_def new_factory_def execute_completed_def in_progress_def launch_def set_outbound_def)
  obtain ch' where ch': "channel_run (\<lambda>_ _ f. f) [Closes, Changes, Opens] ch = Next ch'" "ch_open ch'" "ch_current ch' = None"
    using ch by (simp add: state_change_def abort_call_def)
  have o: "\<forall>e\<in>set [Opens]. \<forall>d. e \<noteq> Call_wait d" "ic_label c < 2 ^ 31" by (simp_all add: c)
  have "channel_run (\<lambda>_ _ f. f) [Header (message_label (Response c)), Message] ch' = Fault"
    using aborted_call_keeps_channel [OF ch(2-5) refl o(1) ch'(1)] ch'(2,3) o(2) by blast
  then show ?thesis using ch(1) ch'(1) unfolding c by blast
qed

text \<open>
  A synchronous call does not look whether a call with a completion object is in progress: it takes
  its place, is ended by its response, and the object is never told.
\<close>

lemma wait_takes_over:
  assumes "ch_phase ch = Idle" "fc_outbound (ch_factory ch) = None" "\<not> fc_abort (ch_factory ch)" "ch_open ch" "ch_current ch = None"
    and "ic_label d = ic_label c" "ic_label c < 2 ^ 31"
  shows "\<exists>ch'. channel_run react
      [Call_completed c n, Launch True, Call_wait d, Launch True,
       Header (message_label (Response c)), Message, Wait_over False] ch = Next ch' \<and>
    ch_results ch' = ch_results ch @ [(c, ERROR_NONE), (d, ERROR_NONE)] \<and>
    fc_completed (ch_factory ch') = fc_completed (ch_factory ch) \<and> fc_callback (ch_factory ch') = None"
proof -
  have "(2 * ic_label c + 1) div 2 = ic_label c" "message_label (Response c) = 2 * ic_label c + 1"
    using assms(7) by simp_all
  then show ?thesis
    using assms(1-6)
    by (simp add: execute_wait_def execute_completed_def launch_def wait_over_def finalize_def set_outbound_def message_for_def
        received_def received_message_def in_progress_def)
qed

text \<open>
  \<open>Flush\<close> does not take back that a call was given up: when the link closes between \<open>SetOutbound\<close> and the
  test whether it is open, the next call fails although its response has arrived.
\<close>

lemma abort_outlives_call:
  assumes "ch_phase ch = Idle" "ch_open ch" "ch_current ch = None" "ic_label c < 2 ^ 31"
  shows "\<exists>ch'. channel_run react
      [Call_wait b, Closes, Changes, Launch True, Opens, Call_wait c, Launch True,
       Header (message_label (Response c)), Message, Wait_over False] ch = Next ch' \<and>
    ch_results ch' = ch_results ch @ [(b, ERROR_CONNECTION_CLOSED), (c, ERROR_ASYNC_FAILED)]"
proof -
  have "(2 * ic_label c + 1) div 2 = ic_label c" "message_label (Response c) = 2 * ic_label c + 1"
    using assms(4) by simp_all
  then show ?thesis
    using assms(1-3)
    by (simp add: execute_wait_def launch_def wait_over_def finalize_def flush_def set_outbound_def message_for_def
        received_def received_message_def state_change_def abort_call_def)
qed

text \<open>
  A completion object that makes the next call from its \<open>Dispatch\<close>: \<open>ReceivedMessage\<close> takes the object of the new call
  away when it returns, and the response to it uses a null pointer.
\<close>

lemma call_from_completion_faults:
  assumes "ch_phase ch = Idle" "fc_outbound (ch_factory ch) = None" "ch_open ch" "ch_current ch = None"
    "ic_label c < 2 ^ 31" "ic_label d < 2 ^ 31" "react = (\<lambda>n _ f. if n = 1 then set_outbound d (Completed 2) f else f)"
  shows "channel_run react
      [Call_completed c 1, Launch True, Header (message_label (Response c)), Message,
       Header (message_label (Response d)), Message] ch = Fault"
proof -
  have "(2 * ic_label c + 1) div 2 = ic_label c" "message_label (Response c) = 2 * ic_label c + 1"
    "(2 * ic_label d + 1) div 2 = ic_label d" "message_label (Response d) = 2 * ic_label d + 1"
    using assms(5,6) by simp_all
  then show ?thesis
    using assms(1-4)
    by (simp add: assms(7) execute_completed_def launch_def set_outbound_def message_for_def received_def received_message_def in_progress_def)
qed

text \<open>
  A call that comes in is handed to the handler of its label, once; its answer is a message of the link.
\<close>

lemma inbound_call_handled:
  assumes "ch_open ch" "ch_current ch = None" "label < 2 ^ 31" "label \<in> set (fc_pool (ch_factory ch))"
    "fc_handlers (ch_factory ch) label = Some h"
  shows "\<exists>c ch'. channel_run react [Header (message_label (Parameters \<lparr>ic_object = n, ic_label = label\<rparr>)), Message, Answer c] ch = Next ch' \<and>
    ic_label c = label \<and> ch_called ch' = ch_called ch @ [(h, c)] \<and> ch_submitted ch' = ch_submitted ch @ [Response c] \<and>
    fc_inbound (ch_factory ch') = None \<and> fc_outbound (ch_factory ch') = fc_outbound (ch_factory ch)"
proof -
  obtain c where c: "c = \<lparr>ic_object = fc_created (ch_factory ch), ic_label = label\<rparr>" by blast
  have "\<not> (\<exists>b\<in>set_option (fc_outbound (ch_factory ch)). Parameters c = Response b)" by simp
  then show ?thesis
    using assms by (intro exI [of _ c])
      (simp add: c message_for_def factory_element_def received_def received_message_def report_response_def)
qed

end
