(* ===== verification/Json_Element.thy ===== *)
theory Json_Element
  imports Prelude
begin

text \<open>
  \<open>JSON::IElement\<close> of \<^verbatim>\<open>Source/core/JSON.h\<close>: an element writes and reads its text in parts, with an offset
  that says how far it is, and \<open>ToString\<close> and \<open>FromString\<close> drive it over a whole text. The contract of
  an element is a locale; it gives the round trip over whole texts once for all elements.
\<close>

subsection \<open>Errors and characters\<close>

text \<open>The messages of the errors that elements report.\<close>

datatype json_error =
    Nesting_too_deep | Expected_square_bracket | Expected_curly_bracket | Control_character | Unknown_escape
  | Not_hexadecimal | No_code_point | Unsupported_character u8 | Integer_overflow | Malformed
  | Invalid_value | Element_expected | Unexpected_character u8 | Value_expected | Unexpected_colon | Colon_expected | Key_not_quoted

text \<open>\<^verbatim>\<open>NullTag\<close>\<close>

definition null_tag :: "u8 list" where "null_tag = [110, 117, 108, 108]"

text \<open>The classes of characters of the \<^verbatim>\<open>C\<close> locale.\<close>

definition is_space :: "u8 \<Rightarrow> bool" where
  "is_space c \<longleftrightarrow> 9 \<le> c \<and> c \<le> 13 \<or> c = 32"

definition is_print :: "u8 \<Rightarrow> bool" where
  "is_print c \<longleftrightarrow> 32 \<le> c \<and> c \<le> 126"

definition is_digit :: "u8 \<Rightarrow> bool" where
  "is_digit c \<longleftrightarrow> 48 \<le> c \<and> c \<le> 57"

definition to_upper :: "u8 \<Rightarrow> u8" where
  "to_upper c = (if 97 \<le> c \<and> c \<le> 122 then c - 32 else c)"

definition is_xdigit :: "u8 \<Rightarrow> bool" where
  "is_xdigit c \<longleftrightarrow> is_digit c \<or> 65 \<le> to_upper c \<and> to_upper c \<le> 70"

subsection \<open>Whole texts\<close>

text \<open>
  Serializing returns the bytes written, the element, whose position inside a character is part of
  it, and the offset; deserializing the number of bytes handled, the element, the offset and the error.
\<close>

type_synonym 'e json_writer = "'e \<Rightarrow> nat \<Rightarrow> nat \<Rightarrow> u8 list \<times> 'e \<times> nat"
type_synonym 'e json_reader = "'e \<Rightarrow> u8 list \<Rightarrow> nat \<Rightarrow> nat \<times> 'e \<times> nat \<times> json_error option"

partial_function (option) to_string_loop :: "'e json_writer \<Rightarrow> 'e \<Rightarrow> nat \<Rightarrow> u8 list \<Rightarrow> (bool \<times> u8 list \<times> 'e) option" where
  "to_string_loop ser e offset result =
     (case ser e 1024 offset of
        (bs, e, offset) \<Rightarrow>
          if offset \<noteq> 0 \<and> length bs = 1024 then to_string_loop ser e offset (result @ bs)
          else Some (offset = 0, result @ bs, e))"

definition to_string :: "'e json_writer \<Rightarrow> 'e \<Rightarrow> (bool \<times> u8 list \<times> 'e) option" where
  "to_string ser e = to_string_loop ser e 0 []"

text \<open>The text with its terminating zero; at most 65535 bytes are handed over at a time.\<close>

function from_string_loop :: "'e json_reader \<Rightarrow> u8 list \<Rightarrow> nat \<Rightarrow> nat \<Rightarrow> 'e \<Rightarrow> nat \<times> 'e \<times> nat \<times> json_error option" where
  "from_string_loop des chars handled offset e =
     (if handled < length chars then
        (case des e (take (min (length chars - handled + 1) 65535) (drop handled (chars @ [0]))) offset of
           (loaded, e, offset, error) \<Rightarrow>
             if error \<noteq> None \<or> loaded = 0 then (handled + loaded, e, offset, error)
             else from_string_loop des chars (handled + loaded) offset e)
      else (handled, e, offset, None))"
  by pat_completeness auto
termination by (relation "measure (\<lambda>(des, chars, handled, offset, e). length chars - handled)") auto

declare from_string_loop.simps [simp del]

definition from_string :: "'e json_reader \<Rightarrow> ('e \<Rightarrow> 'e) \<Rightarrow> u8 list \<Rightarrow> 'e \<Rightarrow> json_error option \<times> 'e" where
  "from_string des clear chars e =
     (case from_string_loop des chars 0 0 (clear e) of
        (handled, e, offset, error) \<Rightarrow>
          let error = (if (offset \<noteq> 0 \<or> handled < length chars) \<and> error = None then Some Malformed else error)
          in (error, if error = None then e else clear e))"

text \<open>Parts: how a stream fills buffers until an element is complete, and hands over what arrives.\<close>

fun write_parts :: "'e json_writer \<Rightarrow> nat list \<Rightarrow> 'e \<Rightarrow> nat \<Rightarrow> u8 list list \<times> 'e \<times> nat" where
  "write_parts ser [] e offset = ([], e, offset)"
| "write_parts ser (n # ns) e offset =
     (case ser e n offset of
        (bs, e, offset) \<Rightarrow>
          if offset = 0 then ([bs], e, 0)
          else (case write_parts ser ns e offset of (bss, e, offset) \<Rightarrow> (bs # bss, e, offset)))"

fun read_parts :: "'e json_reader \<Rightarrow> u8 list list \<Rightarrow> 'e \<Rightarrow> nat \<Rightarrow> ('e \<times> nat) option" where
  "read_parts des [] e offset = Some (e, offset)"
| "read_parts des (cs # css) e offset =
     (case des e cs offset of
        (n, e, offset, error) \<Rightarrow> if error = None \<and> n = length cs then read_parts des css e offset else None)"

subsection \<open>The contract of an element\<close>

text \<open>
  \<open>json v\<close> is the text of a value and \<open>holds e v\<close> says that \<open>e\<close> has it. \<open>writes e offset rest\<close> and
  \<open>reads v e offset rest\<close>: with this offset the rest of the text is to be written, or expected. A value
  is complete with the character behind it, which ends a number.
\<close>

definition ends_value :: "u8 \<Rightarrow> bool" where
  "ends_value c \<longleftrightarrow> c = 0 \<or> c = 44 \<or> c = 93 \<or> c = 125 \<or> is_space c"

lemma cut_text:
  assumes "cs @ rest = r @ s"
  obtains (inside) us where "r = cs @ us" "rest = us @ s" | (beyond) us where "cs = r @ us" "us @ rest = s" "us \<noteq> []"
  using assms that by (auto simp: append_eq_append_conv2) (metis append_Nil append_Nil2)

locale json_steps =
  fixes json :: "'v \<Rightarrow> u8 list"
    and holds :: "'e \<Rightarrow> 'v \<Rightarrow> bool"
    and ser :: "'e json_writer"
    and writes :: "'e \<Rightarrow> nat \<Rightarrow> u8 list \<Rightarrow> bool"
    and des :: "'e json_reader"
    and ready :: "'v \<Rightarrow> bool"
    and reads :: "'v \<Rightarrow> 'e \<Rightarrow> nat \<Rightarrow> u8 list \<Rightarrow> bool"
  assumes json_begins: "ready v \<Longrightarrow> \<exists>c cs. json v = c # cs \<and> \<not> ends_value c"
    and writes_start: "ready v \<Longrightarrow> holds e v \<Longrightarrow> writes e 0 (json v)"
    and writes_part: "writes e offset rest \<Longrightarrow> 0 < n \<Longrightarrow> \<exists>e' offset'. ser e n offset = (take n rest, e', offset') \<and>
      (offset' = 0 \<and> length rest \<le> n \<or> offset' \<noteq> 0 \<and> n \<le> length rest \<and> writes e' offset' (drop n rest))"
    and reads_part: "reads v e offset (cs @ rest) \<Longrightarrow> cs \<noteq> [] \<Longrightarrow> \<exists>e' offset'. des e cs offset = (length cs, e', offset', None) \<and>
      (offset' = 0 \<and> rest = [] \<and> holds e' v \<or> offset' \<noteq> 0 \<and> reads v e' offset' rest)"
    and reads_end: "reads v e offset rest \<Longrightarrow> ends_value t \<Longrightarrow>
      \<exists>e'. des e (rest @ t # more) offset = (length rest, e', 0, None) \<and> holds e' v"
begin

lemma json_not_Nil: "ready v \<Longrightarrow> json v \<noteq> []"
  using json_begins by fastforce

lemma reads_part_open:
  assumes "reads v e offset (cs @ rest)" "cs \<noteq> []" "rest \<noteq> []"
  shows "\<exists>e' offset'. des e cs offset = (length cs, e', offset', None) \<and> offset' \<noteq> 0 \<and> reads v e' offset' rest"
  using reads_part [OF assms(1,2)] assms(3) by blast

lemma to_string_loop_writes:
  "writes e offset rest \<Longrightarrow> \<exists>e'. to_string_loop ser e offset result = Some (True, result @ rest, e')"
proof (induction "length rest" arbitrary: e offset rest result rule: less_induct)
  case less
  obtain e' offset' where s: "ser e 1024 offset = (take 1024 rest, e', offset')"
    "offset' = 0 \<and> length rest \<le> 1024 \<or> offset' \<noteq> 0 \<and> 1024 \<le> length rest \<and> writes e' offset' (drop 1024 rest)"
    using writes_part [OF less.prems, of 1024] by auto
  show ?case
  proof (cases "offset' = 0")
    case True
    then show ?thesis using s by (subst to_string_loop.simps) simp
  next
    case False
    then have "length (drop 1024 rest) < length rest" "writes e' offset' (drop 1024 rest)" using s(2) by auto
    from less.hyps [OF this, of "result @ take 1024 rest"] show ?thesis
      using s False by (subst to_string_loop.simps) (auto simp: min_absorb2)
  qed
qed

lemma to_string_writes: "ready v \<Longrightarrow> holds e v \<Longrightarrow> \<exists>e'. to_string ser e = Some (True, json v, e')"
  using to_string_loop_writes [OF writes_start, of v e "[]"] by (simp add: to_string_def)

text \<open>\<^verbatim>\<open>FromString\<close>: the end of a text must not be the end of what is handed over.\<close>

lemma from_string_loop_reads:
  assumes "reads v e offset (drop handled chars)" "handled < length chars" "(length chars - handled) mod 65535 \<noteq> 0"
  shows "\<exists>e'. from_string_loop des chars handled offset e = (length chars, e', 0, None) \<and> holds e' v"
  using assms
proof (induction "length chars - handled" arbitrary: handled offset e rule: less_induct)
  case less
  let ?rest = "drop handled chars"
  have d: "drop handled (chars @ [0]) = ?rest @ [0]" using less.prems(2) by simp
  show ?case
  proof (cases "length chars - handled < 65535")
    case True
    then have "take (min (length chars - handled + 1) 65535) (drop handled (chars @ [0])) = ?rest @ 0 # []"
      unfolding d by simp
    moreover have "ends_value 0" by (simp add: ends_value_def)
    then obtain e' where "des e (?rest @ 0 # []) offset = (length ?rest, e', 0, None)" "holds e' v"
      using reads_end [OF less.prems(1), of 0 "[]"] by auto
    ultimately show ?thesis
      using less.prems(2)
      by (subst from_string_loop.simps) (simp add: from_string_loop.simps [of des chars "length chars"])
  next
    case False
    with less.prems(3) have l: "65535 < length chars - handled" by (cases "length chars - handled = 65535") auto
    have t: "take (min (length chars - handled + 1) 65535) (drop handled (chars @ [0])) = take 65535 ?rest"
      using l by (simp add: d)
    have "?rest = take 65535 ?rest @ drop (handled + 65535) chars"
      by (metis append_take_drop_id drop_drop add.commute)
    with less.prems(1) have r: "reads v e offset (take 65535 ?rest @ drop (handled + 65535) chars)" by metis
    have "take 65535 ?rest \<noteq> []" "drop (handled + 65535) chars \<noteq> []" using l by auto
    from reads_part_open [OF r this] obtain e1 offset1 where
      1: "des e (take 65535 ?rest) offset = (65535, e1, offset1, None)" "reads v e1 offset1 (drop (handled + 65535) chars)"
      using l by auto
    have m: "(length chars - (handled + 65535)) mod 65535 = (length chars - handled) mod 65535"
      using l by (simp add: diff_diff_left [symmetric] le_mod_geq del: diff_diff_left)
    then have "\<exists>e'. from_string_loop des chars (handled + 65535) offset1 e1 = (length chars, e', 0, None) \<and> holds e' v"
      using l 1(2) less.prems(3) by (intro less.hyps) auto
    then show ?thesis using less.prems(2) t 1(1) by (subst from_string_loop.simps) simp
  qed
qed

lemma from_string_from:
  assumes "ready v" "reads v (clear e) 0 (json v)" "length (json v) mod 65535 \<noteq> 0"
  shows "\<exists>e'. from_string des clear (json v) e = (None, e') \<and> holds e' v"
proof -
  have "json v \<noteq> []" "reads v (clear e) 0 (drop 0 (json v))" using json_not_Nil assms(1,2) by simp_all
  then obtain e' where "from_string_loop des (json v) 0 0 (clear e) = (length (json v), e', 0, None)" "holds e' v"
    using from_string_loop_reads [of v "clear e" 0 0 "json v"] assms(3) by auto
  then show ?thesis by (simp add: from_string_def)
qed

text \<open>Parts of any size, as a stream asks for them and hands them over.\<close>

lemma write_parts_writes:
  "writes e offset rest \<Longrightarrow> \<forall>n\<in>set ns. 0 < n \<Longrightarrow> length rest < sum_list ns \<Longrightarrow>
    \<exists>bss e'. write_parts ser ns e offset = (bss, e', 0) \<and> concat bss = rest"
proof (induction ns arbitrary: e offset rest)
  case (Cons n ns)
  obtain e1 offset1 where 1: "ser e n offset = (take n rest, e1, offset1)"
    "offset1 = 0 \<and> length rest \<le> n \<or> offset1 \<noteq> 0 \<and> n \<le> length rest \<and> writes e1 offset1 (drop n rest)"
    using writes_part [OF Cons.prems(1), of n] Cons.prems(2) by auto
  show ?case
  proof (cases "offset1 = 0")
    case True
    then show ?thesis using 1 by simp
  next
    case False
    then have w: "writes e1 offset1 (drop n rest)" "n \<le> length rest" using 1(2) by auto
    then have "length (drop n rest) < sum_list ns" using Cons.prems(3) by simp
    from Cons.IH [OF w(1) _ this] Cons.prems(2) obtain bss e' where
      "write_parts ser ns e1 offset1 = (bss, e', 0)" "concat bss = drop n rest" by auto
    then show ?thesis using 1(1) False by simp
  qed
qed simp

lemma read_parts_reads:
  "reads v e offset (concat css @ rest) \<Longrightarrow> [] \<notin> set css \<Longrightarrow> rest \<noteq> [] \<Longrightarrow>
    \<exists>e' offset'. read_parts des css e offset = Some (e', offset') \<and> reads v e' offset' rest"
proof (induction css arbitrary: e offset)
  case (Cons cs css)
  have r: "reads v e offset (cs @ (concat css @ rest))" "cs \<noteq> []" "concat css @ rest \<noteq> []" using Cons.prems by auto
  from reads_part_open [OF this] obtain e1 offset1 where
    1: "des e cs offset = (length cs, e1, offset1, None)" "reads v e1 offset1 (concat css @ rest)" by blast
  then show ?case using Cons.IH [OF 1(2)] Cons.prems(2,3) by simp
qed simp

text \<open>Both together: any parts out, any parts in, the last one with the character that ends the value.\<close>

lemma parts_transfer_from:
  assumes "ready v" "holds e v" "reads v d 0 (json v)" "\<forall>n\<in>set ns. 0 < n" "length (json v) < sum_list ns"
    and "concat css @ last_part = json v" "[] \<notin> set css" "last_part \<noteq> []" "ends_value t"
  shows "\<exists>bss e1. write_parts ser ns e 0 = (bss, e1, 0) \<and> concat bss = concat css @ last_part \<and>
    (\<exists>e2 offset e3. read_parts des css d 0 = Some (e2, offset) \<and>
      des e2 (last_part @ t # more) offset = (length last_part, e3, 0, None) \<and> holds e3 v)"
proof -
  obtain bss e1 where w: "write_parts ser ns e 0 = (bss, e1, 0)" "concat bss = json v"
    using write_parts_writes [OF writes_start [OF assms(1,2)] assms(4,5)] by blast
  obtain e2 offset where r: "read_parts des css d 0 = Some (e2, offset)" "reads v e2 offset last_part"
    using read_parts_reads [of v d 0 css last_part] assms(3,6-8) by auto
  show ?thesis using w r reads_end [OF r(2) assms(9), of more] assms(6) by auto
qed

text \<open>One part, when other text follows: that of a container.\<close>

lemma writes_part_before:
  assumes "writes e offset r" "0 < n"
  shows "\<exists>m e' offset'. ser e n offset = (take m (r @ s), e', offset') \<and> m \<le> n \<and> m \<le> length r \<and>
    (offset' = 0 \<and> m = length r \<or> offset' \<noteq> 0 \<and> m = n \<and> writes e' offset' (drop m r))"
proof -
  obtain e' offset' where p: "ser e n offset = (take n r, e', offset')"
    "offset' = 0 \<and> length r \<le> n \<or> offset' \<noteq> 0 \<and> n \<le> length r \<and> writes e' offset' (drop n r)"
    using writes_part [OF assms] by blast
  show ?thesis
  proof (cases "offset' = 0")
    case True
    then show ?thesis using p by (intro exI [of _ "length r"] exI [of _ e'] exI [of _ offset']) auto
  next
    case False
    then show ?thesis using p by (intro exI [of _ n] exI [of _ e'] exI [of _ offset']) auto
  qed
qed

lemma item_part:
  assumes "reads v e off r" "cs @ rest = r @ t # ts" "ends_value t" "cs \<noteq> []"
  shows "\<exists>n e' off'. des e cs off = (n, e', off', None) \<and> n \<le> length cs \<and>
    (off' = 0 \<and> holds e' v \<and> n = length r \<and> drop n cs @ rest = t # ts \<or>
     off' \<noteq> 0 \<and> n = length cs \<and> (\<exists>r'. reads v e' off' r' \<and> rest = r' @ t # ts))"
  using assms(2)
proof (cases rule: cut_text)
  case (inside us)
  have "reads v e off (cs @ us)" using assms(1) inside(1) by simp
  from reads_part [OF this assms(4)] obtain e' off' where
    "des e cs off = (length cs, e', off', None)" "off' = 0 \<and> us = [] \<and> holds e' v \<or> off' \<noteq> 0 \<and> reads v e' off' us" by blast
  then show ?thesis using inside by auto
next
  case (beyond us)
  then obtain us' where u: "us = t # us'" by (cases us) auto
  from reads_end [OF assms(1,3), of us'] obtain e' where "des e (r @ t # us') off = (length r, e', 0, None)" "holds e' v" by blast
  then show ?thesis using beyond by (simp add: u)
qed

end

text \<open>An element that can be cleared and read into whatever it held.\<close>

locale json_element = json_steps json holds ser writes des ready reads
  for json :: "'v \<Rightarrow> u8 list"
    and holds :: "'e \<Rightarrow> 'v \<Rightarrow> bool"
    and ser :: "'e json_writer"
    and writes :: "'e \<Rightarrow> nat \<Rightarrow> u8 list \<Rightarrow> bool"
    and clear :: "'e \<Rightarrow> 'e"
    and des :: "'e json_reader"
    and ready :: "'v \<Rightarrow> bool"
    and reads :: "'v \<Rightarrow> 'e \<Rightarrow> nat \<Rightarrow> u8 list \<Rightarrow> bool" +
  assumes reads_start: "ready v \<Longrightarrow> reads v (clear e) 0 (json v)"
begin

lemma from_string_reads:
  assumes "ready v" "length (json v) mod 65535 \<noteq> 0"
  shows "\<exists>e'. from_string des clear (json v) e = (None, e') \<and> holds e' v"
  using from_string_from [where clear = clear, OF assms(1) reads_start [OF assms(1)] assms(2)] .

lemma parts_transfer:
  assumes "ready v" "holds e v" "\<forall>n\<in>set ns. 0 < n" "length (json v) < sum_list ns"
    and "concat css @ last_part = json v" "[] \<notin> set css" "last_part \<noteq> []" "ends_value t"
  shows "\<exists>bss e1. write_parts ser ns e 0 = (bss, e1, 0) \<and> concat bss = concat css @ last_part \<and>
    (\<exists>e2 offset e3. read_parts des css (clear d) 0 = Some (e2, offset) \<and>
      des e2 (last_part @ t # more) offset = (length last_part, e3, 0, None) \<and> holds e3 v)"
  by (rule parts_transfer_from [OF assms(1,2) reads_start [OF assms(1)] assms(3-8)])

end

text \<open>
  What a container needs of its elements beyond that: a new element can be read into, an element that has a
  value says so, and the offsets leave room for those of the container, which are added to them.
\<close>

locale json_member = json_element json holds ser writes clear des ready reads
  for json :: "'v \<Rightarrow> u8 list"
    and holds :: "'e \<Rightarrow> 'v \<Rightarrow> bool"
    and ser :: "'e json_writer"
    and writes :: "'e \<Rightarrow> nat \<Rightarrow> u8 list \<Rightarrow> bool"
    and clear :: "'e \<Rightarrow> 'e"
    and des :: "'e json_reader"
    and ready :: "'v \<Rightarrow> bool"
    and reads :: "'v \<Rightarrow> 'e \<Rightarrow> nat \<Rightarrow> u8 list \<Rightarrow> bool" +
  fixes fresh :: 'e and is_set :: "'e \<Rightarrow> bool" and top :: nat
  assumes fresh_reads: "ready v \<Longrightarrow> reads v fresh 0 (json v)"
    and holds_set: "holds e v \<Longrightarrow> is_set e"
    and writes_top: "writes e offset rest \<Longrightarrow> offset \<le> top"
    and reads_top: "reads v e offset rest \<Longrightarrow> offset \<le> top"

text \<open>
  What an object needs of its members, which are of several kinds: \<open>fits e v\<close> says that a value can be read into
  the element once it is cleared.
\<close>

locale json_field = json_steps json holds ser writes des ready reads
  for json :: "'v \<Rightarrow> u8 list"
    and holds :: "'e \<Rightarrow> 'v \<Rightarrow> bool"
    and ser :: "'e json_writer"
    and writes :: "'e \<Rightarrow> nat \<Rightarrow> u8 list \<Rightarrow> bool"
    and des :: "'e json_reader"
    and ready :: "'v \<Rightarrow> bool"
    and reads :: "'v \<Rightarrow> 'e \<Rightarrow> nat \<Rightarrow> u8 list \<Rightarrow> bool" +
  fixes clear :: "'e \<Rightarrow> 'e" and is_set :: "'e \<Rightarrow> bool" and fits :: "'e \<Rightarrow> 'v \<Rightarrow> bool" and top :: nat
  assumes no_colon: "ready v \<Longrightarrow> hd (json v) \<noteq> 58"
    and clear_reads: "ready v \<Longrightarrow> fits e v \<Longrightarrow> reads v (clear e) 0 (json v)"
    and clear_unset: "\<not> is_set (clear e)"
    and field_set: "holds e v \<Longrightarrow> is_set e"
    and writes_limit: "writes e offset rest \<Longrightarrow> offset \<le> top"
    and reads_limit: "reads v e offset rest \<Longrightarrow> offset \<le> top"

context json_member
begin

lemma member_field:
  assumes "\<And>e. \<not> is_set (clear e)" "\<And>v. ready v \<Longrightarrow> hd (json v) \<noteq> 58"
  shows "json_field json holds ser writes des ready reads clear is_set (\<lambda>e v. True) top"
  by unfold_locales (use assms reads_start holds_set writes_top reads_top in blast)+

end

end
