(* ===== verification/Json_String.thy ===== *)
theory Json_String
  imports Json_Element Serialization
begin

text \<open>
  \<open>JSON::String\<close> of \<^verbatim>\<open>Source/core/JSON.h\<close>: a string in quotes, with escapes, or an opaque piece of JSON
  that is kept as it is. The value is a list of bytes. The flags of \<^verbatim>\<open>_flagsAndCounters\<close> are separate
  fields here, \<open>js_counter\<close> is its low part: in a sequence being written the index of the next character
  of the escape and, from bit 3 on, the number of bytes it stands for; in one being read the number of hexadecimal digits
  to come; in an opaque piece the depth of the brackets. \<open>slash\<close> says whether a slash is escaped, which depends on
  the build.
\<close>

subsection \<open>The state\<close>

record json_string =
  js_default :: "u8 list"
  js_value :: "u8 list"
  js_storage :: u32
  js_counter :: nat
  js_quoted_area :: bool
  js_special :: bool
  js_quoted_serialize :: bool
  js_quote_found :: bool
  js_null :: bool
  js_set :: bool

definition new_string :: "u8 list \<Rightarrow> bool \<Rightarrow> json_string" where
  "new_string initial quoted =
     \<lparr>js_default = initial, js_value = [], js_storage = 0, js_counter = 0, js_quoted_area = False, js_special = False,
      js_quoted_serialize = quoted, js_quote_found = False, js_null = False, js_set = False\<rparr>"

text \<open>\<^verbatim>\<open>operator=\<close> for a string, \<^verbatim>\<open>c_str\<close> of it.\<close>

definition c_str :: "u8 list \<Rightarrow> u8 list" where
  "c_str bs = takeWhile (\<lambda>b. b \<noteq> 0) bs"

definition string_assign :: "u8 list \<Rightarrow> json_string \<Rightarrow> json_string" where
  "string_assign v s = s\<lparr>js_value := c_str v, js_set := True\<rparr>"

definition string_null :: "bool \<Rightarrow> json_string \<Rightarrow> json_string" where
  "string_null enabled s =
     (if enabled then s\<lparr>js_null := True, js_set := True, js_value := null_tag\<rparr>
      else s\<lparr>js_null := False, js_set := False, js_value := []\<rparr>)"

definition string_clear :: "json_string \<Rightarrow> json_string" where
  "string_clear s = s\<lparr>js_counter := 0, js_quoted_area := False, js_special := False, js_quote_found := False,
     js_null := False, js_set := False, js_value := []\<rparr>"

definition is_quoted :: "json_string \<Rightarrow> bool" where
  "is_quoted s \<longleftrightarrow> \<not> js_null s \<and> (js_quoted_serialize s \<or> js_quote_found s)"

definition set_quoted :: "bool \<Rightarrow> json_string \<Rightarrow> json_string" where
  "set_quoted enable s = s\<lparr>js_quoted_serialize := enable\<rparr>"

text \<open>\<open>Value\<close>; the bytes of \<open>ToQuotedString\<close>.\<close>

definition string_value :: "json_string \<Rightarrow> u8 list" where
  "string_value s =
     (if js_set s \<and> js_quote_found s \<and> \<not> js_quoted_serialize s
      then [34] @ concat (map (\<lambda>b. if b = 34 then [92, b] else [b]) (js_value s)) @ [34]
      else if js_set s \<and> \<not> js_null s then c_str (js_value s) else c_str (js_default s))"

subsection \<open>Writing\<close>

definition plain_char :: "bool \<Rightarrow> u8 \<Rightarrow> bool" where
  "plain_char slash c \<longleftrightarrow> is_print c \<and> c \<noteq> 34 \<and> c \<noteq> 92 \<and> (slash \<longrightarrow> c \<noteq> 47)"

definition short_escape :: "bool \<Rightarrow> u8 \<Rightarrow> u8 option" where
  "short_escape slash c =
     (if c = 8 then Some 98 else if c = 9 then Some 116 else if c = 10 then Some 110 else if c = 12 then Some 102
      else if c = 13 then Some 114 else if c = 92 then Some 92 else if slash \<and> c = 47 then Some 47
      else if c = 34 then Some 34 else None)"

definition nibble :: "nat \<Rightarrow> u32 \<Rightarrow> u8" where
  "nibble i v = (let part = drop_bit (4 * i) v AND 0xF in ucast (if 9 < part then 65 + (part - 10) else 48 + part))"

text \<open>
  What \<open>\u\<close> begins with: the code point at the position, with the number of bytes left cut to eight
  bits, and the number of bytes to go on by.
\<close>

definition start_unicode :: "nat \<Rightarrow> json_string \<Rightarrow> json_string" where
  "start_unicode pos s =
     (let left = length (js_value s) - (pos - 1) in
      case to_code_point (drop (pos - 1) (js_value s) @ [0]) (left mod 256) of
        (code_size, code_point) \<Rightarrow>
          (let code_size = (if code_size < 0 then (if nat (- code_size) \<le> left then - code_size else int left) else code_size) in
           case code_point_to_utf16 code_point of
             (_, low, high) \<Rightarrow>
               s\<lparr>js_storage := push_bit 16 (ucast high) OR ucast low, js_counter := js_counter s + (nat code_size mod 8 * 8 + 2)\<rparr>))"

text \<open>A digit of the escape, or the start of its second half.\<close>

definition unicode_char :: "nat \<Rightarrow> json_string \<Rightarrow> u8 \<times> json_string \<times> nat" where
  "unicode_char pos s =
     (let i = js_counter s mod 8;
          c = (if i < 2 then (if i = 0 then 92 else 117)
               else nibble (if 0xFFFF < js_storage s then 4 + (5 - i) else 5 - i) (js_storage s));
          s' = s\<lparr>js_counter := js_counter s + 1\<rparr>
      in if js_counter s' mod 8 \<noteq> 6 then (c, s', pos)
         else if 0xFFFF < js_storage s'
         then (c, s'\<lparr>js_storage := js_storage s' AND 0xFFFF, js_counter := js_counter s' - js_counter s' mod 8\<rparr>, pos)
         else (c, s'\<lparr>js_special := False, js_counter := 0\<rparr>, pos + js_counter s' div 8 mod 8))"

text \<open>One turn of the loop: a character.\<close>

definition write_char :: "bool \<Rightarrow> json_string \<Rightarrow> nat \<Rightarrow> u8 \<times> json_string \<times> nat" where
  "write_char slash s pos =
     (let current = js_value s ! (pos - 1)
      in if \<not> is_quoted s \<or> plain_char slash current then (current, s, pos + 1)
         else if \<not> js_special s then (92, s\<lparr>js_special := True\<rparr>, pos)
         else if js_counter s mod 256 = 0 then
           (case short_escape slash current of
              Some c \<Rightarrow> (c, s\<lparr>js_special := False\<rparr>, pos + 1)
            | None \<Rightarrow> (117, start_unicode pos s, pos))
         else unicode_char pos s)"

fun write_chars :: "bool \<Rightarrow> nat \<Rightarrow> json_string \<Rightarrow> nat \<Rightarrow> u8 list \<times> json_string \<times> nat" where
  "write_chars slash 0 s pos = ([], s, pos)"
| "write_chars slash (Suc room) s pos =
     (if length (js_value s) - (pos - 1) = 0 then ([], s, pos)
      else
        case write_char slash s pos of
          (c, s, pos) \<Rightarrow> (case write_chars slash room s pos of (cs, s, pos) \<Rightarrow> (c # cs, s, pos)))"

definition string_serialize :: "bool \<Rightarrow> json_string \<Rightarrow> nat \<Rightarrow> nat \<Rightarrow> u8 list \<times> json_string \<times> nat" where
  "string_serialize slash s max_length pos =
     (if js_set s \<or> js_value s = [] \<and> is_quoted s then
        (let (head, s, pos) =
               (if pos = 0
                then (if is_quoted s then [34] else [], s\<lparr>js_special := False, js_quoted_area := False, js_counter := 0\<rparr>, 1)
                else ([], s, pos))
         in case write_chars slash (max_length - length head) s pos of
              (cs, s, pos) \<Rightarrow>
                if 0 < length (js_value s) - (pos - 1) then (head @ cs, s, pos)
                else if \<not> is_quoted s then (head @ cs, s, 0)
                else if length (head @ cs) < max_length then (head @ cs @ [34], s, 0)
                else (head @ cs, s, pos))
      else ([], s, pos))"

subsection \<open>Reading\<close>

text \<open>Brackets of an opaque piece, \<open>True\<close> for square ones.\<close>

definition in_scope :: "bool \<Rightarrow> json_string \<Rightarrow> bool \<times> json_string" where
  "in_scope square s =
     (if (js_counter s mod 32 \<noteq> 0 \<or> js_value s = []) \<and> js_counter s mod 32 + 1 \<le> 31
      then (True, s\<lparr>js_storage := push_bit 1 (js_storage s) OR (if square then 1 else 0), js_counter := js_counter s + 1\<rparr>)
      else (False, s))"

definition out_scope :: "bool \<Rightarrow> json_string \<Rightarrow> bool \<times> json_string" where
  "out_scope square s =
     (if 0 < js_counter s mod 32 \<and> (js_storage s AND 1 = 1) = square
      then (True, s\<lparr>js_storage := drop_bit 1 (js_storage s), js_counter := js_counter s - 1\<rparr>) else (False, s))"

text \<open>Whether the quote at the end of the value is escaped.\<close>

definition is_escaped :: "u8 list \<Rightarrow> bool" where
  "is_escaped v \<longleftrightarrow> v \<noteq> [] \<and> odd (length (takeWhile (\<lambda>b. b = 92) (rev (butlast v))))"

text \<open>
  One turn of the loop: whether the character is used up, whether the string is complete, the state,
  and the error.
\<close>

definition opaque_scope :: "u8 \<Rightarrow> json_string \<Rightarrow> bool \<times> json_string \<times> json_error option" where
  "opaque_scope c s =
     (if js_quoted_area s then (False, s, None)
      else if c = 123 \<or> c = 91 then
        (case in_scope (c = 91) s of (ok, s) \<Rightarrow> (False, s, if ok then None else Some Nesting_too_deep))
      else if js_counter s mod 32 = 0 then
        (c = 44 \<or> c = 125 \<or> c = 93 \<or> c = 0 \<or> js_value s \<noteq> [] \<and> is_space c, s, None)
      else if c = 125 then
        (case out_scope False s of (ok, s) \<Rightarrow> (False, s, if ok then None else Some Expected_square_bracket))
      else if c = 93 then
        (case out_scope True s of (ok, s) \<Rightarrow> (False, s, if ok then None else Some Expected_curly_bracket))
      else (False, s, None))"

definition opaque_char :: "u8 \<Rightarrow> json_string \<Rightarrow> bool \<times> bool \<times> json_string \<times> json_error option" where
  "opaque_char c s =
     (case opaque_scope c s of
        (finished, s, error) \<Rightarrow>
          if finished then (False, True, s, error)
          else
            let (finished, s) =
                  (if js_quoted_area s then (False, s\<lparr>js_value := js_value s @ [c]\<rparr>)
                   else if is_space c then (False, s)
                   else (js_counter s mod 32 = 0 \<and> (c = 125 \<or> c = 93), s\<lparr>js_value := js_value s @ [c]\<rparr>))
            in (True, finished,
                if c = 34 \<and> \<not> is_escaped (js_value s) then s\<lparr>js_quoted_area := \<not> js_quoted_area s\<rparr> else s, error))"

definition long_escape :: "u8 \<Rightarrow> u8 option" where
  "long_escape c =
     (if c = 34 \<or> c = 92 \<or> c = 47 then Some c else if c = 98 then Some 8 else if c = 116 then Some 9
      else if c = 110 then Some 10 else if c = 102 then Some 12 else if c = 114 then Some 13 else None)"

definition hex_value :: "u8 \<Rightarrow> u32" where
  "hex_value c = (if is_digit c then ucast c - 48 else 10 + (ucast (to_upper c) - 65)) AND 0xF"

text \<open>The code point of four or eight digits, unless they are the first half of a pair.\<close>

definition end_unicode :: "json_string \<Rightarrow> json_string" where
  "end_unicode s =
     (if 0xFFFF \<le> js_storage s \<or> js_storage s AND 0xFC00 \<noteq> 0xD800 then
        (case utf16_to_code_point (ucast (js_storage s AND 0xFFFF)) (ucast (drop_bit 16 (js_storage s) AND 0xFFFF)) of
           (_, code_point) \<Rightarrow>
             (case from_code_point code_point [0, 0, 0, 0, 0, 0] 6 of
                (n, buffer) \<Rightarrow> s\<lparr>js_value := js_value s @ take (nat n) buffer, js_storage := 0\<rparr>))
      else s)"

definition quoted_char :: "u8 \<Rightarrow> json_string \<Rightarrow> bool \<times> bool \<times> json_string \<times> json_error option" where
  "quoted_char c s =
     (if \<not> js_special s then
        (if c = 92 then (True, False, s\<lparr>js_special := True\<rparr>, None)
         else if c = 34 then (True, True, s, None)
         else if c \<le> 31 then (True, False, s, Some Control_character)
         else (True, False, s\<lparr>js_value := js_value s @ [c]\<rparr>, None))
      else if js_counter s mod 256 = 0 then
        (if c = 117 then (True, False, s\<lparr>js_counter := js_counter s + 4\<rparr>, None)
         else
           case long_escape c of
             None \<Rightarrow> (True, False, s\<lparr>js_special := False\<rparr>, Some Unknown_escape)
           | Some b \<Rightarrow> (True, False, s\<lparr>js_value := js_value s @ [b], js_special := False\<rparr>, None))
      else
        (let s = s\<lparr>js_counter := js_counter s - 1\<rparr>
         in if \<not> is_xdigit c then (False, False, s, Some Not_hexadecimal)
            else
              let s = s\<lparr>js_storage := push_bit 4 (js_storage s) OR hex_value c\<rparr>
              in (True, False, if js_counter s mod 256 = 0 then end_unicode (s\<lparr>js_special := False\<rparr>) else s, None)))"

definition read_char :: "u8 \<Rightarrow> json_string \<Rightarrow> bool \<times> bool \<times> json_string \<times> json_error option" where
  "read_char c s = (if js_quote_found s then quoted_char c s else opaque_char c s)"

lemma read_char_progress:
  "read_char c s = (False, False, s', error) \<Longrightarrow> js_counter s' < js_counter s"
  by (auto simp: read_char_def quoted_char_def opaque_char_def Let_def split: if_splits option.splits prod.splits)

function read_chars :: "u8 list \<Rightarrow> json_string \<Rightarrow> json_error option \<Rightarrow> nat \<times> bool \<times> json_string \<times> json_error option" where
  "read_chars [] s error = (0, False, s, error)"
| "read_chars (c # cs) s error =
     (case read_char c s of
        (consumed, finished, s, e) \<Rightarrow>
          let error = (if e = None then error else e)
          in if finished then (if consumed then 1 else 0, True, s, error)
             else if consumed then (case read_chars cs s error of (n, finished, s, error) \<Rightarrow> (n + 1, finished, s, error))
             else read_chars (c # cs) s error)"
  by pat_completeness auto
termination
  by (relation "measures [\<lambda>(cs, s, error). length cs, \<lambda>(cs, s, error). js_counter s]") (auto dest: read_char_progress [OF sym])

declare read_chars.simps(2) [simp del]

definition string_deserialize :: "json_string \<Rightarrow> u8 list \<Rightarrow> nat \<Rightarrow> nat \<times> json_string \<times> nat \<times> json_error option" where
  "string_deserialize s stream pos =
     (let (quote, s, pos) =
            (if pos = 0 then
               let s = s\<lparr>js_value := [], js_special := False, js_quoted_area := False, js_quote_found := False,
                         js_counter := 0, js_storage := 0\<rparr>
               in if hd stream = 34 then (1, s\<lparr>js_quote_found := True\<rparr>, 1) else (0, s, 1)
             else (0, s, pos))
      in case read_chars (drop quote stream) s None of
           (n, finished, s, error) \<Rightarrow>
             if \<not> finished \<and> error = None then (quote + n, s, (pos + length (js_value s)) mod 2 ^ 32, None)
             else
               let s = s\<lparr>js_set := True, js_null := js_null s \<or> js_value s = null_tag\<rparr>
               in (quote + n,
                   if js_quote_found s then s
                   else s\<lparr>js_value := rev (dropWhile is_space (rev (js_value s)))\<rparr>, 0, error))"

end
