(* ===== verification/Json_Text.thy ===== *)
theory Json_Text
  imports Json_String
begin

text \<open>
  The text of a JSON string as a function of its code points: UTF-8 on the inside, escapes on the
  outside. \<open>JSON::String\<close> writes it and reads it back, a code point at a time.
\<close>

subsection \<open>Code points as bytes\<close>

definition utf8 :: "u32 \<Rightarrow> u8 list" where
  "utf8 cp = take (following_bytes cp + 1) (snd (from_code_point cp [0, 0, 0, 0, 0, 0] 6))"

text \<open>The code points of Unicode without the surrogates.\<close>

definition scalar :: "u32 \<Rightarrow> bool" where
  "scalar cp \<longleftrightarrow> cp \<le> 0x10FFFF \<and> (cp < 0xD800 \<or> 0xDFFF < cp)"

lemma following_scalar: "cp \<le> 0x10FFFF \<Longrightarrow> following_bytes cp \<le> 3"
  by (auto simp: following_bytes_def word_le_nat_alt)

lemma utf8_facts:
  assumes "cp \<le> 0x10FFFF"
  shows "length (utf8 cp) = following_bytes cp + 1"
    "from_code_point cp [0, 0, 0, 0, 0, 0] 6 = (int (length (utf8 cp)), snd (from_code_point cp [0, 0, 0, 0, 0, 0] 6))"
    "to_code_point (snd (from_code_point cp [0, 0, 0, 0, 0, 0] 6)) 6 = (int (length (utf8 cp)), cp)"
proof -
  have f: "following_bytes cp \<le> 3" using assms by (rule following_scalar)
  obtain k data' where k: "from_code_point cp [0, 0, 0, 0, 0, 0] 6 = (k, data')" "to_code_point data' 6 = (k, cp)"
    "k = int (following_bytes cp) + 1" "length data' = 6"
    using code_point_bytes [of cp 6 "[0, 0, 0, 0, 0, 0]"] f by auto
  show l: "length (utf8 cp) = following_bytes cp + 1" using f k by (simp add: utf8_def)
  show "from_code_point cp [0, 0, 0, 0, 0, 0] 6 = (int (length (utf8 cp)), snd (from_code_point cp [0, 0, 0, 0, 0, 0] 6))"
    "to_code_point (snd (from_code_point cp [0, 0, 0, 0, 0, 0] 6)) 6 = (int (length (utf8 cp)), cp)"
    using k l by simp_all
qed

lemma gather_cong:
  "(\<And>i. index \<le> i \<Longrightarrow> i < index + n \<Longrightarrow> xs ! i = ys ! i) \<Longrightarrow> gather index n xs v invalid = gather index n ys v invalid"
  by (induction index n xs v invalid rule: gather.induct) simp_all

text \<open>The bytes are read back wherever they stand, when the length that is passed covers them.\<close>

lemma to_code_point_utf8:
  assumes "cp \<le> 0x10FFFF" "following_bytes cp \<le> len"
  shows "to_code_point (utf8 cp @ rest) len = (int (length (utf8 cp)), cp)"
proof -
  obtain data where d: "data = snd (from_code_point cp [0, 0, 0, 0, 0, 0] 6)" by blast
  have t: "to_code_point data 6 = (int (length (utf8 cp)), cp)" unfolding d by (rule utf8_facts(3) [OF assms(1)])
  have f: "following_bytes cp \<le> 3" using assms(1) by (rule following_scalar)
  have nth: "(utf8 cp @ rest) ! i = data ! i" if "i \<le> following_bytes cp" for i
    using that utf8_facts(1) [OF assms(1)] by (simp add: nth_append utf8_def d)
  have b: "bytes_following (ucast (data ! 0)) = following_bytes cp"
  proof -
    have "fst (to_code_point data 6) = int (following_bytes cp) + 1" using t utf8_facts(1) [OF assms(1)] by simp
    then show ?thesis by (auto simp: to_code_point_def Let_def split: if_splits prod.splits)
  qed
  have h: "(utf8 cp @ rest) ! 0 = data ! 0" using nth [of 0] by simp
  have g: "gather 1 (following_bytes cp) (utf8 cp @ rest) v False = gather 1 (following_bytes cp) data v False" for v
    by (rule gather_cong) (simp add: nth)
  show ?thesis
    using t f assms(2) g by (simp add: to_code_point_def h b Let_def min_absorb1 split: prod.splits if_splits)
qed

lemma utf8_single: "following_bytes cp = 0 \<Longrightarrow> utf8 cp = [ucast cp] \<and> cp \<le> 0x7F"
proof -
  assume f: "following_bytes cp = 0"
  then have "cp \<le> 0x7F" by (simp add: following_bytes_def split: if_splits)
  then have "cp < 2 ^ 7" by (auto intro: le_less_trans)
  then have "take_bit 7 cp = cp" by (simp only: take_bit_eq_mask less_mask_eq)
  moreover have "cp AND 0x7F = take_bit 7 cp" by (simp add: take_bit_eq_mask mask_eq_exp_minus_1)
  ultimately show ?thesis using f \<open>cp \<le> 0x7F\<close> by (simp add: utf8_def from_code_point_def)
qed

lemma utf8_lead:
  assumes "0 < following_bytes cp" "cp \<le> 0x10FFFF"
  shows "0x80 \<le> utf8 cp ! 0"
proof -
  have t: "to_code_point (utf8 cp @ []) 6 = (int (length (utf8 cp)), cp)"
    using to_code_point_utf8 [OF assms(2), of 6 "[]"] following_scalar [OF assms(2)] by simp
  then have "fst (to_code_point (utf8 cp) 6) = int (following_bytes cp) + 1" using utf8_facts(1) [OF assms(2)] by simp
  then have "bytes_following (ucast (utf8 cp ! 0)) = following_bytes cp"
    by (auto simp: to_code_point_def Let_def split: if_splits prod.splits)
  then have "\<not> ucast (utf8 cp ! 0) < (0xC0 :: u32)" using assms(1) by (auto simp: bytes_following_def)
  then show ?thesis by (simp add: word_less_nat_alt word_le_nat_alt unsigned_ucast_eq take_bit_nat_eq_self less_trans [OF unsigned_less])
qed

subsection \<open>Hexadecimal digits\<close>

lemma nibble_below: "list_all (\<lambda>p. let c = ucast (if 9 < p then 65 + (p - 10) else 48 + p) :: u8 in is_xdigit c \<and> hex_value c = (p :: u32)) (map of_nat [0..<16])"
  by (simp add: is_xdigit_def is_digit_def to_upper_def hex_value_def upt_rec Let_def)

lemma nibble_read: "is_xdigit (nibble i v)" "hex_value (nibble i v) = drop_bit (4 * i) v AND 0xF"
proof -
  obtain p where p: "p = drop_bit (4 * i) v AND 0xF" by blast
  have "p = take_bit 4 (drop_bit (4 * i) v)" unfolding p by (simp add: take_bit_eq_mask mask_eq_exp_minus_1)
  then have "unat p = take_bit 4 (unat (drop_bit (4 * i) v))" by (simp add: unsigned_take_bit_eq)
  then have "unat p < 16" by (simp add: take_bit_eq_mod)
  from all_below_word [OF nibble_below this]
  show "is_xdigit (nibble i v)" "hex_value (nibble i v) = drop_bit (4 * i) v AND 0xF"
    by (simp_all add: nibble_def p [symmetric] Let_def)
qed

definition hex4 :: "u32 \<Rightarrow> u8 list" where
  "hex4 v = [nibble 3 v, nibble 2 v, nibble 1 v, nibble 0 v]"

lemma nibble_joins:
  "push_bit 4 (push_bit m st OR take_bit m (drop_bit (k + 4) v)) OR take_bit 4 (drop_bit k v) =
    push_bit (m + 4) st OR take_bit (m + 4) (drop_bit k (v :: u32))"
proof (rule bit_word_eqI)
  fix n assume "n < LENGTH(32)"
  show "bit (push_bit 4 (push_bit m st OR take_bit m (drop_bit (k + 4) v)) OR take_bit 4 (drop_bit k v)) n \<longleftrightarrow>
    bit (push_bit (m + 4) st OR take_bit (m + 4) (drop_bit k v)) n"
  proof (cases "n < 4")
    case False
    then have "k + 4 + (n - 4) = k + n" "n - 4 - m = n - (m + 4)" by simp_all
    then show ?thesis using False \<open>n < LENGTH(32)\<close> by (auto simp: bit_simps)
  qed (auto simp: bit_simps)
qed

lemma hex4_joins:
  "push_bit 4 (push_bit 4 (push_bit 4 (push_bit 4 st OR (drop_bit 12 v AND 0xF)) OR (drop_bit 8 v AND 0xF)) OR (drop_bit 4 v AND 0xF)) OR (v AND 0xF)
    = push_bit 16 st OR (v AND 0xFFFF :: u32)"
proof -
  have m: "w AND 0xF = take_bit 4 w" "w AND 0xFFFF = take_bit 16 w" for w :: u32
    by (simp_all add: take_bit_eq_mask mask_eq_exp_minus_1)
  show ?thesis
    using nibble_joins [of 0 st 12 v] nibble_joins [of 4 st 8 v] nibble_joins [of 8 st 4 v] nibble_joins [of 12 st 0 v]
    by (simp add: m)
qed

subsection \<open>The text\<close>

definition json_escape :: "bool \<Rightarrow> u32 \<Rightarrow> u8 list" where
  "json_escape slash cp =
     (if cp \<le> 0x7F \<and> plain_char slash (ucast cp) then [ucast cp]
      else if cp \<le> 0x7F \<and> short_escape slash (ucast cp) \<noteq> None then [92, the (short_escape slash (ucast cp))]
      else case code_point_to_utf16 cp of
        (_, low, high) \<Rightarrow> (if high = 0 then [] else [92, 117] @ hex4 (ucast high)) @ [92, 117] @ hex4 (ucast low))"

definition json_content :: "u32 list \<Rightarrow> u8 list" where
  "json_content cps = concat (map utf8 cps)"

definition json_text :: "bool \<Rightarrow> u32 list \<Rightarrow> u8 list" where
  "json_text slash cps = [34] @ concat (map (json_escape slash) cps) @ [34]"

end
