(* ===== verification/Json_Writing.thy ===== *)
theory Json_Writing
  imports Json_Text
begin

text \<open>What a JSON string writes: the text of its code points, whatever the parts.\<close>

lemma write_chars_add:
  "write_chars slash (m + n) s pos =
     (case write_chars slash m s pos of (bs, s, pos) \<Rightarrow>
        (case write_chars slash n s pos of (cs, s, pos) \<Rightarrow> (bs @ cs, s, pos)))"
proof (induction m arbitrary: s pos)
  case (Suc m)
  show ?case
  proof (cases "length (js_value s) - (pos - 1) = 0")
    case True
    then show ?thesis by (cases n) simp_all
  next
    case False
    then show ?thesis by (simp add: Suc.IH split: prod.splits)
  qed
qed simp

definition same_string :: "json_string \<Rightarrow> json_string \<Rightarrow> bool" where
  "same_string s t \<longleftrightarrow> js_value t = js_value s \<and> is_quoted t = is_quoted s \<and> js_set t = js_set s"

lemma same_string_simps [simp]:
  "same_string s s" "same_string s (t\<lparr>js_special := b\<rparr>) = same_string s t" "same_string s (t\<lparr>js_counter := k\<rparr>) = same_string s t"
  "same_string s (t\<lparr>js_storage := v\<rparr>) = same_string s t" "same_string s (t\<lparr>js_quoted_area := b\<rparr>) = same_string s t"
  by (simp_all add: same_string_def is_quoted_def)

lemma is_quoted_simps [simp]:
  "is_quoted (t\<lparr>js_special := b\<rparr>) = is_quoted t" "is_quoted (t\<lparr>js_counter := k\<rparr>) = is_quoted t"
  "is_quoted (t\<lparr>js_storage := v\<rparr>) = is_quoted t" "is_quoted (t\<lparr>js_quoted_area := b\<rparr>) = is_quoted t"
  by (simp_all add: is_quoted_def)

lemma same_string_trans: "same_string s t \<Longrightarrow> same_string t u \<Longrightarrow> same_string s u"
  by (simp add: same_string_def)

lemma write_char_same: "write_char slash s pos = (c, s', pos') \<Longrightarrow> same_string s s'"
  by (auto simp: write_char_def start_unicode_def unicode_char_def Let_def split: if_splits option.splits prod.splits)

lemma write_chars_same: "write_chars slash n s pos = (cs, s', pos') \<Longrightarrow> same_string s s' \<and> length cs \<le> n"
proof (induction slash n s pos arbitrary: cs s' pos' rule: write_chars.induct)
  case (2 slash room s pos)
  show ?case
  proof (cases "length (js_value s) - (pos - 1) = 0")
    case False
    then show ?thesis
      using 2 write_char_same same_string_trans
      by (simp split: prod.splits) (metis Pair_inject Suc_le_mono length_Cons)
  qed (use 2 in auto)
qed auto

subsection \<open>A code point\<close>

lemma write_more:
  assumes "pos - 1 < length (js_value s)"
  shows "write_chars slash (Suc n) s pos =
    (case write_char slash s pos of (c, s, pos) \<Rightarrow> (case write_chars slash n s pos of (cs, s, pos) \<Rightarrow> (c # cs, s, pos)))"
  using assms by simp

text \<open>A string inside the escape of a code point of \<open>k\<close> bytes, at index \<open>i\<close>.\<close>

definition escaping :: "bool \<Rightarrow> nat \<Rightarrow> nat \<Rightarrow> nat \<Rightarrow> json_string \<Rightarrow> bool" where
  "escaping slash pos k i s \<longleftrightarrow> is_quoted s \<and> js_special s \<and> pos - 1 < length (js_value s) \<and>
     \<not> plain_char slash (js_value s ! (pos - 1)) \<and> js_counter s = k * 8 + i \<and> 0 < k \<and> k \<le> 4"

lemma escaping_next: "escaping slash pos k i s \<Longrightarrow> escaping slash pos k j (s\<lparr>js_storage := st, js_counter := k * 8 + j\<rparr>)"
  by (simp add: escaping_def)

lemma escaping_counter:
  assumes "escaping slash pos k i s" "i < 8"
  shows "js_counter s mod 8 = i" "js_counter s mod 256 = k * 8 + i" "js_counter s mod 256 \<noteq> 0"
    "js_counter s div 8 mod 8 = k"
proof -
  have c: "js_counter s = k * 8 + i" "0 < k" "k \<le> 4" using assms(1) by (simp_all add: escaping_def)
  show "js_counter s mod 8 = i" using c assms(2) by simp
  show 2: "js_counter s mod 256 = k * 8 + i" using c assms(2) by simp
  show "js_counter s mod 256 \<noteq> 0" using c(2) unfolding 2 by simp
  show "js_counter s div 8 mod 8 = k" using c assms(2) by simp
qed

lemma escaping_turn:
  assumes "escaping slash pos k i s" "i < 8"
  shows "write_char slash s pos = unicode_char pos s"
  using assms(1) escaping_counter(3) [OF assms] by (simp add: write_char_def escaping_def)

text \<open>A character before the last, and the last one.\<close>

lemma escaping_char:
  assumes "escaping slash pos k i s" "i < 5"
  shows "write_char slash s pos =
    (if i = 0 then 92 else if i = 1 then 117 else nibble (if 0xFFFF < js_storage s then 9 - i else 5 - i) (js_storage s),
     s\<lparr>js_storage := js_storage s, js_counter := k * 8 + (i + 1)\<rparr>, pos)"
proof -
  have i: "js_counter s mod 8 = i" "(js_counter s + 1) mod 8 = i + 1" "js_counter s + 1 = k * 8 + (i + 1)"
    using assms escaping_counter(1) [OF assms(1)] by (simp_all add: escaping_def)
  show ?thesis
    using assms(2) unfolding escaping_turn [OF assms(1) less_trans [OF assms(2)], simplified] unicode_char_def Let_def i
    by (auto simp: i(3))
qed

lemma escaping_last:
  assumes "escaping slash pos k 5 s"
  shows "write_char slash s pos =
    (if 0xFFFF < js_storage s
     then (nibble 4 (js_storage s), s\<lparr>js_storage := js_storage s AND 0xFFFF, js_counter := k * 8 + 0\<rparr>, pos)
     else (nibble 0 (js_storage s), s\<lparr>js_special := False, js_counter := 0\<rparr>, pos + k))"
proof -
  have c: "js_counter s = k * 8 + 5" "k \<le> 4" using assms by (simp_all add: escaping_def)
  have i: "js_counter s mod 8 = 5" "(js_counter s + 1) mod 8 = 6" "(js_counter s + 1) div 8 mod 8 = k"
    "js_counter s + 1 - 6 = k * 8 + 0"
    using c by simp_all
  show ?thesis
    unfolding escaping_turn [OF assms, simplified] unicode_char_def Let_def
    using i by simp
qed

text \<open>The four digits of a half, and the beginning of the second half.\<close>

lemma write_digits:
  assumes "escaping slash pos k 2 s"
  shows "write_chars slash 4 s pos =
    (if 0xFFFF < js_storage s
     then (map (\<lambda>i. nibble (4 + i) (js_storage s)) [3, 2, 1, 0],
           s\<lparr>js_storage := js_storage s AND 0xFFFF, js_counter := k * 8 + 0\<rparr>, pos)
     else (hex4 (js_storage s), s\<lparr>js_special := False, js_counter := 0\<rparr>, pos + k))"
proof -
  obtain s3 where s3: "s3 = s\<lparr>js_storage := js_storage s, js_counter := k * 8 + 3\<rparr>" by blast
  obtain s4 where s4: "s4 = s\<lparr>js_storage := js_storage s, js_counter := k * 8 + 4\<rparr>" by blast
  obtain s5 where s5: "s5 = s\<lparr>js_storage := js_storage s, js_counter := k * 8 + 5\<rparr>" by blast
  have e: "escaping slash pos k 3 s3" "escaping slash pos k 4 s4" "escaping slash pos k 5 s5"
    unfolding s3 s4 s5 using assms by (rule escaping_next)+
  have p: "pos - 1 < length (js_value s)" "pos - 1 < length (js_value s3)" "pos - 1 < length (js_value s4)" "pos - 1 < length (js_value s5)"
    using assms e by (simp_all add: escaping_def)
  have 2: "write_char slash s pos = (nibble (if 0xFFFF < js_storage s then 7 else 3) (js_storage s), s3, pos)"
    using escaping_char [OF assms] by (simp add: s3)
  have 3: "write_char slash s3 pos = (nibble (if 0xFFFF < js_storage s then 6 else 2) (js_storage s), s4, pos)"
    using escaping_char [OF e(1)] by (simp add: s3 s4)
  have 4: "write_char slash s4 pos = (nibble (if 0xFFFF < js_storage s then 5 else 1) (js_storage s), s5, pos)"
    using escaping_char [OF e(2)] by (simp add: s4 s5)
  have 5: "write_char slash s5 pos =
    (if 0xFFFF < js_storage s
     then (nibble 4 (js_storage s), s\<lparr>js_storage := js_storage s AND 0xFFFF, js_counter := k * 8 + 0\<rparr>, pos)
     else (nibble 0 (js_storage s), s\<lparr>js_special := False, js_counter := 0\<rparr>, pos + k))"
    using escaping_last [OF e(3)] by (simp add: s5)
  have four: "(4 :: nat) = Suc (Suc (Suc (Suc 0)))" by simp
  show ?thesis
    unfolding four write_more [OF p(1)] 2 prod.case write_more [OF p(2)] 3 write_more [OF p(3)] 4 write_more [OF p(4)] 5
    by (simp add: hex4_def numeral_eq_Suc)
qed

lemma write_second:
  assumes "escaping slash pos k 0 s"
  shows "write_chars slash 2 s pos = ([92, 117], s\<lparr>js_storage := js_storage s, js_counter := k * 8 + 2\<rparr>, pos)"
proof -
  obtain s1 where s1: "s1 = s\<lparr>js_storage := js_storage s, js_counter := k * 8 + 1\<rparr>" by blast
  have e: "escaping slash pos k 1 s1" unfolding s1 using assms by (rule escaping_next)
  have p: "pos - 1 < length (js_value s)" "pos - 1 < length (js_value s1)" using assms e by (simp_all add: escaping_def)
  have 0: "write_char slash s pos = (92, s1, pos)" using escaping_char [OF assms] by (simp add: s1)
  have 1: "write_char slash s1 pos = (117, s\<lparr>js_storage := js_storage s, js_counter := k * 8 + 2\<rparr>, pos)"
    using escaping_char [OF e] by (simp add: s1)
  have two: "(2 :: nat) = Suc (Suc 0)" by simp
  show ?thesis unfolding two write_more [OF p(1)] 0 prod.case write_more [OF p(2)] 1 by simp
qed

lemma short_escape_high:
  assumes "0x80 \<le> c" shows "short_escape slash c = None \<and> \<not> plain_char slash c"
proof -
  have n: "128 \<le> unat c" using assms by (simp add: word_le_nat_alt)
  then have "c \<notin> {8, 9, 10, 12, 13, 92, 47, 34}" by auto
  moreover have "\<not> c \<le> 126" using n by (simp add: word_le_nat_alt)
  ultimately show ?thesis by (simp add: short_escape_def plain_char_def is_print_def)
qed

text \<open>The parts of a code point that is written as \<open>\u\<close>.\<close>

lemma utf16_parts:
  assumes "scalar cp" "code_point_to_utf16 cp = (ok, low, high)"
  shows "cp \<le> 0xFFFF \<Longrightarrow> high = 0 \<and> ucast low = cp"
    "\<not> cp \<le> 0xFFFF \<Longrightarrow> high \<noteq> 0 \<and> (ucast high :: u32) AND 0xFC00 = 0xD800"
proof -
  assume "cp \<le> 0xFFFF"
  then have "cp < 2 ^ 16" by (auto intro: le_less_trans)
  then have "take_bit 16 cp = cp" by (simp only: take_bit_eq_mask less_mask_eq)
  moreover have "(ucast (ucast cp :: u16) :: u32) = take_bit 16 cp" by (rule bit_word_eqI) (auto simp: bit_simps)
  ultimately show "high = 0 \<and> ucast low = cp" using assms(2) \<open>cp \<le> 0xFFFF\<close> by (simp add: code_point_to_utf16_def)
next
  assume a: "\<not> cp \<le> 0xFFFF"
  have "cp \<le> 0x10FFFF" using assms(1) by (simp add: scalar_def)
  then have "\<not> 0xFFFFF < cp - 0x10000" using a by (simp add: word_le_nat_alt word_less_nat_alt unat_sub)
  then have h: "high = ucast ((drop_bit 10 (cp - 0x10000) AND 0x3FF) OR 0xD800)"
    using assms(2) a by (simp add: code_point_to_utf16_def Let_def)
  then have m: "high AND 0xFC00 = 0xD800" by (simp only: surrogate_markers)
  then have "(ucast (high AND 0xFC00) :: u32) = 0xD800" by simp
  then have "(ucast high :: u32) AND 0xFC00 = 0xD800" by (simp add: unsigned_and_eq)
  then show "high \<noteq> 0 \<and> (ucast high :: u32) AND 0xFC00 = 0xD800" using m by auto
qed

lemma storage_halves:
  fixes high low :: u16
  assumes "v = push_bit 16 (ucast high) OR ucast low"
  shows "v AND 0xFFFF = (ucast low :: u32)" "drop_bit 16 v = ucast high" "0xFFFF < v \<longleftrightarrow> high \<noteq> 0"
    "nibble (4 + i) v = nibble i (ucast high)" "\<not> 0xFFFF < (ucast low :: u32)" "high = 0 \<Longrightarrow> v = ucast low"
proof -
  have m: "(0xFFFF :: u32) = mask 16" by (simp add: mask_eq_exp_minus_1)
  show "v AND 0xFFFF = ucast low" unfolding assms m by (rule bit_word_eqI) (auto simp: bit_simps dest: bit_imp_le_length)
  show d: "drop_bit 16 v = ucast high" unfolding assms by (rule bit_word_eqI) (auto simp: bit_simps dest: bit_imp_le_length)
  have "drop_bit (4 * (4 + i)) v = drop_bit (4 * i) (drop_bit 16 v)" by (simp add: add.commute)
  then show "nibble (4 + i) v = nibble i (ucast high)" by (simp only: nibble_def d)
  have "unat (ucast low :: u32) = unat low" by (simp add: unsigned_ucast_eq take_bit_nat_eq_self less_trans [OF unsigned_less])
  moreover have "unat low < 2 ^ LENGTH(16)" by (rule unsigned_less)
  ultimately show l: "\<not> 0xFFFF < (ucast low :: u32)" by (simp add: word_less_nat_alt)
  show "high = 0 \<Longrightarrow> v = ucast low" unfolding assms by simp
  have "0xFFFF < v" if "high \<noteq> 0"
  proof (rule ccontr)
    assume "\<not> 0xFFFF < v"
    then have "unat v div 65536 = 0" by (simp add: word_less_nat_alt not_less div_eq_0_iff)
    then have "unat (drop_bit 16 v) = 0" by (simp add: drop_bit_eq_div unat_div)
    then have "drop_bit 16 v = 0" by (simp only: unsigned_eq_0_iff)
    then have "(ucast high :: u32) = 0" unfolding d .
    then have "(ucast (ucast high :: u32) :: u16) = 0" by simp
    moreover have "(ucast (ucast high :: u32) :: u16) = high" by (rule bit_word_eqI) (auto simp: bit_simps)
    ultimately show False using that by simp
  qed
  then show "0xFFFF < v \<longleftrightarrow> high \<noteq> 0" using l assms by auto
qed

lemma write_escape:
  assumes "is_quoted s" "\<not> js_special s" "js_counter s = 0" "js_value s = pre @ utf8 cp @ post"
    "pos = length pre + 1" "scalar cp" "following_bytes cp \<le> length (utf8 cp @ post) mod 256"
  shows "\<exists>st. write_chars slash (length (json_escape slash cp)) s pos =
    (json_escape slash cp, s\<lparr>js_storage := st\<rparr>, pos + length (utf8 cp))"
proof -
  have cp: "cp \<le> 0x10FFFF" using assms(6) by (simp add: scalar_def)
  obtain c where c: "c = utf8 cp ! 0" by blast
  note len = utf8_facts(1) [OF cp]
  have cur: "js_value s ! (pos - 1) = c" using assms(4,5) len by (simp add: c nth_append)
  have more: "pos - 1 < length (js_value s)" using assms(4,5) len by simp
  have single: "utf8 cp = [ucast cp]" if "cp \<le> 0x7F"
  proof -
    have "following_bytes cp = 0" using that unfolding following_bytes_def by simp
    then show ?thesis using utf8_single by blast
  qed
  consider (plain) "cp \<le> 0x7F" "plain_char slash (ucast cp)"
    | (short) b where "cp \<le> 0x7F" "\<not> plain_char slash (ucast cp)" "short_escape slash (ucast cp) = Some b"
    | (unicode) "\<not> (cp \<le> 0x7F \<and> plain_char slash (ucast cp))" "\<not> (cp \<le> 0x7F \<and> short_escape slash (ucast cp) \<noteq> None)"
    by blast
  then show ?thesis
  proof cases
    case plain
    have u: "utf8 cp = [ucast cp]" by (rule single [OF plain(1)])
    have "c = ucast cp" using u by (simp add: c)
    then have w: "write_char slash s pos = (ucast cp, s, pos + 1)"
      unfolding write_char_def Let_def cur using plain(2) by simp
    have e: "json_escape slash cp = [ucast cp]" using plain by (simp add: json_escape_def)
    have "write_chars slash (Suc 0) s pos = ([ucast cp], s\<lparr>js_storage := js_storage s\<rparr>, pos + 1)"
      unfolding write_more [OF more] w by simp
    then show ?thesis unfolding e u by (intro exI [of _ "js_storage s"]) (simp del: write_chars.simps)
  next
    case short
    have u: "utf8 cp = [ucast cp]" by (rule single [OF short(1)])
    have "c = ucast cp" using u by (simp add: c)
    then have w: "write_char slash s pos = (92, s\<lparr>js_special := True\<rparr>, pos)"
      "write_char slash (s\<lparr>js_special := True\<rparr>) pos = (b, s\<lparr>js_special := False\<rparr>, pos + 1)"
      using short(2,3) cur assms(1-3) by (simp_all add: write_char_def)
    have more': "pos - 1 < length (js_value (s\<lparr>js_special := True\<rparr>))" using more by simp
    have e: "json_escape slash cp = [92, b]" using short by (simp add: json_escape_def)
    have "s\<lparr>js_special := False\<rparr> = s\<lparr>js_storage := js_storage s\<rparr>" using assms(2) by simp
    then have "write_chars slash (Suc (Suc 0)) s pos = ([92, b], s\<lparr>js_storage := js_storage s\<rparr>, pos + 1)"
      unfolding write_more [OF more] w(1) prod.case write_more [OF more'] w(2) by simp
    then show ?thesis unfolding e u by (intro exI [of _ "js_storage s"]) (simp del: write_chars.simps)
  next
    case unicode
    have not_plain: "\<not> plain_char slash c \<and> short_escape slash c = None"
    proof (cases "following_bytes cp = 0")
      case True
      then show ?thesis using unicode utf8_single [OF True] by (simp add: c)
    next
      case False
      then show ?thesis using utf8_lead [of cp] cp short_escape_high by (simp add: c)
    qed
    obtain k where k: "k = length (utf8 cp)" "0 < k" "k \<le> 4" using len following_scalar [OF cp] by simp
    obtain ok low high where u: "code_point_to_utf16 cp = (ok, low, high)" by (cases "code_point_to_utf16 cp") auto
    have esc: "json_escape slash cp = (if high = 0 then [] else [92, 117] @ hex4 (ucast high)) @ [92, 117] @ hex4 (ucast low)"
      unfolding json_escape_def if_not_P [OF unicode(1)] if_not_P [OF unicode(2)] u prod.case ..
    obtain v :: u32 where v: "v = push_bit 16 (ucast high) OR ucast low" by blast
    note half = storage_halves [OF v]
    obtain s1 where s1: "s1 = s\<lparr>js_special := True\<rparr>" by blast
    obtain s2 where s2: "s2 = s1\<lparr>js_storage := v, js_counter := k * 8 + 2\<rparr>" by blast
    have left: "length (js_value s1) - (pos - 1) = length (utf8 cp @ post)" using assms(4,5) by (simp add: s1)
    have d: "drop (pos - 1) (js_value s1) @ [0] = utf8 cp @ (post @ [0])" using assms(4,5) by (simp add: s1)
    have t: "to_code_point (drop (pos - 1) (js_value s1) @ [0]) (length (utf8 cp @ post) mod 256) = (int k, cp)"
      unfolding d k(1) by (rule to_code_point_utf8 [OF cp assms(7)])
    have "start_unicode pos s1 = s2"
      unfolding start_unicode_def left t Let_def prod.case using k u by (simp add: s2 v s1 assms(3))
    then have w: "write_char slash s pos = (92, s1, pos)" "write_char slash s1 pos = (117, s2, pos)"
      using not_plain cur assms(1-3) by (simp_all add: write_char_def s1)
    have more1: "pos - 1 < length (js_value s1)" using more by (simp add: s1)
    have e2: "escaping slash pos k 2 s2"
      using k more not_plain cur assms(1) by (simp add: escaping_def s2 s1)
    have first: "write_chars slash (2 + n) s pos =
      (case write_chars slash n s2 pos of (cs, s, pos) \<Rightarrow> ([92, 117] @ cs, s, pos))" for n
    proof -
      have two: "2 + n = Suc (Suc n)" by simp
      show ?thesis unfolding two write_more [OF more] w(1) prod.case write_more [OF more1] w(2) by (simp split: prod.splits)
    qed
    have fin: "s2\<lparr>js_storage := st, js_special := False, js_counter := 0\<rparr> = s\<lparr>js_storage := st\<rparr>" for st
      using assms(2,3) by (simp add: s2 s1)
    show ?thesis
    proof (cases "high = 0")
      case True
      have "write_chars slash 4 s2 pos = (hex4 (ucast low), s2\<lparr>js_special := False, js_counter := 0\<rparr>, pos + k)"
        using write_digits [OF e2] True half by (simp add: s2)
      then have "write_chars slash (2 + 4) s pos = ([92, 117] @ hex4 (ucast low), s\<lparr>js_storage := v\<rparr>, pos + k)"
        unfolding first using fin [of v] by (simp add: s2)
      moreover have "json_escape slash cp = [92, 117] @ hex4 (ucast low)" "length (json_escape slash cp) = 2 + 4"
        unfolding esc using True by (simp_all add: hex4_def)
      ultimately show ?thesis unfolding k(1) [symmetric] by (intro exI [of _ v]) (simp only:)
    next
      case False
      obtain s3 where s3: "s3 = s2\<lparr>js_storage := ucast low, js_counter := k * 8 + 0\<rparr>" by blast
      obtain s4 where s4: "s4 = s2\<lparr>js_storage := ucast low, js_counter := k * 8 + 2\<rparr>" by blast
      have e3: "escaping slash pos k 0 s3" "escaping slash pos k 2 s4" unfolding s3 s4 using e2 by (rule escaping_next)+
      have "write_chars slash 4 s2 pos = (hex4 (ucast high), s3, pos)"
        using write_digits [OF e2] False half by (simp add: s2 s3 hex4_def half(4))
      moreover have "write_chars slash 2 s3 pos = ([92, 117], s4, pos)" using write_second [OF e3(1)] by (simp add: s3 s4)
      moreover have "write_chars slash 4 s4 pos = (hex4 (ucast low), s4\<lparr>js_special := False, js_counter := 0\<rparr>, pos + k)"
        using write_digits [OF e3(2)] half by (simp add: s4)
      ultimately have "write_chars slash (4 + (2 + 4)) s2 pos =
          (hex4 (ucast high) @ [92, 117] @ hex4 (ucast low), s4\<lparr>js_special := False, js_counter := 0\<rparr>, pos + k)"
        by (simp only: write_chars_add prod.case)
      moreover have "s4\<lparr>js_special := False, js_counter := 0\<rparr> = s\<lparr>js_storage := ucast low\<rparr>"
        using fin [of "ucast low"] by (simp add: s4)
      ultimately have "write_chars slash (2 + (4 + (2 + 4))) s pos =
          ([92, 117] @ hex4 (ucast high) @ [92, 117] @ hex4 (ucast low), s\<lparr>js_storage := ucast low\<rparr>, pos + k)"
        by (simp only: first prod.case)
      moreover have "json_escape slash cp = [92, 117] @ hex4 (ucast high) @ [92, 117] @ hex4 (ucast low)"
        "length (json_escape slash cp) = 2 + (4 + (2 + 4))"
        unfolding esc using False by (simp_all add: hex4_def)
      ultimately show ?thesis unfolding k(1) [symmetric] by (intro exI [of _ "ucast low"]) (simp only:)
    qed
  qed
qed

subsection \<open>The whole text\<close>

text \<open>
  The length that the serializer passes to \<open>ToCodePoint\<close> has eight bits: a code point that needs more
  than what is left of it is cut. Text without code points above 127 always fits.
\<close>

fun lengths_fit :: "u32 list \<Rightarrow> bool" where
  "lengths_fit [] \<longleftrightarrow> True"
| "lengths_fit (cp # cps) \<longleftrightarrow> following_bytes cp \<le> length (json_content (cp # cps)) mod 256 \<and> lengths_fit cps"

lemma write_content:
  assumes "is_quoted s" "\<not> js_special s" "js_counter s = 0" "js_value s = pre @ json_content cps" "pos = length pre + 1"
    "list_all scalar cps" "lengths_fit cps"
  shows "\<exists>st. write_chars slash (length (concat (map (json_escape slash) cps))) s pos =
    (concat (map (json_escape slash) cps), s\<lparr>js_storage := st\<rparr>, length (js_value s) + 1)"
  using assms
proof (induction cps arbitrary: s pre pos)
  case Nil
  then show ?case by (intro exI [of _ "js_storage s"]) (simp add: json_content_def)
next
  case (Cons cp cps)
  have v: "js_value s = pre @ utf8 cp @ json_content cps" using Cons.prems(4) by (simp add: json_content_def)
  have "following_bytes cp \<le> length (utf8 cp @ json_content cps) mod 256"
    using Cons.prems(7) by (simp add: json_content_def)
  from write_escape [OF Cons.prems(1-3) v Cons.prems(5) _ this] Cons.prems(6) obtain st where
    w: "write_chars slash (length (json_escape slash cp)) s pos = (json_escape slash cp, s\<lparr>js_storage := st\<rparr>, pos + length (utf8 cp))"
    by auto
  have "\<exists>st'. write_chars slash (length (concat (map (json_escape slash) cps))) (s\<lparr>js_storage := st\<rparr>) (pos + length (utf8 cp)) =
    (concat (map (json_escape slash) cps), s\<lparr>js_storage := st\<rparr>\<lparr>js_storage := st'\<rparr>, length (js_value (s\<lparr>js_storage := st\<rparr>)) + 1)"
    by (rule Cons.IH [of _ "pre @ utf8 cp"]) (use Cons.prems v in auto)
  then obtain st' where "write_chars slash (length (concat (map (json_escape slash) cps))) (s\<lparr>js_storage := st\<rparr>) (pos + length (utf8 cp)) =
    (concat (map (json_escape slash) cps), s\<lparr>js_storage := st'\<rparr>, length (js_value s) + 1)" by auto
  then show ?case by (intro exI [of _ st']) (simp add: write_chars_add w)
qed

text \<open>A string that is being written: what is left of its text ends with a quote.\<close>

definition string_running :: "bool \<Rightarrow> json_string \<Rightarrow> nat \<Rightarrow> u8 list \<Rightarrow> bool" where
  "string_running slash s pos cs \<longleftrightarrow> is_quoted s \<and> (js_set s \<or> js_value s = []) \<and> pos \<noteq> 0 \<and> length (js_value s) < 2 ^ 31 \<and>
     (\<exists>s'. write_chars slash (length cs) s pos = (cs, s', length (js_value s) + 1))"

definition string_holds :: "json_string \<Rightarrow> u32 list \<Rightarrow> bool" where
  "string_holds s cps \<longleftrightarrow> js_set s \<and> is_quoted s \<and> js_value s = json_content cps"

definition string_writes :: "bool \<Rightarrow> json_string \<Rightarrow> nat \<Rightarrow> u8 list \<Rightarrow> bool" where
  "string_writes slash s pos rest \<longleftrightarrow>
     (if pos = 0 then \<exists>cps. rest = json_text slash cps \<and> string_holds s cps \<and> list_all scalar cps \<and> lengths_fit cps \<and> length (js_value s) < 2 ^ 31
      else \<exists>cs. rest = cs @ [34] \<and> string_running slash s pos cs)"

lemma write_char_pos: "write_char slash s pos = (c, s', pos') \<Longrightarrow> pos \<le> pos'"
  by (auto simp: write_char_def unicode_char_def Let_def split: if_splits option.splits prod.splits)

lemma write_chars_pos: "write_chars slash n s pos = (cs, s', pos') \<Longrightarrow> pos \<le> pos'"
proof (induction slash n s pos arbitrary: cs s' pos' rule: write_chars.induct)
  case (2 slash room s pos)
  show ?case
  proof (cases "length (js_value s) - (pos - 1) = 0")
    case False
    obtain c s1 pos1 where 1: "write_char slash s pos = (c, s1, pos1)" by (cases "write_char slash s pos") auto
    obtain cs1 s2 pos2 where 2: "write_chars slash room s1 pos1 = (cs1, s2, pos2)" by (cases "write_chars slash room s1 pos1") auto
    have "pos1 \<le> pos2" using "2.IH" [OF False 1 [symmetric] refl] 2 by blast
    then show ?thesis using "2.prems" False write_char_pos [OF 1] by (simp add: 1 2)
  qed (use "2.prems" in simp)
qed auto

lemma write_chars_end: "length (js_value s) - (pos - 1) = 0 \<Longrightarrow> write_chars slash n s pos = ([], s, pos)"
  by (cases n) simp_all

lemma string_writes_top:
  assumes "string_writes slash s pos rest" shows "pos \<le> 2 ^ 31"
proof (cases "pos = 0")
  case False
  then have "string_running slash s pos (butlast rest)" using assms by (auto simp: string_writes_def)
  then obtain s' where "write_chars slash (length (butlast rest)) s pos = (butlast rest, s', length (js_value s) + 1)"
    "length (js_value s) < 2 ^ 31" by (auto simp: string_running_def)
  then show ?thesis using write_chars_pos by fastforce
qed simp

lemma string_running_part:
  assumes "string_running slash s pos cs"
  shows "\<exists>s' pos'. write_chars slash n s pos = (take n cs, s', pos') \<and> same_string s s' \<and> pos' \<noteq> 0 \<and>
    (if length cs \<le> n then length (js_value s') - (pos' - 1) = 0 else 0 < length (js_value s') - (pos' - 1)) \<and>
    string_running slash s' pos' (drop n cs)"
proof -
  obtain t where t: "write_chars slash (length cs) s pos = (cs, t, length (js_value s) + 1)" and p: "pos \<noteq> 0"
    using assms by (auto simp: string_running_def)
  obtain bs s' pos' where 1: "write_chars slash n s pos = (bs, s', pos')" by (cases "write_chars slash n s pos") auto
  have same: "same_string s s'" "length bs \<le> n" using write_chars_same [OF 1] by simp_all
  have p': "pos' \<noteq> 0" using write_chars_pos [OF 1] p by simp
  have run: "string_running slash s' pos' ds" if "write_chars slash (length ds) s' pos' = (ds, u, length (js_value s) + 1)" for ds u
    using assms same(1) p' that by (auto simp: string_running_def same_string_def)
  show ?thesis
  proof (cases "length cs \<le> n")
    case True
    then obtain m where m: "n = length cs + m" using le_Suc_ex by blast
    have "length (js_value t) = length (js_value s)" using write_chars_same [OF t] by (simp add: same_string_def)
    then have "write_chars slash m t (length (js_value s) + 1) = ([], t, length (js_value s) + 1)"
      by (intro write_chars_end) simp
    then have "write_chars slash n s pos = (cs, t, length (js_value s) + 1)" using t by (simp add: m write_chars_add)
    then have e: "bs = cs" "s' = t" "pos' = length (js_value s) + 1" using 1 by simp_all
    have "string_running slash s' pos' []" by (rule run) (simp add: e)
    then show ?thesis using True 1 same p' by (simp add: e same_string_def)
  next
    case False
    then obtain m where m: "length cs = n + m" "0 < m" by (metis le_Suc_ex nat_le_linear add_0_right neq0_conv)
    obtain ds u posu where 2: "write_chars slash m s' pos' = (ds, u, posu)" by (cases "write_chars slash m s' pos'") auto
    have e: "bs @ ds = cs" "u = t" "posu = length (js_value s) + 1" using t unfolding m(1) write_chars_add 1 prod.case 2 by simp_all
    have "length bs + length ds = n + m" using arg_cong [OF e(1), of length] m(1) by simp
    then have l: "length bs = n" "length ds = m" using same(2) write_chars_same [OF 2] by simp_all
    have "0 < length (js_value s') - (pos' - 1)"
    proof (rule ccontr)
      assume "\<not> ?thesis"
      then have "ds = []" using write_chars_end [of s' pos' slash m] 2 by simp
      then show False using l(2) m(2) by simp
    qed
    moreover have "bs = take n cs" "ds = drop n cs" using e(1) l(1) by auto
    moreover have "string_running slash s' pos' ds" using 2 e(3) l(2) by (intro run) simp
    ultimately show ?thesis using False 1 same p' by simp
  qed
qed

end
