(* ===== verification/Json_Array.thy ===== *)
theory Json_Array
  imports Json_Element
begin

text \<open>
  \<open>JSON::ArrayType\<close> of \<^verbatim>\<open>Source/core/JSON.h\<close> over any element: the writer, the reader and \<open>IsSet\<close> of the element
  are arguments. The offset of an array is a stage of the array below 5, and otherwise that of the element at work,
  plus 5. The bits of \<^verbatim>\<open>_state\<close> are separate fields.
\<close>

subsection \<open>The state\<close>

datatype array_iterator = At_beginning | At_element nat | At_end

record 'e json_array =
  ar_data :: "'e list"
  ar_extract :: bool
  ar_set :: bool
  ar_undefined :: bool
  ar_error :: bool
  ar_iterator :: array_iterator

definition new_array :: "'e json_array" where
  "new_array = \<lparr>ar_data = [], ar_extract = False, ar_set = False, ar_undefined = False, ar_error = False, ar_iterator = At_beginning\<rparr>"

definition array_is_set :: "'e json_array \<Rightarrow> bool" where
  "array_is_set a \<longleftrightarrow> 0 < length (ar_data a) mod 2 ^ 16 \<or> ar_set a"

definition array_null :: "bool \<Rightarrow> 'e json_array \<Rightarrow> 'e json_array" where
  "array_null enabled a = a\<lparr>ar_undefined := enabled, ar_set := enabled\<rparr>"

definition array_set :: "bool \<Rightarrow> 'e json_array \<Rightarrow> 'e json_array" where
  "array_set enabled a = a\<lparr>ar_set := enabled\<rparr>"

definition array_extract_on_single :: "bool \<Rightarrow> 'e json_array \<Rightarrow> 'e json_array" where
  "array_extract_on_single enabled a = a\<lparr>ar_extract := enabled\<rparr>"

definition array_clear :: "'e json_array \<Rightarrow> 'e json_array" where
  "array_clear a = a\<lparr>ar_extract := False, ar_set := False, ar_undefined := False, ar_error := False, ar_data := []\<rparr>"

definition array_add :: "'e \<Rightarrow> 'e json_array \<Rightarrow> 'e json_array" where
  "array_add e a = a\<lparr>ar_data := ar_data a @ [e]\<rparr>"

text \<open>\<open>Next\<close> skips the elements that are not set.\<close>

definition set_from :: "('e \<Rightarrow> bool) \<Rightarrow> 'e list \<Rightarrow> nat \<Rightarrow> array_iterator" where
  "set_from is_set data i =
     (case dropWhile (\<lambda>j. \<not> is_set (data ! j)) [i..<length data] of [] \<Rightarrow> At_end | j # js \<Rightarrow> At_element j)"

fun array_next :: "('e \<Rightarrow> bool) \<Rightarrow> 'e list \<Rightarrow> array_iterator \<Rightarrow> array_iterator" where
  "array_next is_set data At_beginning = set_from is_set data 0"
| "array_next is_set data (At_element i) = set_from is_set data (i + 1)"
| "array_next is_set data At_end = At_end"

subsection \<open>Writing\<close>

text \<open>
  One turn of the loop. The offset \<open>~0\<close> of the code, which is only used inside of the function, is \<open>None\<close>; the
  other one that counts is 1, after which a comma comes.
\<close>

definition array_write_turn :: "'e json_writer \<Rightarrow> ('e \<Rightarrow> bool) \<Rightarrow> 'e json_array \<Rightarrow> nat \<Rightarrow> nat \<Rightarrow> u8 list \<times> 'e json_array \<times> nat option" where
  "array_write_turn ser is_set a room pos =
     (if 5 \<le> pos then
        (case ar_iterator a of
           At_element i \<Rightarrow>
             (case ser (ar_data a ! i) room (pos - 5) of
                (bs, e, pos) \<Rightarrow>
                  let a = a\<lparr>ar_data := (ar_data a)[i := e]\<rparr>
                  in if pos \<noteq> 0 then (bs, a, Some ((pos + 5) mod 2 ^ 32))
                     else let a = a\<lparr>ar_iterator := array_next is_set (ar_data a) (ar_iterator a)\<rparr>
                          in (bs, a, if ar_iterator a = At_end then None else Some 1))
         | _ \<Rightarrow> ([], a, Some pos))
      else if pos = 1 then ([44], a, Some 5)
      else ([], a, Some pos))"

text \<open>
  The loop, with a number of turns that is enough: every turn writes something, or completes an element or a
  comma. A turn that does nothing would be repeated for ever by the code.
\<close>

fun array_write :: "'e json_writer \<Rightarrow> ('e \<Rightarrow> bool) \<Rightarrow> nat \<Rightarrow> 'e json_array \<Rightarrow> nat \<Rightarrow> nat option \<Rightarrow> u8 list \<times> 'e json_array \<times> nat option" where
  "array_write ser is_set 0 a room pos = ([], a, pos)"
| "array_write ser is_set (Suc turns) a room None = ([], a, None)"
| "array_write ser is_set (Suc turns) a room (Some pos) =
     (if room = 0 then ([], a, Some pos)
      else
        case array_write_turn ser is_set a room pos of
          (bs, a, pos) \<Rightarrow> (case array_write ser is_set turns a (room - length bs) pos of (cs, a, pos) \<Rightarrow> (bs @ cs, a, pos)))"

definition array_brackets :: "'e json_array \<Rightarrow> bool" where
  "array_brackets a \<longleftrightarrow> \<not> ar_extract a \<or> length (ar_data a) \<noteq> 1"

definition array_turns :: "'e json_array \<Rightarrow> nat \<Rightarrow> nat" where
  "array_turns a room = room + 2 * length (ar_data a) + 2"

definition array_serialize :: "'e json_writer \<Rightarrow> ('e \<Rightarrow> bool) \<Rightarrow> 'e json_array \<Rightarrow> nat \<Rightarrow> nat \<Rightarrow> u8 list \<times> 'e json_array \<times> nat" where
  "array_serialize ser is_set a max_length pos =
     (if ar_undefined a then (take max_length (drop pos null_tag), a, pos)
      else
        let (head, a, start) =
              (if pos = 0 then
                 let it = array_next is_set (ar_data a) At_beginning
                 in (if array_brackets a then [91] else [], a\<lparr>ar_iterator := it\<rparr>, if it = At_end then None else Some 5)
               else ([], a, if pos = 2 then None else Some pos))
        in case array_write ser is_set (array_turns a max_length) a (max_length - length head) start of
             (bs, a, next) \<Rightarrow>
               (case next of
                  Some pos \<Rightarrow> (head @ bs, a, pos)
                | None \<Rightarrow>
                    if length (head @ bs) < max_length then (head @ bs @ (if array_brackets a then [93] else []), a, 0)
                    else (head @ bs, a, 2)))"

subsection \<open>Reading\<close>

text \<open>\<open>IsNullValue\<close> with the offset 0: whether the value is null, if that is known, and the number of characters handled.\<close>

datatype validity = Is_null | Is_unknown | Is_invalid

fun is_null_value :: "u8 list \<Rightarrow> u8 list \<Rightarrow> validity \<times> nat" where
  "is_null_value [] cs = (Is_null, 0)"
| "is_null_value (t # ts) cs =
     (if length cs = 1 then (Is_unknown, 0)
      else if hd cs \<noteq> t then (Is_invalid, 1)
      else (case is_null_value ts (tl cs) of (v, n) \<Rightarrow> (v, n + 1)))"

text \<open>What stands between the elements; an element is begun for the first character of it.\<close>

definition array_between :: "'e \<Rightarrow> u8 \<Rightarrow> 'e json_array \<Rightarrow> nat \<Rightarrow> nat \<times> 'e json_array \<times> nat \<times> json_error option" where
  "array_between fresh c a pos =
     (if c = 93 then (1, a\<lparr>ar_set := True\<rparr>, 0, None)
      else if c = 44 then
        (if pos = 3 then (1, a\<lparr>ar_error := True, ar_set := False, ar_undefined := False\<rparr>, 0, Some Element_expected) else (1, a, 3, None))
      else if pos = 4 then (1, a, 0, Some (Unexpected_character c))
      else (0, array_add fresh a, 5, None))"

definition array_item :: "'e json_reader \<Rightarrow> u8 list \<Rightarrow> 'e json_array \<Rightarrow> nat \<Rightarrow> nat \<times> 'e json_array \<times> nat \<times> json_error option" where
  "array_item des cs a pos =
     (case des (last (ar_data a)) cs (pos - 5) of
        (n, e, pos, error) \<Rightarrow>
          (n, a\<lparr>ar_data := butlast (ar_data a) @ [e]\<rparr>, if pos = 0 then 4 else (pos + 5) mod 2 ^ 32, error))"

text \<open>One turn of the loop, with characters left.\<close>

definition array_read_turn :: "'e json_reader \<Rightarrow> 'e \<Rightarrow> u8 list \<Rightarrow> 'e json_array \<Rightarrow> nat \<Rightarrow> nat \<times> 'e json_array \<times> nat \<times> json_error option" where
  "array_read_turn des fresh cs a pos =
     (let blanks = (if pos = 3 \<or> pos = 4 then length (takeWhile is_space cs) else 0);
          cs = drop blanks cs;
          (used, a, pos, error) =
            (if (pos = 3 \<or> pos = 4) \<and> cs \<noteq> [] then array_between fresh (hd cs) a pos else (0, a, pos, None))
      in if 5 \<le> pos then (case array_item des (drop used cs) a pos of (n, a, pos, e) \<Rightarrow> (blanks + used + n, a, pos, if e = None then error else e))
         else (blanks + used, a, pos, error))"

fun array_read :: "'e json_reader \<Rightarrow> 'e \<Rightarrow> nat \<Rightarrow> u8 list \<Rightarrow> 'e json_array \<Rightarrow> nat \<Rightarrow> nat \<times> 'e json_array \<times> nat \<times> json_error option" where
  "array_read des fresh 0 cs a pos = (0, a, pos, None)"
| "array_read des fresh (Suc turns) cs a pos =
     (if pos = 0 \<or> cs = [] then (0, a, pos, None)
      else
        case array_read_turn des fresh cs a pos of
          (used, a, pos, error) \<Rightarrow>
            if error \<noteq> None then (used, a, pos, error)
            else (case array_read des fresh turns (drop used cs) a pos of (n, a, pos, error) \<Rightarrow> (used + n, a, pos, error)))"

definition array_deserialize :: "'e json_reader \<Rightarrow> 'e \<Rightarrow> 'e json_array \<Rightarrow> u8 list \<Rightarrow> nat \<Rightarrow> nat \<times> 'e json_array \<times> nat \<times> json_error option" where
  "array_deserialize des fresh a stream pos =
     (let blanks = (if pos = 0 then length (takeWhile is_space stream) else 0);
          cs = drop blanks stream;
          read = (\<lambda>used a pos. case array_read des fresh (2 * length stream + 2) (drop used stream) a pos of
             (n, a, pos, error) \<Rightarrow> (used + n, a, pos, error))
      in if cs = [] then (blanks, a, 0, None)
         else if pos \<noteq> 0 then read 0 a pos
         else if hd cs = 91 then read (blanks + 1) a 3
         else
           case is_null_value null_tag cs of
             (v, n) \<Rightarrow>
               (blanks + n, if v = Is_null then a\<lparr>ar_undefined := True, ar_extract := False, ar_set := False, ar_error := False\<rparr> else a,
                0, if v = Is_invalid then Some Invalid_value else None))"

end
