(* ===== verification/Json_Array_Facts.thy ===== *)
theory Json_Array_Facts
  imports Json_Array
begin

text \<open>An array of elements that keep the contract keeps it as well; it is proved once, for any element.\<close>

subsection \<open>The text\<close>

definition after_items :: "('v \<Rightarrow> u8 list) \<Rightarrow> 'v list \<Rightarrow> u8 list" where
  "after_items json vs = concat (map (\<lambda>v. 44 # json v) vs) @ [93]"

definition array_items :: "('v \<Rightarrow> u8 list) \<Rightarrow> 'v list \<Rightarrow> u8 list" where
  "array_items json vs = (case vs of [] \<Rightarrow> [93] | v # vs \<Rightarrow> json v @ after_items json vs)"

definition array_json :: "('v \<Rightarrow> u8 list) \<Rightarrow> 'v list \<Rightarrow> u8 list" where
  "array_json json vs = 91 # array_items json vs"

lemma after_items_simps [simp]:
  "after_items json [] = [93]" "after_items json (v # vs) = 44 # json v @ after_items json vs"
  by (simp_all add: after_items_def)

lemma array_items_simps [simp]:
  "array_items json [] = [93]" "array_items json (v # vs) = json v @ after_items json vs"
  by (simp_all add: array_items_def)

lemma after_items_begins: "\<exists>t ts. after_items json vs = t # ts \<and> ends_value t"
  by (cases vs) (simp_all add: ends_value_def)

definition array_holds :: "('e \<Rightarrow> 'v \<Rightarrow> bool) \<Rightarrow> ('e \<Rightarrow> bool) \<Rightarrow> 'e json_array \<Rightarrow> 'v list \<Rightarrow> bool" where
  "array_holds holds is_set a vs \<longleftrightarrow> \<not> ar_undefined a \<and> \<not> ar_extract a \<and> array_is_set a \<and>
     list_all2 holds (filter is_set (ar_data a)) vs"

subsection \<open>The elements that are set\<close>

lemma set_from_filter:
  "i \<le> length data \<Longrightarrow>
    (case set_from is_set data i of
       At_element j \<Rightarrow> i \<le> j \<and> j < length data \<and> is_set (data ! j) \<and>
         filter is_set (drop i data) = data ! j # filter is_set (drop (Suc j) data)
     | At_end \<Rightarrow> filter is_set (drop i data) = []
     | At_beginning \<Rightarrow> False)"
proof (induction "length data - i" arbitrary: i)
  case 0
  then show ?case by (simp add: set_from_def)
next
  case (Suc n)
  then have l: "i < length data" by simp
  then have u: "[i..<length data] = i # [Suc i..<length data]" "drop i data = data ! i # drop (Suc i) data"
    by (simp_all add: upt_conv_Cons Cons_nth_drop_Suc)
  show ?case
  proof (cases "is_set (data ! i)")
    case True
    then show ?thesis using l by (simp add: set_from_def u)
  next
    case False
    then have s: "set_from is_set data i = set_from is_set data (Suc i)" by (simp add: set_from_def u)
    have "n = length data - Suc i" "Suc i \<le> length data" using Suc.hyps(2) l by simp_all
    then show ?thesis using Suc.hyps(1) [of "Suc i"] False by (auto simp: s u split: array_iterator.splits)
  qed
qed

lemma set_from_cases:
  assumes "i \<le> length data"
  obtains (element) j where "set_from is_set data i = At_element j" "i \<le> j" "j < length data" "is_set (data ! j)"
    "filter is_set (drop i data) = data ! j # filter is_set (drop (Suc j) data)"
  | (ended) "set_from is_set data i = At_end" "filter is_set (drop i data) = []"
  using set_from_filter [OF assms, of is_set] by (cases "set_from is_set data i") auto

subsection \<open>Writing\<close>

lemma array_write_None [simp]: "array_write ser is_set turns a room None = ([], a, None)"
  by (cases turns) simp_all

text \<open>What is left to write while an element, or the comma in front of it, is at work.\<close>

definition array_running ::
  "('v \<Rightarrow> u8 list) \<Rightarrow> ('e \<Rightarrow> 'v \<Rightarrow> bool) \<Rightarrow> ('e \<Rightarrow> nat \<Rightarrow> u8 list \<Rightarrow> bool) \<Rightarrow> ('v \<Rightarrow> bool) \<Rightarrow> ('e \<Rightarrow> bool) \<Rightarrow>
    'e json_array \<Rightarrow> nat \<Rightarrow> u8 list \<Rightarrow> bool" where
  "array_running json holds writes ready is_set a pos rest \<longleftrightarrow> \<not> ar_undefined a \<and> \<not> ar_extract a \<and>
     (\<exists>i vs. ar_iterator a = At_element i \<and> i < length (ar_data a) \<and>
        list_all2 holds (filter is_set (drop (Suc i) (ar_data a))) vs \<and> list_all ready vs \<and>
        (pos = 1 \<and> (\<exists>v. holds (ar_data a ! i) v \<and> ready v \<and> rest = 44 # json v @ after_items json vs) \<or>
         5 \<le> pos \<and> (\<exists>r. writes (ar_data a ! i) (pos - 5) r \<and> rest = r @ after_items json vs)))"

definition array_writes ::
  "('v \<Rightarrow> u8 list) \<Rightarrow> ('e \<Rightarrow> 'v \<Rightarrow> bool) \<Rightarrow> ('e \<Rightarrow> nat \<Rightarrow> u8 list \<Rightarrow> bool) \<Rightarrow> ('v \<Rightarrow> bool) \<Rightarrow> ('e \<Rightarrow> bool) \<Rightarrow>
    'e json_array \<Rightarrow> nat \<Rightarrow> u8 list \<Rightarrow> bool" where
  "array_writes json holds writes ready is_set a pos rest \<longleftrightarrow>
     (if pos = 0 then \<exists>vs. rest = array_json json vs \<and> array_holds holds is_set a vs \<and> list_all ready vs
      else if pos = 2 then \<not> ar_undefined a \<and> \<not> ar_extract a \<and> rest = [93]
      else array_running json holds writes ready is_set a pos rest)"

context json_member
begin

lemma array_turn_element:
  assumes "array_running json holds writes ready is_set a pos rest" "5 \<le> pos" "0 < room" "top + 5 < 2 ^ 32"
  shows "\<exists>n a' goes. array_write_turn ser is_set a room pos = (take n rest, a', goes) \<and> n < length rest \<and> n \<le> room \<and>
    \<not> ar_undefined a' \<and> \<not> ar_extract a' \<and> length (ar_data a') = length (ar_data a) \<and>
    (case goes of
       None \<Rightarrow> drop n rest = [93]
     | Some p \<Rightarrow> array_running json holds writes ready is_set a' p (drop n rest) \<and>
         (n = room \<or> p = 1 \<and> (\<exists>i j. ar_iterator a = At_element i \<and> ar_iterator a' = At_element j \<and> i < j)))"
proof -
  obtain i vs r where i: "ar_iterator a = At_element i" "i < length (ar_data a)"
    "list_all2 holds (filter is_set (drop (Suc i) (ar_data a))) vs" "list_all ready vs"
    "writes (ar_data a ! i) (pos - 5) r" "rest = r @ after_items json vs" "\<not> ar_undefined a" "\<not> ar_extract a"
    using assms(1,2) by (auto simp: array_running_def)
  obtain e off where e: "ser (ar_data a ! i) room (pos - 5) = (take room r, e, off)"
    "off = 0 \<and> length r \<le> room \<or> off \<noteq> 0 \<and> room \<le> length r \<and> writes e off (drop room r)"
    using writes_part [OF i(5) assms(3)] by blast
  obtain b where b: "b = a\<lparr>ar_data := (ar_data a)[i := e]\<rparr>" by blast
  have long: "0 < length (after_items json vs)" by (simp add: after_items_def)
  have bd: "\<not> ar_undefined b" "\<not> ar_extract b" "length (ar_data b) = length (ar_data a)" "ar_data b ! i = e" "ar_iterator b = At_element i"
    "drop (Suc i) (ar_data b) = drop (Suc i) (ar_data a)"
    using i by (simp_all add: b)
  show ?thesis
  proof (cases "off = 0")
    case False
    then have o: "room \<le> length r" "writes e off (drop room r)" using e(2) by simp_all
    have "off \<le> top" using writes_top [OF o(2)] .
    then have m: "(off + 5) mod 2 ^ 32 = off + 5" using assms(4) by simp
    have "array_write_turn ser is_set a room pos = (take room rest, b, Some (off + 5))"
      using assms(2) i(1) e(1) False o(1) m by (simp add: array_write_turn_def Let_def b i(6))
    moreover have "array_running json holds writes ready is_set b (off + 5) (drop room rest)"
      using bd i(2-4) o by (auto simp: array_running_def i(6))
    moreover have "room < length rest" using long o(1) unfolding i(6) length_append by linarith
    ultimately show ?thesis using bd by (intro exI [of _ room] exI [of _ b] exI [of _ "Some (off + 5)"]) simp
  next
    case True
    then have o: "length r \<le> room" using e(2) by simp
    obtain b' where b': "b' = b\<lparr>ar_iterator := set_from is_set (ar_data b) (Suc i)\<rparr>" by blast
    have w: "array_write_turn ser is_set a room pos =
      (take (length r) rest, b', if set_from is_set (ar_data b) (Suc i) = At_end then None else Some 1)"
      using assms(2) i(1) e(1) True o by (simp add: array_write_turn_def Let_def b b' i(6))
    have lt: "length r < length rest" using long unfolding i(6) length_append by linarith
    have "Suc i \<le> length (ar_data b)" using i(2) bd(3) by simp
    then show ?thesis
    proof (cases rule: set_from_cases [of "Suc i" "ar_data b" is_set])
      case (element j)
      obtain v ws where v: "vs = v # ws" "holds (ar_data b ! j) v" "list_all2 holds (filter is_set (drop (Suc j) (ar_data b))) ws"
        using i(3) element(5) bd(6) by (cases vs) auto
      have "array_running json holds writes ready is_set b' 1 (drop (length r) rest)"
        using bd(1,2) element v i(4) by (auto simp: array_running_def b' i(6))
      moreover have "ar_iterator b' = At_element j" "i < j" using element by (simp_all add: b')
      ultimately show ?thesis
        using w bd i(1) lt o element(1)
        by (intro exI [of _ "length r"] exI [of _ b'] exI [of _ "Some 1"]) (simp add: b')
    next
      case ended
      then have "vs = []" using i(3) bd(6) by simp
      then show ?thesis using w bd o lt ended i(6) by (intro exI [of _ "length r"] exI [of _ b'] exI [of _ None]) (simp add: b')
    qed
  qed
qed


text \<open>The loop: \<open>room\<close> characters, or everything but the closing bracket.\<close>

lemma array_write_running:
  assumes "array_running json holds writes ready is_set a pos rest" "top + 5 < 2 ^ 32"
    and "ar_iterator a = At_element i" "room + 2 * (length (ar_data a) - i) < turns"
  shows "\<exists>n a' goes. array_write ser is_set turns a room (Some pos) = (take n rest, a', goes) \<and> n < length rest \<and> n \<le> room \<and>
    \<not> ar_undefined a' \<and> \<not> ar_extract a' \<and>
    (case goes of
       None \<Rightarrow> drop n rest = [93]
     | Some p \<Rightarrow> n = room \<and> array_running json holds writes ready is_set a' p (drop n rest))"
  using assms(1,3,4)
proof (induction turns arbitrary: a pos rest room i)
  case (Suc turns)
  have flags: "\<not> ar_undefined a" "\<not> ar_extract a" and rest: "0 < length rest" and il: "i < length (ar_data a)"
    using Suc.prems(1,2) by (auto simp: array_running_def after_items_def)
  show ?case
  proof (cases "room = 0")
    case True
    then show ?thesis using Suc.prems(1) flags rest by (intro exI [of _ 0] exI [of _ a] exI [of _ "Some pos"]) simp
  next
    case False
    have "\<exists>n a' goes. array_write_turn ser is_set a room pos = (take n rest, a', goes) \<and> n < length rest \<and> n \<le> room \<and>
      \<not> ar_undefined a' \<and> \<not> ar_extract a' \<and>
      (case goes of
         None \<Rightarrow> drop n rest = [93]
       | Some p \<Rightarrow> array_running json holds writes ready is_set a' p (drop n rest) \<and>
          (n = room \<or> (\<exists>j. ar_iterator a' = At_element j \<and> room - n + 2 * (length (ar_data a') - j) < turns)))"
    proof (cases "5 \<le> pos")
      case True
      obtain n a' goes where t: "array_write_turn ser is_set a room pos = (take n rest, a', goes)" "n < length rest" "n \<le> room"
        "\<not> ar_undefined a'" "\<not> ar_extract a'" "length (ar_data a') = length (ar_data a)"
        "case goes of
           None \<Rightarrow> drop n rest = [93]
         | Some p \<Rightarrow> array_running json holds writes ready is_set a' p (drop n rest) \<and>
             (n = room \<or> p = 1 \<and> (\<exists>i j. ar_iterator a = At_element i \<and> ar_iterator a' = At_element j \<and> i < j))"
        using array_turn_element [OF Suc.prems(1) True _ assms(2), of room] False by blast
      have "room - n + 2 * (length (ar_data a') - j) < turns" if "i < j" for j
      proof -
        have "2 * (length (ar_data a') - j) + 2 \<le> 2 * (length (ar_data a) - i)" using that il t(6) by simp
        then show ?thesis using Suc.prems(3) by linarith
      qed
      then show ?thesis using t Suc.prems(2) by (intro exI [of _ n] exI [of _ a'] exI [of _ goes]) (auto split: option.splits)
    next
      case False
      then obtain v vs where c: "pos = 1" "holds (ar_data a ! i) v" "ready v" "rest = 44 # json v @ after_items json vs"
        "list_all2 holds (filter is_set (drop (Suc i) (ar_data a))) vs" "list_all ready vs"
        using Suc.prems(1,2) by (auto simp: array_running_def)
      have "writes (ar_data a ! i) 0 (json v)" using writes_start c(2,3) by blast
      then have "array_running json holds writes ready is_set a 5 (json v @ after_items json vs)"
        using flags Suc.prems(2) il c(5,6) by (auto simp: array_running_def)
      then show ?thesis
        using c(1,4) flags Suc.prems(2,3) \<open>room \<noteq> 0\<close> rest
        by (intro exI [of _ 1] exI [of _ a] exI [of _ "Some 5"]) (auto simp: array_write_turn_def after_items_def)
    qed
    then obtain n a' goes where t: "array_write_turn ser is_set a room pos = (take n rest, a', goes)" "n < length rest" "n \<le> room"
      "\<not> ar_undefined a'" "\<not> ar_extract a'"
      "case goes of
         None \<Rightarrow> drop n rest = [93]
       | Some p \<Rightarrow> array_running json holds writes ready is_set a' p (drop n rest) \<and>
          (n = room \<or> (\<exists>j. ar_iterator a' = At_element j \<and> room - n + 2 * (length (ar_data a') - j) < turns))"
      by blast
    have len: "length (take n rest) = n" using t(2) by simp
    have step: "array_write ser is_set (Suc turns) a room (Some pos) =
      (case array_write ser is_set turns a' (room - n) goes of (cs, a, pos) \<Rightarrow> (take n rest @ cs, a, pos))"
      using False len by (simp add: t(1))
    show ?thesis
    proof (cases goes)
      case None
      then show ?thesis using step t None by (intro exI [of _ n] exI [of _ a'] exI [of _ None]) simp
    next
      case (Some p)
      show ?thesis
      proof (cases "n = room")
        case True
        then have "array_write ser is_set turns a' (room - n) goes = ([], a', Some p)" using Some by (cases turns) simp_all
        then show ?thesis using step t Some True by (intro exI [of _ n] exI [of _ a'] exI [of _ "Some p"]) simp
      next
        case False
        then obtain j where j: "ar_iterator a' = At_element j" "room - n + 2 * (length (ar_data a') - j) < turns"
          "array_running json holds writes ready is_set a' p (drop n rest)"
          using t(6) Some by auto
        from Suc.IH [OF j(3,1,2)] obtain m b goes' where
          m: "array_write ser is_set turns a' (room - n) (Some p) = (take m (drop n rest), b, goes')" "m < length (drop n rest)"
          "m \<le> room - n" "\<not> ar_undefined b" "\<not> ar_extract b"
          "case goes' of None \<Rightarrow> drop m (drop n rest) = [93]
            | Some q \<Rightarrow> m = room - n \<and> array_running json holds writes ready is_set b q (drop m (drop n rest))"
          by blast
        have "array_write ser is_set (Suc turns) a room (Some pos) = (take (n + m) rest, b, goes')"
          unfolding step Some m(1) prod.case take_add ..
        moreover have "n + m < length rest" "n + m \<le> room" using m(2,3) t(2,3) by simp_all
        moreover have "drop m (drop n rest) = drop (n + m) rest" by (simp add: add.commute)
        ultimately show ?thesis using m(4-6) t(3)
          by (intro exI [of _ "n + m"] exI [of _ b] exI [of _ goes']) (auto split: option.splits)
      qed
    qed
  qed
qed simp


text \<open>A part of the text of the array.\<close>

lemma array_serialize_running:
  assumes "array_running json holds writes ready is_set a pos rest" "top + 5 < 2 ^ 32" "0 < m"
    and "turns = array_turns a n" "m \<le> n" "array_brackets a"
  shows "\<exists>b p. (case array_write ser is_set turns a m (Some pos) of
      (bs, a, later) \<Rightarrow>
        (case later of
           Some pos \<Rightarrow> (bs, a, pos)
         | None \<Rightarrow> if length bs < m then (bs @ (if array_brackets a then [93] else []), a, 0) else (bs, a, 2))) = (take m rest, b, p) \<and>
    (p = 0 \<and> length rest \<le> m \<or> p \<noteq> 0 \<and> m \<le> length rest \<and> array_writes json holds writes ready is_set b p (drop m rest))"
proof -
  obtain i where i: "ar_iterator a = At_element i" using assms(1) by (auto simp: array_running_def)
  have "m + 2 * (length (ar_data a) - i) < turns" using assms(4,5) by (simp add: array_turns_def)
  from array_write_running [OF assms(1,2) i this] obtain k b goes where
    w: "array_write ser is_set turns a m (Some pos) = (take k rest, b, goes)" "k < length rest" "k \<le> m" "\<not> ar_undefined b" "\<not> ar_extract b"
    "case goes of None \<Rightarrow> drop k rest = [93] | Some p \<Rightarrow> k = m \<and> array_running json holds writes ready is_set b p (drop k rest)"
    by blast
  have len: "length (take k rest) = k" using w(2) by simp
  show ?thesis
  proof (cases goes)
    case None
    then have d: "drop k rest = [93]" using w(6) by simp
    then have r: "rest = take k rest @ [93]" "length rest = Suc k" by (metis append_take_drop_id, metis len length_append_singleton append_take_drop_id)
    show ?thesis
    proof (cases "k < m")
      case True
      then have "take m rest = take k rest @ [93]" using r by simp
      then show ?thesis using True w(5) len r(2) by (simp add: w(1) None array_brackets_def)
    next
      case False
      then have "k = m" using w(3) by simp
      moreover have "array_writes json holds writes ready is_set b 2 (drop k rest)" using w(4,5) d by (simp add: array_writes_def)
      ultimately show ?thesis using len r(2) by (simp add: w(1) None)
    qed
  next
    case (Some p)
    then have "k = m" "array_running json holds writes ready is_set b p (drop m rest)" using w(6) by auto
    moreover have "p \<noteq> 0 \<and> p \<noteq> 2" using calculation(2) by (auto simp: array_running_def)
    ultimately show ?thesis using w(2) by (simp add: w(1) Some array_writes_def)
  qed
qed

lemma array_writes_part:
  assumes "array_writes json holds writes ready is_set a pos rest" "top + 5 < 2 ^ 32" "0 < n"
  shows "\<exists>b p. array_serialize ser is_set a n pos = (take n rest, b, p) \<and>
    (p = 0 \<and> length rest \<le> n \<or> p \<noteq> 0 \<and> n \<le> length rest \<and> array_writes json holds writes ready is_set b p (drop n rest))"
proof -
  have u: "\<not> ar_undefined a" "\<not> ar_extract a" using assms(1) by (auto simp: array_writes_def array_holds_def array_running_def split: if_splits)
  then have br: "array_brackets a" by (simp add: array_brackets_def)
  consider (start) "pos = 0" | (ended) "pos = 2" | (running) "pos \<noteq> 0" "pos \<noteq> 2" by blast
  then show ?thesis
  proof cases
    case ended
    then have "rest = [93]" using assms(1) by (simp add: array_writes_def)
    then show ?thesis using ended u br assms(3) by (simp add: array_serialize_def)
  next
    case running
    then have r: "array_running json holds writes ready is_set a pos rest" using assms(1) by (simp add: array_writes_def)
    from array_serialize_running [OF r assms(2,3) refl order_refl br] show ?thesis
      using u running by (simp add: array_serialize_def cong: if_cong)
  next
    case start
    then obtain vs where vs: "rest = array_json json vs" "list_all2 holds (filter is_set (ar_data a)) vs" "list_all ready vs"
      using assms(1) by (auto simp: array_writes_def array_holds_def)
    obtain b where b: "b = a\<lparr>ar_iterator := set_from is_set (ar_data a) 0\<rparr>" by blast
    have bb: "array_brackets b" "array_turns b n = array_turns a n" "\<not> ar_undefined b" "\<not> ar_extract b"
      using br u by (simp_all add: b array_brackets_def array_turns_def)
    have rest: "rest = 91 # array_items json vs" using vs(1) by (simp add: array_json_def)
    obtain m where m: "n = Suc m" using assms(3) by (cases n) auto
    have "0 \<le> length (ar_data a)" by simp
    then show ?thesis
    proof (cases rule: set_from_cases [of 0 "ar_data a" is_set])
      case (element j)
      obtain v ws where v: "vs = v # ws" "holds (ar_data a ! j) v" "list_all2 holds (filter is_set (drop (Suc j) (ar_data a))) ws"
        using vs(2) element(5) by (cases vs) auto
      have "writes (ar_data a ! j) 0 (json v)" using writes_start v(1,2) vs(3) by simp
      then have run: "array_running json holds writes ready is_set b 5 (array_items json vs)"
        using bb(3,4) element v vs(3) by (auto simp: array_running_def b)
      have ser: "array_serialize ser is_set a n 0 =
        (case array_write ser is_set (array_turns b n) b m (Some 5) of
           (bs, a, later) \<Rightarrow>
             (case later of
                Some pos \<Rightarrow> (91 # bs, a, pos)
              | None \<Rightarrow> if length bs < m then (91 # bs @ (if array_brackets a then [93] else []), a, 0) else (91 # bs, a, 2)))"
        using u(1) br element(1) by (simp add: array_serialize_def b m array_turns_def Let_def cong: if_cong option.case_cong)
      show ?thesis
      proof (cases "m = 0")
        case True
        then have "array_write ser is_set (array_turns b n) b m (Some 5) = ([], b, Some 5)" by (simp add: array_turns_def)
        then have "array_serialize ser is_set a n 0 = ([91], b, 5)" unfolding ser by simp
        moreover have "array_writes json holds writes ready is_set b 5 (array_items json vs)" using run by (simp add: array_writes_def)
        ultimately show ?thesis using start True by (intro exI [of _ b] exI [of _ 5]) (simp add: m rest)
      next
        case False
        then have "0 < m" "m \<le> n" using m by simp_all
        from array_serialize_running [OF run assms(2) this(1) refl this(2) bb(1)] obtain c p where
          c: "(case array_write ser is_set (array_turns b n) b m (Some 5) of
            (bs, a, later) \<Rightarrow>
              (case later of
                 Some pos \<Rightarrow> (bs, a, pos)
               | None \<Rightarrow> if length bs < m then (bs @ (if array_brackets a then [93] else []), a, 0) else (bs, a, 2))) =
            (take m (array_items json vs), c, p)"
          "p = 0 \<and> length (array_items json vs) \<le> m \<or> p \<noteq> 0 \<and> m \<le> length (array_items json vs) \<and>
            array_writes json holds writes ready is_set c p (drop m (array_items json vs))"
          by blast
        have "array_serialize ser is_set a n 0 = (91 # take m (array_items json vs), c, p)"
          unfolding ser using c(1) by (auto split: prod.splits option.splits if_splits)
        then show ?thesis using c(2) by (intro exI [of _ c] exI [of _ p]) (simp add: start m rest)
      qed
    next
      case ended
      then have "vs = []" using vs(2) by simp
      moreover have "array_serialize ser is_set a n 0 = (if m = 0 then ([91], b, 2) else ([91, 93], b, 0))"
        using u(1) br ended(1) by (simp add: array_serialize_def m b array_brackets_def Let_def)
      ultimately show ?thesis
        using bb(3,4) start by (cases "m = 0") (auto simp: m rest array_writes_def)
    qed
  qed
qed

end

subsection \<open>Reading\<close>

text \<open>What is expected after the opening bracket, and what the array holds by then.\<close>

definition array_reading ::
  "('v \<Rightarrow> u8 list) \<Rightarrow> ('e \<Rightarrow> 'v \<Rightarrow> bool) \<Rightarrow> ('v \<Rightarrow> bool) \<Rightarrow> ('v \<Rightarrow> 'e \<Rightarrow> nat \<Rightarrow> u8 list \<Rightarrow> bool) \<Rightarrow>
    'v list \<Rightarrow> 'e json_array \<Rightarrow> nat \<Rightarrow> u8 list \<Rightarrow> bool" where
  "array_reading json holds ready reads vs a pos body \<longleftrightarrow> \<not> ar_undefined a \<and> \<not> ar_extract a \<and> list_all ready vs \<and>
     (pos = 3 \<and> (\<exists>ws us. vs = ws @ us \<and> list_all2 holds (ar_data a) ws \<and> body = array_items json us \<and> (ws = [] \<or> us \<noteq> [])) \<or>
      pos = 4 \<and> (\<exists>ws us. vs = ws @ us \<and> list_all2 holds (ar_data a) ws \<and> body = after_items json us) \<or>
      5 \<le> pos \<and> (\<exists>ds e ws v us r. ar_data a = ds @ [e] \<and> vs = ws @ v # us \<and> list_all2 holds ds ws \<and>
        reads v e (pos - 5) r \<and> body = r @ after_items json us))"

definition array_reads ::
  "('v \<Rightarrow> u8 list) \<Rightarrow> ('e \<Rightarrow> 'v \<Rightarrow> bool) \<Rightarrow> ('v \<Rightarrow> bool) \<Rightarrow> ('v \<Rightarrow> 'e \<Rightarrow> nat \<Rightarrow> u8 list \<Rightarrow> bool) \<Rightarrow>
    'v list \<Rightarrow> 'e json_array \<Rightarrow> nat \<Rightarrow> u8 list \<Rightarrow> bool" where
  "array_reads json holds ready reads vs a pos body \<longleftrightarrow>
     (if pos = 0 then body = array_json json vs \<and> \<not> ar_undefined a \<and> \<not> ar_extract a \<and> ar_data a = [] \<and> list_all ready vs
      else array_reading json holds ready reads vs a pos body)"

definition stage :: "nat \<Rightarrow> nat" where
  "stage pos = (if 5 \<le> pos then 1 else 0)"

context json_member
begin

lemma array_item_part:
  assumes "ar_data a = ds @ [e]" "vs = ws @ v # us" "list_all2 holds ds ws" "reads v e (pos - 5) r" "5 \<le> pos" "top + 5 < 2 ^ 32"
    and "cs @ rest = r @ after_items json us @ beyond" "cs \<noteq> []" "\<not> ar_undefined a" "\<not> ar_extract a" "list_all ready vs"
  shows "\<exists>n a' p body. array_item des cs a pos = (n, a', p, None) \<and> n \<le> length cs \<and> p \<noteq> 0 \<and>
    array_reading json holds ready reads vs a' p body \<and> drop n cs @ rest = body @ beyond \<and>
    (p = 4 \<and> n = length r \<or> 5 < p \<and> n = length cs)"
proof -
  obtain t ts where after: "after_items json us = t # ts" "ends_value t" using after_items_begins by blast
  have "cs @ rest = r @ t # (ts @ beyond)" using assms(7) after(1) by simp
  from item_part [OF assms(4) this after(2) assms(8)] obtain n e' off where
    d: "des e cs (pos - 5) = (n, e', off, None)" "n \<le> length cs"
      "off = 0 \<and> holds e' v \<and> n = length r \<and> drop n cs @ rest = t # ts @ beyond \<or>
       off \<noteq> 0 \<and> n = length cs \<and> (\<exists>r'. reads v e' off r' \<and> rest = r' @ t # ts @ beyond)"
    by auto
  obtain b where b: "b = a\<lparr>ar_data := ds @ [e']\<rparr>" by blast
  show ?thesis
  proof (cases "off = 0")
    case True
    then have "array_item des cs a pos = (n, b, 4, None)" using d(1) assms(1) by (simp add: array_item_def b)
    moreover have "array_reading json holds ready reads vs b 4 (after_items json us)"
    proof -
      have "list_all2 holds (ar_data b) (ws @ [v])" "vs = (ws @ [v]) @ us"
        using assms(2,3) d(3) True by (simp_all add: b list_all2_appendI)
      moreover have "\<not> ar_undefined b" "\<not> ar_extract b" using assms(9,10) by (simp_all add: b)
      ultimately show ?thesis using assms(11) unfolding array_reading_def by blast
    qed
    ultimately show ?thesis using d(2,3) True after(1) by auto
  next
    case False
    then obtain r' where r': "reads v e' off r'" "rest = r' @ t # ts @ beyond" "n = length cs" using d(3) by blast
    have "off \<le> top" using reads_top [OF r'(1)] .
    then have "array_item des cs a pos = (n, b, off + 5, None)" using d(1) assms(1,6) False by (simp add: array_item_def b)
    moreover have "array_reading json holds ready reads vs b (off + 5) (r' @ after_items json us)"
      unfolding array_reading_def using assms(2,3,9-11) r'(1) by (auto simp: b)
    ultimately show ?thesis using r' False after(1)
      by (intro exI [of _ n] exI [of _ b] exI [of _ "off + 5"] exI [of _ "r' @ after_items json us"]) simp
  qed
qed


lemma holds_all_set: "list_all2 holds es vs \<Longrightarrow> filter is_set es = es"
  by (induction es vs rule: list_all2_induct) (auto dest: holds_set)

lemma array_turn_part:
  assumes "array_reading json holds ready reads vs a pos body" "cs @ rest = body @ beyond" "cs \<noteq> []" "top + 5 < 2 ^ 32"
  shows "\<exists>n a' p. array_read_turn des fresh cs a pos = (n, a', p, None) \<and> n \<le> length cs \<and>
    (p = 0 \<and> n = length body \<and> array_holds holds is_set a' vs \<or>
     p \<noteq> 0 \<and> 2 * length (drop n cs) + stage p < 2 * length cs + stage pos \<and>
       (\<exists>body'. array_reading json holds ready reads vs a' p body' \<and> drop n cs @ rest = body' @ beyond))"
proof -
  have flags: "\<not> ar_undefined a" "\<not> ar_extract a" "list_all ready vs" using assms(1) by (auto simp: array_reading_def)
  obtain c cs' where c: "cs = c # cs'" using assms(3) by (cases cs) auto
  have closing: ?thesis if "c = 93" "body = [93]" "pos = 3 \<or> pos = 4" "list_all2 holds (ar_data a) vs"
  proof -
    have "array_read_turn des fresh cs a pos = (1, a\<lparr>ar_set := True\<rparr>, 0, None)"
      using that(1,3) by (auto simp: array_read_turn_def array_between_def c is_space_def)
    moreover have "filter is_set (ar_data a) = ar_data a"
      using that(4) by (rule holds_all_set)
    ultimately show ?thesis using that(2,4) flags by (simp add: c array_holds_def array_is_set_def)
  qed
  consider (before) ws us where "pos = 3" "vs = ws @ us" "list_all2 holds (ar_data a) ws" "body = array_items json us" "ws = [] \<or> us \<noteq> []"
    | (behind) ws us where "pos = 4" "vs = ws @ us" "list_all2 holds (ar_data a) ws" "body = after_items json us"
    | (inside) ds e ws v us r where "5 \<le> pos" "ar_data a = ds @ [e]" "vs = ws @ v # us" "list_all2 holds ds ws"
        "reads v e (pos - 5) r" "body = r @ after_items json us"
    using assms(1) unfolding array_reading_def by blast
  then show ?thesis
  proof cases
    case behind
    show ?thesis
    proof (cases us)
      case Nil
      then show ?thesis using closing behind assms(2) by (simp add: c)
    next
      case (Cons u us')
      then have c44: "c = 44" "cs' @ rest = array_items json us @ beyond" using assms(2) behind(4) by (simp_all add: c)
      have "array_read_turn des fresh cs a pos = (1, a, 3, None)"
        by (simp add: array_read_turn_def array_between_def c c44(1) is_space_def behind(1))
      moreover have "array_reading json holds ready reads vs a 3 (array_items json us)"
        using flags behind(2,3) Cons unfolding array_reading_def by blast
      ultimately show ?thesis using c44(2)
        by (intro exI [of _ 1] exI [of _ a] exI [of _ 3]) (auto simp: c stage_def behind(1))
    qed
  next
    case inside
    have "cs @ rest = r @ after_items json us @ beyond" using assms(2) inside(6) by simp
    from array_item_part [OF inside(2-5,1) assms(4) this assms(3) flags] obtain n a' p body' where
      t: "array_item des cs a pos = (n, a', p, None)" "n \<le> length cs" "p \<noteq> 0" "array_reading json holds ready reads vs a' p body'"
        "drop n cs @ rest = body' @ beyond" "p = 4 \<and> n = length r \<or> 5 < p \<and> n = length cs"
      by blast
    have "array_read_turn des fresh cs a pos = (n, a', p, None)" using inside(1) t(1) by (simp add: array_read_turn_def)
    moreover have "2 * length (drop n cs) + stage p < 2 * length cs + stage pos"
      using t(6) inside(1) assms(3) by (auto simp: stage_def c)
    ultimately show ?thesis using t by blast
  next
    case before
    show ?thesis
    proof (cases us)
      case Nil
      then show ?thesis using closing before assms(2) by (simp add: c)
    next
      case (Cons v us')
      have ready: "ready v" using flags(3) before(2) by (simp add: Cons)
      then obtain k ks where k: "json v = k # ks" "\<not> ends_value k" using json_begins by blast
      then have ck: "c = k" using assms(2) before(4) by (simp add: c Cons)
      have nb: "\<not> is_space c" "c \<noteq> 93" "c \<noteq> 44" using k(2) by (auto simp: ck ends_value_def)
      obtain b where b: "b = array_add fresh a" by blast
      have bd: "ar_data b = ar_data a @ [fresh]" "\<not> ar_undefined b" "\<not> ar_extract b" using flags by (simp_all add: b array_add_def)
      have "cs @ rest = json v @ after_items json us' @ beyond" using assms(2) before(4) by (simp add: Cons)
      moreover have "reads v fresh (5 - 5) (json v)" using fresh_reads [OF ready] by simp
      ultimately obtain n a' p body' where
        t: "array_item des cs b 5 = (n, a', p, None)" "n \<le> length cs" "p \<noteq> 0" "array_reading json holds ready reads vs a' p body'"
          "drop n cs @ rest = body' @ beyond" "p = 4 \<and> n = length (json v) \<or> 5 < p \<and> n = length cs"
        using array_item_part [OF bd(1) _ before(3) _ order_refl assms(4) _ assms(3) bd(2,3) flags(3)] before(2) Cons by blast
      have "array_read_turn des fresh cs a pos = (n, a', p, None)"
        using nb t(1) by (simp add: array_read_turn_def array_between_def c b before(1))
      moreover have "2 * length (drop n cs) + stage p < 2 * length cs + stage pos"
      proof -
        have n: "0 < n" using t(6) k(1) by (auto simp: c)
        have "2 * length (drop n cs) + 2 \<le> 2 * length cs" using n t(2) by simp
        moreover have "stage p \<le> 1" by (simp add: stage_def)
        ultimately show ?thesis by linarith
      qed
      ultimately show ?thesis using t by blast
    qed
  qed
qed

text \<open>The loop.\<close>

lemma array_read_part:
  assumes "array_reading json holds ready reads vs a pos body" "cs @ rest = body @ beyond" "top + 5 < 2 ^ 32"
    and "2 * length cs + stage pos < turns"
  shows "\<exists>n a' p. array_read des fresh turns cs a pos = (n, a', p, None) \<and> n \<le> length cs \<and>
    (p = 0 \<and> n = length body \<and> array_holds holds is_set a' vs \<or>
     p \<noteq> 0 \<and> n = length cs \<and> (\<exists>body'. array_reading json holds ready reads vs a' p body' \<and> rest = body' @ beyond))"
  using assms(1,2,4)
proof (induction turns arbitrary: cs a pos body)
  case (Suc turns)
  have p0: "pos \<noteq> 0" using Suc.prems(1) by (auto simp: array_reading_def)
  show ?case
  proof (cases "cs = []")
    case True
    then show ?thesis using Suc.prems(1,2) p0 by auto
  next
    case False
    from array_turn_part [OF Suc.prems(1,2) False assms(3)] obtain n a1 p1 where
      t: "array_read_turn des fresh cs a pos = (n, a1, p1, None)" "n \<le> length cs"
        "p1 = 0 \<and> n = length body \<and> array_holds holds is_set a1 vs \<or>
         p1 \<noteq> 0 \<and> 2 * length (drop n cs) + stage p1 < 2 * length cs + stage pos \<and>
           (\<exists>body'. array_reading json holds ready reads vs a1 p1 body' \<and> drop n cs @ rest = body' @ beyond)"
      by blast
    have step: "array_read des fresh (Suc turns) cs a pos =
      (case array_read des fresh turns (drop n cs) a1 p1 of (m, a, pos, error) \<Rightarrow> (n + m, a, pos, error))"
      using False p0 by (simp add: t(1))
    show ?thesis
    proof (cases "p1 = 0")
      case True
      then have "array_read des fresh turns (drop n cs) a1 p1 = (0, a1, 0, None)" by (cases turns) simp_all
      then show ?thesis using t(2,3) True unfolding step by simp
    next
      case False
      then obtain body' where 1: "2 * length (drop n cs) + stage p1 < 2 * length cs + stage pos"
        "array_reading json holds ready reads vs a1 p1 body'" "drop n cs @ rest = body' @ beyond" using t(3) by blast
      have "2 * length (drop n cs) + stage p1 < turns" using 1(1) Suc.prems(3) by linarith
      from Suc.IH [OF 1(2,3) this] obtain m a2 p2 where
        2: "array_read des fresh turns (drop n cs) a1 p1 = (m, a2, p2, None)" "m \<le> length (drop n cs)"
          "p2 = 0 \<and> m = length body' \<and> array_holds holds is_set a2 vs \<or>
           p2 \<noteq> 0 \<and> m = length (drop n cs) \<and> (\<exists>body'. array_reading json holds ready reads vs a2 p2 body' \<and> rest = body' @ beyond)"
        by blast
      have "n + length body' = length body"
      proof -
        have "length (drop n cs) + length rest = length body' + length beyond" using arg_cong [OF 1(3), of length] by simp
        moreover have "length cs + length rest = length body + length beyond" using arg_cong [OF Suc.prems(2), of length] by simp
        ultimately show ?thesis using t(2) by simp
      qed
      then show ?thesis using 2 t(2) unfolding step by auto
    qed
  qed
qed simp


subsection \<open>The contract\<close>

lemma array_deserialize_reading:
  assumes "array_reads json holds ready reads vs a pos body" "cs @ rest = body @ beyond" "cs \<noteq> []" "top + 5 < 2 ^ 32"
  shows "\<exists>n a' p. array_deserialize des fresh a cs pos = (n, a', p, None) \<and> n \<le> length cs \<and>
    (p = 0 \<and> n = length body \<and> array_holds holds is_set a' vs \<or>
     p \<noteq> 0 \<and> n = length cs \<and> (\<exists>body'. array_reading json holds ready reads vs a' p body' \<and> rest = body' @ beyond))"
proof (cases "pos = 0")
  case False
  then have r: "array_reading json holds ready reads vs a pos body" using assms(1) by (simp add: array_reads_def)
  have "2 * length cs + stage pos < 2 * length cs + 2" by (simp add: stage_def)
  from array_read_part [OF r assms(2,4) this] show ?thesis using False assms(3)
    by (auto simp: array_deserialize_def Let_def simp del: array_read.simps)
next
  case True
  then have a: "body = 91 # array_items json vs" "\<not> ar_undefined a" "\<not> ar_extract a" "ar_data a = []" "list_all ready vs"
    using assms(1) by (simp_all add: array_reads_def array_json_def)
  obtain ds where c: "cs = 91 # ds" "ds @ rest = array_items json vs @ beyond" using assms(2,3) a(1) by (cases cs) auto
  have r: "array_reading json holds ready reads vs a 3 (array_items json vs)" using a by (auto simp: array_reading_def)
  have "2 * length ds + stage 3 < 2 * length cs + 2" by (simp add: stage_def c)
  from array_read_part [OF r c(2) assms(4) this] obtain n a' p where
    "array_read des fresh (2 * length cs + 2) ds a 3 = (n, a', p, None)" "n \<le> length ds"
    "p = 0 \<and> n = length (array_items json vs) \<and> array_holds holds is_set a' vs \<or>
     p \<noteq> 0 \<and> n = length ds \<and> (\<exists>body'. array_reading json holds ready reads vs a' p body' \<and> rest = body' @ beyond)"
    by blast
  then show ?thesis using True by (auto simp: array_deserialize_def Let_def c(1) is_space_def a(1) simp del: array_read.simps)
qed

lemma array_member:
  assumes "top + 5 < 2 ^ 32"
  shows "json_member (array_json json) (array_holds holds is_set) (array_serialize ser is_set)
    (array_writes json holds writes ready is_set) array_clear (array_deserialize des fresh) (list_all ready)
    (array_reads json holds ready reads) new_array array_is_set (top + 5)"
proof unfold_locales
  show "\<exists>c cs. array_json json vs = c # cs \<and> \<not> ends_value c" for vs
    by (simp add: array_json_def ends_value_def is_space_def)
  show "array_writes json holds writes ready is_set a 0 (array_json json vs)"
    if "list_all ready vs" "array_holds holds is_set a vs" for vs a
    using that by (auto simp: array_writes_def)
  show "\<exists>b p. array_serialize ser is_set a n pos = (take n rest, b, p) \<and>
      (p = 0 \<and> length rest \<le> n \<or> p \<noteq> 0 \<and> n \<le> length rest \<and> array_writes json holds writes ready is_set b p (drop n rest))"
    if "array_writes json holds writes ready is_set a pos rest" "0 < n" for a pos rest n
    using that by (intro array_writes_part assms)
  show "array_reads json holds ready reads vs (array_clear a) 0 (array_json json vs)" if "list_all ready vs" for vs a
    using that by (simp add: array_reads_def array_clear_def)
  show "array_reads json holds ready reads vs new_array 0 (array_json json vs)" if "list_all ready vs" for vs
    using that by (simp add: array_reads_def new_array_def)
  show "\<exists>a' p. array_deserialize des fresh a cs pos = (length cs, a', p, None) \<and>
      (p = 0 \<and> rest = [] \<and> array_holds holds is_set a' vs \<or> p \<noteq> 0 \<and> array_reads json holds ready reads vs a' p rest)"
    if r: "array_reads json holds ready reads vs a pos (cs @ rest)" "cs \<noteq> []" for vs a pos cs rest
  proof -
    have "cs @ rest = (cs @ rest) @ []" by simp
    from array_deserialize_reading [OF r(1) this r(2) assms] obtain n a' p where
      d: "array_deserialize des fresh a cs pos = (n, a', p, None)" "n \<le> length cs"
        "p = 0 \<and> n = length (cs @ rest) \<and> array_holds holds is_set a' vs \<or>
         p \<noteq> 0 \<and> n = length cs \<and> (\<exists>body'. array_reading json holds ready reads vs a' p body' \<and> rest = body' @ [])" by blast
    then show ?thesis by (auto simp: array_reads_def)
  qed
  show "\<exists>a'. array_deserialize des fresh a (rest @ t # tail) pos = (length rest, a', 0, None) \<and> array_holds holds is_set a' vs"
    if r: "array_reads json holds ready reads vs a pos rest" "ends_value t" for vs a pos rest t tail
  proof -
    have "(rest @ t # tail) @ [] = rest @ (t # tail)" "rest @ t # tail \<noteq> []" by simp_all
    from array_deserialize_reading [OF r(1) this assms] show ?thesis by auto
  qed
  show "array_is_set a" if "array_holds holds is_set a vs" for a vs using that by (simp add: array_holds_def)
  show "pos \<le> top + 5" if "array_writes json holds writes ready is_set a pos rest" for a pos rest
    using that writes_top by (fastforce simp: array_writes_def array_running_def split: if_splits)
  show "pos \<le> top + 5" if "array_reads json holds ready reads vs a pos rest" for vs a pos rest
    using that reads_top by (fastforce simp: array_reads_def array_reading_def split: if_splits)
qed

end

end
