(* ===== verification/Json_Reading.thy ===== *)
theory Json_Reading
  imports Json_Writing Json_Array_Facts
begin

text \<open>What a JSON string reads: the code points of its text, whatever the parts, and its contract as an element.\<close>

subsection \<open>Characters that are taken\<close>

text \<open>A text of which every character is taken, without an end of the string and without an error.\<close>

fun read_all :: "u8 list \<Rightarrow> json_string \<Rightarrow> json_string option" where
  "read_all [] s = Some s"
| "read_all (c # cs) s = (case read_char c s of (True, False, s', None) \<Rightarrow> read_all cs s' | _ \<Rightarrow> None)"

lemma read_all_Cons: "read_all (c # cs) s = Some t \<longleftrightarrow> (\<exists>s'. read_char c s = (True, False, s', None) \<and> read_all cs s' = Some t)"
  by (auto split: prod.splits bool.splits option.splits)

lemma read_all_append: "read_all (cs @ ds) s = Some t \<longleftrightarrow> (\<exists>s'. read_all cs s = Some s' \<and> read_all ds s' = Some t)"
  by (induction cs arbitrary: s) (simp_all only: append_Cons append_Nil read_all_Cons, auto)

lemma read_all_chars:
  "read_all cs s = Some s' \<Longrightarrow>
    read_chars (cs @ tail) s error = (case read_chars tail s' error of (n, finished, t, e) \<Rightarrow> (length cs + n, finished, t, e))"
proof (induction cs arbitrary: s)
  case (Cons c cs)
  then obtain s1 where 1: "read_char c s = (True, False, s1, None)" "read_all cs s1 = Some s'" using read_all_Cons by blast
  show ?case using Cons.IH [OF 1(2)] by (simp add: read_chars.simps(2) 1(1) split: prod.splits)
qed simp

text \<open>What a character does not change.\<close>

lemma read_char_keeps:
  "read_char c s = (consumed, finished, s', error) \<Longrightarrow>
    js_quote_found s' = js_quote_found s \<and> js_null s' = js_null s \<and> length (js_value s) \<le> length (js_value s')"
  by (auto simp: read_char_def quoted_char_def opaque_char_def opaque_scope_def in_scope_def out_scope_def end_unicode_def Let_def
      split: if_splits option.splits prod.splits)

lemma read_all_keeps:
  "read_all cs s = Some s' \<Longrightarrow>
    js_quote_found s' = js_quote_found s \<and> js_null s' = js_null s \<and> length (js_value s) \<le> length (js_value s')"
proof (induction cs arbitrary: s)
  case (Cons c cs)
  then obtain s1 where 1: "read_char c s = (True, False, s1, None)" "read_all cs s1 = Some s'" using read_all_Cons by blast
  show ?case using Cons.IH [OF 1(2)] read_char_keeps [OF 1(1)] by auto
qed simp

subsection \<open>A code point\<close>

definition between :: "json_string \<Rightarrow> bool" where
  "between s \<longleftrightarrow> js_quote_found s \<and> \<not> js_special s \<and> js_counter s = 0 \<and> js_storage s = 0"

lemma read_digit:
  assumes "js_quote_found s" "js_special s" "js_counter s = Suc k" "k < 4" "is_xdigit c"
  shows "read_char c s =
    (True, False,
     (let t = s\<lparr>js_counter := k, js_storage := push_bit 4 (js_storage s) OR hex_value c\<rparr>
      in if k = 0 then end_unicode (t\<lparr>js_special := False\<rparr>) else t), None)"
proof -
  have "js_counter s mod 256 \<noteq> 0" "k mod 256 = k" using assms(3,4) by simp_all
  then show ?thesis using assms by (simp add: read_char_def quoted_char_def Let_def)
qed

lemma read_hex4:
  assumes "js_quote_found s" "js_special s" "js_counter s = 4"
  shows "read_all (hex4 v) s =
    Some (end_unicode (s\<lparr>js_counter := 0, js_storage := push_bit 16 (js_storage s) OR (v AND 0xFFFF), js_special := False\<rparr>))"
proof -
  obtain d where d: "d = (\<lambda>i. drop_bit (4 * i) v AND 0xF)" by blast
  obtain st where st: "st = js_storage s" by blast
  have n: "is_xdigit (nibble i v)" "hex_value (nibble i v) = d i" for i using nibble_read by (simp_all add: d)
  obtain s1 where s1: "s1 = s\<lparr>js_counter := 3, js_storage := push_bit 4 st OR d 3\<rparr>" by blast
  obtain s2 where s2: "s2 = s\<lparr>js_counter := 2, js_storage := push_bit 4 (push_bit 4 st OR d 3) OR d 2\<rparr>" by blast
  obtain s3 where s3: "s3 = s\<lparr>js_counter := 1, js_storage := push_bit 4 (push_bit 4 (push_bit 4 st OR d 3) OR d 2) OR d 1\<rparr>" by blast
  have "read_char (nibble 3 v) s = (True, False, s1, None)" "read_char (nibble 2 v) s1 = (True, False, s2, None)"
    "read_char (nibble 1 v) s2 = (True, False, s3, None)"
    using read_digit [OF _ _ _ _ n(1), of s 3 3] read_digit [OF _ _ _ _ n(1), of s1 2 2] read_digit [OF _ _ _ _ n(1), of s2 1 1] assms
    by (simp_all only: s1 s2 s3) (simp_all add: n(2) st Let_def)
  moreover have "push_bit 4 (push_bit 4 (push_bit 4 (push_bit 4 st OR d 3) OR d 2) OR d 1) OR d 0 = push_bit 16 st OR (v AND 0xFFFF)"
    using hex4_joins [of st v] by (simp add: d)
  then have "read_char (nibble 0 v) s3 =
    (True, False, end_unicode (s\<lparr>js_counter := 0, js_storage := push_bit 16 st OR (v AND 0xFFFF), js_special := False\<rparr>), None)"
    using read_digit [OF _ _ _ _ n(1), of s3 0 0] assms by (simp only: s3) (simp add: n(2) Let_def)
  ultimately show ?thesis by (simp add: hex4_def st)
qed

lemma read_escape_start:
  assumes "js_quote_found s" "\<not> js_special s" "js_counter s = 0"
  shows "read_all ([92, 117] @ cs) s = read_all cs (s\<lparr>js_special := True, js_counter := 4\<rparr>)"
  using assms by (simp add: read_char_def quoted_char_def)

lemma short_escape_long: "short_escape slash c = Some b \<Longrightarrow> long_escape b = Some c \<and> b \<noteq> 117"
  by (auto simp: short_escape_def long_escape_def split: if_splits)

lemma not_high_surrogate:
  fixes cp :: u32
  assumes "cp \<le> 0xFFFF" "cp < 0xD800 \<or> 0xDFFF < cp"
  shows "cp AND 0xFC00 \<noteq> 0xD800"
proof
  assume "cp AND 0xFC00 = 0xD800"
  then have "drop_bit 10 (cp AND 0xFC00) = drop_bit 10 0xD800" by simp
  then have "drop_bit 10 cp AND 0x3F = 0x36" by (simp add: drop_bit_and)
  then have "take_bit 6 (drop_bit 10 cp) = 0x36" by (simp add: take_bit_eq_mask mask_eq_exp_minus_1)
  then have "unat (take_bit 6 (drop_bit 10 cp)) = 54" by simp
  then have "unat cp div 1024 mod 64 = 54" by (simp add: take_bit_eq_mod drop_bit_eq_div unat_div unat_mod)
  moreover have "unat cp \<le> 65535" using assms(1) by (simp add: word_le_nat_alt)
  then have "unat cp div 1024 < 64" by (simp add: less_mult_imp_div_less)
  ultimately have "unat cp div 1024 = 54" by simp
  then have "unat cp = 54 * 1024 + unat cp mod 1024" using div_mult_mod_eq [of "unat cp" 1024] by simp
  moreover have "unat cp mod 1024 < 1024" by simp
  ultimately have "55296 \<le> unat cp \<and> unat cp < 56320" by linarith
  then show False using assms(2) by (simp add: word_less_nat_alt)
qed

lemma low_half: "(ucast (h :: u16) :: u32) AND 0xFFFF = ucast h"
proof -
  have m: "(0xFFFF :: u32) = mask 16" by (simp add: mask_eq_exp_minus_1)
  show ?thesis unfolding m by (rule bit_word_eqI) (auto simp: bit_simps dest: bit_imp_le_length)
qed

lemma end_unicode_pair:
  assumes "code_point_to_utf16 cp = (ok, low, high)" "scalar cp" "js_storage s = push_bit 16 (ucast high) OR ucast low"
  shows "end_unicode s = s\<lparr>js_value := js_value s @ utf8 cp, js_storage := 0\<rparr>"
proof -
  have cp: "cp \<le> 0x10FFFF" using assms(2) by (simp add: scalar_def)
  note half = storage_halves [OF assms(3)]
  have "0xFFFF \<le> js_storage s \<or> js_storage s AND 0xFC00 \<noteq> 0xD800"
  proof (cases "cp \<le> 0xFFFF")
    case True
    then have "js_storage s = cp" using utf16_parts(1) [OF assms(2,1)] half(6) by simp
    then show ?thesis using not_high_surrogate [OF True] assms(2) by (simp add: scalar_def)
  next
    case False
    then show ?thesis using utf16_parts(2) [OF assms(2,1)] half(3) by (simp add: less_imp_le)
  qed
  moreover have "(ucast (ucast high :: u32) :: u16) = high" "(ucast (ucast low :: u32) :: u16) = low"
    by (rule bit_word_eqI, auto simp: bit_simps)+
  then have "ucast (js_storage s AND 0xFFFF) = low" "ucast (drop_bit 16 (js_storage s) AND 0xFFFF) = high"
  proof -
    assume u: "(ucast (ucast high :: u32) :: u16) = high" "(ucast (ucast low :: u32) :: u16) = low"
    show "ucast (js_storage s AND 0xFFFF) = low" "ucast (drop_bit 16 (js_storage s) AND 0xFFFF) = high"
      using u half(1,2) low_half by simp_all
  qed
  moreover have "snd (utf16_to_code_point low high) = cp"
    using utf16_roundtrip [of cp] cp assms(1) by (simp split: if_splits)
  moreover have "take (nat (fst (from_code_point cp [0, 0, 0, 0, 0, 0] 6))) (snd (from_code_point cp [0, 0, 0, 0, 0, 0] 6)) = utf8 cp"
    using utf8_facts(1,2) [OF cp] by (metis fst_conv nat_int utf8_def)
  ultimately show ?thesis by (simp add: end_unicode_def case_prod_unfold)
qed

lemma read_escape:
  assumes "between s" "scalar cp"
  shows "read_all (json_escape slash cp) s = Some (s\<lparr>js_value := js_value s @ utf8 cp\<rparr>)"
proof -
  have cp: "cp \<le> 0x10FFFF" using assms(2) by (simp add: scalar_def)
  have single: "utf8 cp = [ucast cp]" if "cp \<le> 0x7F"
  proof -
    have "following_bytes cp = 0" using that unfolding following_bytes_def by simp
    then show ?thesis using utf8_single by blast
  qed
  consider (plain) "cp \<le> 0x7F" "plain_char slash (ucast cp)"
    | (short) b where "cp \<le> 0x7F" "\<not> plain_char slash (ucast cp)" "short_escape slash (ucast cp) = Some b"
    | (unicode) "\<not> (cp \<le> 0x7F \<and> plain_char slash (ucast cp))" "\<not> (cp \<le> 0x7F \<and> short_escape slash (ucast cp) \<noteq> None)"
    by blast
  then show ?thesis
  proof cases
    case plain
    have e: "json_escape slash cp = [ucast cp]" using plain by (simp add: json_escape_def)
    have c: "ucast cp \<noteq> (92 :: u8)" "ucast cp \<noteq> (34 :: u8)" "32 \<le> (ucast cp :: u8)"
      using plain(2) unfolding plain_char_def is_print_def by blast+
    have "\<not> (ucast cp :: u8) \<le> 31" using c(3) by (simp add: word_le_nat_alt)
    then show ?thesis using assms(1) c unfolding e single [OF plain(1)]
      by (simp add: between_def read_char_def quoted_char_def)
  next
    case short
    have e: "json_escape slash cp = [92, b]" using short by (simp add: json_escape_def)
    show ?thesis using assms(1) short_escape_long [OF short(3)] unfolding e single [OF short(1)]
      by (simp add: between_def read_char_def quoted_char_def)
  next
    case unicode
    obtain ok low high where u: "code_point_to_utf16 cp = (ok, low, high)" by (cases "code_point_to_utf16 cp") auto
    have esc: "json_escape slash cp = (if high = 0 then [] else [92, 117] @ hex4 (ucast high)) @ [92, 117] @ hex4 (ucast low)"
      unfolding json_escape_def if_not_P [OF unicode(1)] if_not_P [OF unicode(2)] u prod.case ..
    have q: "js_quote_found s" "\<not> js_special s" "js_counter s = 0" "js_storage s = 0" using assms(1) by (simp_all add: between_def)
    note low = low_half [of low] low_half [of high]
    show ?thesis
    proof (cases "high = 0")
      case True
      have "read_all (hex4 (ucast low)) (s\<lparr>js_special := True, js_counter := 4\<rparr>) =
        Some (end_unicode (s\<lparr>js_counter := 0, js_storage := ucast low, js_special := False\<rparr>))"
        using read_hex4 [of "s\<lparr>js_special := True, js_counter := 4\<rparr>" "ucast low"] q low by simp
      moreover have "end_unicode (s\<lparr>js_counter := 0, js_storage := ucast low, js_special := False\<rparr>) = s\<lparr>js_value := js_value s @ utf8 cp\<rparr>"
        using end_unicode_pair [OF u assms(2), of "s\<lparr>js_counter := 0, js_storage := ucast low, js_special := False\<rparr>"] q True by simp
      ultimately show ?thesis using read_escape_start [OF q(1-3)] True by (simp add: esc)
    next
      case False
      have h: "(ucast high :: u32) AND 0xFC00 = 0xD800"
      proof -
        have "\<not> cp \<le> 0xFFFF" using False utf16_parts(1) [OF assms(2) u] by blast
        then show ?thesis using utf16_parts(2) [OF assms(2) u] by blast
      qed
      have le: "\<not> 0xFFFF < (ucast high :: u32)" using storage_halves(5) by blast
      have "\<not> 0xFFFF \<le> (ucast high :: u32)"
      proof
        assume "0xFFFF \<le> (ucast high :: u32)"
        then have "(ucast high :: u32) = 0xFFFF" using le by simp
        then show False using h by simp
      qed
      then have keep: "end_unicode (s\<lparr>js_counter := 0, js_storage := ucast high, js_special := False\<rparr>) =
          s\<lparr>js_counter := 0, js_storage := ucast high, js_special := False\<rparr>"
        using h by (simp add: end_unicode_def)
      have first: "read_all (hex4 (ucast high)) (s\<lparr>js_special := True, js_counter := 4\<rparr>) = Some (s\<lparr>js_storage := ucast high\<rparr>)"
        using read_hex4 [of "s\<lparr>js_special := True, js_counter := 4\<rparr>" "ucast high"] q low keep by simp
      have "read_all (hex4 (ucast low)) (s\<lparr>js_storage := ucast high, js_special := True, js_counter := 4\<rparr>) =
        Some (end_unicode (s\<lparr>js_counter := 0, js_storage := push_bit 16 (ucast high) OR ucast low, js_special := False\<rparr>))"
        using read_hex4 [of "s\<lparr>js_storage := ucast high, js_special := True, js_counter := 4\<rparr>" "ucast low"] q low by simp
      moreover have "end_unicode (s\<lparr>js_counter := 0, js_storage := push_bit 16 (ucast high) OR ucast low, js_special := False\<rparr>) =
        s\<lparr>js_value := js_value s @ utf8 cp\<rparr>"
        using end_unicode_pair [OF u assms(2), of "s\<lparr>js_counter := 0, js_storage := push_bit 16 (ucast high) OR ucast low, js_special := False\<rparr>"] q
        by simp
      ultimately have "read_all ([92, 117] @ hex4 (ucast low)) (s\<lparr>js_storage := ucast high\<rparr>) = Some (s\<lparr>js_value := js_value s @ utf8 cp\<rparr>)"
        using read_escape_start [of "s\<lparr>js_storage := ucast high\<rparr>"] q by simp
      moreover have "read_all ([92, 117] @ hex4 (ucast high)) s = Some (s\<lparr>js_storage := ucast high\<rparr>)"
        using read_escape_start [OF q(1-3)] first by simp
      ultimately have "read_all (([92, 117] @ hex4 (ucast high)) @ ([92, 117] @ hex4 (ucast low))) s = Some (s\<lparr>js_value := js_value s @ utf8 cp\<rparr>)"
        unfolding read_all_append by blast
      moreover have "json_escape slash cp = ([92, 117] @ hex4 (ucast high)) @ ([92, 117] @ hex4 (ucast low))" unfolding esc using False by simp
      ultimately show ?thesis by simp
    qed
  qed
qed

lemma read_content:
  "between s \<Longrightarrow> list_all scalar cps \<Longrightarrow>
    read_all (concat (map (json_escape slash) cps)) s = Some (s\<lparr>js_value := js_value s @ json_content cps\<rparr>)"
proof (induction cps arbitrary: s)
  case Nil
  then show ?case by (simp add: json_content_def)
next
  case (Cons cp cps)
  obtain s1 where s1: "s1 = s\<lparr>js_value := js_value s @ utf8 cp\<rparr>" by blast
  have "between s1" using Cons.prems(1) by (simp add: s1 between_def)
  then have "read_all (concat (map (json_escape slash) cps)) s1 = Some (s1\<lparr>js_value := js_value s1 @ json_content cps\<rparr>)"
    using Cons.IH Cons.prems(2) by simp
  moreover have "read_all (json_escape slash cp) s = Some s1" using read_escape [OF Cons.prems(1)] Cons.prems(2) by (simp add: s1)
  moreover have "s1\<lparr>js_value := js_value s1 @ json_content cps\<rparr> = s\<lparr>js_value := js_value s @ json_content (cp # cps)\<rparr>"
    by (simp add: s1 json_content_def)
  ultimately show ?case unfolding list.map concat.simps read_all_append by simp
qed

subsection \<open>The whole text\<close>

text \<open>
  Which strings are exchanged: scalar values whose length is not cut, not the text \<open>null\<close>, which is
  read as null although it is quoted, and short enough for the offset, to which every part adds the length of what was read.
\<close>

definition string_ready :: "bool \<Rightarrow> u32 list \<Rightarrow> bool" where
  "string_ready slash cps \<longleftrightarrow> list_all scalar cps \<and> lengths_fit cps \<and> json_content cps \<noteq> null_tag \<and>
     1 + length (json_text slash cps) * length (json_content cps) \<le> 2 ^ 31"

definition string_reads :: "bool \<Rightarrow> u32 list \<Rightarrow> json_string \<Rightarrow> nat \<Rightarrow> u8 list \<Rightarrow> bool" where
  "string_reads slash cps s pos rest \<longleftrightarrow> string_ready slash cps \<and> \<not> js_null s \<and>
     (if pos = 0 then rest = json_text slash cps
      else js_quote_found s \<and> pos + length rest * length (json_content cps) \<le> 2 ^ 31 \<and>
        (\<exists>cs s'. rest = cs @ [34] \<and> read_all cs s = Some s' \<and> between s' \<and> js_value s' = json_content cps))"

text \<open>The first quote, and a part in the middle.\<close>

definition string_open :: "json_string \<Rightarrow> json_string" where
  "string_open s = s\<lparr>js_value := [], js_special := False, js_quoted_area := False, js_counter := 0,
     js_storage := 0, js_quote_found := True\<rparr>"

lemma string_deserialize_first:
  "string_deserialize s (34 # cs) 0 =
    (case string_deserialize (string_open s) cs 1 of (n, s, pos, error) \<Rightarrow> (Suc n, s, pos, error))"
  by (simp add: string_deserialize_def string_open_def Let_def split: prod.splits)

lemma string_open_reads:
  assumes "string_reads slash cps s 0 (34 # rest)"
  shows "string_reads slash cps (string_open s) 1 rest"
proof -
  have r: "string_ready slash cps" "rest = concat (map (json_escape slash) cps) @ [34]" "\<not> js_null s"
    "34 # rest = json_text slash cps"
    using assms by (simp_all add: string_reads_def json_text_def)
  have "length rest * length (json_content cps) \<le> length (json_text slash cps) * length (json_content cps)"
    unfolding r(4) [symmetric] by simp
  then have "1 + length rest * length (json_content cps) \<le> 2 ^ 31" using r(1) unfolding string_ready_def by linarith
  moreover have "read_all (concat (map (json_escape slash) cps)) (string_open s) = Some (string_open s\<lparr>js_value := json_content cps\<rparr>)"
    using read_content [of "string_open s" cps slash] r(1) by (simp add: between_def string_open_def string_ready_def)
  moreover have "between (string_open s\<lparr>js_value := json_content cps\<rparr>)" by (simp add: between_def string_open_def)
  ultimately show ?thesis using r(1-3) by (simp add: string_reads_def string_open_def)
qed

lemma string_reads_middle:
  assumes "string_reads slash cps s pos (cs @ rest)" "pos \<noteq> 0" "rest \<noteq> []"
  shows "\<exists>s' pos'. string_deserialize s cs pos = (length cs, s', pos', None) \<and>
    (cs \<noteq> [] \<longrightarrow> pos' \<noteq> 0 \<and> string_reads slash cps s' pos' rest)"
proof -
  have r: "string_ready slash cps" "\<not> js_null s" "js_quote_found s"
    "pos + length (cs @ rest) * length (json_content cps) \<le> 2 ^ 31"
    using assms(1,2) by (auto simp: string_reads_def)
  obtain bs t where b: "cs @ rest = bs @ [34]" "read_all bs s = Some t" "between t" "js_value t = json_content cps"
    using assms(1,2) by (auto simp: string_reads_def)
  obtain ds where d: "rest = ds @ [34]" "bs = cs @ ds"
    using b(1) assms(3) by (cases rest rule: rev_cases) (auto simp flip: append_assoc)
  obtain u where u: "read_all cs s = Some u" "read_all ds u = Some t" using b(2) unfolding d(2) read_all_append by blast
  have k: "js_quote_found u" "\<not> js_null u" "length (js_value u) \<le> length (json_content cps)"
    using read_all_keeps [OF u(1)] read_all_keeps [OF u(2)] r b(4) by auto
  have "read_chars cs s None = (length cs, False, u, None)" using read_all_chars [OF u(1), of "[]" None] by simp
  then have des: "string_deserialize s cs pos = (length cs, u, (pos + length (js_value u)) mod 2 ^ 32, None)"
    using assms(2) by (simp add: string_deserialize_def Let_def)
  have "(pos + length (js_value u)) mod 2 ^ 32 \<noteq> 0 \<and> string_reads slash cps u ((pos + length (js_value u)) mod 2 ^ 32) rest"
    if "cs \<noteq> []"
  proof -
    have "length (json_content cps) \<le> length cs * length (json_content cps)" using that by (cases cs) simp_all
    moreover have "length (cs @ rest) * length (json_content cps) =
      length cs * length (json_content cps) + length rest * length (json_content cps)" by (simp add: add_mult_distrib)
    ultimately have "pos + length (js_value u) + length rest * length (json_content cps) \<le> 2 ^ 31"
      using r(4) k(3) by linarith
    then show ?thesis using r(1) k assms(2) d(1) u(2) b(3,4) by (simp add: string_reads_def)
  qed
  then show ?thesis using des by blast
qed

lemma string_reads_last:
  assumes "string_reads slash cps s pos rest" "pos \<noteq> 0"
  shows "\<exists>s'. string_deserialize s (rest @ tail) pos = (length rest, s', 0, None) \<and> string_holds s' cps \<and> js_quote_found s'"
proof -
  have r: "string_ready slash cps" "\<not> js_null s" "js_quote_found s" using assms by (auto simp: string_reads_def)
  obtain bs t where b: "rest = bs @ [34]" "read_all bs s = Some t" "between t" "js_value t = json_content cps"
    using assms by (auto simp: string_reads_def)
  have k: "js_quote_found t" "\<not> js_null t" using read_all_keeps [OF b(2)] r by simp_all
  have "read_chars (34 # tail) t None = (1, True, t, None)"
    using b(3) by (simp add: read_chars.simps(2) read_char_def quoted_char_def between_def)
  then have "read_chars (rest @ tail) s None = (length rest, True, t, None)"
    using read_all_chars [OF b(2), of "34 # tail" None] by (simp add: b(1))
  moreover have "js_value t \<noteq> null_tag" using r(1) b(4) by (simp add: string_ready_def)
  ultimately have "string_deserialize s (rest @ tail) pos = (length rest, t\<lparr>js_set := True\<rparr>, 0, None)"
    using assms(2) k by (simp add: string_deserialize_def Let_def)
  then show ?thesis using b(4) k by (simp add: string_holds_def is_quoted_def)
qed

subsection \<open>The contract\<close>

lemma string_serialize_running:
  assumes "string_running slash s pos cs" "0 < n"
  shows "\<exists>s' pos'. string_serialize slash s n pos = (take n (cs @ [34]), s', pos') \<and>
    (pos' = 0 \<and> length (cs @ [34]) \<le> n \<or> pos' \<noteq> 0 \<and> n \<le> length (cs @ [34]) \<and> string_writes slash s' pos' (drop n (cs @ [34])))"
proof -
  obtain s' pos' where w: "write_chars slash n s pos = (take n cs, s', pos')" "same_string s s'" "pos' \<noteq> 0"
    "if length cs \<le> n then length (js_value s') - (pos' - 1) = 0 else 0 < length (js_value s') - (pos' - 1)"
    "string_running slash s' pos' (drop n cs)"
    using string_running_part [OF assms(1), of n] by blast
  have q: "is_quoted s" "js_set s \<or> js_value s = []" "pos \<noteq> 0" "is_quoted s'"
    using assms(1) w(2) unfolding string_running_def same_string_def by metis+
  have run: "string_writes slash s' pos' (drop n (cs @ [34]))" if "n \<le> length cs"
    using w(3,5) that by (auto simp: string_writes_def)
  show ?thesis
  proof (cases "length cs \<le> n")
    case True
    then have z: "length (js_value s') - (pos' - 1) = 0" "take n cs = cs" using w(4) by simp_all
    show ?thesis
    proof (cases "length cs < n")
      case True
      then show ?thesis using q w(1) z by (simp add: string_serialize_def)
    next
      case False
      then have "n = length cs" using True by simp
      moreover have "\<not> pos' - Suc 0 < length (js_value s')" using z(1) by simp
      ultimately show ?thesis using q w(1,3) z run by (simp add: string_serialize_def)
    qed
  next
    case False
    then have "0 < length (js_value s') - (pos' - 1)" using w(4) by simp
    moreover have "pos' - Suc 0 < length (js_value s')" using calculation by simp
    ultimately show ?thesis using False q w(1,3) run by (simp add: string_serialize_def)
  qed
qed

text \<open>At the start the quote comes first.\<close>

definition string_begin :: "json_string \<Rightarrow> json_string" where
  "string_begin s = s\<lparr>js_special := False, js_quoted_area := False, js_counter := 0\<rparr>"

lemma string_serialize_start:
  assumes "string_holds s cps" "0 < n"
  shows "string_serialize slash s (Suc n) 0 =
    (case string_serialize slash (string_begin s) n 1 of (cs, s, pos) \<Rightarrow> (34 # cs, s, pos))"
  using assms by (simp add: string_serialize_def string_holds_def string_begin_def split: prod.splits)

lemma string_begin_running:
  assumes "string_holds s cps" "list_all scalar cps" "lengths_fit cps" "length (js_value s) < 2 ^ 31"
  shows "string_running slash (string_begin s) 1 (concat (map (json_escape slash) cps))"
proof -
  have "\<exists>st. write_chars slash (length (concat (map (json_escape slash) cps))) (string_begin s) 1 =
    (concat (map (json_escape slash) cps), string_begin s\<lparr>js_storage := st\<rparr>, length (js_value (string_begin s)) + 1)"
    by (rule write_content [where pre = "[]"]) (use assms in \<open>simp_all add: string_holds_def string_begin_def\<close>)
  then show ?thesis using assms(1,4) by (auto simp: string_running_def string_holds_def string_begin_def)
qed

lemma string_writes_part:
  assumes "string_writes slash s pos rest" "0 < n"
  shows "\<exists>s' pos'. string_serialize slash s n pos = (take n rest, s', pos') \<and>
    (pos' = 0 \<and> length rest \<le> n \<or> pos' \<noteq> 0 \<and> n \<le> length rest \<and> string_writes slash s' pos' (drop n rest))"
proof (cases "pos = 0")
  case False
  then obtain cs where cs: "rest = cs @ [34]" "string_running slash s pos cs" using assms(1) by (auto simp: string_writes_def)
  show ?thesis unfolding cs(1) by (rule string_serialize_running [OF cs(2) assms(2)])
next
  case True
  then obtain cps where h: "rest = json_text slash cps" "string_holds s cps" "list_all scalar cps" "lengths_fit cps" "length (js_value s) < 2 ^ 31"
    using assms(1) by (auto simp: string_writes_def)
  obtain cs where cs: "cs = concat (map (json_escape slash) cps)" by blast
  have run: "string_running slash (string_begin s) 1 cs" unfolding cs using h(2-5) by (rule string_begin_running)
  have rest: "rest = 34 # cs @ [34]" using h(1) by (simp add: json_text_def cs)
  obtain m where m: "n = Suc m" using assms(2) by (cases n) auto
  show ?thesis
  proof (cases m)
    case 0
    have w: "string_writes slash (string_begin s) 1 (cs @ [34])" using run by (simp add: string_writes_def)
    have "string_serialize slash s 1 0 = ([34], string_begin s, 1)"
      using h(2) by (simp add: string_serialize_def string_holds_def string_begin_def)
    then show ?thesis unfolding m 0 True rest using w by simp
  next
    case (Suc k)
    then have "0 < m" by simp
    from string_serialize_running [OF run this] obtain s' pos' where
      "string_serialize slash (string_begin s) m 1 = (take m (cs @ [34]), s', pos')"
      "pos' = 0 \<and> length (cs @ [34]) \<le> m \<or> pos' \<noteq> 0 \<and> m \<le> length (cs @ [34]) \<and> string_writes slash s' pos' (drop m (cs @ [34]))"
      by blast
    then show ?thesis
      unfolding m True rest string_serialize_start [OF h(2) \<open>0 < m\<close>] by (intro exI [of _ s'] exI [of _ pos']) simp
  qed
qed

lemma string_ready_length: "string_ready slash cps \<Longrightarrow> length (json_content cps) < 2 ^ 31"
  by (auto simp: string_ready_def json_text_def)

lemma string_reads_not_Nil: "string_reads slash cps s pos rest \<Longrightarrow> rest \<noteq> []"
  by (auto simp: string_reads_def json_text_def split: if_splits)

lemma string_reads_open_part:
  assumes "string_reads slash cps s pos (cs @ rest)" "cs \<noteq> []" "rest \<noteq> []"
  shows "\<exists>s' pos'. string_deserialize s cs pos = (length cs, s', pos', None) \<and> pos' \<noteq> 0 \<and> string_reads slash cps s' pos' rest"
proof (cases "pos = 0")
  case True
  then obtain ds where d: "cs = 34 # ds" using assms by (cases cs) (auto simp: string_reads_def json_text_def)
  have "string_reads slash cps (string_open s) 1 (ds @ rest)" using assms(1) by (intro string_open_reads) (simp add: True d)
  from string_reads_middle [OF this _ assms(3)] obtain s' pos' where
    1: "string_deserialize (string_open s) ds 1 = (length ds, s', pos', None)"
    "ds \<noteq> [] \<longrightarrow> pos' \<noteq> 0 \<and> string_reads slash cps s' pos' rest"
    by auto
  show ?thesis
  proof (cases "ds = []")
    case True
    then have "string_deserialize (string_open s) [] 1 = (0, string_open s, 1, None)"
      by (simp add: string_deserialize_def string_open_def)
    then show ?thesis
      using string_open_reads [of slash cps s rest] assms(1) unfolding d True \<open>pos = 0\<close> string_deserialize_first by simp
  next
    case False
    then show ?thesis using 1 unfolding d True string_deserialize_first by simp
  qed
next
  case False
  then show ?thesis using string_reads_middle [OF assms(1) _ assms(3)] assms(2) by blast
qed

lemma string_reads_whole:
  assumes "string_reads slash cps s pos rest"
  shows "\<exists>s'. string_deserialize s (rest @ tail) pos = (length rest, s', 0, None) \<and> string_holds s' cps \<and> js_quote_found s'"
proof (cases "pos = 0")
  case True
  then obtain ds where d: "rest = 34 # ds" using assms by (cases rest) (auto simp: string_reads_def json_text_def)
  have "string_reads slash cps (string_open s) 1 ds" using assms(1) by (intro string_open_reads) (simp add: True d)
  from string_reads_last [OF this, of tail] show ?thesis unfolding d True append_Cons string_deserialize_first by auto
next
  case False
  then show ?thesis using string_reads_last [OF assms(1)] by blast
qed

lemma string_reads_part:
  assumes "string_reads slash cps s pos (cs @ rest)" "cs \<noteq> []"
  shows "\<exists>s' pos'. string_deserialize s cs pos = (length cs, s', pos', None) \<and>
    (pos' = 0 \<and> rest = [] \<and> string_holds s' cps \<or> pos' \<noteq> 0 \<and> string_reads slash cps s' pos' rest)"
proof (cases "rest = []")
  case True
  then show ?thesis using string_reads_whole [of slash cps s pos cs "[]"] assms(1) by auto
next
  case False
  then show ?thesis using string_reads_open_part [OF assms False] by blast
qed

interpretation quoted: json_member "json_text slash" string_holds "string_serialize slash" "string_writes slash"
  string_clear string_deserialize "string_ready slash" "string_reads slash" "new_string [] True" js_set "2 ^ 31" for slash
proof unfold_locales
  show "\<exists>c cs. json_text slash v = c # cs \<and> \<not> ends_value c" for v by (simp add: json_text_def ends_value_def is_space_def)
  show "string_writes slash e 0 (json_text slash v)" if "string_ready slash v" "string_holds e v" for v e
    using that string_ready_length by (auto simp: string_writes_def string_ready_def string_holds_def)
  show "\<exists>e' offset'. string_serialize slash e n pos = (take n rest, e', offset') \<and>
      (offset' = 0 \<and> length rest \<le> n \<or> offset' \<noteq> 0 \<and> n \<le> length rest \<and> string_writes slash e' offset' (drop n rest))"
    if "string_writes slash e pos rest" "0 < n" for e pos rest n using that by (rule string_writes_part)
  show "string_reads slash v (string_clear e) 0 (json_text slash v)" if "string_ready slash v" for v e
    using that by (simp add: string_reads_def string_clear_def)
  show "\<exists>e' offset'. string_deserialize e cs pos = (length cs, e', offset', None) \<and>
      (offset' = 0 \<and> rest = [] \<and> string_holds e' v \<or> offset' \<noteq> 0 \<and> string_reads slash v e' offset' rest)"
    if "string_reads slash v e pos (cs @ rest)" "cs \<noteq> []" for v e pos cs rest
    using that by (rule string_reads_part)
  show "\<exists>e'. string_deserialize e (rest @ t # tail) pos = (length rest, e', 0, None) \<and> string_holds e' v"
    if "string_reads slash v e pos rest" for v e pos rest t tail
    using string_reads_whole [OF that, of "t # tail"] by blast
  show "string_reads slash v (new_string [] True) 0 (json_text slash v)" if "string_ready slash v" for v
    using that by (simp add: string_reads_def new_string_def)
  show "js_set e" if "string_holds e v" for e v using that by (simp add: string_holds_def)
  show "pos \<le> 2 ^ 31" if "string_writes slash e pos rest" for e pos rest using that by (rule string_writes_top)
  show "pos \<le> 2 ^ 31" if "string_reads slash v e pos rest" for v e pos rest
    using that by (auto simp: string_reads_def split: if_splits)
qed

end
