(* ===== verification/Json_Boolean.thy ===== *)
theory Json_Boolean
  imports Json_Array_Facts
begin

text \<open>\<open>JSON::Boolean\<close> of \<^verbatim>\<open>Source/core/JSON.h\<close>, with the bits of \<^verbatim>\<open>_value\<close> as separate fields.\<close>

subsection \<open>The code\<close>

definition true_tag :: "u8 list" where "true_tag = [116, 114, 117, 101]"
definition false_tag :: "u8 list" where "false_tag = [102, 97, 108, 115, 101]"

record json_boolean =
  jb_value :: bool
  jb_default :: bool
  jb_set :: bool
  jb_deserialize :: bool
  jb_error :: bool
  jb_null :: bool

definition new_boolean :: "bool \<Rightarrow> json_boolean" where
  "new_boolean initial =
     \<lparr>jb_value = False, jb_default = initial, jb_set = False, jb_deserialize = False, jb_error = False, jb_null = False\<rparr>"

text \<open>All bits but that of the default.\<close>

definition boolean_reset :: "json_boolean \<Rightarrow> json_boolean" where
  "boolean_reset b = b\<lparr>jb_value := False, jb_set := False, jb_deserialize := False, jb_error := False, jb_null := False\<rparr>"

definition boolean_assign :: "bool \<Rightarrow> json_boolean \<Rightarrow> json_boolean" where
  "boolean_assign v b = (boolean_reset b)\<lparr>jb_value := v, jb_set := True\<rparr>"

definition boolean_copy :: "json_boolean \<Rightarrow> json_boolean \<Rightarrow> json_boolean" where
  "boolean_copy a b =
     (boolean_reset b)\<lparr>jb_value := jb_value a, jb_set := jb_set a,
        jb_default := (if jb_set a then jb_default a else jb_default b)\<rparr>"

definition boolean_value :: "json_boolean \<Rightarrow> bool" where
  "boolean_value b = (if jb_set b then jb_value b else jb_default b)"

definition boolean_null :: "bool \<Rightarrow> json_boolean \<Rightarrow> json_boolean" where
  "boolean_null enabled b = b\<lparr>jb_set := enabled, jb_null := enabled\<rparr>"

definition boolean_clear :: "json_boolean \<Rightarrow> json_boolean" where
  "boolean_clear b = boolean_reset b"

definition boolean_tag :: "json_boolean \<Rightarrow> u8 list" where
  "boolean_tag b = (if jb_null b then null_tag else if boolean_value b then true_tag else false_tag)"

definition boolean_serialize :: "json_boolean \<Rightarrow> nat \<Rightarrow> nat \<Rightarrow> u8 list \<times> json_boolean \<times> nat" where
  "boolean_serialize b max_length pos =
     (let bs = take max_length (drop pos (boolean_tag b)); pos = pos + length bs
      in (bs, b, if pos = length (boolean_tag b) then 0 else pos))"

text \<open>The characters that agree with the rest of the tag, and whether one does not.\<close>

fun tag_match :: "u8 list \<Rightarrow> u8 list \<Rightarrow> nat \<times> bool" where
  "tag_match (t # ts) (c # cs) = (if c \<noteq> t then (0, True) else (case tag_match ts cs of (n, error) \<Rightarrow> (n + 1, error)))"
| "tag_match ts cs = (0, False)"

definition boolean_start :: "json_boolean \<Rightarrow> u8 \<Rightarrow> nat \<times> json_boolean \<times> nat" where
  "boolean_start b c =
     (if c = 116 then (1, (boolean_reset b)\<lparr>jb_deserialize := True\<rparr>, 1)
      else if c = 102 then (1, boolean_reset b, 1)
      else if c = 110 then (1, (boolean_reset b)\<lparr>jb_null := True\<rparr>, 1)
      else if c = 48 then (1, (boolean_reset b)\<lparr>jb_set := True\<rparr>, 0)
      else if c = 49 then (1, (boolean_reset b)\<lparr>jb_set := True, jb_value := True\<rparr>, 0)
      else (0, (boolean_reset b)\<lparr>jb_error := True\<rparr>, 0))"

definition reading_tag :: "json_boolean \<Rightarrow> u8 list" where
  "reading_tag b = (if jb_null b then null_tag else if jb_deserialize b then true_tag else false_tag)"

definition boolean_deserialize :: "json_boolean \<Rightarrow> u8 list \<Rightarrow> nat \<Rightarrow> nat \<times> json_boolean \<times> nat \<times> json_error option" where
  "boolean_deserialize b stream pos =
     (let (loaded, b, pos) = (if pos = 0 then boolean_start b (hd stream) else (0, b, pos))
      in if pos = 0 then (loaded, b, pos, None)
         else
           (case (if jb_error b then (0, False) else tag_match (drop pos (reading_tag b)) (drop loaded stream)) of
              (n, error) \<Rightarrow>
                let pos = pos + n; len = length (reading_tag b);
                    b = (if error then (boolean_reset b)\<lparr>jb_error := True\<rparr> else b)
                in if pos = len \<or> jb_error b
                   then (loaded + n,
                         b\<lparr>jb_set := True, jb_value := (jb_value b \<or> jb_deserialize b \<and> \<not> jb_error b \<and> \<not> jb_null b)\<rparr>, 0, None)
                   else (loaded + n, b, pos, None)))"

subsection \<open>The contract\<close>

text \<open>A value is true, false or null.\<close>

fun boolean_json :: "bool option \<Rightarrow> u8 list" where
  "boolean_json None = null_tag"
| "boolean_json (Some True) = true_tag"
| "boolean_json (Some False) = false_tag"

definition boolean_holds :: "json_boolean \<Rightarrow> bool option \<Rightarrow> bool" where
  "boolean_holds b v \<longleftrightarrow> jb_set b \<and> (if jb_null b then v = None else v = Some (boolean_value b))"

definition boolean_writes :: "json_boolean \<Rightarrow> nat \<Rightarrow> u8 list \<Rightarrow> bool" where
  "boolean_writes b pos rest \<longleftrightarrow> pos < length (boolean_tag b) \<and> rest = drop pos (boolean_tag b)"

definition boolean_reads :: "bool option \<Rightarrow> json_boolean \<Rightarrow> nat \<Rightarrow> u8 list \<Rightarrow> bool" where
  "boolean_reads v b pos rest \<longleftrightarrow> pos < length (boolean_json v) \<and> rest = drop pos (boolean_json v) \<and>
     (pos = 0 \<or> \<not> jb_error b \<and> \<not> jb_set b \<and> \<not> jb_value b \<and> (jb_null b \<longleftrightarrow> v = None) \<and> (jb_deserialize b \<longleftrightarrow> v = Some True))"

lemmas boolean_tags = null_tag_def true_tag_def false_tag_def

lemma boolean_json_length: "length (boolean_json v) \<le> 5" "boolean_json v \<noteq> []"
  by (cases v rule: boolean_json.cases; simp add: boolean_tags)+

lemma boolean_tag_holds: "boolean_holds b v \<Longrightarrow> boolean_tag b = boolean_json v"
  by (cases "boolean_value b") (auto simp: boolean_holds_def boolean_tag_def split: if_splits)

lemma boolean_tag_length: "length (boolean_tag b) \<le> 5" "boolean_tag b \<noteq> []"
  by (simp_all add: boolean_tag_def boolean_tags)

lemma tag_match_prefix: "tag_match (cs @ ts) cs = (length cs, False)"
  by (induction cs) (cases ts; simp)+

lemma tag_match_whole: "tag_match cs (cs @ tail) = (length cs, False)"
  by (induction cs) (cases tail; simp)+

text \<open>After the first character.\<close>

lemma boolean_reads_first:
  assumes "boolean_reads v b 0 (c # rest)"
  shows "\<exists>b'. boolean_start b c = (1, b', 1) \<and> boolean_reads v b' 1 rest"
  using assms
  by (cases v rule: boolean_json.cases)
    (auto simp: boolean_reads_def boolean_start_def boolean_tags boolean_reset_def)

lemma boolean_reads_more:
  assumes "boolean_reads v b pos (cs @ rest)" "pos \<noteq> 0"
  shows "tag_match (drop pos (reading_tag b)) cs = (length cs, False) \<and> \<not> jb_error b \<and>
    length (reading_tag b) = pos + length cs + length rest \<and> reading_tag b = boolean_json v \<and>
    (rest \<noteq> [] \<longrightarrow> boolean_reads v b (pos + length cs) rest) \<and>
    boolean_holds (b\<lparr>jb_set := True, jb_value := (jb_value b \<or> jb_deserialize b \<and> \<not> jb_error b \<and> \<not> jb_null b)\<rparr>) v"
proof -
  have f: "pos < length (boolean_json v)" "cs @ rest = drop pos (boolean_json v)" "\<not> jb_error b" "\<not> jb_value b"
    "jb_null b \<longleftrightarrow> v = None" "jb_deserialize b \<longleftrightarrow> v = Some True" using assms by (auto simp: boolean_reads_def)
  have t: "reading_tag b = boolean_json v" using f(5,6) by (cases v rule: boolean_json.cases) (auto simp: reading_tag_def)
  have l: "length (boolean_json v) = pos + length cs + length rest" using arg_cong [OF f(2), of length] f(1) by simp
  have "drop (pos + length cs) (boolean_json v) = rest"
    using arg_cong [OF f(2), of "drop (length cs)"] by (simp add: add.commute)
  moreover have "boolean_holds (b\<lparr>jb_set := True, jb_value := (jb_value b \<or> jb_deserialize b \<and> \<not> jb_error b \<and> \<not> jb_null b)\<rparr>) v"
    using f(3-6) by (cases v rule: boolean_json.cases) (auto simp: boolean_holds_def boolean_value_def)
  ultimately show ?thesis
    using assms l t f(2) [symmetric] f(3) tag_match_prefix [of cs rest] by (auto simp: boolean_reads_def)
qed

lemma boolean_deserialize_more:
  assumes "boolean_reads v b pos (cs @ rest)" "pos \<noteq> 0"
  shows "\<exists>b' pos'. boolean_deserialize b cs pos = (length cs, b', pos', None) \<and>
    (pos' = 0 \<and> rest = [] \<and> boolean_holds b' v \<or> pos' \<noteq> 0 \<and> rest \<noteq> [] \<and> boolean_reads v b' pos' rest)"
proof -
  have m: "tag_match (drop pos (reading_tag b)) cs = (length cs, False)" "\<not> jb_error b"
    "length (reading_tag b) = pos + length cs + length rest"
    "rest \<noteq> [] \<longrightarrow> boolean_reads v b (pos + length cs) rest"
    "boolean_holds (b\<lparr>jb_set := True, jb_value := (jb_value b \<or> jb_deserialize b \<and> \<not> jb_error b \<and> \<not> jb_null b)\<rparr>) v"
    using boolean_reads_more [OF assms] by blast+
  show ?thesis using m assms(2) by (cases "rest = []") (auto simp: boolean_deserialize_def Let_def)
qed

lemma boolean_deserialize_first:
  "boolean_start b c = (1, b', 1) \<Longrightarrow> boolean_deserialize b (c # cs) 0 =
    (case boolean_deserialize b' cs 1 of (n, b, pos, error) \<Rightarrow> (n + 1, b, pos, error))"
  by (auto simp: boolean_deserialize_def Let_def split: prod.splits)

lemma boolean_reads_part:
  assumes "boolean_reads v b pos (cs @ rest)" "cs \<noteq> []"
  shows "\<exists>b' pos'. boolean_deserialize b cs pos = (length cs, b', pos', None) \<and>
    (pos' = 0 \<and> rest = [] \<and> boolean_holds b' v \<or> pos' \<noteq> 0 \<and> rest \<noteq> [] \<and> boolean_reads v b' pos' rest)"
proof (cases "pos = 0")
  case True
  obtain c ds where c: "cs = c # ds" using assms(2) by (cases cs) auto
  obtain b1 where 1: "boolean_start b c = (1, b1, 1)" "boolean_reads v b1 1 (ds @ rest)"
    using boolean_reads_first [of v b c "ds @ rest"] assms(1) unfolding True c by auto
  from boolean_deserialize_more [OF 1(2)] show ?thesis unfolding True c boolean_deserialize_first [OF 1(1)] by auto
next
  case False
  then show ?thesis using boolean_deserialize_more [OF assms(1)] by blast
qed

text \<open>A complete tag is not read on.\<close>

lemma boolean_deserialize_beyond:
  assumes "boolean_deserialize b cs pos = (length cs, b', 0, None)" "cs \<noteq> []" "boolean_reads v b pos cs"
  shows "boolean_deserialize b (cs @ tail) pos = (length cs, b', 0, None)"
proof -
  have d: "boolean_deserialize b (cs @ tail) pos = boolean_deserialize b cs pos"
    if "boolean_reads v b pos cs" "pos \<noteq> 0" for b pos cs
  proof -
    have m: "tag_match (drop pos (reading_tag b)) cs = (length cs, False)" "length (reading_tag b) = pos + length cs"
      using boolean_reads_more [of v b pos cs "[]"] that by auto
    have "reading_tag b = boolean_json v" using boolean_reads_more [of v b pos cs "[]"] that by auto
    then have "drop pos (reading_tag b) = cs" using that(1) by (simp add: boolean_reads_def)
    then show ?thesis using m tag_match_whole [of cs tail] that(2) by (simp add: boolean_deserialize_def)
  qed
  show ?thesis
  proof (cases "pos = 0")
    case True
    obtain c ds where c: "cs = c # ds" using assms(2) by (cases cs) auto
    obtain b1 where 1: "boolean_start b c = (1, b1, 1)" "boolean_reads v b1 1 ds"
      using boolean_reads_first [of v b c ds] assms(3) unfolding True c by auto
    show ?thesis using assms(1) unfolding True c append_Cons boolean_deserialize_first [OF 1(1)]
      using d [OF 1(2)] by simp
  next
    case False
    then show ?thesis using d [OF assms(3)] assms(1) by simp
  qed
qed

interpretation boolean: json_member boolean_json boolean_holds boolean_serialize boolean_writes
  boolean_clear boolean_deserialize "\<lambda>v. True" boolean_reads "new_boolean False" jb_set 5
proof unfold_locales
  show "\<exists>c cs. boolean_json v = c # cs \<and> \<not> ends_value c" for v
    by (cases v rule: boolean_json.cases) (simp_all add: boolean_tags ends_value_def is_space_def)
  show "boolean_writes e 0 (boolean_json v)" if "boolean_holds e v" for v e
    using boolean_tag_holds [OF that] boolean_json_length by (simp add: boolean_writes_def)
  show "\<exists>e' pos'. boolean_serialize e n pos = (take n rest, e', pos') \<and>
      (pos' = 0 \<and> length rest \<le> n \<or> pos' \<noteq> 0 \<and> n \<le> length rest \<and> boolean_writes e' pos' (drop n rest))"
    if "boolean_writes e pos rest" "0 < n" for e pos rest n
    using that by (cases "length rest \<le> n") (auto simp: boolean_writes_def boolean_serialize_def Let_def add.commute)
  show "boolean_reads v (boolean_clear e) 0 (boolean_json v)" "boolean_reads v (new_boolean False) 0 (boolean_json v)" for v e
    using boolean_json_length by (simp_all add: boolean_reads_def)
  show "\<exists>e' pos'. boolean_deserialize e cs pos = (length cs, e', pos', None) \<and>
      (pos' = 0 \<and> rest = [] \<and> boolean_holds e' v \<or> pos' \<noteq> 0 \<and> boolean_reads v e' pos' rest)"
    if "boolean_reads v e pos (cs @ rest)" "cs \<noteq> []" for v e pos cs rest
    using boolean_reads_part [OF that] by blast
  show "\<exists>e'. boolean_deserialize e (rest @ t # tail) pos = (length rest, e', 0, None) \<and> boolean_holds e' v"
    if "boolean_reads v e pos rest" for v e pos rest t tail
  proof -
    note now = that
    have r: "rest \<noteq> []" using now by (auto simp: boolean_reads_def)
    obtain e' pos' where 1: "boolean_deserialize e rest pos = (length rest, e', pos', None)" "pos' = 0" "boolean_holds e' v"
      using boolean_reads_part [of v e pos rest "[]"] r now by auto
    have "boolean_deserialize e (rest @ t # tail) pos = (length rest, e', 0, None)"
      by (rule boolean_deserialize_beyond) (use 1 r now in simp_all)
    then show ?thesis using 1(3) by blast
  qed
  show "jb_set e" if "boolean_holds e v" for e v using that by (simp add: boolean_holds_def)
  show "pos \<le> 5" if "boolean_writes e pos rest" for e pos rest
    using that boolean_tag_length(1) [of e] by (simp add: boolean_writes_def)
  show "pos \<le> 5" if "boolean_reads v e pos rest" for v e pos rest
    using that boolean_json_length(1) [of v] by (simp add: boolean_reads_def)
qed

end
