(* ===== verification/Json_Number.thy ===== *)
theory Json_Number
  imports Json_Element Numbers
begin

text \<open>
  \<open>JSON::NumberType\<close> of \<^verbatim>\<open>Source/core/JSON.h\<close>: decimal numbers as they are, octal and hexadecimal ones in
  quotes. The arguments of the template are \<open>number_kind\<close>; the base is one of the three. The value is the integer that
  the type holds; the flags of \<^verbatim>\<open>_set\<close> are separate fields, \<open>jn_base\<close> is \<^verbatim>\<open>_set & 0x1F\<close>.
\<close>

subsection \<open>The state\<close>

record number_kind =
  nk_bits :: nat
  nk_signed :: bool
  nk_base :: number_base

record json_number =
  jn_value :: int
  jn_default :: int
  jn_base :: int
  jn_quoted :: bool
  jn_set :: bool
  jn_error :: bool
  jn_negative :: bool
  jn_undefined :: bool

definition number_wrap :: "number_kind \<Rightarrow> int \<Rightarrow> int" where
  "number_wrap k v = (if nk_signed k then wrap_signed (nk_bits k) v else v mod 2 ^ nk_bits k)"

definition no_flags :: "json_number \<Rightarrow> json_number" where
  "no_flags s = s\<lparr>jn_base := 0, jn_quoted := False, jn_set := False, jn_error := False, jn_negative := False, jn_undefined := False\<rparr>"

definition new_number :: "int \<Rightarrow> bool \<Rightarrow> json_number" where
  "new_number v initially =
     \<lparr>jn_value = v, jn_default = v, jn_base = 0, jn_quoted = False, jn_set = initially, jn_error = False, jn_negative = False,
      jn_undefined = False\<rparr>"

definition number_assign :: "int \<Rightarrow> json_number \<Rightarrow> json_number" where
  "number_assign v s = (no_flags s)\<lparr>jn_value := v, jn_set := True\<rparr>"

definition number_value :: "json_number \<Rightarrow> int" where
  "number_value s = (if jn_set s then jn_value s else jn_default s)"

definition number_null :: "bool \<Rightarrow> json_number \<Rightarrow> json_number" where
  "number_null enabled s = s\<lparr>jn_set := enabled, jn_undefined := enabled\<rparr>"

definition number_clear :: "json_number \<Rightarrow> json_number" where
  "number_clear s = (no_flags s)\<lparr>jn_value := 0\<rparr>"

subsection \<open>Writing\<close>

text \<open>A character in front of the digits, if there is one at this offset, and the next offset.\<close>

definition number_prefix :: "number_kind \<Rightarrow> json_number \<Rightarrow> nat \<Rightarrow> u8 list \<times> nat" where
  "number_prefix k s pos =
     (let sign = (if nk_signed k \<and> jn_value s < 0 then [45] else [])
      in if nk_base k = Base_decimal then (sign, 4)
         else if pos = 0 then ([34], 1)
         else if pos = 1 then (sign, 2)
         else if pos = 2 then ([48], if nk_base k = Base_octal then 4 else 3)
         else ([120], 4))"

function number_prefixes :: "number_kind \<Rightarrow> json_number \<Rightarrow> nat \<Rightarrow> nat \<Rightarrow> u8 list \<times> nat" where
  "number_prefixes k s pos room =
     (if pos < 4 \<and> 0 < room then
        (case number_prefix k s pos of
           (c, pos) \<Rightarrow> (case number_prefixes k s pos (room - length c) of (cs, pos) \<Rightarrow> (c @ cs, pos)))
      else ([], pos))"
  by pat_completeness auto
termination
  by (relation "measure (\<lambda>(k, s, pos, room). 4 - pos)") (auto simp: number_prefix_def Let_def split: if_splits)

declare number_prefixes.simps [simp del]

text \<open>\<^verbatim>\<open>Convert\<close>: the digits from the most significant one; those before the offset are skipped.\<close>

function first_divider :: "int \<Rightarrow> int \<Rightarrow> int \<Rightarrow> int" where
  "first_divider r v divider = (if 2 \<le> r \<and> 0 < divider \<and> divider \<le> v then first_divider r v (divider * r) else divider)"
  by pat_completeness auto
termination
proof (relation "measure (\<lambda>(r, v, divider). nat (v + 1 - divider))")
  fix r v divider :: int
  assume a: "2 \<le> r \<and> 0 < divider \<and> divider \<le> v"
  then have "divider * 1 < divider * r" by (intro mult_strict_left_mono) simp_all
  with a show "((r, v, divider * r), r, v, divider) \<in> measure (\<lambda>(r, v, divider). nat (v + 1 - divider))" by simp
qed simp

declare first_divider.simps [simp del]

definition json_digit :: "number_base \<Rightarrow> int \<Rightarrow> u8" where
  "json_digit base d =
     (let digit = d mod 256 in word_of_int (if base \<noteq> Base_hexadecimal \<or> digit < 10 then 48 + digit else 55 + digit))"

function convert_loop :: "number_base \<Rightarrow> int \<Rightarrow> int \<Rightarrow> nat \<Rightarrow> nat \<Rightarrow> nat \<Rightarrow> u8 list \<times> nat" where
  "convert_loop base divider v parsed pos room =
     (if 0 < divider \<and> 0 < room then
        (case (if pos \<le> parsed then ([json_digit base (v sdiv divider)], pos + 1) else ([], pos)) of
           (c, pos) \<Rightarrow>
             (case convert_loop base (divider sdiv radix base) (v smod divider) (parsed + 1) pos (room - length c) of
                (cs, pos) \<Rightarrow> (c @ cs, pos)))
      else ([], pos))"
  by pat_completeness auto
termination
proof (relation "measure (\<lambda>(base, divider, v, parsed, pos, room). nat divider)")
  fix base :: number_base and divider v :: int and parsed pos room :: nat and c pos'
  assume "0 < divider \<and> 0 < room"
  moreover have "divider div radix base < divider" if "0 < divider"
    using that radix_bounds(1) [of base] by (intro int_div_less_self) simp_all
  moreover have "divider sdiv radix base = divider div radix base" if "0 < divider"
    using that radix_bounds(1) [of base] by (simp add: signed_divide_int_def sgn_if)
  ultimately show "((base, divider sdiv radix base, v smod divider, parsed + 1, pos', room - length c), base, divider, v, parsed, pos, room)
      \<in> measure (\<lambda>(base, divider, v, parsed, pos, room). nat divider)"
    by simp
qed simp

declare convert_loop.simps [simp del]

definition json_convert :: "number_kind \<Rightarrow> int \<Rightarrow> nat \<Rightarrow> nat \<Rightarrow> u8 list \<times> nat" where
  "json_convert k v max_length pos =
     (let r = radix (nk_base k) in
      case convert_loop (nk_base k) (first_divider r (v sdiv r) 1) v 4 pos max_length of
        (cs, pos) \<Rightarrow> (cs, if nk_base k = Base_decimal \<and> length cs < max_length then 0 else pos))"

definition number_serialize :: "number_kind \<Rightarrow> json_number \<Rightarrow> nat \<Rightarrow> nat \<Rightarrow> u8 list \<times> json_number \<times> nat" where
  "number_serialize k s max_length pos =
     (let (cs, pos) =
            (if jn_undefined s then
               (let cs = take max_length (take (4 - pos) (drop pos null_tag)); pos' = pos + length cs
                in (cs, if pos < 4 \<and> pos' = 4 then 0 else pos'))
             else
               (case number_prefixes k s pos max_length of
                  (cs, pos) \<Rightarrow>
                    if length cs < max_length then
                      (case json_convert k (if nk_signed k then number_abs (nk_bits k) (jn_value s) else jn_value s)
                              (max_length - length cs) pos of
                         (ds, pos) \<Rightarrow> (cs @ ds, pos))
                    else (cs, pos)))
      in if pos \<noteq> 0 \<and> length cs < max_length then (cs @ [34], s, 0) else (cs, s, pos))"

subsection \<open>Reading\<close>

text \<open>
  A character in front of the digits: by how much the loop goes on, which is two for a wrong character, the
  state and the next offset.
\<close>

definition number_refuse :: "u8 \<Rightarrow> json_number \<Rightarrow> nat \<times> json_number \<times> nat \<times> json_error option" where
  "number_refuse c s = (2, (no_flags s)\<lparr>jn_error := True\<rparr>, 4, Some (Unsupported_character c))"

definition first_digit :: "u8 \<Rightarrow> int \<Rightarrow> json_number \<Rightarrow> nat \<times> json_number \<times> nat \<times> json_error option" where
  "first_digit c base s = (1, s\<lparr>jn_value := uint c - 48, jn_base := base\<rparr>, 4, None)"

definition number_start :: "u8 \<Rightarrow> json_number \<Rightarrow> nat \<Rightarrow> nat \<times> json_number \<times> nat \<times> json_error option" where
  "number_start c s pos =
     (if pos = 0 then
        (let s = (no_flags s)\<lparr>jn_value := 0\<rparr>
         in if c = 34 then (1, s\<lparr>jn_quoted := True\<rparr>, 1, None)
            else if c = 45 then (1, s\<lparr>jn_negative := True, jn_base := 10\<rparr>, 4, None)
            else if is_digit c then first_digit c 10 s
            else if c = 110 then (1, s\<lparr>jn_undefined := True\<rparr>, 1, None)
            else number_refuse c s)
      else if pos = 1 then
        (if c = 48 then (1, s, 2, None)
         else if c = 45 then (1, s\<lparr>jn_negative := True\<rparr>, 2, None)
         else if is_digit c then first_digit c 10 s
         else if jn_undefined s \<and> c = 117 then (1, s, 2, None)
         else if c = 34 \<and> jn_quoted s then (0, s, 4, None)
         else number_refuse c s)
      else if pos = 2 then
        (if c = 48 then (1, s, 3, None)
         else if to_upper c = 88 then (1, s\<lparr>jn_base := 16\<rparr>, 4, None)
         else if is_digit c then first_digit c (if jn_negative s then 10 else 8) s
         else if jn_undefined s \<and> c = 108 then (1, s, 3, None)
         else if c = 34 \<and> jn_quoted s then (0, s, 4, None)
         else number_refuse c s)
      else
        (if to_upper c = 88 then (1, s\<lparr>jn_base := 16\<rparr>, 4, None)
         else if is_digit c then first_digit c 8 s
         else if jn_undefined s \<and> c = 108 then (1, s, 4, None)
         else if c = 34 \<and> jn_quoted s then (0, s, 4, None)
         else number_refuse c s))"

function number_preamble :: "u8 list \<Rightarrow> json_number \<Rightarrow> nat \<Rightarrow> nat \<times> u8 list \<times> json_number \<times> nat \<times> json_error option" where
  "number_preamble cs s pos =
     (if pos < 4 \<and> cs \<noteq> [] then
        (case number_start (hd cs) s pos of
           (used, s, pos, error) \<Rightarrow>
             (case number_preamble (drop used cs) s pos of
                (n, rest, s, pos, e) \<Rightarrow> (used + n, rest, s, pos, if e = None then error else e)))
      else (0, cs, s, pos, None))"
  by pat_completeness auto
termination
  by (relation "measure (\<lambda>(cs, s, pos). 4 - pos)")
    (auto simp: number_start_def number_refuse_def first_digit_def Let_def split: if_splits)

declare number_preamble.simps [simp del]

text \<open>The value after a digit, and whether it does not fit; then only the product is stored.\<close>

definition next_value :: "number_kind \<Rightarrow> int \<Rightarrow> int \<Rightarrow> int \<Rightarrow> int \<times> bool" where
  "next_value k base d v =
     (if number_wrap k (v * base) \<noteq> v * base then (number_wrap k (v * base), True)
      else (number_wrap k (v * base + d), number_wrap k (v * base + d) \<noteq> v * base + d))"

text \<open>One turn of the loop: whether the character is used up, whether the number is complete.\<close>

definition number_digit :: "number_kind \<Rightarrow> u8 \<Rightarrow> json_number \<Rightarrow> bool \<times> bool \<times> json_number \<times> json_error option" where
  "number_digit k c s =
     (let stored = (\<lambda>(v, overflow).
            if overflow then (True, True, s\<lparr>jn_value := v, jn_error := True\<rparr>, Some Integer_overflow)
            else (True, False, s\<lparr>jn_value := v\<rparr>, None))
      in if is_digit c then stored (next_value k (jn_base s) (uint c - 48) (jn_value s))
         else if is_xdigit c then stored (next_value k 16 (uint (to_upper c) - 65 + 10) (jn_value s))
         else if jn_quoted s \<and> c = 34 then (True, True, s, None)
         else if \<not> jn_quoted s \<and> ends_value c then (False, True, s, None)
         else (True, True, s\<lparr>jn_error := True\<rparr>, Some (Unsupported_character c)))"

fun number_digits :: "number_kind \<Rightarrow> u8 list \<Rightarrow> json_number \<Rightarrow> nat \<times> bool \<times> u8 list \<times> json_number \<times> json_error option" where
  "number_digits k [] s = (0, False, [], s, None)"
| "number_digits k (c # cs) s =
     (case number_digit k c s of
        (used, completed, s, error) \<Rightarrow>
          if completed then (if used then 1 else 0, True, if used then cs else c # cs, s, error)
          else (case number_digits k cs s of (n, completed, rest, s, error) \<Rightarrow> (n + 1, completed, rest, s, error)))"

text \<open>What follows the digits; after an error a quoted number is skipped up to its closing quote.\<close>

definition number_finish :: "number_kind \<Rightarrow> bool \<Rightarrow> u8 list \<Rightarrow> json_number \<Rightarrow> nat \<Rightarrow> nat \<times> json_number \<times> nat" where
  "number_finish k completed rest s pos =
     (if jn_error s \<and> jn_quoted s then
        (if pos = 0 then (0, s, pos)
         else let n = length (takeWhile (\<lambda>c. c \<noteq> 34) rest)
              in if n < length rest then (n + 1, s, 0) else (n, s, pos))
      else if completed \<and> 4 \<le> pos then
        (0, s\<lparr>jn_value := (if jn_negative s then number_wrap k (- jn_value s) else jn_value s), jn_set := True\<rparr>, 0)
      else (0, s, pos))"

definition number_deserialize :: "number_kind \<Rightarrow> json_number \<Rightarrow> u8 list \<Rightarrow> nat \<Rightarrow> nat \<times> json_number \<times> nat \<times> json_error option" where
  "number_deserialize k s stream pos =
     (case number_preamble stream s pos of
        (used, rest, s, pos, error) \<Rightarrow>
          (case (if jn_error s \<or> jn_undefined s then (0, True, rest, s, None) else number_digits k rest s) of
             (n, completed, rest, s, e) \<Rightarrow>
               (case number_finish k completed rest s pos of
                  (m, s, pos) \<Rightarrow> (used + n + m, s, pos, if e = None then error else e))))"

end
