(* ===== verification/Json_Number_Text.thy ===== *)
theory Json_Number_Text
  imports Json_Number
begin

text \<open>What JSON numbers write and read, and their contract as elements.\<close>

subsection \<open>Digits\<close>

text \<open>The digits of a number, the most significant one first.\<close>

function digits_of :: "int \<Rightarrow> int \<Rightarrow> int list" where
  "digits_of r v = (if 2 \<le> r \<and> r \<le> v then digits_of r (v div r) @ [v mod r] else [v])"
  by pat_completeness auto
termination
proof (relation "measure (\<lambda>(r, v). nat v)")
  fix r v :: int
  assume a: "2 \<le> r \<and> r \<le> v"
  then have "v div r < v" by (intro int_div_less_self) simp_all
  with a show "((r, v div r), r, v) \<in> measure (\<lambda>(r, v). nat v)" by simp
qed simp

declare digits_of.simps [simp del]

lemma digits_of_value: "foldl (\<lambda>a d. a * r + d) 0 (digits_of r v) = v"
proof (induction r v rule: digits_of.induct)
  case (1 r v)
  then show ?case by (cases "2 \<le> r \<and> r \<le> v") (auto simp: digits_of.simps [of r v])
qed

lemma digits_of_range: "2 \<le> r \<Longrightarrow> 0 \<le> v \<Longrightarrow> d \<in> set (digits_of r v) \<Longrightarrow> 0 \<le> d \<and> d < r"
proof (induction r v rule: digits_of.induct)
  case (1 r v)
  show ?case
  proof (cases "r \<le> v")
    case True
    then show ?thesis using 1 by (auto simp: digits_of.simps [of r v] pos_imp_zdiv_nonneg_iff)
  next
    case False
    then show ?thesis using 1(2-4) by (simp add: digits_of.simps [of r v])
  qed
qed

lemma digits_of_not_Nil [simp]: "digits_of r v \<noteq> []"
  by (simp add: digits_of.simps [of r v])

lemma digits_of_head: "2 \<le> r \<Longrightarrow> 0 < v \<Longrightarrow> hd (digits_of r v) \<noteq> 0"
proof (induction r v rule: digits_of.induct)
  case (1 r v)
  show ?case
  proof (cases "r \<le> v")
    case True
    then have "0 < v div r" using 1(2) by (simp add: pos_imp_zdiv_pos_iff)
    then show ?thesis using 1(1,2) True by (simp add: digits_of.simps [of r v])
  next
    case False
    then show ?thesis using 1(3) by (simp add: digits_of.simps [of r v])
  qed
qed

lemma digits_of_length: "2 \<le> r \<Longrightarrow> 0 \<le> v \<Longrightarrow> v < 2 ^ n \<Longrightarrow> length (digits_of r v) \<le> max 1 n"
proof (induction n arbitrary: v)
  case 0
  then show ?case by (simp add: digits_of.simps [of r v])
next
  case (Suc n)
  show ?case
  proof (cases "r \<le> v")
    case True
    have "v div r \<le> v div 2" using Suc.prems by (intro zdiv_mono2) simp_all
    also have "\<dots> < 2 ^ n" using Suc.prems by simp
    finally have q: "v div r < 2 ^ n" "0 \<le> v div r" using Suc.prems by (simp_all add: pos_imp_zdiv_nonneg_iff)
    have "n \<noteq> 0" using Suc.prems True by (intro notI) simp
    then show ?thesis using Suc.IH [OF Suc.prems(1) q(2,1)] True Suc.prems by (simp add: digits_of.simps [of r v])
  qed (simp add: digits_of.simps [of r v])
qed

text \<open>The same with a divider that starts at a power of the base.\<close>

fun fixed_digits :: "int \<Rightarrow> nat \<Rightarrow> int \<Rightarrow> int list" where
  "fixed_digits r 0 v = [v]"
| "fixed_digits r (Suc k) v = v div r ^ Suc k # fixed_digits r k (v mod r ^ Suc k)"

lemma length_fixed_digits [simp]: "length (fixed_digits r k v) = Suc k"
  by (induction k arbitrary: v) simp_all

lemma fixed_digits_last: "2 \<le> r \<Longrightarrow> fixed_digits r (Suc k) v = fixed_digits r k (v div r) @ [v mod r]"
proof (induction k arbitrary: v)
  case (Suc k)
  obtain c where c: "c = r ^ Suc k" by blast
  have p: "0 < c" "r ^ Suc (Suc k) = r * c" using Suc.prems by (simp_all add: c)
  have m: "v mod (r * c) = r * (v div r mod c) + v mod r" using p(1) by (simp add: zmod_zmult2_eq)
  have "(r * (v div r mod c) + v mod r) div r = v div r mod c" using Suc.prems by (simp add: div_pos_pos_trivial)
  moreover have "(r * (v div r mod c) + v mod r) mod r = v mod r" by simp
  moreover have "v div (r * c) = v div r div c" using p(1) Suc.prems by (simp add: zdiv_zmult2_eq)
  ultimately have "fixed_digits r (Suc (Suc k)) v = v div r div c # fixed_digits r k (v div r mod c) @ [v mod r]"
    using Suc.IH [OF Suc.prems, of "v mod (r * c)"] by (simp only: fixed_digits.simps(2) [of r "Suc k"] p(2) m)
  then show ?case by (simp add: c)
qed simp

lemma div_bounds:
  fixes r v c :: int
  assumes "2 \<le> r" "0 \<le> v"
  shows "v < r * c \<Longrightarrow> v div r < c" "r * c \<le> v \<Longrightarrow> c \<le> v div r"
proof -
  have q: "r * (v div r) \<le> v" "v < r * (v div r + 1)"
  proof -
    have "0 \<le> v mod r" "v mod r < r" using assms by simp_all
    moreover have "r * (v div r) + v mod r = v" by (rule mult_div_mod_eq)
    moreover have "r * (v div r + 1) = r * (v div r) + r" by (simp add: distrib_left)
    ultimately show "r * (v div r) \<le> v" "v < r * (v div r + 1)" by linarith+
  qed
  show "v div r < c" if "v < r * c"
  proof (rule ccontr)
    assume "\<not> v div r < c"
    then have "r * c \<le> r * (v div r)" using assms(1) by (intro mult_left_mono) simp_all
    then show False using q(1) that by linarith
  qed
  show "c \<le> v div r" if "r * c \<le> v"
  proof (rule ccontr)
    assume "\<not> c \<le> v div r"
    then have "r * (v div r + 1) \<le> r * c" using assms(1) by (intro mult_left_mono) simp_all
    then show False using q(2) that by linarith
  qed
qed

lemma fixed_digits_of:
  "2 \<le> r \<Longrightarrow> 0 \<le> v \<Longrightarrow> v < r ^ Suc k \<Longrightarrow> k = 0 \<or> r ^ k \<le> v \<Longrightarrow> fixed_digits r k v = digits_of r v"
proof (induction k arbitrary: v)
  case 0
  then show ?case by (simp add: digits_of.simps [of r v])
next
  case (Suc k)
  have "r * 1 \<le> r * r ^ k" using Suc.prems(1) by (intro mult_left_mono) simp_all
  then have "r \<le> v" using Suc.prems(4) by simp
  moreover have "fixed_digits r k (v div r) = digits_of r (v div r)"
  proof (rule Suc.IH [OF Suc.prems(1)])
    show "0 \<le> v div r" using Suc.prems by (simp add: pos_imp_zdiv_nonneg_iff)
    show "v div r < r ^ Suc k" using Suc.prems by (intro div_bounds(1)) simp_all
    show "k = 0 \<or> r ^ k \<le> v div r" using Suc.prems by (intro disjI2 div_bounds(2)) simp_all
  qed
  ultimately show ?case using Suc.prems(1) by (simp add: fixed_digits_last digits_of.simps [of r v] del: fixed_digits.simps)
qed

lemma first_divider_power:
  "2 \<le> r \<Longrightarrow> \<exists>m. first_divider r q (r ^ j) = r ^ m \<and> q < r ^ m \<and> (m = j \<or> j < m \<and> r ^ (m - 1) \<le> q)"
proof (induction "nat (q + 1 - r ^ j)" arbitrary: j rule: less_induct)
  case less
  have p: "0 < r ^ j" using less.prems by simp
  show ?case
  proof (cases "r ^ j \<le> q")
    case True
    have "r ^ j * 1 < r ^ j * r" using p less.prems by (intro mult_strict_left_mono) simp_all
    then have "r ^ j < r ^ Suc j" by (simp add: mult.commute)
    then have "nat (q + 1 - r ^ Suc j) < nat (q + 1 - r ^ j)" using True by simp
    from less.hyps [OF this less.prems] obtain m where
      m: "first_divider r q (r ^ Suc j) = r ^ m" "q < r ^ m" "m = Suc j \<or> Suc j < m \<and> r ^ (m - 1) \<le> q" by blast
    then have "first_divider r q (r ^ j) = r ^ m"
      using True p less.prems by (simp add: first_divider.simps [of r q "r ^ j"] mult.commute)
    then show ?thesis using m True by auto
  next
    case False
    then show ?thesis by (intro exI [of _ j]) (simp add: first_divider.simps [of r q "r ^ j"])
  qed
qed

subsection \<open>The digits that are written\<close>

lemma signed_div_pos: "0 \<le> v \<Longrightarrow> 0 < d \<Longrightarrow> v sdiv d = v div d \<and> v smod d = v mod (d :: int)"
  by (simp add: signed_divide_int_def signed_modulo_int_def sgn_if)

lemma convert_loop_digits:
  assumes "r = radix base" "0 \<le> v" "parsed \<le> pos" "pos \<le> parsed + Suc k"
  shows "convert_loop base (r ^ k) v parsed pos room =
    (map (json_digit base) (take room (drop (pos - parsed) (fixed_digits r k v))), pos + min room (parsed + Suc k - pos))"
  using assms(2-4)
proof (induction k arbitrary: v parsed pos room)
  case 0
  have z: "convert_loop base (1 sdiv radix base) w p q n = ([], q)" for w p q n
    using radix_bounds(1) [of base] signed_div_pos [of 1 "radix base"]
    by (simp add: convert_loop.simps [of base _ w p q n] div_pos_pos_trivial)
  have o: "v sdiv 1 = v" using signed_div_pos [of v 1] 0 by simp
  have "pos = parsed \<or> pos = parsed + 1" using 0 by auto
  then show ?case
    by (cases room) (auto simp: convert_loop.simps [of base 1 v parsed pos] z o)
next
  case (Suc k)
  have r: "2 \<le> r" using radix_bounds(1) assms(1) by simp
  have p: "0 < r ^ Suc k" "0 < r" using r by simp_all
  have s: "v sdiv r ^ Suc k = v div r ^ Suc k" "v smod r ^ Suc k = v mod r ^ Suc k" "r ^ Suc k sdiv radix base = r ^ k"
    using signed_div_pos [OF Suc.prems(1) p(1)] signed_div_pos [of "r ^ Suc k" r] p assms(1) by simp_all
  have m: "0 \<le> v mod r ^ Suc k" using p(1) by simp
  show ?case
  proof (cases room)
    case 0
    then show ?thesis by (simp add: convert_loop.simps [of base _ v parsed pos])
  next
    case (Suc n)
    show ?thesis
    proof (cases "pos = parsed")
      case True
      have "convert_loop base (r ^ k) (v mod r ^ Suc k) (parsed + 1) (pos + 1) n =
        (map (json_digit base) (take n (drop 0 (fixed_digits r k (v mod r ^ Suc k)))), pos + 1 + min n (Suc k))"
        using Suc.IH [OF m, of "parsed + 1" "pos + 1" n] True by simp
      then show ?thesis
        using p True unfolding convert_loop.simps [of base "r ^ Suc k" v parsed pos] s Suc by simp
    next
      case False
      then have l: "parsed + 1 \<le> pos" "pos \<le> parsed + 1 + Suc k" using Suc.prems(2,3) by simp_all
      have "pos - parsed = Suc (pos - (parsed + 1))" using l by simp
      then show ?thesis
        using p False l Suc.IH [OF m l, of room] unfolding convert_loop.simps [of base "r ^ Suc k" v parsed pos] s Suc by simp
    qed
  qed
qed

text \<open>The digits of a kind, and what \<open>Convert\<close> writes of them.\<close>

definition kind_digits :: "number_kind \<Rightarrow> int \<Rightarrow> u8 list" where
  "kind_digits k v = map (json_digit (nk_base k)) (digits_of (radix (nk_base k)) v)"

lemma json_convert_digits:
  assumes "0 \<le> v" "4 \<le> pos" "pos \<le> 4 + length (kind_digits k v)"
  shows "json_convert k v n pos =
    (take n (drop (pos - 4) (kind_digits k v)),
     if nk_base k = Base_decimal \<and> length (drop (pos - 4) (kind_digits k v)) < n then 0
     else pos + min n (4 + length (kind_digits k v) - pos))"
proof -
  obtain r where r: "r = radix (nk_base k)" "2 \<le> r" using radix_bounds(1) by blast
  have q: "v sdiv r = v div r" using signed_div_pos [OF assms(1), of r] r(2) by simp
  obtain m where m: "first_divider r (v div r) 1 = r ^ m" "v div r < r ^ m" "m = 0 \<or> 0 < m \<and> r ^ (m - 1) \<le> v div r"
    using first_divider_power [OF r(2), of "v div r" 0] by auto
  have f: "fixed_digits r m v = digits_of r v"
  proof (rule fixed_digits_of [OF r(2) assms(1)])
    show "v < r ^ Suc m"
    proof (rule ccontr)
      assume "\<not> v < r ^ Suc m"
      then have "r ^ m \<le> v div r" by (intro div_bounds(2) [OF r(2) assms(1)]) simp
      then show False using m(2) by simp
    qed
    show "m = 0 \<or> r ^ m \<le> v"
    proof (cases m)
      case (Suc j)
      then have j: "r ^ j \<le> v div r" using m(3) by simp
      have "r ^ m \<le> v"
      proof (rule ccontr)
        assume "\<not> r ^ m \<le> v"
        then have "v div r < r ^ j" by (intro div_bounds(1) [OF r(2) assms(1)]) (simp add: Suc)
        then show False using j by simp
      qed
      then show ?thesis by simp
    qed simp
  qed
  then have l: "length (digits_of r v) = Suc m" by (metis length_fixed_digits)
  have "convert_loop (nk_base k) (r ^ m) v 4 pos n =
    (map (json_digit (nk_base k)) (take n (drop (pos - 4) (digits_of r v))), pos + min n (4 + Suc m - pos))"
    using convert_loop_digits [OF r(1) assms(1,2), of m n] assms(3) l f by (simp add: kind_digits_def r(1))
  then show ?thesis
    using l by (simp add: json_convert_def Let_def r(1) [symmetric] q m(1) kind_digits_def take_map drop_map min_less_iff_disj)
qed

subsection \<open>The text\<close>

definition number_sign :: "int \<Rightarrow> u8 list" where
  "number_sign v = (if v < 0 then [45] else [])"

text \<open>What is in front of the digits from an offset on, and what is behind them.\<close>

definition prefix_from :: "number_kind \<Rightarrow> int \<Rightarrow> nat \<Rightarrow> u8 list" where
  "prefix_from k v pos =
     (if 4 \<le> pos then []
      else if nk_base k = Base_decimal then number_sign v
      else (if pos = 0 then [34] else []) @ (if pos \<le> 1 then number_sign v else []) @
        (if pos \<le> 2 then [48] else []) @ (if nk_base k = Base_octal then [] else [120]))"

definition number_ending :: "number_kind \<Rightarrow> u8 list" where
  "number_ending k = (if nk_base k = Base_decimal then [] else [34])"

fun number_json :: "number_kind \<Rightarrow> int option \<Rightarrow> u8 list" where
  "number_json k None = null_tag"
| "number_json k (Some v) = prefix_from k v 0 @ kind_digits k \<bar>v\<bar> @ number_ending k"

definition number_ready :: "number_kind \<Rightarrow> int option \<Rightarrow> bool" where
  "number_ready k v \<longleftrightarrow> 0 < nk_bits k \<and> nk_base k \<noteq> Base_unknown \<and>
     (case v of None \<Rightarrow> True
      | Some v \<Rightarrow> v \<le> type_max (nk_signed k) (nk_bits k) \<and> (if nk_signed k then - v \<le> type_max True (nk_bits k) else 0 \<le> v))"

definition number_holds :: "json_number \<Rightarrow> int option \<Rightarrow> bool" where
  "number_holds s v \<longleftrightarrow> jn_set s \<and> v = (if jn_undefined s then None else Some (jn_value s))"

definition number_rest :: "number_kind \<Rightarrow> json_number \<Rightarrow> nat \<Rightarrow> u8 list" where
  "number_rest k s pos =
     (if jn_undefined s then drop pos null_tag
      else prefix_from k (jn_value s) pos @ drop (pos - 4) (kind_digits k \<bar>jn_value s\<bar>) @ number_ending k)"

definition number_writes :: "number_kind \<Rightarrow> json_number \<Rightarrow> nat \<Rightarrow> u8 list \<Rightarrow> bool" where
  "number_writes k s pos rest \<longleftrightarrow> number_ready k (if jn_undefined s then None else Some (jn_value s)) \<and>
     rest = number_rest k s pos \<and>
     (if jn_undefined s then pos < 4
      else pos \<le> 4 + length (kind_digits k \<bar>jn_value s\<bar>) \<and> \<not> (pos = 3 \<and> nk_base k = Base_octal))"

lemma number_prefix_step:
  assumes "pos < 4" "nk_base k \<noteq> Base_unknown" "\<not> (pos = 3 \<and> nk_base k = Base_octal)" "number_ready k (Some (jn_value s))"
  shows "\<exists>c pos'. number_prefix k s pos = (c, pos') \<and> prefix_from k (jn_value s) pos = c @ prefix_from k (jn_value s) pos' \<and>
    length c \<le> 1 \<and> pos < pos' \<and> pos' \<le> 4 \<and> \<not> (pos' = 3 \<and> nk_base k = Base_octal)"
proof -
  have "pos = 0 \<or> pos = 1 \<or> pos = 2 \<or> pos = 3" using assms(1) by auto
  moreover have "\<not> nk_signed k \<Longrightarrow> \<not> jn_value s < 0" using assms(4) by (simp add: number_ready_def)
  ultimately show ?thesis using assms(2,3)
    by (cases "nk_base k") (auto simp: number_prefix_def prefix_from_def number_sign_def Let_def)
qed

lemma number_prefixes_text:
  assumes "nk_base k \<noteq> Base_unknown" "\<not> (pos = 3 \<and> nk_base k = Base_octal)" "number_ready k (Some (jn_value s))"
  shows "\<exists>pos'. number_prefixes k s pos room = (take room (prefix_from k (jn_value s) pos), pos') \<and>
    prefix_from k (jn_value s) pos' = drop room (prefix_from k (jn_value s) pos) \<and>
    (4 \<le> pos \<longrightarrow> pos' = pos) \<and> (pos < 4 \<longrightarrow> pos' \<le> 4 \<and> (0 < room \<longrightarrow> pos' \<noteq> 0)) \<and>
    (length (prefix_from k (jn_value s) pos) < room \<longrightarrow> 4 \<le> pos') \<and> \<not> (pos' = 3 \<and> nk_base k = Base_octal)"
  using assms(2)
proof (induction "4 - pos" arbitrary: pos room rule: less_induct)
  case less
  show ?case
  proof (cases "pos < 4 \<and> 0 < room")
    case False
    have e: "prefix_from k (jn_value s) pos = []" if "4 \<le> pos" using that by (simp add: prefix_from_def)
    have n: "number_prefixes k s pos room = ([], pos)" unfolding number_prefixes.simps [of k s pos] if_not_P [OF False] ..
    show ?thesis
    proof (cases "4 \<le> pos")
      case True
      then show ?thesis using less.prems e n by (intro exI [of _ pos]) simp
    next
      case False
      then have "room = 0" using \<open>\<not> (pos < 4 \<and> 0 < room)\<close> by simp
      then show ?thesis using False less.prems n by (intro exI [of _ pos]) simp
    qed
  next
    case True
    then have a: "pos < 4" "0 < room" by simp_all
    obtain c pos1 where 1: "number_prefix k s pos = (c, pos1)"
      "prefix_from k (jn_value s) pos = c @ prefix_from k (jn_value s) pos1"
      "length c \<le> 1" "pos < pos1" "pos1 \<le> 4" "\<not> (pos1 = 3 \<and> nk_base k = Base_octal)"
      using number_prefix_step [OF a(1) assms(1) less.prems assms(3)] by blast
    have "4 - pos1 < 4 - pos" using 1(4) a(1) by simp
    from less.hyps [OF this 1(6), of "room - length c"] obtain pos2 where
      2: "number_prefixes k s pos1 (room - length c) = (take (room - length c) (prefix_from k (jn_value s) pos1), pos2)"
        "prefix_from k (jn_value s) pos2 = drop (room - length c) (prefix_from k (jn_value s) pos1)"
        "4 \<le> pos1 \<longrightarrow> pos2 = pos1" "pos1 < 4 \<longrightarrow> pos2 \<le> 4 \<and> (0 < room - length c \<longrightarrow> pos2 \<noteq> 0)"
        "length (prefix_from k (jn_value s) pos1) < room - length c \<longrightarrow> 4 \<le> pos2" "\<not> (pos2 = 3 \<and> nk_base k = Base_octal)"
      by (elim exE conjE) (rule that)
    have tc: "take room c = c" "drop room c = []" using 1(3) a(2) by simp_all
    have "pos2 \<noteq> 0"
    proof (cases "pos1 < 4 \<and> room - length c = 0")
      case True
      then have "number_prefixes k s pos1 (room - length c) = ([], pos1)" by (simp add: number_prefixes.simps [of k s pos1])
      then show ?thesis using 2(1) 1(4) by simp
    next
      case False
      then show ?thesis using 2(3,4) 1(4) by auto
    qed
    moreover have "pos2 \<le> 4" using 2(3,4) 1(5) by (cases "pos1 < 4") auto
    moreover have "number_prefixes k s pos room = (take room (prefix_from k (jn_value s) pos), pos2)"
      using tc 2(1) unfolding 1(2) number_prefixes.simps [of k s pos] if_P [OF True] 1(1) prod.case by simp
    moreover have "prefix_from k (jn_value s) pos2 = drop room (prefix_from k (jn_value s) pos)"
      using 2(2) tc unfolding 1(2) by simp
    moreover have "length (prefix_from k (jn_value s) pos) < room \<longrightarrow> 4 \<le> pos2" using 2(5) unfolding 1(2) by auto
    ultimately show ?thesis using a 2(6) by (intro exI [of _ pos2]) simp
  qed
qed

lemma number_ready_abs:
  assumes "number_ready k (Some v)"
  shows "(if nk_signed k then number_abs (nk_bits k) v else v) = \<bar>v\<bar>" "\<bar>v\<bar> \<le> type_max (nk_signed k) (nk_bits k)"
proof -
  have w: "0 < nk_bits k" using assms by (simp add: number_ready_def)
  have b: "v \<le> type_max (nk_signed k) (nk_bits k)" "nk_signed k \<Longrightarrow> - v \<le> type_max True (nk_bits k)" "\<not> nk_signed k \<Longrightarrow> 0 \<le> v"
    using assms by (simp_all add: number_ready_def)
  show le: "\<bar>v\<bar> \<le> type_max (nk_signed k) (nk_bits k)" using b by (cases "nk_signed k") auto
  have "wrap_signed (nk_bits k) (- v) = - v" if "nk_signed k" "v < 0"
  proof -
    have "(2 :: int) ^ nk_bits k = 2 * 2 ^ (nk_bits k - 1)" using w by (cases "nk_bits k") simp_all
    then show ?thesis using b(2) that by (simp add: wrap_signed_def type_max_def max_signed_def)
  qed
  then show "(if nk_signed k then number_abs (nk_bits k) v else v) = \<bar>v\<bar>" using b(3) by (auto simp: number_abs_def)
qed

lemma kind_digits_not_Nil: "0 < length (kind_digits k v)"
  by (simp add: kind_digits_def)

lemma number_serialize_value:
  assumes "\<not> jn_undefined s" "number_ready k (Some (jn_value s))" "pos \<le> 4 + length (kind_digits k \<bar>jn_value s\<bar>)"
    "\<not> (pos = 3 \<and> nk_base k = Base_octal)" "0 < n"
  shows "\<exists>pos'. number_serialize k s n pos = (take n (number_rest k s pos), s, pos') \<and>
    (pos' = 0 \<and> length (number_rest k s pos) \<le> n \<or> pos' \<noteq> 0 \<and> n \<le> length (number_rest k s pos) \<and>
      number_writes k s pos' (drop n (number_rest k s pos)))"
proof -
  obtain v ds where v: "v = jn_value s" "ds = kind_digits k \<bar>v\<bar>" by blast
  have base: "nk_base k \<noteq> Base_unknown" using assms(2) by (simp add: number_ready_def)
  have ready: "number_ready k (Some v)" using assms(2) by (simp add: v)
  obtain pos1 where 1: "number_prefixes k s pos n = (take n (prefix_from k v pos), pos1)"
    "prefix_from k v pos1 = drop n (prefix_from k v pos)" "4 \<le> pos \<longrightarrow> pos1 = pos" "pos < 4 \<longrightarrow> pos1 \<le> 4 \<and> pos1 \<noteq> 0"
    "length (prefix_from k v pos) < n \<longrightarrow> 4 \<le> pos1" "\<not> (pos1 = 3 \<and> nk_base k = Base_octal)"
    using number_prefixes_text [OF base assms(4,2), of n] assms(5) unfolding v(1) [symmetric] by blast
  have pos1: "pos1 \<noteq> 0" "pos1 \<le> 4 + length ds" using 1(3,4) assms(3) by (cases "4 \<le> pos"; simp add: v)+
  have rest: "number_rest k s p = prefix_from k v p @ drop (p - 4) ds @ number_ending k" for p
    using assms(1) by (simp add: number_rest_def v)
  have four: "drop (pos - 4) ds = drop (pos1 - 4) ds" using 1(3,4) by (cases "4 \<le> pos") auto
  have writes: "number_writes k s p (number_rest k s p)" if "p \<le> 4 + length ds" "\<not> (p = 3 \<and> nk_base k = Base_octal)" for p
    using assms(1,2) that by (simp add: number_writes_def v)
  show ?thesis
  proof (cases "length (prefix_from k v pos) < n")
    case False
    then have "number_serialize k s n pos = (take n (number_rest k s pos), s, pos1)"
      using assms(1) 1(1) by (simp add: number_serialize_def rest)
    moreover have "drop n (number_rest k s pos) = number_rest k s pos1"
      using False unfolding rest by (simp add: 1(2) four)
    ultimately have "number_writes k s pos1 (drop n (number_rest k s pos))" using writes [OF pos1(2) 1(6)] by simp
    moreover have "n \<le> length (number_rest k s pos)" using False by (simp add: rest)
    ultimately show ?thesis using pos1(1) \<open>number_serialize k s n pos = (take n (number_rest k s pos), s, pos1)\<close> by blast
  next
    case True
    then have p4: "4 \<le> pos1" "prefix_from k v pos1 = []" "take n (prefix_from k v pos) = prefix_from k v pos" using 1(2,5) by simp_all
    obtain m where m: "m = n - length (prefix_from k v pos)" "0 < m" using True by simp
    obtain es where es: "es = drop (pos1 - 4) ds" by blast
    have c: "json_convert k \<bar>v\<bar> m pos1 =
      (take m es, if nk_base k = Base_decimal \<and> length es < m then 0 else pos1 + min m (4 + length ds - pos1))"
      using json_convert_digits [OF abs_ge_zero p4(1), of k v m] pos1(2) by (simp add: v(2) es)
    have l: "4 + length ds - pos1 = length es" "pos1 + length es = 4 + length ds" using p4(1) pos1(2) by (simp_all add: es)
    have abs: "(if nk_signed k then number_abs (nk_bits k) (jn_value s) else jn_value s) = \<bar>v\<bar>"
      using number_ready_abs(1) [OF ready] unfolding v(1) .
    have ser: "number_serialize k s n pos =
      (let cs = prefix_from k v pos @ take m es;
           pos' = (if nk_base k = Base_decimal \<and> length es < m then 0 else pos1 + min m (length es))
       in if pos' \<noteq> 0 \<and> length cs < n then (cs @ [34], s, 0) else (cs, s, pos'))"
      using True assms(1) 1(1) p4(3) pos1(1) unfolding number_serialize_def abs by (simp add: m(1) [symmetric] c l(1) Let_def)
    have r: "number_rest k s pos = prefix_from k v pos @ es @ number_ending k" unfolding rest four es ..
    have n: "n = length (prefix_from k v pos) + m" using m True by simp
    show ?thesis
    proof (cases "length es < m")
      case False
      then have ser': "number_serialize k s n pos = (take n (number_rest k s pos), s, pos1 + m)"
        using False p4(1) unfolding ser r by (simp add: Let_def n)
      have "pos1 + m - 4 = m + (pos1 - 4)" using p4(1) by simp
      then have "drop (pos1 + m - 4) ds = drop m es" by (simp add: es)
      then have "number_rest k s (pos1 + m) = drop m es @ number_ending k" unfolding rest using p4(1) by (simp add: prefix_from_def)
      moreover have "drop n (number_rest k s pos) = drop m es @ number_ending k" unfolding r using False by (simp add: n)
      ultimately have "drop n (number_rest k s pos) = number_rest k s (pos1 + m)" by simp
      moreover have "number_writes k s (pos1 + m) (number_rest k s (pos1 + m))"
        using False l p4(1) m(2) by (intro writes) auto
      ultimately show ?thesis using ser' False p4(1) by (intro exI [of _ "pos1 + m"]) (simp add: r n)
    next
      case True
      then show ?thesis
        using p4(1) unfolding ser r by (cases "nk_base k = Base_decimal") (simp_all add: Let_def number_ending_def n)
    qed
  qed
qed

lemma number_writes_part:
  assumes "number_writes k s pos rest" "0 < n"
  shows "\<exists>s' pos'. number_serialize k s n pos = (take n rest, s', pos') \<and>
    (pos' = 0 \<and> length rest \<le> n \<or> pos' \<noteq> 0 \<and> n \<le> length rest \<and> number_writes k s' pos' (drop n rest))"
proof (cases "jn_undefined s")
  case True
  then have r: "pos < 4" "rest = drop pos null_tag" "number_ready k None" using assms(1) by (simp_all add: number_writes_def number_rest_def)
  have l: "length rest = 4 - pos" using r(2) by (simp add: null_tag_def)
  have t: "take (4 - pos) (drop pos null_tag) = rest" using l r(2) by simp
  show ?thesis
  proof (cases "length rest \<le> n")
    case True
    then have "number_serialize k s n pos = (take n rest, s, 0)"
      using \<open>jn_undefined s\<close> r(1) l by (simp add: number_serialize_def t Let_def)
    then show ?thesis using True by blast
  next
    case False
    then have "number_serialize k s n pos = (take n rest, s, pos + n)"
      using \<open>jn_undefined s\<close> r(1) l assms(2) by (simp add: number_serialize_def t Let_def min_absorb2)
    moreover have "number_writes k s (pos + n) (drop n rest)"
      using \<open>jn_undefined s\<close> r False l by (simp add: number_writes_def number_rest_def add.commute)
    ultimately show ?thesis using False assms(2) by auto
  qed
next
  case False
  then have r: "rest = number_rest k s pos" "number_ready k (Some (jn_value s))" "pos \<le> 4 + length (kind_digits k \<bar>jn_value s\<bar>)"
    "\<not> (pos = 3 \<and> nk_base k = Base_octal)"
    using assms(1) by (simp_all add: number_writes_def)
  show ?thesis unfolding r(1) using number_serialize_value [OF False r(2-4) assms(2)] by blast
qed

lemma number_writes_start: "number_ready k v \<Longrightarrow> number_holds s v \<Longrightarrow> number_writes k s 0 (number_json k v)"
  by (auto simp: number_writes_def number_holds_def number_rest_def split: if_splits)

lemma kind_digits_length:
  assumes "number_ready k (Some v)" shows "length (kind_digits k \<bar>v\<bar>) \<le> nk_bits k"
proof -
  have "\<bar>v\<bar> \<le> type_max (nk_signed k) (nk_bits k)" using assms by (rule number_ready_abs)
  moreover have "(2 :: int) ^ (nk_bits k - 1) \<le> 2 ^ nk_bits k" by simp
  ultimately have "\<bar>v\<bar> < 2 ^ nk_bits k"
    unfolding type_max_def max_signed_def max_unsigned_def by (cases "nk_signed k"; simp only: if_True if_False; linarith)
  then have "length (kind_digits k \<bar>v\<bar>) \<le> max 1 (nk_bits k)"
    using digits_of_length [OF radix_bounds(1) abs_ge_zero] by (simp add: kind_digits_def)
  then show ?thesis using assms by (simp add: number_ready_def)
qed

lemma number_writes_top: "number_writes k s pos rest \<Longrightarrow> pos \<le> 4 + nk_bits k"
  using kind_digits_length [of k "jn_value s"] by (auto simp: number_writes_def split: if_splits)

end
