(* ===== verification/Json_Number_Reading.thy ===== *)
theory Json_Number_Reading
  imports Json_Number_Text Json_Array_Facts
begin

text \<open>How JSON numbers are read, in parts, and the contract of a number.\<close>

subsection \<open>Characters that are taken\<close>

text \<open>A character that is taken, without an error, while the number is not complete.\<close>

definition number_step :: "number_kind \<Rightarrow> u8 \<Rightarrow> json_number \<times> nat \<Rightarrow> (json_number \<times> nat) option" where
  "number_step k c = (\<lambda>(s, pos).
     if pos < 4 then
       (case number_start c s pos of
          (used, s, pos, error) \<Rightarrow>
            if used = 1 \<and> error = None \<and> \<not> jn_error s \<and> \<not> (jn_undefined s \<and> pos = 4) then Some (s, pos) else None)
     else if pos = 4 \<and> \<not> jn_error s \<and> \<not> jn_undefined s then
       (case number_digit k c s of (used, completed, s, error) \<Rightarrow> if completed then None else Some (s, 4))
     else None)"

fun number_run :: "number_kind \<Rightarrow> u8 list \<Rightarrow> json_number \<times> nat \<Rightarrow> (json_number \<times> nat) option" where
  "number_run k [] p = Some p"
| "number_run k (c # cs) p = Option.bind (number_step k c p) (number_run k cs)"

lemma number_run_append: "number_run k (cs @ ds) p = Option.bind (number_run k cs p) (number_run k ds)"
  by (induction cs arbitrary: p) (auto split: bind_splits)

definition ahead :: "nat \<Rightarrow> nat \<times> json_number \<times> nat \<times> json_error option \<Rightarrow> nat \<times> json_number \<times> nat \<times> json_error option" where
  "ahead n r = (n + fst r, snd r)"

lemma ahead_simps [simp]: "ahead n (m, x) = (n + m, x)" "ahead 0 r = r" "ahead m (ahead n r) = ahead (m + n) r"
  by (simp_all add: ahead_def)

lemma number_digit_goes_on:
  "number_digit k c s = (used, False, s', error) \<Longrightarrow>
    used \<and> error = None \<and> jn_error s' = jn_error s \<and> jn_undefined s' = jn_undefined s"
  by (auto simp: number_digit_def Let_def split: if_splits prod.splits)

lemma number_step_steady:
  "number_step k c (s, pos) = Some (s', pos') \<Longrightarrow>
    \<not> jn_error s' \<and> (jn_undefined s' \<longrightarrow> pos' \<noteq> 4) \<and> 0 < pos' \<and> pos' \<le> 4"
  by (auto simp: number_step_def number_start_def first_digit_def number_refuse_def Let_def dest!: number_digit_goes_on
      split: if_splits prod.splits)

lemma number_run_steady:
  "number_run k cs (s, pos) = Some (s', pos') \<Longrightarrow> cs \<noteq> [] \<Longrightarrow>
    \<not> jn_error s' \<and> (jn_undefined s' \<longrightarrow> pos' \<noteq> 4) \<and> 0 < pos' \<and> pos' \<le> 4"
proof (induction cs arbitrary: s pos)
  case (Cons c cs)
  then obtain s1 pos1 where 1: "number_step k c (s, pos) = Some (s1, pos1)" "number_run k cs (s1, pos1) = Some (s', pos')"
    by (auto split: bind_splits)
  show ?case
  proof (cases "cs = []")
    case True
    then show ?thesis using 1 number_step_steady by simp
  next
    case False
    then show ?thesis using Cons.IH [OF 1(2)] by simp
  qed
qed simp

lemma number_step_ahead:
  assumes "number_step k c (s, pos) = Some (s', pos')"
  shows "number_deserialize k s (c # cs) pos = ahead 1 (number_deserialize k s' cs pos')"
proof (cases "pos < 4")
  case True
  then have 1: "number_start c s pos = (1, s', pos', None)"
    using assms by (auto simp: number_step_def split: prod.splits if_splits)
  obtain n rest t q e where 2: "number_preamble cs s' pos' = (n, rest, t, q, e)" by (cases "number_preamble cs s' pos'") auto
  have "number_preamble (c # cs) s pos = (1 + n, rest, t, q, e)"
    using True by (simp add: number_preamble.simps [of "c # cs" s pos] 1 2)
  then show ?thesis by (simp add: number_deserialize_def 2 split: prod.splits)
next
  case False
  then have p: "pos = 4" "\<not> jn_error s" "\<not> jn_undefined s" using assms by (auto simp: number_step_def split: if_splits)
  obtain used error where d: "number_digit k c s = (used, False, s', error)" "pos' = 4"
    using assms p by (auto simp: number_step_def split: prod.splits if_splits)
  note g = number_digit_goes_on [OF d(1)]
  have "number_preamble ds t 4 = (0, ds, t, 4, None)" for ds t by (simp add: number_preamble.simps)
  then show ?thesis using p d g by (simp add: number_deserialize_def split: prod.splits)
qed

lemma number_run_ahead:
  "number_run k cs (s, pos) = Some (s', pos') \<Longrightarrow>
    number_deserialize k s (cs @ ds) pos = ahead (length cs) (number_deserialize k s' ds pos')"
proof (induction cs arbitrary: s pos)
  case (Cons c cs)
  then obtain s1 pos1 where 1: "number_step k c (s, pos) = Some (s1, pos1)" "number_run k cs (s1, pos1) = Some (s', pos')"
    by (auto split: bind_splits)
  show ?case using Cons.IH [OF 1(2)] number_step_ahead [OF 1(1), of "cs @ ds"] by simp
qed simp

lemma number_deserialize_Nil:
  "\<not> jn_error s \<Longrightarrow> jn_undefined s \<longrightarrow> pos \<noteq> 4 \<Longrightarrow> pos \<le> 4 \<Longrightarrow> number_deserialize k s [] pos = (0, s, pos, None)"
  by (auto simp: number_deserialize_def number_preamble.simps number_finish_def)

subsection \<open>Digits\<close>

lemma number_wrap_fits:
  assumes "0 < nk_bits k" "\<bar>u\<bar> \<le> type_max (nk_signed k) (nk_bits k)" "nk_signed k \<or> 0 \<le> u"
  shows "number_wrap k u = u"
proof (cases "nk_signed k")
  case True
  have "(2 :: int) ^ nk_bits k = 2 * 2 ^ (nk_bits k - 1)" using assms(1) by (cases "nk_bits k") simp_all
  moreover have "\<bar>u\<bar> < 2 ^ (nk_bits k - 1)" using assms(2) True by (simp add: type_max_def max_signed_def)
  ultimately have "0 \<le> u + 2 ^ (nk_bits k - 1)" "u + 2 ^ (nk_bits k - 1) < 2 ^ nk_bits k" by linarith+
  then show ?thesis using True by (simp add: number_wrap_def wrap_signed_def)
next
  case False
  then show ?thesis using assms(2,3) by (simp add: number_wrap_def type_max_def max_unsigned_def)
qed

lemma low_digit_list:
  "list_all (\<lambda>d. is_digit (word_of_int (48 + d)) \<and> uint (word_of_int (48 + d) :: u8) = 48 + d \<and> to_upper (word_of_int (48 + d)) \<noteq> 88)
    [0, 1, 2, 3, 4, 5, 6, 7, 8, 9]"
  by (simp add: is_digit_def to_upper_def)

lemma high_digit_list:
  "list_all (\<lambda>d. \<not> is_digit (word_of_int (55 + d)) \<and> is_xdigit (word_of_int (55 + d)) \<and>
      uint (to_upper (word_of_int (55 + d))) = 55 + d) [10, 11, 12, 13, 14, 15]"
  by (simp add: is_digit_def is_xdigit_def to_upper_def)

lemma json_digit_low:
  assumes "0 \<le> d" "d < 10"
  shows "is_digit (json_digit base d)" "uint (json_digit base d) = 48 + d" "to_upper (json_digit base d) \<noteq> 88"
proof -
  have "d \<in> set [0, 1, 2, 3, 4, 5, 6, 7, 8, 9]" using assms by simp presburger
  then have "is_digit (word_of_int (48 + d)) \<and> uint (word_of_int (48 + d) :: u8) = 48 + d \<and> to_upper (word_of_int (48 + d)) \<noteq> 88"
    using low_digit_list unfolding list_all_iff by blast
  moreover have "json_digit base d = word_of_int (48 + d)" using assms by (simp add: json_digit_def Let_def)
  ultimately show "is_digit (json_digit base d)" "uint (json_digit base d) = 48 + d" "to_upper (json_digit base d) \<noteq> 88" by simp_all
qed

lemma json_digit_high:
  assumes "10 \<le> d" "d < 16"
  shows "\<not> is_digit (json_digit Base_hexadecimal d)" "is_xdigit (json_digit Base_hexadecimal d)"
    "uint (to_upper (json_digit Base_hexadecimal d)) = 55 + d"
proof -
  have "d \<in> set [10, 11, 12, 13, 14, 15]" using assms by simp presburger
  then have "\<not> is_digit (word_of_int (55 + d)) \<and> is_xdigit (word_of_int (55 + d)) \<and> uint (to_upper (word_of_int (55 + d))) = 55 + d"
    using high_digit_list unfolding list_all_iff by blast
  moreover have "json_digit Base_hexadecimal d = word_of_int (55 + d)" using assms by (simp add: json_digit_def Let_def)
  ultimately show "\<not> is_digit (json_digit Base_hexadecimal d)" "is_xdigit (json_digit Base_hexadecimal d)"
    "uint (to_upper (json_digit Base_hexadecimal d)) = 55 + d" by simp_all
qed

lemma number_step_digit:
  assumes "\<not> jn_error s" "\<not> jn_undefined s" "jn_base s = radix base" "0 < nk_bits k" "0 \<le> d" "d < radix base" "0 \<le> jn_value s"
    "jn_value s * radix base + d \<le> type_max (nk_signed k) (nk_bits k)"
  shows "number_step k (json_digit base d) (s, 4) = Some (s\<lparr>jn_value := jn_value s * radix base + d\<rparr>, 4)"
proof -
  have n: "0 \<le> jn_value s * radix base" using assms(7) radix_bounds(1) [of base] by (intro mult_nonneg_nonneg) simp_all
  have v: "next_value k (radix base) d (jn_value s) = (jn_value s * radix base + d, False)"
    using number_wrap_fits [OF assms(4), of "jn_value s * radix base"] number_wrap_fits [OF assms(4), of "jn_value s * radix base + d"]
      n assms(5,8) by (simp add: next_value_def)
  show ?thesis
  proof (cases "d < 10")
    case True
    then show ?thesis using assms(1-3,5) v json_digit_low [OF assms(5) True, of base]
      by (simp add: number_step_def number_digit_def Let_def)
  next
    case False
    then have b: "base = Base_hexadecimal" "d < 16" using assms(6) by (cases base; simp add: radix_def)+
    have "radix base = 16" by (simp add: b radix_def)
    then show ?thesis using assms(1-3) v False b(2) json_digit_high [of d] unfolding b(1)
      by (simp add: number_step_def number_digit_def Let_def)
  qed
qed

lemma foldl_digits_mono:
  "\<forall>d\<in>set ds. 0 \<le> d \<Longrightarrow> 1 \<le> r \<Longrightarrow> 0 \<le> a \<Longrightarrow> a \<le> foldl (\<lambda>a d. a * r + d) a ds" for r :: int
proof (induction ds arbitrary: a)
  case (Cons d ds)
  have "a * 1 \<le> a * r" using Cons.prems by (intro mult_left_mono) simp_all
  then have "a \<le> a * r + d" using Cons.prems(1) by simp
  moreover have "a * r + d \<le> foldl (\<lambda>a d. a * r + d) (a * r + d) ds"
    using Cons.prems \<open>a \<le> a * r + d\<close> by (intro Cons.IH) auto
  ultimately show ?case by simp
qed simp

lemma number_run_digits:
  assumes "\<not> jn_error s" "\<not> jn_undefined s" "jn_base s = radix base" "0 < nk_bits k" "\<forall>d\<in>set ds. 0 \<le> d \<and> d < radix base"
    "0 \<le> jn_value s" "foldl (\<lambda>a d. a * radix base + d) (jn_value s) ds \<le> type_max (nk_signed k) (nk_bits k)"
  shows "number_run k (map (json_digit base) ds) (s, 4) =
    Some (s\<lparr>jn_value := foldl (\<lambda>a d. a * radix base + d) (jn_value s) ds\<rparr>, 4)"
  using assms
proof (induction ds arbitrary: s)
  case (Cons d ds)
  let ?v = "jn_value s * radix base + d"
  have n: "0 \<le> ?v" using Cons.prems(5,6) radix_bounds(1) [of base] by simp
  have "?v \<le> foldl (\<lambda>a d. a * radix base + d) ?v ds"
    using Cons.prems(5) radix_bounds(1) [of base] n by (intro foldl_digits_mono) auto
  then have le: "?v \<le> type_max (nk_signed k) (nk_bits k)" using Cons.prems(7) by simp
  have d: "0 \<le> d" "d < radix base" using Cons.prems(5) by simp_all
  have "number_run k (map (json_digit base) ds) (s\<lparr>jn_value := ?v\<rparr>, 4) =
    Some (s\<lparr>jn_value := ?v\<rparr>\<lparr>jn_value := foldl (\<lambda>a d. a * radix base + d) (jn_value (s\<lparr>jn_value := ?v\<rparr>)) ds\<rparr>, 4)"
    using Cons.prems n by (intro Cons.IH) simp_all
  then show ?case using number_step_digit [OF Cons.prems(1-4) d Cons.prems(6) le] by simp
qed simp

subsection \<open>The text\<close>

definition number_final :: "number_kind \<Rightarrow> int option \<Rightarrow> u8 list" where
  "number_final k v = (if v = None then [108] else number_ending k)"

text \<open>The state in front of the last character, or behind the digits of a decimal number.\<close>

definition number_closes :: "number_kind \<Rightarrow> int option \<Rightarrow> json_number \<Rightarrow> nat \<Rightarrow> bool" where
  "number_closes k v s pos \<longleftrightarrow> \<not> jn_error s \<and>
     (case v of
        None \<Rightarrow> jn_undefined s \<and> \<not> jn_quoted s \<and> \<not> jn_negative s \<and> pos = 3
      | Some v \<Rightarrow> \<not> jn_undefined s \<and> jn_quoted s = (nk_base k \<noteq> Base_decimal) \<and>
          (pos = 4 \<or> pos = 3 \<and> nk_base k \<noteq> Base_decimal) \<and>
          (if jn_negative s then number_wrap k (- jn_value s) else jn_value s) = v)"

lemma first_digit_step:
  assumes "pos < 4" "0 < d \<or> pos = 0" "0 \<le> d" "d < 10" "\<not> jn_error s \<or> pos = 0" "\<not> jn_undefined s \<or> pos = 0"
    "pos = 0 \<or> pos = 2 \<and> \<not> jn_negative s \<or> pos = 3"
  shows "number_step k (json_digit base d) (s, pos) =
    Some ((if pos = 0 then no_flags s else s)\<lparr>jn_value := d, jn_base := (if pos = 0 then 10 else 8)\<rparr>, 4)"
proof -
  note f = json_digit_low [OF assms(3,4), of base]
  have n: "json_digit base d \<noteq> 34" "json_digit base d \<noteq> 45" using f(1) by (auto simp: is_digit_def)
  have z: "json_digit base d \<noteq> 48" if "0 < d"
  proof
    assume "json_digit base d = 48"
    then have "uint (48 :: u8) = 48 + d" using f(2) by simp
    then show False using that by simp
  qed
  show ?thesis using assms f n z by (auto simp: number_step_def number_start_def first_digit_def no_flags_def Let_def)
qed

lemma number_run_decimal:
  assumes "number_ready k (Some v)" "nk_base k = Base_decimal"
  shows "\<exists>s'. number_run k (number_sign v @ kind_digits k \<bar>v\<bar>) (s, 0) = Some (s', 4) \<and> number_closes k (Some v) s' 4"
proof -
  have w: "0 < nk_bits k" "\<bar>v\<bar> \<le> type_max (nk_signed k) (nk_bits k)" "v < 0 \<Longrightarrow> nk_signed k"
    using assms(1) number_ready_abs(2) [OF assms(1)] by (auto simp: number_ready_def split: if_splits)
  have ten: "radix Base_decimal = 10" by (simp add: radix_def)
  have ds: "\<forall>d\<in>set (digits_of 10 \<bar>v\<bar>). 0 \<le> d \<and> d < 10" using digits_of_range [of 10 "\<bar>v\<bar>"] by auto
  have fold: "foldl (\<lambda>a d. a * 10 + d) 0 (digits_of 10 \<bar>v\<bar>) = \<bar>v\<bar>" by (rule digits_of_value)
  show ?thesis
  proof (cases "v < 0")
    case True
    obtain s1 where s1: "s1 = (no_flags s)\<lparr>jn_value := 0, jn_negative := True, jn_base := 10\<rparr>" by blast
    have "number_step k 45 (s, 0) = Some (s1, 4)" by (simp add: number_step_def number_start_def no_flags_def s1)
    moreover have "number_run k (map (json_digit Base_decimal) (digits_of 10 \<bar>v\<bar>)) (s1, 4) = Some (s1\<lparr>jn_value := \<bar>v\<bar>\<rparr>, 4)"
      using number_run_digits [of s1 Base_decimal k "digits_of 10 \<bar>v\<bar>"] w ds fold by (simp add: s1 ten no_flags_def)
    moreover have "number_wrap k v = v" using w True by (intro number_wrap_fits) simp_all
    ultimately show ?thesis
      using True by (intro exI [of _ "s1\<lparr>jn_value := \<bar>v\<bar>\<rparr>"])
        (simp add: number_sign_def kind_digits_def assms(2) ten number_closes_def s1 no_flags_def)
  next
    case False
    obtain d es where d: "digits_of 10 \<bar>v\<bar> = d # es" by (cases "digits_of 10 \<bar>v\<bar>") auto
    have r: "0 \<le> d" "d < 10" using ds d by simp_all
    obtain s1 where s1: "s1 = (no_flags s)\<lparr>jn_value := d, jn_base := 10\<rparr>" by blast
    have "number_step k (json_digit Base_decimal d) (s, 0) = Some (s1, 4)"
      using first_digit_step [of 0 d s k Base_decimal] r by (simp add: s1)
    moreover have "number_run k (map (json_digit Base_decimal) es) (s1, 4) = Some (s1\<lparr>jn_value := \<bar>v\<bar>\<rparr>, 4)"
      using number_run_digits [of s1 Base_decimal k es] w ds fold r by (simp add: s1 ten no_flags_def d)
    ultimately have "number_run k (kind_digits k \<bar>v\<bar>) (s, 0) = Some (s1\<lparr>jn_value := \<bar>v\<bar>\<rparr>, 4)"
      by (simp add: kind_digits_def assms(2) ten d)
    moreover have "number_closes k (Some v) (s1\<lparr>jn_value := \<bar>v\<bar>\<rparr>) 4"
      using False by (simp add: number_closes_def s1 no_flags_def assms(2))
    ultimately show ?thesis using False by (simp add: number_sign_def)
  qed
qed

text \<open>A number in quotes, after the quote, the sign and, when it is there, the first zero.\<close>

lemma number_run_octal:
  assumes "number_ready k (Some v)" "nk_base k = Base_octal"
  shows "\<exists>s' pos'. number_run k (prefix_from k v 0 @ kind_digits k \<bar>v\<bar>) (s, 0) = Some (s', pos') \<and> number_closes k (Some v) s' pos'"
proof -
  have w: "0 < nk_bits k" "\<bar>v\<bar> \<le> type_max (nk_signed k) (nk_bits k)" "v < 0 \<Longrightarrow> nk_signed k"
    using assms(1) number_ready_abs(2) [OF assms(1)] by (auto simp: number_ready_def split: if_splits)
  have eight: "radix Base_octal = 8" by (simp add: radix_def)
  have ds: "\<forall>d\<in>set (digits_of 8 \<bar>v\<bar>). 0 \<le> d \<and> d < 8" using digits_of_range [of 8 "\<bar>v\<bar>"] by auto
  have fold: "foldl (\<lambda>a d. a * 8 + d) 0 (digits_of 8 \<bar>v\<bar>) = \<bar>v\<bar>" by (rule digits_of_value)
  obtain d es where d: "digits_of 8 \<bar>v\<bar> = d # es" by (cases "digits_of 8 \<bar>v\<bar>") auto
  have r: "0 \<le> d" "d < 8" using ds d by simp_all
  obtain s0 where s0: "s0 = (no_flags s)\<lparr>jn_value := 0, jn_quoted := True, jn_negative := (v < 0)\<rparr>" by blast
  obtain p where p: "p = (if v < 0 then 3 else 2 :: nat)" by blast
  have pre: "number_run k (prefix_from k v 0) (s, 0) = Some (s0, p)"
    by (simp add: prefix_from_def assms(2) number_sign_def number_step_def number_start_def no_flags_def s0 p)
  have q: "\<not> jn_error s0" "\<not> jn_undefined s0" "jn_quoted s0" "jn_negative s0 = (v < 0)" "jn_value s0 = 0" by (simp_all add: s0 no_flags_def)
  show ?thesis
  proof (cases "v = 0")
    case True
    then have "kind_digits k \<bar>v\<bar> = [48]" by (simp add: kind_digits_def assms(2) eight digits_of.simps json_digit_def)
    moreover have "number_step k 48 (s0, 2) = Some (s0, 3)" using q by (simp add: number_step_def number_start_def)
    ultimately have "number_run k (prefix_from k v 0 @ kind_digits k \<bar>v\<bar>) (s, 0) = Some (s0, 3)"
      using pre p True by (simp add: number_run_append)
    moreover have "number_closes k (Some v) s0 3" using q True assms(2) by (simp add: number_closes_def)
    ultimately show ?thesis by blast
  next
    case False
    then have "d \<noteq> 0" using digits_of_head [of 8 "\<bar>v\<bar>"] d by simp
    then have d0: "0 < d" using r by simp
    obtain s1 where s1: "s1 = s0\<lparr>jn_value := d, jn_base := 8\<rparr>" by blast
    have "number_step k (json_digit Base_octal d) (s0, p) = Some (s1, 4)"
      using first_digit_step [of p d s0 k Base_octal] r d0 q by (simp add: s1 p)
    moreover have "number_run k (map (json_digit Base_octal) es) (s1, 4) = Some (s1\<lparr>jn_value := \<bar>v\<bar>\<rparr>, 4)"
      using number_run_digits [of s1 Base_octal k es] w ds fold r q by (simp add: s1 eight d)
    ultimately have "number_run k (prefix_from k v 0 @ kind_digits k \<bar>v\<bar>) (s, 0) = Some (s1\<lparr>jn_value := \<bar>v\<bar>\<rparr>, 4)"
      using pre by (simp add: number_run_append kind_digits_def assms(2) eight d)
    moreover have "number_closes k (Some v) (s1\<lparr>jn_value := \<bar>v\<bar>\<rparr>) 4"
      using q w number_wrap_fits [of k v] assms(2) by (simp add: number_closes_def s1)
    ultimately show ?thesis by blast
  qed
qed

lemma number_run_hexadecimal:
  assumes "number_ready k (Some v)" "nk_base k = Base_hexadecimal"
  shows "\<exists>s' pos'. number_run k (prefix_from k v 0 @ kind_digits k \<bar>v\<bar>) (s, 0) = Some (s', pos') \<and> number_closes k (Some v) s' pos'"
proof -
  have w: "0 < nk_bits k" "\<bar>v\<bar> \<le> type_max (nk_signed k) (nk_bits k)" "v < 0 \<Longrightarrow> nk_signed k"
    using assms(1) number_ready_abs(2) [OF assms(1)] by (auto simp: number_ready_def split: if_splits)
  have r: "radix Base_hexadecimal = 16" by (simp add: radix_def)
  have ds: "\<forall>d\<in>set (digits_of 16 \<bar>v\<bar>). 0 \<le> d \<and> d < 16" using digits_of_range [of 16 "\<bar>v\<bar>"] by auto
  have fold: "foldl (\<lambda>a d. a * 16 + d) 0 (digits_of 16 \<bar>v\<bar>) = \<bar>v\<bar>" by (rule digits_of_value)
  obtain s0 where s0: "s0 = (no_flags s)\<lparr>jn_value := 0, jn_quoted := True, jn_negative := (v < 0), jn_base := 16\<rparr>" by blast
  have "number_run k (prefix_from k v 0) (s, 0) = Some (s0, 4)"
    by (simp add: prefix_from_def assms(2) number_sign_def number_step_def number_start_def no_flags_def s0 to_upper_def)
  moreover have "number_run k (map (json_digit Base_hexadecimal) (digits_of 16 \<bar>v\<bar>)) (s0, 4) = Some (s0\<lparr>jn_value := \<bar>v\<bar>\<rparr>, 4)"
    using number_run_digits [of s0 Base_hexadecimal k "digits_of 16 \<bar>v\<bar>"] w ds fold by (simp add: s0 r no_flags_def)
  ultimately have "number_run k (prefix_from k v 0 @ kind_digits k \<bar>v\<bar>) (s, 0) = Some (s0\<lparr>jn_value := \<bar>v\<bar>\<rparr>, 4)"
    by (simp add: number_run_append kind_digits_def assms(2) r)
  moreover have "number_closes k (Some v) (s0\<lparr>jn_value := \<bar>v\<bar>\<rparr>) 4"
    using w number_wrap_fits [of k v] assms(2) by (simp add: number_closes_def s0 no_flags_def)
  ultimately show ?thesis by blast
qed

lemma number_run_json:
  assumes "number_ready k v"
  shows "\<exists>cs s' pos'. number_json k v = cs @ number_final k v \<and> number_run k cs (s, 0) = Some (s', pos') \<and> number_closes k v s' pos'"
proof (cases v)
  case None
  have "number_run k [110, 117, 108] (s, 0) = Some ((no_flags s)\<lparr>jn_value := 0, jn_undefined := True\<rparr>, 3)"
    by (simp add: number_step_def number_start_def no_flags_def is_digit_def to_upper_def)
  then show ?thesis unfolding None
    by (intro exI [of _ "[110, 117, 108]"] exI [of _ "(no_flags s)\<lparr>jn_value := 0, jn_undefined := True\<rparr>"] exI [of _ 3])
      (simp add: null_tag_def number_final_def number_closes_def no_flags_def)
next
  case (Some x)
  have ready: "number_ready k (Some x)" using assms by (simp add: Some)
  then have "nk_base k \<noteq> Base_unknown" by (simp add: number_ready_def)
  then have "\<exists>s' pos'. number_run k (prefix_from k x 0 @ kind_digits k \<bar>x\<bar>) (s, 0) = Some (s', pos') \<and> number_closes k (Some x) s' pos'"
  proof (cases "nk_base k")
    case Base_decimal
    then show ?thesis using number_run_decimal [OF ready, of s] by (simp add: prefix_from_def) blast
  qed (use number_run_octal [OF ready] number_run_hexadecimal [OF ready] in blast)+
  then show ?thesis unfolding Some by (auto simp: number_final_def)
qed

subsection \<open>The end of a number\<close>

lemma number_closes_last:
  assumes "number_closes k (Some v) s pos" "nk_base k \<noteq> Base_decimal"
  shows "\<exists>s'. number_deserialize k s (34 # tail) pos = (1, s', 0, None) \<and> number_holds s' (Some v)"
proof -
  have c: "\<not> jn_error s" "\<not> jn_undefined s" "jn_quoted s" "pos = 4 \<or> pos = 3"
    "(if jn_negative s then number_wrap k (- jn_value s) else jn_value s) = v"
    using assms by (auto simp: number_closes_def)
  have p4: "number_preamble (34 # tail) s 4 = (0, 34 # tail, s, 4, None)" by (simp add: number_preamble.simps)
  have "number_start 34 s 3 = (0, s, 4, None)" using c by (simp add: number_start_def to_upper_def is_digit_def)
  then have "number_preamble (34 # tail) s 3 = (0, 34 # tail, s, 4, None)" by (simp add: number_preamble.simps [of _ _ 3] p4)
  then have p: "number_preamble (34 # tail) s pos = (0, 34 # tail, s, 4, None)" using c(4) p4 by auto
  have "number_digit k 34 s = (True, True, s, None)"
    using c by (simp add: number_digit_def is_digit_def is_xdigit_def to_upper_def Let_def)
  then show ?thesis using c(1,2,5) by (simp add: number_deserialize_def p number_finish_def number_holds_def)
qed

lemma number_closes_null:
  assumes "number_closes k None s pos"
  shows "\<exists>s'. number_deserialize k s (108 # tail) pos = (1, s', 0, None) \<and> number_holds s' None"
proof -
  have c: "\<not> jn_error s" "jn_undefined s" "\<not> jn_quoted s" "pos = 3" "\<not> jn_negative s" using assms by (simp_all add: number_closes_def)
  have "number_start 108 s 3 = (1, s, 4, None)" using c by (simp add: number_start_def to_upper_def is_digit_def)
  then have "number_preamble (108 # tail) s 3 = (1, tail, s, 4, None)" by (simp add: number_preamble.simps)
  then show ?thesis using c by (simp add: number_deserialize_def number_finish_def number_holds_def)
qed

lemma number_closes_behind:
  assumes "number_closes k (Some v) s pos" "nk_base k = Base_decimal" "ends_value t"
  shows "\<exists>s'. number_deserialize k s (t # tail) pos = (0, s', 0, None) \<and> number_holds s' (Some v)"
proof -
  have c: "\<not> jn_error s" "\<not> jn_undefined s" "\<not> jn_quoted s" "pos = 4"
    "(if jn_negative s then number_wrap k (- jn_value s) else jn_value s) = v"
    using assms by (auto simp: number_closes_def)
  have "t = 0 \<or> t = 44 \<or> t = 93 \<or> t = 125 \<or> unat t \<le> 13 \<or> t = 32"
    using assms(3) by (auto simp: ends_value_def is_space_def word_le_nat_alt)
  then have "\<not> is_digit t \<and> \<not> is_xdigit t"
    by (auto simp: is_digit_def is_xdigit_def to_upper_def word_le_nat_alt)
  then have "number_digit k t s = (False, True, s, None)" using c assms(3) by (simp add: number_digit_def Let_def)
  then show ?thesis using c by (simp add: number_deserialize_def number_preamble.simps number_finish_def number_holds_def)
qed

definition number_reads :: "number_kind \<Rightarrow> int option \<Rightarrow> json_number \<Rightarrow> nat \<Rightarrow> u8 list \<Rightarrow> bool" where
  "number_reads k v s pos rest \<longleftrightarrow> pos \<le> 4 \<and>
     (\<exists>cs s' pos'. rest = cs @ number_final k v \<and> number_run k cs (s, pos) = Some (s', pos') \<and> number_closes k v s' pos')"

lemma number_final_single: "number_final k v = [] \<and> v \<noteq> None \<and> nk_base k = Base_decimal \<or> (\<exists>c. number_final k v = [c])"
  by (cases v) (auto simp: number_final_def number_ending_def)

lemma number_closes_final:
  assumes "number_closes k v s pos" "number_final k v \<noteq> []"
  shows "\<exists>s'. number_deserialize k s (number_final k v @ tail) pos = (1, s', 0, None) \<and> number_holds s' v"
  using assms number_closes_last number_closes_null
  by (cases v) (auto simp: number_final_def number_ending_def split: if_splits)

lemma number_reads_part:
  assumes "number_reads k v s pos (cs @ rest)" "cs \<noteq> []"
  shows "\<exists>s' pos'. number_deserialize k s cs pos = (length cs, s', pos', None) \<and>
    (pos' = 0 \<and> rest = [] \<and> number_holds s' v \<or> pos' \<noteq> 0 \<and> number_reads k v s' pos' rest)"
proof -
  obtain ds t p where r: "cs @ rest = ds @ number_final k v" "number_run k ds (s, pos) = Some (t, p)" "number_closes k v t p"
    using assms(1) by (auto simp: number_reads_def)
  consider (inside) es where "ds = cs @ es" "rest = es @ number_final k v"
    | (whole) c where "cs = ds @ [c]" "number_final k v = [c]" "rest = []"
  proof -
    obtain us where "cs @ us = ds \<and> rest = us @ number_final k v \<or> cs = ds @ us \<and> us @ rest = number_final k v"
      using r(1) by (auto simp: append_eq_append_conv2)
    moreover have "\<exists>c. cs = ds @ [c] \<and> number_final k v = [c] \<and> rest = []"
      if "cs = ds @ us" "us @ rest = number_final k v" "us \<noteq> []"
      using that number_final_single [of k v] by (auto simp: append_eq_Cons_conv)
    ultimately show ?thesis using that by (cases "us = []") auto
  qed
  then show ?thesis
  proof cases
    case inside
    obtain s1 pos1 where 1: "number_run k cs (s, pos) = Some (s1, pos1)" "number_run k es (s1, pos1) = Some (t, p)"
      using r(2) unfolding inside(1) by (auto simp: number_run_append split: bind_splits)
    note st = number_run_steady [OF 1(1) assms(2)]
    have "number_deserialize k s cs pos = (length cs, s1, pos1, None)"
      using number_run_ahead [OF 1(1), of "[]"] number_deserialize_Nil [of s1 pos1 k] st by simp
    moreover have "number_reads k v s1 pos1 rest" using st 1(2) inside(2) r(3) by (auto simp: number_reads_def)
    ultimately show ?thesis using st by blast
  next
    case whole
    obtain s' where "number_deserialize k t (number_final k v @ []) p = (1, s', 0, None)" "number_holds s' v"
      using number_closes_final [OF r(3), of "[]"] whole(2) by auto
    then have "number_deserialize k s cs pos = (length cs, s', 0, None)"
      using number_run_ahead [OF r(2), of "[c]"] whole by simp
    then show ?thesis using whole(3) \<open>number_holds s' v\<close> by blast
  qed
qed

lemma number_reads_end:
  assumes "number_reads k v s pos rest" "ends_value t"
  shows "\<exists>s'. number_deserialize k s (rest @ t # tail) pos = (length rest, s', 0, None) \<and> number_holds s' v"
proof -
  obtain ds u p where r: "rest = ds @ number_final k v" "number_run k ds (s, pos) = Some (u, p)" "number_closes k v u p"
    using assms(1) by (auto simp: number_reads_def)
  have a: "number_deserialize k s (rest @ t # tail) pos = ahead (length ds) (number_deserialize k u (number_final k v @ t # tail) p)"
    using number_run_ahead [OF r(2), of "number_final k v @ t # tail"] by (simp add: r(1))
  show ?thesis
  proof (cases "number_final k v = []")
    case True
    then obtain x where x: "v = Some x" "nk_base k = Base_decimal" using number_final_single [of k v] by auto
    obtain s' where "number_deserialize k u (t # tail) p = (0, s', 0, None)" "number_holds s' v"
      using number_closes_behind [of k x u p t tail] r(3) x assms(2) by auto
    then show ?thesis unfolding a using True r(1) by simp
  next
    case False
    then obtain c where c: "number_final k v = [c]" using number_final_single [of k v] by auto
    obtain s' where "number_deserialize k u (number_final k v @ t # tail) p = (1, s', 0, None)" "number_holds s' v"
      using number_closes_final [OF r(3) False, of "t # tail"] by blast
    then show ?thesis unfolding a using r(1) c by simp
  qed
qed

subsection \<open>The contract\<close>

lemma number_json_first:
  "\<exists>c cs. number_json k v = c # cs \<and> \<not> ends_value c \<and> c \<noteq> 58"
proof (cases v)
  case None
  then show ?thesis by (simp add: null_tag_def ends_value_def is_space_def)
next
  case (Some x)
  obtain d es where d: "digits_of 10 \<bar>x\<bar> = d # es" by (cases "digits_of 10 \<bar>x\<bar>") auto
  then have "0 \<le> d \<and> d < 10" using digits_of_range [of 10 "\<bar>x\<bar>" d] by simp
  then have digit: "is_digit (json_digit Base_decimal d)" using json_digit_low(1) by blast
  have "\<not> ends_value c \<and> c \<noteq> 58" if "is_digit c" for c
  proof -
    have "48 \<le> unat c" "unat c \<le> 57" using that by (simp_all add: is_digit_def word_le_nat_alt)
    then show ?thesis by (auto simp: ends_value_def is_space_def word_le_nat_alt)
  qed
  then have digit_begins: "\<not> ends_value (json_digit Base_decimal d)" "json_digit Base_decimal d \<noteq> 58" using digit by blast+
  show ?thesis
  proof (cases "nk_base k = Base_decimal")
    case True
    then have "kind_digits k \<bar>x\<bar> = json_digit Base_decimal d # map (json_digit Base_decimal) es"
      by (simp add: kind_digits_def radix_def d)
    then show ?thesis using True digit_begins
      by (simp add: Some prefix_from_def number_sign_def ends_value_def [of 45] is_space_def)
  next
    case False
    then show ?thesis by (simp add: Some prefix_from_def ends_value_def is_space_def)
  qed
qed

lemma number_json_begins: "number_ready k v \<Longrightarrow> \<exists>c cs. number_json k v = c # cs \<and> \<not> ends_value c"
  using number_json_first by blast

interpretation numbers: json_member "number_json k" number_holds "number_serialize k" "number_writes k"
  number_clear "number_deserialize k" "number_ready k" "number_reads k" "new_number 0 False" jn_set "4 + nk_bits k" for k
proof unfold_locales
  show "\<exists>c cs. number_json k v = c # cs \<and> \<not> ends_value c" if "number_ready k v" for v
    using that by (rule number_json_begins)
  show "number_writes k e 0 (number_json k v)" if "number_ready k v" "number_holds e v" for v e
    using that by (rule number_writes_start)
  show "\<exists>e' pos'. number_serialize k e n pos = (take n rest, e', pos') \<and>
      (pos' = 0 \<and> length rest \<le> n \<or> pos' \<noteq> 0 \<and> n \<le> length rest \<and> number_writes k e' pos' (drop n rest))"
    if "number_writes k e pos rest" "0 < n" for e pos rest n using that by (rule number_writes_part)
  show "number_reads k v (number_clear e) 0 (number_json k v)" if "number_ready k v" for v e
    using number_run_json [OF that] by (simp add: number_reads_def)
  show "number_reads k v (new_number 0 False) 0 (number_json k v)" if "number_ready k v" for v
    using number_run_json [OF that] by (simp add: number_reads_def)
  show "\<exists>e' pos'. number_deserialize k e cs pos = (length cs, e', pos', None) \<and>
      (pos' = 0 \<and> rest = [] \<and> number_holds e' v \<or> pos' \<noteq> 0 \<and> number_reads k v e' pos' rest)"
    if "number_reads k v e pos (cs @ rest)" "cs \<noteq> []" for v e pos cs rest using that by (rule number_reads_part)
  show "\<exists>e'. number_deserialize k e (rest @ t # tail) pos = (length rest, e', 0, None) \<and> number_holds e' v"
    if "number_reads k v e pos rest" "ends_value t" for v e pos rest t tail using that by (rule number_reads_end)
  show "jn_set e" if "number_holds e v" for e v using that by (simp add: number_holds_def)
  show "pos \<le> 4 + nk_bits k" if "number_writes k e pos rest" for e pos rest using that by (rule number_writes_top)
  show "pos \<le> 4 + nk_bits k" if "number_reads k v e pos rest" for v e pos rest using that by (simp add: number_reads_def)
qed

end
