(* ===== verification/Json_Properties.thy ===== *)
theory Json_Properties
  imports Json_Reading Json_Boolean Json_Number_Reading
begin

text \<open>The properties of JSON strings, numbers and arrays. Arrays of any of the elements keep the contract of an element.\<close>

interpretation strings: json_member "array_json (json_text slash)" "array_holds string_holds js_set"
  "array_serialize (string_serialize slash) js_set"
  "array_writes (json_text slash) string_holds (string_writes slash) (string_ready slash) js_set" array_clear
  "array_deserialize string_deserialize (new_string [] True)" "list_all (string_ready slash)"
  "array_reads (json_text slash) string_holds (string_ready slash) (string_reads slash)" new_array array_is_set "2 ^ 31 + 5" for slash
  by (rule quoted.array_member) simp

interpretation booleans: json_member "array_json boolean_json" "array_holds boolean_holds jb_set"
  "array_serialize boolean_serialize jb_set" "array_writes boolean_json boolean_holds boolean_writes (\<lambda>v. True) jb_set" array_clear
  "array_deserialize boolean_deserialize (new_boolean False)" "list_all (\<lambda>v. True)"
  "array_reads boolean_json boolean_holds (\<lambda>v. True) boolean_reads" new_array array_is_set "5 + 5"
  by (rule boolean.array_member) simp

interpretation tables: json_member "array_json (array_json (json_text slash))" "array_holds (array_holds string_holds js_set) array_is_set"
  "array_serialize (array_serialize (string_serialize slash) js_set) array_is_set"
  "array_writes (array_json (json_text slash)) (array_holds string_holds js_set)
     (array_writes (json_text slash) string_holds (string_writes slash) (string_ready slash) js_set) (list_all (string_ready slash)) array_is_set"
  array_clear "array_deserialize (array_deserialize string_deserialize (new_string [] True)) new_array" "list_all (list_all (string_ready slash))"
  "array_reads (array_json (json_text slash)) (array_holds string_holds js_set) (list_all (string_ready slash))
     (array_reads (json_text slash) string_holds (string_ready slash) (string_reads slash))" new_array array_is_set "2 ^ 31 + 5 + 5" for slash
  by (rule strings.array_member) simp


subsection \<open>What is written\<close>

lemma nibble_print: "is_print (nibble i v)"
proof -
  have "is_xdigit (nibble i v)" by (rule nibble_read)
  then show ?thesis
    by (auto simp: is_xdigit_def is_digit_def is_print_def to_upper_def word_le_nat_alt unat_sub split: if_splits)
qed

lemma letters_print: "is_print 92" "is_print 117" "is_print 34"
  by (simp_all add: is_print_def)

lemma short_escape_print: "short_escape slash c = Some b \<Longrightarrow> is_print b"
  by (auto simp: short_escape_def is_print_def split: if_splits)

lemma write_char_print:
  assumes "is_quoted s" "write_char slash s pos = (c, s', pos')"
  shows "is_print c"
proof -
  have "is_print (fst (unicode_char pos s))" by (simp add: unicode_char_def Let_def nibble_print letters_print)
  then show ?thesis using assms
    by (auto simp: write_char_def Let_def plain_char_def letters_print dest: short_escape_print split: if_splits option.splits)
qed

lemma write_chars_print:
  "is_quoted s \<Longrightarrow> list_all is_print (fst (write_chars slash n s pos))"
proof (induction slash n s pos rule: write_chars.induct)
  case (2 slash room s pos)
  obtain c s1 pos1 where 1: "write_char slash s pos = (c, s1, pos1)" by (cases "write_char slash s pos") auto
  have "is_quoted s1" using write_char_same [OF 1] "2.prems" by (simp add: same_string_def)
  then show ?case using "2.IH" [OF _ 1 [symmetric] refl] write_char_print [OF "2.prems" 1] by (auto simp: 1 split: prod.splits)
qed simp

text \<open>Whatever bytes a quoted string has, and wherever a part begins and ends, every byte that the serializer
  writes is a printable character of ASCII.\<close>

theorem json_string_printable:
  assumes "is_quoted s"
  shows "list_all is_print (fst (string_serialize slash s n pos))"
proof -
  have w: "list_all is_print cs" if "write_chars slash m t p = (cs, u, q)" "is_quoted t" for m t p cs u q
    using write_chars_print [OF that(2), of slash m p] that(1) by simp
  show ?thesis
    using assms by (auto simp: string_serialize_def letters_print dest: w split: prod.splits)
qed

lemma json_string_printable_witness:
  "list_all is_print (fst (string_serialize True (string_assign [104, 255, 10] (new_string [] True)) 100 0))"
  by (rule json_string_printable) (simp add: is_quoted_def string_assign_def new_string_def)

subsection \<open>Round trips\<close>

definition assigned :: "u32 list \<Rightarrow> json_string" where
  "assigned cps = string_assign (json_content cps) (new_string [] True)"

lemma assigned_holds: "0 \<notin> set (json_content cps) \<Longrightarrow> string_holds (assigned cps) cps"
  by (simp add: string_holds_def assigned_def string_assign_def new_string_def is_quoted_def c_str_def takeWhile_eq_all_conv)
    blast

text \<open>C13: A string of Unicode scalar values without a zero and other than \<open>null\<close>, whose characters fit the length
  that is passed on to \<open>ToCodePoint\<close>, as they do in up to 255 bytes, and whose text has a length that is not a multiple of 65535
  and below \<open>2 ^ 31\<close> when multiplied with that of the string: \<open>ToString\<close> succeeds with the text of the string, quoted and escaped, and \<open>FromString\<close> reads that
  text without an error, whatever the element had before, and gives the same bytes, as a quoted string that is set.\<close>

theorem json_string_roundtrip:
  assumes "string_ready slash cps" "0 \<notin> set (json_content cps)" "length (json_text slash cps) mod 65535 \<noteq> 0"
  shows "\<exists>s' e'. to_string (string_serialize slash) (string_assign (json_content cps) (new_string initial True)) =
      Some (True, json_text slash cps, s') \<and>
    from_string string_deserialize string_clear (json_text slash cps) e = (None, e') \<and>
    js_value e' = json_content cps \<and> js_set e' \<and> is_quoted e'"
proof -
  have "string_holds (string_assign (json_content cps) (new_string initial True)) cps"
    using assigned_holds [OF assms(2)] by (simp add: string_holds_def assigned_def string_assign_def new_string_def is_quoted_def)
  from quoted.to_string_writes [OF assms(1) this] quoted.from_string_reads [OF assms(1,3), of e]
  show ?thesis unfolding string_holds_def by blast
qed

definition sample :: "u32 list" where "sample = [0x61, 0x22, 0x0A, 0xE9, 0x1F600]"

lemma sample_content: "json_content sample = [0x61, 0x22, 0x0A, 0xC3, 0xA9, 0xF0, 0x9F, 0x98, 0x80]"
  by code_simp

lemma sample_text: "json_text True sample = [34, 97, 92, 34, 92, 110, 92, 117, 48, 48, 69, 57, 92, 117, 68, 56, 51, 68, 92, 117, 68, 69, 48, 48, 34]"
  by code_simp

lemma sample_ready:
  "string_ready True sample" "0 \<notin> set (json_content sample)" "length (json_text True sample) mod 65535 \<noteq> 0"
proof -
  have "list_all scalar sample" "lengths_fit sample" by code_simp+
  then show "string_ready True sample" by (simp add: string_ready_def sample_content sample_text null_tag_def)
qed (simp_all add: sample_content sample_text)

lemma json_string_roundtrip_witness:
  "\<exists>s' e'. to_string (string_serialize True) (string_assign (json_content sample) (new_string [] True)) =
      Some (True, json_text True sample, s') \<and>
    from_string string_deserialize string_clear (json_text True sample) (new_string [1] True) = (None, e') \<and>
    js_value e' = json_content sample \<and> js_set e' \<and> is_quoted e'"
  using json_string_roundtrip [OF sample_ready] .

text \<open>The same in parts. The serializer is asked for the text in buffers of any sizes, which together are longer than the text,
  and the text arrives in parts of any sizes, with any further bytes behind it: the parts written are the text of the string, and the
  reader takes every part as a whole, stops at the closing quote and has the same bytes.\<close>

theorem json_string_parts:
  assumes "string_ready slash cps" "string_holds s cps"
    and "\<forall>n\<in>set ns. 0 < n" "length (json_text slash cps) < sum_list ns"
    and "concat css @ final = json_text slash cps" "[] \<notin> set css" "final \<noteq> []"
  shows "\<exists>bss e1 e2 pos e3. write_parts (string_serialize slash) ns s 0 = (bss, e1, 0) \<and> concat bss = json_text slash cps \<and>
    read_parts string_deserialize css (string_clear d) 0 = Some (e2, pos) \<and>
    string_deserialize e2 (final @ beyond) pos = (length final, e3, 0, None) \<and> js_value e3 = json_content cps"
proof -
  obtain bss e1 where w: "write_parts (string_serialize slash) ns s 0 = (bss, e1, 0)" "concat bss = json_text slash cps"
    using quoted.write_parts_writes [OF quoted.writes_start [OF assms(1,2)] assms(3,4)] by blast
  have "string_reads slash cps (string_clear d) 0 (concat css @ final)" using quoted.reads_start [OF assms(1)] assms(5) by simp
  from quoted.read_parts_reads [OF this assms(6,7)] obtain e2 pos where
    r: "read_parts string_deserialize css (string_clear d) 0 = Some (e2, pos)" "string_reads slash cps e2 pos final" by blast
  from string_reads_whole [OF r(2), of beyond] w r(1) show ?thesis unfolding string_holds_def by blast
qed

lemma json_string_parts_witness:
  "\<exists>bss e1 e2 pos e3. write_parts (string_serialize True) [1, 3, 50] (assigned sample) 0 = (bss, e1, 0) \<and>
    concat bss = json_text True sample \<and>
    read_parts string_deserialize [[34], [97, 92]] (string_clear (assigned [])) 0 = Some (e2, pos) \<and>
    string_deserialize e2 (drop 3 (json_text True sample) @ [44]) pos = (length (drop 3 (json_text True sample)), e3, 0, None) \<and>
    js_value e3 = json_content sample"
proof (rule json_string_parts [OF sample_ready(1) assigned_holds [OF sample_ready(2)]])
  show "\<forall>n\<in>set [1, 3, 50]. 0 < (n :: nat)" by simp
  show "length (json_text True sample) < sum_list [1, 3, 50]" by (simp add: sample_text)
  show "concat [[34], [97, 92]] @ drop 3 (json_text True sample) = json_text True sample" by (simp add: sample_text)
  show "[] \<notin> set [[34 :: u8], [97, 92]]" by simp
  show "drop 3 (json_text True sample) \<noteq> []" by (simp add: sample_text)
qed

text \<open>What the conditions leave out. The text of the string \<open>null\<close>, quotes and all, is read as null, so that the value is the
  default. A character of two bytes with 256 bytes left is written as another code point, since \<open>ToCodePoint\<close> gets the length 0.\<close>

lemma null_text_lost:
  "case string_deserialize (new_string [] True) (json_text True (map of_char ''null'') @ [0]) 0 of
     (handled, e, pos, error) \<Rightarrow> handled = 6 \<and> pos = 0 \<and> error = None \<and> js_null e \<and> string_value e = []"
  by code_simp

lemma long_text_cut:
  "json_text False [0xE9] = [34] @ 92 # map of_char ''u00E9'' @ [34]"
  "fst (string_serialize False (string_assign (json_content [0xE9] @ replicate 254 0x61) (new_string [] True)) 7 0) = [34] @ 92 # map of_char ''u0003''"
  by code_simp+

subsection \<open>Arrays\<close>

text \<open>C12: Arrays in arrays of strings, in parts, where each string has Unicode scalar values, is not \<open>null\<close>, its characters
  fit the length that is passed on to \<open>ToCodePoint\<close>, and its length times that of its text is below \<open>2 ^ 31\<close>. Elements that are
  not set are skipped. The serializer is asked for the text in buffers of any sizes, and the text arrives in parts of any
  sizes, cut inside of characters, elements and brackets: the parts written are the array of the values, and the reader takes every
  part as a whole, stops at the closing bracket and has the same values, if a character that ends a value is behind the text, as a
  zero, a comma or a space, whatever follows that.\<close>

theorem json_table_parts:
  assumes "list_all (list_all (string_ready slash)) vss" "array_holds (array_holds string_holds js_set) array_is_set a vss"
    and "\<forall>n\<in>set ns. 0 < n" "length (array_json (array_json (json_text slash)) vss) < sum_list ns"
    and "concat css @ final = array_json (array_json (json_text slash)) vss" "[] \<notin> set css" "final \<noteq> []" "ends_value t"
  shows "\<exists>bss a1. write_parts (array_serialize (array_serialize (string_serialize slash) js_set) array_is_set) ns a 0 = (bss, a1, 0) \<and>
    concat bss = concat css @ final \<and>
    (\<exists>a2 pos a3. read_parts (array_deserialize (array_deserialize string_deserialize (new_string [] True)) new_array) css
        (array_clear d) 0 = Some (a2, pos) \<and>
      array_deserialize (array_deserialize string_deserialize (new_string [] True)) new_array a2 (final @ t # tail) pos =
        (length final, a3, 0, None) \<and>
      array_holds (array_holds string_holds js_set) array_is_set a3 vss)"
  by (rule tables.parts_transfer [OF assms])

definition sample_table :: "json_string json_array json_array" where
  "sample_table = new_array\<lparr>ar_data :=
     [new_array\<lparr>ar_data := [assigned [0x61], new_string [] True, assigned [0x22, 0x62]]\<rparr>, new_array, new_array\<lparr>ar_set := True\<rparr>]\<rparr>"

definition sample_values :: "u32 list list list" where
  "sample_values = [[[0x61], [0x22, 0x62]], []]"

lemma sample_table_holds: "array_holds (array_holds string_holds js_set) array_is_set sample_table sample_values"
  by (simp add: array_holds_def sample_table_def sample_values_def new_array_def array_is_set_def string_holds_def assigned_def
      string_assign_def new_string_def is_quoted_def c_str_def json_content_def utf8_single following_bytes_def)

lemma sample_values_text: "array_json (array_json (json_text False)) sample_values =
  [91, 91, 34, 97, 34, 44, 34, 92, 34, 98, 34, 93, 44, 91, 93, 93]"
  by code_simp

lemma sample_values_ready: "list_all (list_all (string_ready False)) sample_values"
proof -
  have "json_content [0x61] = [0x61]" "json_content [0x22, 0x62] = [0x22, 0x62]" "list_all scalar [0x61]" "list_all scalar [0x22, 0x62]"
    "lengths_fit [0x61]" "lengths_fit [0x22, 0x62]" "json_text False [0x61] = [34, 97, 34]"
    "json_text False [0x22, 0x62] = [34, 92, 34, 98, 34]"
    by code_simp+
  then show ?thesis by (simp add: sample_values_def string_ready_def null_tag_def)
qed

lemma json_table_parts_witness:
  "\<exists>bss a1. write_parts (array_serialize (array_serialize (string_serialize False) js_set) array_is_set) [4, 1, 20] sample_table 0 = (bss, a1, 0) \<and>
    concat bss = concat [[91, 91, 34], [97]] @ [34, 44, 34, 92, 34, 98, 34, 93, 44, 91, 93, 93] \<and>
    (\<exists>a2 pos a3. read_parts (array_deserialize (array_deserialize string_deserialize (new_string [] True)) new_array) [[91, 91, 34], [97]]
        (array_clear new_array) 0 = Some (a2, pos) \<and>
      array_deserialize (array_deserialize string_deserialize (new_string [] True)) new_array a2
        ([34, 44, 34, 92, 34, 98, 34, 93, 44, 91, 93, 93] @ 0 # []) pos =
        (length [34, 44, 34, 92, 34, 98, 34, 93, 44, 91, 93, 93 :: u8], a3, 0, None) \<and>
      array_holds (array_holds string_holds js_set) array_is_set a3 sample_values)"
  by (rule json_table_parts [OF sample_values_ready sample_table_holds]) (simp_all add: sample_values_text ends_value_def)

subsection \<open>Numbers\<close>

text \<open>C36: A number of a type of up to 64 bits, or null, in any of the three bases: \<open>ToString\<close> gives its text, and \<open>FromString\<close>
  reads the text without an error and has the number, whatever the element had before. The least number of a signed type is excepted: it
  is neither written nor read.\<close>

theorem json_number_roundtrip:
  assumes "number_ready k v" "number_holds s v" "nk_bits k \<le> 64"
  shows "\<exists>s' e'. to_string (number_serialize k) s = Some (True, number_json k v, s') \<and>
    from_string (number_deserialize k) number_clear (number_json k v) e = (None, e') \<and> number_holds e' v"
proof -
  have "length (number_json k v) < 65535"
  proof (cases v)
    case None
    then show ?thesis by (simp add: null_tag_def)
  next
    case (Some x)
    have "length (prefix_from k x 0) \<le> 4" by (simp add: prefix_from_def number_sign_def)
    moreover have "length (number_ending k) \<le> 1" by (simp add: number_ending_def)
    moreover have "length (kind_digits k \<bar>x\<bar>) \<le> 64" using kind_digits_length [of k x] assms(1,3) Some by simp
    ultimately show ?thesis by (simp add: Some)
  qed
  then have "length (number_json k v) mod 65535 \<noteq> 0" using numbers.json_not_Nil [OF assms(1)] by simp
  from numbers.from_string_reads [OF assms(1) this, of e] numbers.to_string_writes [OF assms(1,2)] show ?thesis by blast
qed

lemma json_number_roundtrip_witness:
  "\<exists>s' e'. to_string (number_serialize \<lparr>nk_bits = 16, nk_signed = True, nk_base = Base_hexadecimal\<rparr>)
      (number_assign (- 4660) (new_number 0 False)) =
      Some (True, number_json \<lparr>nk_bits = 16, nk_signed = True, nk_base = Base_hexadecimal\<rparr> (Some (- 4660)), s') \<and>
    from_string (number_deserialize \<lparr>nk_bits = 16, nk_signed = True, nk_base = Base_hexadecimal\<rparr>) number_clear
      (number_json \<lparr>nk_bits = 16, nk_signed = True, nk_base = Base_hexadecimal\<rparr> (Some (- 4660))) (new_number 5 True) = (None, e') \<and>
    number_holds e' (Some (- 4660))"
  by (rule json_number_roundtrip)
    (simp_all add: number_ready_def type_max_def max_signed_def number_holds_def number_assign_def new_number_def no_flags_def)

text \<open>The least number of a type with a sign: what is written has no digits, and its right text is refused.\<close>

lemma least_number_lost:
  "fst (number_serialize \<lparr>nk_bits = 8, nk_signed = True, nk_base = Base_decimal\<rparr> (number_assign (- 128) (new_number 0 False)) 20 0) = [45, 176]"
  "case number_deserialize \<lparr>nk_bits = 8, nk_signed = True, nk_base = Base_decimal\<rparr> (new_number 5 True) (map of_char ''-128'' @ [0]) 0 of
     (handled, e, pos, error) \<Rightarrow> error = Some Integer_overflow"
  by code_simp+

lemma number_wrap_max: "0 < nk_bits k \<Longrightarrow> number_wrap k u \<le> type_max (nk_signed k) (nk_bits k)"
proof -
  assume "0 < nk_bits k"
  then have "(2 :: int) ^ nk_bits k = 2 * 2 ^ (nk_bits k - 1)" by (cases "nk_bits k") simp_all
  moreover have "(u + 2 ^ (nk_bits k - 1)) mod 2 ^ nk_bits k < 2 ^ nk_bits k" "u mod 2 ^ nk_bits k < 2 ^ nk_bits k" by simp_all
  ultimately show ?thesis
    unfolding number_wrap_def wrap_signed_def type_max_def max_signed_def max_unsigned_def
    by (cases "nk_signed k"; simp only: if_True if_False; linarith)
qed

lemma number_wrap_iff:
  "0 < nk_bits k \<Longrightarrow> 0 \<le> u \<Longrightarrow> number_wrap k u = u \<longleftrightarrow> u \<le> type_max (nk_signed k) (nk_bits k)"
  using number_wrap_fits [of k u] number_wrap_max [of k u] by auto

text \<open>The value of a text of decimal digits.\<close>

definition decimal_value :: "u8 list \<Rightarrow> int" where
  "decimal_value cs = foldl (\<lambda>a c. a * 10 + (uint c - 48)) 0 cs"

lemma decimal_digit: "is_digit c \<Longrightarrow> 0 \<le> uint c - 48 \<and> uint c - 48 \<le> 9"
  by (simp add: is_digit_def word_le_def)

lemma foldl_decimal: "list_all is_digit cs \<Longrightarrow> 0 \<le> a \<Longrightarrow> a \<le> foldl (\<lambda>a c. a * 10 + (uint c - 48)) a cs"
  using foldl_digits_mono [of "map (\<lambda>c. uint c - 48) cs" 10 a] decimal_digit by (auto simp: foldl_map list_all_iff)

lemma next_value_digit:
  assumes "0 < nk_bits k" "0 \<le> a" "is_digit c"
  shows "next_value k 10 (uint c - 48) a =
    (if a * 10 + (uint c - 48) \<le> type_max (nk_signed k) (nk_bits k) then (a * 10 + (uint c - 48), False)
     else (fst (next_value k 10 (uint c - 48) a), True))"
proof -
  have d: "0 \<le> uint c - 48" using decimal_digit [OF assms(3)] by simp
  have "number_wrap k (a * 10) = a * 10 \<longleftrightarrow> a * 10 \<le> type_max (nk_signed k) (nk_bits k)"
    "number_wrap k (a * 10 + (uint c - 48)) = a * 10 + (uint c - 48) \<longleftrightarrow> a * 10 + (uint c - 48) \<le> type_max (nk_signed k) (nk_bits k)"
    using assms(2) d by (intro number_wrap_iff assms(1); simp)+
  then show ?thesis using d by (auto simp: next_value_def)
qed

lemma number_digits_decimal:
  assumes "0 < nk_bits k" "list_all is_digit cs" "0 \<le> jn_value s" "jn_value s \<le> type_max (nk_signed k) (nk_bits k)"
    "jn_base s = 10" "\<not> jn_quoted s"
  shows "if foldl (\<lambda>a c. a * 10 + (uint c - 48)) (jn_value s) cs \<le> type_max (nk_signed k) (nk_bits k)
    then number_digits k (cs @ [0]) s = (length cs, True, [0], s\<lparr>jn_value := foldl (\<lambda>a c. a * 10 + (uint c - 48)) (jn_value s) cs\<rparr>, None)
    else \<exists>n rest v. number_digits k (cs @ [0]) s = (n, True, rest, s\<lparr>jn_value := v, jn_error := True\<rparr>, Some Integer_overflow)"
  using assms(2-)
proof (induction cs arbitrary: s)
  case Nil
  have "number_digit k 0 s = (False, True, s, None)"
    using Nil.prems by (simp add: number_digit_def is_digit_def is_xdigit_def to_upper_def ends_value_def)
  then show ?case using Nil.prems by simp
next
  case (Cons c cs)
  let ?m = "type_max (nk_signed k) (nk_bits k)"
  obtain v where v: "v = jn_value s * 10 + (uint c - 48)" by blast
  have c: "is_digit c" "list_all is_digit cs" using Cons.prems(1) by simp_all
  have v0: "0 \<le> v" using decimal_digit [OF c(1)] Cons.prems(2) by (simp add: v)
  note next_v = next_value_digit [OF assms(1) Cons.prems(2) c(1), folded v]
  show ?case
  proof (cases "v \<le> ?m")
    case True
    then have d: "number_digit k c s = (True, False, s\<lparr>jn_value := v\<rparr>, None)"
      using next_v c(1) Cons.prems(4) by (simp add: number_digit_def Let_def)
    have "if foldl (\<lambda>a c. a * 10 + (uint c - 48)) v cs \<le> ?m
      then number_digits k (cs @ [0]) (s\<lparr>jn_value := v\<rparr>) =
        (length cs, True, [0], s\<lparr>jn_value := v\<rparr>\<lparr>jn_value := foldl (\<lambda>a c. a * 10 + (uint c - 48)) v cs\<rparr>, None)
      else \<exists>n rest w. number_digits k (cs @ [0]) (s\<lparr>jn_value := v\<rparr>) =
        (n, True, rest, s\<lparr>jn_value := v\<rparr>\<lparr>jn_value := w, jn_error := True\<rparr>, Some Integer_overflow)"
      using Cons.IH [of "s\<lparr>jn_value := v\<rparr>"] c(2) v0 True Cons.prems(4,5) by (auto split: if_splits)
    then show ?thesis by (auto simp: d v [symmetric] split: if_splits)
  next
    case False
    then obtain w where w: "next_value k 10 (uint c - 48) (jn_value s) = (w, True)" using next_v by simp
    have "\<not> foldl (\<lambda>a c. a * 10 + (uint c - 48)) v cs \<le> ?m" using foldl_decimal [OF c(2) v0] False by linarith
    moreover have "number_digit k c s = (True, True, s\<lparr>jn_value := w, jn_error := True\<rparr>, Some Integer_overflow)"
      using w c(1) Cons.prems(4) by (simp add: number_digit_def Let_def)
    ultimately show ?thesis by (auto simp: v [symmetric])
  qed
qed

text \<open>C37: A text of decimal digits, read as a number of a type of at least 8 bits: when its value is in the range of the type, it is read
  without an error and the number is that value; otherwise the overflow is reported and the number is cleared, never another number
  that is left over from the digits.\<close>

theorem json_number_overflow:
  assumes "cs \<noteq> []" "list_all is_digit cs" "length cs < 65535" "8 \<le> nk_bits k"
  shows "\<exists>e'. from_string (number_deserialize k) number_clear cs e =
      (if decimal_value cs \<le> type_max (nk_signed k) (nk_bits k) then None else Some Integer_overflow, e') \<and>
    (if decimal_value cs \<le> type_max (nk_signed k) (nk_bits k) then number_holds e' (Some (decimal_value cs)) else \<not> jn_set e' \<and> jn_value e' = 0)"
proof -
  let ?m = "type_max (nk_signed k) (nk_bits k)"
  obtain c ds where c: "cs = c # ds" "is_digit c" "list_all is_digit ds" using assms(1,2) by (cases cs) auto
  have w: "0 < nk_bits k" using assms(4) by simp
  obtain s where s: "s = (no_flags (number_clear e))\<lparr>jn_value := uint c - 48, jn_base := 10\<rparr>" by blast
  have fit: "0 \<le> jn_value s" "jn_value s \<le> ?m"
  proof -
    have "(2 :: int) ^ 7 \<le> 2 ^ (nk_bits k - 1)" "(2 :: int) ^ 7 \<le> 2 ^ nk_bits k" using assms(4) by (intro power_increasing; simp)+
    then have "9 \<le> ?m" unfolding type_max_def max_signed_def max_unsigned_def by (cases "nk_signed k"; simp)
    then show "0 \<le> jn_value s" "jn_value s \<le> ?m" using decimal_digit [OF c(2)] by (simp_all add: s)
  qed
  have v: "foldl (\<lambda>a c. a * 10 + (uint c - 48)) (jn_value s) ds = decimal_value cs" by (simp add: decimal_value_def c(1) s)
  have "number_start c (number_clear e) 0 = (1, s, 4, None)"
  proof -
    have "c \<noteq> 34" "c \<noteq> 45" using c(2) by (auto simp: is_digit_def)
    then show ?thesis using c(2) by (simp add: number_start_def first_digit_def s number_clear_def no_flags_def)
  qed
  then have pre: "number_preamble (cs @ [0]) (number_clear e) 0 = (1, ds @ [0], s, 4, None)"
    by (simp add: number_preamble.simps c(1))
  have flags: "\<not> jn_error s" "\<not> jn_undefined s" "\<not> jn_quoted s" "\<not> jn_negative s" "jn_base s = 10" by (simp_all add: s no_flags_def)
  note digits = number_digits_decimal [OF w c(3) fit flags(5,3), unfolded v]
  have t: "take (min (length cs + 1) 65535) (cs @ [0]) = cs @ [0]" using assms(3) by simp
  have len: "length cs = Suc (length ds)" by (simp add: c(1))
  have clear: "jn_value (number_clear x) = 0 \<and> \<not> jn_set (number_clear x)" for x by (simp add: number_clear_def no_flags_def)
  show ?thesis
  proof (cases "decimal_value cs \<le> ?m")
    case True
    then have des: "number_deserialize k (number_clear e) (cs @ [0]) 0 =
      (length cs, s\<lparr>jn_value := decimal_value cs, jn_set := True\<rparr>, 0, None)"
      using digits flags len by (simp add: number_deserialize_def pre number_finish_def)
    have "from_string_loop (number_deserialize k) cs 0 0 (number_clear e) =
      (length cs, s\<lparr>jn_value := decimal_value cs, jn_set := True\<rparr>, 0, None)"
      using assms(1) des t by (simp add: from_string_loop.simps [of _ cs 0] from_string_loop.simps [of _ cs "length cs"])
    then have "from_string (number_deserialize k) number_clear cs e = (None, s\<lparr>jn_value := decimal_value cs, jn_set := True\<rparr>)"
      by (simp add: from_string_def)
    then show ?thesis using True flags by (simp add: number_holds_def)
  next
    case False
    then obtain n rest x where "number_digits k (ds @ [0]) s = (n, True, rest, s\<lparr>jn_value := x, jn_error := True\<rparr>, Some Integer_overflow)"
      using digits by auto
    then have des: "\<exists>n f. number_deserialize k (number_clear e) (cs @ [0]) 0 = (n, f, 0, Some Integer_overflow)"
      using flags by (auto simp: number_deserialize_def pre number_finish_def)
    then obtain n f where "from_string_loop (number_deserialize k) cs 0 0 (number_clear e) = (n, f, 0, Some Integer_overflow)"
      using assms(1) t by (auto simp: from_string_loop.simps [of _ cs 0])
    then have "from_string (number_deserialize k) number_clear cs e = (Some Integer_overflow, number_clear f)"
      by (simp add: from_string_def)
    then show ?thesis using False clear by simp
  qed
qed

lemma json_number_overflow_witness:
  "\<exists>e'. from_string (number_deserialize \<lparr>nk_bits = 8, nk_signed = True, nk_base = Base_decimal\<rparr>) number_clear [49, 50, 56] (new_number 3 False) =
      (if decimal_value [49, 50, 56] \<le> type_max True 8 then None else Some Integer_overflow, e') \<and>
    (if decimal_value [49, 50, 56] \<le> type_max True 8 then number_holds e' (Some (decimal_value [49, 50, 56]))
     else \<not> jn_set e' \<and> jn_value e' = 0)"
  using json_number_overflow [of "[49, 50, 56]" "\<lparr>nk_bits = 8, nk_signed = True, nk_base = Base_decimal\<rparr>"] by (simp add: is_digit_def)

end
