(* ===== verification/Json_Container.thy ===== *)
theory Json_Container
  imports Json_String Json_Array
begin

text \<open>
  \<open>JSON::Container\<close> of \<^verbatim>\<open>Source/core/JSON.h\<close>: an object with the elements that were added, each under a label. The
  elements are of one type here, which is a sum where the object has elements of several kinds; their writer,
  reader, \<open>IsSet\<close> and \<open>Clear\<close> are arguments. The bits of \<^verbatim>\<open>_state\<close> are separate fields, and what \<^verbatim>\<open>_current\<close> points to is
  nothing, the name of a member, which also takes the values of labels that are not known, or a member. \<open>Request\<close> is the
  one of the base class, which has no element. The offsets below 7 are stages of the container, the others are those of the
  element at work, plus 7.
\<close>

subsection \<open>The state\<close>

datatype container_current = No_element | Name_element | Member_element nat

record 'e json_container =
  jc_members :: "(u8 list \<times> 'e) list"
  jc_error :: bool
  jc_undefined :: bool
  jc_complete :: bool
  jc_set :: bool
  jc_current :: container_current
  jc_iterator :: nat
  jc_field :: json_string

definition new_container :: "'e json_container" where
  "new_container = \<lparr>jc_members = [], jc_error = False, jc_undefined = False, jc_complete = False, jc_set = False,
     jc_current = No_element, jc_iterator = 0, jc_field = new_string [] True\<rparr>"

definition container_add :: "u8 list \<Rightarrow> 'e \<Rightarrow> 'e json_container \<Rightarrow> 'e json_container" where
  "container_add label e c = c\<lparr>jc_members := jc_members c @ [(label, e)]\<rparr>"

definition container_remove :: "u8 list \<Rightarrow> 'e json_container \<Rightarrow> 'e json_container" where
  "container_remove label c =
     c\<lparr>jc_members := (let ms = jc_members c; n = length (takeWhile (\<lambda>m. fst m \<noteq> label) ms) in take n ms @ drop (Suc n) ms)\<rparr>"

definition has_label :: "u8 list \<Rightarrow> 'e json_container \<Rightarrow> bool" where
  "has_label label c \<longleftrightarrow> list_ex (\<lambda>m. fst m = label) (jc_members c)"

definition container_is_set :: "('e \<Rightarrow> bool) \<Rightarrow> 'e json_container \<Rightarrow> bool" where
  "container_is_set is_set c \<longleftrightarrow> jc_set c \<or> list_ex (\<lambda>m. is_set (snd m)) (jc_members c)"

definition container_null :: "bool \<Rightarrow> 'e json_container \<Rightarrow> 'e json_container" where
  "container_null enabled c = c\<lparr>jc_undefined := enabled\<rparr>"

definition container_set :: "bool \<Rightarrow> 'e json_container \<Rightarrow> 'e json_container" where
  "container_set enabled c = c\<lparr>jc_set := enabled\<rparr>"

definition container_clear :: "('e \<Rightarrow> 'e) \<Rightarrow> 'e json_container \<Rightarrow> 'e json_container" where
  "container_clear clear c = c\<lparr>jc_members := map (\<lambda>m. (fst m, clear (snd m))) (jc_members c),
     jc_error := False, jc_undefined := False, jc_complete := False, jc_set := False\<rparr>"

text \<open>\<open>Find\<close>, the position of the first member with the label; \<open>FindNext\<close>, the next member that is set, or the end.\<close>

definition container_find :: "u8 list \<Rightarrow> 'e json_container \<Rightarrow> nat option" where
  "container_find label c =
     (let n = length (takeWhile (\<lambda>m. label \<noteq> fst m) (jc_members c)) in if n < length (jc_members c) then Some n else None)"

definition skip_unset :: "('e \<Rightarrow> bool) \<Rightarrow> (u8 list \<times> 'e) list \<Rightarrow> nat \<Rightarrow> nat" where
  "skip_unset is_set ms i = i + length (takeWhile (\<lambda>m. \<not> is_set (snd m)) (drop i ms))"

definition find_next :: "('e \<Rightarrow> bool) \<Rightarrow> 'e json_container \<Rightarrow> bool \<times> 'e json_container" where
  "find_next is_set c =
     (let i = skip_unset is_set (jc_members c) (jc_iterator c + 1) in (i < length (jc_members c), c\<lparr>jc_iterator := i\<rparr>))"

subsection \<open>Writing\<close>

text \<open>The name of the member at the iterator is the next to be written.\<close>

definition name_member :: "'e json_container \<Rightarrow> 'e json_container" where
  "name_member c = c\<lparr>jc_field := string_assign (fst (jc_members c ! jc_iterator c)) (jc_field c), jc_current := Name_element\<rparr>"

definition write_current :: "'e json_writer \<Rightarrow> bool \<Rightarrow> 'e json_container \<Rightarrow> nat \<Rightarrow> nat \<Rightarrow> u8 list \<times> 'e json_container \<times> nat" where
  "write_current ser slash c room pos =
     (case jc_current c of
        Member_element i \<Rightarrow>
          (case ser (snd (jc_members c ! i)) room pos of
             (bs, e, pos) \<Rightarrow> (bs, c\<lparr>jc_members := (jc_members c)[i := (fst (jc_members c ! i), e)]\<rparr>, pos))
      | _ \<Rightarrow> (case string_serialize slash (jc_field c) room pos of (bs, s, pos) \<Rightarrow> (bs, c\<lparr>jc_field := s\<rparr>, pos)))"

text \<open>
  One turn of the loop. The offset \<open>~0\<close> of the code, which is only used inside of the function, is \<open>None\<close>; with the
  offset 1 a name or a value is complete.
\<close>

definition container_write_turn :: "'e json_writer \<Rightarrow> ('e \<Rightarrow> bool) \<Rightarrow> bool \<Rightarrow> 'e json_container \<Rightarrow> nat \<Rightarrow> nat \<Rightarrow> u8 list \<times> 'e json_container \<times> nat option" where
  "container_write_turn ser is_set slash c room pos =
     (if 7 \<le> pos then
        (case write_current ser slash c room (pos - 7) of
           (bs, c, pos) \<Rightarrow> (bs, c, Some (if pos = 0 then 1 else (pos + 7) mod 2 ^ 32)))
      else if pos = 1 then
        (if jc_current c = Name_element then ([58], c\<lparr>jc_current := Member_element (jc_iterator c)\<rparr>, Some 7)
         else case find_next is_set c of (found, c) \<Rightarrow> if found then ([44], name_member c, Some 7) else ([], c, None))
      else ([], c, Some pos))"

text \<open>The loop, with a number of turns that is enough: every turn writes something, or completes a name or a value.\<close>

fun container_write :: "'e json_writer \<Rightarrow> ('e \<Rightarrow> bool) \<Rightarrow> bool \<Rightarrow> nat \<Rightarrow> 'e json_container \<Rightarrow> nat \<Rightarrow> nat option \<Rightarrow> u8 list \<times> 'e json_container \<times> nat option" where
  "container_write ser is_set slash 0 c room pos = ([], c, pos)"
| "container_write ser is_set slash (Suc turns) c room None = ([], c, None)"
| "container_write ser is_set slash (Suc turns) c room (Some pos) =
     (if room = 0 then ([], c, Some pos)
      else
        case container_write_turn ser is_set slash c room pos of
          (bs, c, pos) \<Rightarrow>
            (case container_write ser is_set slash turns c (room - length bs) pos of (cs, c, pos) \<Rightarrow> (bs @ cs, c, pos)))"

definition container_turns :: "nat \<Rightarrow> nat" where
  "container_turns room = 2 * room + 2"

definition container_open :: "('e \<Rightarrow> bool) \<Rightarrow> 'e json_container \<Rightarrow> 'e json_container \<times> nat option" where
  "container_open is_set c =
     (let i = skip_unset is_set (jc_members c) 0; c = c\<lparr>jc_iterator := i\<rparr>
      in if i < length (jc_members c) then (name_member c, Some 7) else (c, None))"

definition container_serialize :: "'e json_writer \<Rightarrow> ('e \<Rightarrow> bool) \<Rightarrow> bool \<Rightarrow> 'e json_container \<Rightarrow> nat \<Rightarrow> nat \<Rightarrow> u8 list \<times> 'e json_container \<times> nat" where
  "container_serialize ser is_set slash c max_length pos =
     (if jc_undefined c then (take max_length (drop pos null_tag), c, pos)
      else
        let (head, c, start) =
              (if pos = 0 then (case container_open is_set c of (c, start) \<Rightarrow> ([123], c, start))
               else ([], c, if pos = 2 then None else Some pos))
        in case container_write ser is_set slash (container_turns max_length) c (max_length - length head) start of
             (bs, c, next) \<Rightarrow>
               (case next of
                  Some pos \<Rightarrow> (head @ bs, c, pos)
                | None \<Rightarrow>
                    if length (head @ bs) < max_length then (head @ bs @ [125], c\<lparr>jc_field := string_clear (jc_field c)\<rparr>, 0)
                    else (head @ bs, c, 2)))"

subsection \<open>Reading\<close>

definition container_failed :: "'e json_container \<Rightarrow> 'e json_container" where
  "container_failed c = c\<lparr>jc_error := True, jc_undefined := False, jc_complete := False, jc_set := False\<rparr>"

text \<open>
  What stands between the names and values. The stages are 3 in front of a name, 4 behind a colon, 5 behind a
  value, and 6 behind a name.
\<close>

definition container_between :: "u8 \<Rightarrow> 'e json_container \<Rightarrow> nat \<Rightarrow> nat \<times> 'e json_container \<times> nat \<times> json_error option" where
  "container_between ch c pos =
     (if ch = 125 then
        (let (c, error) =
               (if pos = 3 \<and> jc_members c \<noteq> [] then (container_failed c, Some Element_expected)
                else if pos = 4 \<or> pos = 6 then (container_failed c, Some Value_expected)
                else (c, None))
         in (1, c\<lparr>jc_complete := True\<rparr>, 0, error))
      else if ch = 44 then
        (if pos = 3 then (1, container_failed c, 0, Some Element_expected)
         else if pos = 4 \<or> pos = 6 then (1, container_failed c, 0, Some Value_expected)
         else (1, c, 3, None))
      else if ch = 58 then
        (if pos = 3 \<or> pos = 4 then (1, container_failed c, 0, Some (if pos = 4 then Value_expected else Element_expected))
         else if \<not> js_set (jc_field c) then (1, container_failed c, 0, Some Unexpected_colon)
         else (1, c, 4, None))
      else if js_set (jc_field c) then
        (if jc_current c = No_element \<and> pos \<noteq> 4 then (1, container_failed c, 0, Some Colon_expected)
         else
           let c = (if jc_current c = No_element then c else container_failed c);
               found = container_find (string_value (jc_field c)) c
           in (0, c\<lparr>jc_field := string_clear (jc_field c),
                    jc_current := (case found of None \<Rightarrow> Name_element | Some i \<Rightarrow> Member_element i)\<rparr>, 7, None))
      else if pos = 5 \<or> pos = 6 then (1, container_failed c, 0, Some (Unexpected_character ch))
      else (0, c\<lparr>jc_current := No_element\<rparr>, 7, None))"

text \<open>A part of a name or a value. A name that is not quoted is an error, which replaces any other.\<close>

definition container_item :: "'e json_reader \<Rightarrow> u8 list \<Rightarrow> 'e json_container \<Rightarrow> nat \<Rightarrow> nat \<times> 'e json_container \<times> nat \<times> json_error option" where
  "container_item des cs c pos =
     (case jc_current c of
        No_element \<Rightarrow>
          (case string_deserialize (jc_field c) cs (pos - 7) of
             (n, s, pos, error) \<Rightarrow>
               (n, c\<lparr>jc_field := s\<rparr>, if pos = 0 then 6 else (pos + 7) mod 2 ^ 32, if is_quoted s then error else Some Key_not_quoted))
      | Name_element \<Rightarrow>
          (case string_deserialize (jc_field c) cs (pos - 7) of
             (n, s, pos, error) \<Rightarrow>
               (n, c\<lparr>jc_field := if pos = 0 then string_clear s else s\<rparr>, if pos = 0 then 5 else (pos + 7) mod 2 ^ 32, error))
      | Member_element i \<Rightarrow>
          (case des (snd (jc_members c ! i)) cs (pos - 7) of
             (n, e, pos, error) \<Rightarrow>
               (n, c\<lparr>jc_members := (jc_members c)[i := (fst (jc_members c ! i), e)],
                     jc_field := if pos = 0 then string_clear (jc_field c) else jc_field c\<rparr>,
                if pos = 0 then 5 else (pos + 7) mod 2 ^ 32, error)))"

text \<open>One turn of the loop, with characters left; the loop, with a number of turns as for arrays.\<close>

definition container_read_turn :: "'e json_reader \<Rightarrow> u8 list \<Rightarrow> 'e json_container \<Rightarrow> nat \<Rightarrow> nat \<times> 'e json_container \<times> nat \<times> json_error option" where
  "container_read_turn des cs c pos =
     (let skipping = (3 \<le> pos \<and> pos \<le> 6);
          blanks = (if skipping then length (takeWhile is_space cs) else 0);
          cs = drop blanks cs;
          (used, c, pos, error) = (if skipping \<and> cs \<noteq> [] then container_between (hd cs) c pos else (0, c, pos, None))
      in if 7 \<le> pos then
           (case container_item des (drop used cs) c pos of (n, c, pos, e) \<Rightarrow> (blanks + used + n, c, pos, if e = None then error else e))
         else (blanks + used, c, pos, error))"

fun container_read :: "'e json_reader \<Rightarrow> nat \<Rightarrow> u8 list \<Rightarrow> 'e json_container \<Rightarrow> nat \<Rightarrow> nat \<times> 'e json_container \<times> nat \<times> json_error option" where
  "container_read des 0 cs c pos = (0, c, pos, None)"
| "container_read des (Suc turns) cs c pos =
     (if pos = 0 \<or> cs = [] then (0, c, pos, None)
      else
        case container_read_turn des cs c pos of
          (used, c, pos, error) \<Rightarrow>
            if error \<noteq> None then (used, c, pos, error)
            else (case container_read des turns (drop used cs) c pos of (n, c, pos, error) \<Rightarrow> (used + n, c, pos, error)))"

text \<open>An error clears all elements. Its position in the text is not part of the model.\<close>

definition container_deserialize :: "('e \<Rightarrow> 'e) \<Rightarrow> 'e json_reader \<Rightarrow> 'e json_container \<Rightarrow> u8 list \<Rightarrow> nat \<Rightarrow> nat \<times> 'e json_container \<times> nat \<times> json_error option" where
  "container_deserialize clear des c stream pos =
     (let blanks = (if pos = 0 then length (takeWhile is_space stream) else 0);
          cs = drop blanks stream;
          read = (\<lambda>used c pos. case container_read des (2 * length stream + 2) (drop used stream) c pos of
             (n, c, pos, error) \<Rightarrow> (used + n, c, pos, error));
          (n, c, pos, error) =
            (if cs = [] then (blanks, c, 0, None)
             else if pos \<noteq> 0 then read 0 c pos
             else if hd cs = 123 then read (blanks + 1) (c\<lparr>jc_field := string_clear (jc_field c)\<rparr>) 3
             else
               case is_null_value null_tag cs of
                 (v, n) \<Rightarrow>
                   (blanks + n, if v = Is_null then c\<lparr>jc_undefined := True, jc_error := False, jc_complete := False, jc_set := False\<rparr> else c,
                    0, if v = Is_invalid then Some Invalid_value else None))
      in (n, if error = None then c else container_clear clear c, pos, error))"

end
