(* ===== verification/Json_Container_Writing.thy ===== *)
theory Json_Container_Writing
  imports Json_Container Json_Reading
begin

text \<open>
  What a container writes: the object of the names and values of the members that are set, whatever the parts. A
  value of a container is the list of names, as code points, each with the value of its member if it is set.
\<close>

subsection \<open>The text\<close>

fun present :: "('k \<times> 'v option) list \<Rightarrow> ('k \<times> 'v) list" where
  "present [] = []"
| "present ((k, None) # kvs) = present kvs"
| "present ((k, Some v) # kvs) = (k, v) # present kvs"

definition field_json :: "('v \<Rightarrow> u8 list) \<Rightarrow> bool \<Rightarrow> u32 list \<times> 'v \<Rightarrow> u8 list" where
  "field_json json slash kv = json_text slash (fst kv) @ 58 # json (snd kv)"

definition after_fields :: "('v \<Rightarrow> u8 list) \<Rightarrow> bool \<Rightarrow> (u32 list \<times> 'v) list \<Rightarrow> u8 list" where
  "after_fields json slash kvs = concat (map (\<lambda>kv. 44 # field_json json slash kv) kvs) @ [125]"

definition container_fields :: "('v \<Rightarrow> u8 list) \<Rightarrow> bool \<Rightarrow> (u32 list \<times> 'v) list \<Rightarrow> u8 list" where
  "container_fields json slash kvs = (case kvs of [] \<Rightarrow> [125] | kv # kvs \<Rightarrow> field_json json slash kv @ after_fields json slash kvs)"

definition container_json :: "('v \<Rightarrow> u8 list) \<Rightarrow> bool \<Rightarrow> (u32 list \<times> 'v option) list \<Rightarrow> u8 list" where
  "container_json json slash kvs = 123 # container_fields json slash (present kvs)"

lemma after_fields_simps [simp]:
  "after_fields json slash [] = [125]"
  "after_fields json slash (kv # kvs) = 44 # field_json json slash kv @ after_fields json slash kvs"
  by (simp_all add: after_fields_def)

lemma container_fields_simps [simp]:
  "container_fields json slash [] = [125]"
  "container_fields json slash (kv # kvs) = field_json json slash kv @ after_fields json slash kvs"
  by (simp_all add: container_fields_def)

lemma after_fields_begins: "\<exists>t ts. after_fields json slash kvs = t # ts \<and> ends_value t"
  by (cases kvs) (simp_all add: ends_value_def)

lemma after_fields_length [simp]: "0 < length (after_fields json slash kvs)" "after_fields json slash kvs \<noteq> []"
  by (simp_all add: after_fields_def)

subsection \<open>What a container holds\<close>

definition member_holds :: "('e \<Rightarrow> 'v \<Rightarrow> bool) \<Rightarrow> ('e \<Rightarrow> bool) \<Rightarrow> u8 list \<times> 'e \<Rightarrow> u32 list \<times> 'v option \<Rightarrow> bool" where
  "member_holds holds is_set m kv \<longleftrightarrow> fst m = json_content (fst kv) \<and>
     (case snd kv of None \<Rightarrow> \<not> is_set (snd m) | Some v \<Rightarrow> holds (snd m) v)"

definition name_ok :: "json_string \<Rightarrow> bool" where
  "name_ok s \<longleftrightarrow> \<not> js_null s \<and> js_quoted_serialize s"

definition container_holds :: "('e \<Rightarrow> 'v \<Rightarrow> bool) \<Rightarrow> ('e \<Rightarrow> bool) \<Rightarrow> 'e json_container \<Rightarrow> (u32 list \<times> 'v option) list \<Rightarrow> bool" where
  "container_holds holds is_set c kvs \<longleftrightarrow> \<not> jc_undefined c \<and> name_ok (jc_field c) \<and> present kvs \<noteq> [] \<and>
     list_all2 (member_holds holds is_set) (jc_members c) kvs"

definition name_ready :: "bool \<Rightarrow> u32 list \<Rightarrow> bool" where
  "name_ready slash k \<longleftrightarrow> string_ready slash k \<and> 0 \<notin> set (json_content k)"

definition fields_ready :: "('v \<Rightarrow> bool) \<Rightarrow> bool \<Rightarrow> (u32 list \<times> 'v option) list \<Rightarrow> bool" where
  "fields_ready ready slash kvs \<longleftrightarrow> list_all (\<lambda>kv. name_ready slash (fst kv) \<and> (\<forall>v. snd kv = Some v \<longrightarrow> ready v)) kvs"

lemma fields_ready_simps [simp]:
  "fields_ready ready slash []"
  "fields_ready ready slash (kv # kvs) \<longleftrightarrow> name_ready slash (fst kv) \<and> (\<forall>v. snd kv = Some v \<longrightarrow> ready v) \<and> fields_ready ready slash kvs"
  "fields_ready ready slash (kvs @ kws) \<longleftrightarrow> fields_ready ready slash kvs \<and> fields_ready ready slash kws"
  by (auto simp: fields_ready_def)

lemma present_append [simp]: "present (kvs @ kws) = present kvs @ present kws"
  by (induction kvs rule: present.induct) simp_all

lemma present_Cons:
  "present kvs = (k, v) # kws \<Longrightarrow> \<exists>skipped later. kvs = skipped @ (k, Some v) # later \<and> present skipped = [] \<and> present later = kws"
proof (induction kvs rule: present.induct)
  case (2 l kvs)
  then obtain skipped later where "kvs = skipped @ (k, Some v) # later" "present skipped = []" "present later = kws" by auto
  then show ?case by (intro exI [of _ "(l, None) # skipped"] exI [of _ later]) simp
next
  case (3 l w kvs)
  then show ?case by (intro exI [of _ "[]"] exI [of _ kvs]) simp
qed simp

lemma name_ok_simps [simp]:
  "name_ok (t\<lparr>js_special := b\<rparr>) = name_ok t" "name_ok (t\<lparr>js_counter := k\<rparr>) = name_ok t"
  "name_ok (t\<lparr>js_storage := v\<rparr>) = name_ok t" "name_ok (t\<lparr>js_quoted_area := b\<rparr>) = name_ok t"
  by (simp_all add: name_ok_def)

lemma write_char_name: "write_char slash s pos = (c, s', pos') \<Longrightarrow> name_ok s' = name_ok s"
proof -
  have "name_ok (start_unicode pos s) = name_ok s" by (simp add: start_unicode_def Let_def split: prod.splits)
  moreover have "name_ok (fst (snd (unicode_char pos s))) = name_ok s" by (simp add: unicode_char_def Let_def)
  ultimately show "name_ok s' = name_ok s" if "write_char slash s pos = (c, s', pos')"
    using that by (auto simp: write_char_def Let_def split: if_splits option.splits)
qed

lemma write_chars_name: "write_chars slash n s pos = (cs, s', pos') \<Longrightarrow> name_ok s' = name_ok s"
proof (induction slash n s pos arbitrary: cs s' pos' rule: write_chars.induct)
  case (2 slash room s pos)
  show ?case
  proof (cases "length (js_value s) - (pos - 1) = 0")
    case False
    obtain c t p where 1: "write_char slash s pos = (c, t, p)" by (cases "write_char slash s pos") auto
    then obtain ds where "write_chars slash room t p = (ds, s', pos')" using 2(2) False by (auto split: prod.splits)
    then show ?thesis using 2(1) [OF False 1 [symmetric] refl] write_char_name [OF 1] by simp
  qed (use 2 in auto)
qed auto

lemma string_serialize_name:
  assumes "string_serialize slash s n pos = (cs, s', pos')"
  shows "name_ok s' = name_ok s"
proof (cases "js_set s \<or> js_value s = [] \<and> is_quoted s")
  case True
  obtain t where t: "t = (if pos = 0 then s\<lparr>js_special := False, js_quoted_area := False, js_counter := 0\<rparr> else s)" by blast
  obtain ds u q where 1: "write_chars slash (n - (if pos = 0 \<and> is_quoted s then 1 else 0)) t (if pos = 0 then 1 else pos) = (ds, u, q)"
    by (metis prod_cases3)
  have "s' = u" using assms True 1 unfolding string_serialize_def t
    by (cases "pos = 0"; cases "is_quoted s") (simp_all split: if_splits)
  then show ?thesis using write_chars_name [OF 1] by (simp add: t)
next
  case False
  show ?thesis using assms unfolding string_serialize_def if_not_P [OF False] by simp
qed

lemma string_assign_name [simp]: "name_ok (string_assign label s) = name_ok s"
  by (simp add: string_assign_def name_ok_def)

lemma string_clear_name [simp]: "name_ok (string_clear s) = js_quoted_serialize s"
  by (simp add: string_clear_def name_ok_def)

lemma name_assigned: "name_ok s \<Longrightarrow> 0 \<notin> set (json_content k) \<Longrightarrow> string_holds (string_assign (json_content k) s) k"
  by (simp add: string_holds_def string_assign_def name_ok_def is_quoted_def c_str_def takeWhile_eq_all_conv) blast

lemma drop_all2_Cons:
  assumes "list_all2 P (drop i xs) (y # ys)"
  shows "i < length xs \<and> drop i xs = xs ! i # drop (Suc i) xs \<and> P (xs ! i) y \<and> list_all2 P (drop (Suc i) xs) ys"
proof -
  have i: "i < length xs" using list_all2_lengthD [OF assms] by simp
  then have "drop i xs = xs ! i # drop (Suc i) xs" by (simp add: Cons_nth_drop_Suc)
  then show ?thesis using assms i by simp
qed

lemma skip_unset_members:
  assumes "list_all2 (member_holds holds is_set) (drop i ms) kvs" "\<forall>e v. holds e v \<longrightarrow> is_set e"
  shows "if present kvs = [] then length ms \<le> skip_unset is_set ms i
    else skip_unset is_set ms i < length ms \<and>
      (\<exists>k v skipped later. kvs = skipped @ (k, Some v) # later \<and> present skipped = [] \<and>
        fst (ms ! skip_unset is_set ms i) = json_content k \<and> holds (snd (ms ! skip_unset is_set ms i)) v \<and>
        list_all2 (member_holds holds is_set) (drop (Suc (skip_unset is_set ms i)) ms) later)"
  using assms(1)
proof (induction kvs arbitrary: i rule: present.induct)
  case 1
  then show ?case by (simp add: skip_unset_def)
next
  case (2 k kvs)
  note m = drop_all2_Cons [OF 2(2)]
  then have s: "skip_unset is_set ms i = skip_unset is_set ms (Suc i)" by (simp add: skip_unset_def member_holds_def)
  show ?case
  proof (cases "present kvs = []")
    case True
    then show ?thesis using 2(1) [of "Suc i"] m unfolding s by simp
  next
    case False
    with 2(1) [of "Suc i"] m obtain l v skipped later where l: "kvs = skipped @ (l, Some v) # later" "present skipped = []"
      "skip_unset is_set ms (Suc i) < length ms" "fst (ms ! skip_unset is_set ms (Suc i)) = json_content l"
      "holds (snd (ms ! skip_unset is_set ms (Suc i))) v"
      "list_all2 (member_holds holds is_set) (drop (Suc (skip_unset is_set ms (Suc i))) ms) later" by auto
    have "present ((k, None) # kvs) \<noteq> []" using False by simp
    then show ?thesis using l unfolding s
      by simp (intro exI [of _ l] exI [of _ v] exI [of _ "(k, None) # skipped"] exI [of _ later], simp)
  qed
next
  case (3 k v kvs)
  note m = drop_all2_Cons [OF 3(2)]
  then have "is_set (snd (ms ! i))" using assms(2) by (auto simp: member_holds_def)
  then have "skip_unset is_set ms i = i" using m by (simp add: skip_unset_def)
  moreover have "fst (ms ! i) = json_content k" "holds (snd (ms ! i)) v" using m by (auto simp: member_holds_def)
  ultimately show ?case using m by simp (intro exI [of _ k] exI [of _ v] exI [of _ "[]"] exI [of _ kvs], simp)
qed

subsection \<open>Writing\<close>

text \<open>
  What is left to write after the opening bracket: a name that is at work or complete, or a value. \<open>later\<close> are the
  members behind it.
\<close>

definition writing_at :: "('e \<Rightarrow> 'v \<Rightarrow> bool) \<Rightarrow> ('v \<Rightarrow> bool) \<Rightarrow> ('e \<Rightarrow> bool) \<Rightarrow> bool \<Rightarrow> 'e json_container \<Rightarrow> (u32 list \<times> 'v option) list \<Rightarrow> bool" where
  "writing_at holds ready is_set slash c later \<longleftrightarrow> \<not> jc_undefined c \<and> name_ok (jc_field c) \<and> jc_iterator c < length (jc_members c) \<and>
     list_all2 (member_holds holds is_set) (drop (Suc (jc_iterator c)) (jc_members c)) later \<and> fields_ready ready slash later"

definition container_running ::
  "('v \<Rightarrow> u8 list) \<Rightarrow> ('e \<Rightarrow> 'v \<Rightarrow> bool) \<Rightarrow> ('e \<Rightarrow> nat \<Rightarrow> u8 list \<Rightarrow> bool) \<Rightarrow> ('v \<Rightarrow> bool) \<Rightarrow> ('e \<Rightarrow> bool) \<Rightarrow> bool \<Rightarrow>
    'e json_container \<Rightarrow> nat \<Rightarrow> u8 list \<Rightarrow> bool" where
  "container_running json holds writes ready is_set slash c pos rest \<longleftrightarrow>
     (\<exists>later. writing_at holds ready is_set slash c later \<and>
        (let behind = after_fields json slash (present later) in
         if jc_current c = Name_element then
           \<exists>v. holds (snd (jc_members c ! jc_iterator c)) v \<and> ready v \<and>
             (pos = 1 \<and> rest = 58 # json v @ behind \<or>
              7 \<le> pos \<and> (\<exists>r. string_writes slash (jc_field c) (pos - 7) r \<and> rest = r @ 58 # json v @ behind))
         else jc_current c = Member_element (jc_iterator c) \<and>
           (pos = 1 \<and> rest = behind \<or>
            7 \<le> pos \<and> (\<exists>r. writes (snd (jc_members c ! jc_iterator c)) (pos - 7) r \<and> rest = r @ behind))))"

definition container_writes ::
  "('v \<Rightarrow> u8 list) \<Rightarrow> ('e \<Rightarrow> 'v \<Rightarrow> bool) \<Rightarrow> ('e \<Rightarrow> nat \<Rightarrow> u8 list \<Rightarrow> bool) \<Rightarrow> ('v \<Rightarrow> bool) \<Rightarrow> ('e \<Rightarrow> bool) \<Rightarrow> bool \<Rightarrow>
    'e json_container \<Rightarrow> nat \<Rightarrow> u8 list \<Rightarrow> bool" where
  "container_writes json holds writes ready is_set slash c pos rest \<longleftrightarrow>
     (if pos = 0 then \<exists>kvs. rest = container_json json slash kvs \<and> container_holds holds is_set c kvs \<and> fields_ready ready slash kvs
      else if pos = 2 then \<not> jc_undefined c \<and> rest = [125]
      else container_running json holds writes ready is_set slash c pos rest)"

definition busy :: "nat \<Rightarrow> nat" where
  "busy pos = (if 7 \<le> pos then 1 else 0)"

context json_field
begin

definition running :: "bool \<Rightarrow> 'e json_container \<Rightarrow> nat \<Rightarrow> u8 list \<Rightarrow> bool" where
  "running slash = container_running json holds writes ready is_set slash"

definition at_work :: "bool \<Rightarrow> 'e json_container \<Rightarrow> (u32 list \<times> 'v option) list \<Rightarrow> bool" where
  "at_work slash = writing_at holds ready is_set slash"

lemma running_cases [consumes 1, case_names name_done name value_done val]:
  assumes "running slash c pos rest"
    and "\<And>later v. at_work slash c later \<Longrightarrow> jc_current c = Name_element \<Longrightarrow> holds (snd (jc_members c ! jc_iterator c)) v \<Longrightarrow> ready v \<Longrightarrow>
      pos = 1 \<Longrightarrow> rest = 58 # json v @ after_fields json slash (present later) \<Longrightarrow> P"
    and "\<And>later v r. at_work slash c later \<Longrightarrow> jc_current c = Name_element \<Longrightarrow> holds (snd (jc_members c ! jc_iterator c)) v \<Longrightarrow> ready v \<Longrightarrow>
      7 \<le> pos \<Longrightarrow> string_writes slash (jc_field c) (pos - 7) r \<Longrightarrow> rest = r @ 58 # json v @ after_fields json slash (present later) \<Longrightarrow> P"
    and "\<And>later. at_work slash c later \<Longrightarrow> jc_current c = Member_element (jc_iterator c) \<Longrightarrow>
      pos = 1 \<Longrightarrow> rest = after_fields json slash (present later) \<Longrightarrow> P"
    and "\<And>later r. at_work slash c later \<Longrightarrow> jc_current c = Member_element (jc_iterator c) \<Longrightarrow>
      7 \<le> pos \<Longrightarrow> writes (snd (jc_members c ! jc_iterator c)) (pos - 7) r \<Longrightarrow> rest = r @ after_fields json slash (present later) \<Longrightarrow> P"
  shows P
  using assms unfolding running_def container_running_def at_work_def Let_def by (auto split: if_splits)

lemma running_intros:
  "at_work slash c later \<Longrightarrow> jc_current c = Name_element \<Longrightarrow> holds (snd (jc_members c ! jc_iterator c)) v \<Longrightarrow> ready v \<Longrightarrow>
    running slash c 1 (58 # json v @ after_fields json slash (present later))"
  "at_work slash c later \<Longrightarrow> jc_current c = Name_element \<Longrightarrow> holds (snd (jc_members c ! jc_iterator c)) v \<Longrightarrow> ready v \<Longrightarrow>
    string_writes slash (jc_field c) pos r \<Longrightarrow> running slash c (pos + 7) (r @ 58 # json v @ after_fields json slash (present later))"
  "at_work slash c later \<Longrightarrow> jc_current c = Member_element (jc_iterator c) \<Longrightarrow> running slash c 1 (after_fields json slash (present later))"
  "at_work slash c later \<Longrightarrow> jc_current c = Member_element (jc_iterator c) \<Longrightarrow> writes (snd (jc_members c ! jc_iterator c)) pos r \<Longrightarrow>
    running slash c (pos + 7) (r @ after_fields json slash (present later))"
  unfolding running_def container_running_def at_work_def Let_def by (intro exI [of _ later]; force)+

lemma name_turn:
  assumes "at_work slash c later" "jc_current c = Name_element" "holds (snd (jc_members c ! jc_iterator c)) v" "ready v"
    and "7 \<le> pos" "string_writes slash (jc_field c) (pos - 7) r" "rest = r @ 58 # json v @ after_fields json slash (present later)" "0 < room"
  shows "\<exists>n c' p. container_write_turn ser is_set slash c room pos = (take n rest, c', Some p) \<and> n < length rest \<and> n \<le> room \<and>
    running slash c' p (drop n rest) \<and> (n = room \<or> p = 1)"
proof -
  obtain m s p where p: "string_serialize slash (jc_field c) room (pos - 7) = (take m rest, s, p)" "m \<le> room" "m \<le> length r"
    "p = 0 \<and> m = length r \<or> p \<noteq> 0 \<and> m = room \<and> string_writes slash s p (drop m r)"
    using quoted.writes_part_before [OF assms(6,8), of "58 # json v @ after_fields json slash (present later)"] assms(7) by auto
  obtain b where b: "b = c\<lparr>jc_field := s\<rparr>" by blast
  have w: "at_work slash b later" "jc_current b = Name_element" "holds (snd (jc_members b ! jc_iterator b)) v"
    using assms(1-3) string_serialize_name [OF p(1)] by (simp_all add: at_work_def writing_at_def b)
  have "p \<le> 2 ^ 31" using p(4) quoted.writes_top by auto
  then have t: "container_write_turn ser is_set slash c room pos = (take m rest, b, Some (if p = 0 then 1 else p + 7))"
    using assms(2,5) by (simp add: container_write_turn_def write_current_def p(1) b)
  have "running slash b (if p = 0 then 1 else p + 7) (drop m rest)"
    using running_intros(1,2) [OF w assms(4)] p(3,4) by (auto simp: assms(7) b)
  then show ?thesis using t p assms(7) by (intro exI [of _ m] exI [of _ b] exI [of _ "if p = 0 then 1 else p + 7"]) auto
qed

lemma value_turn:
  assumes "at_work slash c later" "jc_current c = Member_element (jc_iterator c)"
    and "7 \<le> pos" "writes (snd (jc_members c ! jc_iterator c)) (pos - 7) r" "rest = r @ after_fields json slash (present later)" "0 < room"
    and "top + 7 < 2 ^ 32"
  shows "\<exists>n c' p. container_write_turn ser is_set slash c room pos = (take n rest, c', Some p) \<and> n < length rest \<and> n \<le> room \<and>
    running slash c' p (drop n rest) \<and> (n = room \<or> p = 1)"
proof -
  let ?i = "jc_iterator c"
  obtain m e p where p: "ser (snd (jc_members c ! ?i)) room (pos - 7) = (take m rest, e, p)" "m \<le> room" "m \<le> length r"
    "p = 0 \<and> m = length r \<or> p \<noteq> 0 \<and> m = room \<and> writes e p (drop m r)"
    using writes_part_before [OF assms(4,6), of "after_fields json slash (present later)"] assms(5) by auto
  obtain b where b: "b = c\<lparr>jc_members := (jc_members c)[?i := (fst (jc_members c ! ?i), e)]\<rparr>" by blast
  have w: "at_work slash b later" "jc_current b = Member_element (jc_iterator b)" and e: "snd (jc_members b ! jc_iterator b) = e"
    using assms(1,2) by (simp_all add: at_work_def writing_at_def b)
  have "p \<le> top" using p(4) writes_limit by auto
  then have t: "container_write_turn ser is_set slash c room pos = (take m rest, b, Some (if p = 0 then 1 else p + 7))"
    using assms(2,3,7) by (simp add: container_write_turn_def write_current_def p(1) b)
  have "running slash b (if p = 0 then 1 else p + 7) (drop m rest)"
    using running_intros(3,4) [OF w] p(3,4) by (auto simp: assms(5) e)
  then show ?thesis using t p assms(5) by (intro exI [of _ m] exI [of _ b] exI [of _ "if p = 0 then 1 else p + 7"]) (auto simp: after_fields_def)
qed

lemma member_named:
  assumes "\<not> jc_undefined c" "name_ok (jc_field c)" "jc_iterator c < length (jc_members c)"
    and "fst (jc_members c ! jc_iterator c) = json_content k" "holds (snd (jc_members c ! jc_iterator c)) v"
    and "list_all2 (member_holds holds is_set) (drop (Suc (jc_iterator c)) (jc_members c)) later"
    and "fields_ready ready slash ((k, Some v) # later)"
  shows "running slash (name_member c) 7 (field_json json slash (k, v) @ after_fields json slash (present later))"
proof -
  let ?b = "name_member c"
  have r: "name_ready slash k" "ready v" "fields_ready ready slash later" using assms(7) by auto
  have b: "jc_field ?b = string_assign (json_content k) (jc_field c)" "jc_members ?b = jc_members c" "jc_iterator ?b = jc_iterator c"
    "jc_current ?b = Name_element" "jc_undefined ?b = jc_undefined c"
    using assms(4) by (simp_all add: name_member_def)
  have w: "at_work slash ?b later" using assms(1-3,6) r by (simp add: at_work_def writing_at_def b)
  have "string_holds (jc_field ?b) k" using name_assigned [OF assms(2)] r(1) by (simp add: b name_ready_def)
  then have "string_writes slash (jc_field ?b) 0 (json_text slash k)" using r(1) by (intro quoted.writes_start) (simp_all add: name_ready_def)
  from running_intros(2) [OF w b(4) _ r(2) this] assms(5) show ?thesis by (simp add: b field_json_def)
qed

lemma all_set: "\<forall>e v. holds e v \<longrightarrow> is_set e"
  using field_set by blast

lemma next_member:
  assumes "\<not> jc_undefined c" "name_ok (jc_field c)" "jc_iterator c = skip_unset is_set (jc_members c) i"
    and "list_all2 (member_holds holds is_set) (drop i (jc_members c)) kvs" "fields_ready ready slash kvs"
  shows "if present kvs = [] then length (jc_members c) \<le> jc_iterator c
    else jc_iterator c < length (jc_members c) \<and> running slash (name_member c) 7 (container_fields json slash (present kvs))"
proof (cases "present kvs = []")
  case True
  then show ?thesis using skip_unset_members [OF assms(4) all_set] assms(3) by simp
next
  case False
  let ?m = "jc_members c ! jc_iterator c"
  obtain k v skipped later where l: "kvs = skipped @ (k, Some v) # later" "present skipped = []" "jc_iterator c < length (jc_members c)"
    "fst ?m = json_content k" "holds (snd ?m) v"
    "list_all2 (member_holds holds is_set) (drop (Suc (jc_iterator c)) (jc_members c)) later"
    using skip_unset_members [OF assms(4) all_set] False unfolding assms(3) by auto
  have "fields_ready ready slash ((k, Some v) # later)" using assms(5) by (simp add: l(1))
  from member_named [OF assms(1,2) l(3-6) this] False show ?thesis using l(1-3) by simp
qed

lemma between_turn:
  assumes "running slash c 1 rest"
  shows "\<exists>n c' goes. container_write_turn ser is_set slash c room 1 = (take n rest, c', goes) \<and> n < length rest \<and> n \<le> 1 \<and>
    (case goes of None \<Rightarrow> n = 0 \<and> \<not> jc_undefined c' \<and> name_ok (jc_field c') \<and> rest = [125]
      | Some p \<Rightarrow> n = 1 \<and> p = 7 \<and> running slash c' p (drop n rest))"
  using assms
proof (cases rule: running_cases)
  case (name_done later v)
  obtain b where b: "b = c\<lparr>jc_current := Member_element (jc_iterator c)\<rparr>" by blast
  have w: "at_work slash b later" "jc_current b = Member_element (jc_iterator b)"
    using name_done(1) by (simp_all add: at_work_def writing_at_def b)
  have "writes (snd (jc_members b ! jc_iterator b)) 0 (json v)" using writes_start name_done(3,4) by (simp add: b)
  from running_intros(4) [OF w this] have "running slash b 7 (drop 1 rest)" by (simp add: name_done(6))
  then show ?thesis using name_done(2,6) by (intro exI [of _ 1] exI [of _ b] exI [of _ "Some 7"]) (simp add: container_write_turn_def b)
next
  case (value_done later)
  obtain b where b: "b = c\<lparr>jc_iterator := skip_unset is_set (jc_members c) (jc_iterator c + 1)\<rparr>" by blast
  have w: "\<not> jc_undefined b" "name_ok (jc_field b)" "jc_iterator b = skip_unset is_set (jc_members b) (Suc (jc_iterator c))"
    "list_all2 (member_holds holds is_set) (drop (Suc (jc_iterator c)) (jc_members b)) later" "fields_ready ready slash later"
    using value_done(1) by (simp_all add: at_work_def writing_at_def b)
  have t: "container_write_turn ser is_set slash c room 1 =
    (if jc_iterator b < length (jc_members b) then ([44], name_member b, Some 7) else ([], b, None))"
    using value_done(2) by (simp add: container_write_turn_def find_next_def b Let_def)
  show ?thesis
  proof (cases "present later")
    case Nil
    then show ?thesis using next_member [OF w] t w(1,2) value_done(4) by (intro exI [of _ 0] exI [of _ b] exI [of _ None]) simp
  next
    case (Cons kv kvs)
    then have "rest = 44 # container_fields json slash (present later)" using value_done(4) by simp
    then show ?thesis using next_member [OF w] t Cons
      by (intro exI [of _ 1] exI [of _ "name_member b"] exI [of _ "Some 7"]) (simp add: container_fields_def field_json_def)
  qed
qed auto

lemma container_turn:
  assumes "running slash c pos rest" "0 < room" "top + 7 < 2 ^ 32"
  shows "\<exists>n c' goes. container_write_turn ser is_set slash c room pos = (take n rest, c', goes) \<and> n < length rest \<and> n \<le> room \<and>
    (case goes of None \<Rightarrow> \<not> jc_undefined c' \<and> name_ok (jc_field c') \<and> drop n rest = [125]
      | Some p \<Rightarrow> running slash c' p (drop n rest) \<and> (n = room \<or> 2 * (room - n) + busy p < 2 * room + busy pos))"
proof -
  consider "pos = 1" | "7 \<le> pos" using assms(1) by (auto elim: running_cases)
  then show ?thesis
  proof cases
    case 1
    with between_turn [of slash c rest room] assms(1) obtain n c' goes where
      t: "container_write_turn ser is_set slash c room 1 = (take n rest, c', goes)" "n < length rest" "n \<le> 1"
      "case goes of None \<Rightarrow> n = 0 \<and> \<not> jc_undefined c' \<and> name_ok (jc_field c') \<and> rest = [125]
        | Some p \<Rightarrow> n = 1 \<and> p = 7 \<and> running slash c' p (drop n rest)"
      by auto
    show ?thesis using t 1 assms(2)
      by (intro exI [of _ n] exI [of _ c'] exI [of _ goes]) (auto simp: busy_def split: option.splits)
  next
    case 2
    have "\<exists>n c' p. container_write_turn ser is_set slash c room pos = (take n rest, c', Some p) \<and> n < length rest \<and> n \<le> room \<and>
      running slash c' p (drop n rest) \<and> (n = room \<or> p = 1)"
      using assms(1)
    proof (cases rule: running_cases)
      case (name later v r)
      from name_turn [OF name assms(2)] show ?thesis .
    next
      case (val later r)
      from value_turn [OF val assms(2,3)] show ?thesis .
    qed (use 2 in auto)
    then obtain n c' p where t: "container_write_turn ser is_set slash c room pos = (take n rest, c', Some p)" "n < length rest" "n \<le> room"
      "running slash c' p (drop n rest)" "n = room \<or> p = 1" by blast
    show ?thesis using t 2 by (intro exI [of _ n] exI [of _ c'] exI [of _ "Some p"]) (auto simp: busy_def)
  qed
qed

text \<open>The loop: \<open>room\<close> characters, or everything but the closing bracket.\<close>

lemma container_write_None [simp]: "container_write ser is_set slash turns c room None = ([], c, None)"
  by (cases turns) simp_all

lemma container_write_running:
  assumes "running slash c pos rest" "top + 7 < 2 ^ 32" "2 * room + busy pos < turns"
  shows "\<exists>n c' goes. container_write ser is_set slash turns c room (Some pos) = (take n rest, c', goes) \<and> n < length rest \<and> n \<le> room \<and>
    (case goes of None \<Rightarrow> \<not> jc_undefined c' \<and> name_ok (jc_field c') \<and> drop n rest = [125]
      | Some p \<Rightarrow> n = room \<and> running slash c' p (drop n rest))"
  using assms(1,3)
proof (induction turns arbitrary: c pos rest room)
  case (Suc turns)
  have rest: "0 < length rest" using Suc.prems(1) by (cases rule: running_cases) simp_all
  show ?case
  proof (cases "room = 0")
    case True
    then show ?thesis using Suc.prems(1) rest by (intro exI [of _ 0] exI [of _ c] exI [of _ "Some pos"]) simp
  next
    case False
    then have "0 < room" by simp
    from container_turn [OF Suc.prems(1) this assms(2)] obtain n c1 goes where
      t: "container_write_turn ser is_set slash c room pos = (take n rest, c1, goes)" "n < length rest" "n \<le> room"
      "case goes of None \<Rightarrow> \<not> jc_undefined c1 \<and> name_ok (jc_field c1) \<and> drop n rest = [125]
        | Some p \<Rightarrow> running slash c1 p (drop n rest) \<and> (n = room \<or> 2 * (room - n) + busy p < 2 * room + busy pos)"
      by blast
    have "length (take n rest) = n" using t(2) by simp
    then have step: "container_write ser is_set slash (Suc turns) c room (Some pos) =
      (case container_write ser is_set slash turns c1 (room - n) goes of (cs, c, pos) \<Rightarrow> (take n rest @ cs, c, pos))"
      using False by (simp add: t(1))
    show ?thesis
    proof (cases goes)
      case None
      then show ?thesis using step t by (intro exI [of _ n] exI [of _ c1] exI [of _ None]) simp
    next
      case (Some p)
      show ?thesis
      proof (cases "n = room")
        case True
        then have "container_write ser is_set slash turns c1 (room - n) goes = ([], c1, Some p)" using Some by (cases turns) simp_all
        then show ?thesis using step t Some True by (intro exI [of _ n] exI [of _ c1] exI [of _ "Some p"]) simp
      next
        case False
        then have "2 * (room - n) + busy p < turns" "running slash c1 p (drop n rest)" using t(4) Some Suc.prems(2) by auto
        from Suc.IH [OF this(2,1)] obtain m c2 goes' where
          m: "container_write ser is_set slash turns c1 (room - n) (Some p) = (take m (drop n rest), c2, goes')" "m < length (drop n rest)"
          "m \<le> room - n"
          "case goes' of None \<Rightarrow> \<not> jc_undefined c2 \<and> name_ok (jc_field c2) \<and> drop m (drop n rest) = [125]
            | Some q \<Rightarrow> m = room - n \<and> running slash c2 q (drop m (drop n rest))"
          by blast
        have "container_write ser is_set slash (Suc turns) c room (Some pos) = (take (n + m) rest, c2, goes')"
          unfolding step Some m(1) prod.case take_add ..
        moreover have "drop m (drop n rest) = drop (n + m) rest" by (simp add: add.commute)
        ultimately show ?thesis using m(2-4) t(3)
          by (intro exI [of _ "n + m"] exI [of _ c2] exI [of _ goes']) (auto split: option.splits)
      qed
    qed
  qed
qed simp

text \<open>A part of the text of the container, after \<open>head\<close> of it.\<close>

lemma container_serialize_running:
  assumes "running slash c pos rest" "top + 7 < 2 ^ 32" "2 * room + busy pos < turns"
  shows "\<exists>b p. (case container_write ser is_set slash turns c room (Some pos) of
      (bs, c, later) \<Rightarrow>
        (case later of
           Some pos \<Rightarrow> (head @ bs, c, pos)
         | None \<Rightarrow>
             if length (head @ bs) < length head + room then (head @ bs @ [125], c\<lparr>jc_field := string_clear (jc_field c)\<rparr>, 0)
             else (head @ bs, c, 2))) = (head @ take room rest, b, p) \<and>
    (p = 0 \<and> length rest \<le> room \<or>
     p \<noteq> 0 \<and> room \<le> length rest \<and> container_writes json holds writes ready is_set slash b p (drop room rest))"
proof -
  from container_write_running [OF assms] obtain k b goes where
    w: "container_write ser is_set slash turns c room (Some pos) = (take k rest, b, goes)" "k < length rest" "k \<le> room"
    "case goes of None \<Rightarrow> \<not> jc_undefined b \<and> name_ok (jc_field b) \<and> drop k rest = [125]
      | Some p \<Rightarrow> k = room \<and> running slash b p (drop k rest)"
    by blast
  have len: "length (take k rest) = k" using w(2) by simp
  show ?thesis
  proof (cases goes)
    case None
    then have d: "drop k rest = [125]" using w(4) by simp
    then have r: "rest = take k rest @ [125]" "length rest = Suc k"
      by (metis append_take_drop_id, metis len length_append_singleton append_take_drop_id)
    show ?thesis
    proof (cases "k < room")
      case True
      then have "take room rest = take k rest @ [125]" using r by simp
      then show ?thesis using True len r(2) by (simp add: w(1) None)
    next
      case False
      then have "k = room" using w(3) by simp
      moreover have "container_writes json holds writes ready is_set slash b 2 (drop k rest)"
        using w(4) None d by (simp add: container_writes_def)
      ultimately show ?thesis using len r(2) by (simp add: w(1) None)
    qed
  next
    case (Some p)
    then have "k = room" "running slash b p (drop room rest)" using w(4) by auto
    moreover have "p \<noteq> 0 \<and> p \<noteq> 2" using calculation(2) by (auto elim: running_cases)
    ultimately show ?thesis using w(2) by (simp add: w(1) Some container_writes_def running_def)
  qed
qed

lemma container_writes_part:
  assumes "container_writes json holds writes ready is_set slash c pos rest" "top + 7 < 2 ^ 32" "0 < n"
  shows "\<exists>b p. container_serialize ser is_set slash c n pos = (take n rest, b, p) \<and>
    (p = 0 \<and> length rest \<le> n \<or> p \<noteq> 0 \<and> n \<le> length rest \<and> container_writes json holds writes ready is_set slash b p (drop n rest))"
proof -
  consider (start) "pos = 0" | (ended) "pos = 2" | (running) "pos \<noteq> 0" "pos \<noteq> 2" by blast
  then show ?thesis
  proof cases
    case ended
    then have "rest = [125]" "\<not> jc_undefined c" using assms(1) by (simp_all add: container_writes_def)
    then show ?thesis using ended assms(3) by (simp add: container_serialize_def container_turns_def)
  next
    case running
    then have r: "running slash c pos rest" using assms(1) by (simp add: container_writes_def running_def)
    then have u: "\<not> jc_undefined c" by (auto elim!: running_cases simp: at_work_def writing_at_def)
    have "2 * n + busy pos < container_turns n" by (simp add: container_turns_def busy_def)
    from container_serialize_running [OF r assms(2) this, of "[]", unfolded append_Nil list.size add_0] u running show ?thesis
      by (simp add: container_serialize_def cong: if_cong)
  next
    case start
    then obtain kvs where k: "rest = container_json json slash kvs" "container_holds holds is_set c kvs" "fields_ready ready slash kvs"
      using assms(1) by (auto simp: container_writes_def)
    obtain b where b: "b = c\<lparr>jc_iterator := skip_unset is_set (jc_members c) 0\<rparr>" by blast
    have h: "\<not> jc_undefined b" "name_ok (jc_field b)" "jc_iterator b = skip_unset is_set (jc_members b) 0"
      "list_all2 (member_holds holds is_set) (drop 0 (jc_members b)) kvs" "present kvs \<noteq> []" "\<not> jc_undefined c"
      using k(2) by (simp_all add: container_holds_def b)
    have m: "jc_iterator b < length (jc_members b)" "running slash (name_member b) 7 (container_fields json slash (present kvs))"
      using next_member [OF h(1-4) k(3)] h(5) by simp_all
    obtain room where n: "n = Suc room" using assms(3) by (cases n) auto
    have opened: "container_open is_set c = (name_member b, Some 7)" using m(1) by (simp add: container_open_def b Let_def)
    have "2 * room + busy 7 < container_turns n" by (simp add: container_turns_def busy_def n)
    from container_serialize_running [OF m(2) assms(2) this, of "[123]"] obtain d p where
      d: "(case container_write ser is_set slash (container_turns n) (name_member b) room (Some 7) of
        (bs, c, later) \<Rightarrow>
          (case later of
             Some pos \<Rightarrow> ([123] @ bs, c, pos)
           | None \<Rightarrow>
               if length ([123] @ bs) < length [123 :: u8] + room then ([123] @ bs @ [125], c\<lparr>jc_field := string_clear (jc_field c)\<rparr>, 0)
               else ([123] @ bs, c, 2))) = ([123] @ take room (container_fields json slash (present kvs)), d, p)"
      "p = 0 \<and> length (container_fields json slash (present kvs)) \<le> room \<or>
       p \<noteq> 0 \<and> room \<le> length (container_fields json slash (present kvs)) \<and>
         container_writes json holds writes ready is_set slash d p (drop room (container_fields json slash (present kvs)))"
      by blast
    have "container_serialize ser is_set slash c n 0 = (take n rest, d, p)"
      using d(1) h(6)
      by (auto simp: container_serialize_def opened n k(1) container_json_def split: prod.splits option.splits if_splits)
    then show ?thesis using d(2) start by (simp add: n k(1) container_json_def)
  qed
qed

end

end
