(* ===== verification/Json_Container_Reading.thy ===== *)
theory Json_Container_Reading
  imports Json_Container_Writing
begin

text \<open>
  What a container reads: the object of the values, whatever the parts, into members that have been cleared. The
  members whose values are not in the text are not set in the end.
\<close>

subsection \<open>Names\<close>

lemma read_char_serialize: "read_char c s = (consumed, finished, s', error) \<Longrightarrow> js_quoted_serialize s' = js_quoted_serialize s"
  by (auto simp: read_char_def quoted_char_def opaque_char_def opaque_scope_def in_scope_def out_scope_def end_unicode_def Let_def
      split: if_splits option.splits prod.splits)

lemma read_chars_serialize: "read_chars cs s error = (n, finished, s', e) \<Longrightarrow> js_quoted_serialize s' = js_quoted_serialize s"
proof (induction cs s error arbitrary: n finished s' e rule: read_chars.induct)
  case (2 c cs s error)
  obtain consumed done_now t e1 where r: "read_char c s = (consumed, done_now, t, e1)" by (cases "read_char c s") auto
  note same = read_char_serialize [OF r]
  show ?case
  proof (cases done_now)
    case True
    then show ?thesis using "2.prems" same by (simp add: read_chars.simps(2) r)
  next
    case False
    then show ?thesis
      using "2.prems" same "2.IH" [OF r [symmetric] refl refl refl False]
      by (cases consumed) (auto simp: read_chars.simps(2) [of c cs s error] r split: prod.splits)
  qed
qed simp

lemma string_deserialize_serialize:
  assumes "string_deserialize s cs pos = (n, s', p, error)"
  shows "js_quoted_serialize s' = js_quoted_serialize s"
  using assms by (auto simp: string_deserialize_def Let_def dest!: read_chars_serialize split: prod.splits if_splits)

lemma name_part:
  assumes "string_reads slash k s pos r" "cs @ rest = r @ behind" "cs \<noteq> []" "js_quoted_serialize s"
  shows "\<exists>n s' p. string_deserialize s cs pos = (n, s', p, None) \<and> 0 < n \<and> n \<le> length cs \<and> name_ok s' \<and> is_quoted s' \<and>
    (p = 0 \<and> string_holds s' k \<and> drop n cs @ rest = behind \<or>
     p \<noteq> 0 \<and> n = length cs \<and> (\<exists>r'. string_reads slash k s' p r' \<and> rest = r' @ behind))"
  using assms(2)
proof (cases rule: cut_text)
  case (inside us)
  then have "string_reads slash k s pos (cs @ us)" using assms(1) by simp
  from string_reads_part [OF this assms(3)] obtain s' p where
    d: "string_deserialize s cs pos = (length cs, s', p, None)" "p = 0 \<and> us = [] \<and> string_holds s' k \<or> p \<noteq> 0 \<and> string_reads slash k s' p us"
    by blast
  have "\<not> js_null s'" using d(2) by (auto simp: string_holds_def string_reads_def is_quoted_def)
  then have "name_ok s'" "is_quoted s'"
    using string_deserialize_serialize [OF d(1)] assms(4) by (simp_all add: name_ok_def is_quoted_def)
  then show ?thesis using d inside assms(3) by auto
next
  case (beyond us)
  obtain s' where d: "string_deserialize s cs pos = (length r, s', 0, None)" "string_holds s' k"
    using string_reads_whole [OF assms(1), of us] beyond(1) by auto
  have "name_ok s'" "is_quoted s'"
    using string_deserialize_serialize [OF d(1)] assms(4) d(2) by (auto simp: name_ok_def is_quoted_def string_holds_def)
  then show ?thesis using d beyond string_reads_not_Nil [OF assms(1)] by simp
qed

lemma name_value: "string_holds s k \<Longrightarrow> name_ok s \<Longrightarrow> 0 \<notin> set (json_content k) \<Longrightarrow> string_value s = json_content k"
  by (auto simp: string_value_def string_holds_def name_ok_def c_str_def takeWhile_eq_all_conv)

subsection \<open>What is expected\<close>

text \<open>A member that is still to be read, or to be left alone.\<close>

definition member_waits ::
  "('v \<Rightarrow> u8 list) \<Rightarrow> ('v \<Rightarrow> 'e \<Rightarrow> nat \<Rightarrow> u8 list \<Rightarrow> bool) \<Rightarrow> ('e \<Rightarrow> bool) \<Rightarrow> u8 list \<times> 'e \<Rightarrow> u32 list \<times> 'v option \<Rightarrow> bool" where
  "member_waits json reads is_set m kv \<longleftrightarrow> fst m = json_content (fst kv) \<and> \<not> is_set (snd m) \<and>
     (\<forall>v. snd kv = Some v \<longrightarrow> reads v (snd m) 0 (json v))"

definition container_ready :: "('v \<Rightarrow> bool) \<Rightarrow> bool \<Rightarrow> (u32 list \<times> 'v option) list \<Rightarrow> bool" where
  "container_ready ready slash kvs \<longleftrightarrow> fields_ready ready slash kvs \<and> distinct (map (\<lambda>kv. json_content (fst kv)) kvs) \<and> present kvs \<noteq> []"

definition container_fits :: "('e \<Rightarrow> 'v \<Rightarrow> bool) \<Rightarrow> 'e json_container \<Rightarrow> (u32 list \<times> 'v option) list \<Rightarrow> bool" where
  "container_fits fits c kvs \<longleftrightarrow> js_quoted_serialize (jc_field c) \<and> \<not> js_null (jc_field c) \<and>
     list_all2 (\<lambda>m kv. fst m = json_content (fst kv) \<and> (\<forall>v. snd kv = Some v \<longrightarrow> fits (snd m) v)) (jc_members c) kvs"

text \<open>The stage that an offset stands for, with the members before and behind the one at work.\<close>

datatype 'v reading_stage = Before | Behind | In_name "u32 list" 'v "u8 list" | Colon "u32 list" 'v | Value "u32 list" 'v | In_value "u32 list" 'v "u8 list"

fun stage_member :: "'v reading_stage \<Rightarrow> (u32 list \<times> 'v option) list" where
  "stage_member Before = []"
| "stage_member Behind = []"
| "stage_member (In_name k v r) = [(k, Some v)]"
| "stage_member (Colon k v) = [(k, Some v)]"
| "stage_member (Value k v) = [(k, Some v)]"
| "stage_member (In_value k v r) = [(k, Some v)]"

fun stage_text :: "('v \<Rightarrow> u8 list) \<Rightarrow> bool \<Rightarrow> (u32 list \<times> 'v) list \<Rightarrow> 'v reading_stage \<Rightarrow> u8 list" where
  "stage_text json slash kvs Before = container_fields json slash kvs"
| "stage_text json slash kvs Behind = after_fields json slash kvs"
| "stage_text json slash kvs (In_name k v r) = r @ 58 # json v @ after_fields json slash kvs"
| "stage_text json slash kvs (Colon k v) = 58 # json v @ after_fields json slash kvs"
| "stage_text json slash kvs (Value k v) = json v @ after_fields json slash kvs"
| "stage_text json slash kvs (In_value k v r) = r @ after_fields json slash kvs"

fun stage_state ::
  "('v \<Rightarrow> u8 list) \<Rightarrow> ('v \<Rightarrow> 'e \<Rightarrow> nat \<Rightarrow> u8 list \<Rightarrow> bool) \<Rightarrow> ('e \<Rightarrow> bool) \<Rightarrow> bool \<Rightarrow>
    'e json_container \<Rightarrow> nat \<Rightarrow> nat \<Rightarrow> 'v reading_stage \<Rightarrow> bool" where
  "stage_state json reads is_set slash c i pos Before \<longleftrightarrow> pos = 3 \<and> \<not> js_set (jc_field c)"
| "stage_state json reads is_set slash c i pos Behind \<longleftrightarrow> pos = 5 \<and> \<not> js_set (jc_field c)"
| "stage_state json reads is_set slash c i pos (In_name k v r) \<longleftrightarrow> 7 \<le> pos \<and> jc_current c = No_element \<and>
     string_reads slash k (jc_field c) (pos - 7) r \<and> member_waits json reads is_set (jc_members c ! i) (k, Some v)"
| "stage_state json reads is_set slash c i pos (Colon k v) \<longleftrightarrow> pos = 6 \<and> jc_current c = No_element \<and>
     string_holds (jc_field c) k \<and> member_waits json reads is_set (jc_members c ! i) (k, Some v)"
| "stage_state json reads is_set slash c i pos (Value k v) \<longleftrightarrow> pos = 4 \<and> jc_current c = No_element \<and>
     string_holds (jc_field c) k \<and> member_waits json reads is_set (jc_members c ! i) (k, Some v)"
| "stage_state json reads is_set slash c i pos (In_value k v r) \<longleftrightarrow> 7 \<le> pos \<and> jc_current c = Member_element i \<and> \<not> js_set (jc_field c) \<and>
     fst (jc_members c ! i) = json_content k \<and> reads v (snd (jc_members c ! i)) (pos - 7) r"

text \<open>\<open>before\<close> and \<open>later\<close> are the members that have been read and those that wait.\<close>

definition reading_at ::
  "('v \<Rightarrow> u8 list) \<Rightarrow> ('e \<Rightarrow> 'v \<Rightarrow> bool) \<Rightarrow> ('v \<Rightarrow> bool) \<Rightarrow> ('v \<Rightarrow> 'e \<Rightarrow> nat \<Rightarrow> u8 list \<Rightarrow> bool) \<Rightarrow> ('e \<Rightarrow> bool) \<Rightarrow> bool \<Rightarrow>
    (u32 list \<times> 'v option) list \<Rightarrow> 'e json_container \<Rightarrow> (u32 list \<times> 'v option) list \<Rightarrow> (u32 list \<times> 'v option) list \<Rightarrow> 'v reading_stage \<Rightarrow> bool" where
  "reading_at json holds ready reads is_set slash kvs c before later st \<longleftrightarrow> \<not> jc_undefined c \<and> name_ok (jc_field c) \<and>
     container_ready ready slash kvs \<and> kvs = before @ stage_member st @ later \<and> length (jc_members c) = length kvs \<and>
     list_all2 (member_holds holds is_set) (take (length before) (jc_members c)) before \<and>
     list_all2 (member_waits json reads is_set) (drop (length before + length (stage_member st)) (jc_members c)) later \<and>
     (st = Before \<longrightarrow> present later \<noteq> [])"

definition container_reading ::
  "('v \<Rightarrow> u8 list) \<Rightarrow> ('e \<Rightarrow> 'v \<Rightarrow> bool) \<Rightarrow> ('v \<Rightarrow> bool) \<Rightarrow> ('v \<Rightarrow> 'e \<Rightarrow> nat \<Rightarrow> u8 list \<Rightarrow> bool) \<Rightarrow> ('e \<Rightarrow> bool) \<Rightarrow> bool \<Rightarrow>
    (u32 list \<times> 'v option) list \<Rightarrow> 'e json_container \<Rightarrow> nat \<Rightarrow> u8 list \<Rightarrow> bool" where
  "container_reading json holds ready reads is_set slash kvs c pos body \<longleftrightarrow>
     (\<exists>before later st. reading_at json holds ready reads is_set slash kvs c before later st \<and>
        stage_state json reads is_set slash c (length before) pos st \<and> body = stage_text json slash (present later) st)"

definition container_reads ::
  "('v \<Rightarrow> u8 list) \<Rightarrow> ('e \<Rightarrow> 'v \<Rightarrow> bool) \<Rightarrow> ('v \<Rightarrow> bool) \<Rightarrow> ('v \<Rightarrow> 'e \<Rightarrow> nat \<Rightarrow> u8 list \<Rightarrow> bool) \<Rightarrow> ('e \<Rightarrow> bool) \<Rightarrow> bool \<Rightarrow>
    (u32 list \<times> 'v option) list \<Rightarrow> 'e json_container \<Rightarrow> nat \<Rightarrow> u8 list \<Rightarrow> bool" where
  "container_reads json holds ready reads is_set slash kvs c pos body \<longleftrightarrow>
     (if pos = 0 then body = container_json json slash kvs \<and> \<not> jc_undefined c \<and> js_quoted_serialize (jc_field c) \<and>
        container_ready ready slash kvs \<and> list_all2 (member_waits json reads is_set) (jc_members c) kvs
      else container_reading json holds ready reads is_set slash kvs c pos body)"

lemma container_find_label:
  assumes "list_all2 (\<lambda>m kv. fst m = json_content (fst kv)) (jc_members c) kvs" "distinct (map (\<lambda>kv. json_content (fst kv)) kvs)"
    and "kvs = before @ (k, vo) # later"
  shows "container_find (json_content k) c = Some (length before)"
proof -
  let ?label = "\<lambda>m. json_content k \<noteq> fst m"
  have labels: "map fst (jc_members c) = map (\<lambda>kv. json_content (fst kv)) kvs"
    using assms(1) by (induction rule: list_all2_induct) auto
  obtain ms1 m ms2 where ms: "jc_members c = ms1 @ m # ms2" "map fst ms1 = map (\<lambda>kv. json_content (fst kv)) before" "fst m = json_content k"
    using labels unfolding assms(3) by (auto simp: map_eq_append_conv map_eq_Cons_conv)
  have "json_content k \<notin> fst ` set ms1"
    using assms(2) ms(2) unfolding assms(3) by (metis (no_types, lifting) distinct.simps(2) distinct_append fst_conv image_set list.simps(9) map_append not_distinct_conv_prefix)
  then have "takeWhile ?label (jc_members c) = ms1" unfolding ms(1) by (subst takeWhile_append2) (auto simp: ms(3))
  moreover have "length ms1 = length before" using arg_cong [OF ms(2), of length] by simp
  ultimately show ?thesis by (simp add: container_find_def ms(1))
qed

context json_field
begin

definition reading :: "bool \<Rightarrow> (u32 list \<times> 'v option) list \<Rightarrow> 'e json_container \<Rightarrow> nat \<Rightarrow> u8 list \<Rightarrow> bool" where
  "reading slash = container_reading json holds ready reads is_set slash"

definition placed :: "bool \<Rightarrow> (u32 list \<times> 'v option) list \<Rightarrow> 'e json_container \<Rightarrow> (u32 list \<times> 'v option) list \<Rightarrow>
    (u32 list \<times> 'v option) list \<Rightarrow> 'v reading_stage \<Rightarrow> bool" where
  "placed slash = reading_at json holds ready reads is_set slash"

abbreviation state_of :: "bool \<Rightarrow> 'e json_container \<Rightarrow> nat \<Rightarrow> nat \<Rightarrow> 'v reading_stage \<Rightarrow> bool" where
  "state_of slash \<equiv> stage_state json reads is_set slash"

lemma readingI:
  "placed slash kvs c before later st \<Longrightarrow> state_of slash c (length before) pos st \<Longrightarrow> reading slash kvs c pos (stage_text json slash (present later) st)"
  unfolding reading_def container_reading_def placed_def by blast

lemma readingE:
  assumes "reading slash kvs c pos body"
  obtains before later st where "placed slash kvs c before later st" "state_of slash c (length before) pos st"
    "body = stage_text json slash (present later) st"
  using assms unfolding reading_def container_reading_def placed_def by blast

lemma name_item:
  assumes "placed slash kvs c before later (In_name k v r)" "state_of slash c (length before) pos (In_name k v r)"
    and "cs @ rest = stage_text json slash (present later) (In_name k v r) @ beyond" "cs \<noteq> []"
  shows "\<exists>n c' p body. container_item des cs c pos = (n, c', p, None) \<and> 0 < n \<and> n \<le> length cs \<and>
    reading slash kvs c' p body \<and> drop n cs @ rest = body @ beyond \<and> (p = 6 \<or> 7 < p \<and> n = length cs)"
proof -
  have a: "string_reads slash k (jc_field c) (pos - 7) r" "jc_current c = No_element" "name_ok (jc_field c)"
    using assms(1,2) by (simp_all add: placed_def reading_at_def)
  have "cs @ rest = r @ stage_text json slash (present later) (Colon k v) @ beyond" using assms(3) by simp
  from name_part [OF a(1) this assms(4)] a(3) obtain n s p where
    d: "string_deserialize (jc_field c) cs (pos - 7) = (n, s, p, None)" "0 < n" "n \<le> length cs" "name_ok s" "is_quoted s"
      "p = 0 \<and> string_holds s k \<and> drop n cs @ rest = stage_text json slash (present later) (Colon k v) @ beyond \<or>
       p \<noteq> 0 \<and> n = length cs \<and> (\<exists>r'. string_reads slash k s p r' \<and> rest = r' @ stage_text json slash (present later) (Colon k v) @ beyond)"
    by (auto simp: name_ok_def)
  obtain b where b: "b = c\<lparr>jc_field := s\<rparr>" by blast
  have t: "container_item des cs c pos = (n, b, if p = 0 then 6 else (p + 7) mod 2 ^ 32, None)"
    using a(2) d(1,5) by (simp add: container_item_def b)
  show ?thesis
  proof (cases "p = 0")
    case True
    have "placed slash kvs b before later (Colon k v)" using assms(1) d(4) by (auto simp: placed_def reading_at_def b)
    moreover have "state_of slash b (length before) 6 (Colon k v)" using assms(2) d(6) True by (simp add: b)
    ultimately have "reading slash kvs b 6 (stage_text json slash (present later) (Colon k v))" by (rule readingI)
    then show ?thesis using t d(2,3,6) True by auto
  next
    case False
    then obtain r' where r: "string_reads slash k s p r'" "rest = r' @ stage_text json slash (present later) (Colon k v) @ beyond" "n = length cs"
      using d(6) by blast
    have "(p + 7) mod 2 ^ 32 = p + 7" using quoted.reads_top [OF r(1)] by simp
    moreover have "placed slash kvs b before later (In_name k v r')" using assms(1) d(4) by (auto simp: placed_def reading_at_def b)
    moreover have "state_of slash b (length before) (p + 7) (In_name k v r')" using assms(2) r(1) by (simp add: b)
    ultimately show ?thesis using readingI [of slash kvs b before later "In_name k v r'" "p + 7"] t d(2,3) r(2,3) False by auto
  qed
qed

lemma value_item:
  assumes "placed slash kvs c before later (In_value k v r)" "state_of slash c (length before) pos (In_value k v r)"
    and "cs @ rest = stage_text json slash (present later) (In_value k v r) @ beyond" "cs \<noteq> []" "top + 7 < 2 ^ 32"
  shows "\<exists>n c' p body. container_item des cs c pos = (n, c', p, None) \<and> n \<le> length cs \<and>
    reading slash kvs c' p body \<and> drop n cs @ rest = body @ beyond \<and> (p = 5 \<and> n = length r \<or> 7 < p \<and> n = length cs)"
proof -
  let ?i = "length before" and ?ms = "jc_members c"
  have a: "reads v (snd (?ms ! ?i)) (pos - 7) r" "jc_current c = Member_element ?i" "fst (?ms ! ?i) = json_content k"
    "name_ok (jc_field c)" "?i < length ?ms" "\<not> js_set (jc_field c)"
    using assms(1,2) by (simp_all add: placed_def reading_at_def)
  obtain t ts where after: "after_fields json slash (present later) = t # ts" "ends_value t" using after_fields_begins by blast
  have "cs @ rest = r @ t # (ts @ beyond)" using assms(3) after(1) by simp
  from item_part [OF a(1) this after(2) assms(4)] obtain n e p where
    d: "des (snd (?ms ! ?i)) cs (pos - 7) = (n, e, p, None)" "n \<le> length cs"
      "p = 0 \<and> holds e v \<and> n = length r \<and> drop n cs @ rest = t # ts @ beyond \<or>
       p \<noteq> 0 \<and> n = length cs \<and> (\<exists>r'. reads v e p r' \<and> rest = r' @ t # ts @ beyond)"
    by auto
  obtain b where b: "b = c\<lparr>jc_members := ?ms[?i := (fst (?ms ! ?i), e)], jc_field := if p = 0 then string_clear (jc_field c) else jc_field c\<rparr>"
    by blast
  have t: "container_item des cs c pos = (n, b, if p = 0 then 5 else (p + 7) mod 2 ^ 32, None)"
    using a(2) d(1) by (simp add: container_item_def b)
  have n: "name_ok (jc_field b)" "\<not> js_set (jc_field b)" using a(4,6) by (auto simp: b name_ok_def string_clear_def)
  have m: "jc_members b ! ?i = (json_content k, e)" "length (jc_members b) = length ?ms" "take ?i (jc_members b) = take ?i ?ms"
    "drop (Suc ?i) (jc_members b) = drop (Suc ?i) ?ms" "take (Suc ?i) (jc_members b) = take ?i ?ms @ [(json_content k, e)]"
    using a(3,5) by (simp_all add: b take_Suc_conv_app_nth)
  show ?thesis
  proof (cases "p = 0")
    case True
    then have "holds e v" using d(3) by simp
    then have "list_all2 (member_holds holds is_set) (take (Suc ?i) (jc_members b)) (before @ [(k, Some v)])"
      using assms(1) by (simp add: m(5) placed_def reading_at_def member_holds_def list_all2_appendI)
    then have "placed slash kvs b (before @ [(k, Some v)]) later Behind"
      using assms(1) n(1) m(2,4) by (auto simp: placed_def reading_at_def b)
    moreover have "state_of slash b (length (before @ [(k, Some v)])) 5 Behind" using n(2) by simp
    ultimately have "reading slash kvs b 5 (stage_text json slash (present later) Behind)" by (rule readingI)
    then show ?thesis using t d(2,3) True after(1) by auto
  next
    case False
    then obtain r' where r: "reads v e p r'" "rest = r' @ t # ts @ beyond" "n = length cs" using d(3) by blast
    have "(p + 7) mod 2 ^ 32 = p + 7" using reads_limit [OF r(1)] assms(5) by simp
    moreover have "placed slash kvs b before later (In_value k v r')"
      using assms(1) n(1) m(2-4) by (auto simp: placed_def reading_at_def b)
    moreover have "state_of slash b ?i (p + 7) (In_value k v r')" using a(2,3) r(1) n(2) m(1) by (simp add: b)
    ultimately show ?thesis using readingI [of slash kvs b before later "In_value k v r'" "p + 7"] t d(2) r(2,3) False after(1) by auto
  qed
qed

lemma waits_holds: "list_all2 (member_waits json reads is_set) ms kvs \<Longrightarrow> present kvs = [] \<Longrightarrow> list_all2 (member_holds holds is_set) ms kvs"
proof (induction rule: list_all2_induct)
  case (Cons m ms kv kvs)
  then show ?case by (cases kv; cases "snd kv") (auto simp: member_waits_def member_holds_def)
qed simp

lemma placed_ready:
  assumes "placed slash kvs c before later st" "stage_member st = [(k, Some v)]"
  shows "name_ready slash k" "ready v"
  using assms by (auto simp: placed_def reading_at_def container_ready_def)

lemma placed_label:
  assumes "placed slash kvs c before later st" "stage_member st = [(k, Some v)]" "fst (jc_members c ! length before) = json_content k"
  shows "container_find (json_content k) c = Some (length before)"
proof (rule container_find_label)
  let ?b = "length before" and ?P = "\<lambda>m kv. fst m = json_content (fst kv)"
  have a: "kvs = before @ (k, Some v) # later" "?b < length (jc_members c)" "list_all2 ?P (take ?b (jc_members c)) before"
    "list_all2 ?P (drop (Suc ?b) (jc_members c)) later"
    using assms(1,2) by (auto simp: placed_def reading_at_def member_holds_def member_waits_def elim: list_all2_mono)
  then have "list_all2 ?P (take ?b (jc_members c) @ jc_members c ! ?b # drop (Suc ?b) (jc_members c)) kvs"
    using assms(3) by (simp add: list_all2_appendI)
  then show "list_all2 ?P (jc_members c) kvs" using a(2) by (simp add: id_take_nth_drop [symmetric])
  show "kvs = before @ (k, Some v) # later" by (rule a(1))
  show "distinct (map (\<lambda>kv. json_content (fst kv)) kvs)" 
    using assms(1) unfolding placed_def reading_at_def container_ready_def by blast
qed

lemma begin_name:
  assumes "placed slash kvs c before later Before" "c' = c\<lparr>jc_current := No_element\<rparr>"
  shows "\<exists>before' k v later'. placed slash kvs c' before' later' (In_name k v (json_text slash k)) \<and>
    state_of slash c' (length before') 7 (In_name k v (json_text slash k)) \<and>
    container_fields json slash (present later) = stage_text json slash (present later') (In_name k v (json_text slash k))"
proof -
  let ?b = "length before"
  obtain k v ps where p: "present later = (k, v) # ps" using assms(1) by (cases "present later") (auto simp: placed_def reading_at_def)
  from present_Cons [OF p] obtain skipped later' where l: "later = skipped @ (k, Some v) # later'" "present skipped = []" "present later' = ps"
    by blast
  have a: "list_all2 (member_holds holds is_set) (take ?b (jc_members c)) before" "kvs = before @ later" "length (jc_members c) = length kvs"
    "list_all2 (member_waits json reads is_set) (drop ?b (jc_members c)) later" "name_ok (jc_field c)" "container_ready ready slash kvs"
    using assms(1) by (auto simp: placed_def reading_at_def)
  obtain us m ws where ms: "drop ?b (jc_members c) = us @ m # ws" "list_all2 (member_waits json reads is_set) us skipped"
    "member_waits json reads is_set m (k, Some v)" "list_all2 (member_waits json reads is_set) ws later'"
    using a(4) unfolding l(1) by (auto simp: list_all2_append2 list_all2_Cons2)
  have members: "jc_members c = take ?b (jc_members c) @ us @ m # ws" using ms(1) by (metis append_take_drop_id)
  have len: "length (take ?b (jc_members c)) = ?b" "length us = length skipped" "?b \<le> length (jc_members c)"
    using a(2,3) list_all2_lengthD [OF ms(2)] by simp_all
  have "list_all2 (member_holds holds is_set) (take ?b (jc_members c) @ us) (before @ skipped)"
    using a(1) waits_holds [OF ms(2) l(2)] by (rule list_all2_appendI)
  moreover have "take (?b + length skipped) (jc_members c) = take ?b (jc_members c) @ us"
    by (subst members) (simp add: len)
  moreover have "drop (Suc (?b + length skipped)) (jc_members c) = ws" "jc_members c ! (?b + length skipped) = m"
    by (subst members, simp add: len nth_append)+
  moreover have "string_reads slash k (jc_field c) 0 (json_text slash k)"
    using a(2,5,6) by (auto simp: string_reads_def name_ok_def container_ready_def l(1) name_ready_def)
  ultimately show ?thesis using assms(1) ms(3,4)
    by (intro exI [of _ "before @ skipped"] exI [of _ k] exI [of _ v] exI [of _ later'])
      (auto simp: placed_def reading_at_def assms(2) l p field_json_def)
qed

text \<open>A turn that leaves a stage behind: \<open>n\<close> characters are used and the rest of the text is expected.\<close>

definition advances :: "bool \<Rightarrow> (u32 list \<times> 'v option) list \<Rightarrow> u8 list \<Rightarrow> u8 list \<Rightarrow> u8 list \<Rightarrow> nat \<Rightarrow>
    nat \<times> 'e json_container \<times> nat \<times> json_error option \<Rightarrow> bool" where
  "advances slash kvs cs rest beyond pos result \<longleftrightarrow>
     (case result of (n, c, p, error) \<Rightarrow>
        error = None \<and> n \<le> length cs \<and> 2 * length (drop n cs) + busy p < 2 * length cs + busy pos \<and>
        (\<exists>body. reading slash kvs c p body \<and> drop n cs @ rest = body @ beyond))"

lemma advances_item:
  "advances slash kvs cs rest beyond pos (n, c, p, None)"
  if "n \<le> length cs" "reading slash kvs c p body" "drop n cs @ rest = body @ beyond" "0 < n \<or> 7 \<le> pos \<and> p < 7"
proof -
  have "2 * length (drop n cs) + busy p < 2 * length cs + busy pos"
  proof (cases "0 < n")
    case True
    have "2 * length (drop n cs) + 2 \<le> 2 * length cs" using True that(1) by simp
    moreover have "busy p \<le> 1" by (simp add: busy_def)
    ultimately show ?thesis by linarith
  next
    case False
    then show ?thesis using that(4) by (simp add: busy_def)
  qed
  then show ?thesis using that by (auto simp: advances_def)
qed

lemma busy_turn: "7 \<le> pos \<Longrightarrow> container_read_turn des cs c pos = container_item des cs c pos"
  by (simp add: container_read_turn_def split: prod.splits)

lemma begin_turn:
  assumes "3 \<le> pos" "pos \<le> 6" "cs = ch # cs'" "\<not> is_space ch" "container_between ch c pos = (0, b, 7, None)"
  shows "container_read_turn des cs c pos = container_item des cs b 7"
  using assms by (simp add: container_read_turn_def split: prod.splits)

lemma skip_turn:
  assumes "3 \<le> pos" "pos \<le> 6" "cs = ch # cs'" "\<not> is_space ch" "container_between ch c pos = (n, b, p, None)" "p < 7"
  shows "container_read_turn des cs c pos = (n, b, p, None)"
  using assms by (simp add: container_read_turn_def)

lemma turn_before:
  assumes "placed slash kvs c before later Before" "state_of slash c (length before) pos Before"
    and "cs @ rest = stage_text json slash (present later) Before @ beyond" "cs \<noteq> []"
  shows "advances slash kvs cs rest beyond pos (container_read_turn des cs c pos)"
proof -
  obtain b where b: "b = c\<lparr>jc_current := No_element\<rparr>" by blast
  from begin_name [OF assms(1) b] obtain before' k v later' where
    n: "placed slash kvs b before' later' (In_name k v (json_text slash k))"
      "state_of slash b (length before') 7 (In_name k v (json_text slash k))"
      "container_fields json slash (present later) = stage_text json slash (present later') (In_name k v (json_text slash k))"
    by blast
  have p: "pos = 3" "\<not> js_set (jc_field c)" using assms(2) by simp_all
  obtain cs' where c: "cs = 34 # cs'" using assms(3,4) n(3) by (cases cs) (auto simp: json_text_def)
  have "cs @ rest = stage_text json slash (present later') (In_name k v (json_text slash k)) @ beyond" using assms(3) n(3) by simp
  from name_item [OF n(1,2) this assms(4)] obtain m c' q body where
    i: "container_item des cs b 7 = (m, c', q, None)" "0 < m" "m \<le> length cs" "reading slash kvs c' q body" "drop m cs @ rest = body @ beyond"
    by blast
  have "container_between 34 c pos = (0, b, 7, None)" using p by (simp add: container_between_def b)
  then have "container_read_turn des cs c pos = (m, c', q, None)"
    using begin_turn [OF _ _ c, of pos c b] p(1) i(1) by (simp add: is_space_def)
  then show ?thesis using advances_item i(2-5) by simp
qed

lemma turn_colon:
  assumes "placed slash kvs c before later (Colon k v)" "state_of slash c (length before) pos (Colon k v)"
    and "cs @ rest = stage_text json slash (present later) (Colon k v) @ beyond" "cs \<noteq> []"
  shows "advances slash kvs cs rest beyond pos (container_read_turn des cs c pos)"
proof -
  have p: "pos = 6" "js_set (jc_field c)" using assms(2) by (simp_all add: string_holds_def)
  obtain cs' where c: "cs = 58 # cs'" using assms(3,4) by (cases cs) auto
  have "container_between 58 c pos = (1, c, 4, None)" using p by (simp add: container_between_def)
  then have t: "container_read_turn des cs c pos = (1, c, 4, None)"
    using skip_turn [OF _ _ c, of pos c 1 c 4] p(1) by (simp add: is_space_def)
  have "placed slash kvs c before later (Value k v)" using assms(1) by (auto simp: placed_def reading_at_def)
  moreover have "state_of slash c (length before) 4 (Value k v)" using assms(2) by simp
  ultimately have "reading slash kvs c 4 (stage_text json slash (present later) (Value k v))" by (rule readingI)
  then show ?thesis using assms(3) unfolding t by (intro advances_item) (auto simp: c)
qed

lemma turn_value:
  assumes "placed slash kvs c before later (Value k v)" "state_of slash c (length before) pos (Value k v)"
    and "cs @ rest = stage_text json slash (present later) (Value k v) @ beyond" "cs \<noteq> []" "top + 7 < 2 ^ 32"
  shows "advances slash kvs cs rest beyond pos (container_read_turn des cs c pos)"
proof -
  have p: "pos = 4" "string_holds (jc_field c) k" "jc_current c = No_element" "js_set (jc_field c)"
    "member_waits json reads is_set (jc_members c ! length before) (k, Some v)"
    using assms(2) by (simp_all add: string_holds_def)
  have r: "name_ready slash k" "ready v" using placed_ready [OF assms(1)] by simp_all
  obtain ch js where j: "json v = ch # js" "\<not> ends_value ch" "ch \<noteq> 58" using json_begins [OF r(2)] no_colon [OF r(2)] by auto
  then obtain cs' where c: "cs = ch # cs'" using assms(3,4) by (cases cs) auto
  have nk: "name_ok (jc_field c)" using assms(1) by (simp add: placed_def reading_at_def)
  have value_of: "string_value (jc_field c) = json_content k" using name_value [OF p(2) nk] r(1) by (simp add: name_ready_def)
  have "fst (jc_members c ! length before) = json_content k" using p(5) by (simp add: member_waits_def)
  then have find: "container_find (json_content k) c = Some (length before)" using placed_label [OF assms(1)] by simp
  obtain b where b: "b = c\<lparr>jc_field := string_clear (jc_field c), jc_current := Member_element (length before)\<rparr>" by blast
  have "container_between ch c pos = (0, b, 7, None)"
    using p(1,3,4) j(2,3) by (auto simp: container_between_def value_of find b ends_value_def)
  moreover have "\<not> is_space ch" using j(2) by (simp add: ends_value_def)
  ultimately have t: "container_read_turn des cs c pos = container_item des cs b 7" using begin_turn [OF _ _ c] p(1) by simp
  have "placed slash kvs b before later (In_value k v (json v))"
    using assms(1) nk by (auto simp: placed_def reading_at_def b name_ok_def string_clear_def)
  moreover have "state_of slash b (length before) 7 (In_value k v (json v))"
    using p(5) by (simp add: b member_waits_def string_clear_def)
  moreover have "cs @ rest = stage_text json slash (present later) (In_value k v (json v)) @ beyond" using assms(3) by simp
  ultimately obtain n c' q body where
    "container_item des cs b 7 = (n, c', q, None)" "n \<le> length cs" "reading slash kvs c' q body" "drop n cs @ rest = body @ beyond"
    "q = 5 \<and> n = length (json v) \<or> 7 < q \<and> n = length cs"
    using value_item [OF _ _ _ assms(4,5)] by blast
  then show ?thesis unfolding t using advances_item by (auto simp: j(1) c)
qed

lemma turn_behind:
  assumes "placed slash kvs c before later Behind" "state_of slash c (length before) pos Behind"
    and "cs @ rest = stage_text json slash (present later) Behind @ beyond" "cs \<noteq> []"
  shows "(\<exists>c'. container_read_turn des cs c pos = (1, c', 0, None) \<and> container_holds holds is_set c' kvs \<and>
      length (stage_text json slash (present later) Behind) = 1) \<or>
    advances slash kvs cs rest beyond pos (container_read_turn des cs c pos)"
proof (cases "present later")
  case Nil
  obtain b where b: "b = c\<lparr>jc_complete := True\<rparr>" by blast
  have p: "pos = 5" using assms(2) by simp
  obtain cs' where c: "cs = 125 # cs'" using assms(3,4) Nil by (cases cs) auto
  have "container_between 125 c pos = (1, b, 0, None)" using p by (simp add: container_between_def b)
  then have t: "container_read_turn des cs c pos = (1, b, 0, None)"
    using skip_turn [OF _ _ c, of pos c 1 b 0] p by (simp add: is_space_def)
  have a: "kvs = before @ later" "list_all2 (member_holds holds is_set) (take (length before) (jc_members c)) before"
    "list_all2 (member_waits json reads is_set) (drop (length before) (jc_members c)) later" "name_ok (jc_field c)" "\<not> jc_undefined c"
    "present kvs \<noteq> []"
    using assms(1) by (auto simp: placed_def reading_at_def container_ready_def)
  have "list_all2 (member_holds holds is_set) (take (length before) (jc_members c) @ drop (length before) (jc_members c)) kvs"
    using list_all2_appendI [OF a(2) waits_holds [OF a(3) Nil]] by (simp add: a(1))
  then have "container_holds holds is_set b kvs" using a(4-6) by (simp add: container_holds_def b)
  then show ?thesis using t Nil by simp
next
  case (Cons kv kws)
  have p: "pos = 5" "\<not> js_set (jc_field c)" using assms(2) by simp_all
  obtain cs' where c: "cs = 44 # cs'" using assms(3,4) Cons by (cases cs) auto
  have "container_between 44 c pos = (1, c, 3, None)" using p by (simp add: container_between_def)
  then have t: "container_read_turn des cs c pos = (1, c, 3, None)"
    using skip_turn [OF _ _ c, of pos c 1 c 3] p by (simp add: is_space_def)
  have "placed slash kvs c before later Before" using assms(1) Cons by (auto simp: placed_def reading_at_def)
  moreover have "state_of slash c (length before) 3 Before" using p by simp
  ultimately have "reading slash kvs c 3 (stage_text json slash (present later) Before)" by (rule readingI)
  then have "advances slash kvs cs rest beyond pos (container_read_turn des cs c pos)"
    using assms(3) Cons unfolding t by (intro advances_item) (auto simp: c)
  then show ?thesis ..
qed

lemma read_turn:
  assumes "reading slash kvs c pos body" "cs @ rest = body @ beyond" "cs \<noteq> []" "top + 7 < 2 ^ 32"
  shows "(\<exists>n c'. container_read_turn des cs c pos = (n, c', 0, None) \<and> n \<le> length cs \<and> n = length body \<and> container_holds holds is_set c' kvs) \<or>
    advances slash kvs cs rest beyond pos (container_read_turn des cs c pos)"
  using assms(1)
proof (cases rule: readingE)
  case (1 before later st)
  note text_of = assms(2) [unfolded 1(3)]
  show ?thesis
  proof (cases st)
    case Before
    show ?thesis using turn_before [OF 1(1,2) [unfolded Before] text_of [unfolded Before] assms(3)] ..
  next
    case Behind
    have "1 \<le> length cs" using assms(3) by (cases cs) auto
    then show ?thesis
      using turn_behind [OF 1(1,2) [unfolded Behind] text_of [unfolded Behind] assms(3)] by (auto simp: 1(3) Behind)
  next
    case (In_name k v r)
    have "7 \<le> pos" using 1(2) by (simp add: In_name)
    moreover from name_item [OF 1(1,2) [unfolded In_name] text_of [unfolded In_name] assms(3)] obtain n c' p body' where
      "container_item des cs c pos = (n, c', p, None)" "0 < n" "n \<le> length cs" "reading slash kvs c' p body'" "drop n cs @ rest = body' @ beyond"
      by blast
    ultimately show ?thesis using advances_item by (simp add: busy_turn)
  next
    case (Colon k v)
    show ?thesis using turn_colon [OF 1(1,2) [unfolded Colon] text_of [unfolded Colon] assms(3)] ..
  next
    case (Value k v)
    show ?thesis using turn_value [OF 1(1,2) [unfolded Value] text_of [unfolded Value] assms(3,4)] ..
  next
    case (In_value k v r)
    have "7 \<le> pos" using 1(2) by (simp add: In_value)
    moreover from value_item [OF 1(1,2) [unfolded In_value] text_of [unfolded In_value] assms(3,4)] obtain n c' p body' where
      "container_item des cs c pos = (n, c', p, None)" "n \<le> length cs" "reading slash kvs c' p body'" "drop n cs @ rest = body' @ beyond"
      "p = 5 \<and> n = length r \<or> 7 < p \<and> n = length cs"
      by blast
    moreover have "0 < length cs" using assms(3) by simp
    ultimately show ?thesis using advances_item by (auto simp: busy_turn)
  qed
qed

lemma reading_pos: "reading slash kvs c pos body \<Longrightarrow> pos \<noteq> 0"
  by (elim readingE) (rename_tac before later st, case_tac st, auto)

text \<open>The loop.\<close>

lemma container_read_part:
  assumes "reading slash kvs c pos body" "cs @ rest = body @ beyond" "top + 7 < 2 ^ 32" "2 * length cs + busy pos < turns"
  shows "\<exists>n c' p. container_read des turns cs c pos = (n, c', p, None) \<and> n \<le> length cs \<and>
    (p = 0 \<and> n = length body \<and> container_holds holds is_set c' kvs \<or>
     p \<noteq> 0 \<and> n = length cs \<and> (\<exists>body'. reading slash kvs c' p body' \<and> rest = body' @ beyond))"
  using assms(1,2,4)
proof (induction turns arbitrary: cs c pos body)
  case (Suc turns)
  have p0: "pos \<noteq> 0" using reading_pos Suc.prems(1) by blast
  show ?case
  proof (cases "cs = []")
    case True
    then show ?thesis using Suc.prems(1,2) p0 by auto
  next
    case False
    obtain n c1 p1 error where t: "container_read_turn des cs c pos = (n, c1, p1, error)" by (metis prod_cases4)
    have step: "container_read des (Suc turns) cs c pos =
      (case container_read des turns (drop n cs) c1 p1 of (m, c, pos, error) \<Rightarrow> (n + m, c, pos, error))" if "error = None"
      using False p0 that by (simp add: t)
    from read_turn [OF Suc.prems(1,2) False assms(3)] consider
      (finished) "p1 = 0" "error = None" "n \<le> length cs" "n = length body" "container_holds holds is_set c1 kvs"
      | (further) "advances slash kvs cs rest beyond pos (n, c1, p1, error)"
      unfolding t by auto
    then show ?thesis
    proof cases
      case finished
      then have "container_read des turns (drop n cs) c1 p1 = (0, c1, 0, None)" by (cases turns) simp_all
      then show ?thesis using finished unfolding step [OF finished(2)] by simp
    next
      case further
      then obtain body' where 1: "error = None" "n \<le> length cs" "2 * length (drop n cs) + busy p1 < 2 * length cs + busy pos"
        "reading slash kvs c1 p1 body'" "drop n cs @ rest = body' @ beyond" by (auto simp: advances_def)
      have "2 * length (drop n cs) + busy p1 < turns" using 1(3) Suc.prems(3) by linarith
      from Suc.IH [OF 1(4,5) this] obtain m c2 p2 where
        2: "container_read des turns (drop n cs) c1 p1 = (m, c2, p2, None)" "m \<le> length (drop n cs)"
          "p2 = 0 \<and> m = length body' \<and> container_holds holds is_set c2 kvs \<or>
           p2 \<noteq> 0 \<and> m = length (drop n cs) \<and> (\<exists>body'. reading slash kvs c2 p2 body' \<and> rest = body' @ beyond)"
        by blast
      have "n + length body' = length body"
      proof -
        have "length (drop n cs) + length rest = length body' + length beyond" using arg_cong [OF 1(5), of length] by simp
        moreover have "length cs + length rest = length body + length beyond" using arg_cong [OF Suc.prems(2), of length] by simp
        ultimately show ?thesis using 1(2) by simp
      qed
      then show ?thesis using 2 1(2) unfolding step [OF 1(1)] by auto
    qed
  qed
qed simp

lemma container_deserialize_reading:
  assumes "container_reads json holds ready reads is_set slash kvs c pos body" "cs @ rest = body @ beyond" "cs \<noteq> []" "top + 7 < 2 ^ 32"
  shows "\<exists>n c' p. container_deserialize clear des c cs pos = (n, c', p, None) \<and> n \<le> length cs \<and>
    (p = 0 \<and> n = length body \<and> container_holds holds is_set c' kvs \<or>
     p \<noteq> 0 \<and> n = length cs \<and> (\<exists>body'. reading slash kvs c' p body' \<and> rest = body' @ beyond))"
proof (cases "pos = 0")
  case False
  then have r: "reading slash kvs c pos body" using assms(1) by (simp add: container_reads_def reading_def)
  have "2 * length cs + busy pos < 2 * length cs + 2" by (simp add: busy_def)
  from container_read_part [OF r assms(2,4) this] show ?thesis using False assms(3)
    by (auto simp: container_deserialize_def Let_def simp del: container_read.simps)
next
  case True
  then have a: "body = container_json json slash kvs" "\<not> jc_undefined c" "js_quoted_serialize (jc_field c)"
    "container_ready ready slash kvs" "list_all2 (member_waits json reads is_set) (jc_members c) kvs"
    using assms(1) by (simp_all add: container_reads_def)
  obtain b where b: "b = c\<lparr>jc_field := string_clear (jc_field c)\<rparr>" by blast
  obtain ds where c: "cs = 123 # ds" "ds @ rest = container_fields json slash (present kvs) @ beyond"
    using assms(2,3) by (cases cs) (auto simp: a(1) container_json_def)
  have "placed slash kvs b [] kvs Before"
    using a list_all2_lengthD [OF a(5)] by (simp add: placed_def reading_at_def b container_ready_def)
  moreover have "state_of slash b (length []) 3 Before" by (simp add: b string_clear_def)
  ultimately have r: "reading slash kvs b 3 (container_fields json slash (present kvs))" using readingI by fastforce
  have "2 * length ds + busy 3 < 2 * length cs + 2" by (simp add: busy_def c)
  from container_read_part [OF r c(2) assms(4) this] obtain n c' p where
    "container_read des (2 * length cs + 2) ds b 3 = (n, c', p, None)" "n \<le> length ds"
    "p = 0 \<and> n = length (container_fields json slash (present kvs)) \<and> container_holds holds is_set c' kvs \<or>
     p \<noteq> 0 \<and> n = length ds \<and> (\<exists>body'. reading slash kvs c' p body' \<and> rest = body' @ beyond)"
    by blast
  then show ?thesis using True
    by (auto simp: container_deserialize_def Let_def c(1) is_space_def a(1) container_json_def b simp del: container_read.simps)
qed

subsection \<open>The contract\<close>

lemma holds_present:
  "list_all2 (member_holds holds is_set) ms kvs \<Longrightarrow> present kvs \<noteq> [] \<Longrightarrow> list_ex (\<lambda>m. is_set (snd m)) ms"
proof (induction rule: list_all2_induct)
  case (Cons m ms kv kvs)
  then show ?case by (cases kv; cases "snd kv") (auto simp: member_holds_def field_set)
qed simp

lemma cleared_waits:
  "list_all2 (\<lambda>m kv. fst m = json_content (fst kv) \<and> (\<forall>v. snd kv = Some v \<longrightarrow> fits (snd m) v)) ms kvs \<Longrightarrow> fields_ready ready slash kvs \<Longrightarrow>
    list_all2 (member_waits json reads is_set) (map (\<lambda>m. (fst m, clear (snd m))) ms) kvs"
proof (induction rule: list_all2_induct)
  case (Cons m ms kv kvs)
  then show ?case by (simp add: member_waits_def clear_unset clear_reads)
qed simp

lemma container_field:
  assumes "2 ^ 31 \<le> top" "top + 7 < 2 ^ 32"
  shows "json_field (container_json json slash) (container_holds holds is_set) (container_serialize ser is_set slash)
    (container_writes json holds writes ready is_set slash) (container_deserialize clear des) (container_ready ready slash)
    (container_reads json holds ready reads is_set slash) (container_clear clear) (container_is_set is_set) (container_fits fits) (top + 7)"
proof unfold_locales
  show "\<exists>c cs. container_json json slash kvs = c # cs \<and> \<not> ends_value c" for kvs
    by (simp add: container_json_def ends_value_def is_space_def)
  show "hd (container_json json slash kvs) \<noteq> 58" for kvs by (simp add: container_json_def)
  show "container_writes json holds writes ready is_set slash c 0 (container_json json slash kvs)"
    if "container_ready ready slash kvs" "container_holds holds is_set c kvs" for kvs c
    using that by (auto simp: container_writes_def container_ready_def)
  show "\<exists>b p. container_serialize ser is_set slash c n pos = (take n rest, b, p) \<and>
      (p = 0 \<and> length rest \<le> n \<or> p \<noteq> 0 \<and> n \<le> length rest \<and> container_writes json holds writes ready is_set slash b p (drop n rest))"
    if "container_writes json holds writes ready is_set slash c pos rest" "0 < n" for c pos rest n
    using that by (intro container_writes_part assms(2))
  show "container_reads json holds ready reads is_set slash kvs (container_clear clear c) 0 (container_json json slash kvs)"
    if "container_ready ready slash kvs" "container_fits fits c kvs" for kvs c
    using that by (auto simp: container_reads_def container_clear_def container_fits_def container_ready_def intro: cleared_waits)
  show "\<exists>c' p. container_deserialize clear des c cs pos = (length cs, c', p, None) \<and>
      (p = 0 \<and> rest = [] \<and> container_holds holds is_set c' kvs \<or> p \<noteq> 0 \<and> container_reads json holds ready reads is_set slash kvs c' p rest)"
    if r: "container_reads json holds ready reads is_set slash kvs c pos (cs @ rest)" "cs \<noteq> []" for kvs c pos cs rest
  proof -
    have "cs @ rest = (cs @ rest) @ []" by simp
    from container_deserialize_reading [OF r(1) this r(2) assms(2)] obtain n c' p where
      "container_deserialize clear des c cs pos = (n, c', p, None)" "n \<le> length cs"
      "p = 0 \<and> n = length (cs @ rest) \<and> container_holds holds is_set c' kvs \<or>
       p \<noteq> 0 \<and> n = length cs \<and> (\<exists>body'. reading slash kvs c' p body' \<and> rest = body' @ [])" by blast
    then show ?thesis by (auto simp: container_reads_def reading_def)
  qed
  show "\<exists>c'. container_deserialize clear des c (rest @ t # tail) pos = (length rest, c', 0, None) \<and> container_holds holds is_set c' kvs"
    if r: "container_reads json holds ready reads is_set slash kvs c pos rest" "ends_value t" for kvs c pos rest t tail
  proof -
    have "(rest @ t # tail) @ [] = rest @ (t # tail)" "rest @ t # tail \<noteq> []" by simp_all
    from container_deserialize_reading [OF r(1) this assms(2)] show ?thesis by auto
  qed
  show "\<not> container_is_set is_set (container_clear clear c)" for c
    by (auto simp: container_is_set_def container_clear_def list_ex_iff clear_unset)
  show "container_is_set is_set c" if "container_holds holds is_set c kvs" for c kvs
    using that holds_present by (auto simp: container_holds_def container_is_set_def)
  show "pos \<le> top + 7" if "container_writes json holds writes ready is_set slash c pos rest" for c pos rest
  proof (cases "pos = 0 \<or> pos = 2")
    case False
    then have "running slash c pos rest" using that by (simp add: container_writes_def running_def)
    then show ?thesis
    proof (cases rule: running_cases)
      case (name later v r)
      then show ?thesis using quoted.writes_top [OF name(6)] assms(1) by simp
    next
      case (val later r)
      then show ?thesis using writes_limit [OF val(4)] by simp
    qed simp_all
  qed auto
  show "pos \<le> top + 7" if "container_reads json holds ready reads is_set slash kvs c pos rest" for kvs c pos rest
  proof (cases "pos = 0")
    case False
    then have "reading slash kvs c pos rest" using that by (simp add: container_reads_def reading_def)
    then obtain i st where "state_of slash c i pos st" by (blast elim: readingE)
    then show ?thesis
      by (cases st) (use quoted.reads_top reads_limit assms(1) in \<open>fastforce+\<close>)
  qed simp
qed

end

end
