(* ===== verification/Json_Kinds.thy ===== *)
theory Json_Kinds
  imports Json_Container_Reading Json_Boolean Json_Number_Reading
begin

text \<open>
  Elements of several kinds in one object, and objects in arrays: the operations of \<open>IElement\<close> are virtual, so that a
  call does what the kind of the element says. A sum of two kinds keeps the contract of a member when both do.
\<close>

subsection \<open>Two kinds\<close>

fun sum_ser :: "'a json_writer \<Rightarrow> 'b json_writer \<Rightarrow> ('a + 'b) json_writer" where
  "sum_ser f g (Inl a) n pos = (case f a n pos of (bs, a, pos) \<Rightarrow> (bs, Inl a, pos))"
| "sum_ser f g (Inr b) n pos = (case g b n pos of (bs, b, pos) \<Rightarrow> (bs, Inr b, pos))"

fun sum_des :: "'a json_reader \<Rightarrow> 'b json_reader \<Rightarrow> ('a + 'b) json_reader" where
  "sum_des f g (Inl a) cs pos = (case f a cs pos of (n, a, pos, error) \<Rightarrow> (n, Inl a, pos, error))"
| "sum_des f g (Inr b) cs pos = (case g b cs pos of (n, b, pos, error) \<Rightarrow> (n, Inr b, pos, error))"

fun sum_clear :: "('a \<Rightarrow> 'a) \<Rightarrow> ('b \<Rightarrow> 'b) \<Rightarrow> 'a + 'b \<Rightarrow> 'a + 'b" where
  "sum_clear f g (Inl a) = Inl (f a)"
| "sum_clear f g (Inr b) = Inr (g b)"

fun sum_writes :: "('a \<Rightarrow> nat \<Rightarrow> u8 list \<Rightarrow> bool) \<Rightarrow> ('b \<Rightarrow> nat \<Rightarrow> u8 list \<Rightarrow> bool) \<Rightarrow> 'a + 'b \<Rightarrow> nat \<Rightarrow> u8 list \<Rightarrow> bool" where
  "sum_writes f g (Inl a) pos rest = f a pos rest"
| "sum_writes f g (Inr b) pos rest = g b pos rest"

fun sum_both :: "('a \<Rightarrow> 'v \<Rightarrow> 'r \<Rightarrow> bool) \<Rightarrow> ('b \<Rightarrow> 'w \<Rightarrow> 'r \<Rightarrow> bool) \<Rightarrow> 'a + 'b \<Rightarrow> 'v + 'w \<Rightarrow> 'r \<Rightarrow> bool" where
  "sum_both f g (Inl a) (Inl v) r = f a v r"
| "sum_both f g (Inr b) (Inr w) r = g b w r"
| "sum_both f g _ _ r = False"

definition sum_agrees :: "('a \<Rightarrow> 'v \<Rightarrow> bool) \<Rightarrow> ('b \<Rightarrow> 'w \<Rightarrow> bool) \<Rightarrow> 'a + 'b \<Rightarrow> 'v + 'w \<Rightarrow> bool" where
  "sum_agrees f g e v = sum_both (\<lambda>a v (u :: unit). f a v) (\<lambda>b w u. g b w) e v ()"

definition sum_reads :: "('v \<Rightarrow> 'a \<Rightarrow> nat \<Rightarrow> u8 list \<Rightarrow> bool) \<Rightarrow> ('w \<Rightarrow> 'b \<Rightarrow> nat \<Rightarrow> u8 list \<Rightarrow> bool) \<Rightarrow> 'v + 'w \<Rightarrow> 'a + 'b \<Rightarrow> nat \<Rightarrow> u8 list \<Rightarrow> bool" where
  "sum_reads f g v e pos rest = sum_both (\<lambda>a v r. f v a pos r) (\<lambda>b w r. g w b pos r) e v rest"

lemma sum_agrees_simps [simp]:
  "sum_agrees f g (Inl a) (Inl v) = f a v" "sum_agrees f g (Inr b) (Inr w) = g b w"
  "\<not> sum_agrees f g (Inl a) (Inr w)" "\<not> sum_agrees f g (Inr b) (Inl v)"
  by (simp_all add: sum_agrees_def)

lemma sum_reads_simps [simp]:
  "sum_reads f g (Inl v) (Inl a) = f v a" "sum_reads f g (Inr w) (Inr b) = g w b"
  "\<not> sum_reads f g (Inr w) (Inl a) pos rest" "\<not> sum_reads f g (Inl v) (Inr b) pos rest"
  by (simp_all add: sum_reads_def fun_eq_iff)

lemma sum_field:
  assumes a: "json_field json holds ser writes des ready reads clear is_set fits limit"
    and b: "json_field json' holds' ser' writes' des' ready' reads' clear' is_set' fits' limit'"
  shows "json_field (case_sum json json') (sum_agrees holds holds') (sum_ser ser ser') (sum_writes writes writes')
    (sum_des des des') (case_sum ready ready') (sum_reads reads reads') (sum_clear clear clear') (case_sum is_set is_set')
    (sum_agrees fits fits') (max limit limit')"
proof -
  note as = json_field.axioms(1) [OF a] and bs = json_field.axioms(1) [OF b]
  show ?thesis
  proof (rule json_field.intro [OF json_steps.intro json_field_axioms.intro])
    show "\<exists>c cs. case_sum json json' v = c # cs \<and> \<not> ends_value c" if "case_sum ready ready' v" for v
      using that json_steps.json_begins [OF as] json_steps.json_begins [OF bs] by (cases v) auto
    show "sum_writes writes writes' e 0 (case_sum json json' v)" if "case_sum ready ready' v" "sum_agrees holds holds' e v" for v e
      using that json_steps.writes_start [OF as] json_steps.writes_start [OF bs] by (cases v; cases e) auto
    show "\<exists>e' offset'. sum_ser ser ser' e n offset = (take n rest, e', offset') \<and>
        (offset' = 0 \<and> length rest \<le> n \<or> offset' \<noteq> 0 \<and> n \<le> length rest \<and> sum_writes writes writes' e' offset' (drop n rest))"
      if "sum_writes writes writes' e offset rest" "0 < n" for e offset rest n
    proof (cases e)
      case (Inl x)
      with json_steps.writes_part [OF as, of x offset rest n] that show ?thesis by force
    next
      case (Inr x)
      with json_steps.writes_part [OF bs, of x offset rest n] that show ?thesis by force
    qed
    show "\<exists>e' offset'. sum_des des des' e cs offset = (length cs, e', offset', None) \<and>
        (offset' = 0 \<and> rest = [] \<and> sum_agrees holds holds' e' v \<or> offset' \<noteq> 0 \<and> sum_reads reads reads' v e' offset' rest)"
      if r: "sum_reads reads reads' v e offset (cs @ rest)" "cs \<noteq> []" for v e offset cs rest
    proof (cases e)
      case (Inl x)
      then obtain w where "v = Inl w" using r(1) by (cases v) auto
      with json_steps.reads_part [OF as, of w x offset cs rest] r Inl show ?thesis by force
    next
      case (Inr x)
      then obtain w where "v = Inr w" using r(1) by (cases v) auto
      with json_steps.reads_part [OF bs, of w x offset cs rest] r Inr show ?thesis by force
    qed
    show "\<exists>e'. sum_des des des' e (rest @ t # more) offset = (length rest, e', 0, None) \<and> sum_agrees holds holds' e' v"
      if r: "sum_reads reads reads' v e offset rest" "ends_value t" for v e offset rest t more
    proof (cases e)
      case (Inl x)
      then obtain w where "v = Inl w" using r(1) by (cases v) auto
      with json_steps.reads_end [OF as, of w x offset rest t more] r Inl show ?thesis by force
    next
      case (Inr x)
      then obtain w where "v = Inr w" using r(1) by (cases v) auto
      with json_steps.reads_end [OF bs, of w x offset rest t more] r Inr show ?thesis by force
    qed
    show "hd (case_sum json json' v) \<noteq> 58" if "case_sum ready ready' v" for v
      using that json_field.no_colon [OF a] json_field.no_colon [OF b] by (cases v) auto
    show "sum_reads reads reads' v (sum_clear clear clear' e) 0 (case_sum json json' v)"
      if "case_sum ready ready' v" "sum_agrees fits fits' e v" for v e
      using that json_field.clear_reads [OF a] json_field.clear_reads [OF b] by (cases v; cases e) auto
    show "\<not> case_sum is_set is_set' (sum_clear clear clear' e)" for e
      using json_field.clear_unset [OF a] json_field.clear_unset [OF b] by (cases e) auto
    show "case_sum is_set is_set' e" if "sum_agrees holds holds' e v" for e v
      using that json_field.field_set [OF a] json_field.field_set [OF b] by (cases v; cases e) auto
    show "offset \<le> max limit limit'" if "sum_writes writes writes' e offset rest" for e offset rest
      using that json_field.writes_limit [OF a] json_field.writes_limit [OF b] by (cases e) (auto simp: le_max_iff_disj)
    show "offset \<le> max limit limit'" if "sum_reads reads reads' v e offset rest" for v e offset rest
      using that json_field.reads_limit [OF a] json_field.reads_limit [OF b] by (cases v; cases e) (auto simp: le_max_iff_disj)
  qed
qed

subsection \<open>Elements of arrays\<close>

text \<open>Elements that are added to an array are new, with the structure of \<open>fresh\<close>.\<close>

context json_field
begin

lemma field_member:
  assumes "\<And>v. ready v \<Longrightarrow> fits fresh v \<Longrightarrow> reads v fresh 0 (json v)"
  shows "json_member json holds ser writes (\<lambda>e. fresh) des (\<lambda>v. ready v \<and> fits fresh v) reads fresh is_set top"
proof unfold_locales
  show "\<exists>c cs. json v = c # cs \<and> \<not> ends_value c" if "ready v \<and> fits fresh v" for v using that json_begins by blast
  show "writes e 0 (json v)" if "ready v \<and> fits fresh v" "holds e v" for v e using that writes_start by blast
  show "\<exists>e' offset'. ser e n offset = (take n rest, e', offset') \<and>
      (offset' = 0 \<and> length rest \<le> n \<or> offset' \<noteq> 0 \<and> n \<le> length rest \<and> writes e' offset' (drop n rest))"
    if "writes e offset rest" "0 < n" for e offset rest n using that by (rule writes_part)
  show "\<exists>e' offset'. des e cs offset = (length cs, e', offset', None) \<and>
      (offset' = 0 \<and> rest = [] \<and> holds e' v \<or> offset' \<noteq> 0 \<and> reads v e' offset' rest)"
    if "reads v e offset (cs @ rest)" "cs \<noteq> []" for v e offset cs rest using that by (rule reads_part)
  show "\<exists>e'. des e (rest @ t # more) offset = (length rest, e', 0, None) \<and> holds e' v"
    if "reads v e offset rest" "ends_value t" for v e offset rest t more using that by (rule reads_end)
  show "reads v fresh 0 (json v)" "reads v fresh 0 (json v)" if "ready v \<and> fits fresh v" for v using that assms by simp_all
  show "is_set e" if "holds e v" for e v using that by (rule field_set)
  show "offset \<le> top" if "writes e offset rest" for e offset rest using that by (rule writes_limit)
  show "offset \<le> top" if "reads v e offset rest" for v e offset rest using that by (rule reads_limit)
qed

text \<open>A new container can be read into when its members are new.\<close>

lemma new_members_wait:
  "list_all2 (\<lambda>m kv. fst m = json_content (fst kv) \<and> (\<forall>v. snd kv = Some v \<longrightarrow> fits (snd m) v)) ms kvs \<Longrightarrow> fields_ready ready slash kvs \<Longrightarrow>
    list_all (\<lambda>m. \<not> is_set (snd m) \<and> (\<forall>v. ready v \<longrightarrow> fits (snd m) v \<longrightarrow> reads v (snd m) 0 (json v))) ms \<Longrightarrow>
    list_all2 (member_waits json reads is_set) ms kvs"
proof (induction rule: list_all2_induct)
  case (Cons m ms kv kvs)
  then show ?case by (simp add: member_waits_def)
qed simp

lemma new_container_reads:
  assumes "container_ready ready slash kvs" "container_fits fits c kvs" "\<not> jc_undefined c"
    and "list_all (\<lambda>m. \<not> is_set (snd m) \<and> (\<forall>v. ready v \<longrightarrow> fits (snd m) v \<longrightarrow> reads v (snd m) 0 (json v))) (jc_members c)"
  shows "container_reads json holds ready reads is_set slash kvs c 0 (container_json json slash kvs)"
  using assms new_members_wait by (auto simp: container_reads_def container_fits_def container_ready_def)

end

end
