(* ===== verification/Message_Config.thy ===== *)
theory Message_Config
  imports Json_Kinds
begin

text \<open>
  \<open>Settings::Config\<close> of \<^verbatim>\<open>Source/messaging/MessageUnit.h\<close>: the configuration of traces and logs, an object of sections
  with arrays of entries. It has every kind of element, and objects in arrays in objects in an object; the contracts of
  the elements compose to that of the configuration.
\<close>

subsection \<open>Entries\<close>

definition ascii :: "string \<Rightarrow> u8 list" where
  "ascii s = map of_char s"

definition points :: "string \<Rightarrow> u32 list" where
  "points s = map of_char s"

type_synonym entry_kind = "json_string + json_boolean"
type_synonym message_entry = "entry_kind json_container"

definition new_entry :: message_entry where
  "new_entry =
     (container_add (ascii ''enabled'') (Inr (new_boolean False)) \<circ>
      container_add (ascii ''category'') (Inl (new_string [] True)) \<circ>
      container_add (ascii ''module'') (Inl (new_string [] True))) new_container"

abbreviation "kind_json slash \<equiv> case_sum (json_text slash) boolean_json"
abbreviation "kind_holds \<equiv> sum_agrees string_holds boolean_holds"
abbreviation "kind_ser slash \<equiv> sum_ser (string_serialize slash) boolean_serialize"
abbreviation "kind_writes slash \<equiv> sum_writes (string_writes slash) boolean_writes"
abbreviation "kind_des \<equiv> sum_des string_deserialize boolean_deserialize"
abbreviation "kind_ready slash \<equiv> case_sum (string_ready slash) (\<lambda>b. True)"
abbreviation "kind_reads slash \<equiv> sum_reads (string_reads slash) boolean_reads"
abbreviation "kind_clear \<equiv> sum_clear string_clear boolean_clear"
abbreviation "kind_set \<equiv> case_sum js_set jb_set"
abbreviation kind_fits :: "entry_kind \<Rightarrow> u32 list + bool option \<Rightarrow> bool" where
  "kind_fits \<equiv> sum_agrees (\<lambda>e v. True) (\<lambda>e v. True)"

interpretation texts: json_field "json_text slash" string_holds "string_serialize slash" "string_writes slash" string_deserialize
  "string_ready slash" "string_reads slash" string_clear js_set "\<lambda>e v. True" "2 ^ 31" for slash
  by (rule quoted.member_field) (simp_all add: string_clear_def json_text_def)

lemma boolean_no_colon: "hd (boolean_json v) \<noteq> 58"
  by (cases v rule: boolean_json.cases) (simp_all add: boolean_tags)

interpretation flags: json_field boolean_json boolean_holds boolean_serialize boolean_writes boolean_deserialize
  "\<lambda>v. True" boolean_reads boolean_clear jb_set "\<lambda>e v. True" 5
  by (rule boolean.member_field) (simp_all add: boolean_clear_def boolean_reset_def boolean_no_colon)

interpretation kinds: json_field "kind_json slash" kind_holds "kind_ser slash" "kind_writes slash" kind_des "kind_ready slash"
  "kind_reads slash" kind_clear kind_set kind_fits "max (2 ^ 31) 5" for slash
  by (rule sum_field [OF texts.json_field_axioms flags.json_field_axioms])

abbreviation "entry_json slash \<equiv> container_json (kind_json slash) slash"
abbreviation "entry_holds \<equiv> container_holds kind_holds kind_set"
abbreviation "entry_ser slash \<equiv> container_serialize (kind_ser slash) kind_set slash"
abbreviation "entry_writes slash \<equiv> container_writes (kind_json slash) kind_holds (kind_writes slash) (kind_ready slash) kind_set slash"
abbreviation "entry_des \<equiv> container_deserialize kind_clear kind_des"
abbreviation "entry_ready slash \<equiv> container_ready (kind_ready slash) slash"
abbreviation "entry_reads slash \<equiv> container_reads (kind_json slash) kind_holds (kind_ready slash) (kind_reads slash) kind_set slash"
abbreviation "entry_set \<equiv> container_is_set kind_set"
abbreviation "entry_fits \<equiv> container_fits kind_fits"

interpretation entries: json_field "entry_json slash" entry_holds "entry_ser slash" "entry_writes slash" entry_des "entry_ready slash"
  "entry_reads slash" "container_clear kind_clear" entry_set entry_fits "max (2 ^ 31) 5 + 7" for slash
  by (rule kinds.container_field) simp_all

lemma new_entry_reads:
  assumes "entry_ready slash kvs" "entry_fits new_entry kvs"
  shows "entry_reads slash kvs new_entry 0 (entry_json slash kvs)"
proof (rule kinds.new_container_reads [OF assms])
  have "\<forall>v. kind_ready slash v \<longrightarrow> kind_fits (Inl (new_string [] True)) v \<longrightarrow> kind_reads slash v (Inl (new_string [] True)) 0 (kind_json slash v)"
    "\<forall>v. kind_ready slash v \<longrightarrow> kind_fits (Inr (new_boolean False)) v \<longrightarrow> kind_reads slash v (Inr (new_boolean False)) 0 (kind_json slash v)"
    using quoted.fresh_reads boolean.fresh_reads by (auto split: sum.splits)
  then show "list_all (\<lambda>m. \<not> kind_set (snd m) \<and>
      (\<forall>v. kind_ready slash v \<longrightarrow> kind_fits (snd m) v \<longrightarrow> kind_reads slash v (snd m) 0 (kind_json slash v))) (jc_members new_entry)"
    by (simp add: new_entry_def container_add_def new_container_def new_string_def new_boolean_def)
  show "\<not> jc_undefined new_entry" by (simp add: new_entry_def container_add_def new_container_def)
qed

subsection \<open>Sections\<close>

text \<open>The elements that the array adds are new entries.\<close>

abbreviation "entry_usable slash \<equiv> \<lambda>kvs. entry_ready slash kvs \<and> entry_fits new_entry kvs"

interpretation new_entries: json_member "entry_json slash" entry_holds "entry_ser slash" "entry_writes slash" "\<lambda>e. new_entry" entry_des
  "entry_usable slash" "entry_reads slash" new_entry entry_set "max (2 ^ 31) 5 + 7" for slash
  by (rule entries.field_member) (rule new_entry_reads)

abbreviation "entries_json slash \<equiv> array_json (entry_json slash)"
abbreviation "entries_holds \<equiv> array_holds entry_holds entry_set"
abbreviation "entries_ser slash \<equiv> array_serialize (entry_ser slash) entry_set"
abbreviation "entries_writes slash \<equiv> array_writes (entry_json slash) entry_holds (entry_writes slash) (entry_usable slash) entry_set"
abbreviation "entries_des \<equiv> array_deserialize entry_des new_entry"
abbreviation "entries_ready slash \<equiv> list_all (entry_usable slash)"
abbreviation "entries_reads slash \<equiv> array_reads (entry_json slash) entry_holds (entry_usable slash) (entry_reads slash)"

interpretation entry_arrays: json_member "entries_json slash" entries_holds "entries_ser slash" "entries_writes slash" array_clear entries_des
  "entries_ready slash" "entries_reads slash" new_array array_is_set "max (2 ^ 31) 5 + 7 + 5" for slash
  by (rule new_entries.array_member) simp

interpretation entry_lists: json_field "entries_json slash" entries_holds "entries_ser slash" "entries_writes slash" entries_des
  "entries_ready slash" "entries_reads slash" array_clear array_is_set "\<lambda>e v. True" "max (2 ^ 31) 5 + 7 + 5" for slash
  by (rule entry_arrays.member_field) (simp_all add: array_clear_def array_is_set_def array_json_def)

type_synonym section_kind = "message_entry json_array + json_boolean"
type_synonym message_section = "section_kind json_container"

definition new_section :: message_section where
  "new_section =
     (container_add (ascii ''abbreviated'') (Inr (new_boolean True)) \<circ>
      container_add (ascii ''settings'') (Inl new_array)) new_container"

abbreviation "part_json slash \<equiv> case_sum (entries_json slash) boolean_json"
abbreviation "part_holds \<equiv> sum_agrees entries_holds boolean_holds"
abbreviation "part_ser slash \<equiv> sum_ser (entries_ser slash) boolean_serialize"
abbreviation "part_writes slash \<equiv> sum_writes (entries_writes slash) boolean_writes"
abbreviation "part_des \<equiv> sum_des entries_des boolean_deserialize"
abbreviation "part_ready slash \<equiv> case_sum (entries_ready slash) (\<lambda>b. True)"
abbreviation "part_reads slash \<equiv> sum_reads (entries_reads slash) boolean_reads"
abbreviation "part_clear \<equiv> sum_clear array_clear boolean_clear"
abbreviation "part_set \<equiv> case_sum array_is_set jb_set"
abbreviation part_fits :: "section_kind \<Rightarrow> (u32 list \<times> (u32 list + bool option) option) list list + bool option \<Rightarrow> bool" where
  "part_fits \<equiv> sum_agrees (\<lambda>e v. True) (\<lambda>e v. True)"

interpretation parts: json_field "part_json slash" part_holds "part_ser slash" "part_writes slash" part_des "part_ready slash"
  "part_reads slash" part_clear part_set part_fits "max (max (2 ^ 31) 5 + 7 + 5) 5" for slash
  by (rule sum_field [OF entry_lists.json_field_axioms flags.json_field_axioms])

abbreviation "section_json slash \<equiv> container_json (part_json slash) slash"
abbreviation "section_holds \<equiv> container_holds part_holds part_set"
abbreviation "section_ser slash \<equiv> container_serialize (part_ser slash) part_set slash"
abbreviation "section_writes slash \<equiv> container_writes (part_json slash) part_holds (part_writes slash) (part_ready slash) part_set slash"
abbreviation "section_des \<equiv> container_deserialize part_clear part_des"
abbreviation "section_ready slash \<equiv> container_ready (part_ready slash) slash"
abbreviation "section_reads slash \<equiv> container_reads (part_json slash) part_holds (part_ready slash) (part_reads slash) part_set slash"
abbreviation "section_clear \<equiv> container_clear part_clear"
abbreviation "section_set \<equiv> container_is_set part_set"
abbreviation "section_fits \<equiv> container_fits part_fits"

interpretation sections: json_field "section_json slash" section_holds "section_ser slash" "section_writes slash" section_des
  "section_ready slash" "section_reads slash" section_clear section_set section_fits "max (max (2 ^ 31) 5 + 7 + 5) 5 + 7" for slash
  by (rule parts.container_field) simp_all

subsection \<open>The configuration\<close>

definition dec_uint16 :: number_kind where
  "dec_uint16 = \<lparr>nk_bits = 16, nk_signed = False, nk_base = Base_decimal\<rparr>"

interpretation counts: json_field "number_json k" number_holds "number_serialize k" "number_writes k" "number_deserialize k" "number_ready k"
  "number_reads k" number_clear jn_set "\<lambda>e v. True" "4 + nk_bits k" for k
proof (rule numbers.member_field)
  show "\<not> jn_set (number_clear s)" for s by (simp add: number_clear_def no_flags_def)
  show "hd (number_json k v) \<noteq> 58" for v using number_json_first [of k v] by auto
qed

type_synonym scalar_kind = "json_string + json_number + json_boolean"
type_synonym config_kind = "message_section + scalar_kind"
type_synonym message_config = "config_kind json_container"

text \<open>The default of \<open>DataSize\<close> and the others is a quarter of the greatest value.\<close>

definition default_data_size :: int where "default_data_size = 63 * 1024 div 4"
definition default_metadata_buffer_size :: int where "default_metadata_buffer_size = 16 * 1024 div 4"
definition default_metadata_size :: int where "default_metadata_size = 256 div 4"
definition default_message_size :: int where "default_message_size = 32 * 1024 div 4"

definition config_elements :: "(string \<times> config_kind) list" where
  "config_elements =
     [(''tracing'', Inl new_section), (''logging'', Inl new_section), (''reporting'', Inl new_section),
      (''assertion'', Inl new_section), (''telemetry'', Inl new_section),
      (''path'', Inr (Inl (new_string (ascii ''MessageDispatcher'') True))), (''port'', Inr (Inr (Inl (new_number 0 False)))),
      (''flush'', Inr (Inr (Inr (new_boolean False)))), (''stdout'', Inr (Inr (Inr (new_boolean True)))),
      (''stderr'', Inr (Inr (Inr (new_boolean True)))),
      (''datasize'', Inr (Inr (Inl (new_number default_data_size False)))),
      (''metadatabuffersize'', Inr (Inr (Inl (new_number default_metadata_buffer_size False)))),
      (''metadatasize'', Inr (Inr (Inl (new_number default_metadata_size False)))),
      (''messagesize'', Inr (Inr (Inl (new_number default_message_size False))))]"

definition new_config :: message_config where
  "new_config = fold (\<lambda>(label, e). container_add (ascii label) e) config_elements new_container"

abbreviation "scalar_json slash \<equiv> case_sum (json_text slash) (case_sum (number_json dec_uint16) boolean_json)"
abbreviation "scalar_holds \<equiv> sum_agrees string_holds (sum_agrees number_holds boolean_holds)"
abbreviation "scalar_ser slash \<equiv> sum_ser (string_serialize slash) (sum_ser (number_serialize dec_uint16) boolean_serialize)"
abbreviation "scalar_writes slash \<equiv> sum_writes (string_writes slash) (sum_writes (number_writes dec_uint16) boolean_writes)"
abbreviation "scalar_des \<equiv> sum_des string_deserialize (sum_des (number_deserialize dec_uint16) boolean_deserialize)"
abbreviation "scalar_ready slash \<equiv> case_sum (string_ready slash) (case_sum (number_ready dec_uint16) (\<lambda>b. True))"
abbreviation "scalar_reads slash \<equiv> sum_reads (string_reads slash) (sum_reads (number_reads dec_uint16) boolean_reads)"
abbreviation "scalar_clear \<equiv> sum_clear string_clear (sum_clear number_clear boolean_clear)"
abbreviation "scalar_set \<equiv> case_sum js_set (case_sum jn_set jb_set)"
abbreviation scalar_fits :: "scalar_kind \<Rightarrow> u32 list + int option + bool option \<Rightarrow> bool" where
  "scalar_fits \<equiv> sum_agrees (\<lambda>e v. True) (sum_agrees (\<lambda>e v. True) (\<lambda>e v. True))"

abbreviation "option_json slash \<equiv> case_sum (section_json slash) (scalar_json slash)"
abbreviation "option_holds \<equiv> sum_agrees section_holds scalar_holds"
abbreviation "option_ser slash \<equiv> sum_ser (section_ser slash) (scalar_ser slash)"
abbreviation "option_writes slash \<equiv> sum_writes (section_writes slash) (scalar_writes slash)"
abbreviation "option_des \<equiv> sum_des section_des scalar_des"
abbreviation "option_ready slash \<equiv> case_sum (section_ready slash) (scalar_ready slash)"
abbreviation "option_reads slash \<equiv> sum_reads (section_reads slash) (scalar_reads slash)"
abbreviation "option_clear \<equiv> sum_clear section_clear scalar_clear"
abbreviation "option_set \<equiv> case_sum section_set scalar_set"
abbreviation "option_fits \<equiv> sum_agrees section_fits scalar_fits"

interpretation options: json_field "option_json slash" option_holds "option_ser slash" "option_writes slash" option_des "option_ready slash"
  "option_reads slash" option_clear option_set option_fits
  "max (max (max (2 ^ 31) 5 + 7 + 5) 5 + 7) (max (2 ^ 31) (max (4 + nk_bits dec_uint16) 5))" for slash
  by (rule sum_field [OF sections.json_field_axioms
        sum_field [OF texts.json_field_axioms sum_field [OF counts.json_field_axioms flags.json_field_axioms]]])

abbreviation "config_json slash \<equiv> container_json (option_json slash) slash"
abbreviation "config_holds \<equiv> container_holds option_holds option_set"
abbreviation "config_ser slash \<equiv> container_serialize (option_ser slash) option_set slash"
abbreviation "config_writes slash \<equiv> container_writes (option_json slash) option_holds (option_writes slash) (option_ready slash) option_set slash"
abbreviation "config_des \<equiv> container_deserialize option_clear option_des"
abbreviation "config_ready slash \<equiv> container_ready (option_ready slash) slash"
abbreviation "config_reads slash \<equiv> container_reads (option_json slash) option_holds (option_ready slash) (option_reads slash) option_set slash"
abbreviation "config_clear \<equiv> container_clear option_clear"
abbreviation "config_set \<equiv> container_is_set option_set"
abbreviation "config_fits \<equiv> container_fits option_fits"

interpretation configs: json_field "config_json slash" config_holds "config_ser slash" "config_writes slash" config_des
  "config_ready slash" "config_reads slash" config_clear config_set config_fits
  "max (max (max (2 ^ 31) 5 + 7 + 5) 5 + 7) (max (2 ^ 31) (max (4 + nk_bits dec_uint16) 5)) + 7" for slash
  by (rule options.container_field) (simp_all add: dec_uint16_def)

end
