(* ===== verification/Config_Properties.thy ===== *)
theory Config_Properties
  imports Message_Config
begin

text \<open>
  The properties of objects: the configuration of traces and logs as a text, whole and in parts, and what a container
  does not read.
\<close>

subsection \<open>The configuration\<close>

text \<open>The values of the configuration, as its labels have them.\<close>

type_synonym entry_value = "(u32 list \<times> (u32 list + bool option) option) list"
type_synonym section_value = "(u32 list \<times> (entry_value list + bool option) option) list"
type_synonym config_value = "(u32 list \<times> (section_value + u32 list + int option + bool option) option) list"

text \<open>
  The values that a configuration can have here (\<open>config_ready\<close>): every object in it, and the configuration itself,
  has at least one member that is set, and the numbers are in the range of their 16 bits. The texts are Unicode scalar
  values but not the four letters \<open>null\<close>, a character of several bytes is not cut by the 8 bits of the length that
  \<open>ToCodePoint\<close> is given (\<open>lengths_fit\<close>, as in every text of up to 255 bytes), and the length of a text
  times that of what is written for it is below \<open>2 ^ 31\<close>. Other configurations do come back differently: see the strings of
  \<open>Json_Properties\<close> and \<open>empty_object_refused\<close> below.
\<close>

text \<open>C11: A configuration with such values, sections with arrays of entries, texts, numbers and flags, those that are not set
  left out, whose text has a length that is not a multiple of 65535. \<open>ToString\<close> gives the text of the object, and
  \<open>FromString\<close> reads that text into a new configuration without an error; it has the same values then, and what was not set is not set.\<close>

theorem message_config_roundtrip:
  assumes "config_ready slash kvs" "config_holds c kvs" "config_fits new_config kvs" "length (config_json slash kvs) mod 65535 \<noteq> 0"
  shows "\<exists>c1 c2. to_string (config_ser slash) c = Some (True, config_json slash kvs, c1) \<and>
    from_string config_des config_clear (config_json slash kvs) new_config = (None, c2) \<and> config_holds c2 kvs"
proof -
  have "config_reads slash kvs (config_clear new_config) 0 (config_json slash kvs)" using configs.clear_reads [OF assms(1,3)] .
  from configs.from_string_from [where clear = config_clear, OF assms(1) this assms(4)] configs.to_string_writes [OF assms(1,2)] show ?thesis by blast
qed

definition sample_entry :: message_entry where
  "sample_entry = new_entry\<lparr>jc_members :=
     [(ascii ''module'', Inl (string_assign (ascii ''a'') (new_string [] True))), (ascii ''category'', Inl (new_string [] True)),
      (ascii ''enabled'', Inr (boolean_assign True (new_boolean False)))]\<rparr>"

definition sample_section :: message_section where
  "sample_section = new_section\<lparr>jc_members :=
     [(ascii ''settings'', Inl (array_add sample_entry new_array)), (ascii ''abbreviated'', Inr (new_boolean True))]\<rparr>"

definition sample_config :: message_config where
  "sample_config = new_config\<lparr>jc_members := (jc_members new_config)
     [1 := (ascii ''logging'', Inl sample_section), 6 := (ascii ''port'', Inr (Inr (Inl (number_assign 80 (new_number 0 False)))))]\<rparr>"

definition sample_entry_values :: entry_value where
  "sample_entry_values = [(points ''module'', Some (Inl (points ''a''))), (points ''category'', None), (points ''enabled'', Some (Inr (Some True)))]"

definition sample_section_values :: section_value where
  "sample_section_values = [(points ''settings'', Some (Inl [sample_entry_values])), (points ''abbreviated'', None)]"

definition sample_config_values :: config_value where
  "sample_config_values =
     [(points ''tracing'', None), (points ''logging'', Some (Inl sample_section_values)), (points ''reporting'', None),
      (points ''assertion'', None), (points ''telemetry'', None), (points ''path'', None),
      (points ''port'', Some (Inr (Inr (Inl (Some 80))))), (points ''flush'', None), (points ''stdout'', None), (points ''stderr'', None),
      (points ''datasize'', None), (points ''metadatabuffersize'', None), (points ''metadatasize'', None), (points ''messagesize'', None)]"

definition sample_labels :: "string list" where
  "sample_labels = [''tracing'', ''logging'', ''reporting'', ''assertion'', ''telemetry'', ''path'', ''port'', ''flush'', ''stdout'', ''stderr'',
     ''datasize'', ''metadatabuffersize'', ''metadatasize'', ''messagesize'', ''settings'', ''abbreviated'', ''module'', ''category'', ''enabled'', ''a'']"

text \<open>Texts of printable characters are their own content.\<close>

lemma plain_text:
  assumes "list_all (\<lambda>c. c \<le> 0x7F \<and> plain_char slash (ucast c)) cps"
  shows "list_all scalar cps \<and> lengths_fit cps \<and> json_content cps = map ucast cps \<and> json_text slash cps = [34] @ map ucast cps @ [34] \<and>
    0 \<notin> set (map ucast cps :: u8 list)"
  using assms
proof (induction cps)
  case (Cons c cps)
  then have f: "following_bytes c = 0" "plain_char slash (ucast c)" by (simp_all add: following_bytes_def)
  have "scalar c" using Cons.prems by (auto simp: scalar_def word_le_nat_alt word_less_nat_alt)
  moreover have "(ucast c :: u8) \<noteq> 0" using f(2) by (auto simp: plain_char_def is_print_def)
  moreover have "utf8 c = [ucast c]" using utf8_single [OF f(1)] by simp
  ultimately show ?case using Cons f by (auto simp: json_content_def json_text_def json_escape_def)
qed (simp add: json_content_def json_text_def)

lemma sample_labels_facts:
  "list_all (\<lambda>l. list_all (\<lambda>c. c \<le> 0x7F \<and> plain_char False (ucast c)) (points l) \<and> map ucast (points l) = ascii l \<and>
    ascii l \<noteq> null_tag \<and> length l \<le> 20) sample_labels"
  "distinct (map ascii sample_labels)"
  by code_simp+

lemma config_sample_text: "config_json False sample_config_values =
  ascii ''{\"logging\":{\"settings\":[{\"module\":\"a\",\"enabled\":true}]},\"port\":80}''"
  by code_simp

lemma sample_label:
  assumes "l \<in> set sample_labels"
  shows "json_content (points l) = ascii l" "name_ready False (points l)" "string_ready False (points l)"
proof -
  have p: "list_all (\<lambda>c. c \<le> 0x7F \<and> plain_char False (ucast c)) (points l)" "map ucast (points l) = ascii l" "ascii l \<noteq> null_tag" "length l \<le> 20"
    using sample_labels_facts(1) assms by (auto simp: list_all_iff)
  note a = plain_text [OF p(1), unfolded p(2)]
  then show c: "json_content (points l) = ascii l" by blast
  have "length (json_text False (points l)) * length (ascii l) \<le> 22 * 20" using a p(4) by (intro mult_le_mono) (simp_all add: ascii_def)
  then show "string_ready False (points l)" using a p(3) by (simp add: string_ready_def)
  then show "name_ready False (points l)" using a by (simp add: name_ready_def)
qed

lemma sample_distinct: "distinct ls \<Longrightarrow> set ls \<subseteq> set sample_labels \<Longrightarrow> distinct (map (\<lambda>l. json_content (points l)) ls)"
proof -
  assume l: "distinct ls" "set ls \<subseteq> set sample_labels"
  have "inj_on ascii (set sample_labels)" using sample_labels_facts(2) by (simp add: distinct_map)
  then have "inj_on ascii (set ls)" using l(2) by (rule inj_on_subset)
  moreover have "map (\<lambda>l. json_content (points l)) ls = map ascii ls" using l(2) sample_label(1) by (intro map_cong) auto
  moreover have "distinct (map ascii ls)" using calculation(1) l(1) by (simp add: distinct_map)
  ultimately show ?thesis by (simp only:)
qed

lemma config_sample_ready: "config_ready False sample_config_values"
proof -
  have entry: "entry_ready False sample_entry_values" "entry_fits new_entry sample_entry_values"
    using sample_distinct [of "[''module'', ''category'', ''enabled'']"]
    by (simp_all add: container_ready_def sample_entry_values_def sample_label sample_labels_def container_fits_def new_entry_def
        container_add_def new_container_def new_string_def)
  have part: "section_ready False sample_section_values"
    using sample_distinct [of "[''settings'', ''abbreviated'']"] entry
    by (simp add: container_ready_def sample_section_values_def sample_label sample_labels_def)
  have port: "number_ready dec_uint16 (Some 80)" by (simp add: number_ready_def dec_uint16_def type_max_def max_unsigned_def)
  show ?thesis
    using sample_distinct [of "[''tracing'', ''logging'', ''reporting'', ''assertion'', ''telemetry'', ''path'', ''port'', ''flush'', ''stdout'', ''stderr'',
      ''datasize'', ''metadatabuffersize'', ''metadatasize'', ''messagesize'']"] part port
    by (simp add: container_ready_def sample_config_values_def sample_label sample_labels_def)
qed

lemma sample_holds: "config_holds sample_config sample_config_values"
proof -
  have c: "list_all (\<lambda>l. json_content (points l) = ascii l) sample_labels" using sample_label(1) by (simp add: list_all_iff)
  note c = c [unfolded sample_labels_def, simplified]
  have zero: "0 \<notin> set (ascii ''a'')" by code_simp
  have entry: "entry_holds sample_entry sample_entry_values" "entry_set sample_entry"
    using c zero
    by (simp_all add: container_holds_def sample_entry_def sample_entry_values_def new_entry_def container_add_def new_container_def name_ok_def
        new_string_def member_holds_def string_holds_def string_assign_def is_quoted_def c_str_def takeWhile_eq_all_conv
        boolean_holds_def boolean_assign_def boolean_value_def boolean_reset_def new_boolean_def container_is_set_def)
      (auto simp: ascii_def)
  have part: "section_holds sample_section sample_section_values" "section_set sample_section"
    using c entry
    by (simp_all add: container_holds_def sample_section_def sample_section_values_def new_section_def container_add_def new_container_def name_ok_def
        new_string_def member_holds_def new_boolean_def array_holds_def array_add_def new_array_def array_is_set_def container_is_set_def)
  show ?thesis
    using c part
    by (simp add: container_holds_def sample_config_def sample_config_values_def new_config_def config_elements_def container_add_def
        new_container_def name_ok_def new_string_def member_holds_def new_boolean_def new_number_def number_holds_def number_assign_def no_flags_def
        new_section_def container_is_set_def new_array_def array_is_set_def)
qed

lemma sample_fits: "config_fits new_config sample_config_values"
proof -
  have c: "list_all (\<lambda>l. json_content (points l) = ascii l) sample_labels" using sample_label(1) by (simp add: list_all_iff)
  note c = c [unfolded sample_labels_def, simplified]
  show ?thesis using c
    by (simp add: container_fits_def new_config_def config_elements_def container_add_def new_container_def new_string_def
        sample_config_values_def new_section_def sample_section_values_def)
qed

lemma message_config_roundtrip_witness:
  "\<exists>c1 c2. to_string (config_ser False) sample_config = Some (True, config_json False sample_config_values, c1) \<and>
    from_string config_des config_clear (config_json False sample_config_values) new_config = (None, c2) \<and>
    config_holds c2 sample_config_values"
  by (rule message_config_roundtrip [OF config_sample_ready sample_holds sample_fits]) (simp add: config_sample_text ascii_def)

text \<open>C8: A configuration with such values in parts. The serializer is asked for it in buffers of any sizes, and its text
  arrives in parts of any sizes, cut inside of names, values, arrays and brackets at any depth: the parts written are the text,
  and the reader takes every part as a whole, stops at the bracket that closes the object, and has the same values, if
  a character that ends a value is behind the text, as a zero, a comma or a space, whatever follows that.\<close>

theorem message_config_parts:
  assumes "config_ready slash kvs" "config_holds c kvs" "config_fits d kvs"
    and "\<forall>n\<in>set ns. 0 < n" "length (config_json slash kvs) < sum_list ns"
    and "concat css @ final = config_json slash kvs" "[] \<notin> set css" "final \<noteq> []" "ends_value t"
  shows "\<exists>bss c1. write_parts (config_ser slash) ns c 0 = (bss, c1, 0) \<and> concat bss = concat css @ final \<and>
    (\<exists>c2 pos c3. read_parts config_des css (config_clear d) 0 = Some (c2, pos) \<and>
      config_des c2 (final @ t # tail) pos = (length final, c3, 0, None) \<and> config_holds c3 kvs)"
  by (rule configs.parts_transfer_from [OF assms(1,2) configs.clear_reads [OF assms(1,3)] assms(4-9)])

lemma message_config_parts_witness:
  "\<exists>bss c1. write_parts (config_ser False) [1, 5, 100] sample_config 0 = (bss, c1, 0) \<and>
    concat bss = concat [ascii ''{\"log'', ascii ''ging\":{\"settings\":[{\"module\":\"a\",\"ena''] @ ascii ''bled\":true}]},\"port\":80}'' \<and>
    (\<exists>c2 pos c3. read_parts config_des [ascii ''{\"log'', ascii ''ging\":{\"settings\":[{\"module\":\"a\",\"ena''] (config_clear new_config) 0 =
        Some (c2, pos) \<and>
      config_des c2 (ascii ''bled\":true}]},\"port\":80}'' @ 0 # []) pos = (length (ascii ''bled\":true}]},\"port\":80}''), c3, 0, None) \<and>
      config_holds c3 sample_config_values)"
  by (rule message_config_parts [OF config_sample_ready sample_holds sample_fits]) (simp_all add: config_sample_text ascii_def ends_value_def)

subsection \<open>What is not read\<close>

lemma container_write_closes: "container_write ser is_set slash turns c room None = ([], c, None)"
  by (cases turns) simp_all

text \<open>C38: An object without a value is written as two brackets, which a container with members refuses: the closing
  bracket is taken for one behind a comma. The members are cleared.\<close>

theorem empty_object_refused:
  assumes "jc_members c \<noteq> []" "\<not> jc_undefined c" "\<not> container_is_set is_set c"
  shows "\<exists>c1 c2. to_string (container_serialize ser is_set slash) c = Some (True, [123, 125], c1) \<and>
    from_string (container_deserialize clear des) (container_clear clear) [123, 125] c = (Some Element_expected, c2) \<and>
    jc_members c2 = map (\<lambda>m. (fst m, clear (clear (clear (snd m))))) (jc_members c)"
proof -
  have t: "takeWhile (\<lambda>m. \<not> is_set (snd m)) (jc_members c) = jc_members c"
    using assms(3) by (simp add: takeWhile_eq_all_conv container_is_set_def list_ex_iff)
  have o: "container_open is_set c = (c\<lparr>jc_iterator := length (jc_members c)\<rparr>, None)"
    by (simp add: container_open_def skip_unset_def t)
  have "container_serialize ser is_set slash c 1024 0 =
    ([123, 125], c\<lparr>jc_iterator := length (jc_members c), jc_field := string_clear (jc_field c)\<rparr>, 0)"
    using assms(2) by (simp add: container_serialize_def o container_write_closes)
  then have w: "\<exists>c1. to_string (container_serialize ser is_set slash) c = Some (True, [123, 125], c1)"
    by (simp add: to_string_def to_string_loop.simps [of _ c])
  obtain b where b: "b = (container_clear clear c)\<lparr>jc_field := string_clear (jc_field (container_clear clear c))\<rparr>" by blast
  obtain b' where b': "b' = (container_failed b)\<lparr>jc_complete := True\<rparr>" by blast
  have "container_read_turn des [125, 0] b 3 = (1, b', 0, Some Element_expected)"
    using assms(1) by (simp add: container_read_turn_def container_between_def is_space_def b b' container_clear_def)
  then have "container_read des (Suc 7) [125, 0] b 3 = (1, b', 0, Some Element_expected)" unfolding container_read.simps by simp
  moreover have "Suc 7 = 8" by simp
  ultimately have r: "container_read des 8 [125, 0] b 3 = (1, b', 0, Some Element_expected)" by simp
  then have d: "container_deserialize clear des (container_clear clear c) [123, 125, 0] 0 = (2, container_clear clear b', 0, Some Element_expected)"
    using r by (simp add: container_deserialize_def is_space_def b [symmetric])
  have "from_string (container_deserialize clear des) (container_clear clear) [123, 125] c =
      (Some Element_expected, container_clear clear (container_clear clear b'))"
    by (simp add: from_string_def from_string_loop.simps [of _ _ 0] d)
  then show ?thesis using w by (simp add: b' b container_clear_def container_failed_def)
qed

lemma empty_object_refused_witness:
  "\<exists>c1 c2. to_string (entry_ser False) new_entry = Some (True, [123, 125], c1) \<and>
    from_string entry_des (container_clear kind_clear) [123, 125] new_entry = (Some Element_expected, c2) \<and>
    jc_members c2 = map (\<lambda>m. (fst m, kind_clear (kind_clear (kind_clear (snd m))))) (jc_members new_entry)"
  by (rule empty_object_refused)
    (simp_all add: new_entry_def container_add_def new_container_def container_is_set_def new_string_def new_boolean_def)

end
