(* ===== verification/Message_Control.thy ===== *)
theory Message_Control
  imports Frame_Properties
begin

text \<open>
  The controls of traces and logs: \<open>Metadata\<close> of \<^verbatim>\<open>Source/core/MessageStore.*\<close> says what a message is about, a control
  whether it is wanted. Texts are lists of bytes, and a buffer is the list of the bytes that the caller hands over; an
  operation that reads or writes outside of it has no result. The name of the category of assertions comes from the build,
  and so does \<open>asserts\<close>, whether assertions are compiled in: then an operation whose assertion fails has no result, else it
  goes on.
\<close>

subsection \<open>Metadata\<close>

record metadata =
  md_type :: u8
  md_category :: "u8 list"
  md_module :: "u8 list"

abbreviation INVALID :: u8 where "INVALID \<equiv> 0"
abbreviation TRACING :: u8 where "TRACING \<equiv> 1"
abbreviation LOGGING :: u8 where "LOGGING \<equiv> 2"
abbreviation REPORTING :: u8 where "REPORTING \<equiv> 3"
abbreviation OPERATIONAL_STREAM :: u8 where "OPERATIONAL_STREAM \<equiv> 4"
abbreviation ASSERT :: u8 where "ASSERT \<equiv> 5"
abbreviation TELEMETRY :: u8 where "TELEMETRY \<equiv> 6"

definition new_metadata :: metadata where
  "new_metadata = \<lparr>md_type = INVALID, md_category = [], md_module = []\<rparr>"

definition metadata_default :: "metadata \<Rightarrow> bool" where
  "metadata_default md \<longleftrightarrow> \<not> (md_type md = TRACING \<or> md_type md = TELEMETRY)"

definition specific :: "metadata \<Rightarrow> bool" where
  "specific md \<longleftrightarrow> md_type md = LOGGING \<or> md_category md \<noteq> [] \<and> md_module md \<noteq> []"

definition applicable :: "metadata \<Rightarrow> metadata \<Rightarrow> bool" where
  "applicable md rhs \<longleftrightarrow> md_type rhs = md_type md \<and>
     (md_module rhs = [] \<or> md_module md = [] \<or> md_module rhs = md_module md) \<and>
     (md_category rhs = [] \<or> md_category md = [] \<or> md_category rhs = md_category md)"

definition names :: "string \<Rightarrow> u8 list" where
  "names s = map of_char s"

text \<open>The modules of the types that have one of their own.\<close>

definition fixed_module :: "u8 \<Rightarrow> u8 list option" where
  "fixed_module t =
     (if t = LOGGING then Some (names ''SysLog'') else if t = REPORTING then Some (names ''Reporting'')
      else if t = OPERATIONAL_STREAM then Some (names ''Operational Stream'') else None)"

definition has_module :: "u8 \<Rightarrow> bool" where
  "has_module t \<longleftrightarrow> t = TRACING \<or> t = TELEMETRY"

subsection \<open>Metadata as bytes\<close>

text \<open>An assertion, with what follows it.\<close>

definition asserted :: "bool \<Rightarrow> bool \<Rightarrow> 'a option \<Rightarrow> 'a option" where
  "asserted asserts condition result = (if asserts \<and> \<not> condition then None else result)"

lemma asserted_simps [simp]:
  "asserted asserts True r = r" "asserted False c r = r" "asserted asserts c r = Some x \<longleftrightarrow> (asserts \<longrightarrow> c) \<and> r = Some x"
  by (auto simp: asserted_def)

text \<open>\<^verbatim>\<open>FrameType<0>\<close> over the buffer.\<close>

definition message_kind :: frame_kind where
  "message_kind = \<lparr>fk_block = 0, fk_big = True, fk_bits = 16, fk_granted = \<lambda>n. False\<rparr>"

definition buffer_frame :: "u8 list \<Rightarrow> frame" where
  "buffer_frame buffer = \<lparr>fr_size = length buffer, fr_capacity = length buffer, fr_memory = \<lambda>i. if i < length buffer then buffer ! i else 0\<rparr>"

definition metadata_length :: "metadata \<Rightarrow> nat" where
  "metadata_length md =
     (1 + (if md_type md \<noteq> ASSERT
           then length (md_category md) + 1 + (if has_module (md_type md) then length (md_module md) + 1 else 0) else 0)) mod 2 ^ 16"

definition metadata_fields :: "metadata \<Rightarrow> field list" where
  "metadata_fields md = Byte (md_type md) #
     (if md_type md \<noteq> ASSERT
      then Terminated (md_category md) # (if has_module (md_type md) then [Terminated (md_module md)] else []) else [])"

definition metadata_serialize :: "bool \<Rightarrow> metadata \<Rightarrow> u8 list \<Rightarrow> (nat \<times> u8 list) option" where
  "metadata_serialize asserts md buffer =
     asserted asserts (metadata_length md \<le> length buffer)
      (if metadata_length md \<le> length buffer
       then map_option (\<lambda>(offset, f). (metadata_length md, segment f 0 (length buffer)))
              (write_all (write_field message_kind) (metadata_fields md) (0, buffer_frame buffer))
       else Some (0, buffer))"

definition metadata_deserialize :: "bool \<Rightarrow> u8 list \<Rightarrow> metadata \<Rightarrow> u8 list \<Rightarrow> (nat \<times> metadata) option" where
  "metadata_deserialize asserts assert_category md buffer =
     asserted asserts (1 < length buffer)
      (if 1 < length buffer then
         Option.bind (reader_number message_kind (buffer_frame buffer) 0) (\<lambda>(offset, t :: u8).
           if t = ASSERT then
             Some (min (length buffer) 1, md\<lparr>md_type := t, md_category := assert_category, md_module := names ''Assert''\<rparr>)
           else
             Option.bind (reader_null_terminated message_kind (buffer_frame buffer) offset) (\<lambda>(offset, category).
               if has_module t then
                 map_option (\<lambda>(offset, module).
                     (min (length buffer) ((1 + (length category + 1) + (length module + 1)) mod 2 ^ 16),
                      md\<lparr>md_type := t, md_category := category, md_module := module\<rparr>))
                   (reader_null_terminated message_kind (buffer_frame buffer) offset)
               else
                 asserted asserts (fixed_module t \<noteq> None \<or> t \<noteq> INVALID)
                   (Some (min (length buffer) ((1 + (length category + 1)) mod 2 ^ 16),
                          md\<lparr>md_type := t, md_category := category,
                             md_module := (case fixed_module t of None \<Rightarrow> md_module md | Some module \<Rightarrow> module)\<rparr>))))
       else Some (0, md))"

text \<open>\<open>MessageUnit::Control\<close>: the metadata with a flag.\<close>

type_synonym control = "metadata \<times> bool"

definition control_serialize :: "bool \<Rightarrow> control \<Rightarrow> u8 list \<Rightarrow> (nat \<times> u8 list) option" where
  "control_serialize asserts c buffer =
     map_option (\<lambda>(n, buffer).
         if n = 0 \<or> length buffer \<le> n then (0, buffer) else (n + 1, buffer[n := if snd c then 1 else 0]))
       (metadata_serialize asserts (fst c) buffer)"

definition control_deserialize :: "bool \<Rightarrow> u8 list \<Rightarrow> control \<Rightarrow> u8 list \<Rightarrow> (nat \<times> control) option" where
  "control_deserialize asserts assert_category c buffer =
     map_option (\<lambda>(n, md). if n = 0 \<or> length buffer \<le> n then (0, (md, snd c)) else (n + 1, (md, buffer ! n \<noteq> 0)))
       (metadata_deserialize asserts assert_category (fst c) buffer)"

subsection \<open>The announced controls\<close>

text \<open>\<open>MessageUnit::Serialize\<close> for a module: the controls that fit, one behind the other.\<close>

fun list_controls :: "bool \<Rightarrow> u8 list \<Rightarrow> control list \<Rightarrow> u8 list \<Rightarrow> nat \<Rightarrow> (nat \<times> u8 list) option" where
  "list_controls asserts module [] buffer offset = Some (offset, buffer)"
| "list_controls asserts module (c # cs) buffer offset =
     (if md_module (fst c) = module then
        Option.bind (control_serialize asserts c (drop offset buffer)) (\<lambda>(moved, tail).
          list_controls asserts module cs (take offset buffer @ tail) (offset + moved))
      else list_controls asserts module cs buffer offset)"

text \<open>\<open>Client::Load\<close>: what is read of the answer; a control whose metadata is known is left out.\<close>

function client_load :: "bool \<Rightarrow> u8 list \<Rightarrow> u8 list \<Rightarrow> control list \<Rightarrow> control list option" where
  "client_load asserts assert_category bytes info =
     (if bytes = [] then Some info
      else
        case control_deserialize asserts assert_category (new_metadata, False) bytes of
          None \<Rightarrow> None
        | Some (n, entry) \<Rightarrow>
            if n = 0 then Some info
            else client_load asserts assert_category (drop n bytes) (if fst entry \<in> fst ` set info then info else info @ [entry]))"
  by pat_completeness auto
termination by (relation "measure (\<lambda>(asserts, a, bytes, info). length bytes)") auto

declare client_load.simps [simp del]

text \<open>The modules: their number as a byte, and their names.\<close>

definition announced_modules :: "control list \<Rightarrow> u8 list list" where
  "announced_modules cs = fold (\<lambda>c ms. if md_module (fst c) \<in> set ms then ms else ms @ [md_module (fst c)]) cs []"

definition list_modules :: "bool \<Rightarrow> control list \<Rightarrow> u8 list \<Rightarrow> (nat \<times> u8 list) option" where
  "list_modules asserts cs buffer =
     asserted asserts (length (announced_modules cs) < 256)
      (map_option (\<lambda>(offset, f). (offset, segment f 0 (length buffer)))
        (write_all (write_field message_kind)
          (Byte (of_nat (length (announced_modules cs))) # map Terminated (announced_modules cs)) (0, buffer_frame buffer)))"

fun read_modules :: "nat \<Rightarrow> frame \<Rightarrow> nat \<Rightarrow> u8 list list \<Rightarrow> u8 list list option" where
  "read_modules 0 f offset ms = Some ms"
| "read_modules (Suc n) f offset ms =
     Option.bind (reader_null_terminated message_kind f offset) (\<lambda>(offset, module).
       read_modules n f offset (if module \<in> set ms then ms else ms @ [module]))"

definition client_modules :: "u8 list \<Rightarrow> u8 list list \<Rightarrow> u8 list list option" where
  "client_modules bytes ms =
     Option.bind (reader_number message_kind (buffer_frame bytes) 0) (\<lambda>(offset, n :: u8). read_modules (unat n) (buffer_frame bytes) offset ms)"

text \<open>\<open>MessageUnit::Update\<close> of a control, and of all of them after the settings were read; \<open>Announce\<close> of a new one.\<close>

definition unit_update :: "metadata \<Rightarrow> bool \<Rightarrow> control list \<Rightarrow> control list" where
  "unit_update info enable cs = map (\<lambda>(md, enabled). (md, if applicable info md \<and> enabled \<noteq> enable then enable else enabled)) cs"

subsection \<open>Requests of a client\<close>

text \<open>
  \<open>MetadataFrameHandler\<close>: the first byte of a request says what is wanted, 0 for an update, 1 for the controls of a
  module, 2 for the modules. \<open>out\<close> is the buffer of the settings' size, with whatever it has; a request that is not known
  leaves the response of the message.
\<close>

definition metadata_procedure :: "bool \<Rightarrow> u8 list \<Rightarrow> u8 list \<Rightarrow> u8 list \<Rightarrow> control list \<Rightarrow> u8 list \<Rightarrow> (control list \<times> u8 list) option" where
  "metadata_procedure asserts assert_category out response cs request =
     asserted asserts (request \<noteq> []) (Option.bind (reader_number message_kind (buffer_frame request) 0) (\<lambda>(offset, protocol :: u8).
       if protocol = 0 then
         map_option (\<lambda>(n, c). (unit_update (fst c) (snd c) cs, []))
           (control_deserialize asserts assert_category (new_metadata, False) (drop offset request))
       else if protocol = 1 then
         asserted asserts (offset < length request)
          (Option.bind (reader_null_terminated message_kind (buffer_frame request) offset) (\<lambda>(offset, module).
            map_option (\<lambda>(n, buffer). (cs, take n buffer)) (list_controls asserts module cs out 0)))
       else if protocol = 2 then map_option (\<lambda>(n, buffer). (cs, take n buffer)) (list_modules asserts cs out)
       else asserted asserts False (Some (cs, response))))"

text \<open>\<open>Client::Update\<close>: the request, or nothing where the control does not fit; \<open>Client::Load\<close> and its buffer of 64 bytes.\<close>

definition client_update :: "bool \<Rightarrow> metadata \<Rightarrow> bool \<Rightarrow> u8 list \<Rightarrow> u8 list option option" where
  "client_update asserts md enabled buffer =
     Option.bind (writer_number message_kind (0 :: u8) (0, buffer_frame buffer)) (\<lambda>(offset, f).
       map_option (\<lambda>(n, tail). if n \<noteq> 0 then Some (segment f 0 offset @ take n tail) else None)
         (control_serialize asserts (md, enabled) (segment f offset (length buffer - offset))))"

definition client_ask_controls :: "u8 list \<Rightarrow> u8 list \<Rightarrow> u8 list option" where
  "client_ask_controls module buffer =
     map_option (\<lambda>(offset, f). segment f 0 offset)
       (write_all (write_field message_kind) [Byte 1, Terminated module] (0, buffer_frame (take 64 buffer)))"

definition client_ask_modules :: "u8 list option" where
  "client_ask_modules = map_option (\<lambda>(offset, f). segment f 0 offset) (writer_number message_kind (2 :: u8) (0, buffer_frame [0]))"

subsection \<open>The settings\<close>

fun is_enabled_loop :: "metadata \<Rightarrow> control list \<Rightarrow> bool \<Rightarrow> bool" where
  "is_enabled_loop md [] result = result"
| "is_enabled_loop md (c # cs) result =
     (if fst c = md then snd c else is_enabled_loop md cs (if applicable (fst c) md then snd c else result))"

definition is_enabled :: "control list \<Rightarrow> metadata \<Rightarrow> bool" where
  "is_enabled settings md = is_enabled_loop md settings (metadata_default md)"

definition last_applicable :: "metadata \<Rightarrow> control list \<Rightarrow> bool \<Rightarrow> bool" where
  "last_applicable md cs enabled = fold (\<lambda>c enabled. if applicable (fst c) md then snd c else enabled) cs enabled"

text \<open>\<open>Settings::Update\<close>\<close>

definition settings_update :: "metadata \<Rightarrow> bool \<Rightarrow> control list \<Rightarrow> control list" where
  "settings_update md enable settings =
     (let front = takeWhile (\<lambda>c. fst c \<noteq> md) settings;
          index = dropWhile (\<lambda>c. fst c \<noteq> md) settings;
          enabled = last_applicable md front (metadata_default md);
          (settings, enabled) =
            (if index \<noteq> [] then (front @ tl index, last_applicable md (tl index) enabled) else (settings, enabled))
      in if enabled \<noteq> enable then settings @ [(md, enable)] else settings)"

definition unit_apply :: "control list \<Rightarrow> control list \<Rightarrow> control list" where
  "unit_apply settings cs =
     map (\<lambda>(md, enabled). (md, if is_enabled settings md \<noteq> enabled then is_enabled settings md else enabled)) cs"

definition announce_control :: "control list option \<Rightarrow> control \<Rightarrow> control list \<Rightarrow> control list" where
  "announce_control kept c cs = cs @ [case kept of None \<Rightarrow> c | Some settings \<Rightarrow> (fst c, is_enabled settings (fst c))]"

end
