(* ===== verification/Control_Properties.thy ===== *)
theory Control_Properties
  imports Message_Control
begin

text \<open>
  The properties of the controls: what a client asks a unit for arrives, what the unit lists is what the client has, and
  the settings say what was last asked for.
\<close>

subsection \<open>The bytes of a control\<close>




lemma byte_bytes [simp]: "ordered_bytes message_kind (v :: u8) = [v]"
  using one_byte(1) [where ?'a = 8, of message_kind v] by simp




lemma buffer_room: "length buffer < 2 ^ 16 \<Longrightarrow> frame_room message_kind (length buffer) (buffer_frame buffer)"
  by (simp add: frame_room_def message_kind_def buffer_frame_def)

lemma buffer_segment: "i + n \<le> length buffer \<Longrightarrow> segment (buffer_frame buffer) i n = take n (drop i buffer)"
  by (rule segment_eqI) (simp_all add: buffer_frame_def)

lemma wrote_buffer:
  assumes "wrote 0 bs (buffer_frame buffer) f" "length bs \<le> length buffer"
  shows "segment f 0 (length buffer) = bs @ drop (length bs) buffer"
proof -
  have "segment f 0 (length bs + (length buffer - length bs)) = bs @ segment f (length bs) (length buffer - length bs)"
    using assms(1) by (simp add: segment_append wrote_def)
  moreover have "segment f (length bs) (length buffer - length bs) = segment (buffer_frame buffer) (length bs) (length buffer - length bs)"
    using assms(1) by (intro segment_cong) (auto simp: wrote_def)
  ultimately show ?thesis using assms(2) buffer_segment [of "length bs" "length buffer - length bs" buffer] by simp
qed

text \<open>Fields written to a buffer, and read from it.\<close>

lemma write_buffer:
  assumes "\<forall>v\<in>set vs. field_fits message_kind v" "length buffer < 2 ^ 16" "vs \<noteq> []"
    "bs = concat (map (field_bytes message_kind) vs)" "length bs \<le> length buffer"
  shows "\<exists>f. write_all (write_field message_kind) vs (0, buffer_frame buffer) = Some (length bs, f) \<and>
    segment f 0 (length buffer) = bs @ drop (length bs) buffer \<and> segment f 0 (length bs) = bs"
proof -
  obtain f where f: "write_all (write_field message_kind) vs (0, buffer_frame buffer) = Some (length bs, f)"
    "wrote 0 bs (buffer_frame buffer) f"
    using field.write_all_fields [OF assms(1) buffer_room [OF assms(2)], of 0] assms(3-5) by auto
  then show ?thesis using wrote_buffer [OF f(2) assms(5)] by (auto simp: wrote_def)
qed

lemma reads_byte:
  assumes "length bs < 2 ^ 16" "drop i bs = v # rest"
  shows "reader_number message_kind (buffer_frame bs) i = Some (i + 1, v :: u8)"
proof -
  have l: "i < length bs" using assms(2) by (cases "i < length bs") simp_all
  have "segment (buffer_frame bs) i 1 = [v]" using buffer_segment [of i 1 bs] assms(2) l by simp
  then show ?thesis
    using number_field.reads [OF _ buffer_room [OF assms(1)], where ?'a = 8, of i v] l by (simp add: buffer_frame_def)
qed

lemma reads_terminated:
  assumes "length bs < 2 ^ 16" "drop i bs = v @ 0 # rest" "0 \<notin> set v"
  shows "reader_null_terminated message_kind (buffer_frame bs) i = Some (i + length v + 1, v)"
proof -
  have "length (drop i bs) = length v + 1 + length rest" using assms(2) by simp
  then have l: "i + (length v + 1) \<le> length bs" by simp
  have "segment (buffer_frame bs) i (length v + 1) = v @ [0]" using buffer_segment [OF l] assms(2) by simp
  then show ?thesis
    using terminated_field.reads [OF assms(3) buffer_room [OF assms(1)], of i] l by (simp add: buffer_frame_def add.assoc)
qed





subsection \<open>Controls that a unit lists\<close>








definition two_controls :: "control list" where
  "two_controls =
     [(\<lparr>md_type = TRACING, md_category = names ''Error'', md_module = names ''Core''\<rparr>, True),
      (\<lparr>md_type = LOGGING, md_category = names ''Startup'', md_module = names ''SysLog''\<rparr>, False)]"


text \<open>Where a control does not fit, a build with assertions stops in \<open>Metadata::Serialize\<close>.\<close>

lemma controls_cut_asserts:
  "metadata_procedure True [] (replicate 8 0) [] two_controls (1 # names ''Core'' @ [0]) = None"
proof -
  have "reader_number message_kind (buffer_frame (1 # names ''Core'' @ [0])) 0 = Some (0 + 1, 1 :: u8)"
    by (rule reads_byte) (simp_all add: names_def)
  moreover have "reader_null_terminated message_kind (buffer_frame (1 # names ''Core'' @ [0])) 1 = Some (1 + 4 + 1, names ''Core'')"
    using reads_terminated [of "1 # names ''Core'' @ [0]" 1 "names ''Core''" "[]"] by (simp add: names_def)
  ultimately show ?thesis
    by (simp add: metadata_procedure_def two_controls_def control_serialize_def metadata_serialize_def metadata_length_def asserted_def
        has_module_def names_def)
qed



subsection \<open>Modules that a unit lists\<close>

lemma announced_fold:
  "distinct ms \<Longrightarrow> distinct (fold (\<lambda>c ms. if f c \<in> set ms then ms else ms @ [f c]) cs ms)"
  "set (fold (\<lambda>c ms. if f c \<in> set ms then ms else ms @ [f c]) cs ms) = set ms \<union> f ` set cs"
  by (induction cs arbitrary: ms) auto

lemma announced_modules_distinct: "distinct (announced_modules cs)"
  unfolding announced_modules_def by (rule announced_fold(1)) simp

lemma announced_modules_set: "set (announced_modules cs) = (\<lambda>c. md_module (fst c)) ` set cs"
  unfolding announced_modules_def announced_fold(2) [where f = "\<lambda>c. md_module (fst c)"] by simp

lemma modules_read:
  assumes "length bs < 2 ^ 16" "drop i bs = concat (map (\<lambda>m. m @ [0]) ms)" "\<forall>m\<in>set ms. 0 \<notin> set m" "distinct (have @ ms)"
  shows "read_modules (length ms) (buffer_frame bs) i have = Some (have @ ms)"
  using assms
proof (induction ms arbitrary: i "have")
  case (Cons m ms)
  have "drop (i + length m + 1) bs = drop (length m + 1) (drop i bs)" by (simp add: add.commute add.left_commute)
  also have "\<dots> = concat (map (\<lambda>m. m @ [0]) ms)" by (simp add: Cons.prems(2))
  finally have d: "drop (i + length m + 1) bs = concat (map (\<lambda>m. m @ [0]) ms)" .
  have "reader_null_terminated message_kind (buffer_frame bs) i = Some (i + length m + 1, m)"
    by (rule reads_terminated [OF Cons.prems(1), where rest = "concat (map (\<lambda>m. m @ [0]) ms)"]) (use Cons.prems in simp_all)
  then show ?case using Cons.IH [OF Cons.prems(1) d, of "have @ [m]"] Cons.prems by simp
qed simp

text \<open>C40: A client that asks a unit for its modules has the names of the modules of all announced controls, each
  once, if there are less than 256, their names have no zero bytes, and they fit into the unit's buffer of less than 64 KB;
  where they do not fit, they are written behind it (\<open>modules_leave_buffer\<close>).\<close>

theorem client_sees_modules:
  assumes "\<forall>c\<in>set cs. 0 \<notin> set (md_module (fst c))" "length (announced_modules cs) < 256" "length out < 2 ^ 16"
    "1 + length (concat (map (\<lambda>m. m @ [0]) (announced_modules cs))) \<le> length out"
  shows "\<exists>request response. client_ask_modules = Some request \<and> metadata_procedure asserts a out old cs request = Some (cs, response) \<and>
    client_modules response [] = Some (announced_modules cs) \<and> distinct (announced_modules cs) \<and>
    set (announced_modules cs) = (\<lambda>c. md_module (fst c)) ` set cs"
proof -
  obtain ms where ms: "ms = announced_modules cs" by blast
  have z: "\<forall>m\<in>set ms. 0 \<notin> set m" using assms(1) by (auto simp: ms announced_modules_set)
  obtain bs :: "u8 list" where bs: "bs = of_nat (length ms) # concat (map (\<lambda>m. m @ [0]) ms)" by blast
  have e: "bs = concat (map (field_bytes message_kind) (Byte (of_nat (length ms)) # map Terminated ms))"
    by (simp add: bs comp_def)
  obtain f where f: "write_all (write_field message_kind) (Byte (of_nat (length ms)) # map Terminated ms) (0, buffer_frame out) = Some (length bs, f)"
    "segment f 0 (length out) = bs @ drop (length bs) out"
    using write_buffer [OF _ assms(3) _ e] assms(4) z by (auto simp: bs ms)
  have l: "length bs \<le> length out" "length bs < 2 ^ 16" using assms(3,4) by (simp_all add: bs ms)
  have listed: "list_modules asserts cs out = Some (length bs, bs @ drop (length bs) out)" using f assms(2) by (simp add: list_modules_def ms)
  have n: "unat (of_nat (length ms) :: u8) = length ms" using assms(2) by (simp add: unat_of_nat ms)
  have "reader_number message_kind (buffer_frame bs) 0 = Some (0 + 1, of_nat (length ms) :: u8)"
    by (rule reads_byte [OF l(2)]) (simp add: bs)
  moreover have "read_modules (length ms) (buffer_frame bs) 1 [] = Some ([] @ ms)"
    by (rule modules_read [OF l(2)]) (use z announced_modules_distinct in \<open>simp_all add: bs ms\<close>)
  ultimately have read: "client_modules bs [] = Some ms" by (simp add: client_modules_def n)
  have "client_ask_modules = Some [2]"
    using number_field.writes [OF _ buffer_room [of "[0]"], where ?'a = 8, of 0 2]
    by (auto simp: client_ask_modules_def wrote_def)
  moreover have "metadata_procedure asserts a out old cs [2] = Some (cs, bs)"
    using reads_byte [of "[2]" 0 2 "[]"] listed by (simp add: metadata_procedure_def)
  ultimately show ?thesis using read by (auto simp: ms announced_modules_distinct announced_modules_set)
qed

lemma client_sees_modules_witness:
  "\<exists>request response. client_ask_modules = Some request \<and>
    metadata_procedure True [] (replicate 64 0) [] two_controls request = Some (two_controls, response) \<and>
    client_modules response [] = Some [names ''Core'', names ''SysLog'']"
proof -
  have "announced_modules two_controls = [names ''Core'', names ''SysLog'']" by code_simp
  then show ?thesis
    using client_sees_modules [of two_controls "replicate 64 0" True "[]" "[]"] by (auto simp: two_controls_def names_def)
qed

text \<open>What does not fit is written all the same, behind the buffer.\<close>

lemma modules_leave_buffer: "list_modules asserts two_controls (replicate 8 0) = None"
proof -
  have "announced_modules two_controls = [names ''Core'', names ''SysLog'']" by code_simp
  then show ?thesis
    by (simp add: list_modules_def writer_number_def set_number_def real_size_def offset_sum_def message_kind_def buffer_frame_def store_def
        moved_def to_size_def writer_null_terminated_def set_null_terminated_def names_def Let_def set_size_def allocate_def)
qed

subsection \<open>Settings\<close>

lemma enabled_front:
  "md \<notin> fst ` set cs \<Longrightarrow> is_enabled_loop md (cs @ ds) result = is_enabled_loop md ds (last_applicable md cs result)"
  by (induction cs arbitrary: result) (auto simp: last_applicable_def)

lemma enabled_none: "md \<notin> fst ` set cs \<Longrightarrow> is_enabled_loop md cs result = last_applicable md cs result"
  using enabled_front [of md cs "[]"] by simp

lemma enabled_without:
  "\<not> applicable other md \<Longrightarrow> is_enabled_loop md (cs @ (other, e) # ds) result = is_enabled_loop md (cs @ ds) result"
  by (induction cs arbitrary: result) (auto simp: applicable_def)

lemma applicable_refl: "applicable md md"
  by (simp add: applicable_def)

text \<open>The first entry of the metadata itself is taken out, the rest is asked, and only a difference is kept.\<close>

lemma settings_update_cases:
  obtains (absent) "md \<notin> fst ` set settings" "settings_update md enable settings =
      (if last_applicable md settings (metadata_default md) \<noteq> enable then settings @ [(md, enable)] else settings)"
    | (present) front e behind where "settings = front @ (md, e) # behind" "md \<notin> fst ` set front" "settings_update md enable settings =
      (if last_applicable md (front @ behind) (metadata_default md) \<noteq> enable then front @ behind @ [(md, enable)] else front @ behind)"
proof (cases "md \<in> fst ` set settings")
  case False
  then have "takeWhile (\<lambda>c. fst c \<noteq> md) settings = settings" "dropWhile (\<lambda>c. fst c \<noteq> md) settings = []"
    by (auto simp: takeWhile_eq_all_conv dropWhile_eq_Nil_conv)
  then have "settings_update md enable settings =
      (if last_applicable md settings (metadata_default md) \<noteq> enable then settings @ [(md, enable)] else settings)"
    by (simp add: settings_update_def del: takeWhile_eq_all_conv dropWhile_eq_Nil_conv)
  with False show ?thesis by (rule absent)
next
  case True
  then obtain c where "c \<in> set settings" "fst c = md" by auto
  then obtain front c behind where s: "settings = front @ c # behind" "fst c = md" "\<forall>d\<in>set front. fst d \<noteq> md"
    using split_list_first_prop [of settings "\<lambda>c. fst c = md"] by blast
  then have s: "settings = front @ (md, snd c) # behind" "md \<notin> fst ` set front" by auto
  have "takeWhile (\<lambda>c. fst c \<noteq> md) settings = front" "dropWhile (\<lambda>c. fst c \<noteq> md) settings = (md, snd c) # behind"
    using s(2) unfolding s(1) by (induction front) auto
  then have "settings_update md enable settings =
      (if last_applicable md (front @ behind) (metadata_default md) \<noteq> enable then front @ behind @ [(md, enable)] else front @ behind)"
    by (simp add: settings_update_def last_applicable_def)
  with s show ?thesis by (rule present)
qed

text \<open>An entry of the metadata itself decides, the first one of them.\<close>

lemma enabled_first:
  "is_enabled_loop md cs result =
    (case filter (\<lambda>c. fst c = md) cs of [] \<Rightarrow> last_applicable md cs result | c # _ \<Rightarrow> snd c)"
proof (induction cs arbitrary: result)
  case (Cons c cs)
  then show ?case by (cases "fst c = md") (simp_all add: last_applicable_def split: list.split)
qed (simp add: last_applicable_def)

text \<open>C9: Whatever the settings of a unit are, with wildcards before and behind it: after an update of some metadata they
  have the value that was asked for if they had this metadata at most once, as they always do from then on if no
  metadata was in them twice; where they had it more often, the second of these entries decides, whatever was asked for.
  Metadata that the update is not applicable to has the value it had.\<close>

theorem settings_keep_update:
  shows "is_enabled (settings_update md enable settings) md =
      (case drop 1 (filter (\<lambda>c. fst c = md) settings) of [] \<Rightarrow> enable | c # _ \<Rightarrow> snd c)
    \<and> (distinct (map fst settings) \<longrightarrow> distinct (map fst (settings_update md enable settings)))
    \<and> (\<forall>other. \<not> applicable md other \<longrightarrow> is_enabled (settings_update md enable settings) other = is_enabled settings other)"
proof (cases rule: settings_update_cases [where md = md and settings = settings and enable = enable])
  case absent
  then have "filter (\<lambda>c. fst c = md) settings = []" by (auto simp: filter_empty_conv)
  with absent show ?thesis
    using enabled_without [where cs = settings and ds = "[]" and other = md and e = enable] by (auto simp: is_enabled_def enabled_first [of md])
next
  case (present front e behind)
  then have "filter (\<lambda>c. fst c = md) front = []" by (auto simp: filter_empty_conv)
  then have "is_enabled (settings_update md enable settings) md =
      (case drop 1 (filter (\<lambda>c. fst c = md) settings) of [] \<Rightarrow> enable | c # _ \<Rightarrow> snd c)"
    using present(1,3) by (auto simp: is_enabled_def enabled_first split: list.split)
  moreover have "distinct (map fst settings) \<longrightarrow> distinct (map fst (settings_update md enable settings))"
    using present by auto
  moreover have "is_enabled (settings_update md enable settings) other = is_enabled settings other" if "\<not> applicable md other" for other
    using enabled_without [OF that, of front e behind] enabled_without [OF that, of "front @ behind" enable "[]"] present(1,3)
    by (auto simp: is_enabled_def)
  ultimately show ?thesis by blast
qed

definition core_errors :: metadata where
  "core_errors = \<lparr>md_type = TRACING, md_category = names ''Error'', md_module = names ''Core''\<rparr>"

definition core_all :: metadata where
  "core_all = \<lparr>md_type = TRACING, md_category = [], md_module = names ''Core''\<rparr>"

definition com_errors :: metadata where
  "com_errors = \<lparr>md_type = TRACING, md_category = names ''Error'', md_module = names ''Com''\<rparr>"

lemma settings_keep_update_witness:
  "is_enabled (settings_update core_errors False [(core_errors, True), (core_all, True)]) core_errors = False \<and>
    distinct (map fst (settings_update core_errors False [(core_errors, True), (core_all, True)])) \<and>
    is_enabled (settings_update core_errors False [(core_errors, True), (core_all, True)]) com_errors =
      is_enabled [(core_errors, True), (core_all, True)] com_errors"
proof -
  have "distinct (map fst [(core_errors, True), (core_all, True)])" "\<not> applicable core_errors com_errors"
    "filter (\<lambda>c. fst c = core_errors) [(core_errors, True), (core_all, True)] = [(core_errors, True)]"
    by (simp_all add: core_errors_def core_all_def com_errors_def names_def applicable_def)
  then show ?thesis using settings_keep_update [of core_errors False "[(core_errors, True), (core_all, True)]"] by simp
qed

text \<open>
  The settings of the configuration may have metadata twice. \<open>Update\<close> takes out the first entry only, and the second
  is the one that is found: the update is lost.
\<close>

lemma double_settings_lose_update:
  "is_enabled (settings_update core_errors False [(core_errors, True), (core_errors, True), (core_all, False)]) core_errors"
  by (simp add: settings_update_def last_applicable_def is_enabled_def applicable_def metadata_default_def core_errors_def core_all_def names_def)

end
