(* ===== verification/Spec2Isabelle.thy ===== *)
theory Spec2Isabelle
  imports Errors Conditions Lifecycle_Properties Cyclic_Properties Message_Buffer Link_Properties Category_Properties Timer Job_Properties Throttle_Queue Serialization Hmac Frame_Properties Numbers Ipc_Properties Ipc_Calls Json_Properties Config_Properties Control_Properties
begin

text \<open>
  Thunder runs plugins: a host loads, activates, suspends and unloads them, and they talk to it and to
  each other through remote procedure calls, web sockets and a buffer for messages. This development
  models the parts of its core that are logic of its own, from the C++ sources under
  \<^verbatim>\<open>src/Thunder/Source\<close>, and proves what makes each of them correct, or where it is not.

  The parts and how they interact. The host keeps a shell for each plugin (\<^verbatim>\<open>Thunder/PluginServer.*\<close>), whose
  operations are triggered by requests, by the conditions of the plugin (a set of subsystems that must be
  up) and by a process that dies; they call the plugin and inform the observers. Work is done by a pool
  of threads (\<^verbatim>\<open>core/ThreadPool.h\<close>, \<^verbatim>\<open>core/WorkerPool.h\<close>) that takes jobs from queues (\<^verbatim>\<open>core/Queue.h\<close>) and from a
  timer (\<^verbatim>\<open>core/Timer.h\<close>). Processes exchange calls as messages (\<^verbatim>\<open>com/Messages.h\<close>) made of frames
  (\<^verbatim>\<open>core/Frame.h\<close>) over links (\<^verbatim>\<open>core/IPCConnector.h\<close>, \<^verbatim>\<open>core/Link.h\<close>), traces and logs through a cyclic buffer in shared
  memory (\<^verbatim>\<open>core/CyclicBuffer.*\<close>, \<^verbatim>\<open>messaging/MessageDispatcher.h\<close>), browsers and tools through web sockets
  (\<^verbatim>\<open>websocket/WebSocketLink.*\<close>), whose handshake needs the digests and encodings of \<^verbatim>\<open>cryptalgo\<close> and
  \<^verbatim>\<open>core/Serialization.cpp\<close>. What they exchange with the host, and its configuration, are texts in JSON (\<^verbatim>\<open>core/JSON.*\<close>).

  Theories.
  \<^item> \<open>Prelude\<close>: names of the machine integers, collections of rules, byte arrays and little endian words.
  \<^item> \<open>Errors\<close> (\<^verbatim>\<open>core/Errors.h\<close>): result codes and their numbers.
  \<^item> \<open>Conditions\<close> (\<open>Condition\<close> in \<^verbatim>\<open>Thunder/PluginServer.h\<close>): when a precondition or a termination is met, for
    every set of subsystems, and which changes \<open>Evaluate\<close> reports.
  \<^item> \<open>Lifecycle\<close>, \<open>Lifecycle_Facts\<close>, \<open>Lifecycle_Runs\<close>, \<open>Lifecycle_Properties\<close> (\<open>Service\<close> in
    \<^verbatim>\<open>Thunder/PluginServer.cpp\<close>): the shell is a record of its state, its locks, what it holds of the plugin
    and the calls it has made; each operation is a sequence of steps on it. The facts are shown for every
    operation once and carried to any sequence of operations by the locale \<open>shell_contract\<close>: state and
    possessions agree, locks are given back, calls to the plugin and to the observers alternate, and
    activation, deactivation and evaluation refine a small abstract machine.
  \<^item> \<open>Ring\<close>, \<open>Cyclic_Buffer\<close>, \<open>Cyclic_Properties\<close>, \<open>Message_Buffer\<close>: reading and writing with wrap-around as
    operations on the list of bytes in the buffer; messages with a length in front as a queue; the lock
    between processes.
  \<^item> \<open>Bounded_Queue\<close>, \<open>Category_Queue\<close>, \<open>Category_Properties\<close>, \<open>Throttle_Queue\<close> (\<^verbatim>\<open>core/Queue.h\<close>,
    \<^verbatim>\<open>Thunder/PluginServer.h\<close>): queues as lists, first in and first out for each category, and the accounting of
    slots; \<open>Timer\<close>: schedules as sorted lists. \<open>Jobs\<close>, \<open>Job_Properties\<close> (\<^verbatim>\<open>core/ThreadPool.h\<close>, \<^verbatim>\<open>core/WorkerPool.h\<close>): a job
    whose users, units and timer interleave in steps, one for each access to its state, the queue and the timer; a job has
    one copy and runs once at a time as long as revokes are \<open>calm\<close>, and concrete runs show what happens otherwise.
  \<^item> \<open>Tokens\<close>, \<open>Serialization\<close>, \<open>Numbers\<close>: strings cut at separators; hexadecimal, base64, UTF-8 and UTF-16;
    numbers as texts. Round trips, bounds, and the inputs that break them.
  \<^item> \<open>Hash\<close>, \<open>Hash_Facts\<close>, \<open>Hash_Properties\<close>, \<open>Hash_Legacy\<close>, \<open>Hmac\<close> (\<^verbatim>\<open>cryptalgo\<close>): the digests and keyed digests;
    the locale \<open>hash_algorithm\<close> says that a message handed over in parts has the digest of the whole, and is
    interpreted on all six algorithms.
  \<^item> \<open>Web_Socket\<close>, \<open>Web_Socket_Link\<close>, \<open>Link_Properties\<close>: frames of the protocol, masked or not, in chunks of any
    size, and the state machine of a link.
  \<^item> \<open>Frame\<close>, \<open>Frame_Codec\<close>, \<open>Frame_Properties\<close>, \<open>Rpc_Messages\<close>: memory as a function from addresses with a
    capacity; a write outside of it has no result. The locale \<open>frame_codec\<close> is the contract of a field, and
    sequences of fields follow from it.
  \<^item> \<open>Ipc_Message\<close>, \<open>Ipc_Stream\<close>, \<open>Ipc_Link\<close>, \<open>Ipc_Delivery\<close>, \<open>Ipc_Properties\<close>: messages on a link as bytes; the locale
    \<open>ipc_package\<close> is the contract of what a message carries, and under it both sides of a link transfer any
    messages in buffers of any size. \<open>Ipc_Channel\<close>, \<open>Ipc_Calls\<close>: the calls on a channel, with the threads of
    callers and of the socket as events that interleave at the locks.
  \<^item> \<open>Json_Element\<close>, \<open>Json_Array\<close>, \<open>Json_Array_Facts\<close>, \<open>Json_String\<close>, \<open>Json_Text\<close>, \<open>Json_Writing\<close>, \<open>Json_Reading\<close>, \<open>Json_Boolean\<close>,
    \<open>Json_Number\<close>, \<open>Json_Number_Text\<close>, \<open>Json_Number_Reading\<close>, \<open>Json_Properties\<close> (\<^verbatim>\<open>core/JSON.h\<close>): elements that write and read
    their text in parts, with an offset that says how far they are. The locale \<open>json_element\<close> is the contract of an
    element, with the round trip over whole texts and over parts of any size; \<open>json_member\<close> adds what an array needs
    of its elements. They are interpreted on strings, booleans and numbers, and an array of such elements is one
    again, so that arrays of arrays have the round trips, too.
  \<^item> \<open>Json_Container\<close>, \<open>Json_Container_Writing\<close>, \<open>Json_Container_Reading\<close>, \<open>Json_Kinds\<close>: the objects of JSON. The locale
    \<open>json_field\<close> is what an object needs of its members, on top of \<open>json_steps\<close>, the contract that \<open>json_element\<close> has
    in common with it; an object of such members is one again (\<open>container_field\<close>). Members of several kinds are the
    elements of a sum, whose contract follows from those of its sides. \<open>Message_Config\<close>, \<open>Config_Properties\<close>
    (\<open>Config\<close> in \<^verbatim>\<open>messaging/MessageUnit.h\<close>): the configuration of traces and logs, objects in arrays in objects in an
    object, where the contracts of all elements are composed.
  \<^item> \<open>Message_Control\<close>, \<open>Control_Properties\<close> (\<^verbatim>\<open>core/MessageStore.*\<close>, \<^verbatim>\<open>messaging/MessageUnit.*\<close>): the controls of traces and
    logs, a list of metadata with flags; they are bytes in frames when a client asks for them or changes them. The
    properties compose the client's request, the unit's answer, and what the client reads; the settings keep what was last asked for,
    where they do not have the same metadata twice.

  Conventions. Unsigned integers are words, or naturals with the remainder written out; offsets into
  memory are naturals. Errors are result codes or \<open>None\<close>; the header of each theory says what \<open>None\<close> is. Locks
  are not modelled as such where they only make an operation atomic; where code runs outside of them, the
  operation is cut into steps. Assertions are not part of the release build; the theories of the controls, where the code has
  a path for what an assertion excludes, have both builds (the argument \<open>asserts\<close>), the others have the release build.
  Theorems state the conditions under which they hold; where the code goes wrong outside of them, a lemma next to
  the theorem or a finding of the manifest says how. Loops that end are recursive functions with their measure. Loops that
  may not end are partial functions with the result \<open>None\<close> for a loop that does not return: the receive
  loops of web sockets (\<open>receive_loop\<close>) and of messages (\<open>serialize_loop\<close>, \<open>deserialize_loop\<close>), the scan over a number of
  variable length (\<open>var_scan\<close>), and the loops of the cyclic buffer and of the queue with priorities; for each there
  is a theorem that it returns, or one that says for which inputs it never does. Only the two loops of a JSON
  array, and of an object, count their turns: \<open>array_turns\<close> and \<open>container_turns\<close> when writing, twice the number of characters
  and two when reading. That is enough for every element that meets the contract, since a turn then handles a
  character, completes an element or a name, or passes a comma; \<open>array_member\<close> and \<open>container_field\<close> show it. The code would repeat a
  turn that does nothing for ever. Offsets of elements stay below a bound of the contract, and each level of arrays adds 5 to it,
  each level of objects 7, so that 32 bits are enough.

  Not modelled. Sockets, files, threads, processes and the lifetime of objects: they are system calls
  and templates, what they hand to the modelled code is an argument. The proxies and stubs of COM-RPC are
  generated. The variants, enumerations, buffers and floating point numbers of JSON and its binary form, the
  messages of JSON-RPC, HTTP, URLs, the map of services with its observers, and the configuration of the host are logic of the
  program and not modelled, nor are the settings of traces and logs as a variable of the environment; secure sockets and AES
  rest on libraries that are not part of the sources. The plugins of
  Thunder Nano Services are clients of the core. The list of components in the manifest has the details.
\<close>

end
